(* ===== verification/Prelude.thy ===== *)
theory Prelude
  imports Main "HOL-Library.Word"
begin

text \<open>
  What every theory of the development shares: the names of Rust's machine integers, the
  results of computations that may panic, checked indexing of slices, writing one list into
  another, and the little-endian layout of words in byte arrays.

  The kernel, the file-system library and the user library are built in release mode
  (\<^verbatim>\<open>MODE := release\<close> in the Makefiles), where Rust's integer arithmetic wraps
  around: \<open>+\<close>, \<open>-\<close> and \<open>*\<close> on \<open>'a word\<close> are exactly those operations. A panic ends
  the kernel (\<^verbatim>\<open>lang_items.rs\<close> shuts the machine down), so it is a value of the
  result type and nothing runs after it.
\<close>

section \<open>Collections of facts\<close>

named_theorems res_simps
  \<open>the equations that compute sequences of fallible steps\<close>

named_theorems rust_defs
  \<open>definitions of small accessors, unfolded freely\<close>

section \<open>Machine integers\<close>

type_synonym u8 = "8 word"
type_synonym u32 = "32 word"
type_synonym u64 = "64 word"
type_synonym usize = "64 word"
type_synonym isize = "64 word"
type_synonym i32 = "32 word"

lemma unat64_less [simp]: "unat (w :: 64 word) < 2 ^ 64"
  by (rule order_less_le_trans [OF unsigned_less]) simp

lemma unat32_less [simp]: "unat (w :: 32 word) < 2 ^ 32"
  by (rule order_less_le_trans [OF unsigned_less]) simp

lemma unat_of_nat64: "n < 2 ^ 64 \<Longrightarrow> unat (word_of_nat n :: 64 word) = n"
  by (simp add: unat_of_nat)

lemma unat_of_nat32: "n < 2 ^ 32 \<Longrightarrow> unat (word_of_nat n :: 32 word) = n"
  by (simp add: unat_of_nat)

section \<open>Panics as values\<close>

datatype error =
    AssertFailed
  | UnwrapNone
  | IndexOutOfBounds
  | DeadLock
  | Panicked

type_synonym 'a res = "error + 'a"

definition rbind :: "'a res \<Rightarrow> ('a \<Rightarrow> 'b res) \<Rightarrow> 'b res" where
  "rbind m f = (case m of Inl e \<Rightarrow> Inl e | Inr x \<Rightarrow> f x)"

lemma rbind_Inl [simp, res_simps]: "rbind (Inl e) f = Inl e"
  by (simp add: rbind_def)

lemma rbind_Inr [simp, res_simps]: "rbind (Inr x) f = f x"
  by (simp add: rbind_def)

lemma rbind_cong [fundef_cong]:
  "m = m' \<Longrightarrow> (\<And>x. m' = Inr x \<Longrightarrow> f x = f' x) \<Longrightarrow> rbind m f = rbind m' f'"
  by (cases m') auto

lemma rbind_eq_Inr: "rbind m f = Inr y \<longleftrightarrow> (\<exists>x. m = Inr x \<and> f x = Inr y)"
  by (cases m) auto

lemma rbind_assoc: "rbind (rbind m f) g = rbind m (\<lambda>x. rbind (f x) g)"
  by (cases m) auto

lemma rbind_InrE:
  assumes "rbind m f = Inr y"
  obtains x where "m = Inr x" and "f x = Inr y"
  using assms by (auto simp: rbind_eq_Inr)

definition assertE :: "bool \<Rightarrow> unit res" where
  "assertE b = (if b then Inr () else Inl AssertFailed)"

definition unwrapE :: "'a option \<Rightarrow> 'a res" where
  "unwrapE x = (case x of None \<Rightarrow> Inl UnwrapNone | Some y \<Rightarrow> Inr y)"

definition indexE :: "'a list \<Rightarrow> nat \<Rightarrow> 'a res" where
  "indexE xs i = (if i < length xs then Inr (xs ! i) else Inl IndexOutOfBounds)"

definition updateE :: "'a list \<Rightarrow> nat \<Rightarrow> 'a \<Rightarrow> 'a list res" where
  "updateE xs i x = (if i < length xs then Inr (xs[i := x]) else Inl IndexOutOfBounds)"

text \<open>The range \<^verbatim>\<open>xs[a..b]\<close>: it panics when \<open>a > b\<close> or \<open>b\<close> is past the end.\<close>

definition sliceE :: "'a list \<Rightarrow> nat \<Rightarrow> nat \<Rightarrow> 'a list res" where
  "sliceE xs a b =
     (if a \<le> b \<and> b \<le> length xs then Inr (take (b - a) (drop a xs)) else Inl IndexOutOfBounds)"

lemma assertE_simps [simp]: "assertE True = Inr ()" "assertE False = Inl AssertFailed"
  by (simp_all add: assertE_def)

lemma unwrapE_simps [simp]: "unwrapE None = Inl UnwrapNone" "unwrapE (Some x) = Inr x"
  by (simp_all add: unwrapE_def)

lemma indexE_in [simp]: "i < length xs \<Longrightarrow> indexE xs i = Inr (xs ! i)"
  by (simp add: indexE_def)

lemma updateE_in [simp]: "i < length xs \<Longrightarrow> updateE xs i x = Inr (xs[i := x])"
  by (simp add: updateE_def)

lemma sliceE_in: "a \<le> b \<Longrightarrow> b \<le> length xs \<Longrightarrow> sliceE xs a b = Inr (take (b - a) (drop a xs))"
  by (simp add: sliceE_def)

lemma indexE_eq_Inr: "indexE xs i = Inr y \<longleftrightarrow> i < length xs \<and> y = xs ! i"
  by (auto simp: indexE_def)

lemma assertE_eq_Inr: "assertE b = Inr u \<longleftrightarrow> b"
  by (simp add: assertE_def)

lemma unwrapE_eq_Inr: "unwrapE x = Inr y \<longleftrightarrow> x = Some y"
  by (cases x) auto

section \<open>Lists\<close>

lemma find_eq_None [simp]: "find (\<lambda>v. v = x) xs = None \<longleftrightarrow> x \<notin> set xs"
  by (simp add: find_None_iff)

lemma last_notin_butlast: "distinct xs \<Longrightarrow> xs \<noteq> [] \<Longrightarrow> last xs \<notin> set (butlast xs)"
  by (metis append_butlast_last_id distinct_append disjoint_iff list.set_intros(1))

lemma set_butlast_last: "xs \<noteq> [] \<Longrightarrow> set xs = insert (last xs) (set (butlast xs))"
  by (metis append_butlast_last_id list.simps(15) rotate1.simps(2) set_rotate1)

section \<open>Writing a list into another\<close>

text \<open>\<^verbatim>\<open>dst[off..off + ys.len()].copy_from_slice(ys)\<close> for a range inside \<open>dst\<close>.\<close>

definition overwrite :: "nat \<Rightarrow> 'a list \<Rightarrow> 'a list \<Rightarrow> 'a list" where
  "overwrite off ys xs = take off xs @ ys @ drop (off + length ys) xs"

lemma length_overwrite [simp]:
  "off + length ys \<le> length xs \<Longrightarrow> length (overwrite off ys xs) = length xs"
  by (simp add: overwrite_def)

lemma nth_overwrite:
  assumes "off + length ys \<le> length xs" and "i < length xs"
  shows "overwrite off ys xs ! i =
    (if off \<le> i \<and> i < off + length ys then ys ! (i - off) else xs ! i)"
  using assms by (auto simp: overwrite_def nth_append)

lemma take_drop_overwrite:
  "off + length ys \<le> length xs \<Longrightarrow> take (length ys) (drop off (overwrite off ys xs)) = ys"
  by (simp add: overwrite_def)

lemma take_length_overwrite: "take (length xs) (overwrite 0 xs ys) = xs"
  by (simp add: overwrite_def)

lemma overwrite_Nil [simp]: "overwrite off [] xs = xs"
  by (simp add: overwrite_def)

lemma take_drop_overwrite_before:
  "a + n \<le> off \<Longrightarrow> off + length ys \<le> length xs \<Longrightarrow>
   take n (drop a (overwrite off ys xs)) = take n (drop a xs)"
  by (rule nth_equalityI) (auto simp: nth_overwrite)

lemma take_drop_overwrite_after:
  "off + length ys \<le> a \<Longrightarrow> a \<le> length xs \<Longrightarrow>
   take n (drop a (overwrite off ys xs)) = take n (drop a xs)"
  by (rule nth_equalityI) (auto simp: nth_overwrite)

lemma overwrite_take_drop:
  "off + n \<le> length xs \<Longrightarrow> overwrite off (take n (drop off xs)) xs = xs"
  by (rule nth_equalityI) (auto simp: nth_overwrite)

section \<open>Little-endian words in byte arrays\<close>

text \<open>
  RISC-V is little-endian. \<open>le_enc k w\<close> is the \<open>k\<close>-byte layout of \<open>w\<close>, \<open>le_dec\<close> reads it
  back; \<open>enc_words\<close> and \<open>dec_words\<close> lay out an array of such words. They are what a
  reference to a typed object inside a byte buffer means.
\<close>

definition le_enc :: "nat \<Rightarrow> 'a::len word \<Rightarrow> u8 list" where
  "le_enc k w = map (\<lambda>i. ucast (drop_bit (8 * i) w)) [0..<k]"

fun le_dec :: "u8 list \<Rightarrow> 'a::len word" where
  "le_dec [] = 0"
| "le_dec (b # bs) = or (ucast b) (push_bit 8 (le_dec bs))"

lemma length_le_enc [simp]: "length (le_enc k w) = k"
  by (simp add: le_enc_def)

lemma nth_le_enc: "i < k \<Longrightarrow> le_enc k w ! i = ucast (drop_bit (8 * i) w)"
  by (simp add: le_enc_def)

lemma bit_le_dec:
  "bit (le_dec bs :: 'a::len word) n \<longleftrightarrow>
     n < LENGTH('a) \<and> n div 8 < length bs \<and> bit (bs ! (n div 8)) (n mod 8)"
proof (induction bs arbitrary: n)
  case Nil
  show ?case by simp
next
  case (Cons b bs)
  show ?case
  proof (cases "n < 8")
    case True
    then show ?thesis by (auto simp: bit_simps)
  next
    case False
    then have "n div 8 = Suc ((n - 8) div 8)" "n mod 8 = (n - 8) mod 8"
      by (simp_all add: le_div_geq le_mod_geq)
    moreover have "\<not> bit b n" using False by (auto dest: bit_imp_le_length)
    ultimately show ?thesis using False Cons.IH [of "n - 8"]
      by (auto simp: bit_simps)
  qed
qed

lemma le_dec_enc: "LENGTH('a) = 8 * k \<Longrightarrow> le_dec (le_enc k w) = (w :: 'a::len word)"
  by (rule bit_word_eqI) (auto simp: bit_le_dec nth_le_enc bit_simps less_mult_imp_div_less)

lemma le_enc_dec:
  assumes "LENGTH('a) = 8 * length bs"
  shows "le_enc (length bs) (le_dec bs :: 'a::len word) = bs"
proof (rule nth_equalityI)
  fix i
  assume "i < length (le_enc (length bs) (le_dec bs :: 'a word))"
  then have i: "i < length bs" by simp
  show "le_enc (length bs) (le_dec bs :: 'a word) ! i = bs ! i"
  proof (rule bit_word_eqI)
    fix n
    assume "n < LENGTH(8)"
    then have n: "n < 8" by simp
    then have "(8 * i + n) div 8 = i" "(8 * i + n) mod 8 = n" by simp_all
    with i n assms show "bit (le_enc (length bs) (le_dec bs :: 'a word) ! i) n = bit (bs ! i) n"
      by (auto simp: nth_le_enc bit_simps bit_le_dec)
  qed
qed simp

definition enc_words :: "nat \<Rightarrow> 'a::len word list \<Rightarrow> u8 list" where
  "enc_words k ws = concat (map (le_enc k) ws)"

definition dec_words :: "nat \<Rightarrow> nat \<Rightarrow> u8 list \<Rightarrow> 'a::len word list" where
  "dec_words k n bs = map (\<lambda>i. le_dec (take k (drop (k * i) bs))) [0..<n]"

lemma enc_words_simps [simp]:
  "enc_words k [] = []"
  "enc_words k (w # ws) = le_enc k w @ enc_words k ws"
  by (simp_all add: enc_words_def)

lemma length_enc_words [simp]: "length (enc_words k ws) = k * length ws"
  by (induction ws) simp_all

lemma length_dec_words [simp]: "length (dec_words k n bs) = n"
  by (simp add: dec_words_def)

lemma dec_words_0 [simp]: "dec_words k 0 bs = []"
  by (simp add: dec_words_def)

lemma dec_words_Suc:
  "dec_words k (Suc n) bs = le_dec (take k bs) # dec_words k n (drop k bs)"
proof -
  have "[0..<Suc n] = 0 # map Suc [0..<n]"
    by (simp add: map_Suc_upt upt_conv_Cons)
  then show ?thesis
    by (simp add: dec_words_def comp_def add.commute)
qed

lemma dec_words_take: "k * n \<le> j \<Longrightarrow> dec_words k n (take j bs) = dec_words k n bs"
proof -
  assume j: "k * n \<le> j"
  have "k * i + k \<le> j" if "i < n" for i
    using j that mult_le_mono2 [of "Suc i" n k] by simp
  then show ?thesis
    unfolding dec_words_def by (intro map_cong refl) (fastforce simp: take_drop min_def)
qed

lemma dec_enc_words:
  "LENGTH('a) = 8 * k \<Longrightarrow> dec_words k (length ws) (enc_words k ws) = (ws :: 'a::len word list)"
  by (induction ws) (simp_all add: dec_words_Suc le_dec_enc)

lemma enc_dec_words:
  "LENGTH('a) = 8 * k \<Longrightarrow> length bs = k * n \<Longrightarrow>
   enc_words k (dec_words k n bs :: 'a::len word list) = bs"
proof (induction n arbitrary: bs)
  case 0
  then show ?case by simp
next
  case (Suc n)
  then have "length (take k bs) = k" "length (drop k bs) = k * n" by simp_all
  with Suc show ?case
    using le_enc_dec [of "take k bs", where 'a = 'a] by (simp add: dec_words_Suc)
qed

end
