(* ===== verification/Address.thy ===== *)
theory Address
  imports Prelude
begin

unbundle bit_operations_syntax

text \<open>
  Addresses and page numbers (\<^verbatim>\<open>os/src/mm/address.rs\<close>) and the constants of
  \<^verbatim>\<open>os/src/config.rs\<close> they use. The four tuple structs are datatypes with one
  constructor around a 64-bit word, so that a physical page number cannot be used as a
  virtual address, as in the source.
\<close>

section \<open>Constants\<close>

definition PAGE_SIZE :: usize where "PAGE_SIZE = 0x1000"
definition PAGE_SIZE_BITS :: nat where "PAGE_SIZE_BITS = 0xc"
definition KERNEL_STACK_SIZE :: usize where "KERNEL_STACK_SIZE = 4096 * 2"
definition USER_STACK_SIZE :: usize where "USER_STACK_SIZE = 4096"
definition MEMORY_END :: usize where "MEMORY_END = 0x80c00000"
definition TRAMPOLINE :: usize where "TRAMPOLINE = - 1 - PAGE_SIZE + 1"
definition TRAP_CONTEXT :: usize where "TRAP_CONTEXT = TRAMPOLINE - PAGE_SIZE"

lemmas config_defs =
  PAGE_SIZE_def PAGE_SIZE_BITS_def KERNEL_STACK_SIZE_def USER_STACK_SIZE_def
  MEMORY_END_def TRAMPOLINE_def TRAP_CONTEXT_def

section \<open>The four kinds of numbers\<close>

datatype phys_addr = PhysAddr (pa_val: usize)
datatype virt_addr = VirtAddr (va_val: usize)
datatype phys_page_num = PhysPageNum (ppn_val: usize)
datatype virt_page_num = VirtPageNum (vpn_val: usize)

text \<open>\<^verbatim>\<open>derive(Ord, PartialOrd)\<close> on the tuple structs compares the number inside.\<close>

instantiation virt_page_num :: linorder
begin

definition less_eq_virt_page_num :: "virt_page_num \<Rightarrow> virt_page_num \<Rightarrow> bool" where
  "less_eq_virt_page_num a b \<longleftrightarrow> vpn_val a \<le> vpn_val b"

definition less_virt_page_num :: "virt_page_num \<Rightarrow> virt_page_num \<Rightarrow> bool" where
  "less_virt_page_num a b \<longleftrightarrow> vpn_val a < vpn_val b"

instance
  by standard
    (auto simp: less_eq_virt_page_num_def less_virt_page_num_def intro: virt_page_num.expand)

end

instantiation virt_addr :: linorder
begin

definition less_eq_virt_addr :: "virt_addr \<Rightarrow> virt_addr \<Rightarrow> bool" where
  "less_eq_virt_addr a b \<longleftrightarrow> va_val a \<le> va_val b"

definition less_virt_addr :: "virt_addr \<Rightarrow> virt_addr \<Rightarrow> bool" where
  "less_virt_addr a b \<longleftrightarrow> va_val a < va_val b"

instance
  by standard
    (auto simp: less_eq_virt_addr_def less_virt_addr_def intro: virt_addr.expand)

end

section \<open>Addresses and pages\<close>

definition va_floor :: "virt_addr \<Rightarrow> virt_page_num" where
  "va_floor v = VirtPageNum (va_val v div PAGE_SIZE)"

definition va_ceil :: "virt_addr \<Rightarrow> virt_page_num" where
  "va_ceil v = VirtPageNum ((va_val v - 1 + PAGE_SIZE) div PAGE_SIZE)"

definition va_page_offset :: "virt_addr \<Rightarrow> usize" where
  "va_page_offset v = va_val v AND (PAGE_SIZE - 1)"

definition va_aligned :: "virt_addr \<Rightarrow> bool" where
  "va_aligned v \<longleftrightarrow> va_page_offset v = 0"

text \<open>\<^verbatim>\<open>From<VirtAddr> for VirtPageNum\<close> asserts that the address is aligned.\<close>

definition vpn_of_va :: "virt_addr \<Rightarrow> virt_page_num res" where
  "vpn_of_va v = rbind (assertE (va_page_offset v = 0)) (\<lambda>_. Inr (va_floor v))"

definition va_of_vpn :: "virt_page_num \<Rightarrow> virt_addr" where
  "va_of_vpn n = VirtAddr (push_bit PAGE_SIZE_BITS (vpn_val n))"

definition pa_floor :: "phys_addr \<Rightarrow> phys_page_num" where
  "pa_floor p = PhysPageNum (pa_val p div PAGE_SIZE)"

definition pa_ceil :: "phys_addr \<Rightarrow> phys_page_num" where
  "pa_ceil p = PhysPageNum ((pa_val p - 1 + PAGE_SIZE) div PAGE_SIZE)"

definition pa_page_offset :: "phys_addr \<Rightarrow> usize" where
  "pa_page_offset p = pa_val p AND (PAGE_SIZE - 1)"

definition pa_aligned :: "phys_addr \<Rightarrow> bool" where
  "pa_aligned p \<longleftrightarrow> pa_page_offset p = 0"

definition ppn_of_pa :: "phys_addr \<Rightarrow> phys_page_num res" where
  "ppn_of_pa p = rbind (assertE (pa_page_offset p = 0)) (\<lambda>_. Inr (pa_floor p))"

definition pa_of_ppn :: "phys_page_num \<Rightarrow> phys_addr" where
  "pa_of_ppn n = PhysAddr (push_bit PAGE_SIZE_BITS (ppn_val n))"

section \<open>The three indices of a virtual page number\<close>

text \<open>
  The loop of \<^verbatim>\<open>indexes\<close> runs over \<open>i = 2, 1, 0\<close>: it stores the low nine bits and shifts.
\<close>

fun indexes_loop :: "nat list \<Rightarrow> usize \<Rightarrow> usize list \<Rightarrow> usize list" where
  "indexes_loop [] vpn idx = idx"
| "indexes_loop (i # is) vpn idx = indexes_loop is (drop_bit 9 vpn) (idx[i := vpn AND 511])"

definition indexes :: "virt_page_num \<Rightarrow> usize list" where
  "indexes n = indexes_loop [2, 1, 0] (vpn_val n) [0, 0, 0]"

section \<open>Ranges of page numbers\<close>

record vpn_range =
  range_l :: virt_page_num
  range_r :: virt_page_num

definition vpn_range_new :: "virt_page_num \<Rightarrow> virt_page_num \<Rightarrow> vpn_range res" where
  "vpn_range_new s e = rbind (assertE (s \<le> e)) (\<lambda>_. Inr \<lparr>range_l = s, range_r = e\<rparr>)"

definition vpn_step :: "virt_page_num \<Rightarrow> virt_page_num" where
  "vpn_step n = VirtPageNum (vpn_val n + 1)"

definition ppn_step :: "phys_page_num \<Rightarrow> phys_page_num" where
  "ppn_step n = PhysPageNum (ppn_val n + 1)"

text \<open>\<^verbatim>\<open>SimpleRangeIterator::next\<close>: the iterator stops when \<^verbatim>\<open>current == end\<close>.\<close>

record vpn_range_iter =
  iter_current :: virt_page_num
  iter_end :: virt_page_num

definition vpn_range_into_iter :: "vpn_range \<Rightarrow> vpn_range_iter" where
  "vpn_range_into_iter r = \<lparr>iter_current = range_l r, iter_end = range_r r\<rparr>"

definition vpn_range_next :: "vpn_range_iter \<Rightarrow> virt_page_num option \<times> vpn_range_iter" where
  "vpn_range_next it =
     (if iter_current it = iter_end it then (None, it)
      else (Some (iter_current it), it\<lparr>iter_current := vpn_step (iter_current it)\<rparr>))"

text \<open>What a \<^verbatim>\<open>for\<close> loop over the iterator visits. Stepping wraps, so it always stops.\<close>

function vpn_iter_items :: "vpn_range_iter \<Rightarrow> virt_page_num list" where
  "vpn_iter_items it =
     (case vpn_range_next it of
        (None, _) \<Rightarrow> []
      | (Some n, it') \<Rightarrow> n # vpn_iter_items it')"
  by pat_completeness auto

lemma word_minus_Suc_less:
  fixes a b :: "'a::len word"
  assumes "a \<noteq> b"
  shows "unat (b - (a + 1)) < unat (b - a)"
proof -
  have "b - a \<noteq> 0" using assms by simp
  then have "unat (b - a - 1) < unat (b - a)" by (simp add: measure_unat)
  then show ?thesis by (simp add: algebra_simps)
qed

termination vpn_iter_items
  by (relation "measure (\<lambda>it. unat (vpn_val (iter_end it) - vpn_val (iter_current it)))")
    (auto simp: vpn_range_next_def vpn_step_def intro!: word_minus_Suc_less
      dest: virt_page_num.expand split: if_splits)

declare vpn_iter_items.simps [simp del]

definition vpn_range_items :: "vpn_range \<Rightarrow> virt_page_num list" where
  "vpn_range_items r = vpn_iter_items (vpn_range_into_iter r)"

section \<open>Lemmas\<close>

lemma unat_Suc_less:
  assumes "(c :: usize) < e"
  shows "unat (c + 1) = Suc (unat c)"
proof -
  have "c \<noteq> - 1" using assms by auto
  then have "1 + c \<noteq> 0" by (metis add.commute add_eq_0_iff2 minus_add_cancel)
  then show ?thesis by (simp add: unatSuc add.commute)
qed

lemma word_less_Suc_iff: "(c :: usize) < e \<Longrightarrow> x < c + 1 \<longleftrightarrow> x < c \<or> x = c"
  by (auto simp: word_less_nat_alt unat_Suc_less less_Suc_eq unsigned_word_eqI)

lemma page_mask: "(w :: usize) AND (PAGE_SIZE - 1) = take_bit 12 w"
  by (simp add: PAGE_SIZE_def take_bit_eq_mask mask_eq_exp_minus_1)

lemma div_PAGE_SIZE: "(w :: usize) div PAGE_SIZE = drop_bit 12 w"
  by (simp add: PAGE_SIZE_def drop_bit_eq_div)

lemma unat_va_floor: "unat (vpn_val (va_floor v)) = unat (va_val v) div 4096"
  by (simp add: va_floor_def unat_div PAGE_SIZE_def)

lemma unat_page_offset: "unat (va_page_offset v) = unat (va_val v) mod 4096"
  unfolding va_page_offset_def page_mask by (simp add: take_bit_eq_mod unat_mod)

lemma page_offset_less: "unat (va_page_offset v) < 4096"
  by (simp add: unat_page_offset)

lemma va_decompose: "va_val v = va_val (va_of_vpn (va_floor v)) + va_page_offset v"
proof -
  have "push_bit 12 (drop_bit 12 (va_val v)) + take_bit 12 (va_val v) = va_val v"
    by (rule bits_ident)
  then show ?thesis
    by (simp add: va_of_vpn_def va_floor_def va_page_offset_def div_PAGE_SIZE page_mask
        PAGE_SIZE_BITS_def)
qed

lemma va_of_vpn_offset: "va_page_offset (va_of_vpn n) = 0"
  by (simp add: va_page_offset_def va_of_vpn_def page_mask PAGE_SIZE_BITS_def take_bit_push_bit)

lemma va_of_vpn_floor:
  assumes "unat (vpn_val n) < 2 ^ 52"
  shows "va_floor (va_of_vpn n) = n"
proof -
  have "drop_bit 12 (push_bit 12 (vpn_val n)) = take_bit 52 (vpn_val n)"
    by (rule bit_word_eqI) (auto simp: bit_simps)
  also have "\<dots> = vpn_val n"
    using assms by (intro unsigned_word_eqI [where 'a = nat]) (simp add: unsigned_take_bit_eq take_bit_nat_eq_self)
  finally show ?thesis
    by (simp add: va_floor_def va_of_vpn_def div_PAGE_SIZE PAGE_SIZE_BITS_def)
qed

lemma unat_va_ceil:
  assumes "unat (va_val v) + 4095 < 2 ^ 64"
  shows "unat (vpn_val (va_ceil v)) = (unat (va_val v) + 4095) div 4096"
proof -
  have "va_val v - 1 + PAGE_SIZE = va_val v + 4095"
    by (simp add: PAGE_SIZE_def)
  moreover have "unat (va_val v + 4095) = unat (va_val v) + 4095"
    using assms by (subst unat_add_lem [THEN iffD1]) simp_all
  ultimately show ?thesis
    by (simp only: va_ceil_def virt_page_num.sel unat_div PAGE_SIZE_def) simp
qed

lemma indexes_eq:
  "indexes n = [drop_bit 18 (vpn_val n) AND 511, drop_bit 9 (vpn_val n) AND 511, vpn_val n AND 511]"
  by (simp add: indexes_def numeral_2_eq_2 drop_bit_drop_bit)

lemma length_indexes [simp]: "length (indexes n) = 3"
  by (simp add: indexes_eq)

lemma mask9: "(w :: usize) AND 511 = take_bit 9 w"
  by (simp add: take_bit_eq_mask mask_eq_exp_minus_1)

lemma indexes_bound: "i \<in> set (indexes n) \<Longrightarrow> unat i < 512"
  by (auto simp: indexes_eq mask9 take_bit_eq_mod unat_mod)

lemma indexes_recompose:
  "push_bit 18 (indexes n ! 0) OR push_bit 9 (indexes n ! 1) OR indexes n ! 2
     = take_bit 27 (vpn_val n)"
proof (rule bit_word_eqI)
  fix k
  assume "k < LENGTH(64)"
  consider "k < 9" | "9 \<le> k" "k < 18" | "18 \<le> k" by linarith
  then show "bit (push_bit 18 (indexes n ! 0) OR push_bit 9 (indexes n ! 1) OR indexes n ! 2) k
      = bit (take_bit 27 (vpn_val n)) k"
    by cases (auto simp: indexes_eq mask9 bit_simps numeral_2_eq_2)
qed

lemma indexes_inject:
  "indexes m = indexes n \<longleftrightarrow> take_bit 27 (vpn_val m) = take_bit 27 (vpn_val n)"
proof
  assume "indexes m = indexes n"
  then show "take_bit 27 (vpn_val m) = take_bit 27 (vpn_val n)"
    by (metis indexes_recompose)
next
  assume eq: "take_bit 27 (vpn_val m) = take_bit 27 (vpn_val n)"
  have "take_bit 9 (drop_bit k (vpn_val m)) = take_bit 9 (drop_bit k (vpn_val n))" if "k \<le> 18" for k
  proof -
    have "take_bit 9 (drop_bit k (take_bit 27 (vpn_val x))) = take_bit 9 (drop_bit k (vpn_val x))" for x
      using that by (intro bit_word_eqI) (auto simp: bit_simps)
    with eq show ?thesis by metis
  qed
  from this [of 0] this [of 9] this [of 18] show "indexes m = indexes n"
    by (simp add: indexes_eq mask9)
qed

lemma vpn_iter_items_upt:
  assumes "c \<le> e"
  shows "vpn_iter_items \<lparr>iter_current = VirtPageNum c, iter_end = VirtPageNum e\<rparr>
    = map (\<lambda>k. VirtPageNum (word_of_nat k)) [unat c..<unat e]"
  using assms
proof (induction "unat (e - c)" arbitrary: c rule: less_induct)
  case less
  show ?case
  proof (cases "c = e")
    case True
    then show ?thesis
      by (subst vpn_iter_items.simps) (simp add: vpn_range_next_def)
  next
    case False
    with less.prems have lt: "c < e" by simp
    then have le: "c + 1 \<le> e" by (rule inc_le)
    have s: "unat (c + 1) = Suc (unat c)"
      using lt by (simp add: unat_Suc_less)
    have "vpn_iter_items \<lparr>iter_current = VirtPageNum c, iter_end = VirtPageNum e\<rparr>
        = VirtPageNum c # vpn_iter_items \<lparr>iter_current = VirtPageNum (c + 1), iter_end = VirtPageNum e\<rparr>"
      using False by (subst vpn_iter_items.simps) (simp add: vpn_range_next_def vpn_step_def)
    also have "\<dots> = VirtPageNum c # map (\<lambda>k. VirtPageNum (word_of_nat k)) [Suc (unat c)..<unat e]"
      using less.hyps [OF word_minus_Suc_less [OF False] le] s by simp
    also have "\<dots> = map (\<lambda>k. VirtPageNum (word_of_nat k)) [unat c..<unat e]"
      using lt by (simp add: upt_conv_Cons word_less_nat_alt)
    finally show ?thesis .
  qed
qed

text \<open>The pages of a range, in order.\<close>

lemma vpn_iter_items_range:
  "iter_current it \<le> iter_end it \<Longrightarrow>
   set (vpn_iter_items it) = {v. iter_current it \<le> v \<and> v < iter_end it} \<and> sorted_wrt (<) (vpn_iter_items it)
   \<and> length (vpn_iter_items it) = unat (vpn_val (iter_end it)) - unat (vpn_val (iter_current it))"
proof (induction it rule: vpn_iter_items.induct)
  case (1 it)
  show ?case
  proof (cases "iter_current it = iter_end it")
    case True
    then show ?thesis by (subst (1 2 3) vpn_iter_items.simps) (auto simp: vpn_range_next_def)
  next
    case False
    let ?c = "vpn_val (iter_current it)" and ?e = "vpn_val (iter_end it)"
    let ?it = "it\<lparr>iter_current := vpn_step (iter_current it)\<rparr>"
    have lt: "?c < ?e"
      using False 1(2) order.not_eq_order_implies_strict [of "iter_current it" "iter_end it"]
      by (simp add: less_virt_page_num_def)
    have nx: "vpn_range_next it = (Some (iter_current it), ?it)" using False by (simp add: vpn_range_next_def)
    have le: "iter_current ?it \<le> iter_end ?it"
      using lt by (simp add: vpn_step_def less_eq_virt_page_num_def inc_le)
    note ih = 1(1) [OF nx [symmetric] refl le]
    have step: "vpn_step (iter_current it) \<le> v \<longleftrightarrow> iter_current it < v" for v
      using lt by (auto simp: vpn_step_def less_eq_virt_page_num_def less_virt_page_num_def word_le_nat_alt
          word_less_nat_alt unat_Suc_less)
    have items: "vpn_iter_items it = iter_current it # vpn_iter_items ?it"
      by (subst vpn_iter_items.simps) (simp add: nx)
    have lt': "iter_current it < iter_end it" using lt by (simp add: less_virt_page_num_def)
    have ih_set: "set (vpn_iter_items ?it) = {v. iter_current it < v \<and> v < iter_end it}"
      and ih_len: "length (vpn_iter_items ?it) = unat ?e - Suc (unat ?c)" and ih_sort: "sorted_wrt (<) (vpn_iter_items ?it)"
      using ih unat_Suc_less [OF lt] by (simp_all add: step) (simp add: vpn_step_def)
    show ?thesis
    proof (intro conjI)
      show "set (vpn_iter_items it) = {v. iter_current it \<le> v \<and> v < iter_end it}"
        using ih_set lt' unfolding items by (auto simp: le_less)
      show "sorted_wrt (<) (vpn_iter_items it)" using ih_sort ih_set unfolding items by simp
      show "length (vpn_iter_items it) = unat ?e - unat ?c"
        using ih_len lt unfolding items by (simp add: word_less_nat_alt)
    qed
  qed
qed

lemma vpn_range_items_range:
  assumes "range_l r \<le> range_r r"
  shows "set (vpn_range_items r) = {v. range_l r \<le> v \<and> v < range_r r}" and "sorted_wrt (<) (vpn_range_items r)"
    and "length (vpn_range_items r) = unat (vpn_val (range_r r)) - unat (vpn_val (range_l r))"
  using vpn_iter_items_range [of "vpn_range_into_iter r"] assms
  by (simp_all add: vpn_range_items_def vpn_range_into_iter_def)

end
