(* ===== verification/Id_Allocator.thy ===== *)
theory Id_Allocator
  imports Prelude
begin

text \<open>
  The contract the kernel's two recycling allocators share: the stack allocator of physical
  frames (\<^verbatim>\<open>mm/frame_allocator.rs\<close>) and the allocator of process identifiers
  (\<^verbatim>\<open>task/pid.rs\<close>). A client owns the identifiers it was given until it gives them
  back; the interface says that no identifier has two owners.
\<close>

text \<open>
  The histories of an allocator: \<open>live\<close> lists the identifiers handed out and not yet given
  back, the newest first. Only live identifiers are given back (each handle is dropped once).
\<close>

inductive alloc_history ::
  "('s \<Rightarrow> ('i \<times> 's) option) \<Rightarrow> ('s \<Rightarrow> 'i \<Rightarrow> 's res) \<Rightarrow> ('s \<Rightarrow> bool) \<Rightarrow> 's \<Rightarrow> 's \<Rightarrow> 'i list \<Rightarrow> bool"
  for alloc :: "'s \<Rightarrow> ('i \<times> 's) option"
    and dealloc :: "'s \<Rightarrow> 'i \<Rightarrow> 's res"
    and room :: "'s \<Rightarrow> bool"
    and s0 :: 's
where
  hist_start: "alloc_history alloc dealloc room s0 s0 []"
| hist_alloc:
    "alloc_history alloc dealloc room s0 s live \<Longrightarrow> room s \<Longrightarrow> alloc s = Some (i, s') \<Longrightarrow>
     alloc_history alloc dealloc room s0 s' (i # live)"
| hist_dealloc:
    "alloc_history alloc dealloc room s0 s live \<Longrightarrow> i \<in> set live \<Longrightarrow> dealloc s i = Inr s' \<Longrightarrow>
     alloc_history alloc dealloc room s0 s' (remove1 i live)"

locale id_allocator =
  fixes alloc :: "'s \<Rightarrow> ('i \<times> 's) option"
    and dealloc :: "'s \<Rightarrow> 'i \<Rightarrow> 's res"
    and inv :: "'s \<Rightarrow> bool"
    and used :: "'s \<Rightarrow> 'i set"
    and room :: "'s \<Rightarrow> bool"
    and managed :: "'i set"
  assumes alloc_used:
      "inv s \<Longrightarrow> room s \<Longrightarrow> alloc s = Some (i, s') \<Longrightarrow> i \<notin> used s \<and> used s' = insert i (used s)"
    and alloc_inv: "inv s \<Longrightarrow> room s \<Longrightarrow> alloc s = Some (i, s') \<Longrightarrow> inv s'"
    and dealloc_used:
      "inv s \<Longrightarrow> i \<in> used s \<Longrightarrow> \<exists>s'. dealloc s i = Inr s' \<and> inv s' \<and> used s' = used s - {i}"
    and dealloc_unused: "inv s \<Longrightarrow> i \<in> managed \<Longrightarrow> i \<notin> used s \<Longrightarrow> \<exists>e. dealloc s i = Inl e"
    and used_managed: "inv s \<Longrightarrow> used s \<subseteq> managed"
begin

lemma dealloc_InrD:
  "inv s \<Longrightarrow> i \<in> used s \<Longrightarrow> dealloc s i = Inr s' \<Longrightarrow> inv s' \<and> used s' = used s - {i}"
  using dealloc_used by fastforce

lemma double_free_panics:
  assumes "inv s" and "i \<in> used s" and "dealloc s i = Inr s'"
  shows "\<exists>e. dealloc s' i = Inl e"
  using assms dealloc_InrD [OF assms] used_managed [OF assms(1)] dealloc_unused [of s' i] by auto

lemma alloc_after_dealloc_conserves:
  assumes "inv s" and "i \<in> used s" and "dealloc s i = Inr s'" and "room s'" and "alloc s' = Some (j, s'')"
  shows "j \<notin> used s - {i} \<and> used s'' = insert j (used s - {i})"
  using dealloc_InrD [OF assms(1-3)] alloc_used [OF _ assms(4,5)] by simp

lemma history_live:
  assumes "alloc_history alloc dealloc room s0 s live" and "inv s0" and "used s0 = {}"
  shows "inv s \<and> distinct live \<and> set live = used s"
  using assms
proof (induction rule: alloc_history.induct)
  case hist_start
  then show ?case by simp
next
  case (hist_alloc s live i s')
  then show ?case using alloc_used [of s i s'] alloc_inv [of s i s'] by auto
next
  case (hist_dealloc s live i s')
  then show ?case using dealloc_InrD [of s i s'] by auto
qed

lemma history_dealloc_ok:
  assumes "alloc_history alloc dealloc room s0 s live" and "inv s0" and "used s0 = {}" and "i \<in> set live"
  shows "\<exists>s'. dealloc s i = Inr s'"
  using history_live [OF assms(1-3)] assms(4) dealloc_used by blast

end

end
