(* ===== verification/Frame_Allocator.thy ===== *)
theory Frame_Allocator
  imports Address Id_Allocator
begin

text \<open>
  Physical memory and the stack allocator of its frames (\<^verbatim>\<open>os/src/mm/frame_allocator.rs\<close>).
  Memory is a map from physical page numbers to the 4096 bytes of the page, which the kernel
  reaches through the identity mapping (\<^verbatim>\<open>PhysPageNum::get_bytes_array\<close>).
\<close>

section \<open>The allocator\<close>

record stack_frame_allocator =
  fa_current :: usize
  fa_end :: usize
  fa_recycled :: "usize list"

definition fa_new :: stack_frame_allocator where
  "fa_new = \<lparr>fa_current = 0, fa_end = 0, fa_recycled = []\<rparr>"

definition fa_init :: "phys_page_num \<Rightarrow> phys_page_num \<Rightarrow> stack_frame_allocator \<Rightarrow> stack_frame_allocator" where
  "fa_init l r s = s\<lparr>fa_current := ppn_val l, fa_end := ppn_val r\<rparr>"

definition fa_usable_frames :: "stack_frame_allocator \<Rightarrow> usize" where
  "fa_usable_frames s = fa_end s - fa_current s + word_of_nat (length (fa_recycled s))"

text \<open>\<^verbatim>\<open>recycled\<close> is a stack: \<^verbatim>\<open>push\<close> and \<^verbatim>\<open>pop\<close> work at the end of the vector.\<close>

definition fa_alloc :: "stack_frame_allocator \<Rightarrow> (phys_page_num \<times> stack_frame_allocator) option" where
  "fa_alloc s =
     (if fa_recycled s \<noteq> [] then
        Some (PhysPageNum (last (fa_recycled s)), s\<lparr>fa_recycled := butlast (fa_recycled s)\<rparr>)
      else if fa_current s = fa_end s then None
      else (let s' = s\<lparr>fa_current := fa_current s + 1\<rparr>
            in Some (PhysPageNum (fa_current s' - 1), s')))"

definition fa_dealloc :: "stack_frame_allocator \<Rightarrow> phys_page_num \<Rightarrow> stack_frame_allocator res" where
  "fa_dealloc s n =
     (let ppn = ppn_val n in
      if fa_current s \<le> ppn \<or> find (\<lambda>v. v = ppn) (fa_recycled s) \<noteq> None then Inl Panicked
      else Inr (s\<lparr>fa_recycled := fa_recycled s @ [ppn]\<rparr>))"

section \<open>Frames with their contents\<close>

record machine =
  phys :: "phys_page_num \<Rightarrow> u8 list"
  frames :: stack_frame_allocator

text \<open>\<^verbatim>\<open>FrameTracker::new\<close> clears the page.\<close>

definition frame_tracker_new :: "phys_page_num \<Rightarrow> machine \<Rightarrow> machine" where
  "frame_tracker_new n m = m\<lparr>phys := (phys m)(n := map (\<lambda>_. 0) (phys m n))\<rparr>"

definition frame_alloc :: "machine \<Rightarrow> phys_page_num option \<times> machine" where
  "frame_alloc m =
     (case fa_alloc (frames m) of
        None \<Rightarrow> (None, m)
      | Some (n, fa) \<Rightarrow> (Some n, frame_tracker_new n (m\<lparr>frames := fa\<rparr>)))"

text \<open>Also what dropping a \<^verbatim>\<open>FrameTracker\<close> does.\<close>

definition frame_dealloc :: "phys_page_num \<Rightarrow> machine \<Rightarrow> machine res" where
  "frame_dealloc n m = rbind (fa_dealloc (frames m) n) (\<lambda>fa. Inr (m\<lparr>frames := fa\<rparr>))"

definition usable_frames :: "machine \<Rightarrow> usize" where
  "usable_frames m = fa_usable_frames (frames m)"

text \<open>\<^verbatim>\<open>ekernel\<close> is the end of the kernel image, a symbol of the linker script.\<close>

definition init_frame_allocator :: "usize \<Rightarrow> machine \<Rightarrow> machine" where
  "init_frame_allocator ekernel m =
     m\<lparr>frames := fa_init (pa_ceil (PhysAddr ekernel)) (pa_floor (PhysAddr MEMORY_END)) (frames m)\<rparr>"

section \<open>The invariant and the interface\<close>

text \<open>
  The invariant of an allocator initialised with \<open>l\<close> as its first frame. The frames in use
  are those below \<^verbatim>\<open>current\<close> that are not recycled.
\<close>

definition fa_inv :: "usize \<Rightarrow> stack_frame_allocator \<Rightarrow> bool" where
  "fa_inv l s \<longleftrightarrow> l \<le> fa_current s \<and> fa_current s \<le> fa_end s \<and> distinct (fa_recycled s)
     \<and> (\<forall>x \<in> set (fa_recycled s). l \<le> x \<and> x < fa_current s)"

definition fa_used :: "usize \<Rightarrow> stack_frame_allocator \<Rightarrow> phys_page_num set" where
  "fa_used l s = {n. l \<le> ppn_val n \<and> ppn_val n < fa_current s \<and> ppn_val n \<notin> set (fa_recycled s)}"

lemma fa_alloc_recycled:
  assumes "fa_inv l s" and ne: "fa_recycled s \<noteq> []" and al: "fa_alloc s = Some (n, s')"
  shows "n \<notin> fa_used l s \<and> fa_used l s' = insert n (fa_used l s) \<and> fa_inv l s'"
proof -
  let ?r = "fa_recycled s"
  have split: "set ?r = insert (last ?r) (set (butlast ?r))"
    using ne by (rule set_butlast_last)
  from al ne have n: "n = PhysPageNum (last ?r)" and s': "s' = s\<lparr>fa_recycled := butlast ?r\<rparr>"
    by (auto simp: fa_alloc_def)
  show ?thesis
    using assms(1) ne split last_notin_butlast [of ?r]
    by (auto simp: fa_inv_def fa_used_def n s' distinct_butlast intro: phys_page_num.expand)
qed

lemma fa_alloc_fresh:
  assumes "fa_inv l s" and e: "fa_recycled s = []" and al: "fa_alloc s = Some (n, s')"
  shows "n \<notin> fa_used l s \<and> fa_used l s' = insert n (fa_used l s) \<and> fa_inv l s'"
proof -
  from al e have ne: "fa_current s \<noteq> fa_end s" and n: "n = PhysPageNum (fa_current s)"
    and s': "s' = s\<lparr>fa_current := fa_current s + 1\<rparr>"
    by (auto simp: fa_alloc_def Let_def split: if_splits)
  from assms(1) ne have lt: "fa_current s < fa_end s" by (auto simp: fa_inv_def order_less_le)
  then have "l \<le> fa_current s + 1"
    using assms(1) by (auto simp: fa_inv_def word_le_nat_alt unat_Suc_less)
  with assms(1) lt e show ?thesis
    by (auto simp: fa_inv_def fa_used_def n s' word_less_Suc_iff inc_le intro: phys_page_num.expand)
qed

lemma fa_alloc_step:
  "fa_inv l s \<Longrightarrow> fa_alloc s = Some (n, s') \<Longrightarrow>
   n \<notin> fa_used l s \<and> fa_used l s' = insert n (fa_used l s) \<and> fa_inv l s'"
  using fa_alloc_recycled fa_alloc_fresh by blast

lemma fa_dealloc_step:
  assumes "fa_inv l s" and "n \<in> fa_used l s"
  shows "\<exists>s'. fa_dealloc s n = Inr s' \<and> fa_inv l s' \<and> fa_used l s' = fa_used l s - {n}"
proof -
  have "fa_dealloc s n = Inr (s\<lparr>fa_recycled := fa_recycled s @ [ppn_val n]\<rparr>)"
    using assms(2) by (auto simp: fa_dealloc_def fa_used_def Let_def)
  then show ?thesis
    using assms by (auto simp: fa_inv_def fa_used_def intro: phys_page_num.expand)
qed

interpretation fa: id_allocator fa_alloc fa_dealloc "fa_inv l" "fa_used l" "\<lambda>_. True"
  "{n. l \<le> ppn_val n}" for l
proof
  show "\<exists>e. fa_dealloc s n = Inl e" if "n \<in> {n. l \<le> ppn_val n}" "n \<notin> fa_used l s" for s n
    using that by (auto simp: fa_dealloc_def fa_used_def Let_def)
qed (use fa_alloc_step fa_dealloc_step in \<open>auto simp: fa_used_def\<close>)

section \<open>Properties of the allocator\<close>

definition fa_booted :: "usize \<Rightarrow> usize \<Rightarrow> stack_frame_allocator" where
  "fa_booted l r = fa_init (PhysPageNum l) (PhysPageNum r) fa_new"

lemma fa_booted_inv: "l \<le> r \<Longrightarrow> fa_inv l (fa_booted l r) \<and> fa_used l (fa_booted l r) = {}"
  by (auto simp: fa_booted_def fa_init_def fa_new_def fa_inv_def fa_used_def)

lemma fa_alloc_end: "fa_alloc s = Some (n, s') \<Longrightarrow> fa_end s' = fa_end s"
  by (auto simp: fa_alloc_def Let_def split: if_splits)

lemma fa_dealloc_end: "fa_dealloc s n = Inr s' \<Longrightarrow> fa_end s' = fa_end s"
  by (auto simp: fa_dealloc_def Let_def split: if_splits)

definition fa_free_count :: "stack_frame_allocator \<Rightarrow> nat" where
  "fa_free_count s = unat (fa_end s) - unat (fa_current s) + length (fa_recycled s)"

lemma fa_alloc_free_count:
  assumes "fa_inv l s" and "fa_alloc s = Some (n, s')"
  shows "fa_free_count s = Suc (fa_free_count s')"
proof (cases "fa_recycled s = []")
  case True
  with assms have "fa_current s < fa_end s"
    by (auto simp: fa_alloc_def fa_inv_def order_less_le split: if_splits)
  moreover from True assms have "s' = s\<lparr>fa_current := fa_current s + 1\<rparr>"
    by (auto simp: fa_alloc_def Let_def split: if_splits)
  ultimately show ?thesis
    by (simp add: fa_free_count_def unat_Suc_less word_less_nat_alt)
next
  case False
  with assms show ?thesis
    by (auto simp: fa_alloc_def fa_free_count_def neq_Nil_conv)
qed

lemma fa_dealloc_free_count:
  "fa_dealloc s n = Inr s' \<Longrightarrow> fa_free_count s' = Suc (fa_free_count s)"
  by (auto simp: fa_dealloc_def fa_free_count_def Let_def split: if_splits)

lemma fa_history_facts:
  assumes h: "alloc_history fa_alloc fa_dealloc (\<lambda>_. True) (fa_booted l r) s live" and lr: "l \<le> r"
  shows "fa_end s = r \<and> fa_free_count s + length live = unat r - unat l"
  using h
proof (induction rule: alloc_history.induct)
  case hist_start
  then show ?case
    using lr by (simp add: fa_booted_def fa_init_def fa_new_def fa_free_count_def)
next
  case (hist_alloc s live n s')
  from hist_alloc.hyps(1) fa_booted_inv [OF lr] have "fa_inv l s"
    by (blast dest: fa.history_live)
  with hist_alloc show ?case
    using fa_alloc_free_count [of l s n s'] fa_alloc_end [of s n s'] by simp
next
  case (hist_dealloc s live n s')
  then have "length (remove1 n live) = length live - 1" and "0 < length live"
    by (auto simp: length_remove1 intro: length_pos_if_in_set)
  moreover have "fa_free_count s' = Suc (fa_free_count s)" "fa_end s' = fa_end s"
    using hist_dealloc by (auto dest: fa_dealloc_free_count fa_dealloc_end)
  ultimately show ?case using hist_dealloc.IH by (intro conjI) (simp, linarith)
qed

lemma fa_usable_eq_free_count:
  assumes h: "alloc_history fa_alloc fa_dealloc (\<lambda>_. True) (fa_booted l r) s live" and lr: "l \<le> r"
  shows "unat (fa_usable_frames s) = fa_free_count s"
proof -
  have le: "fa_free_count s < 2 ^ 64"
    using fa_history_facts [OF h lr] unat64_less [of r] by linarith
  have "fa_current s \<le> fa_end s"
    using fa.history_live [OF h, of l] fa_booted_inv [OF lr] unfolding fa_inv_def by blast
  then have "unat (fa_current s) \<le> unat (fa_end s)" by (simp only: word_le_nat_alt)
  then have "fa_usable_frames s = word_of_nat (fa_free_count s)"
    by (simp add: fa_usable_frames_def fa_free_count_def)
  with le show ?thesis by (simp add: unat_of_nat64)
qed

lemma fa_alloc_None_iff:
  "fa_inv l s \<Longrightarrow> fa_alloc s = None \<longleftrightarrow> fa_free_count s = 0"
  by (cases "fa_recycled s")
    (auto simp: fa_alloc_def fa_free_count_def fa_inv_def word_le_nat_alt word_unat_eq_iff Let_def)

text \<open>
  C1. Frames are exclusively owned and none is lost. After any sequence of allocations and releases
  from a freshly initialised allocator over the frames \<open>[l, r)\<close>, the frames handed out and not yet
  released are pairwise different, all lie in \<open>[l, r)\<close>, releasing any of them succeeds, and
  releasing it a second time panics; \<^verbatim>\<open>usable_frames\<close> plus the number of frames in
  use is the number of frames the allocator was initialised with, and an allocation fails
  exactly when all of them are in use.
\<close>

theorem frames_exclusive:
  assumes "alloc_history fa_alloc fa_dealloc (\<lambda>_. True) (fa_booted l r) s live" and "l \<le> r"
  shows "distinct live
    \<and> (\<forall>n \<in> set live. l \<le> ppn_val n \<and> ppn_val n < r \<and> (\<exists>s'. fa_dealloc s n = Inr s' \<and> (\<exists>e. fa_dealloc s' n = Inl e)))
    \<and> unat (fa_usable_frames s) + length live = unat r - unat l
    \<and> (fa_alloc s = None \<longleftrightarrow> length live = unat r - unat l)"
proof -
  have inv: "fa_inv l s" "set live = fa_used l s" and d: "distinct live"
    using assms fa_booted_inv [OF assms(2)] by (auto dest: fa.history_live)
  have "fa_current s \<le> r" using inv(1) fa_history_facts [OF assms] by (simp add: fa_inv_def)
  then have "\<forall>n \<in> set live. l \<le> ppn_val n \<and> ppn_val n < r \<and> (\<exists>s'. fa_dealloc s n = Inr s')"
    using inv fa_dealloc_step [OF inv(1)] by (fastforce simp: fa_used_def)
  moreover have "unat (fa_usable_frames s) + length live = unat r - unat l \<and> (fa_alloc s = None \<longleftrightarrow> length live = unat r - unat l)"
    using inv(1) fa_history_facts [OF assms] fa_usable_eq_free_count [OF assms] fa_alloc_None_iff by auto
  ultimately show ?thesis using d fa.double_free_panics [OF inv(1)] inv(2) by blast
qed

lemma fa_example_history:
  "alloc_history fa_alloc fa_dealloc (\<lambda>_. True) (fa_booted 5 9)
     \<lparr>fa_current = 7, fa_end = 9, fa_recycled = [5]\<rparr> [PhysPageNum 6]"
proof -
  let ?h = "alloc_history fa_alloc fa_dealloc (\<lambda>_. True) (fa_booted 5 9)"
  have "?h \<lparr>fa_current = 6, fa_end = 9, fa_recycled = []\<rparr> [PhysPageNum 5]"
    by (rule hist_alloc [OF hist_start])
      (simp_all add: fa_booted_def fa_init_def fa_new_def fa_alloc_def)
  then have "?h \<lparr>fa_current = 7, fa_end = 9, fa_recycled = []\<rparr> [PhysPageNum 6, PhysPageNum 5]"
    by (rule hist_alloc) (simp_all add: fa_alloc_def)
  then have "?h \<lparr>fa_current = 7, fa_end = 9, fa_recycled = [5]\<rparr>
      (remove1 (PhysPageNum 5) [PhysPageNum 6, PhysPageNum 5])"
    by (rule hist_dealloc) (simp_all add: fa_dealloc_def)
  then show ?thesis by simp
qed

theorem frames_exclusive_witness:
  "distinct [PhysPageNum 6] \<and> 5 \<le> ppn_val (PhysPageNum 6) \<and> ppn_val (PhysPageNum 6) < 9
    \<and> unat (fa_usable_frames \<lparr>fa_current = 7, fa_end = 9, fa_recycled = [5]\<rparr>) + length [PhysPageNum 6] = 4"
  using frames_exclusive [OF fa_example_history] by simp

text \<open>
  A frame comes cleared: a successful \<^verbatim>\<open>frame_alloc\<close> returns a page that was not in use
  and whose bytes are all zero, and changes no other page; a failing one changes nothing.
\<close>

lemma frame_alloc_clears:
  assumes "fa_inv l (frames m)" and "frame_alloc m = (x, m')"
  shows "case x of
      None \<Rightarrow> m' = m
    | Some n \<Rightarrow> n \<notin> fa_used l (frames m) \<and> fa_used l (frames m') = insert n (fa_used l (frames m))
        \<and> phys m' n = replicate (length (phys m n)) 0 \<and> (\<forall>k. k \<noteq> n \<longrightarrow> phys m' k = phys m k)"
  using assms
  by (auto simp: frame_alloc_def frame_tracker_new_def map_replicate_const split: option.splits
      dest: fa_alloc_step)

end
