(* ===== verification/User_Buffer.thy ===== *)
theory User_Buffer
  imports Frame_Allocator
begin

text \<open>
  \<^verbatim>\<open>UserBuffer\<close> and its iterator (\<^verbatim>\<open>os/src/mm/page_table.rs\<close>). A buffer of a user
  process is a vector of slices of physical pages. A slice is a page with a range of byte
  offsets; the iterator yields raw pointers, a page with one offset, through which the
  kernel reads and writes memory.
\<close>

record uslice =
  us_ppn :: phys_page_num
  us_start :: nat
  us_end :: nat

type_synonym uptr = "phys_page_num \<times> nat"
type_synonym user_buffer = "uslice list"

definition us_len :: "uslice \<Rightarrow> nat" where
  "us_len s = us_end s - us_start s"

definition us_ptrs :: "uslice \<Rightarrow> uptr list" where
  "us_ptrs s = map (\<lambda>i. (us_ppn s, i)) [us_start s..<us_end s]"

definition ub_len :: "user_buffer \<Rightarrow> nat" where
  "ub_len b = foldl (\<lambda>total s. total + us_len s) 0 b"

definition ub_ptrs :: "user_buffer \<Rightarrow> uptr list" where
  "ub_ptrs b = concat (map us_ptrs b)"

section \<open>Memory through pointers\<close>

definition ptr_read :: "machine \<Rightarrow> uptr \<Rightarrow> u8" where
  "ptr_read m p = phys m (fst p) ! snd p"

definition ptr_write :: "uptr \<Rightarrow> u8 \<Rightarrow> machine \<Rightarrow> machine" where
  "ptr_write p b m = m\<lparr>phys := (phys m)(fst p := (phys m (fst p))[snd p := b])\<rparr>"

definition mem_ok :: "machine \<Rightarrow> bool" where
  "mem_ok m \<longleftrightarrow> (\<forall>n. length (phys m n) = 4096)"

definition ub_ok :: "user_buffer \<Rightarrow> bool" where
  "ub_ok b \<longleftrightarrow> (\<forall>s \<in> set b. us_start s < us_end s \<and> us_end s \<le> 4096)"

text \<open>What the allocation of a frame gives, for the clients that store data in it.\<close>

lemma frame_alloc_ok:
  assumes inv: "fa_inv l (frames m)" and free: "0 < fa_free_count (frames m)" and mem: "mem_ok m"
  obtains f m1 where "frame_alloc m = (Some f, m1)" and "f \<notin> fa_used l (frames m)"
    and "fa_used l (frames m1) = insert f (fa_used l (frames m))" and "fa_inv l (frames m1)"
    and "fa_end (frames m1) = fa_end (frames m)"
    and "fa_free_count (frames m) = Suc (fa_free_count (frames m1))"
    and "phys m1 = (phys m)(f := replicate 4096 0)" and "mem_ok m1"
proof -
  obtain f fa where al: "fa_alloc (frames m) = Some (f, fa)"
    using fa_alloc_None_iff [OF inv] free by (cases "fa_alloc (frames m)") auto
  let ?m1 = "frame_tracker_new f (m\<lparr>frames := fa\<rparr>)"
  have "frame_alloc m = (Some f, ?m1)" using al by (simp add: frame_alloc_def)
  moreover have "phys ?m1 = (phys m)(f := replicate 4096 0)"
    using mem by (simp add: frame_tracker_new_def mem_ok_def map_replicate_const)
  moreover have "mem_ok ?m1" using mem by (simp add: mem_ok_def frame_tracker_new_def)
  moreover have "frames ?m1 = fa" by (simp add: frame_tracker_new_def)
  ultimately show thesis
    using that [of f ?m1] fa_alloc_step [OF inv al] fa_alloc_end [OF al] fa_alloc_free_count [OF inv al]
    by metis
qed

lemma fa_used_bound: "fa_inv l s \<Longrightarrow> n \<in> fa_used l s \<Longrightarrow> unat (ppn_val n) < unat (fa_end s)"
  by (auto simp: fa_inv_def fa_used_def word_less_nat_alt word_le_nat_alt)

section \<open>The iterator\<close>

record ub_iter =
  it_buffers :: user_buffer
  it_buffer :: nat
  it_idx :: nat

definition ub_into_iter :: "user_buffer \<Rightarrow> ub_iter" where
  "ub_into_iter b = \<lparr>it_buffers = b, it_buffer = 0, it_idx = 0\<rparr>"

definition ub_next :: "ub_iter \<Rightarrow> (uptr option \<times> ub_iter) res" where
  "ub_next it =
     (if it_buffer it \<ge> length (it_buffers it) then Inr (None, it)
      else rbind (indexE (us_ptrs (it_buffers it ! it_buffer it)) (it_idx it)) (\<lambda>r.
        Inr (Some r,
          if it_idx it + 1 = us_len (it_buffers it ! it_buffer it)
          then it\<lparr>it_idx := 0, it_buffer := it_buffer it + 1\<rparr>
          else it\<lparr>it_idx := it_idx it + 1\<rparr>)))"

text \<open>The pointers an iterator has still to yield.\<close>

definition it_rest :: "ub_iter \<Rightarrow> uptr list" where
  "it_rest it =
     (case drop (it_buffer it) (it_buffers it) of
        [] \<Rightarrow> []
      | s # ss \<Rightarrow> drop (it_idx it) (us_ptrs s) @ ub_ptrs ss)"

definition it_ok :: "ub_iter \<Rightarrow> bool" where
  "it_ok it \<longleftrightarrow> ub_ok (it_buffers it) \<and>
     (it_buffer it < length (it_buffers it) \<longrightarrow> it_idx it < us_len (it_buffers it ! it_buffer it)) \<and>
     (it_buffer it \<ge> length (it_buffers it) \<longrightarrow> it_idx it = 0)"

lemma length_us_ptrs [simp]: "length (us_ptrs s) = us_len s"
  by (simp add: us_ptrs_def us_len_def)

lemma ub_len_eq: "ub_len b = length (ub_ptrs b)"
proof -
  have "foldl (\<lambda>total s. total + us_len s) a b = a + length (ub_ptrs b)" for a
    by (induction b arbitrary: a) (simp_all add: ub_ptrs_def)
  then show ?thesis by (simp add: ub_len_def)
qed

lemma ub_ok_len: "ub_ok b \<Longrightarrow> s \<in> set b \<Longrightarrow> 0 < us_len s"
  by (auto simp: ub_ok_def us_len_def)

lemma it_rest_into_iter: "it_rest (ub_into_iter b) = ub_ptrs b"
  by (cases b) (simp_all add: it_rest_def ub_into_iter_def ub_ptrs_def)

lemma it_ok_into_iter: "ub_ok b \<Longrightarrow> it_ok (ub_into_iter b)"
  by (auto simp: it_ok_def ub_into_iter_def dest: ub_ok_len [OF _ nth_mem])

lemma it_rest_Nil_iff: "it_ok it \<Longrightarrow> it_rest it = [] \<longleftrightarrow> it_buffer it \<ge> length (it_buffers it)"
  by (cases "it_buffer it < length (it_buffers it)")
    (auto simp: it_rest_def it_ok_def Cons_nth_drop_Suc [symmetric])

lemma ub_next_None:
  "it_ok it \<Longrightarrow> it_rest it = [] \<Longrightarrow> ub_next it = Inr (None, it)"
  by (simp add: it_rest_Nil_iff ub_next_def)

lemma it_rest_at_0: "it_idx it = 0 \<Longrightarrow> it_rest it = ub_ptrs (drop (it_buffer it) (it_buffers it))"
  by (cases "drop (it_buffer it) (it_buffers it)") (simp_all add: it_rest_def ub_ptrs_def)

lemma ub_next_Some:
  assumes ok: "it_ok it" and rest: "it_rest it = p # ps"
  shows "\<exists>it'. ub_next it = Inr (Some p, it') \<and> it_ok it' \<and> it_rest it' = ps"
proof -
  let ?b = "it_buffers it" and ?k = "it_buffer it" and ?i = "it_idx it"
  have k: "?k < length ?b" using it_rest_Nil_iff [OF ok] rest by auto
  then have i: "?i < us_len (?b ! ?k)" using ok by (simp add: it_ok_def)
  have drop_k: "drop ?k ?b = ?b ! ?k # drop (Suc ?k) ?b"
    using k by (simp add: Cons_nth_drop_Suc)
  then have r: "it_rest it = us_ptrs (?b ! ?k) ! ?i # drop (Suc ?i) (us_ptrs (?b ! ?k)) @ ub_ptrs (drop (Suc ?k) ?b)"
    using i by (simp add: it_rest_def Cons_nth_drop_Suc [symmetric])
  show ?thesis
  proof (cases "?i + 1 = us_len (?b ! ?k)")
    case True
    then have "ps = ub_ptrs (drop (Suc ?k) ?b)" using r rest by simp
    moreover have "it_ok (it\<lparr>it_idx := 0, it_buffer := ?k + 1\<rparr>)"
      using ok by (auto simp: it_ok_def dest: ub_ok_len [OF _ nth_mem])
    ultimately show ?thesis
      using True k i r rest by (simp add: ub_next_def it_rest_at_0)
  next
    case False
    then have "it_ok (it\<lparr>it_idx := ?i + 1\<rparr>)" using ok k i by (auto simp: it_ok_def)
    moreover have "it_rest (it\<lparr>it_idx := ?i + 1\<rparr>) = ps"
      using r rest drop_k by (simp add: it_rest_def)
    ultimately show ?thesis
      using False k i r rest by (simp add: ub_next_def)
  qed
qed

section \<open>Reading and writing runs of pointers\<close>

definition ptrs_read :: "machine \<Rightarrow> uptr list \<Rightarrow> u8 list" where
  "ptrs_read m ps = map (ptr_read m) ps"

fun ptrs_write :: "uptr list \<Rightarrow> u8 list \<Rightarrow> machine \<Rightarrow> machine" where
  "ptrs_write (p # ps) (b # bs) m = ptrs_write ps bs (ptr_write p b m)"
| "ptrs_write _ _ m = m"

lemma ptrs_write_Nil [simp]: "ptrs_write ps [] m = m"
  by (cases ps) simp_all

lemma ptr_write_frames [simp]: "frames (ptr_write p b m) = frames m"
  by (simp add: ptr_write_def)

lemma ptrs_write_frames [simp]: "frames (ptrs_write ps bs m) = frames m"
  by (induction ps bs m rule: ptrs_write.induct) simp_all

lemma mem_ok_ptr_write [simp]: "mem_ok m \<Longrightarrow> mem_ok (ptr_write p b m)"
  by (simp add: mem_ok_def ptr_write_def)

lemma mem_ok_ptrs_write [simp]: "mem_ok m \<Longrightarrow> mem_ok (ptrs_write ps bs m)"
  by (induction ps bs m rule: ptrs_write.induct) simp_all

lemma ptr_read_write:
  "mem_ok m \<Longrightarrow> snd p < 4096 \<Longrightarrow> ptr_read (ptr_write p b m) q = (if q = p then b else ptr_read m q)"
  by (cases p, cases q) (auto simp: ptr_read_def ptr_write_def mem_ok_def)

lemma ptr_read_ptrs_write_other:
  "mem_ok m \<Longrightarrow> \<forall>p \<in> set ps. snd p < 4096 \<Longrightarrow> q \<notin> set ps \<Longrightarrow> ptr_read (ptrs_write ps bs m) q = ptr_read m q"
  by (induction ps bs m rule: ptrs_write.induct) (auto simp: ptr_read_write)

lemma ptrs_read_write:
  "mem_ok m \<Longrightarrow> \<forall>p \<in> set ps. snd p < 4096 \<Longrightarrow> distinct ps \<Longrightarrow> length bs \<le> length ps \<Longrightarrow>
   ptrs_read (ptrs_write ps bs m) (take (length bs) ps) = bs"
proof (induction ps bs m rule: ptrs_write.induct)
  case (1 p ps b bs m)
  then show ?case
    by (auto simp: ptrs_read_def ptr_read_ptrs_write_other ptr_read_write)
qed (auto simp: ptrs_read_def)

lemma ptrs_write_prefix:
  assumes "mem_ok m" and "\<forall>p \<in> set ps. snd p < 4096" and "distinct ps"
  shows "ptrs_read (ptrs_write ps bs m) (take (min (length bs) (length ps)) ps)
    = take (min (length bs) (length ps)) bs"
proof -
  have "ptrs_write ps bs m = ptrs_write ps (take (length ps) bs) m"
    by (induction ps bs m rule: ptrs_write.induct) simp_all
  moreover have "take (min (length bs) (length ps)) bs = take (length ps) bs"
    by (simp add: min_def)
  ultimately show ?thesis
    using ptrs_read_write [OF assms, of "take (length ps) bs"] by (simp add: min.commute)
qed

lemma ub_ptrs_bound: "ub_ok b \<Longrightarrow> p \<in> set (ub_ptrs b) \<Longrightarrow> snd p < 4096"
  by (fastforce simp: ub_ok_def ub_ptrs_def us_ptrs_def)

section \<open>Small buffers, for examples\<close>

definition byte_slice :: "usize \<Rightarrow> user_buffer" where
  "byte_slice n = [\<lparr>us_ppn = PhysPageNum n, us_start = 4095, us_end = 4096\<rparr>]"

definition mem_of_bytes :: "(usize \<Rightarrow> u8) \<Rightarrow> machine" where
  "mem_of_bytes f = \<lparr>phys = (\<lambda>n. replicate 4096 (f (ppn_val n))), frames = fa_new\<rparr>"

lemma byte_slice_ptrs: "ub_ptrs (byte_slice n) = [(PhysPageNum n, 4095)]" "ub_ok (byte_slice n)"
proof -
  have "[4095..<4096] = [4095 :: nat]" by (simp add: upt_rec)
  then show "ub_ptrs (byte_slice n) = [(PhysPageNum n, 4095)]"
    by (simp add: byte_slice_def ub_ptrs_def us_ptrs_def)
qed (simp add: byte_slice_def ub_ok_def)

lemma mem_of_bytes_read: "mem_ok (mem_of_bytes f)" "ptr_read (mem_of_bytes f) (PhysPageNum n, 4095) = f n"
  by (simp_all add: mem_of_bytes_def mem_ok_def ptr_read_def)

end
