(* ===== verification/Fifo_Queue.thy ===== *)
theory Fifo_Queue
  imports Prelude
begin

text \<open>
  The contract of the kernel's first-in first-out queues: the ring buffer of a pipe
  (\<^verbatim>\<open>fs/pipe.rs\<close>), the packets of a mailbox (\<^verbatim>\<open>fs/mail_box.rs\<close>) and the ready queue
  (\<^verbatim>\<open>task/manager.rs\<close>). Each provides \<open>put\<close> and \<open>get\<close> on its own representation and an
  abstraction to the list of its elements, the oldest first.
\<close>

inductive queue_history ::
  "('a \<Rightarrow> 'q \<Rightarrow> 'q) \<Rightarrow> ('q \<Rightarrow> ('a \<times> 'q) option) \<Rightarrow> ('q \<Rightarrow> bool) \<Rightarrow> 'q \<Rightarrow> 'q \<Rightarrow> 'a list \<Rightarrow> 'a list \<Rightarrow> bool"
  for put :: "'a \<Rightarrow> 'q \<Rightarrow> 'q"
    and get :: "'q \<Rightarrow> ('a \<times> 'q) option"
    and can_put :: "'q \<Rightarrow> bool"
    and q0 :: 'q
where
  qh_start: "queue_history put get can_put q0 q0 [] []"
| qh_put:
    "queue_history put get can_put q0 q ins outs \<Longrightarrow> can_put q \<Longrightarrow>
     queue_history put get can_put q0 (put x q) (ins @ [x]) outs"
| qh_get:
    "queue_history put get can_put q0 q ins outs \<Longrightarrow> get q = Some (x, q') \<Longrightarrow>
     queue_history put get can_put q0 q' ins (outs @ [x])"

locale fifo_queue =
  fixes put :: "'a \<Rightarrow> 'q \<Rightarrow> 'q"
    and get :: "'q \<Rightarrow> ('a \<times> 'q) option"
    and can_put :: "'q \<Rightarrow> bool"
    and inv :: "'q \<Rightarrow> bool"
    and elems :: "'q \<Rightarrow> 'a list"
  assumes put_inv: "inv q \<Longrightarrow> can_put q \<Longrightarrow> inv (put x q)"
    and put_elems: "inv q \<Longrightarrow> can_put q \<Longrightarrow> elems (put x q) = elems q @ [x]"
    and get_empty: "inv q \<Longrightarrow> elems q = [] \<Longrightarrow> get q = None"
    and get_first: "inv q \<Longrightarrow> elems q = x # xs \<Longrightarrow> \<exists>q'. get q = Some (x, q') \<and> inv q' \<and> elems q' = xs"
begin

lemma get_SomeD:
  assumes "inv q" and "get q = Some (x, q')"
  shows "inv q' \<and> elems q = x # elems q'"
proof (cases "elems q")
  case Nil
  with assms get_empty show ?thesis by simp
next
  case (Cons y ys)
  with assms get_first [OF assms(1) Cons] show ?thesis by auto
qed

lemma history_fifo:
  assumes "queue_history put get can_put q0 q ins outs" and "inv q0"
  shows "inv q \<and> elems q0 @ ins = outs @ elems q"
  using assms
proof (induction rule: queue_history.induct)
  case qh_start
  then show ?case by simp
next
  case (qh_put q ins outs x)
  then show ?case using put_inv [of q x] put_elems [of q x] by (metis append_assoc)
next
  case (qh_get q ins outs x q')
  then show ?case using get_SomeD [of q x q'] by simp
qed

lemma history_outs_prefix:
  assumes "queue_history put get can_put q0 q ins outs" and "inv q0" and "elems q0 = []"
  shows "take (length outs) ins = outs"
  using history_fifo [OF assms(1,2)] assms(3) by simp

end

end
