(* ===== verification/Pipe.thy ===== *)
theory Pipe
  imports User_Buffer Fifo_Queue
begin

text \<open>
  Pipes (\<^verbatim>\<open>os/src/fs/pipe.rs\<close>): the ring buffer, the two ends, and the reading and writing
  loops, which give up the processor between their rounds.
\<close>

section \<open>The ring buffer\<close>

definition RING_BUFFER_SIZE :: nat where "RING_BUFFER_SIZE = 32"

datatype ring_buffer_status = FULL | EMPTY | NORMAL

text \<open>
  \<^verbatim>\<open>write_end\<close> is a weak reference to the writing end, here the number of that end in the
  heap of pipe ends below. The indices are below 32 in every reachable buffer, so their
  arithmetic is that of natural numbers.
\<close>

record pipe_ring_buffer =
  rb_arr :: "u8 list"
  rb_head :: nat
  rb_tail :: nat
  rb_status :: ring_buffer_status
  rb_write_end :: "nat option"

definition pipe_ring_buffer_new :: pipe_ring_buffer where
  "pipe_ring_buffer_new =
     \<lparr>rb_arr = replicate RING_BUFFER_SIZE 0, rb_head = 0, rb_tail = 0, rb_status = EMPTY,
      rb_write_end = None\<rparr>"

definition set_write_end :: "nat \<Rightarrow> pipe_ring_buffer \<Rightarrow> pipe_ring_buffer" where
  "set_write_end w rb = rb\<lparr>rb_write_end := Some w\<rparr>"

definition write_byte :: "u8 \<Rightarrow> pipe_ring_buffer \<Rightarrow> pipe_ring_buffer res" where
  "write_byte byte rb =
     rbind (updateE (rb_arr rb) (rb_tail rb) byte) (\<lambda>arr.
     (let rb1 = rb\<lparr>rb_status := NORMAL, rb_arr := arr,
                   rb_tail := (rb_tail rb + 1) mod RING_BUFFER_SIZE\<rparr>
      in Inr (if rb_tail rb1 = rb_head rb1 then rb1\<lparr>rb_status := FULL\<rparr> else rb1)))"

definition read_byte :: "pipe_ring_buffer \<Rightarrow> (u8 \<times> pipe_ring_buffer) res" where
  "read_byte rb =
     rbind (indexE (rb_arr rb) (rb_head rb)) (\<lambda>c.
     (let rb1 = rb\<lparr>rb_status := NORMAL, rb_head := (rb_head rb + 1) mod RING_BUFFER_SIZE\<rparr>
      in Inr (c, if rb_head rb1 = rb_tail rb1 then rb1\<lparr>rb_status := EMPTY\<rparr> else rb1)))"

definition available_read :: "pipe_ring_buffer \<Rightarrow> nat" where
  "available_read rb =
     (if rb_status rb = EMPTY then 0
      else if rb_tail rb > rb_head rb then rb_tail rb - rb_head rb
      else rb_tail rb + RING_BUFFER_SIZE - rb_head rb)"

definition available_write :: "pipe_ring_buffer \<Rightarrow> nat" where
  "available_write rb =
     (if rb_status rb = FULL then 0 else RING_BUFFER_SIZE - available_read rb)"

section \<open>Pipe ends\<close>

record pipe =
  p_readable :: bool
  p_writable :: bool
  p_buffer :: nat

definition read_end_with_buffer :: "nat \<Rightarrow> pipe" where
  "read_end_with_buffer b = \<lparr>p_readable = True, p_writable = False, p_buffer = b\<rparr>"

definition write_end_with_buffer :: "nat \<Rightarrow> pipe" where
  "write_end_with_buffer b = \<lparr>p_readable = False, p_writable = True, p_buffer = b\<rparr>"

text \<open>
  The heap of shared objects: the ring buffers, and the pipe ends each with its strong
  reference count (\<^verbatim>\<open>Arc<Pipe>\<close>). References are positions in these lists.
\<close>

record pipe_heap =
  ph_rings :: "pipe_ring_buffer list"
  ph_pipes :: "(pipe \<times> nat) list"

definition all_write_ends_closed :: "pipe_heap \<Rightarrow> pipe_ring_buffer \<Rightarrow> bool res" where
  "all_write_ends_closed h rb =
     rbind (unwrapE (rb_write_end rb)) (\<lambda>w. Inr (snd (ph_pipes h ! w) = 0))"

text \<open>Both ends start with one strong reference, the one that is returned.\<close>

definition make_pipe :: "pipe_heap \<Rightarrow> (nat \<times> nat) \<times> pipe_heap" where
  "make_pipe h =
     (let b = length (ph_rings h); r = length (ph_pipes h); w = r + 1
      in ((r, w),
          \<lparr>ph_rings = ph_rings h @ [set_write_end w pipe_ring_buffer_new],
           ph_pipes = ph_pipes h @ [(read_end_with_buffer b, 1), (write_end_with_buffer b, 1)]\<rparr>))"

definition pipe_arc_clone :: "nat \<Rightarrow> pipe_heap \<Rightarrow> pipe_heap" where
  "pipe_arc_clone i h =
     h\<lparr>ph_pipes := (ph_pipes h)[i := (fst (ph_pipes h ! i), snd (ph_pipes h ! i) + 1)]\<rparr>"

definition pipe_arc_drop :: "nat \<Rightarrow> pipe_heap \<Rightarrow> pipe_heap" where
  "pipe_arc_drop i h =
     h\<lparr>ph_pipes := (ph_pipes h)[i := (fst (ph_pipes h ! i), snd (ph_pipes h ! i) - 1)]\<rparr>"

section \<open>Reading and writing\<close>

text \<open>
  One round of the outer loops: the process takes the lock of the ring buffer, and then it
  returns a size, gives up the processor and tries again later, or goes on to the next round.
\<close>

datatype pipe_outcome =
    Returned nat
  | Suspended ub_iter nat
  | Again ub_iter nat

fun pipe_read_loop ::
  "nat \<Rightarrow> ub_iter \<Rightarrow> nat \<Rightarrow> pipe_ring_buffer \<Rightarrow> machine \<Rightarrow> (pipe_outcome \<times> pipe_ring_buffer \<times> machine) res"
where
  "pipe_read_loop 0 buf_iter read_size rb m = Inr (Again buf_iter read_size, rb, m)"
| "pipe_read_loop (Suc k) buf_iter read_size rb m =
     rbind (ub_next buf_iter) (\<lambda>(x, buf_iter').
     case x of
       Some byte_ref \<Rightarrow>
         rbind (read_byte rb) (\<lambda>(c, rb').
         pipe_read_loop k buf_iter' (read_size + 1) rb' (ptr_write byte_ref c m))
     | None \<Rightarrow> Inr (Returned read_size, rb, m))"

fun pipe_write_loop ::
  "nat \<Rightarrow> ub_iter \<Rightarrow> nat \<Rightarrow> pipe_ring_buffer \<Rightarrow> machine \<Rightarrow> (pipe_outcome \<times> pipe_ring_buffer) res"
where
  "pipe_write_loop 0 buf_iter write_size rb m = Inr (Again buf_iter write_size, rb)"
| "pipe_write_loop (Suc k) buf_iter write_size rb m =
     rbind (ub_next buf_iter) (\<lambda>(x, buf_iter').
     case x of
       Some byte_ref \<Rightarrow>
         rbind (write_byte (ptr_read m byte_ref) rb) (\<lambda>rb'.
         pipe_write_loop k buf_iter' (write_size + 1) rb' m)
     | None \<Rightarrow> Inr (Returned write_size, rb))"

definition pipe_read_round ::
  "nat \<Rightarrow> ub_iter \<Rightarrow> nat \<Rightarrow> pipe_heap \<Rightarrow> machine \<Rightarrow> (pipe_outcome \<times> pipe_heap \<times> machine) res"
where
  "pipe_read_round self buf_iter read_size h m =
     (let b = p_buffer (fst (ph_pipes h ! self)); rb = ph_rings h ! b; loop_read = available_read rb in
      if loop_read = 0 then
        rbind (all_write_ends_closed h rb) (\<lambda>closed.
        if closed then Inr (Returned read_size, h, m)
        else Inr (Suspended buf_iter read_size, h, m))
      else
        rbind (pipe_read_loop loop_read buf_iter read_size rb m) (\<lambda>(out, rb', m').
        Inr (out, h\<lparr>ph_rings := (ph_rings h)[b := rb']\<rparr>, m')))"

definition pipe_write_round ::
  "nat \<Rightarrow> ub_iter \<Rightarrow> nat \<Rightarrow> pipe_heap \<Rightarrow> machine \<Rightarrow> (pipe_outcome \<times> pipe_heap) res"
where
  "pipe_write_round self buf_iter write_size h m =
     (let b = p_buffer (fst (ph_pipes h ! self)); rb = ph_rings h ! b; loop_write = available_write rb in
      if loop_write = 0 then Inr (Suspended buf_iter write_size, h)
      else
        rbind (pipe_write_loop loop_write buf_iter write_size rb m) (\<lambda>(out, rb').
        Inr (out, h\<lparr>ph_rings := (ph_rings h)[b := rb']\<rparr>)))"

text \<open>A call in progress, and its start: the ends check their direction.\<close>

datatype pipe_call = Running ub_iter nat | Done nat

definition pipe_read :: "nat \<Rightarrow> user_buffer \<Rightarrow> pipe_heap \<Rightarrow> pipe_call res" where
  "pipe_read self buf h =
     rbind (assertE (p_readable (fst (ph_pipes h ! self)) = True)) (\<lambda>_.
     Inr (Running (ub_into_iter buf) 0))"

definition pipe_write :: "nat \<Rightarrow> user_buffer \<Rightarrow> pipe_heap \<Rightarrow> pipe_call res" where
  "pipe_write self buf h =
     rbind (assertE (p_writable (fst (ph_pipes h ! self)) = True)) (\<lambda>_.
     Inr (Running (ub_into_iter buf) 0))"

fun resume :: "pipe_outcome \<Rightarrow> pipe_call" where
  "resume (Returned n) = Done n"
| "resume (Suspended it n) = Running it n"
| "resume (Again it n) = Running it n"

section \<open>The ring buffer is a queue of bytes\<close>

definition rb_inv :: "pipe_ring_buffer \<Rightarrow> bool" where
  "rb_inv rb \<longleftrightarrow> length (rb_arr rb) = 32 \<and> rb_head rb < 32 \<and> rb_tail rb < 32
     \<and> (rb_status rb = NORMAL \<longleftrightarrow> rb_head rb \<noteq> rb_tail rb)"

definition rb_elems :: "pipe_ring_buffer \<Rightarrow> u8 list" where
  "rb_elems rb = map (\<lambda>i. rb_arr rb ! ((rb_head rb + i) mod 32)) [0..<available_read rb]"

lemma length_rb_elems [simp]: "length (rb_elems rb) = available_read rb"
  by (simp add: rb_elems_def)

lemma rb_elems_Nil_iff: "rb_elems rb = [] \<longleftrightarrow> available_read rb = 0"
  by (simp add: rb_elems_def)

lemma available_read_le: "rb_inv rb \<Longrightarrow> available_read rb \<le> 32"
  by (auto simp: available_read_def rb_inv_def RING_BUFFER_SIZE_def)

lemma rb_tail_eq: "rb_inv rb \<Longrightarrow> rb_tail rb = (rb_head rb + available_read rb) mod 32"
  by (cases "rb_status rb") (auto simp: available_read_def rb_inv_def RING_BUFFER_SIZE_def)

lemma available_write_eq: "rb_inv rb \<Longrightarrow> available_write rb = 32 - available_read rb"
  by (cases "rb_status rb") (auto simp: available_write_def available_read_def rb_inv_def RING_BUFFER_SIZE_def)

lemma mod32_Suc: "n < 32 \<Longrightarrow> Suc n mod 32 = (if n = 31 then 0 else Suc n)"
  by auto

lemma mod32_add: "h < 32 \<Longrightarrow> i < 32 \<Longrightarrow> ((h :: nat) + i) mod 32 = (if h + i < 32 then h + i else h + i - 32)"
  by (simp add: le_mod_geq)

lemma mod32_inj:
  "(h + i) mod 32 = (h + j) mod 32 \<Longrightarrow> h < 32 \<Longrightarrow> i < 32 \<Longrightarrow> j < 32 \<Longrightarrow> i = (j :: nat)"
  by (simp add: mod32_add split: if_splits)

lemma write_byte_ok:
  assumes inv: "rb_inv rb" and room: "available_write rb > 0"
  obtains rb' where "write_byte x rb = Inr rb'" and "rb_inv rb'" and "rb_elems rb' = rb_elems rb @ [x]"
    and "rb_write_end rb' = rb_write_end rb"
proof -
  let ?t = "(rb_tail rb + 1) mod 32" and ?arr = "(rb_arr rb)[rb_tail rb := x]"
  let ?rb = "rb\<lparr>rb_status := if ?t = rb_head rb then FULL else NORMAL, rb_arr := ?arr, rb_tail := ?t\<rparr>"
  have w: "write_byte x rb = Inr ?rb"
    using inv by (simp add: write_byte_def rb_inv_def RING_BUFFER_SIZE_def Let_def)
  have i: "rb_inv ?rb" using inv by (auto simp: rb_inv_def)
  have lt: "available_read rb < 32" using room available_write_eq [OF inv] by simp
  have a: "available_read ?rb = Suc (available_read rb)"
    using inv lt by (cases "rb_status rb")
      (auto simp: available_read_def rb_inv_def RING_BUFFER_SIZE_def mod32_Suc split: if_splits)
  have t: "rb_tail rb = (rb_head rb + available_read rb) mod 32" by (rule rb_tail_eq [OF inv])
  have ne: "(rb_head rb + i) mod 32 \<noteq> rb_tail rb" if "i < available_read rb" for i
  proof
    assume "(rb_head rb + i) mod 32 = rb_tail rb"
    then have "(rb_head rb + i) mod 32 = (rb_head rb + available_read rb) mod 32"
      by (rule trans [OF _ t])
    moreover have "rb_head rb < 32" using inv by (simp add: rb_inv_def)
    ultimately have "i = available_read rb"
      by (rule mod32_inj) (use that lt in linarith)+
    with that show False by linarith
  qed
  have "map (\<lambda>i. ?arr ! ((rb_head rb + i) mod 32)) [0..<available_read rb] = rb_elems rb"
    unfolding rb_elems_def by (auto simp: nth_list_update_neq [OF ne [symmetric]])
  moreover have "?arr ! ((rb_head rb + available_read rb) mod 32) = x"
    using inv t [symmetric] by (simp add: rb_inv_def)
  ultimately have e: "rb_elems ?rb = rb_elems rb @ [x]"
    unfolding rb_elems_def [of ?rb] a by simp
  show thesis by (rule that [OF w i e]) simp
qed

lemma read_byte_ok:
  assumes inv: "rb_inv rb" and some: "rb_elems rb = x # xs"
  obtains rb' where "read_byte rb = Inr (x, rb')" and "rb_inv rb'" and "rb_elems rb' = xs"
    and "rb_write_end rb' = rb_write_end rb"
proof -
  let ?h = "(rb_head rb + 1) mod 32"
  let ?rb = "rb\<lparr>rb_status := if ?h = rb_tail rb then EMPTY else NORMAL, rb_head := ?h\<rparr>"
  have pos: "available_read rb = Suc (length xs)"
    using some length_rb_elems [of rb] by simp
  then have pos': "0 < available_read rb" by simp
  from pos have ex: "rb_elems rb = rb_arr rb ! rb_head rb #
      map (\<lambda>i. rb_arr rb ! ((rb_head rb + Suc i) mod 32)) [0..<length xs]"
    using inv by (simp add: rb_elems_def rb_inv_def upt_conv_Cons map_Suc_upt [symmetric] del: upt_Suc)
  have r: "read_byte rb = Inr (x, ?rb)"
    using inv some ex by (simp add: read_byte_def rb_inv_def RING_BUFFER_SIZE_def Let_def)
  have i: "rb_inv ?rb" using inv by (auto simp: rb_inv_def)
  have "available_read ?rb = available_read rb - 1"
    using inv pos' by (cases "rb_status rb")
      (auto simp: available_read_def rb_inv_def RING_BUFFER_SIZE_def mod32_Suc split: if_splits)
  with pos have a: "available_read ?rb = length xs" by simp
  have "((rb_head rb + 1) mod 32 + k) mod 32 = (rb_head rb + Suc k) mod 32" for k
    by (simp add: mod_simps)
  then have e: "rb_elems ?rb = xs"
    using a some ex by (simp add: rb_elems_def)
  show thesis by (rule that [OF r i e]) simp
qed

definition rb_put :: "u8 \<Rightarrow> pipe_ring_buffer \<Rightarrow> pipe_ring_buffer" where
  "rb_put x rb = (case write_byte x rb of Inr rb' \<Rightarrow> rb' | Inl _ \<Rightarrow> rb)"

definition rb_get :: "pipe_ring_buffer \<Rightarrow> (u8 \<times> pipe_ring_buffer) option" where
  "rb_get rb = (if available_read rb = 0 then None
     else case read_byte rb of Inr (c, rb') \<Rightarrow> Some (c, rb') | Inl _ \<Rightarrow> None)"

interpretation rbq: fifo_queue rb_put rb_get "\<lambda>rb. available_write rb > 0" rb_inv rb_elems
proof
  fix rb :: pipe_ring_buffer and x :: u8
  assume "rb_inv rb" "available_write rb > 0"
  then obtain rb' where "write_byte x rb = Inr rb'" "rb_inv rb'" "rb_elems rb' = rb_elems rb @ [x]"
    by (rule write_byte_ok)
  then show "rb_inv (rb_put x rb)" "rb_elems (rb_put x rb) = rb_elems rb @ [x]"
    by (simp_all add: rb_put_def)
next
  fix rb :: pipe_ring_buffer
  assume "rb_inv rb" "rb_elems rb = []"
  then show "rb_get rb = None" using length_rb_elems [of rb] by (simp add: rb_get_def)
next
  fix rb :: pipe_ring_buffer and x xs
  assume a: "rb_inv rb" "rb_elems rb = x # xs"
  then have "available_read rb \<noteq> 0" using length_rb_elems [of rb] by auto
  moreover obtain rb' where "read_byte rb = Inr (x, rb')" "rb_inv rb'" "rb_elems rb' = xs"
    using a by (rule read_byte_ok)
  ultimately show "\<exists>rb'. rb_get rb = Some (x, rb') \<and> rb_inv rb' \<and> rb_elems rb' = xs"
    by (simp add: rb_get_def)
qed

section \<open>What a round does\<close>

lemma pipe_read_loop_spec:
  assumes "it_ok it" and "rb_inv rb" and "k \<le> available_read rb"
  shows "\<exists>out rb'. pipe_read_loop k it n rb m
      = Inr (out, rb', ptrs_write (it_rest it) (take k (rb_elems rb)) m)
    \<and> rb_inv rb' \<and> rb_elems rb' = drop (min k (length (it_rest it))) (rb_elems rb)
    \<and> rb_write_end rb' = rb_write_end rb
    \<and> (if length (it_rest it) < k then out = Returned (n + length (it_rest it))
       else (\<exists>it'. out = Again it' (n + k) \<and> it_ok it' \<and> it_rest it' = drop k (it_rest it)))"
  using assms
proof (induction k arbitrary: it n rb m)
  case 0
  then show ?case by auto
next
  case (Suc k)
  show ?case
  proof (cases "it_rest it")
    case Nil
    with Suc.prems ub_next_None show ?thesis by simp
  next
    case (Cons p ps)
    then obtain it' where nx: "ub_next it = Inr (Some p, it')" and it': "it_ok it'" "it_rest it' = ps"
      using ub_next_Some [OF Suc.prems(1)] by blast
    from Suc.prems(3) obtain x xs where el: "rb_elems rb = x # xs"
      by (cases "rb_elems rb") (auto dest: arg_cong [where f = length])
    with Suc.prems(2) obtain rb' where rd: "read_byte rb = Inr (x, rb')" "rb_inv rb'"
      and el': "rb_elems rb' = xs" "rb_write_end rb' = rb_write_end rb" by (rule read_byte_ok)
    have "available_read rb = Suc (available_read rb')"
      using el el'(1) length_rb_elems [of rb] length_rb_elems [of rb'] by simp
    then have "k \<le> available_read rb'" using Suc.prems(3) by simp
    from Suc.IH [OF it'(1) rd(2) this, of "n + 1" "ptr_write p x m"] show ?thesis
      using nx rd(1) it'(2) el el' Cons by (auto split: if_splits)
  qed
qed

lemma pipe_write_loop_spec:
  assumes "it_ok it" and "rb_inv rb" and "k \<le> available_write rb"
  shows "\<exists>out rb'. pipe_write_loop k it n rb m = Inr (out, rb')
    \<and> rb_inv rb' \<and> rb_elems rb' = rb_elems rb @ ptrs_read m (take k (it_rest it))
    \<and> rb_write_end rb' = rb_write_end rb
    \<and> (if length (it_rest it) < k then out = Returned (n + length (it_rest it))
       else (\<exists>it'. out = Again it' (n + k) \<and> it_ok it' \<and> it_rest it' = drop k (it_rest it)))"
  using assms
proof (induction k arbitrary: it n rb)
  case 0
  then show ?case by (auto simp: ptrs_read_def)
next
  case (Suc k)
  show ?case
  proof (cases "it_rest it")
    case Nil
    with Suc.prems ub_next_None show ?thesis by (simp add: ptrs_read_def)
  next
    case (Cons p ps)
    then obtain it' where nx: "ub_next it = Inr (Some p, it')" and it': "it_ok it'" "it_rest it' = ps"
      using ub_next_Some [OF Suc.prems(1)] by blast
    have "available_write rb > 0" using Suc.prems(3) by simp
    with Suc.prems(2) obtain rb' where wr: "write_byte (ptr_read m p) rb = Inr rb'" "rb_inv rb'"
      and el': "rb_elems rb' = rb_elems rb @ [ptr_read m p]" "rb_write_end rb' = rb_write_end rb"
      by (rule write_byte_ok)
    have "available_read rb' = Suc (available_read rb)"
      using el'(1) length_rb_elems [of rb] length_rb_elems [of rb'] by simp
    then have "k \<le> available_write rb'"
      using Suc.prems(2,3) wr(2) by (simp add: available_write_eq)
    from Suc.IH [OF it'(1) wr(2) this, of "n + 1"] show ?thesis
      using nx wr(1) it'(2) el' Cons by (auto simp: ptrs_read_def split: if_splits)
  qed
qed

end
