(* ===== verification/Pipe_Run.thy ===== *)
theory Pipe_Run
  imports Pipe
begin

text \<open>
  Two processes on one pipe: a reader and a writer, whose rounds interleave in any order, and
  the closing and duplicating of the writing end. The rounds are atomic because each holds
  the lock of the ring buffer.
\<close>

section \<open>The system\<close>

record pipe_sys =
  ps_heap :: pipe_heap
  ps_mem :: machine
  ps_reader :: pipe_call
  ps_writer :: pipe_call

inductive pipe_step :: "nat \<Rightarrow> nat \<Rightarrow> pipe_sys \<Rightarrow> pipe_sys \<Rightarrow> bool" for r w where
  reader_round:
    "ps_reader s = Running it n \<Longrightarrow>
     pipe_read_round r it n (ps_heap s) (ps_mem s) = Inr (out, h', m') \<Longrightarrow>
     pipe_step r w s (s\<lparr>ps_heap := h', ps_mem := m', ps_reader := resume out\<rparr>)"
| writer_round:
    "ps_writer s = Running it n \<Longrightarrow>
     pipe_write_round w it n (ps_heap s) (ps_mem s) = Inr (out, h') \<Longrightarrow>
     pipe_step r w s (s\<lparr>ps_heap := h', ps_writer := resume out\<rparr>)"
| write_end_clone:
    "0 < snd (ph_pipes (ps_heap s) ! w) \<Longrightarrow>
     pipe_step r w s (s\<lparr>ps_heap := pipe_arc_clone w (ps_heap s)\<rparr>)"
| write_end_drop:
    "1 < snd (ph_pipes (ps_heap s) ! w) \<or> ps_writer s = Done k \<and> 0 < snd (ph_pipes (ps_heap s) ! w) \<Longrightarrow>
     pipe_step r w s (s\<lparr>ps_heap := pipe_arc_drop w (ps_heap s)\<rparr>)"

text \<open>A new pipe, with a read into \<open>dst\<close> and a write from \<open>src\<close> begun on its two ends.\<close>

definition pipe_start :: "user_buffer \<Rightarrow> user_buffer \<Rightarrow> pipe_heap \<Rightarrow> machine \<Rightarrow> (nat \<times> nat \<times> pipe_sys) res" where
  "pipe_start dst src h0 m =
     (let ((r, w), h) = make_pipe h0 in
      rbind (pipe_read r dst h) (\<lambda>rd.
      rbind (pipe_write w src h) (\<lambda>wr.
      Inr (r, w, \<lparr>ps_heap = h, ps_mem = m, ps_reader = rd, ps_writer = wr\<rparr>))))"

section \<open>The invariant\<close>

fun call_count :: "pipe_call \<Rightarrow> nat" where
  "call_count (Running it n) = n"
| "call_count (Done n) = n"

fun call_ok :: "uptr list \<Rightarrow> pipe_call \<Rightarrow> bool" where
  "call_ok ps (Running it n) \<longleftrightarrow> it_ok it \<and> n \<le> length ps \<and> it_rest it = drop n ps"
| "call_ok ps (Done n) \<longleftrightarrow> n \<le> length ps"

definition pipe_wired :: "nat \<Rightarrow> nat \<Rightarrow> nat \<Rightarrow> pipe_heap \<Rightarrow> bool" where
  "pipe_wired b r w h \<longleftrightarrow> r < length (ph_pipes h) \<and> w < length (ph_pipes h) \<and> b < length (ph_rings h)
     \<and> p_buffer (fst (ph_pipes h ! r)) = b \<and> p_buffer (fst (ph_pipes h ! w)) = b
     \<and> rb_inv (ph_rings h ! b) \<and> rb_write_end (ph_rings h ! b) = Some w"

abbreviation ring_of :: "nat \<Rightarrow> pipe_sys \<Rightarrow> pipe_ring_buffer" where
  "ring_of b s \<equiv> ph_rings (ps_heap s) ! b"

abbreviation write_ends :: "nat \<Rightarrow> pipe_sys \<Rightarrow> nat" where
  "write_ends w s \<equiv> snd (ph_pipes (ps_heap s) ! w)"

definition ps_inv :: "nat \<Rightarrow> nat \<Rightarrow> nat \<Rightarrow> uptr list \<Rightarrow> uptr list \<Rightarrow> machine \<Rightarrow> pipe_sys \<Rightarrow> bool" where
  "ps_inv b r w dst src m0 s \<longleftrightarrow> pipe_wired b r w (ps_heap s) \<and> mem_ok (ps_mem s)
     \<and> call_ok dst (ps_reader s) \<and> call_ok src (ps_writer s)
     \<and> ptrs_read (ps_mem s) (take (call_count (ps_reader s)) dst) @ rb_elems (ring_of b s)
         = take (call_count (ps_writer s)) (ptrs_read m0 src)
     \<and> (\<forall>p. p \<notin> set dst \<longrightarrow> ptr_read (ps_mem s) p = ptr_read m0 p)
     \<and> (\<forall>it n. ps_writer s = Running it n \<longrightarrow> 0 < write_ends w s)
     \<and> (\<forall>k. ps_writer s = Done k \<longrightarrow> k = length src)
     \<and> (\<forall>n. ps_reader s = Done n \<longrightarrow> n = length dst \<or> write_ends w s = 0 \<and> rb_elems (ring_of b s) = [])"

lemma pipe_read_round_spec:
  assumes wd: "pipe_wired b r w h" and it: "it_ok it"
  defines "rb \<equiv> ph_rings h ! b"
  shows "pipe_read_round r it n h m =
      (if rb_elems rb = [] then
         Inr (if snd (ph_pipes h ! w) = 0 then Returned n else Suspended it n, h, m)
       else case pipe_read_loop (available_read rb) it n rb m of
         Inl e \<Rightarrow> Inl e
       | Inr (out, rb', m') \<Rightarrow> Inr (out, h\<lparr>ph_rings := (ph_rings h)[b := rb']\<rparr>, m'))"
proof -
  show ?thesis using wd
    by (auto simp: rb_elems_Nil_iff pipe_read_round_def pipe_wired_def rb_def all_write_ends_closed_def Let_def
        rbind_def split: sum.splits prod.splits)
qed

lemma pipe_wired_ring:
  "pipe_wired b r w h \<Longrightarrow> rb_inv rb' \<Longrightarrow> rb_write_end rb' = rb_write_end (ph_rings h ! b) \<Longrightarrow>
   pipe_wired b r w (h\<lparr>ph_rings := (ph_rings h)[b := rb']\<rparr>)"
  by (simp add: pipe_wired_def)

lemma pipe_wired_count:
  "pipe_wired b r w h \<Longrightarrow> pipe_wired b r w (pipe_arc_clone w h) \<and> pipe_wired b r w (pipe_arc_drop w h)"
  by (auto simp: pipe_wired_def pipe_arc_clone_def pipe_arc_drop_def nth_list_update)

text \<open>The memory of the reader after a round: the bytes go on where the last round stopped.\<close>

lemma ptrs_read_append_write:
  assumes "mem_ok m" and "\<forall>p \<in> set ps. snd p < 4096" and "distinct ps" and "n + length bs \<le> length ps"
  shows "ptrs_read (ptrs_write (drop n ps) bs m) (take (n + length bs) ps)
    = ptrs_read m (take n ps) @ bs"
proof -
  have dj: "set (take n ps) \<inter> set (drop n ps) = {}" using assms(3) by (simp add: set_take_disj_set_drop_if_distinct)
  have bd: "\<forall>p \<in> set (drop n ps). snd p < 4096" using assms(2) by (auto dest: in_set_dropD)
  have "ptrs_read (ptrs_write (drop n ps) bs m) (take n ps) = ptrs_read m (take n ps)"
    unfolding ptrs_read_def using dj ptr_read_ptrs_write_other [OF assms(1) bd] by (intro map_cong) auto
  moreover have "ptrs_read (ptrs_write (drop n ps) bs m) (take (length bs) (drop n ps)) = bs"
    using assms(3,4) by (intro ptrs_read_write [OF assms(1) bd]) auto
  moreover have "take (n + length bs) ps = take n ps @ take (length bs) (drop n ps)"
    by (simp add: take_add)
  ultimately show ?thesis by (simp add: ptrs_read_def)
qed

lemma ptrs_write_take: "ptrs_write ps bs m = ptrs_write ps (take (length ps) bs) m"
  by (induction ps bs m rule: ptrs_write.induct) simp_all

lemma pipe_read_loop_resumes:
  assumes "it_ok it" and "it_rest it = drop n dst" and "n \<le> length dst" and "rb_inv rb"
  defines "j \<equiv> min (available_read rb) (length dst - n)"
  shows "\<exists>out rb'. pipe_read_loop (available_read rb) it n rb m
      = Inr (out, rb', ptrs_write (drop n dst) (take j (rb_elems rb)) m)
    \<and> rb_inv rb' \<and> rb_elems rb' = drop j (rb_elems rb) \<and> rb_write_end rb' = rb_write_end rb
    \<and> call_ok dst (resume out) \<and> call_count (resume out) = n + j
    \<and> (\<forall>x. resume out = Done x \<longrightarrow> x = length dst)
    \<and> (0 < available_read rb \<longrightarrow> 0 < j \<or> resume out = Done (length dst))"
proof -
  have w: "ptrs_write (drop n dst) (rb_elems rb) m = ptrs_write (drop n dst) (take j (rb_elems rb)) m"
    using ptrs_write_take [of "drop n dst" "rb_elems rb" m]
    by (cases "available_read rb \<le> length dst - n") (simp_all add: j_def min_def)
  from pipe_read_loop_spec [OF assms(1,4) order_refl, of n m, unfolded assms(2) length_drop] obtain out rb' where
    run: "pipe_read_loop (available_read rb) it n rb m
      = Inr (out, rb', ptrs_write (drop n dst) (take j (rb_elems rb)) m)"
    and rb': "rb_inv rb'" "rb_elems rb' = drop j (rb_elems rb)" "rb_write_end rb' = rb_write_end rb"
    and out: "if length dst - n < available_read rb then out = Returned (n + (length dst - n))
       else (\<exists>it'. out = Again it' (n + available_read rb) \<and> it_ok it' \<and> it_rest it' = drop (available_read rb) (drop n dst))"
    using w by (auto simp: j_def split del: if_split)
  have "call_ok dst (resume out) \<and> call_count (resume out) = n + j
      \<and> (\<forall>x. resume out = Done x \<longrightarrow> x = length dst)
      \<and> (0 < available_read rb \<longrightarrow> 0 < j \<or> resume out = Done (length dst))"
    using out assms(3) by (auto simp: j_def add.commute split: if_splits)
  with run rb' show ?thesis by (intro exI [of _ out] exI [of _ rb']) simp
qed

lemma pipe_write_loop_resumes:
  assumes "it_ok it" and "it_rest it = drop n src" and "n \<le> length src" and "rb_inv rb"
  defines "j \<equiv> min (available_write rb) (length src - n)"
  shows "\<exists>out rb'. pipe_write_loop (available_write rb) it n rb m = Inr (out, rb')
    \<and> rb_inv rb' \<and> rb_elems rb' = rb_elems rb @ ptrs_read m (take j (drop n src))
    \<and> rb_write_end rb' = rb_write_end rb
    \<and> call_ok src (resume out) \<and> call_count (resume out) = n + j
    \<and> (\<forall>x. resume out = Done x \<longrightarrow> x = length src)
    \<and> (0 < available_write rb \<longrightarrow> 0 < j \<or> resume out = Done (length src))"
proof -
  have t: "take (available_write rb) (drop n src) = take j (drop n src)"
    by (simp add: j_def min_def)
  from pipe_write_loop_spec [OF assms(1,4) order_refl, of n m, unfolded assms(2) length_drop] obtain out rb' where
    run: "pipe_write_loop (available_write rb) it n rb m = Inr (out, rb')"
    and rb': "rb_inv rb'" "rb_elems rb' = rb_elems rb @ ptrs_read m (take j (drop n src))"
      "rb_write_end rb' = rb_write_end rb"
    and out: "if length src - n < available_write rb then out = Returned (n + (length src - n))
       else (\<exists>it'. out = Again it' (n + available_write rb) \<and> it_ok it' \<and> it_rest it' = drop (available_write rb) (drop n src))"
    using t by (auto split del: if_split)
  have "call_ok src (resume out) \<and> call_count (resume out) = n + j
      \<and> (\<forall>x. resume out = Done x \<longrightarrow> x = length src)
      \<and> (0 < available_write rb \<longrightarrow> 0 < j \<or> resume out = Done (length src))"
    using out assms(3) by (auto simp: j_def add.commute split: if_splits)
  with run rb' show ?thesis by (intro exI [of _ out] exI [of _ rb']) simp
qed

section \<open>Every step keeps the invariant, and no round panics\<close>

definition buffers_apart :: "uptr list \<Rightarrow> uptr list \<Rightarrow> bool" where
  "buffers_apart dst src \<longleftrightarrow> distinct dst \<and> set dst \<inter> set src = {} \<and> (\<forall>p \<in> set dst. snd p < 4096)"

lemma reader_round_inv:
  assumes inv: "ps_inv b r w dst src m0 s" and rd: "ps_reader s = Running it n"
    and apart: "buffers_apart dst src"
  shows "\<exists>out h' m'. pipe_read_round r it n (ps_heap s) (ps_mem s) = Inr (out, h', m')
    \<and> ps_inv b r w dst src m0 (s\<lparr>ps_heap := h', ps_mem := m', ps_reader := resume out\<rparr>)
    \<and> ph_pipes h' = ph_pipes (ps_heap s)
    \<and> (rb_elems (ring_of b s) \<noteq> [] \<longrightarrow> n < call_count (resume out) \<or> resume out = Done (length dst))"
proof -
  let ?rb = "ring_of b s" and ?h = "ps_heap s" and ?m = "ps_mem s"
  from inv rd have wd: "pipe_wired b r w ?h" and it: "it_ok it" "it_rest it = drop n dst" "n \<le> length dst"
    and mem: "mem_ok ?m" and rb: "rb_inv ?rb"
    by (auto simp: ps_inv_def pipe_wired_def)
  note spec = pipe_read_round_spec [OF wd it(1), of n ?m]
  show ?thesis
  proof (cases "rb_elems ?rb = []")
    case True
    then show ?thesis using spec inv rd by (auto simp: ps_inv_def)
  next
    case False
    let ?j = "min (available_read ?rb) (length dst - n)"
    let ?m' = "ptrs_write (drop n dst) (take ?j (rb_elems ?rb)) ?m"
    obtain out rb' where run: "pipe_read_loop (available_read ?rb) it n ?rb ?m = Inr (out, rb', ?m')"
      and rb': "rb_inv rb'" "rb_elems rb' = drop ?j (rb_elems ?rb)" "rb_write_end rb' = rb_write_end ?rb"
      and out: "call_ok dst (resume out)" "call_count (resume out) = n + ?j"
        "\<forall>x. resume out = Done x \<longrightarrow> x = length dst"
        "0 < available_read ?rb \<longrightarrow> 0 < ?j \<or> resume out = Done (length dst)"
      using pipe_read_loop_resumes [OF it(1,2,3) rb] by blast
    have len: "length (take ?j (rb_elems ?rb)) = ?j" by simp
    have data: "ptrs_read ?m' (take (n + ?j) dst) = ptrs_read ?m (take n dst) @ take ?j (rb_elems ?rb)"
      using ptrs_read_append_write [OF mem, of dst n "take ?j (rb_elems ?rb)"] apart it(3)
      unfolding len buffers_apart_def by simp
    have other: "ptr_read ?m' p = ptr_read ?m p" if "p \<notin> set dst" for p
      using that apart by (intro ptr_read_ptrs_write_other [OF mem])
        (auto simp: buffers_apart_def dest: in_set_dropD)
    have bl: "b < length (ph_rings ?h)" using wd by (simp add: pipe_wired_def)
    have "ps_inv b r w dst src m0
        (s\<lparr>ps_heap := ?h\<lparr>ph_rings := (ph_rings ?h)[b := rb']\<rparr>, ps_mem := ?m', ps_reader := resume out\<rparr>)"
      using inv pipe_wired_ring [OF wd rb'(1,3)] data other out rb' bl mem rd
      by (simp add: ps_inv_def)
    moreover have "0 < available_read ?rb"
      using False by (simp add: rb_elems_Nil_iff)
    ultimately show ?thesis using spec run False out(2,4) by auto
  qed
qed

lemma writer_round_inv:
  assumes inv: "ps_inv b r w dst src m0 s" and wr: "ps_writer s = Running it n"
    and apart: "buffers_apart dst src"
  shows "\<exists>out h'. pipe_write_round w it n (ps_heap s) (ps_mem s) = Inr (out, h')
    \<and> ps_inv b r w dst src m0 (s\<lparr>ps_heap := h', ps_writer := resume out\<rparr>)
    \<and> ph_pipes h' = ph_pipes (ps_heap s)
    \<and> (0 < available_write (ring_of b s) \<longrightarrow> n < call_count (resume out) \<or> resume out = Done (length src))"
proof -
  let ?rb = "ring_of b s" and ?h = "ps_heap s" and ?m = "ps_mem s"
  from inv wr have wd: "pipe_wired b r w ?h" and it: "it_ok it" "it_rest it = drop n src" "n \<le> length src"
    and rb: "rb_inv ?rb" and open_end: "0 < write_ends w s"
    by (auto simp: ps_inv_def pipe_wired_def)
  show ?thesis
  proof (cases "available_write ?rb = 0")
    case True
    then show ?thesis using wd inv wr by (auto simp: pipe_write_round_def pipe_wired_def ps_inv_def)
  next
    case False
    let ?j = "min (available_write ?rb) (length src - n)"
    obtain out rb' where run: "pipe_write_loop (available_write ?rb) it n ?rb ?m = Inr (out, rb')"
      and rb': "rb_inv rb'" "rb_elems rb' = rb_elems ?rb @ ptrs_read ?m (take ?j (drop n src))"
        "rb_write_end rb' = rb_write_end ?rb"
      and out: "call_ok src (resume out)" "call_count (resume out) = n + ?j"
        "\<forall>x. resume out = Done x \<longrightarrow> x = length src"
        "0 < available_write ?rb \<longrightarrow> 0 < ?j \<or> resume out = Done (length src)"
      using pipe_write_loop_resumes [OF it(1,2,3) rb] by blast
    have "p \<notin> set dst" if "p \<in> set (take ?j (drop n src))" for p
      using apart that by (auto simp: buffers_apart_def dest: in_set_takeD in_set_dropD)
    then have src: "ptrs_read ?m (take ?j (drop n src)) = ptrs_read m0 (take ?j (drop n src))"
      using inv unfolding ptrs_read_def ps_inv_def by (intro map_cong refl) blast
    have data: "take (n + ?j) (ptrs_read m0 src) = take n (ptrs_read m0 src) @ ptrs_read m0 (take ?j (drop n src))"
      by (simp add: ptrs_read_def take_add take_map drop_map)
    have bl: "b < length (ph_rings ?h)" using wd by (simp add: pipe_wired_def)
    have "ps_inv b r w dst src m0
        (s\<lparr>ps_heap := ?h\<lparr>ph_rings := (ph_rings ?h)[b := rb']\<rparr>, ps_writer := resume out\<rparr>)"
      using inv pipe_wired_ring [OF wd rb'(1,3)] data src out rb' bl wr open_end
      by (auto simp: ps_inv_def)
    moreover have "pipe_write_round w it n ?h ?m = Inr (out, ?h\<lparr>ph_rings := (ph_rings ?h)[b := rb']\<rparr>)"
      using wd False run by (simp add: pipe_write_round_def pipe_wired_def)
    ultimately show ?thesis using False out(2,4) by auto
  qed
qed

lemma pipe_step_inv:
  assumes "pipe_step r w s s'" and "ps_inv b r w dst src m0 s" and "buffers_apart dst src"
  shows "ps_inv b r w dst src m0 s'"
  using assms
proof (induction rule: pipe_step.induct)
  case (reader_round s it n out h' m')
  then show ?case using reader_round_inv by fastforce
next
  case (writer_round s it n out h')
  then show ?case using writer_round_inv by fastforce
next
  case (write_end_clone s)
  then show ?case using pipe_wired_count
    by (auto simp: ps_inv_def pipe_arc_clone_def pipe_wired_def)
next
  case (write_end_drop s k)
  then show ?case using pipe_wired_count
    by (auto simp: ps_inv_def pipe_arc_drop_def pipe_wired_def)
qed

lemma pipe_reachable_inv:
  assumes "(pipe_step r w)\<^sup>*\<^sup>* s s'" and "ps_inv b r w dst src m0 s" and "buffers_apart dst src"
  shows "ps_inv b r w dst src m0 s'"
  using assms by (induction rule: rtranclp_induct) (auto intro: pipe_step_inv)

lemma pipe_start_inv:
  assumes "pipe_start dst src h0 m0 = Inr (r, w, s)" and "ub_ok dst" and "ub_ok src" and "mem_ok m0"
  shows "ps_inv (length (ph_rings h0)) r w (ub_ptrs dst) (ub_ptrs src) m0 s"
  using assms
  by (auto simp: pipe_start_def make_pipe_def pipe_read_def pipe_write_def Let_def nth_append
      read_end_with_buffer_def write_end_with_buffer_def ps_inv_def pipe_wired_def it_rest_into_iter
      it_ok_into_iter ptrs_read_def rb_inv_def rb_elems_def available_read_def set_write_end_def
      pipe_ring_buffer_new_def RING_BUFFER_SIZE_def)

section \<open>Properties\<close>

text \<open>
  C4. A pipe delivers what was written, in order. A process writes a buffer to a new pipe while
  another reads into a buffer that shares no byte with it. However their rounds interleave, the
  bytes read so far are the first bytes written, nothing else in memory has changed, a write
  that returned wrote its whole buffer, and a read that returned filled its whole buffer or, when
  it is longer than the data, has received all of it.
\<close>

theorem pipe_delivers:
  assumes "pipe_start dst src h0 m0 = Inr (r, w, s0)" and "(pipe_step r w)\<^sup>*\<^sup>* s0 s"
    and "ub_ok dst" and "ub_ok src" and "mem_ok m0" and "buffers_apart (ub_ptrs dst) (ub_ptrs src)"
  shows "ptrs_read (ps_mem s) (take (call_count (ps_reader s)) (ub_ptrs dst))
      = take (call_count (ps_reader s)) (ptrs_read m0 (ub_ptrs src))
    \<and> (\<forall>p. p \<notin> set (ub_ptrs dst) \<longrightarrow> ptr_read (ps_mem s) p = ptr_read m0 p)
    \<and> (\<forall>k. ps_writer s = Done k \<longrightarrow> k = length (ub_ptrs src))
    \<and> (\<forall>n. ps_reader s = Done n \<longrightarrow> n = length (ub_ptrs dst) \<or> n = length (ub_ptrs src))"
proof -
  let ?b = "length (ph_rings h0)" and ?dst = "ub_ptrs dst" and ?src = "ub_ptrs src"
  let ?n = "call_count (ps_reader s)" and ?k = "call_count (ps_writer s)"
  have inv: "ps_inv ?b r w ?dst ?src m0 s"
    using pipe_start_inv [OF assms(1,3,4,5)] assms(2,6) by (blast intro: pipe_reachable_inv)
  then have eq: "ptrs_read (ps_mem s) (take ?n ?dst) @ rb_elems (ring_of ?b s) = take ?k (ptrs_read m0 ?src)"
    and n: "?n \<le> length ?dst" and k: "?k \<le> length ?src"
    by (auto simp: ps_inv_def elim: call_ok.elims)
  have "length (ptrs_read (ps_mem s) (take ?n ?dst)) = ?n" using n by (simp add: ptrs_read_def)
  with eq have pre: "ptrs_read (ps_mem s) (take ?n ?dst) = take ?n (take ?k (ptrs_read m0 ?src))"
    by (metis append_eq_conv_conj)
  have nk: "?n + length (rb_elems (ring_of ?b s)) = ?k"
    using arg_cong [OF eq, of length] n k by (simp add: ptrs_read_def)
  have "m = length ?dst \<or> m = length ?src" if "ps_reader s = Done m" for m
    using that inv nk by (cases "ps_writer s") (auto simp: ps_inv_def rb_elems_Nil_iff)
  then show ?thesis using inv pre nk by (auto simp: ps_inv_def min_def)
qed

text \<open>The work that is left for the two calls.\<close>

definition pipe_left :: "nat \<Rightarrow> uptr list \<Rightarrow> uptr list \<Rightarrow> pipe_sys \<Rightarrow> nat" where
  "pipe_left w dst src s = (length dst - call_count (ps_reader s)) + (length src - call_count (ps_writer s))
     + (case ps_writer s of Running _ _ \<Rightarrow> 1 | Done _ \<Rightarrow> 0) + write_ends w s"

lemma call_ok_count: "call_ok ps c \<Longrightarrow> call_count c \<le> length ps"
  by (cases c) simp_all

lemma pipe_reader_progress:
  assumes inv: "ps_inv b r w dst src m0 s" and rd: "ps_reader s = Running it n"
    and apart: "buffers_apart dst src"
  shows "\<exists>s'. pipe_step r w s s' \<and> ((\<exists>x. ps_reader s' = Done x) \<or> pipe_left w dst src s' < pipe_left w dst src s)"
proof (cases "rb_elems (ring_of b s) = []")
  case False
  obtain out h' m' where run: "pipe_read_round r it n (ps_heap s) (ps_mem s) = Inr (out, h', m')"
    and inv': "ps_inv b r w dst src m0 (s\<lparr>ps_heap := h', ps_mem := m', ps_reader := resume out\<rparr>)"
    and h': "ph_pipes h' = ph_pipes (ps_heap s)" "n < call_count (resume out) \<or> resume out = Done (length dst)"
    using reader_round_inv [OF inv rd apart] False by blast
  have "call_count (resume out) \<le> length dst"
    using inv' by (simp add: ps_inv_def call_ok_count)
  then show ?thesis
    using pipe_step.reader_round [OF rd run, of w] h' rd
    by (intro exI [of _ "s\<lparr>ps_heap := h', ps_mem := m', ps_reader := resume out\<rparr>"])
      (auto simp: pipe_left_def)
next
  case True
  show ?thesis
  proof (cases "ps_writer s")
    case (Running it' k)
    have "available_write (ring_of b s) > 0"
      using inv True by (auto simp: ps_inv_def pipe_wired_def available_write_eq rb_elems_Nil_iff)
    with writer_round_inv [OF inv Running apart] obtain out h' where
      run: "pipe_write_round w it' k (ps_heap s) (ps_mem s) = Inr (out, h')"
      and inv': "ps_inv b r w dst src m0 (s\<lparr>ps_heap := h', ps_writer := resume out\<rparr>)"
      and h': "ph_pipes h' = ph_pipes (ps_heap s)" "k < call_count (resume out) \<or> resume out = Done (length src)"
      by blast
    have "call_count (resume out) \<le> length src" "k \<le> length src"
      using inv inv' Running by (auto simp: ps_inv_def call_ok_count)
    then show ?thesis
      using pipe_step.writer_round [OF Running run, of r] h' Running
      by (intro exI [of _ "s\<lparr>ps_heap := h', ps_writer := resume out\<rparr>"])
        (auto simp: pipe_left_def split: pipe_call.splits)
  next
    case (Done k)
    show ?thesis
    proof (cases "write_ends w s = 0")
      case wz: True
      have "pipe_read_round r it n (ps_heap s) (ps_mem s) = Inr (Returned n, ps_heap s, ps_mem s)"
        using inv rd True wz by (subst pipe_read_round_spec [of b r w]) (auto simp: ps_inv_def)
      from pipe_step.reader_round [OF rd this, of w] show ?thesis by fastforce
    next
      case wz: False
      then have "pipe_step r w s (s\<lparr>ps_heap := pipe_arc_drop w (ps_heap s)\<rparr>)"
        using Done by (intro pipe_step.write_end_drop) auto
      moreover have "w < length (ph_pipes (ps_heap s))" using inv by (simp add: ps_inv_def pipe_wired_def)
      ultimately show ?thesis
        using wz by (intro exI [of _ "s\<lparr>ps_heap := pipe_arc_drop w (ps_heap s)\<rparr>"])
          (auto simp: pipe_left_def pipe_arc_drop_def)
    qed
  qed
qed

lemma pipe_reader_finishes_aux:
  assumes "ps_inv b r w dst src m0 s" and "buffers_apart dst src"
  shows "\<exists>s' x. (pipe_step r w)\<^sup>*\<^sup>* s s' \<and> ps_reader s' = Done x"
  using assms
proof (induction "pipe_left w dst src s" arbitrary: s rule: less_induct)
  case less
  show ?case
  proof (cases "ps_reader s")
    case (Running it n)
    from pipe_reader_progress [OF less.prems(1) this less.prems(2)] obtain s' where st: "pipe_step r w s s'"
      and "(\<exists>x. ps_reader s' = Done x) \<or> pipe_left w dst src s' < pipe_left w dst src s" by blast
    then show ?thesis
      using less.hyps [of s'] pipe_step_inv [OF st less.prems] less.prems(2)
      by (meson converse_rtranclp_into_rtranclp r_into_rtranclp)
  qed blast
qed

lemma pipe_start_example:
  "\<exists>s0. pipe_start (byte_slice 4) (byte_slice 3) \<lparr>ph_rings = [], ph_pipes = []\<rparr> m = Inr (0, 1, s0)
     \<and> ps_mem s0 = m"
  by (simp add: pipe_start_def make_pipe_def pipe_read_def pipe_write_def read_end_with_buffer_def
      write_end_with_buffer_def)

lemma byte_slices_apart: "k \<noteq> n \<Longrightarrow> buffers_apart (ub_ptrs (byte_slice k)) (ub_ptrs (byte_slice n))"
  by (simp add: buffers_apart_def byte_slice_ptrs)

theorem pipe_delivers_witness:
  "\<exists>s0 s. pipe_start (byte_slice 4) (byte_slice 3) \<lparr>ph_rings = [], ph_pipes = []\<rparr>
        (mem_of_bytes (\<lambda>n. if n = 3 then 9 else 5)) = Inr (0, 1, s0)
    \<and> (pipe_step 0 1)\<^sup>*\<^sup>* s0 s \<and> ps_reader s = Done 1 \<and> ptr_read (ps_mem s) (PhysPageNum 4, 4095) = 9"
proof -
  let ?m = "mem_of_bytes (\<lambda>n. if n = 3 then 9 else 5)"
  obtain s0 where st: "pipe_start (byte_slice 4) (byte_slice 3) \<lparr>ph_rings = [], ph_pipes = []\<rparr> ?m = Inr (0, 1, s0)"
    using pipe_start_example by blast
  have ap: "buffers_apart (ub_ptrs (byte_slice 4)) (ub_ptrs (byte_slice 3))"
    by (rule byte_slices_apart) simp
  note ok = byte_slice_ptrs(2) [of 4] byte_slice_ptrs(2) [of 3] mem_of_bytes_read(1)
  obtain s x where run: "(pipe_step 0 1)\<^sup>*\<^sup>* s0 s" "ps_reader s = Done x"
    using pipe_reader_finishes_aux [OF pipe_start_inv [OF st ok] ap] by blast
  from pipe_delivers [OF st run(1) ok ap] run(2) have "x = 1"
    and "ptrs_read (ps_mem s) [(PhysPageNum 4, 4095)] = [9]"
    by (auto simp: byte_slice_ptrs ptrs_read_def mem_of_bytes_read)
  with st run show ?thesis by (auto simp: ptrs_read_def)
qed

text \<open>
  C5. A read of a pipe is never stuck for good: from every reachable state of the two
  processes there is a continuation in which the read returns. In particular the two loops
  cannot both wait for each other.
\<close>

theorem pipe_reader_can_finish:
  assumes "pipe_start dst src h0 m0 = Inr (r, w, s0)" and "(pipe_step r w)\<^sup>*\<^sup>* s0 s"
    and "ub_ok dst" and "ub_ok src" and "mem_ok m0" and "buffers_apart (ub_ptrs dst) (ub_ptrs src)"
  shows "\<exists>s' n. (pipe_step r w)\<^sup>*\<^sup>* s s' \<and> ps_reader s' = Done n"
  using pipe_start_inv [OF assms(1,3,4,5)] assms(2,6)
  by (blast intro: pipe_reader_finishes_aux pipe_reachable_inv)

theorem pipe_reader_can_finish_witness:
  "\<exists>s0 s' n. pipe_start (byte_slice 4) (byte_slice 3) \<lparr>ph_rings = [], ph_pipes = []\<rparr>
        (mem_of_bytes (\<lambda>_. 9)) = Inr (0, 1, s0)
    \<and> (pipe_step 0 1)\<^sup>*\<^sup>* s0 s' \<and> ps_reader s' = Done n"
proof -
  obtain s0 where st: "pipe_start (byte_slice 4) (byte_slice 3) \<lparr>ph_rings = [], ph_pipes = []\<rparr>
      (mem_of_bytes (\<lambda>_. 9)) = Inr (0, 1, s0)"
    using pipe_start_example by blast
  have "buffers_apart (ub_ptrs (byte_slice 4)) (ub_ptrs (byte_slice 3))"
    by (rule byte_slices_apart) simp
  from pipe_reader_can_finish [OF st rtranclp.rtrancl_refl byte_slice_ptrs(2) byte_slice_ptrs(2)
      mem_of_bytes_read(1) this] st
  show ?thesis by blast
qed

end
