(* ===== verification/Block_Cache.thy ===== *)
theory Block_Cache
  imports Prelude
begin

text \<open>
  The block device interface and the block cache of the file system
  (\<^verbatim>\<open>easy-fs/src/block_dev.rs\<close>, \<^verbatim>\<open>easy-fs/src/block_cache.rs\<close>), and the device of the
  image builder, a file (\<^verbatim>\<open>easy-fs-fuse/src/main.rs\<close>).

  A block device is whatever implements the trait: it is an argument of the definitions, a
  record of its two operations on a state of any type.
\<close>

definition BLOCK_SZ :: nat where "BLOCK_SZ = 512"

record 'd block_dev =
  bd_read :: "nat \<Rightarrow> 'd \<Rightarrow> u8 list res"
  bd_write :: "nat \<Rightarrow> u8 list \<Rightarrow> 'd \<Rightarrow> 'd res"

section \<open>Cached blocks\<close>

text \<open>
  A cached block with what \<^verbatim>\<open>Arc<Mutex<BlockCache>>\<close> adds to it: the strong reference count
  and whether the mutex is held.
\<close>

record block_cache =
  bc_cache :: "u8 list"
  bc_block_id :: nat
  bc_modified :: bool
  bc_refs :: nat
  bc_locked :: bool

definition block_cache_new :: "'d block_dev \<Rightarrow> nat \<Rightarrow> 'd \<Rightarrow> block_cache res" where
  "block_cache_new D block_id dev =
     rbind (bd_read D block_id dev) (\<lambda>cache.
     Inr \<lparr>bc_cache = cache, bc_block_id = block_id, bc_modified = False, bc_refs = 1, bc_locked = False\<rparr>)"

text \<open>Also what dropping a cached block does.\<close>

definition block_cache_sync :: "'d block_dev \<Rightarrow> block_cache \<Rightarrow> 'd \<Rightarrow> (block_cache \<times> 'd) res" where
  "block_cache_sync D bc dev =
     (if bc_modified bc then
        rbind (bd_write D (bc_block_id bc) (bc_cache bc) dev) (\<lambda>dev'.
        Inr (bc\<lparr>bc_modified := False\<rparr>, dev'))
      else Inr (bc, dev))"

section \<open>The manager\<close>

definition BLOCK_CACHE_SIZE :: nat where "BLOCK_CACHE_SIZE = 16"

record 'd store =
  st_dev :: 'd
  st_queue :: "(nat \<times> block_cache) list"

definition block_cache_manager_new :: "'d \<Rightarrow> 'd store" where
  "block_cache_manager_new dev = \<lparr>st_dev = dev, st_queue = []\<rparr>"

definition upd_entry :: "nat \<Rightarrow> (block_cache \<Rightarrow> block_cache) \<Rightarrow> 'd store \<Rightarrow> 'd store" where
  "upd_entry b g st = st\<lparr>st_queue := map (\<lambda>(k, bc). if k = b then (k, g bc) else (k, bc)) (st_queue st)\<rparr>"

definition entry :: "nat \<Rightarrow> 'd store \<Rightarrow> block_cache option" where
  "entry b st = map_of (st_queue st) b"

text \<open>The first cached block, from the front, that nobody but the manager refers to.\<close>

definition find_unused :: "(nat \<times> block_cache) list \<Rightarrow> nat option" where
  "find_unused q = find (\<lambda>i. bc_refs (snd (q ! i)) = 1) [0..<length q]"

definition evict :: "'d block_dev \<Rightarrow> 'd store \<Rightarrow> 'd store res" where
  "evict D st =
     (case find_unused (st_queue st) of
        Some idx \<Rightarrow>
          rbind (block_cache_sync D (snd (st_queue st ! idx)) (st_dev st)) (\<lambda>(bc, dev').
          Inr \<lparr>st_dev = dev', st_queue = take idx (st_queue st) @ drop (idx + 1) (st_queue st)\<rparr>)
      | None \<Rightarrow> Inl Panicked)"

definition get_block_cache :: "'d block_dev \<Rightarrow> nat \<Rightarrow> 'd store \<Rightarrow> 'd store res" where
  "get_block_cache D block_id st =
     (if find (\<lambda>pair. fst pair = block_id) (st_queue st) \<noteq> None then
        Inr (upd_entry block_id (\<lambda>bc. bc\<lparr>bc_refs := bc_refs bc + 1\<rparr>) st)
      else
        rbind (if length (st_queue st) = BLOCK_CACHE_SIZE then evict D st else Inr st) (\<lambda>st1.
        rbind (block_cache_new D block_id (st_dev st1)) (\<lambda>bc.
        Inr (st1\<lparr>st_queue := st_queue st1 @ [(block_id, bc\<lparr>bc_refs := bc_refs bc + 1\<rparr>)]\<rparr>))))"

text \<open>Taking the mutex of a cached block: a second attempt by the same thread never returns.\<close>

definition bc_lock :: "nat \<Rightarrow> 'd store \<Rightarrow> 'd store res" where
  "bc_lock b st =
     (case entry b st of
        None \<Rightarrow> Inl Panicked
      | Some bc \<Rightarrow> if bc_locked bc then Inl DeadLock else Inr (upd_entry b (\<lambda>bc. bc\<lparr>bc_locked := True\<rparr>) st))"

definition bc_release :: "nat \<Rightarrow> 'd store \<Rightarrow> 'd store" where
  "bc_release b st = upd_entry b (\<lambda>bc. bc\<lparr>bc_locked := False, bc_refs := bc_refs bc - 1\<rparr>) st"

definition bc_bytes :: "nat \<Rightarrow> 'd store \<Rightarrow> u8 list" where
  "bc_bytes b st = (case entry b st of None \<Rightarrow> [] | Some bc \<Rightarrow> bc_cache bc)"

text \<open>
  \<^verbatim>\<open>get_block_cache(b, dev).lock().read(offset, f)\<close> and the same with \<^verbatim>\<open>modify\<close>. The closure
  gets the bytes of the object of \<open>sz\<close> bytes at the offset; while it runs the block is locked,
  so that nothing else can change these bytes, and a modifying closure returns the new
  bytes of the object.
\<close>

type_synonym ('v, 'd) act = "'d store \<Rightarrow> ('v \<times> 'd store) res"

definition cache_read :: "'d block_dev \<Rightarrow> nat \<Rightarrow> nat \<Rightarrow> nat \<Rightarrow> (u8 list \<Rightarrow> ('v, 'd) act) \<Rightarrow> ('v, 'd) act" where
  "cache_read D b offset sz f st =
     rbind (get_block_cache D b st) (\<lambda>st1.
     rbind (bc_lock b st1) (\<lambda>st2.
     rbind (assertE (offset + sz \<le> BLOCK_SZ)) (\<lambda>_.
     rbind (f (take sz (drop offset (bc_bytes b st2))) st2) (\<lambda>(v, st3).
     Inr (v, bc_release b st3)))))"

definition cache_modify ::
  "'d block_dev \<Rightarrow> nat \<Rightarrow> nat \<Rightarrow> nat \<Rightarrow> (u8 list \<Rightarrow> ('v \<times> u8 list, 'd) act) \<Rightarrow> ('v, 'd) act"
where
  "cache_modify D b offset sz f st =
     rbind (get_block_cache D b st) (\<lambda>st1.
     rbind (bc_lock b st1) (\<lambda>st2.
     rbind (assertE (offset + sz \<le> BLOCK_SZ)) (\<lambda>_.
     (let st2' = upd_entry b (\<lambda>bc. bc\<lparr>bc_modified := True\<rparr>) st2 in
     rbind (f (take sz (drop offset (bc_bytes b st2'))) st2') (\<lambda>((v, bytes), st3).
     Inr (v, bc_release b (upd_entry b (\<lambda>bc. bc\<lparr>bc_cache := overwrite offset bytes (bc_cache bc)\<rparr>) st3)))))))"

definition a_ret :: "'v \<Rightarrow> ('v, 'd) act" where
  "a_ret v st = Inr (v, st)"

definition a_bind :: "('v, 'd) act \<Rightarrow> ('v \<Rightarrow> ('w, 'd) act) \<Rightarrow> ('w, 'd) act" where
  "a_bind m f st = rbind (m st) (\<lambda>(v, st'). f v st')"

definition a_res :: "'v res \<Rightarrow> ('v, 'd) act" where
  "a_res r st = rbind r (\<lambda>v. Inr (v, st))"

lemma a_bind_cong [fundef_cong]:
  "(m st = m' st) \<Longrightarrow> (\<And>v st'. m' st = Inr (v, st') \<Longrightarrow> f v st' = f' v st') \<Longrightarrow> a_bind m f st = a_bind m' f' st"
  by (auto simp: a_bind_def intro: rbind_cong)

section \<open>A file as a block device\<close>

text \<open>
  \<^verbatim>\<open>BlockFile\<close>: the state is the contents of the file. Reading past the end returns fewer bytes,
  which the assertion turns into a panic; writing past the end extends the file, with zeros
  up to the place of the write.
\<close>

definition block_file_read :: "nat \<Rightarrow> u8 list \<Rightarrow> u8 list res" where
  "block_file_read block_id file =
     (let buf = take BLOCK_SZ (drop (block_id * BLOCK_SZ) file) in
      rbind (assertE (length buf = BLOCK_SZ)) (\<lambda>_. Inr buf))"

definition block_file_write :: "nat \<Rightarrow> u8 list \<Rightarrow> u8 list \<Rightarrow> u8 list res" where
  "block_file_write block_id buf file =
     (let padded = file @ replicate (block_id * BLOCK_SZ + length buf - length file) 0 in
      rbind (assertE (length buf = BLOCK_SZ)) (\<lambda>_.
      Inr (overwrite (block_id * BLOCK_SZ) buf padded)))"

definition block_file :: "u8 list block_dev" where
  "block_file = \<lparr>bd_read = block_file_read, bd_write = block_file_write\<rparr>"

section \<open>What the file system relies on\<close>

text \<open>
  The documented behaviour of a block device with \<open>blocks\<close> blocks: reading gives 512 bytes, and
  the last write to a block is what a read of it returns.
\<close>

locale block_device =
  fixes D :: "'d block_dev"
    and blocks :: "'d \<Rightarrow> nat"
  assumes read_ok: "b < blocks d \<Longrightarrow> \<exists>bs. bd_read D b d = Inr bs \<and> length bs = 512"
    and write_ok: "b < blocks d \<Longrightarrow> length bs = 512 \<Longrightarrow>
      \<exists>d'. bd_write D b bs d = Inr d' \<and> blocks d' = blocks d \<and> bd_read D b d' = Inr bs
        \<and> (\<forall>c. c < blocks d \<longrightarrow> c \<noteq> b \<longrightarrow> bd_read D c d' = bd_read D c d)"
begin

definition dev_block :: "'d \<Rightarrow> nat \<Rightarrow> u8 list" where
  "dev_block d b = (case bd_read D b d of Inr bs \<Rightarrow> bs | Inl _ \<Rightarrow> [])"

lemma dev_block_read: "b < blocks d \<Longrightarrow> bd_read D b d = Inr (dev_block d b) \<and> length (dev_block d b) = 512"
  using read_ok [of b d] by (auto simp: dev_block_def)

lemma dev_block_write:
  assumes "b < blocks d" and "length bs = 512"
  shows "\<exists>d'. bd_write D b bs d = Inr d' \<and> blocks d' = blocks d
    \<and> (\<forall>c. c < blocks d \<longrightarrow> dev_block d' c = (if c = b then bs else dev_block d c))"
  using write_ok [OF assms] by (auto simp: dev_block_def)

end

lemma block_file_geometry: "b < length file div 512 \<Longrightarrow> b * 512 + 512 \<le> length (file :: 'a list)"
  using less_eq_div_iff_mult_less_eq [of 512 "Suc b" "length file"] by simp

interpretation bf: block_device block_file "\<lambda>file. length file div 512"
proof (unfold_locales, goal_cases)
  case (1 b d)
  then show ?case
    using block_file_geometry [OF 1] by (simp add: block_file_def block_file_read_def BLOCK_SZ_def)
next
  case (2 b d bs)
  note g = block_file_geometry [OF 2(1)]
  let ?d' = "overwrite (b * 512) bs d"
  have w: "bd_write block_file b bs d = Inr ?d'"
    using g 2(2) by (simp add: block_file_def block_file_write_def BLOCK_SZ_def)
  have same: "bd_read block_file b ?d' = Inr bs"
    using g 2(2) take_drop_overwrite [of "b * 512" bs d]
    by (simp add: block_file_def block_file_read_def BLOCK_SZ_def)
  have "bd_read block_file c ?d' = bd_read block_file c d" if "c < length d div 512" "c \<noteq> b" for c
  proof -
    have "take 512 (drop (c * 512) ?d') = take 512 (drop (c * 512) d)"
    proof (cases "c < b")
      case True
      then have "c * 512 + 512 \<le> b * 512" by simp
      then show ?thesis using g 2(2) by (simp add: take_drop_overwrite_before)
    next
      case False
      then have "b * 512 + 512 \<le> c * 512" using that(2) by simp
      then show ?thesis using block_file_geometry [OF that(1)] 2(2)
        by (simp add: take_drop_overwrite_after)
    qed
    then show ?thesis by (simp add: block_file_def block_file_read_def BLOCK_SZ_def)
  qed
  then show ?case using w same g 2(2) by auto
qed

end
