(* ===== verification/Cache_Refine.thy ===== *)
theory Cache_Refine
  imports Block_Cache
begin

text \<open>
  The block cache implements a plain array of blocks: the contents of a block are its cached
  bytes or, when it is not cached, those on the device, and loading and evicting blocks does
  not change these contents. Actions on the cache are described by \<open>runs\<close>, which says what an
  action returns and what it does to the contents from every state of the cache.
\<close>

definition held :: "'d store \<Rightarrow> nat set" where
  "held st = {b. \<exists>bc. (b, bc) \<in> set (st_queue st) \<and> bc_locked bc}"

text \<open>Sequences of reads and writes of parts of blocks, through the cache and on a plain array.\<close>

datatype block_op = BRead nat nat nat | BWrite nat nat "u8 list"

fun run_op :: "'d block_dev \<Rightarrow> block_op \<Rightarrow> (u8 list, 'd) act" where
  "run_op D (BRead b off sz) = cache_read D b off sz (\<lambda>bs. a_ret bs)"
| "run_op D (BWrite b off bs) = cache_modify D b off (length bs) (\<lambda>_. a_ret ([], bs))"

fun run_ops :: "'d block_dev \<Rightarrow> block_op list \<Rightarrow> (u8 list list, 'd) act" where
  "run_ops D [] = a_ret []"
| "run_ops D (op # ops) = a_bind (run_op D op) (\<lambda>x. a_bind (run_ops D ops) (\<lambda>xs. a_ret (x # xs)))"

fun array_ops :: "(nat \<Rightarrow> u8 list) \<Rightarrow> block_op list \<Rightarrow> u8 list list" where
  "array_ops V [] = []"
| "array_ops V (BRead b off sz # ops) = take sz (drop off (V b)) # array_ops V ops"
| "array_ops V (BWrite b off bs # ops) = [] # array_ops (V(b := overwrite off bs (V b))) ops"

fun op_in_range :: "nat \<Rightarrow> block_op \<Rightarrow> bool" where
  "op_in_range n (BRead b off sz) \<longleftrightarrow> b < n \<and> off + sz \<le> 512"
| "op_in_range n (BWrite b off bs) \<longleftrightarrow> b < n \<and> off + length bs \<le> 512"

definition disk_ok :: "nat \<Rightarrow> (nat \<Rightarrow> u8 list) \<Rightarrow> bool" where
  "disk_ok n V \<longleftrightarrow> (\<forall>b < n. length (V b) = 512)"

context block_device
begin

definition contents :: "'d store \<Rightarrow> nat \<Rightarrow> u8 list" where
  "contents st b = (case entry b st of Some bc \<Rightarrow> bc_cache bc | None \<Rightarrow> dev_block (st_dev st) b)"

definition entry_ok :: "'d \<Rightarrow> nat \<Rightarrow> block_cache \<Rightarrow> bool" where
  "entry_ok d b bc \<longleftrightarrow> bc_block_id bc = b \<and> b < blocks d \<and> length (bc_cache bc) = 512
     \<and> bc_refs bc = (if bc_locked bc then 2 else 1) \<and> (\<not> bc_modified bc \<longrightarrow> bc_cache bc = dev_block d b)"

definition cache_inv :: "'d store \<Rightarrow> bool" where
  "cache_inv st \<longleftrightarrow> distinct (map fst (st_queue st)) \<and> length (st_queue st) \<le> 16
     \<and> (\<forall>(b, bc) \<in> set (st_queue st). entry_ok (st_dev st) b bc)"

text \<open>
  A state of the cache for a device of \<open>n\<close> blocks, with contents \<open>V\<close> and the blocks of \<open>H\<close> locked,
  those with \<^term>\<open>True\<close> for modification.
\<close>

definition sok :: "nat \<Rightarrow> (nat \<times> bool) list \<Rightarrow> (nat \<Rightarrow> u8 list) \<Rightarrow> 'd store \<Rightarrow> bool" where
  "sok n H V st \<longleftrightarrow> cache_inv st \<and> held st = fst ` set H \<and> blocks (st_dev st) = n
     \<and> (\<forall>b < n. contents st b = V b)
     \<and> (\<forall>b. (b, True) \<in> set H \<longrightarrow> (\<exists>bc. entry b st = Some bc \<and> bc_modified bc))"

definition runs :: "nat \<Rightarrow> (nat \<times> bool) list \<Rightarrow> ('v, 'd) act \<Rightarrow> (nat \<Rightarrow> u8 list) \<Rightarrow> 'v \<Rightarrow> (nat \<Rightarrow> u8 list) \<Rightarrow> bool" where
  "runs n H op V v V' \<longleftrightarrow> (\<forall>st. sok n H V st \<longrightarrow> (\<exists>st'. op st = Inr (v, st') \<and> sok n H V' st'))"

lemma runsI:
  "(\<And>st. sok n H V st \<Longrightarrow> \<exists>st'. op st = Inr (v, st') \<and> sok n H V' st') \<Longrightarrow> runs n H op V v V'"
  by (simp add: runs_def)

lemma runsD: "runs n H op V v V' \<Longrightarrow> sok n H V st \<Longrightarrow> \<exists>st'. op st = Inr (v, st') \<and> sok n H V' st'"
  by (simp add: runs_def)

section \<open>Entries\<close>

lemma entry_iff: "cache_inv st \<Longrightarrow> entry b st = Some bc \<longleftrightarrow> (b, bc) \<in> set (st_queue st)"
  by (simp add: entry_def cache_inv_def)

lemma entry_None: "entry b st = None \<longleftrightarrow> b \<notin> fst ` set (st_queue st)"
  by (simp add: entry_def map_of_eq_None_iff)

lemma entry_okD: "cache_inv st \<Longrightarrow> entry b st = Some bc \<Longrightarrow> entry_ok (st_dev st) b bc"
  by (auto simp: entry_iff cache_inv_def)

lemma upd_entry_simps [simp]:
  "st_dev (upd_entry b g st) = st_dev st"
  "map fst (st_queue (upd_entry b g st)) = map fst (st_queue st)"
  "length (st_queue (upd_entry b g st)) = length (st_queue st)"
  by (auto simp: upd_entry_def)

lemma entry_upd: "entry c (upd_entry b g st) = (if c = b then map_option g (entry c st) else entry c st)"
proof -
  have "map_of (map (\<lambda>(k, bc). if k = b then (k, g bc) else (k, bc)) q) c
      = (if c = b then map_option g (map_of q c) else map_of q c)" for q
    by (induction q) auto
  then show ?thesis by (simp add: entry_def upd_entry_def)
qed

lemma upd_entry_upd: "upd_entry b g (upd_entry b h st) = upd_entry b (\<lambda>bc. g (h bc)) st"
proof -
  have "map (\<lambda>(k, bc). if k = b then (k, g bc) else (k, bc)) (map (\<lambda>(k, bc). if k = b then (k, h bc) else (k, bc)) q)
      = map (\<lambda>(k, bc). if k = b then (k, g (h bc)) else (k, bc)) q" for q
    by (induction q) auto
  then show ?thesis by (simp add: upd_entry_def)
qed

lemma upd_entry_cong:
  assumes "distinct (map fst (st_queue st))" and "\<And>bc. entry b st = Some bc \<Longrightarrow> g bc = h bc"
  shows "upd_entry b g st = upd_entry b h st"
  using assms by (auto simp: upd_entry_def entry_def intro!: arg_cong [where f = "\<lambda>q. st\<lparr>st_queue := q\<rparr>"])

lemma upd_entry_id: "upd_entry b (\<lambda>bc. bc) st = st"
  by (simp add: upd_entry_def map_idI)

lemma cache_inv_upd:
  assumes "cache_inv st" and "\<And>bc. entry b st = Some bc \<Longrightarrow> entry_ok (st_dev st) b (g bc)"
  shows "cache_inv (upd_entry b g st)"
proof -
  have "entry_ok (st_dev st) c bc'" if "(c, bc') \<in> set (st_queue (upd_entry b g st))" for c bc'
  proof -
    from that obtain bc where "(c, bc) \<in> set (st_queue st)" "bc' = (if c = b then g bc else bc)"
      by (auto simp: upd_entry_def split: if_splits)
    then show ?thesis
      using assms entry_iff [OF assms(1)] by (cases "c = b") (auto simp: cache_inv_def)
  qed
  then show ?thesis using assms(1) by (auto simp: cache_inv_def)
qed

lemma held_iff: "cache_inv st \<Longrightarrow> b \<in> held st \<longleftrightarrow> (\<exists>bc. entry b st = Some bc \<and> bc_locked bc)"
  by (simp add: held_def entry_iff)

lemma finite_held: "finite (held st)"
proof -
  have "held st \<subseteq> fst ` set (st_queue st)" by (force simp: held_def)
  then show ?thesis by (rule finite_subset) simp
qed

lemma sok_disk_ok:
  assumes "sok n H V st"
  shows "disk_ok n V"
  unfolding disk_ok_def
proof (intro allI impI)
  fix b
  assume b: "b < n"
  have inv: "cache_inv st" and V: "V b = contents st b" and n: "blocks (st_dev st) = n"
    using assms b by (auto simp: sok_def)
  show "length (V b) = 512"
    using entry_okD [OF inv, of b] dev_block_read [of b "st_dev st"] b n
    by (auto simp: V contents_def entry_ok_def split: option.split)
qed

section \<open>Loading and evicting\<close>

lemma find_unused_ok:
  assumes "cache_inv st" and "length (st_queue st) = 16" and "card (held st) < 16"
  obtains i b bc where "find_unused (st_queue st) = Some i" and "i < 16" and "st_queue st ! i = (b, bc)"
    and "\<not> bc_locked bc"
proof (cases "find_unused (st_queue st)")
  case None
  have "b \<in> held st" if "b \<in> fst ` set (st_queue st)" for b
  proof -
    from that obtain i where i: "i < length (st_queue st)" "fst (st_queue st ! i) = b"
      by (auto simp: in_set_conv_nth)
    with None have "bc_refs (snd (st_queue st ! i)) \<noteq> 1" by (auto simp: find_unused_def find_None_iff)
    moreover have "entry_ok (st_dev st) b (snd (st_queue st ! i))"
      using assms(1) i by (metis cache_inv_def case_prodD nth_mem prod.collapse)
    ultimately show ?thesis
      using i by (metis (mono_tags, lifting) entry_ok_def held_def mem_Collect_eq nth_mem prod.collapse)
  qed
  then have "fst ` set (st_queue st) \<subseteq> held st" by blast
  then have "card (fst ` set (st_queue st)) \<le> card (held st)" by (rule card_mono [OF finite_held])
  moreover have "card (fst ` set (st_queue st)) = 16"
    using assms(1,2) by (metis cache_inv_def distinct_card length_map list.set_map)
  ultimately show thesis using assms(3) by simp
next
  case (Some i)
  then have i: "i < 16" "bc_refs (snd (st_queue st ! i)) = 1"
    using assms(2) by (auto simp: find_unused_def find_Some_iff)
  obtain b bc where q: "st_queue st ! i = (b, bc)" by fastforce
  then have "entry_ok (st_dev st) b bc"
    using assms(1,2) i(1) by (metis cache_inv_def case_prodD nth_mem)
  then have "\<not> bc_locked bc" using i(2) q by (auto simp: entry_ok_def)
  with Some i q show thesis by (intro that)
qed

lemma evict_ok:
  assumes inv: "cache_inv st" and full: "length (st_queue st) = 16" and held: "card (held st) < 16"
  obtains st1 where "evict D st = Inr st1" and "cache_inv st1" and "held st1 = held st"
    and "blocks (st_dev st1) = blocks (st_dev st)" and "length (st_queue st1) = 15"
    and "\<forall>b < blocks (st_dev st). contents st1 b = contents st b"
    and "set (map fst (st_queue st1)) \<subseteq> set (map fst (st_queue st))"
    and "\<forall>c. c \<in> held st \<longrightarrow> entry c st1 = entry c st"
proof -
  obtain i c bc where i: "find_unused (st_queue st) = Some i" "i < 16" "st_queue st ! i = (c, bc)" "\<not> bc_locked bc"
    by (rule find_unused_ok [OF assms])
  let ?q = "take i (st_queue st) @ drop (i + 1) (st_queue st)"
  have split: "st_queue st = take i (st_queue st) @ (c, bc) # drop (i + 1) (st_queue st)"
    using i full by (metis Suc_eq_plus1 id_take_nth_drop)
  have ok: "entry_ok (st_dev st) c bc"
    using inv split by (metis cache_inv_def case_prodD in_set_conv_decomp)
  obtain d' where sync: "block_cache_sync D bc (st_dev st) = Inr (bc\<lparr>bc_modified := False\<rparr>, d')"
    and d': "blocks d' = blocks (st_dev st)"
      "\<forall>b < blocks (st_dev st). dev_block d' b = (if b = c then bc_cache bc else dev_block (st_dev st) b)"
  proof (cases "bc_modified bc")
    case True
    then show thesis using that dev_block_write [of c "st_dev st" "bc_cache bc"] ok
      by (auto simp: block_cache_sync_def entry_ok_def)
  next
    case False
    then show thesis using that [of "st_dev st"] ok by (auto simp: block_cache_sync_def entry_ok_def)
  qed
  let ?st1 = "\<lparr>st_dev = d', st_queue = ?q\<rparr>"
  have ev: "evict D st = Inr ?st1" using i sync by (simp add: evict_def)
  have set_q: "set (st_queue st) = insert (c, bc) (set ?q)"
    by (subst split) auto
  have dist: "distinct (map fst ((c, bc) # ?q))"
    using inv by (subst (asm) cache_inv_def, subst (asm) split) auto
  have notin: "c \<notin> fst ` set ?q" using dist by auto
  have e_ok: "entry_ok d' b bc'" if "(b, bc') \<in> set ?q" for b bc'
  proof -
    have "entry_ok (st_dev st) b bc'" using inv set_q that by (auto simp: cache_inv_def)
    moreover have "b \<noteq> c" using that notin by force
    ultimately show ?thesis using d' by (auto simp: entry_ok_def)
  qed
  have len: "length ?q = 15" using i(2) full by simp
  have inv1: "cache_inv ?st1" using dist e_ok len by (auto simp: cache_inv_def)
  have h: "held ?st1 = held st" using set_q i(4) by (auto simp: held_def)
  have en: "entry b ?st1 = (if b = c then None else entry b st)" for b
  proof -
    have "map_of (take i (st_queue st)) c = None" using notin by (simp add: map_of_eq_None_iff image_Un)
    then have "map_of (st_queue st) b = (if b = c then Some bc else map_of ?q b)"
      by (subst split) (auto simp: map_add_def split: option.splits)
    then show ?thesis using notin by (auto simp: entry_def map_of_eq_None_iff)
  qed
  have "entry c st = Some bc" using inv set_q by (simp add: entry_iff)
  then have "\<forall>b < blocks (st_dev st). contents ?st1 b = contents st b"
    using en d' by (auto simp: contents_def split: option.split)
  moreover have "set (map fst ?q) \<subseteq> set (map fst (st_queue st))" using set_q by auto
  moreover have "\<forall>b. b \<in> held st \<longrightarrow> entry b ?st1 = entry b st"
    using en i(4) \<open>entry c st = Some bc\<close> by (auto simp: held_iff [OF inv])
  ultimately show thesis using that [of ?st1] ev inv1 h d'(1) len by simp
qed

lemma get_block_cache_ok:
  assumes inv: "cache_inv st" and b: "b < blocks (st_dev st)" "b \<notin> held st" and room: "card (held st) < 16"
  obtains st1 bc where "get_block_cache D b st = Inr st1" and "entry b st1 = Some bc"
    and "bc_refs bc = 2" and "\<not> bc_locked bc" and "entry_ok (st_dev st1) b (bc\<lparr>bc_refs := 1\<rparr>)"
    and "cache_inv (upd_entry b (\<lambda>bc. bc\<lparr>bc_refs := 1\<rparr>) st1)"
    and "held (upd_entry b (\<lambda>bc. bc\<lparr>bc_refs := 1\<rparr>) st1) = held st"
    and "blocks (st_dev st1) = blocks (st_dev st)"
    and "\<forall>c < blocks (st_dev st). contents st1 c = contents st c"
    and "\<forall>c. c \<in> held st \<longrightarrow> entry c st1 = entry c st"
proof (cases "entry b st")
  case (Some bc)
  let ?st1 = "upd_entry b (\<lambda>bc. bc\<lparr>bc_refs := bc_refs bc + 1\<rparr>) st"
  have ok: "entry_ok (st_dev st) b bc" by (rule entry_okD [OF inv Some])
  have nl: "\<not> bc_locked bc" using b(2) Some by (simp add: held_iff [OF inv])
  have refs: "bc_refs bc = 1" using ok nl by (simp add: entry_ok_def)
  have "find (\<lambda>pair. fst pair = b) (st_queue st) \<noteq> None"
    using Some by (auto simp: entry_iff [OF inv] find_None_iff)
  then have get: "get_block_cache D b st = Inr ?st1" by (simp add: get_block_cache_def)
  have restore: "upd_entry b (\<lambda>bc. bc\<lparr>bc_refs := 1\<rparr>) ?st1 = st"
    unfolding upd_entry_upd
    by (rule trans [OF upd_entry_cong upd_entry_id]) (use inv refs Some in \<open>auto simp: cache_inv_def\<close>)
  have ct: "contents ?st1 c = contents st c" for c
    by (auto simp: contents_def entry_upd split: option.split)
  show thesis
    using that [of ?st1 "bc\<lparr>bc_refs := 2\<rparr>"] get ok nl refs Some inv restore ct b(2)
    by (auto simp: entry_upd entry_ok_def)
next
  case None
  then have "find (\<lambda>pair. fst pair = b) (st_queue st) = None"
    by (force simp: entry_None find_None_iff)
  then have get: "get_block_cache D b st =
      rbind (if length (st_queue st) = 16 then evict D st else Inr st) (\<lambda>st1.
      rbind (block_cache_new D b (st_dev st1)) (\<lambda>bc.
      Inr (st1\<lparr>st_queue := st_queue st1 @ [(b, bc\<lparr>bc_refs := bc_refs bc + 1\<rparr>)]\<rparr>)))"
    by (simp add: get_block_cache_def BLOCK_CACHE_SIZE_def)
  obtain st0 where st0: "(if length (st_queue st) = 16 then evict D st else Inr st) = Inr st0"
    "cache_inv st0" "held st0 = held st" "blocks (st_dev st0) = blocks (st_dev st)"
    "length (st_queue st0) \<le> 15" "\<forall>c < blocks (st_dev st). contents st0 c = contents st c"
    "entry b st0 = None" "\<forall>c. c \<in> held st \<longrightarrow> entry c st0 = entry c st"
  proof (cases "length (st_queue st) = 16")
    case True
    show thesis
      by (rule evict_ok [OF inv True room], rule that) (use True None in \<open>auto simp: entry_None\<close>)
  next
    case False
    then show thesis using that [of st] inv None by (auto simp: cache_inv_def)
  qed
  let ?bc = "\<lparr>bc_cache = dev_block (st_dev st0) b, bc_block_id = b, bc_modified = False, bc_refs = 2, bc_locked = False\<rparr>"
  let ?st1 = "st0\<lparr>st_queue := st_queue st0 @ [(b, ?bc)]\<rparr>"
  have get1: "get_block_cache D b st = Inr ?st1"
    using get st0(1) dev_block_read [of b "st_dev st0"] st0(4) b(1) by (simp add: block_cache_new_def)
  have ok: "entry_ok (st_dev st0) b (?bc\<lparr>bc_refs := 1\<rparr>)"
    using dev_block_read [of b "st_dev st0"] st0(4) b(1) by (simp add: entry_ok_def)
  have upd: "st_queue (upd_entry b (\<lambda>bc. bc\<lparr>bc_refs := 1\<rparr>) ?st1) = st_queue st0 @ [(b, ?bc\<lparr>bc_refs := 1\<rparr>)]"
    using st0(7) by (force simp: upd_entry_def entry_None intro!: map_idI)
  have en: "entry c ?st1 = (if c = b then Some ?bc else entry c st0)" for c
    using st0(7) by (auto simp: entry_def map_add_def split: option.splits)
  have "contents ?st1 c = contents st0 c" for c
    using st0(7) en by (auto simp: contents_def split: option.split)
  moreover have "cache_inv (upd_entry b (\<lambda>bc. bc\<lparr>bc_refs := 1\<rparr>) ?st1)"
    using st0 ok upd by (auto simp: cache_inv_def entry_None)
  moreover have "held (upd_entry b (\<lambda>bc. bc\<lparr>bc_refs := 1\<rparr>) ?st1) = held st0"
    unfolding held_def upd by auto
  ultimately show thesis
    using that [of ?st1 ?bc] get1 en ok st0 b(2) by auto
qed

section \<open>Reading and modifying\<close>

text \<open>Taking and giving back a block that is not in use.\<close>

definition acquire :: "nat \<Rightarrow> 'd store \<Rightarrow> 'd store res" where
  "acquire b st = rbind (get_block_cache D b st) (bc_lock b)"

lemma acquire_ok:
  assumes "sok n H V st" and "b < n" and "b \<notin> fst ` set H" and "length H < 16"
  obtains st2 where "acquire b st = Inr st2" and "sok n ((b, False) # H) V st2" and "bc_bytes b st2 = V b"
proof -
  have "card (fst ` set H) \<le> length H" by (metis card_length length_map list.set_map)
  with assms have inv: "cache_inv st" and b: "b < blocks (st_dev st)" "b \<notin> held st" "card (held st) < 16"
    and V: "\<forall>c < n. contents st c = V c" and n: "blocks (st_dev st) = n" and H: "held st = fst ` set H"
    and M: "\<forall>b. (b, True) \<in> set H \<longrightarrow> (\<exists>bc. entry b st = Some bc \<and> bc_modified bc)"
    by (auto simp: sok_def)
  obtain st1 bc where g: "get_block_cache D b st = Inr st1" "entry b st1 = Some bc" "bc_refs bc = 2" "\<not> bc_locked bc"
    "entry_ok (st_dev st1) b (bc\<lparr>bc_refs := 1\<rparr>)" "cache_inv (upd_entry b (\<lambda>bc. bc\<lparr>bc_refs := 1\<rparr>) st1)"
    "held (upd_entry b (\<lambda>bc. bc\<lparr>bc_refs := 1\<rparr>) st1) = held st" "blocks (st_dev st1) = blocks (st_dev st)"
    "\<forall>c < blocks (st_dev st). contents st1 c = contents st c"
    "\<forall>c. c \<in> held st \<longrightarrow> entry c st1 = entry c st"
    by (rule get_block_cache_ok [OF inv b])
  let ?st0 = "upd_entry b (\<lambda>bc. bc\<lparr>bc_refs := 1\<rparr>) st1"
  let ?st2 = "upd_entry b (\<lambda>bc. bc\<lparr>bc_locked := True\<rparr>) st1"
  have eq: "?st2 = upd_entry b (\<lambda>bc. bc\<lparr>bc_locked := True, bc_refs := 2\<rparr>) ?st0"
    unfolding upd_entry_upd
    by (rule upd_entry_cong) (use g(2,3,6) in \<open>auto simp: cache_inv_def\<close>)
  have inv2: "cache_inv ?st2"
    unfolding eq by (rule cache_inv_upd [OF g(6)]) (use g in \<open>auto simp: entry_upd entry_ok_def\<close>)
  have "c \<in> held ?st2 \<longleftrightarrow> c = b \<or> c \<in> held ?st0" for c
    unfolding held_iff [OF inv2] held_iff [OF g(6)] using g(2) by (auto simp: entry_upd)
  then have "held ?st2 = fst ` set ((b, False) # H)" using g(7) H by auto
  moreover have "contents ?st2 c = contents st1 c" for c
    by (auto simp: contents_def entry_upd split: option.split)
  moreover have "\<exists>bc. entry c ?st2 = Some bc \<and> bc_modified bc" if "(c, True) \<in> set ((b, False) # H)" for c
    using that M g(10) H assms(3) by (force simp: entry_upd)
  moreover have "acquire b st = Inr ?st2" using g by (simp add: acquire_def bc_lock_def)
  moreover have "bc_bytes b ?st2 = contents st1 b" using g(2) by (simp add: bc_bytes_def contents_def entry_upd)
  ultimately show thesis
    using that [of ?st2] inv2 g(8,9) V n assms(2) by (simp add: sok_def)
qed

lemma release_ok:
  assumes "sok n ((b, k) # H) V st" and "b \<notin> fst ` set H" and "b < n"
  shows "sok n H V (bc_release b st)"
proof -
  let ?st = "bc_release b st"
  from assms have inv: "cache_inv st" and h: "held st = insert b (fst ` set H)" by (auto simp: sok_def)
  then obtain bc where e: "entry b st = Some bc" "bc_locked bc" using held_iff [OF inv, of b] by auto
  have inv': "cache_inv ?st"
    unfolding bc_release_def using inv e entry_okD [OF inv e(1)]
    by (intro cache_inv_upd) (auto simp: entry_ok_def)
  have "c \<in> held ?st \<longleftrightarrow> c \<noteq> b \<and> c \<in> held st" for c
    unfolding held_iff [OF inv'] held_iff [OF inv] by (auto simp: bc_release_def entry_upd)
  then have "held ?st = fst ` set H" using h assms(2) by blast
  moreover have "contents ?st c = contents st c" for c
    by (auto simp: bc_release_def contents_def entry_upd split: option.split)
  moreover have "entry c ?st = entry c st" if "(c, True) \<in> set H" for c
    using that assms(2) by (force simp: bc_release_def entry_upd)
  ultimately show ?thesis using assms(1) inv' by (simp add: sok_def bc_release_def)
qed

lemma mark_ok:
  assumes "sok n ((b, False) # H) V st"
  shows "sok n ((b, True) # H) V (upd_entry b (\<lambda>bc. bc\<lparr>bc_modified := True\<rparr>) st)"
    and "bc_bytes b (upd_entry b (\<lambda>bc. bc\<lparr>bc_modified := True\<rparr>) st) = bc_bytes b st"
proof -
  let ?st = "upd_entry b (\<lambda>bc. bc\<lparr>bc_modified := True\<rparr>) st"
  from assms have inv: "cache_inv st" and h: "held st = insert b (fst ` set H)" by (auto simp: sok_def)
  then obtain bc where e: "entry b st = Some bc" "bc_locked bc" using held_iff [OF inv, of b] by auto
  have inv': "cache_inv ?st"
    using inv e entry_okD [OF inv e(1)] by (intro cache_inv_upd) (auto simp: entry_ok_def)
  have "c \<in> held ?st \<longleftrightarrow> c \<in> held st" for c
    unfolding held_iff [OF inv'] held_iff [OF inv] by (auto simp: entry_upd)
  then have "held ?st = fst ` set ((b, True) # H)" using h by auto
  moreover have "contents ?st c = contents st c" for c
    by (auto simp: contents_def entry_upd split: option.split)
  moreover have "\<exists>bc. entry c ?st = Some bc \<and> bc_modified bc" if "(c, True) \<in> set ((b, True) # H)" for c
    using that assms e by (auto simp: sok_def entry_upd)
  ultimately show "sok n ((b, True) # H) V ?st" using assms inv' by (simp add: sok_def)
  show "bc_bytes b ?st = bc_bytes b st" using e by (simp add: bc_bytes_def entry_upd)
qed

lemma set_bytes_ok:
  assumes "sok n H V st" and "(b, True) \<in> set H" and "b < n" and "off + length bytes \<le> 512"
  shows "sok n H (V(b := overwrite off bytes (V b))) (upd_entry b (\<lambda>bc. bc\<lparr>bc_cache := overwrite off bytes (bc_cache bc)\<rparr>) st)"
proof -
  let ?st = "upd_entry b (\<lambda>bc. bc\<lparr>bc_cache := overwrite off bytes (bc_cache bc)\<rparr>) st"
  from assms have inv: "cache_inv st" and h: "held st = fst ` set H" by (auto simp: sok_def)
  obtain bc where e: "entry b st = Some bc" "bc_modified bc" using assms(1,2) by (auto simp: sok_def)
  have inv': "cache_inv ?st"
    using inv e entry_okD [OF inv e(1)] assms(4) by (intro cache_inv_upd) (auto simp: entry_ok_def)
  have "c \<in> held ?st \<longleftrightarrow> c \<in> held st" for c
    unfolding held_iff [OF inv'] held_iff [OF inv] by (auto simp: entry_upd)
  then have "held ?st = fst ` set H" using h by blast
  moreover have "contents ?st c = (if c = b then overwrite off bytes (contents st b) else contents st c)" for c
    using e by (auto simp: contents_def entry_upd split: option.split)
  moreover have "\<exists>bc. entry c ?st = Some bc \<and> bc_modified bc" if "(c, True) \<in> set H" for c
    using that assms(1) by (force simp: sok_def entry_upd)
  ultimately show ?thesis using assms(1,3) inv' by (simp add: sok_def)
qed

section \<open>Rules\<close>

lemma runs_ret [intro]: "runs n H (a_ret v) V v V"
  by (rule runsI) (simp add: a_ret_def)

lemma runs_res [intro]: "r = Inr v \<Longrightarrow> runs n H (a_res r) V v V"
  by (rule runsI) (simp add: a_res_def)

lemma runs_bind:
  assumes "runs n H m V v V1" and "runs n H (f v) V1 w V2"
  shows "runs n H (a_bind m f) V w V2"
proof (rule runsI)
  fix st
  assume "sok n H V st"
  from runsD [OF assms(1) this] obtain st1 where "m st = Inr (v, st1)" "sok n H V1 st1" by blast
  with runsD [OF assms(2)] show "\<exists>st'. a_bind m f st = Inr (w, st') \<and> sok n H V2 st'"
    by (simp add: a_bind_def)
qed

lemma runs_read:
  assumes "b < n" and "b \<notin> fst ` set H" and "length H < 16" and "off + sz \<le> 512"
    and "runs n ((b, False) # H) (f (take sz (drop off (V b)))) V v V'"
  shows "runs n H (cache_read D b off sz f) V v V'"
proof (rule runsI)
  fix st
  assume st: "sok n H V st"
  obtain st2 where a: "acquire b st = Inr st2" "sok n ((b, False) # H) V st2" "bc_bytes b st2 = V b"
    by (rule acquire_ok [OF st assms(1-3)])
  from runsD [OF assms(5) a(2)] obtain st3 where
    f: "f (take sz (drop off (V b))) st2 = Inr (v, st3)" "sok n ((b, False) # H) V' st3" by blast
  have "cache_read D b off sz f st = rbind (acquire b st) (\<lambda>st2.
      rbind (assertE (off + sz \<le> BLOCK_SZ)) (\<lambda>_.
      rbind (f (take sz (drop off (bc_bytes b st2))) st2) (\<lambda>(v, st3). Inr (v, bc_release b st3))))"
    by (simp add: cache_read_def acquire_def rbind_assoc)
  also have "\<dots> = Inr (v, bc_release b st3)"
    using a f assms(4) by (simp add: BLOCK_SZ_def)
  finally show "\<exists>st'. cache_read D b off sz f st = Inr (v, st') \<and> sok n H V' st'"
    using release_ok [OF f(2) assms(2,1)] by blast
qed

lemma runs_modify:
  assumes "b < n" and "b \<notin> fst ` set H" and "length H < 16" and "off + sz \<le> 512"
    and "runs n ((b, True) # H) (f (take sz (drop off (V b)))) V (v, bytes) V1"
    and "off + length bytes \<le> 512"
  shows "runs n H (cache_modify D b off sz f) V v (V1(b := overwrite off bytes (V1 b)))"
proof (rule runsI)
  fix st
  assume st: "sok n H V st"
  obtain st2 where a: "acquire b st = Inr st2" "sok n ((b, False) # H) V st2" "bc_bytes b st2 = V b"
    by (rule acquire_ok [OF st assms(1-3)])
  let ?st2 = "upd_entry b (\<lambda>bc. bc\<lparr>bc_modified := True\<rparr>) st2"
  note mk = mark_ok [OF a(2)]
  from runsD [OF assms(5) mk(1)] obtain st3 where
    f: "f (take sz (drop off (V b))) ?st2 = Inr ((v, bytes), st3)" "sok n ((b, True) # H) V1 st3" by blast
  let ?st4 = "upd_entry b (\<lambda>bc. bc\<lparr>bc_cache := overwrite off bytes (bc_cache bc)\<rparr>) st3"
  have "cache_modify D b off sz f st = rbind (acquire b st) (\<lambda>st2.
      rbind (assertE (off + sz \<le> BLOCK_SZ)) (\<lambda>_.
      (let st2' = upd_entry b (\<lambda>bc. bc\<lparr>bc_modified := True\<rparr>) st2 in
      rbind (f (take sz (drop off (bc_bytes b st2'))) st2') (\<lambda>((v, bytes), st3).
      Inr (v, bc_release b (upd_entry b (\<lambda>bc. bc\<lparr>bc_cache := overwrite off bytes (bc_cache bc)\<rparr>) st3))))))"
    by (simp add: cache_modify_def acquire_def rbind_assoc)
  also have "\<dots> = Inr (v, bc_release b ?st4)"
    using a f mk(2) assms(4) by (simp add: BLOCK_SZ_def)
  moreover have "sok n ((b, True) # H) (V1(b := overwrite off bytes (V1 b))) ?st4"
    using assms(1,6) by (intro set_bytes_ok [OF f(2)]) auto
  ultimately show "\<exists>st'. cache_modify D b off sz f st = Inr (v, st')
      \<and> sok n H (V1(b := overwrite off bytes (V1 b))) st'"
    using release_ok [OF _ assms(2,1)] by auto
qed

text \<open>Actions that panic, from every state of the cache with the given contents.\<close>

definition fails :: "nat \<Rightarrow> (nat \<times> bool) list \<Rightarrow> ('v, 'd) act \<Rightarrow> (nat \<Rightarrow> u8 list) \<Rightarrow> error \<Rightarrow> bool" where
  "fails n H op V e \<longleftrightarrow> (\<forall>st. sok n H V st \<longrightarrow> op st = Inl e)"

lemma fails_res [intro]: "r = Inl e \<Longrightarrow> fails n H (a_res r) V e"
  by (simp add: fails_def a_res_def)

lemma fails_bind1: "fails n H m V e \<Longrightarrow> fails n H (a_bind m f) V e"
  by (simp add: fails_def a_bind_def)

lemma fails_bind2: "runs n H m V v V1 \<Longrightarrow> fails n H (f v) V1 e \<Longrightarrow> fails n H (a_bind m f) V e"
  by (fastforce simp: fails_def a_bind_def dest: runsD)

lemma fails_read:
  assumes "b < n" and "b \<notin> fst ` set H" and "length H < 16" and "off + sz \<le> 512"
    and "fails n ((b, False) # H) (f (take sz (drop off (V b)))) V e"
  shows "fails n H (cache_read D b off sz f) V e"
  unfolding fails_def
proof (intro allI impI)
  fix st
  assume st: "sok n H V st"
  obtain st2 where a: "acquire b st = Inr st2" "sok n ((b, False) # H) V st2" "bc_bytes b st2 = V b"
    by (rule acquire_ok [OF st assms(1-3)])
  have "cache_read D b off sz f st = rbind (acquire b st) (\<lambda>st2.
      rbind (assertE (off + sz \<le> BLOCK_SZ)) (\<lambda>_.
      rbind (f (take sz (drop off (bc_bytes b st2))) st2) (\<lambda>(v, st3). Inr (v, bc_release b st3))))"
    by (simp add: cache_read_def acquire_def rbind_assoc)
  also have "\<dots> = Inl e" using a assms(4,5) by (simp add: BLOCK_SZ_def fails_def)
  finally show "cache_read D b off sz f st = Inl e" .
qed

lemma fails_modify:
  assumes "b < n" and "b \<notin> fst ` set H" and "length H < 16" and "off + sz \<le> 512"
    and "fails n ((b, True) # H) (f (take sz (drop off (V b)))) V e"
  shows "fails n H (cache_modify D b off sz f) V e"
  unfolding fails_def
proof (intro allI impI)
  fix st
  assume st: "sok n H V st"
  obtain st2 where a: "acquire b st = Inr st2" "sok n ((b, False) # H) V st2" "bc_bytes b st2 = V b"
    by (rule acquire_ok [OF st assms(1-3)])
  note mk = mark_ok [OF a(2)]
  have "cache_modify D b off sz f st = rbind (acquire b st) (\<lambda>st2.
      rbind (assertE (off + sz \<le> BLOCK_SZ)) (\<lambda>_.
      (let st2' = upd_entry b (\<lambda>bc. bc\<lparr>bc_modified := True\<rparr>) st2 in
      rbind (f (take sz (drop off (bc_bytes b st2'))) st2') (\<lambda>((v, bytes), st3).
      Inr (v, bc_release b (upd_entry b (\<lambda>bc. bc\<lparr>bc_cache := overwrite off bytes (bc_cache bc)\<rparr>) st3))))))"
    by (simp add: cache_modify_def acquire_def rbind_assoc)
  also have "\<dots> = Inl e"
    using a mk assms(4,5) by (simp add: BLOCK_SZ_def fails_def)
  finally show "cache_modify D b off sz f st = Inl e" .
qed

lemma runs_ops:
  assumes "list_all (op_in_range n) ops"
  shows "\<exists>V'. runs n [] (run_ops D ops) V (array_ops V ops) V'"
  using assms
proof (induction ops arbitrary: V)
  case Nil
  then show ?case by auto
next
  case (Cons op ops)
  show ?case
  proof (cases op)
    case (BRead b off sz)
    obtain V' where IH: "runs n [] (run_ops D ops) V (array_ops V ops) V'" using Cons by auto
    have "runs n [] (run_op D op) V (take sz (drop off (V b))) V"
      using Cons.prems BRead by (auto intro!: runs_read)
    then show ?thesis using BRead IH by (auto intro!: exI [of _ V'] runs_bind)
  next
    case (BWrite b off bs)
    let ?V = "V(b := overwrite off bs (V b))"
    obtain V' where IH: "runs n [] (run_ops D ops) ?V (array_ops ?V ops) V'" using Cons by auto
    have "runs n [] (run_op D op) V [] ?V"
      using Cons.prems BWrite by (auto intro!: runs_modify)
    then show ?thesis using BWrite IH by (auto intro!: exI [of _ V'] runs_bind)
  qed
qed

lemma sok_new: "\<forall>b < blocks dev. bd_read D b dev = Inr (V b) \<Longrightarrow> sok (blocks dev) [] V (block_cache_manager_new dev)"
  by (simp add: sok_def block_cache_manager_new_def cache_inv_def held_def contents_def entry_def dev_block_def)

end

section \<open>The property\<close>

text \<open>
  C12. The block cache is transparent. For any block device and any sequence of reads and writes
  of parts of its blocks, starting with an empty cache, every operation succeeds and every read
  returns what it would return on a plain array of blocks, whatever is loaded, written back
  and evicted in between.
\<close>

theorem cache_refines_array:
  assumes "block_device D blocks" and "\<forall>b < blocks dev. bd_read D b dev = Inr (V b)"
    and "list_all (op_in_range (blocks dev)) ops"
  shows "\<exists>st'. run_ops D ops (block_cache_manager_new dev) = Inr (array_ops V ops, st')"
proof -
  obtain V' where "block_device.runs D blocks (blocks dev) [] (run_ops D ops) V (array_ops V ops) V'"
    using block_device.runs_ops [OF assms(1,3)] by blast
  from block_device.runsD [OF assms(1) this block_device.sok_new [OF assms(1,2)]] show ?thesis by blast
qed

text \<open>A file of 24 zero blocks, enough to make the cache evict.\<close>

definition zero_disk :: "u8 list store" where
  "zero_disk = block_cache_manager_new (replicate 12288 0)"

lemma zero_disk_ok: "bf.sok 24 [] (\<lambda>_. replicate 512 0) zero_disk"
  using bf.sok_new [of "replicate 12288 0" "\<lambda>_. replicate 512 0"]
  by (simp add: zero_disk_def block_file_def block_file_read_def BLOCK_SZ_def)

definition fill_ops :: "block_op list" where
  "fill_ops = map (\<lambda>b. BWrite b 0 [word_of_nat b + 1]) [0..<20] @ [BRead 0 0 2]"

theorem cache_refines_array_witness:
  "\<exists>st'. run_ops block_file fill_ops (block_cache_manager_new (replicate 12288 0))
    = Inr (replicate 20 [] @ [[1, 0]], st')"
proof -
  let ?V = "\<lambda>b :: nat. replicate 512 (0 :: u8)"
  have "\<forall>b < length (replicate 12288 (0 :: u8)) div 512.
      bd_read block_file b (replicate 12288 0) = Inr (?V b)"
    by (simp add: block_file_def block_file_read_def BLOCK_SZ_def)
  moreover have "list_all (op_in_range (length (replicate 12288 (0 :: u8)) div 512)) fill_ops"
    by (simp add: fill_ops_def upt_rec)
  moreover have "array_ops ?V fill_ops = replicate 20 [] @ [[1, 0]]"
    by (simp add: fill_ops_def upt_rec overwrite_def numeral_eq_Suc)
  ultimately show ?thesis
    using cache_refines_array [OF bf.block_device_axioms, of "replicate 12288 0" ?V fill_ops] by simp
qed

end
