(* ===== verification/Bitmap.thy ===== *)
theory Bitmap
  imports Cache_Refine
begin

text \<open>
  The bitmaps of the file system (\<^verbatim>\<open>easy-fs/src/bitmap.rs\<close>), which record the inodes and data
  blocks in use: a range of blocks, each 64 words of 64 bits.
\<close>

unbundle bit_operations_syntax

section \<open>The bitmap\<close>

definition BLOCK_BITS :: nat where "BLOCK_BITS = BLOCK_SZ * 8"

record bitmap =
  bm_start :: nat
  bm_blocks :: nat

definition decomposition :: "nat \<Rightarrow> nat \<times> nat \<times> nat" where
  "decomposition bt =
     (let block_pos = bt div BLOCK_BITS; bt' = bt mod BLOCK_BITS
      in (block_pos, bt' div 64, bt' mod 64))"

definition bitmap_new :: "nat \<Rightarrow> nat \<Rightarrow> bitmap" where
  "bitmap_new start_block_id blocks = \<lparr>bm_start = start_block_id, bm_blocks = blocks\<rparr>"

text \<open>\<^verbatim>\<open>u64::trailing_ones\<close>: the number of one bits before the lowest zero bit.\<close>

definition trailing_ones :: "u64 \<Rightarrow> nat" where
  "trailing_ones w = length (takeWhile (bit w) [0..<64])"

definition bitmap_block_find :: "u64 list \<Rightarrow> (nat \<times> nat) option" where
  "bitmap_block_find ws =
     map_option (\<lambda>bits64_pos. (bits64_pos, trailing_ones (ws ! bits64_pos)))
       (find (\<lambda>i. ws ! i \<noteq> - 1) [0..<length ws])"

definition bitmap_alloc_block :: "'d block_dev \<Rightarrow> bitmap \<Rightarrow> nat \<Rightarrow> (nat option, 'd) act" where
  "bitmap_alloc_block D bm block_id =
     cache_modify D (block_id + bm_start bm) 0 512 (\<lambda>bytes.
       (let bitmap_block = dec_words 8 64 bytes in
        case bitmap_block_find bitmap_block of
          Some (bits64_pos, inner_pos) \<Rightarrow>
            a_ret (Some (block_id * BLOCK_BITS + bits64_pos * 64 + inner_pos),
                   enc_words 8 (bitmap_block[bits64_pos := bitmap_block ! bits64_pos OR push_bit inner_pos 1]))
        | None \<Rightarrow> a_ret (None, bytes)))"

fun bitmap_alloc_loop :: "'d block_dev \<Rightarrow> bitmap \<Rightarrow> nat list \<Rightarrow> (nat option, 'd) act" where
  "bitmap_alloc_loop D bm [] = a_ret None"
| "bitmap_alloc_loop D bm (block_id # ids) =
     a_bind (bitmap_alloc_block D bm block_id) (\<lambda>pos.
     if pos \<noteq> None then a_ret pos else bitmap_alloc_loop D bm ids)"

definition bitmap_alloc :: "'d block_dev \<Rightarrow> bitmap \<Rightarrow> (nat option, 'd) act" where
  "bitmap_alloc D bm = bitmap_alloc_loop D bm [0..<bm_blocks bm]"

definition bitmap_dealloc :: "'d block_dev \<Rightarrow> bitmap \<Rightarrow> nat \<Rightarrow> (unit, 'd) act" where
  "bitmap_dealloc D bm bt =
     (case decomposition bt of (block_pos, bits64_pos, inner_pos) \<Rightarrow>
      cache_modify D (block_pos + bm_start bm) 0 512 (\<lambda>bytes.
        (let bitmap_block = dec_words 8 64 bytes :: u64 list; mask = push_bit inner_pos 1 in
         a_bind (a_res (assertE (bitmap_block ! bits64_pos AND mask > 0))) (\<lambda>_.
         a_ret ((), enc_words 8 (bitmap_block[bits64_pos := bitmap_block ! bits64_pos - mask]))))))"

definition bitmap_maximum :: "bitmap \<Rightarrow> nat" where
  "bitmap_maximum bm = bm_blocks bm * BLOCK_BITS"

lemma bitmap_maximum_eq: "bitmap_maximum bm = bm_blocks bm * 4096"
  by (simp add: bitmap_maximum_def BLOCK_BITS_def BLOCK_SZ_def)

section \<open>Words\<close>

lemma takeWhile_upt_facts:
  assumes "\<exists>j < m. \<not> P j"
  shows "length (takeWhile P [0..<m]) < m \<and> \<not> P (length (takeWhile P [0..<m]))
    \<and> (\<forall>j < length (takeWhile P [0..<m]). P j)"
proof -
  let ?t = "takeWhile P [0..<m]"
  have all: "P j" if "j < length ?t" for j
  proof -
    have "P (?t ! j)" using nth_mem [OF that] by (rule set_takeWhileD [THEN conjunct2])
    moreover have "?t ! j = j"
      using that length_takeWhile_le [of P "[0..<m]"] by (simp add: takeWhile_nth)
    ultimately show ?thesis by simp
  qed
  have len: "length ?t < m"
  proof (rule ccontr)
    assume "\<not> length ?t < m"
    with all assms show False by fastforce
  qed
  then have "\<not> P ([0..<m] ! length ?t)" by (intro nth_length_takeWhile) simp
  with len all show ?thesis by simp
qed

lemma word_not_ones: "(w :: u64) \<noteq> - 1 \<longleftrightarrow> (\<exists>j < 64. \<not> bit w j)"
  by (auto simp: bit_eq_iff bit_minus_1_iff dest: bit_imp_le_length)

lemma trailing_ones_facts:
  "w \<noteq> - 1 \<Longrightarrow> trailing_ones w < 64 \<and> \<not> bit w (trailing_ones w) \<and> (\<forall>j < trailing_ones w. bit w j)"
  unfolding trailing_ones_def word_not_ones by (rule takeWhile_upt_facts)

lemma bit_set_or: "bit (w OR push_bit q 1 :: u64) j \<longleftrightarrow> (q < 64 \<and> j = q) \<or> bit w j"
  by (auto simp: bit_simps dest: bit_imp_le_length)

lemma and_mask_pos: "q < 64 \<Longrightarrow> (w :: u64) AND push_bit q 1 > 0 \<longleftrightarrow> bit w q"
  by (simp add: word_greater_zero_iff bit_iff_and_push_bit_not_eq_0)

lemma bit_clear_minus:
  assumes "bit (w :: u64) q"
  shows "bit (w - push_bit q 1) j \<longleftrightarrow> bit w j \<and> j \<noteq> q"
proof -
  have "unset_bit q w AND push_bit q 1 = 0"
    by (rule bit_word_eqI) (auto simp: bit_simps)
  then have "unset_bit q w + push_bit q 1 = unset_bit q w OR push_bit q 1"
    by (rule disjunctive_add_eq_or)
  also have "\<dots> = w"
    using assms by (intro bit_word_eqI) (auto simp: bit_simps)
  finally have "w - push_bit q 1 = unset_bit q w" by (metis add_diff_cancel_right')
  then show ?thesis by (auto simp: bit_simps)
qed

section \<open>Bits of a block\<close>

definition blk_bit :: "u8 list \<Rightarrow> nat \<Rightarrow> bool" where
  "blk_bit bs i \<longleftrightarrow> bit ((dec_words 8 64 bs :: u64 list) ! (i div 64)) (i mod 64)"

lemma blk_bit_enc:
  "length (ws :: u64 list) = 64 \<Longrightarrow> blk_bit (enc_words 8 ws) i \<longleftrightarrow> bit (ws ! (i div 64)) (i mod 64)"
  using dec_enc_words [of 8 ws] by (simp add: blk_bit_def)

lemma blk_bit_update:
  assumes "i < 4096"
  shows "blk_bit (enc_words 8 ((dec_words 8 64 bs :: u64 list)[p := w])) i
    \<longleftrightarrow> (if i div 64 = p then bit w (i mod 64) else blk_bit bs i)"
  using assms by (subst blk_bit_enc) (auto simp: blk_bit_def nth_list_update)

lemma bitmap_block_find_None:
  assumes "bitmap_block_find (dec_words 8 64 bs) = None" and "i < 4096"
  shows "blk_bit bs i"
proof -
  have "\<forall>k < 64. (dec_words 8 64 bs :: u64 list) ! k = - 1"
    using assms(1) by (auto simp: bitmap_block_find_def find_None_iff)
  moreover have "i div 64 < 64" "i mod 64 < 64" using assms(2) by auto
  ultimately show ?thesis by (simp add: blk_bit_def)
qed

lemma bitmap_block_find_Some:
  assumes "bitmap_block_find (dec_words 8 64 bs) = Some (p, q)"
  shows "p < 64 \<and> q < 64 \<and> \<not> blk_bit bs (p * 64 + q) \<and> (\<forall>j < p * 64 + q. blk_bit bs j)"
proof -
  let ?ws = "dec_words 8 64 bs :: u64 list"
  obtain "p < 64" "?ws ! p \<noteq> - 1" and first: "\<forall>k < p. ?ws ! k = - 1" and q: "q = trailing_ones (?ws ! p)"
    using assms by (auto simp: bitmap_block_find_def find_Some_iff)
  then have t: "q < 64 \<and> \<not> bit (?ws ! p) q \<and> (\<forall>j < q. bit (?ws ! p) j)"
    using trailing_ones_facts [of "?ws ! p"] by simp
  have "blk_bit bs j" if "j < p * 64 + q" for j
  proof (cases "j div 64 < p")
    case True
    then show ?thesis using first by (simp add: blk_bit_def)
  next
    case False
    moreover have "j div 64 \<le> p" using that t by (simp add: div_le_mono less_mult_imp_div_less
          order.strict_implies_order le_div_geq flip: less_Suc_eq_le)
    ultimately have "j div 64 = p" by simp
    moreover from this have "j mod 64 < q" using that by (metis add_less_cancel_left mult.commute mult_div_mod_eq)
    ultimately show ?thesis using t by (simp add: blk_bit_def)
  qed
  with \<open>p < 64\<close> t show ?thesis by (simp add: blk_bit_def)
qed

lemma dec_words_zero: "i < n \<Longrightarrow> dec_words k n (replicate m 0) ! i = (0 :: 'a::len word)"
proof -
  have "le_dec (replicate j 0) = (0 :: 'a word)" for j
    by (induction j) simp_all
  moreover assume "i < n"
  ultimately show ?thesis by (simp add: dec_words_def min_def)
qed

section \<open>What the operations do\<close>

text \<open>Bit \<open>i\<close> of a bitmap, in the contents of the disk.\<close>

definition bm_bit :: "bitmap \<Rightarrow> (nat \<Rightarrow> u8 list) \<Rightarrow> nat \<Rightarrow> bool" where
  "bm_bit bm V i \<longleftrightarrow> blk_bit (V (bm_start bm + i div 4096)) (i mod 4096)"

text \<open>The bitmap lies on the disk, and none of its blocks is locked.\<close>

definition bm_ok :: "nat \<Rightarrow> (nat \<times> bool) list \<Rightarrow> bitmap \<Rightarrow> bool" where
  "bm_ok n H bm \<longleftrightarrow> bm_start bm + bm_blocks bm \<le> n \<and> length H < 16
     \<and> (\<forall>b. bm_start bm \<le> b \<and> b < bm_start bm + bm_blocks bm \<longrightarrow> b \<notin> fst ` set H)"

lemma bm_bit_at: "i < 4096 \<Longrightarrow> bm_bit bm V (k * 4096 + i) = blk_bit (V (bm_start bm + k)) i"
  by (simp add: bm_bit_def)

lemma pos_split: "q < 64 \<Longrightarrow> r = p * 64 + q \<longleftrightarrow> r div 64 = p \<and> r mod 64 = (q :: nat)"
proof
  assume "r div 64 = p \<and> r mod 64 = q"
  then show "r = p * 64 + q" using div_mult_mod_eq [of r 64] by simp
qed simp

lemma bm_bit_upd:
  assumes "length (V (bm_start bm + k)) = 512" and "p < 64" and "q < 64"
    and "\<And>j. j < 64 \<Longrightarrow> bit w j = (if j = q then x else bit ((dec_words 8 64 (V (bm_start bm + k)) :: u64 list) ! p) j)"
  shows "bm_bit bm (V(bm_start bm + k := enc_words 8 ((dec_words 8 64 (V (bm_start bm + k)) :: u64 list)[p := w]))) i
    \<longleftrightarrow> (if i = k * 4096 + p * 64 + q then x else bm_bit bm V i)"
proof (cases "i div 4096 = k")
  case False
  moreover have "(k * 4096 + p * 64 + q) div 4096 = k" using assms(2,3) by simp
  ultimately show ?thesis by (auto simp: bm_bit_def)
next
  case True
  let ?r = "i mod 4096"
  have i: "i = k * 4096 + ?r" using True by (metis div_mult_mod_eq)
  have "?r < 4096" by simp
  have "bm_bit bm (V(bm_start bm + k := enc_words 8 ((dec_words 8 64 (V (bm_start bm + k)) :: u64 list)[p := w]))) i
      \<longleftrightarrow> (if ?r div 64 = p then bit w (?r mod 64) else blk_bit (V (bm_start bm + k)) ?r)"
    using True blk_bit_update [OF \<open>?r < 4096\<close>] by (simp add: bm_bit_def)
  moreover have "i = k * 4096 + p * 64 + q \<longleftrightarrow> ?r div 64 = p \<and> ?r mod 64 = q"
  proof -
    have "i = k * 4096 + p * 64 + q \<longleftrightarrow> ?r = p * 64 + q" using i by linarith
    then show ?thesis using pos_split [OF assms(3)] by simp
  qed
  ultimately show ?thesis
    using assms(4) [of "?r mod 64"] True by (auto simp: bm_bit_def blk_bit_def)
qed

context block_device
begin

lemma bitmap_alloc_block_runs:
  assumes ok: "bm_ok n H bm" and k: "k < bm_blocks bm" and d: "disk_ok n V"
  shows "\<exists>r V'. runs n H (bitmap_alloc_block D bm k) V r V' \<and> disk_ok n V'
    \<and> (\<forall>b. b \<noteq> bm_start bm + k \<longrightarrow> V' b = V b)
    \<and> (case r of
         None \<Rightarrow> V' = V \<and> (\<forall>i < 4096. bm_bit bm V (k * 4096 + i))
       | Some i \<Rightarrow> k * 4096 \<le> i \<and> i < (k + 1) * 4096 \<and> \<not> bm_bit bm V i \<and> (\<forall>j. k * 4096 \<le> j \<and> j < i \<longrightarrow> bm_bit bm V j)
           \<and> (\<forall>j. bm_bit bm V' j \<longleftrightarrow> j = i \<or> bm_bit bm V j))"
proof -
  let ?b = "k + bm_start bm" and ?bs = "V (bm_start bm + k)"
  have b: "?b < n" "?b \<notin> fst ` set H" "length H < 16" using ok k by (auto simp: bm_ok_def)
  have len: "length ?bs = 512" using d b by (simp add: disk_ok_def add.commute)
  have tk: "take 512 (drop 0 (V ?b)) = ?bs" using len by (simp add: add.commute)
  show ?thesis
  proof (cases "bitmap_block_find (dec_words 8 64 ?bs)")
    case None
    have "runs n H (bitmap_alloc_block D bm k) V None (V(?b := overwrite 0 ?bs (V ?b)))"
      unfolding bitmap_alloc_block_def using None tk len
      by (intro runs_modify [OF b]) (auto simp: Let_def)
    moreover have "V(?b := overwrite 0 ?bs (V ?b)) = V" using len by (auto simp: overwrite_def add.commute)
    ultimately show ?thesis
      using bitmap_block_find_None [OF None] d
      by (intro exI [of _ None] exI [of _ V]) (auto simp: bm_bit_at)
  next
    case (Some pq)
    obtain p q where pq: "pq = (p, q)" by force
    note f = bitmap_block_find_Some [OF Some [unfolded pq]]
    let ?ws = "dec_words 8 64 ?bs :: u64 list"
    let ?new = "enc_words 8 (?ws[p := ?ws ! p OR push_bit q 1])"
    let ?i = "k * 4096 + p * 64 + q" and ?V = "V(bm_start bm + k := ?new)"
    have "runs n H (bitmap_alloc_block D bm k) V (Some ?i) (V(?b := overwrite 0 ?new (V ?b)))"
      unfolding bitmap_alloc_block_def using Some pq tk
      by (intro runs_modify [OF b]) (auto simp: Let_def BLOCK_BITS_def BLOCK_SZ_def)
    moreover have "V(?b := overwrite 0 ?new (V ?b)) = ?V"
      using len by (auto simp: overwrite_def add.commute)
    ultimately have run: "runs n H (bitmap_alloc_block D bm k) V (Some ?i) ?V" by simp
    have r: "p * 64 + q < 4096" using f by auto
    have "bit (?ws ! p OR push_bit q 1) j = (if j = q then True else bit (?ws ! p) j)" for j
      unfolding bit_set_or using f by auto
    then have "bm_bit bm ?V j \<longleftrightarrow> (if j = ?i then True else bm_bit bm V j)" for j
      using f len by (intro bm_bit_upd) blast+
    moreover have "\<not> bm_bit bm V ?i"
      using f bm_bit_at [OF r, of bm V k] by (simp add: add.assoc)
    moreover have "bm_bit bm V j" if "k * 4096 \<le> j" "j < ?i" for j
    proof -
      have "j - k * 4096 < p * 64 + q" using that by linarith
      then show ?thesis using f bm_bit_at [of "j - k * 4096" bm V k] r that(1) by simp
    qed
    moreover have "disk_ok n ?V" using d by (simp add: disk_ok_def)
    ultimately show ?thesis
      using run r by (intro exI [of _ "Some ?i"] exI [of _ ?V]) auto
  qed
qed

lemma bitmap_alloc_loop_runs:
  assumes ok: "bm_ok n H bm" and d: "disk_ok n V" and k: "k + m = bm_blocks bm"
    and pre: "\<forall>i < k * 4096. bm_bit bm V i"
  shows "\<exists>r V'. runs n H (bitmap_alloc_loop D bm [k..<bm_blocks bm]) V r V' \<and> disk_ok n V'
    \<and> (\<forall>b. \<not> (bm_start bm \<le> b \<and> b < bm_start bm + bm_blocks bm) \<longrightarrow> V' b = V b)
    \<and> (case r of
         None \<Rightarrow> V' = V \<and> (\<forall>i < bm_blocks bm * 4096. bm_bit bm V i)
       | Some i \<Rightarrow> i < bm_blocks bm * 4096 \<and> \<not> bm_bit bm V i \<and> (\<forall>j < i. bm_bit bm V j)
           \<and> (\<forall>j. bm_bit bm V' j \<longleftrightarrow> j = i \<or> bm_bit bm V j))"
  using k pre
proof (induction m arbitrary: k)
  case 0
  then show ?case using d by (intro exI [of _ None] exI [of _ V]) auto
next
  case (Suc m)
  then have k: "k < bm_blocks bm" by simp
  then have ids: "[k..<bm_blocks bm] = k # [Suc k..<bm_blocks bm]" by (simp add: upt_conv_Cons)
  from bitmap_alloc_block_runs [OF ok k d] obtain r V1 where
    run: "runs n H (bitmap_alloc_block D bm k) V r V1" and d1: "disk_ok n V1"
    and out: "\<forall>b. b \<noteq> bm_start bm + k \<longrightarrow> V1 b = V b"
    and res: "case r of
         None \<Rightarrow> V1 = V \<and> (\<forall>i < 4096. bm_bit bm V (k * 4096 + i))
       | Some i \<Rightarrow> k * 4096 \<le> i \<and> i < (k + 1) * 4096 \<and> \<not> bm_bit bm V i \<and> (\<forall>j. k * 4096 \<le> j \<and> j < i \<longrightarrow> bm_bit bm V j)
           \<and> (\<forall>j. bm_bit bm V1 j \<longleftrightarrow> j = i \<or> bm_bit bm V j)" by blast
  show ?case
  proof (cases r)
    case None
    have "bm_bit bm V i" if "i < Suc k * 4096" for i
    proof (cases "i < k * 4096")
      case False
      then have "i = k * 4096 + (i - k * 4096)" "i - k * 4096 < 4096" using that by simp_all
      moreover have "\<forall>x < 4096. bm_bit bm V (k * 4096 + x)" using res None by simp
      ultimately show ?thesis by metis
    qed (use Suc.prems in auto)
    then obtain r' V' where run': "runs n H (bitmap_alloc_loop D bm [Suc k..<bm_blocks bm]) V r' V'"
      and res': "disk_ok n V'" "\<forall>b. \<not> (bm_start bm \<le> b \<and> b < bm_start bm + bm_blocks bm) \<longrightarrow> V' b = V b"
      "case r' of
         None \<Rightarrow> V' = V \<and> (\<forall>i < bm_blocks bm * 4096. bm_bit bm V i)
       | Some i \<Rightarrow> i < bm_blocks bm * 4096 \<and> \<not> bm_bit bm V i \<and> (\<forall>j < i. bm_bit bm V j)
           \<and> (\<forall>j. bm_bit bm V' j \<longleftrightarrow> j = i \<or> bm_bit bm V j)"
      using Suc.IH [of "Suc k"] Suc.prems(1) by auto
    have "runs n H (bitmap_alloc_loop D bm [k..<bm_blocks bm]) V r' V'"
      unfolding ids using run None res run' by (auto intro: runs_bind)
    with res' show ?thesis by (intro exI [of _ r'] exI [of _ V'] conjI)
  next
    case (Some i)
    have "runs n H (bitmap_alloc_loop D bm [k..<bm_blocks bm]) V (Some i) V1"
      unfolding ids bitmap_alloc_loop.simps using run Some by (intro runs_bind [of _ _ _ _ "Some i"]) auto
    moreover have "bm_bit bm V j" if "j < i" for j
      using that res Some Suc.prems(2) by (cases "j < k * 4096") auto
    moreover have "(k + 1) * 4096 \<le> bm_blocks bm * 4096" using k by simp
    then have "i < bm_blocks bm * 4096" using res Some by simp
    moreover have "\<forall>b. \<not> (bm_start bm \<le> b \<and> b < bm_start bm + bm_blocks bm) \<longrightarrow> V1 b = V b"
      using out k by auto
    ultimately show ?thesis
      using res Some d1 by (intro exI [of _ "Some i"] exI [of _ V1]) simp
  qed
qed

lemma bitmap_alloc_runs:
  assumes "bm_ok n H bm" and "disk_ok n V"
  shows "\<exists>r V'. runs n H (bitmap_alloc D bm) V r V' \<and> disk_ok n V'
    \<and> (\<forall>b. \<not> (bm_start bm \<le> b \<and> b < bm_start bm + bm_blocks bm) \<longrightarrow> V' b = V b)
    \<and> (case r of
         None \<Rightarrow> V' = V \<and> (\<forall>i < bm_blocks bm * 4096. bm_bit bm V i)
       | Some i \<Rightarrow> i < bm_blocks bm * 4096 \<and> \<not> bm_bit bm V i \<and> (\<forall>j < i. bm_bit bm V j)
           \<and> (\<forall>j. bm_bit bm V' j \<longleftrightarrow> j = i \<or> bm_bit bm V j))"
  unfolding bitmap_alloc_def by (rule bitmap_alloc_loop_runs [OF assms, of 0]) auto

lemma bitmap_dealloc_word:
  assumes "i < bm_blocks bm * 4096"
  obtains k p q where "decomposition i = (k, p, q)" and "k < bm_blocks bm" and "p < 64" and "q < 64"
    and "i = k * 4096 + p * 64 + q"
    and "\<forall>V. bm_bit bm V i \<longleftrightarrow> bit ((dec_words 8 64 (V (bm_start bm + k)) :: u64 list) ! p) q"
proof -
  let ?r = "i mod 4096"
  have "i div 4096 < bm_blocks bm" using assms by (simp add: less_mult_imp_div_less)
  moreover have "?r div 64 < 64" "?r mod 64 < 64" by (auto simp: less_mult_imp_div_less)
  moreover have "i = (i div 4096) * 4096 + (?r div 64) * 64 + ?r mod 64" by simp
  ultimately show thesis
    using that [of "i div 4096" "?r div 64" "?r mod 64"]
    by (simp add: decomposition_def BLOCK_BITS_def BLOCK_SZ_def Let_def bm_bit_def blk_bit_def)
qed

lemma bitmap_dealloc_runs:
  assumes ok: "bm_ok n H bm" and d: "disk_ok n V" and i: "i < bm_blocks bm * 4096" and set: "bm_bit bm V i"
  shows "\<exists>V'. runs n H (bitmap_dealloc D bm i) V () V' \<and> disk_ok n V'
    \<and> (\<forall>b. \<not> (bm_start bm \<le> b \<and> b < bm_start bm + bm_blocks bm) \<longrightarrow> V' b = V b)
    \<and> (\<forall>j. bm_bit bm V' j \<longleftrightarrow> j \<noteq> i \<and> bm_bit bm V j)"
proof -
  obtain k p q where dec: "decomposition i = (k, p, q)" and k: "k < bm_blocks bm" and pq: "p < 64" "q < 64"
    and ieq: "i = k * 4096 + p * 64 + q"
    and bit: "\<forall>V. bm_bit bm V i \<longleftrightarrow> bit ((dec_words 8 64 (V (bm_start bm + k)) :: u64 list) ! p) q"
    by (rule bitmap_dealloc_word [OF i])
  let ?b = "k + bm_start bm" and ?bs = "V (bm_start bm + k)"
  let ?ws = "dec_words 8 64 ?bs :: u64 list"
  let ?new = "enc_words 8 (?ws[p := ?ws ! p - push_bit q 1])" and ?V = "V(bm_start bm + k := enc_words 8 (?ws[p := ?ws ! p - push_bit q 1]))"
  have b: "?b < n" "?b \<notin> fst ` set H" "length H < 16" using ok k by (auto simp: bm_ok_def)
  have len: "length ?bs = 512" using d b by (simp add: disk_ok_def add.commute)
  have tk: "take 512 (drop 0 (V ?b)) = ?bs" using len by (simp add: add.commute)
  have "assertE (?ws ! p AND push_bit q 1 > 0) = Inr ()"
    using set bit pq and_mask_pos [of q "?ws ! p"] by simp
  then have "runs n H (bitmap_dealloc D bm i) V () (V(?b := overwrite 0 ?new (V ?b)))"
    unfolding bitmap_dealloc_def dec using tk by (auto simp: Let_def intro!: runs_modify [OF b] runs_bind)
  moreover have "V(?b := overwrite 0 ?new (V ?b)) = ?V" using len by (auto simp: overwrite_def add.commute)
  moreover have "bm_bit bm ?V j \<longleftrightarrow> (if j = i then False else bm_bit bm V j)" for j
    unfolding ieq using bit_clear_minus [OF bit [rule_format, THEN iffD1, OF set]] pq len by (intro bm_bit_upd) auto
  moreover have "disk_ok n ?V" using d by (simp add: disk_ok_def)
  ultimately show ?thesis using k by (intro exI [of _ ?V]) auto
qed

lemma bitmap_dealloc_fails:
  assumes ok: "bm_ok n H bm" and d: "disk_ok n V" and i: "i < bm_blocks bm * 4096" and free: "\<not> bm_bit bm V i"
  shows "fails n H (bitmap_dealloc D bm i) V AssertFailed"
proof -
  obtain k p q where dec: "decomposition i = (k, p, q)" and k: "k < bm_blocks bm" and pq: "p < 64" "q < 64"
    and ieq: "i = k * 4096 + p * 64 + q"
    and bit: "\<forall>V. bm_bit bm V i \<longleftrightarrow> bit ((dec_words 8 64 (V (bm_start bm + k)) :: u64 list) ! p) q"
    by (rule bitmap_dealloc_word [OF i])
  let ?b = "k + bm_start bm"
  let ?ws = "dec_words 8 64 (V (bm_start bm + k)) :: u64 list"
  have b: "?b < n" "?b \<notin> fst ` set H" "length H < 16" using ok k by (auto simp: bm_ok_def)
  have tk: "take 512 (drop 0 (V ?b)) = V (bm_start bm + k)" using d b by (simp add: disk_ok_def add.commute)
  have "assertE (?ws ! p AND push_bit q 1 > 0) = Inl AssertFailed"
    using free bit pq and_mask_pos [of q "?ws ! p"] by simp
  then show ?thesis
    unfolding bitmap_dealloc_def dec using tk
    by (auto simp: Let_def intro!: fails_modify [OF b] fails_bind1)
qed

end

section \<open>Properties\<close>

text \<open>
  C13. Allocating in a bitmap. On any state of the cache in which no block is locked, allocation
  ends; when it returns a number, that is the number of the lowest free bit, this bit is now set
  and all other bits and all blocks outside the bitmap are as before; it returns nothing only
  when every bit is set, and then it changes nothing.
\<close>

theorem bitmap_alloc_correct:
  assumes "block_device D blocks" and "block_device.sok D blocks n [] V st"
    and "bm_start bm + bm_blocks bm \<le> n"
  shows "\<exists>r st' V'. bitmap_alloc D bm st = Inr (r, st') \<and> block_device.sok D blocks n [] V' st'
    \<and> (\<forall>b. \<not> (bm_start bm \<le> b \<and> b < bm_start bm + bm_blocks bm) \<longrightarrow> V' b = V b)
    \<and> (case r of
         None \<Rightarrow> V' = V \<and> (\<forall>i < bitmap_maximum bm. bm_bit bm V i)
       | Some i \<Rightarrow> i < bitmap_maximum bm \<and> \<not> bm_bit bm V i \<and> (\<forall>j < i. bm_bit bm V j)
           \<and> (\<forall>j. bm_bit bm V' j \<longleftrightarrow> j = i \<or> bm_bit bm V j))"
proof -
  have ok: "bm_ok n [] bm" using assms(3) by (simp add: bm_ok_def)
  from block_device.bitmap_alloc_runs [OF assms(1) ok block_device.sok_disk_ok [OF assms(1,2)]]
  obtain r V' where run: "block_device.runs D blocks n [] (bitmap_alloc D bm) V r V'"
    and rest: "\<forall>b. \<not> (bm_start bm \<le> b \<and> b < bm_start bm + bm_blocks bm) \<longrightarrow> V' b = V b"
      "case r of
         None \<Rightarrow> V' = V \<and> (\<forall>i < bm_blocks bm * 4096. bm_bit bm V i)
       | Some i \<Rightarrow> i < bm_blocks bm * 4096 \<and> \<not> bm_bit bm V i \<and> (\<forall>j < i. bm_bit bm V j)
           \<and> (\<forall>j. bm_bit bm V' j \<longleftrightarrow> j = i \<or> bm_bit bm V j)" by blast
  from block_device.runsD [OF assms(1) run assms(2)] obtain st' where
    "bitmap_alloc D bm st = Inr (r, st')" "block_device.sok D blocks n [] V' st'" by blast
  with rest show ?thesis
    unfolding bitmap_maximum_eq by (intro exI [of _ r] exI [of _ st'] exI [of _ V'] conjI) simp_all
qed

theorem bitmap_alloc_correct_witness:
  "\<exists>st'. bitmap_alloc block_file \<lparr>bm_start = 1, bm_blocks = 1\<rparr> zero_disk = Inr (Some 0, st')"
proof -
  let ?bm = "\<lparr>bm_start = 1, bm_blocks = 1\<rparr>"
  have "\<not> bm_bit ?bm (\<lambda>_. replicate 512 0) 0"
    by (simp add: bm_bit_def blk_bit_def dec_words_zero)
  with bitmap_alloc_correct [OF bf.block_device_axioms zero_disk_ok, of ?bm] show ?thesis
    by (auto split: option.splits simp: bitmap_maximum_eq)
qed

text \<open>
  C14. Releasing a bit of a bitmap clears exactly that bit when it is set, and panics when it is
  free, so that no inode and no data block is released twice.
\<close>

theorem bitmap_dealloc_correct:
  assumes "block_device D blocks" and "block_device.sok D blocks n [] V st"
    and "bm_start bm + bm_blocks bm \<le> n" and "i < bitmap_maximum bm"
  shows "if bm_bit bm V i then
      \<exists>st' V'. bitmap_dealloc D bm i st = Inr ((), st') \<and> block_device.sok D blocks n [] V' st'
        \<and> (\<forall>b. \<not> (bm_start bm \<le> b \<and> b < bm_start bm + bm_blocks bm) \<longrightarrow> V' b = V b)
        \<and> (\<forall>j. bm_bit bm V' j \<longleftrightarrow> j \<noteq> i \<and> bm_bit bm V j)
    else bitmap_dealloc D bm i st = Inl AssertFailed"
proof -
  note d = block_device.sok_disk_ok [OF assms(1,2)]
  have ok: "bm_ok n [] bm" using assms(3) by (simp add: bm_ok_def)
  have i: "i < bm_blocks bm * 4096" using assms(4) by (simp add: bitmap_maximum_eq)
  show ?thesis
  proof (cases "bm_bit bm V i")
    case True
    from block_device.bitmap_dealloc_runs [OF assms(1) ok d i True] obtain V' where
      run: "block_device.runs D blocks n [] (bitmap_dealloc D bm i) V () V'"
      and rest: "\<forall>b. \<not> (bm_start bm \<le> b \<and> b < bm_start bm + bm_blocks bm) \<longrightarrow> V' b = V b"
        "\<forall>j. bm_bit bm V' j \<longleftrightarrow> j \<noteq> i \<and> bm_bit bm V j" by blast
    from block_device.runsD [OF assms(1) run assms(2)] rest True show ?thesis by auto
  next
    case False
    from block_device.bitmap_dealloc_fails [OF assms(1) ok d i this] show ?thesis
      using assms(2) False by (simp add: block_device.fails_def [OF assms(1)])
  qed
qed

theorem bitmap_dealloc_correct_witness:
  "bitmap_dealloc block_file \<lparr>bm_start = 1, bm_blocks = 1\<rparr> 5 zero_disk = Inl AssertFailed"
proof -
  let ?bm = "\<lparr>bm_start = 1, bm_blocks = 1\<rparr>"
  have "\<not> bm_bit ?bm (\<lambda>_. replicate 512 0) 5"
    by (simp add: bm_bit_def blk_bit_def dec_words_zero)
  with bitmap_dealloc_correct [OF bf.block_device_axioms zero_disk_ok, of ?bm 5] show ?thesis
    by (simp add: bitmap_maximum_eq)
qed

end
