(* ===== verification/Layout.thy ===== *)
theory Layout
  imports Bitmap
begin

text \<open>
  The structures on the disk (\<^verbatim>\<open>easy-fs/src/layout.rs\<close>): the super block, disk inodes with their
  direct and indirect blocks, and directory entries. A structure is stored with the layout of
  \<^verbatim>\<open>repr(C)\<close>: its fields in order, words in little-endian order. A disk inode takes 128 bytes,
  of which the last three are padding and never written.
\<close>

definition EFS_MAGIC :: u32 where "EFS_MAGIC = 0x3b800001"
definition INODE_DIRECT_COUNT :: nat where "INODE_DIRECT_COUNT = 28"
definition NAME_LENGTH_LIMIT :: nat where "NAME_LENGTH_LIMIT = 27"
definition INODE_INDIRECT1_COUNT :: nat where "INODE_INDIRECT1_COUNT = BLOCK_SZ div 4"
definition INODE_INDIRECT2_COUNT :: nat where
  "INODE_INDIRECT2_COUNT = INODE_INDIRECT1_COUNT * INODE_INDIRECT1_COUNT"
definition INDIRECT1_BOUND :: nat where "INDIRECT1_BOUND = INODE_DIRECT_COUNT + INODE_INDIRECT1_COUNT"

section \<open>The super block\<close>

record super_block =
  sb_magic :: u32
  sb_total_blocks :: u32
  sb_inode_bitmap_blocks :: u32
  sb_inode_area_blocks :: u32
  sb_data_bitmap_blocks :: u32
  sb_data_area_blocks :: u32

definition super_block_initialize :: "u32 \<Rightarrow> u32 \<Rightarrow> u32 \<Rightarrow> u32 \<Rightarrow> u32 \<Rightarrow> super_block" where
  "super_block_initialize total_blocks inode_bitmap_blocks inode_area_blocks data_bitmap_blocks data_area_blocks =
     \<lparr>sb_magic = EFS_MAGIC, sb_total_blocks = total_blocks, sb_inode_bitmap_blocks = inode_bitmap_blocks,
      sb_inode_area_blocks = inode_area_blocks, sb_data_bitmap_blocks = data_bitmap_blocks,
      sb_data_area_blocks = data_area_blocks\<rparr>"

definition super_block_is_valid :: "super_block \<Rightarrow> bool" where
  "super_block_is_valid sb \<longleftrightarrow> sb_magic sb = EFS_MAGIC"

definition SUPER_BLOCK_SZ :: nat where "SUPER_BLOCK_SZ = 24"

definition sb_enc :: "super_block \<Rightarrow> u8 list" where
  "sb_enc sb = enc_words 4 [sb_magic sb, sb_total_blocks sb, sb_inode_bitmap_blocks sb,
     sb_inode_area_blocks sb, sb_data_bitmap_blocks sb, sb_data_area_blocks sb]"

definition sb_dec :: "u8 list \<Rightarrow> super_block" where
  "sb_dec bs = (let ws = dec_words 4 6 bs in
     \<lparr>sb_magic = ws ! 0, sb_total_blocks = ws ! 1, sb_inode_bitmap_blocks = ws ! 2,
      sb_inode_area_blocks = ws ! 3, sb_data_bitmap_blocks = ws ! 4, sb_data_area_blocks = ws ! 5\<rparr>)"

section \<open>Disk inodes\<close>

datatype disk_inode_type = File | Directory

record disk_inode =
  di_size :: u32
  di_direct :: "u32 list"
  di_indirect1 :: u32
  di_indirect2 :: u32
  di_type :: disk_inode_type

definition DISK_INODE_SZ :: nat where "DISK_INODE_SZ = 128"

definition di_enc :: "disk_inode \<Rightarrow> u8 list" where
  "di_enc di = le_enc 4 (di_size di) @ enc_words 4 (di_direct di) @ le_enc 4 (di_indirect1 di)
     @ le_enc 4 (di_indirect2 di) @ [case di_type di of File \<Rightarrow> 0 | Directory \<Rightarrow> 1]"

definition di_dec :: "u8 list \<Rightarrow> disk_inode" where
  "di_dec bs =
     \<lparr>di_size = le_dec (take 4 bs), di_direct = dec_words 4 28 (drop 4 bs),
      di_indirect1 = le_dec (take 4 (drop 116 bs)), di_indirect2 = le_dec (take 4 (drop 120 bs)),
      di_type = (if bs ! 124 = 1 then Directory else File)\<rparr>"

definition disk_inode_initialize :: "disk_inode_type \<Rightarrow> disk_inode \<Rightarrow> disk_inode" where
  "disk_inode_initialize ty di =
     di\<lparr>di_size := 0, di_direct := map (\<lambda>_. 0) (di_direct di), di_indirect1 := 0, di_indirect2 := 0, di_type := ty\<rparr>"

definition di_is_dir :: "disk_inode \<Rightarrow> bool" where
  "di_is_dir di \<longleftrightarrow> di_type di = Directory"

definition di_is_file :: "disk_inode \<Rightarrow> bool" where
  "di_is_file di \<longleftrightarrow> di_type di = File"

definition size_data_blocks :: "u32 \<Rightarrow> u32" where
  "size_data_blocks sz = (sz + 512 - 1) div 512"

definition di_data_blocks :: "disk_inode \<Rightarrow> u32" where
  "di_data_blocks di = size_data_blocks (di_size di)"

definition di_total_blocks :: "u32 \<Rightarrow> u32" where
  "di_total_blocks sz =
     (let data_blocks = unat (size_data_blocks sz);
          total1 = (if data_blocks > INODE_DIRECT_COUNT then data_blocks + 1 else data_blocks);
          total2 = (if data_blocks > INDIRECT1_BOUND
                    then total1 + 1 + (data_blocks - INDIRECT1_BOUND + INODE_INDIRECT1_COUNT - 1) div INODE_INDIRECT1_COUNT
                    else total1)
      in word_of_nat total2)"

definition di_blocks_num_needed :: "u32 \<Rightarrow> disk_inode \<Rightarrow> u32 res" where
  "di_blocks_num_needed new_size di =
     rbind (assertE (new_size \<ge> di_size di)) (\<lambda>_.
     Inr (di_total_blocks new_size - di_total_blocks (di_size di)))"

text \<open>An indirect block is an array of 128 block numbers.\<close>

abbreviation indirect :: "u8 list \<Rightarrow> u32 list" where
  "indirect bs \<equiv> dec_words 4 128 bs"

definition di_get_block_id :: "'d block_dev \<Rightarrow> u32 \<Rightarrow> disk_inode \<Rightarrow> (u32, 'd) act" where
  "di_get_block_id D inner_id32 di =
     (let inner_id = unat inner_id32 in
      if inner_id < INODE_DIRECT_COUNT then a_res (indexE (di_direct di) inner_id)
      else if inner_id < INDIRECT1_BOUND then
        cache_read D (unat (di_indirect1 di)) 0 512 (\<lambda>bs.
          a_res (indexE (indirect bs) (inner_id - INODE_DIRECT_COUNT)))
      else
        (let last = inner_id - INDIRECT1_BOUND in
         a_bind (cache_read D (unat (di_indirect2 di)) 0 512 (\<lambda>bs.
           a_res (indexE (indirect bs) (last div INODE_INDIRECT1_COUNT)))) (\<lambda>indirect1.
         cache_read D (unat indirect1) 0 512 (\<lambda>bs.
           a_res (indexE (indirect bs) (last mod INODE_INDIRECT1_COUNT))))))"

subsection \<open>Growing\<close>

text \<open>\<^verbatim>\<open>while current < bound { arr[current] = new_blocks.next().unwrap(); current += 1; }\<close>\<close>

function fill_blocks :: "nat \<Rightarrow> nat \<Rightarrow> u32 list \<Rightarrow> u32 list \<Rightarrow> (nat \<times> u32 list \<times> u32 list) res" where
  "fill_blocks current bound arr new_blocks =
     (if current < bound then
        rbind (case new_blocks of [] \<Rightarrow> Inl UnwrapNone | x # rest \<Rightarrow> Inr (x, rest)) (\<lambda>(x, rest).
        rbind (updateE arr current x) (\<lambda>arr'.
        fill_blocks (current + 1) bound arr' rest))
      else Inr (current, arr, new_blocks))"
  by pat_completeness auto
termination by (relation "measure (\<lambda>(current, bound, _). bound - current)") auto

declare fill_blocks.simps [simp del]

text \<open>
  The loop over the blocks below \<^verbatim>\<open>indirect2\<close>. The first argument bounds the number of its
  iterations; \<^verbatim>\<open>increase_size\<close> passes the number of blocks from \<open>(a0, b0)\<close> to \<open>(a1, b1)\<close>, after
  which the condition of the loop is false.
\<close>

fun fill_indirect2 ::
  "'d block_dev \<Rightarrow> nat \<Rightarrow> nat \<Rightarrow> nat \<Rightarrow> nat \<Rightarrow> nat \<Rightarrow> u32 list \<Rightarrow> u32 list \<Rightarrow> (u32 list \<times> u32 list, 'd) act"
where
  "fill_indirect2 D 0 a0 b0 a1 b1 indirect2 new_blocks = a_ret (indirect2, new_blocks)"
| "fill_indirect2 D (Suc k) a0 b0 a1 b1 indirect2 new_blocks =
     (if a0 < a1 \<or> a0 = a1 \<and> b0 < b1 then
        a_bind (a_res
          (if b0 = 0 then
             rbind (case new_blocks of [] \<Rightarrow> Inl UnwrapNone | x # rest \<Rightarrow> Inr (x, rest)) (\<lambda>(x, rest).
             rbind (updateE indirect2 a0 x) (\<lambda>indirect2'. Inr (indirect2', rest)))
           else Inr (indirect2, new_blocks))) (\<lambda>(indirect2', rest).
        a_bind (a_res (indexE indirect2' a0)) (\<lambda>blk.
        a_bind (cache_modify D (unat blk) 0 512 (\<lambda>bs.
          a_res
            (rbind (case rest of [] \<Rightarrow> Inl UnwrapNone | x # rest' \<Rightarrow> Inr (x, rest')) (\<lambda>(x, rest').
             rbind (updateE (indirect bs) b0 x) (\<lambda>indirect1.
             Inr (rest', enc_words 4 indirect1)))))) (\<lambda>rest'.
        (let b0' = b0 + 1 in
         if b0' = INODE_INDIRECT1_COUNT
         then fill_indirect2 D k (a0 + 1) 0 a1 b1 indirect2' rest'
         else fill_indirect2 D k a0 b0' a1 b1 indirect2' rest'))))
      else a_ret (indirect2, new_blocks))"

definition di_increase_size :: "'d block_dev \<Rightarrow> u32 \<Rightarrow> u32 list \<Rightarrow> disk_inode \<Rightarrow> (disk_inode, 'd) act" where
  "di_increase_size D new_size new_blocks di =
     (let current_blocks = unat (di_data_blocks di);
          di1 = di\<lparr>di_size := new_size\<rparr>;
          total_blocks = unat (di_data_blocks di1) in
      a_bind (a_res (fill_blocks current_blocks (min total_blocks INODE_DIRECT_COUNT) (di_direct di1) new_blocks))
        (\<lambda>(current1, direct, nb1).
      (let di2 = di1\<lparr>di_direct := direct\<rparr> in
       if total_blocks > INODE_DIRECT_COUNT then
         a_bind (a_res
           (if current1 = INODE_DIRECT_COUNT then
              (case nb1 of [] \<Rightarrow> Inl UnwrapNone | x # rest \<Rightarrow> Inr (di2\<lparr>di_indirect1 := x\<rparr>, rest))
            else Inr (di2, nb1))) (\<lambda>(di3, nb2).
         (let current2 = current1 - INODE_DIRECT_COUNT; total2 = total_blocks - INODE_DIRECT_COUNT in
          a_bind (cache_modify D (unat (di_indirect1 di3)) 0 512 (\<lambda>bs.
            a_bind (a_res (fill_blocks current2 (min total2 INODE_INDIRECT1_COUNT) (indirect bs) nb2))
              (\<lambda>(current3, indirect1, nb3). a_ret ((current3, nb3), enc_words 4 indirect1)))) (\<lambda>(current3, nb3).
          if total2 > INODE_INDIRECT1_COUNT then
            a_bind (a_res
              (if current3 = INODE_INDIRECT1_COUNT then
                 (case nb3 of [] \<Rightarrow> Inl UnwrapNone | x # rest \<Rightarrow> Inr (di3\<lparr>di_indirect2 := x\<rparr>, rest))
               else Inr (di3, nb3))) (\<lambda>(di4, nb4).
            (let current4 = current3 - INODE_INDIRECT1_COUNT; total4 = total2 - INODE_INDIRECT1_COUNT;
                 a0 = current4 div INODE_INDIRECT1_COUNT; b0 = current4 mod INODE_INDIRECT1_COUNT;
                 a1 = total4 div INODE_INDIRECT1_COUNT; b1 = total4 mod INODE_INDIRECT1_COUNT in
             a_bind (cache_modify D (unat (di_indirect2 di4)) 0 512 (\<lambda>bs.
               a_bind (fill_indirect2 D (total4 - current4) a0 b0 a1 b1 (indirect bs) nb4)
                 (\<lambda>(indirect2, _). a_ret ((), enc_words 4 indirect2)))) (\<lambda>_.
             a_ret di4)))
          else a_ret di3)))
       else a_ret di2)))"

subsection \<open>Clearing\<close>

text \<open>\<^verbatim>\<open>v.push(indirect2[i])\<close>, then the first \<open>m\<close> numbers of that block, for each position of the list.\<close>

fun clear_indirect2 :: "'d block_dev \<Rightarrow> nat \<Rightarrow> nat list \<Rightarrow> u32 list \<Rightarrow> u32 list \<Rightarrow> (u32 list, 'd) act" where
  "clear_indirect2 D m [] indirect2 v = a_ret v"
| "clear_indirect2 D m (i # is) indirect2 v =
     a_bind (a_res (indexE indirect2 i)) (\<lambda>blk.
     a_bind (cache_modify D (unat blk) 0 512 (\<lambda>bs. a_ret (v @ [blk] @ take m (indirect bs), bs))) (\<lambda>v'.
     clear_indirect2 D m is indirect2 v'))"

definition di_clear_size :: "'d block_dev \<Rightarrow> disk_inode \<Rightarrow> (u32 list \<times> disk_inode, 'd) act" where
  "di_clear_size D di =
     (let data_blocks = unat (di_data_blocks di);
          n = min data_blocks INODE_DIRECT_COUNT;
          v = take n (di_direct di);
          di1 = di\<lparr>di_size := 0, di_direct := map (\<lambda>_. 0) (take n (di_direct di)) @ drop n (di_direct di)\<rparr> in
      if data_blocks > INODE_DIRECT_COUNT then
        (let v1 = v @ [di_indirect1 di1]; data_blocks1 = data_blocks - INODE_DIRECT_COUNT in
         a_bind (cache_modify D (unat (di_indirect1 di1)) 0 512 (\<lambda>bs.
           a_ret (v1 @ take (min data_blocks1 INODE_INDIRECT1_COUNT) (indirect bs), bs))) (\<lambda>v2.
         (let di2 = di1\<lparr>di_indirect1 := 0\<rparr> in
          if data_blocks1 > INODE_INDIRECT1_COUNT then
            (let v3 = v2 @ [di_indirect2 di2]; data_blocks2 = data_blocks1 - INODE_INDIRECT1_COUNT in
             a_bind (a_res (assertE (data_blocks2 \<le> INODE_INDIRECT2_COUNT))) (\<lambda>_.
             (let a1 = data_blocks2 div INODE_INDIRECT1_COUNT; b1 = data_blocks2 mod INODE_INDIRECT1_COUNT in
              a_bind (cache_modify D (unat (di_indirect2 di2)) 0 512 (\<lambda>bs.
                a_bind (clear_indirect2 D INODE_INDIRECT1_COUNT [0..<a1] (indirect bs) v3) (\<lambda>v4.
                a_bind (if b1 > 0 then clear_indirect2 D b1 [a1] (indirect bs) v4 else a_ret v4) (\<lambda>v5.
                a_ret (v5, bs))))) (\<lambda>v5.
              a_ret (v5, di2\<lparr>di_indirect2 := 0\<rparr>)))))
          else a_ret (v2, di2))))
      else a_ret (v, di1))"

subsection \<open>Reading and writing\<close>

function di_read_loop ::
  "'d block_dev \<Rightarrow> disk_inode \<Rightarrow> nat \<Rightarrow> nat \<Rightarrow> nat \<Rightarrow> nat \<Rightarrow> u8 list \<Rightarrow> 'd store \<Rightarrow> ((nat \<times> u8 list) \<times> 'd store) res"
where
  "di_read_loop D di en start start_block read_size buf st =
     (let end_current_block = min ((start div BLOCK_SZ + 1) * BLOCK_SZ) en;
          block_read_size = end_current_block - start in
      a_bind (a_bind (di_get_block_id D (word_of_nat start_block) di) (\<lambda>b.
        cache_read D (unat b) 0 512 (\<lambda>data_block.
          a_bind (a_res (sliceE data_block (start mod BLOCK_SZ) (start mod BLOCK_SZ + block_read_size))) (\<lambda>src.
          a_ret (overwrite read_size src buf))))) (\<lambda>buf' st'.
      if end_current_block = en then Inr ((read_size + block_read_size, buf'), st')
      else di_read_loop D di en end_current_block (start_block + 1) (read_size + block_read_size) buf' st') st)"
  by pat_completeness auto
termination
  by (relation "measure (\<lambda>(D, di, en, start, _). en - start)") (auto simp: BLOCK_SZ_def min_def split: if_splits)

declare di_read_loop.simps [simp del]

definition di_read_at :: "'d block_dev \<Rightarrow> nat \<Rightarrow> u8 list \<Rightarrow> disk_inode \<Rightarrow> (nat \<times> u8 list, 'd) act" where
  "di_read_at D offset buf di =
     (let en = min (offset + length buf) (unat (di_size di)) in
      if offset \<ge> en then a_ret (0, buf)
      else di_read_loop D di en offset (offset div BLOCK_SZ) 0 buf)"

function di_write_loop ::
  "'d block_dev \<Rightarrow> disk_inode \<Rightarrow> nat \<Rightarrow> nat \<Rightarrow> nat \<Rightarrow> nat \<Rightarrow> u8 list \<Rightarrow> 'd store \<Rightarrow> (nat \<times> 'd store) res"
where
  "di_write_loop D di en start start_block write_size buf st =
     (let end_current_block = min ((start div BLOCK_SZ + 1) * BLOCK_SZ) en;
          block_write_size = end_current_block - start in
      a_bind (a_bind (di_get_block_id D (word_of_nat start_block) di) (\<lambda>b.
        cache_modify D (unat b) 0 512 (\<lambda>data_block.
          a_bind (a_res (sliceE buf write_size (write_size + block_write_size))) (\<lambda>src.
          a_ret ((), overwrite (start mod BLOCK_SZ) src data_block))))) (\<lambda>_ st'.
      if end_current_block = en then Inr (write_size + block_write_size, st')
      else di_write_loop D di en end_current_block (start_block + 1) (write_size + block_write_size) buf st') st)"
  by pat_completeness auto
termination
  by (relation "measure (\<lambda>(D, di, en, start, _). en - start)") (auto simp: BLOCK_SZ_def min_def split: if_splits)

declare di_write_loop.simps [simp del]

definition di_write_at :: "'d block_dev \<Rightarrow> nat \<Rightarrow> u8 list \<Rightarrow> disk_inode \<Rightarrow> (nat, 'd) act" where
  "di_write_at D offset buf di =
     (let en = min (offset + length buf) (unat (di_size di)) in
      a_bind (a_res (assertE (offset \<le> en))) (\<lambda>_.
      di_write_loop D di en offset (offset div BLOCK_SZ) 0 buf))"

section \<open>Directory entries\<close>

record dir_entry =
  de_name_bytes :: "u8 list"
  de_inode :: u32

definition DIRENT_SZ :: nat where "DIRENT_SZ = 32"

definition dir_entry_empty :: dir_entry where
  "dir_entry_empty = \<lparr>de_name_bytes = replicate (NAME_LENGTH_LIMIT + 1) 0, de_inode = 0\<rparr>"

text \<open>Strings are their UTF-8 bytes. A name longer than the field makes the slice panic.\<close>

definition dir_entry_new :: "u8 list \<Rightarrow> u32 \<Rightarrow> dir_entry res" where
  "dir_entry_new name inode_number =
     (let bytes = replicate (NAME_LENGTH_LIMIT + 1) 0 in
      rbind (sliceE bytes 0 (length name)) (\<lambda>_.
      Inr \<lparr>de_name_bytes = overwrite 0 name bytes, de_inode = inode_number\<rparr>))"

definition dir_entry_into_bytes :: "dir_entry \<Rightarrow> u8 list" where
  "dir_entry_into_bytes de = de_name_bytes de @ le_enc 4 (de_inode de)"

definition dir_entry_from_bytes :: "u8 list \<Rightarrow> dir_entry" where
  "dir_entry_from_bytes bs = \<lparr>de_name_bytes = take 28 bs, de_inode = le_dec (take 4 (drop 28 bs))\<rparr>"

text \<open>\<^verbatim>\<open>core::str::from_utf8\<close> accepts exactly the well-formed sequences of the Unicode standard.\<close>

definition utf8_cont :: "u8 \<Rightarrow> bool" where
  "utf8_cont b \<longleftrightarrow> 0x80 \<le> b \<and> b \<le> 0xBF"

fun utf8_ok :: "u8 list \<Rightarrow> bool" where
  "utf8_ok [] = True"
| "utf8_ok (a # bs) =
     (if a < 0x80 then utf8_ok bs
      else case bs of
        [] \<Rightarrow> False
      | b # bs1 \<Rightarrow>
          if 0xC2 \<le> a \<and> a \<le> 0xDF then utf8_cont b \<and> utf8_ok bs1
          else case bs1 of
            [] \<Rightarrow> False
          | c # bs2 \<Rightarrow>
              if 0xE0 \<le> a \<and> a \<le> 0xEF then
                utf8_cont b \<and> utf8_cont c \<and> (a = 0xE0 \<longrightarrow> 0xA0 \<le> b) \<and> (a = 0xED \<longrightarrow> b \<le> 0x9F) \<and> utf8_ok bs2
              else case bs2 of
                [] \<Rightarrow> False
              | d # bs3 \<Rightarrow>
                  0xF0 \<le> a \<and> a \<le> 0xF4 \<and> utf8_cont b \<and> utf8_cont c \<and> utf8_cont d
                  \<and> (a = 0xF0 \<longrightarrow> 0x90 \<le> b) \<and> (a = 0xF4 \<longrightarrow> b \<le> 0x8F) \<and> utf8_ok bs3)"

definition dir_entry_name :: "dir_entry \<Rightarrow> u8 list res" where
  "dir_entry_name de =
     (let len = length (takeWhile (\<lambda>b. b \<noteq> 0) (de_name_bytes de)) in
      if len = length (de_name_bytes de) then Inl IndexOutOfBounds
      else if utf8_ok (take len (de_name_bytes de)) then Inr (take len (de_name_bytes de))
      else Inl UnwrapNone)"

definition dir_entry_inode_number :: "dir_entry \<Rightarrow> u32" where
  "dir_entry_inode_number de = de_inode de"

end
