(* ===== verification/Efs.thy ===== *)
theory Efs
  imports Layout
begin

text \<open>
  The disk block manager (\<^verbatim>\<open>easy-fs/src/efs.rs\<close>): creating and opening a file system on a block
  device, the places of inodes and data blocks, and their allocation. Block numbers are 32-bit
  words, whose arithmetic wraps.
\<close>

record easy_fs =
  efs_inode_bitmap :: bitmap
  efs_data_bitmap :: bitmap
  efs_inode_area_start :: u32
  efs_data_area_start :: u32

definition efs_get_disk_inode_pos :: "easy_fs \<Rightarrow> u32 \<Rightarrow> u32 \<times> nat" where
  "efs_get_disk_inode_pos efs inode_id =
     (let inode_size = DISK_INODE_SZ;
          inodes_per_block = word_of_nat (BLOCK_SZ div inode_size) :: u32;
          block_id = efs_inode_area_start efs + inode_id div inodes_per_block
      in (block_id, unat (inode_id mod inodes_per_block) * inode_size))"

definition efs_get_data_block_id :: "easy_fs \<Rightarrow> u32 \<Rightarrow> u32" where
  "efs_get_data_block_id efs data_block_id = efs_data_area_start efs + data_block_id"

definition efs_alloc_inode :: "'d block_dev \<Rightarrow> easy_fs \<Rightarrow> (u32, 'd) act" where
  "efs_alloc_inode D efs =
     a_bind (bitmap_alloc D (efs_inode_bitmap efs)) (\<lambda>r.
     a_bind (a_res (unwrapE r)) (\<lambda>i.
     a_ret (word_of_nat i)))"

definition efs_alloc_data :: "'d block_dev \<Rightarrow> easy_fs \<Rightarrow> (u32, 'd) act" where
  "efs_alloc_data D efs =
     a_bind (bitmap_alloc D (efs_data_bitmap efs)) (\<lambda>r.
     a_bind (a_res (unwrapE r)) (\<lambda>i.
     a_ret (word_of_nat i + efs_data_area_start efs)))"

definition efs_dealloc_data :: "'d block_dev \<Rightarrow> easy_fs \<Rightarrow> u32 \<Rightarrow> (unit, 'd) act" where
  "efs_dealloc_data D efs block_id =
     a_bind (cache_modify D (unat block_id) 0 512 (\<lambda>data_block. a_ret ((), map (\<lambda>_. 0) data_block))) (\<lambda>_.
     bitmap_dealloc D (efs_data_bitmap efs) (unat (block_id - efs_data_area_start efs)))"

text \<open>The geometry of a new file system.\<close>

definition efs_geometry :: "u32 \<Rightarrow> u32 \<Rightarrow> easy_fs \<times> super_block" where
  "efs_geometry total_blocks inode_bitmap_blocks =
     (let inode_bitmap = bitmap_new 1 (unat inode_bitmap_blocks);
          inode_num = bitmap_maximum inode_bitmap;
          inode_area_blocks = word_of_nat ((inode_num * DISK_INODE_SZ + BLOCK_SZ - 1) div BLOCK_SZ);
          inode_total_blocks = inode_bitmap_blocks + inode_area_blocks;
          data_total_blocks = total_blocks - 1 - inode_total_blocks;
          data_bitmap_blocks = (data_total_blocks + 4096) div 4097;
          data_area_blocks = data_total_blocks - data_bitmap_blocks;
          data_bitmap = bitmap_new (unat (1 + inode_bitmap_blocks + inode_area_blocks)) (unat data_bitmap_blocks)
      in (\<lparr>efs_inode_bitmap = inode_bitmap, efs_data_bitmap = data_bitmap,
           efs_inode_area_start = 1 + inode_bitmap_blocks,
           efs_data_area_start = 1 + inode_total_blocks + data_bitmap_blocks\<rparr>,
          super_block_initialize total_blocks inode_bitmap_blocks inode_area_blocks
            data_bitmap_blocks data_area_blocks))"

text \<open>\<^verbatim>\<open>for i in 0..total_blocks\<close>: clear the block.\<close>

fun clear_blocks :: "'d block_dev \<Rightarrow> nat list \<Rightarrow> (unit, 'd) act" where
  "clear_blocks D [] = a_ret ()"
| "clear_blocks D (i # is) =
     a_bind (cache_modify D i 0 512 (\<lambda>data_block. a_ret ((), map (\<lambda>_. 0) data_block))) (\<lambda>_.
     clear_blocks D is)"

definition efs_create :: "'d block_dev \<Rightarrow> u32 \<Rightarrow> u32 \<Rightarrow> (easy_fs, 'd) act" where
  "efs_create D total_blocks inode_bitmap_blocks =
     (let (efs, super_block) = efs_geometry total_blocks inode_bitmap_blocks in
      a_bind (clear_blocks D [0..<unat total_blocks]) (\<lambda>_.
      a_bind (cache_modify D 0 0 SUPER_BLOCK_SZ (\<lambda>_. a_ret ((), sb_enc super_block))) (\<lambda>_.
      a_bind (efs_alloc_inode D efs) (\<lambda>root.
      a_bind (a_res (assertE (root = 0))) (\<lambda>_.
      (let (root_inode_block_id, root_inode_offset) = efs_get_disk_inode_pos efs 0 in
       a_bind (cache_modify D (unat root_inode_block_id) root_inode_offset DISK_INODE_SZ (\<lambda>bs.
         a_ret ((), di_enc (disk_inode_initialize Directory (di_dec bs))))) (\<lambda>_.
       a_ret efs)))))))"

definition efs_open :: "'d block_dev \<Rightarrow> (easy_fs, 'd) act" where
  "efs_open D =
     cache_read D 0 0 SUPER_BLOCK_SZ (\<lambda>bs.
       (let super_block = sb_dec bs in
        a_bind (a_res (assertE (super_block_is_valid super_block))) (\<lambda>_.
        (let inode_total_blocks = sb_inode_bitmap_blocks super_block + sb_inode_area_blocks super_block in
         a_ret \<lparr>efs_inode_bitmap = bitmap_new 1 (unat (sb_inode_bitmap_blocks super_block)),
                efs_data_bitmap = bitmap_new (unat (1 + inode_total_blocks)) (unat (sb_data_bitmap_blocks super_block)),
                efs_inode_area_start = 1 + sb_inode_bitmap_blocks super_block,
                efs_data_area_start = 1 + inode_total_blocks + sb_data_bitmap_blocks super_block\<rparr>))))"

end
