(* ===== verification/Vfs.thy ===== *)
theory Vfs
  imports Efs
begin

text \<open>
  The inodes the users of the file system work with (\<^verbatim>\<open>easy-fs/src/vfs.rs\<close>): finding and
  creating files in the root directory, listing it, reading, writing and clearing files. The
  mutex of the file system is taken by every operation and released at its end; there is one
  thread in the kernel, so it is not part of the model.
\<close>

text \<open>The link count is shared by all users of the inode.\<close>

record inode =
  in_inode_id :: nat
  in_block_id :: nat
  in_block_offset :: nat
  in_nlink :: nat

definition inode_new :: "u32 \<Rightarrow> u32 \<Rightarrow> nat \<Rightarrow> inode" where
  "inode_new inode_id block_id block_offset =
     \<lparr>in_inode_id = unat inode_id, in_block_id = unat block_id, in_block_offset = block_offset, in_nlink = 1\<rparr>"

definition efs_root_inode :: "easy_fs \<Rightarrow> inode" where
  "efs_root_inode efs =
     (let (block_id, block_offset) = efs_get_disk_inode_pos efs 0 in inode_new 0 block_id block_offset)"

definition read_disk_inode :: "'d block_dev \<Rightarrow> inode \<Rightarrow> (disk_inode \<Rightarrow> ('v, 'd) act) \<Rightarrow> ('v, 'd) act" where
  "read_disk_inode D self f =
     cache_read D (in_block_id self) (in_block_offset self) DISK_INODE_SZ (\<lambda>bs. f (di_dec bs))"

text \<open>The closure returns its value and the changed inode.\<close>

definition modify_disk_inode ::
  "'d block_dev \<Rightarrow> inode \<Rightarrow> (disk_inode \<Rightarrow> ('v \<times> disk_inode, 'd) act) \<Rightarrow> ('v, 'd) act"
where
  "modify_disk_inode D self f =
     cache_modify D (in_block_id self) (in_block_offset self) DISK_INODE_SZ (\<lambda>bs.
       a_bind (f (di_dec bs)) (\<lambda>(v, di). a_ret (v, di_enc di)))"

section \<open>The directory\<close>

fun find_inode_loop :: "'d block_dev \<Rightarrow> u8 list \<Rightarrow> disk_inode \<Rightarrow> nat list \<Rightarrow> u8 list \<Rightarrow> (u32 option, 'd) act" where
  "find_inode_loop D name di [] space = a_ret None"
| "find_inode_loop D name di (i # is) space =
     a_bind (di_read_at D (DIRENT_SZ * i) space di) (\<lambda>(k, dirent_space).
     a_bind (a_res (assertE (k = DIRENT_SZ))) (\<lambda>_.
     (let dirent = dir_entry_from_bytes dirent_space in
      a_bind (a_res (dir_entry_name dirent)) (\<lambda>nm.
      if nm = name then a_ret (Some (dir_entry_inode_number dirent))
      else find_inode_loop D name di is dirent_space))))"

definition find_inode_id :: "'d block_dev \<Rightarrow> u8 list \<Rightarrow> disk_inode \<Rightarrow> (u32 option, 'd) act" where
  "find_inode_id D name di =
     a_bind (a_res (assertE (di_is_dir di))) (\<lambda>_.
     find_inode_loop D name di [0..<unat (di_size di) div DIRENT_SZ] (replicate DIRENT_SZ 0))"

definition inode_find :: "'d block_dev \<Rightarrow> easy_fs \<Rightarrow> u8 list \<Rightarrow> inode \<Rightarrow> (inode option, 'd) act" where
  "inode_find D fs name self =
     read_disk_inode D self (\<lambda>di.
       a_bind (find_inode_id D name di) (\<lambda>r.
       a_ret (map_option (\<lambda>inode_id.
         (let (block_id, block_offset) = efs_get_disk_inode_pos fs inode_id
          in inode_new inode_id block_id block_offset)) r)))"

definition get_inode_id :: "inode \<Rightarrow> nat" where "get_inode_id self = in_inode_id self"

definition get_nlink :: "inode \<Rightarrow> nat" where "get_nlink self = in_nlink self"

definition create_nlink :: "inode \<Rightarrow> inode" where
  "create_nlink self = self\<lparr>in_nlink := in_nlink self + 1\<rparr>"

definition destory_nlink :: "inode \<Rightarrow> inode" where
  "destory_nlink self = (if in_nlink self > 1 then self\<lparr>in_nlink := in_nlink self - 1\<rparr> else self)"

fun alloc_data_blocks :: "'d block_dev \<Rightarrow> easy_fs \<Rightarrow> nat \<Rightarrow> u32 list \<Rightarrow> (u32 list, 'd) act" where
  "alloc_data_blocks D fs 0 v = a_ret v"
| "alloc_data_blocks D fs (Suc k) v =
     a_bind (efs_alloc_data D fs) (\<lambda>b. alloc_data_blocks D fs k (v @ [b]))"

definition inode_increase_size :: "'d block_dev \<Rightarrow> easy_fs \<Rightarrow> u32 \<Rightarrow> disk_inode \<Rightarrow> (disk_inode, 'd) act" where
  "inode_increase_size D fs new_size di =
     (if new_size < di_size di then a_ret di
      else
        a_bind (a_res (di_blocks_num_needed new_size di)) (\<lambda>blocks_needed.
        a_bind (alloc_data_blocks D fs (unat blocks_needed) []) (\<lambda>v.
        di_increase_size D new_size v di)))"

definition inode_create :: "'d block_dev \<Rightarrow> easy_fs \<Rightarrow> u8 list \<Rightarrow> inode \<Rightarrow> (inode option, 'd) act" where
  "inode_create D fs name self =
     a_bind (modify_disk_inode D self (\<lambda>root_inode.
       a_bind (a_res (assertE (di_is_dir root_inode))) (\<lambda>_.
       a_bind (find_inode_id D name root_inode) (\<lambda>r. a_ret (r, root_inode))))) (\<lambda>found.
     if found \<noteq> None then a_ret None
     else
       a_bind (efs_alloc_inode D fs) (\<lambda>new_inode_id.
       (let (new_inode_block_id, new_inode_block_offset) = efs_get_disk_inode_pos fs new_inode_id in
        a_bind (cache_modify D (unat new_inode_block_id) new_inode_block_offset DISK_INODE_SZ (\<lambda>bs.
          a_ret ((), di_enc (disk_inode_initialize File (di_dec bs))))) (\<lambda>_.
        a_bind (modify_disk_inode D self (\<lambda>root_inode.
          (let file_count = unat (di_size root_inode) div DIRENT_SZ; new_size = (file_count + 1) * DIRENT_SZ in
           a_bind (inode_increase_size D fs (word_of_nat new_size) root_inode) (\<lambda>root_inode'.
           a_bind (a_res (dir_entry_new name new_inode_id)) (\<lambda>dirent.
           a_bind (di_write_at D (file_count * DIRENT_SZ) (dir_entry_into_bytes dirent) root_inode') (\<lambda>_.
           a_ret ((), root_inode'))))))) (\<lambda>_.
        (let (block_id, block_offset) = efs_get_disk_inode_pos fs new_inode_id in
         a_ret (Some (inode_new new_inode_id block_id block_offset))))))))"

fun ls_loop :: "'d block_dev \<Rightarrow> disk_inode \<Rightarrow> nat list \<Rightarrow> u8 list list \<Rightarrow> (u8 list list, 'd) act" where
  "ls_loop D di [] v = a_ret v"
| "ls_loop D di (i # is) v =
     a_bind (di_read_at D (i * DIRENT_SZ) (replicate DIRENT_SZ 0) di) (\<lambda>(k, dirent_bytes).
     a_bind (a_res (assertE (k = DIRENT_SZ))) (\<lambda>_.
     a_bind (a_res (dir_entry_name (dir_entry_from_bytes dirent_bytes))) (\<lambda>nm.
     ls_loop D di is (v @ [nm]))))"

definition inode_ls :: "'d block_dev \<Rightarrow> inode \<Rightarrow> (u8 list list, 'd) act" where
  "inode_ls D self = read_disk_inode D self (\<lambda>di. ls_loop D di [0..<unat (di_size di) div DIRENT_SZ] [])"

section \<open>Files\<close>

definition inode_read_at :: "'d block_dev \<Rightarrow> nat \<Rightarrow> u8 list \<Rightarrow> inode \<Rightarrow> (nat \<times> u8 list, 'd) act" where
  "inode_read_at D offset buf self = read_disk_inode D self (di_read_at D offset buf)"

definition inode_write_at :: "'d block_dev \<Rightarrow> easy_fs \<Rightarrow> nat \<Rightarrow> u8 list \<Rightarrow> inode \<Rightarrow> (nat, 'd) act" where
  "inode_write_at D fs offset buf self =
     modify_disk_inode D self (\<lambda>di.
       a_bind (inode_increase_size D fs (word_of_nat (offset + length buf)) di) (\<lambda>di'.
       a_bind (di_write_at D offset buf di') (\<lambda>k.
       a_ret (k, di'))))"

fun dealloc_data_blocks :: "'d block_dev \<Rightarrow> easy_fs \<Rightarrow> u32 list \<Rightarrow> (unit, 'd) act" where
  "dealloc_data_blocks D fs [] = a_ret ()"
| "dealloc_data_blocks D fs (b # bs) = a_bind (efs_dealloc_data D fs b) (\<lambda>_. dealloc_data_blocks D fs bs)"

definition inode_clear :: "'d block_dev \<Rightarrow> easy_fs \<Rightarrow> inode \<Rightarrow> (unit, 'd) act" where
  "inode_clear D fs self =
     modify_disk_inode D self (\<lambda>di.
       (let sz = di_size di in
        a_bind (di_clear_size D di) (\<lambda>(data_blocks_dealloc, di').
        a_bind (a_res (assertE (length data_blocks_dealloc = unat (di_total_blocks sz)))) (\<lambda>_.
        a_bind (dealloc_data_blocks D fs data_blocks_dealloc) (\<lambda>_.
        a_ret ((), di'))))))"

end
