(* ===== verification/Inode_Data.thy ===== *)
theory Inode_Data
  imports Layout
begin

text \<open>
  What the structures of \<^verbatim>\<open>layout.rs\<close> mean: the encodings can be read back, and a disk inode with
  its index blocks stands for a sequence of data blocks, whose bytes \<^verbatim>\<open>read_at\<close> returns and
  \<^verbatim>\<open>write_at\<close> replaces.
\<close>

section \<open>Encodings\<close>

lemma length_sb_enc [simp]: "length (sb_enc sb) = 24"
  by (simp add: sb_enc_def)

lemma sb_dec_enc: "sb_dec (sb_enc sb) = sb"
proof -
  let ?ws = "[sb_magic sb, sb_total_blocks sb, sb_inode_bitmap_blocks sb, sb_inode_area_blocks sb,
    sb_data_bitmap_blocks sb, sb_data_area_blocks sb]"
  have "length ?ws = 6" by simp
  from dec_enc_words [of 4 ?ws, unfolded this] have "dec_words 4 6 (sb_enc sb) = ?ws"
    by (simp add: sb_enc_def)
  then show ?thesis by (simp add: sb_dec_def)
qed

lemma length_di_enc [simp]: "length (di_direct di) = 28 \<Longrightarrow> length (di_enc di) = 125"
  by (simp add: di_enc_def)

lemma di_dec_enc:
  assumes "length (di_direct di) = 28"
  shows "di_dec (di_enc di @ pad) = di"
proof -
  let ?d = "enc_words 4 (di_direct di)"
  have d: "length ?d = 112" using assms by simp
  have ty: "(di_enc di @ pad) ! 124 = (case di_type di of File \<Rightarrow> 0 | Directory \<Rightarrow> 1)"
    using d by (simp add: di_enc_def nth_append)
  have "dec_words 4 28 (?d @ rest) = di_direct di" for rest
  proof -
    have "dec_words 4 28 (?d @ rest) = (dec_words 4 28 ?d :: u32 list)"
      by (rule nth_equalityI) (use d in \<open>auto simp: dec_words_def\<close>)
    then show ?thesis using dec_enc_words [of 4 "di_direct di"] assms by simp
  qed
  then show ?thesis
    using d ty by (simp add: di_dec_def di_enc_def le_dec_enc split: disk_inode_type.splits)
qed

lemma di_dec_overwrite:
  assumes "length (di_direct di) = 28" and "off + 128 \<le> length bs"
  shows "di_dec (take 128 (drop off (overwrite off (di_enc di) bs))) = di"
proof -
  have "take 128 (drop off (overwrite off (di_enc di) bs))
      = di_enc di @ take 3 (drop (off + 125) bs)"
    using assms by (simp add: overwrite_def)
  then show ?thesis using di_dec_enc [OF assms(1)] by simp
qed

lemma length_direct_dec [simp]: "length (di_direct (di_dec bs)) = 28"
  by (simp add: di_dec_def)

lemma takeWhile_zero_pad:
  assumes "0 \<notin> set name"
  shows "takeWhile (\<lambda>b. b \<noteq> 0) (name @ replicate k (0 :: u8)) = name"
proof -
  have "takeWhile (\<lambda>b. b \<noteq> 0) (name @ replicate k 0) = name @ takeWhile (\<lambda>b. b \<noteq> 0) (replicate k 0)"
    using assms by (intro takeWhile_append2) auto
  then show ?thesis by (cases k) simp_all
qed

text \<open>
  C15. Directory entries keep their names. A name of at most 27 bytes without a zero byte, in
  valid UTF-8, is stored in an entry of 32 bytes, and reading these bytes back gives the name
  and the inode number; a longer name makes the kernel panic (28 bytes fit, but their end is
  not found when the name is read).
\<close>

theorem dir_entry_round_trip:
  assumes "0 \<notin> set name" and "utf8_ok name"
  shows "if length name \<le> 27 then
      \<exists>de. dir_entry_new name ino = Inr de \<and> length (dir_entry_into_bytes de) = DIRENT_SZ
        \<and> dir_entry_name (dir_entry_from_bytes (dir_entry_into_bytes de)) = Inr name
        \<and> dir_entry_inode_number (dir_entry_from_bytes (dir_entry_into_bytes de)) = ino
    else if length name = 28 then
      \<exists>de. dir_entry_new name ino = Inr de
        \<and> dir_entry_name (dir_entry_from_bytes (dir_entry_into_bytes de)) = Inl IndexOutOfBounds
    else dir_entry_new name ino = Inl IndexOutOfBounds"
proof -
  have all: "takeWhile (\<lambda>b. b \<noteq> 0) name = name"
    using assms(1) by (auto simp: takeWhile_eq_all_conv)
  show ?thesis
    using assms takeWhile_zero_pad [OF assms(1), of "28 - length name"]
    by (auto simp: all Let_def dir_entry_new_def dir_entry_from_bytes_def dir_entry_into_bytes_def dir_entry_name_def
        dir_entry_inode_number_def NAME_LENGTH_LIMIT_def DIRENT_SZ_def sliceE_def overwrite_def le_dec_enc)
qed

theorem dir_entry_round_trip_witness:
  "\<exists>de. dir_entry_new [97, 98] 7 = Inr de
    \<and> dir_entry_name (dir_entry_from_bytes (dir_entry_into_bytes de)) = Inr [97, 98]
    \<and> dir_entry_inode_number (dir_entry_from_bytes (dir_entry_into_bytes de)) = 7"
  using dir_entry_round_trip [of "[97, 98]" 7] by auto

section \<open>The blocks of an inode\<close>

text \<open>
  The places that hold a block number: the data blocks in order, the two index blocks the inode
  names, and the index blocks the second of them names.
\<close>

datatype slot = Data nat | Ind1 | Ind2 | Sub nat

text \<open>The places in use by an inode with \<open>m\<close> data blocks.\<close>

fun slot_in :: "nat \<Rightarrow> slot \<Rightarrow> bool" where
  "slot_in m (Data i) \<longleftrightarrow> i < m"
| "slot_in m Ind1 \<longleftrightarrow> 28 < m"
| "slot_in m Ind2 \<longleftrightarrow> 156 < m"
| "slot_in m (Sub a) \<longleftrightarrow> 156 + 128 * a < m"

definition sub_of :: "nat \<Rightarrow> nat" where "sub_of i = (i - 156) div 128"

fun slot_val :: "(nat \<Rightarrow> u8 list) \<Rightarrow> disk_inode \<Rightarrow> slot \<Rightarrow> u32" where
  "slot_val V di (Data i) =
     (if i < 28 then di_direct di ! i
      else if i < 156 then indirect (V (unat (di_indirect1 di))) ! (i - 28)
      else indirect (V (unat (indirect (V (unat (di_indirect2 di))) ! sub_of i))) ! ((i - 156) mod 128))"
| "slot_val V di Ind1 = di_indirect1 di"
| "slot_val V di Ind2 = di_indirect2 di"
| "slot_val V di (Sub a) = indirect (V (unat (di_indirect2 di))) ! a"

lemmas slot_val_Data = slot_val.simps(1)

declare slot_val.simps(1) [simp del]

lemma indirect_take [simp]: "indirect (take 512 bs) = indirect bs"
  by (rule dec_words_take) simp

abbreviation max_blocks :: nat where "max_blocks \<equiv> 16540"

text \<open>
  An inode with \<open>m\<close> data blocks on a disk of \<open>n\<close> blocks: its blocks are pairwise different, on
  the disk and not locked.
\<close>

definition di_wf :: "nat \<Rightarrow> (nat \<times> bool) list \<Rightarrow> (nat \<Rightarrow> u8 list) \<Rightarrow> disk_inode \<Rightarrow> nat \<Rightarrow> bool" where
  "di_wf n H V di m \<longleftrightarrow> length (di_direct di) = 28 \<and> m \<le> max_blocks
     \<and> (\<forall>s. slot_in m s \<longrightarrow> unat (slot_val V di s) < n \<and> unat (slot_val V di s) \<notin> fst ` set H)
     \<and> (\<forall>s t. slot_in m s \<and> slot_in m t \<and> slot_val V di s = slot_val V di t \<longrightarrow> s = t)"

lemma di_wf_slot: "di_wf n H V di m \<Longrightarrow> slot_in m s \<Longrightarrow> unat (slot_val V di s) < n \<and> unat (slot_val V di s) \<notin> fst ` set H"
  unfolding di_wf_def by blast

lemma di_wf_inj:
  "di_wf n H V di m \<Longrightarrow> slot_in m s \<Longrightarrow> slot_in m t \<Longrightarrow> unat (slot_val V di s) = unat (slot_val V di t) \<Longrightarrow> s = t"
  unfolding di_wf_def by (metis word_unat_eq_iff)

lemma slot_in_ix:
  assumes "i < m"
  shows "28 \<le> i \<Longrightarrow> slot_in m Ind1" and "156 \<le> i \<Longrightarrow> slot_in m Ind2" and "156 \<le> i \<Longrightarrow> slot_in m (Sub (sub_of i))"
proof -
  show "28 \<le> i \<Longrightarrow> slot_in m Ind1" "156 \<le> i \<Longrightarrow> slot_in m Ind2" using assms by auto
  assume "156 \<le> i"
  moreover have "128 * sub_of i \<le> i - 156" by (simp add: sub_of_def)
  ultimately show "slot_in m (Sub (sub_of i))" using assms by simp
qed

lemma sub_of_bound: "i < max_blocks \<Longrightarrow> sub_of i < 128"
  by (simp add: sub_of_def less_mult_imp_div_less)

text \<open>The values of the places depend on the index blocks only.\<close>

definition ix_block :: "(nat \<Rightarrow> u8 list) \<Rightarrow> disk_inode \<Rightarrow> nat \<Rightarrow> nat \<Rightarrow> bool" where
  "ix_block V di m b \<longleftrightarrow> (\<exists>s. slot_in m s \<and> (\<forall>i. s \<noteq> Data i) \<and> b = unat (slot_val V di s))"

lemma slot_val_cong:
  assumes "slot_in m s" and "\<And>b. ix_block V di m b \<Longrightarrow> V' b = V b"
  shows "slot_val V' di s = slot_val V di s"
proof -
  have i1: "V' (unat (di_indirect1 di)) = V (unat (di_indirect1 di))" if "28 < m"
    using that assms(2) by (simp add: ix_block_def) (metis slot.distinct(1) slot_in.simps(2) slot_val.simps(2))
  have i2: "V' (unat (di_indirect2 di)) = V (unat (di_indirect2 di))" if "156 < m"
    using that assms(2) by (simp add: ix_block_def) (metis slot.distinct(3) slot_in.simps(3) slot_val.simps(3))
  have sb: "V' (unat (indirect (V (unat (di_indirect2 di))) ! a)) = V (unat (indirect (V (unat (di_indirect2 di))) ! a))"
    if "156 + 128 * a < m" for a
    using that assms(2) by (simp add: ix_block_def) (metis slot.distinct(5) slot_in.simps(4) slot_val.simps(4))
  show ?thesis
  proof (cases s)
    case (Data i)
    then show ?thesis
      using assms(1) i1 i2 sb [of "sub_of i"] slot_in_ix(3) [of i m]
      by (cases "i < 28"; cases "i < 156") (auto simp: slot_val_Data)
  next
    case (Sub a)
    then show ?thesis using assms(1) i2 by simp
  qed simp_all
qed

lemma data_not_ix:
  assumes "di_wf n H V di m" and "i < m"
  shows "\<not> ix_block V di m (unat (slot_val V di (Data i)))"
proof
  assume "ix_block V di m (unat (slot_val V di (Data i)))"
  then obtain s where "slot_in m s" "\<forall>j. s \<noteq> Data j" "unat (slot_val V di (Data i)) = unat (slot_val V di s)"
    unfolding ix_block_def by blast
  with di_wf_inj [OF assms(1), of "Data i" s] assms(2) show False by auto
qed

section \<open>Reading\<close>

text \<open>The byte at a position of the file.\<close>

definition fbyte :: "(nat \<Rightarrow> u8 list) \<Rightarrow> disk_inode \<Rightarrow> nat \<Rightarrow> u8" where
  "fbyte V di p = V (unat (slot_val V di (Data (p div 512)))) ! (p mod 512)"

lemma overwrite_overwrite_append:
  assumes "off + length xs + length ys \<le> length zs"
  shows "overwrite (off + length xs) ys (overwrite off xs zs) = overwrite off (xs @ ys) zs"
  using assms by (intro nth_equalityI) (auto simp: nth_overwrite nth_append)

lemma upt_split: "i \<le> j \<Longrightarrow> j \<le> k \<Longrightarrow> [i..<k] = [i..<j] @ [j..<k]"
  using upt_add_eq_append [of i j "k - j"] by simp

text \<open>The end of the part of \<open>start..<en\<close> in the block of \<open>start\<close>.\<close>

definition block_end :: "nat \<Rightarrow> nat \<Rightarrow> nat" where
  "block_end start en = min ((start div 512 + 1) * 512) en"

lemma block_end_props:
  assumes "start < en"
  shows "start < block_end start en" and "block_end start en \<le> en"
    and "start mod 512 + (block_end start en - start) \<le> 512"
    and "block_end start en \<noteq> en \<Longrightarrow> block_end start en div 512 = start div 512 + 1"
proof -
  let ?q = "start div 512" and ?r = "start mod 512"
  have d: "start = ?q * 512 + ?r" "?r < 512" by simp_all
  show "start < block_end start en" "block_end start en \<le> en" using assms d by (simp_all add: block_end_def)
  have "block_end start en \<le> ?q * 512 + 512" by (simp add: block_end_def)
  then show "?r + (block_end start en - start) \<le> 512" using d by linarith
  show "block_end start en div 512 = ?q + 1" if "block_end start en \<noteq> en"
    using that by (simp add: block_end_def min_def split: if_splits)
qed

lemma in_block_less:
  fixes p off k :: nat
  assumes "p < off + k" and "off mod 512 + k \<le> 512"
  shows "p < (off div 512 + 1) * 512"
proof -
  obtain q r where o: "off = q * 512 + r" and q: "off div 512 = q" and r: "off mod 512 = r" by (metis div_mult_mod_eq)
  show ?thesis using assms(1) assms(2) [unfolded r] o unfolding q by simp
qed

lemma same_block:
  fixes p off k :: nat
  assumes "p div 512 = off div 512"
  shows "(off mod 512 \<le> p mod 512 \<and> p mod 512 < off mod 512 + k \<longleftrightarrow> off \<le> p \<and> p < off + k)
    \<and> p mod 512 - off mod 512 = p - off"
proof -
  obtain q r where o: "off = q * 512 + r" and q: "q = off div 512" and r: "off mod 512 = r" by (metis div_mult_mod_eq)
  obtain s where p: "p = q * 512 + s" and s: "p mod 512 = s" using assms q by (metis div_mult_mod_eq)
  show ?thesis unfolding r s using o p by simp
qed

lemma in_block_div:
  fixes p start en :: nat
  assumes "p < block_end start en" "start \<le> p"
  shows "p div 512 = start div 512"
proof (rule antisym)
  show "p div 512 \<le> start div 512"
    using assms(1) by (simp add: block_end_def less_mult_imp_div_less flip: less_Suc_eq_le)
  show "start div 512 \<le> p div 512" using assms(2) by (rule div_le_mono)
qed

lemma in_block_mod:
  fixes p start en :: nat
  assumes "p < block_end start en" "start \<le> p"
  shows "p mod 512 = start mod 512 + (p - start)"
proof -
  have "start + (p - start) = start div 512 * 512 + p mod 512"
    using in_block_div [OF assms] assms(2) by (metis div_mult_mod_eq le_add_diff_inverse)
  moreover have "start = start div 512 * 512 + start mod 512" by simp
  ultimately show ?thesis by linarith
qed

text \<open>
  What a write changes: the bytes from \<open>off\<close> on become \<open>xs\<close>, the other bytes of the file stay,
  and only data blocks of the file in that range are changed.
\<close>

definition written :: "nat \<Rightarrow> nat \<Rightarrow> disk_inode \<Rightarrow> nat \<Rightarrow> u8 list \<Rightarrow> (nat \<Rightarrow> u8 list) \<Rightarrow> (nat \<Rightarrow> u8 list) \<Rightarrow> bool" where
  "written n m di off xs V V' \<longleftrightarrow> disk_ok n V'
     \<and> (\<forall>b. V' b \<noteq> V b \<longrightarrow> (\<exists>p \<in> {off..<off + length xs}. b = unat (slot_val V di (Data (p div 512)))))
     \<and> (\<forall>p < m * 512. fbyte V' di p = (if off \<le> p \<and> p < off + length xs then xs ! (p - off) else fbyte V di p))"

lemma written_slot_val:
  assumes "di_wf n H V di m" and "written n m di off xs V V'" and "off + length xs \<le> m * 512" and "slot_in m s"
  shows "slot_val V' di s = slot_val V di s"
proof (rule slot_val_cong [OF assms(4)])
  fix b
  assume b: "ix_block V di m b"
  show "V' b = V b"
  proof (rule ccontr)
    assume "V' b \<noteq> V b"
    with assms(2) obtain p where p: "p < off + length xs" "b = unat (slot_val V di (Data (p div 512)))"
      unfolding written_def by (meson atLeastLessThan_iff)
    then have "p div 512 < m" using assms(3) by (simp add: less_mult_imp_div_less)
    with data_not_ix [OF assms(1) this] p(2) b show False by simp
  qed
qed

lemma di_wf_cong:
  assumes "di_wf n H V di m" and "\<And>s. slot_in m s \<Longrightarrow> slot_val V' di s = slot_val V di s"
  shows "di_wf n H V' di m"
  using assms unfolding di_wf_def by metis

lemma written_append:
  assumes wf: "di_wf n H V di m" and w1: "written n m di off xs V V1" and w2: "written n m di (off + length xs) ys V1 V2"
    and m: "off + length xs + length ys \<le> m * 512"
  shows "written n m di off (xs @ ys) V V2"
  unfolding written_def
proof (intro conjI allI impI)
  show "disk_ok n V2" using w2 by (simp add: written_def)
  fix b
  assume "V2 b \<noteq> V b"
  then consider "V1 b \<noteq> V b" | "V2 b \<noteq> V1 b" by metis
  then show "\<exists>p \<in> {off..<off + length (xs @ ys)}. b = unat (slot_val V di (Data (p div 512)))"
  proof cases
    case 1
    then obtain p where "p \<in> {off..<off + length xs}" "b = unat (slot_val V di (Data (p div 512)))"
      using w1 unfolding written_def by blast
    then show ?thesis by (intro bexI [of _ p]) auto
  next
    case 2
    then obtain p where p: "p \<in> {off + length xs..<off + length xs + length ys}"
      "b = unat (slot_val V1 di (Data (p div 512)))"
      using w2 unfolding written_def by blast
    have "slot_val V1 di (Data (p div 512)) = slot_val V di (Data (p div 512))"
      using p(1) m by (intro written_slot_val [OF wf w1]) (auto simp: less_mult_imp_div_less)
    with p show ?thesis by (intro bexI [of _ p]) (auto simp del: slot_val.simps)
  qed
next
  fix p
  assume p: "p < m * 512"
  have "fbyte V1 di p = (if off \<le> p \<and> p < off + length xs then xs ! (p - off) else fbyte V di p)"
    using w1 p unfolding written_def by blast
  moreover have "fbyte V2 di p = (if off + length xs \<le> p \<and> p < off + length xs + length ys
      then ys ! (p - (off + length xs)) else fbyte V1 di p)"
    using w2 p unfolding written_def by blast
  ultimately show "fbyte V2 di p =
      (if off \<le> p \<and> p < off + length (xs @ ys) then (xs @ ys) ! (p - off) else fbyte V di p)"
    by (auto simp: nth_append)
qed

lemma written_block:
  assumes wf: "di_wf n H V di m" and d: "disk_ok n V" and i: "off div 512 < m" and len: "off mod 512 + length xs \<le> 512"
    and ne: "xs \<noteq> []"
  defines "b \<equiv> unat (slot_val V di (Data (off div 512)))"
  shows "written n m di off xs V (V(b := overwrite (off mod 512) xs (V b)))" (is "written n m di off xs V ?V")
  unfolding written_def
proof (intro conjI allI impI)
  have lb: "b < n" "length (V b) = 512"
    using di_wf_slot [OF wf, of "Data (off div 512)"] i d by (simp_all add: b_def disk_ok_def)
  show "disk_ok n ?V" using d len lb by (simp add: disk_ok_def)
  have sv: "slot_val ?V di s = slot_val V di s" if "slot_in m s" for s
    using data_not_ix [OF wf i] by (intro slot_val_cong [OF that]) (auto simp: b_def)
  show "\<exists>p \<in> {off..<off + length xs}. c = unat (slot_val V di (Data (p div 512)))" if "?V c \<noteq> V c" for c
    using that ne by (intro bexI [of _ off]) (auto simp: b_def split: if_splits)
  fix p
  assume p: "p < m * 512"
  then have pm: "p div 512 < m" by (simp add: less_mult_imp_div_less)
  have svp: "slot_val ?V di (Data (p div 512)) = slot_val V di (Data (p div 512))" using pm by (intro sv) simp
  have bp: "unat (slot_val V di (Data (p div 512))) = b \<longleftrightarrow> p div 512 = off div 512"
    unfolding b_def using di_wf_inj [OF wf, of "Data (p div 512)" "Data (off div 512)"] pm i by auto
  have in_block: "p div 512 = off div 512 \<and> p mod 512 = off mod 512 + (p - off)" if "off \<le> p" "p < off + length xs"
  proof -
    have "p < (off div 512 + 1) * 512" using that(2) len by (rule in_block_less)
    then have "p < block_end off (off + length xs)" using that(2) by (simp add: block_end_def)
    from in_block_div [OF this that(1)] in_block_mod [OF this that(1)] show ?thesis by simp
  qed
  show "fbyte ?V di p = (if off \<le> p \<and> p < off + length xs then xs ! (p - off) else fbyte V di p)"
  proof (cases "p div 512 = off div 512")
    case True
    then have "fbyte ?V di p = overwrite (off mod 512) xs (V b) ! (p mod 512)"
      unfolding fbyte_def svp using bp by simp
    also have "\<dots> = (if off mod 512 \<le> p mod 512 \<and> p mod 512 < off mod 512 + length xs
        then xs ! (p mod 512 - off mod 512) else V b ! (p mod 512))"
      using lb len by (simp add: nth_overwrite)
    also have "V b ! (p mod 512) = fbyte V di p"
      unfolding fbyte_def True b_def [symmetric] by simp
    finally show ?thesis
      unfolding same_block [OF True, THEN conjunct1] same_block [OF True, THEN conjunct2] .
  next
    case False
    then have "fbyte ?V di p = fbyte V di p" unfolding fbyte_def svp using bp by simp
    then show ?thesis using False in_block by auto
  qed
qed

context block_device
begin

lemma get_block_id_runs:
  assumes wf: "di_wf n H V di m" and i: "i < m" and H: "length H < 16"
  shows "runs n H (di_get_block_id D (word_of_nat i) di) V (slot_val V di (Data i)) V"
proof -
  have mx: "i < max_blocks" using wf i by (simp add: di_wf_def)
  have u: "unat (word_of_nat i :: u32) = i" using mx by (intro unat_of_nat32) simp
  note c = INODE_DIRECT_COUNT_def INDIRECT1_BOUND_def INODE_INDIRECT1_COUNT_def BLOCK_SZ_def
  consider "i < 28" | "28 \<le> i" "i < 156" | "156 \<le> i" by linarith
  then show ?thesis
  proof cases
    case 1
    then show ?thesis using wf by (auto simp: di_get_block_id_def u c di_wf_def slot_val_Data)
  next
    case 2
    then have s: "unat (di_indirect1 di) < n" "unat (di_indirect1 di) \<notin> fst ` set H"
      using di_wf_slot [OF wf slot_in_ix(1) [OF i]] by simp_all
    show ?thesis
      using 2 by (auto simp: di_get_block_id_def u c slot_val_Data intro!: runs_read [OF s H])
  next
    case 3
    let ?i2 = "unat (di_indirect2 di)" and ?sub = "indirect (V (unat (di_indirect2 di))) ! sub_of i"
    have s2: "?i2 < n" "?i2 \<notin> fst ` set H"
      using di_wf_slot [OF wf slot_in_ix(2) [OF i 3]] by simp_all
    have ss: "unat ?sub < n" "unat ?sub \<notin> fst ` set H"
      using di_wf_slot [OF wf slot_in_ix(3) [OF i 3]] by simp_all
    have "sub_of i < 128" by (rule sub_of_bound [OF mx])
    then have r1: "runs n H (cache_read D ?i2 0 512 (\<lambda>bs. a_res (indexE (indirect bs) ((i - 156) div 128)))) V ?sub V"
      by (auto simp: sub_of_def intro!: runs_read [OF s2 H])
    have r2: "runs n H (cache_read D (unat ?sub) 0 512 (\<lambda>bs. a_res (indexE (indirect bs) ((i - 156) mod 128)))) V
        (slot_val V di (Data i)) V"
      using 3 by (auto simp: slot_val_Data intro!: runs_read [OF ss H])
    show ?thesis
      using 3 runs_bind [OF r1, where f = "\<lambda>b. cache_read D (unat b) 0 512 (\<lambda>bs. a_res (indexE (indirect bs) ((i - 156) mod 128)))", OF r2]
      by (simp add: di_get_block_id_def u c Let_def)
  qed
qed

lemma data_block:
  assumes "di_wf n H V di m" and "i < m" and "disk_ok n V"
  shows "unat (slot_val V di (Data i)) < n" and "unat (slot_val V di (Data i)) \<notin> fst ` set H"
    and "length (V (unat (slot_val V di (Data i)))) = 512"
  using di_wf_slot [OF assms(1), of "Data i"] assms(2,3) by (auto simp: disk_ok_def)

text \<open>One iteration of the loop of \<^verbatim>\<open>read_at\<close>.\<close>

definition read_step :: "disk_inode \<Rightarrow> nat \<Rightarrow> nat \<Rightarrow> nat \<Rightarrow> u8 list \<Rightarrow> (u8 list, 'd) act" where
  "read_step di start e rs buf =
     a_bind (di_get_block_id D (word_of_nat (start div 512)) di) (\<lambda>b.
     cache_read D (unat b) 0 512 (\<lambda>data_block.
       a_bind (a_res (sliceE data_block (start mod 512) (start mod 512 + (e - start)))) (\<lambda>src.
       a_ret (overwrite rs src buf))))"

lemma read_loop_unfold:
  "di_read_loop D di en start (start div 512) rs buf =
     a_bind (read_step di start (block_end start en) rs buf) (\<lambda>buf' st'.
       if block_end start en = en then Inr ((rs + (block_end start en - start), buf'), st')
       else di_read_loop D di en (block_end start en) (start div 512 + 1) (rs + (block_end start en - start)) buf' st')"
  by (rule ext, subst di_read_loop.simps) (simp only: Let_def BLOCK_SZ_def read_step_def block_end_def)

lemma read_step_runs:
  assumes wf: "di_wf n H V di m" and H: "length H < 16" and d: "disk_ok n V"
    and st: "start < en" and i: "start div 512 < m"
  shows "runs n H (read_step di start (block_end start en) rs buf) V
      (overwrite rs (map (fbyte V di) [start..<block_end start en]) buf) V"
proof -
  let ?e = "block_end start en" and ?b = "unat (slot_val V di (Data (start div 512)))"
  note b = data_block [OF wf i d]
  note be = block_end_props [OF st]
  have "take (?e - start) (drop (start mod 512) (V ?b)) = map (fbyte V di) [start..<?e]"
  proof (rule nth_equalityI)
    fix j
    assume "j < length (take (?e - start) (drop (start mod 512) (V ?b)))"
    then have "j < ?e - start" by (simp del: slot_val.simps)
    then have j: "start + j < ?e" by linarith
    then show "take (?e - start) (drop (start mod 512) (V ?b)) ! j = map (fbyte V di) [start..<?e] ! j"
      using in_block_div [OF j] in_block_mod [OF j] b(3) be(3) by (simp add: fbyte_def del: slot_val.simps)
  next
    show "length (take (?e - start) (drop (start mod 512) (V ?b))) = length (map (fbyte V di) [start..<?e])"
      using be(3) unfolding length_take length_drop b(3) length_map length_upt by linarith
  qed
  then have "sliceE (V ?b) (start mod 512) (start mod 512 + (?e - start)) = Inr (map (fbyte V di) [start..<?e])"
    using be(3) b(3) by (simp only: sliceE_def) simp
  moreover have "take 512 (drop 0 (V ?b)) = V ?b" using b(3) by simp
  ultimately show ?thesis
    unfolding read_step_def
    by (intro runs_bind [OF get_block_id_runs [OF wf i H]] runs_read [OF b(1,2) H])
      (auto intro!: runs_bind [OF runs_res] simp del: drop0)
qed

lemma read_loop_runs:
  assumes wf: "di_wf n H V di m" and H: "length H < 16" and d: "disk_ok n V"
    and "start < en" and "en \<le> m * 512" and "rs + (en - start) \<le> length buf"
  shows "runs n H (di_read_loop D di en start (start div 512) rs buf) V
    (rs + (en - start), overwrite rs (map (fbyte V di) [start..<en]) buf) V"
  using assms(4-6)
proof (induction "en - start" arbitrary: start rs buf rule: less_induct)
  case less
  let ?e = "block_end start en"
  note be = block_end_props [OF less.prems(1)]
  have i: "start div 512 < m" using less.prems(1,2) by (simp add: less_mult_imp_div_less)
  let ?buf = "overwrite rs (map (fbyte V di) [start..<?e]) buf"
  show ?case
    unfolding read_loop_unfold
  proof (rule runs_bind [OF read_step_runs [OF wf H d less.prems(1) i]], cases "?e = en")
    case True
    then show "runs n H (\<lambda>st'. if ?e = en then Inr ((rs + (?e - start), ?buf), st')
        else di_read_loop D di en ?e (start div 512 + 1) (rs + (?e - start)) ?buf st') V
      (rs + (en - start), overwrite rs (map (fbyte V di) [start..<en]) buf) V"
      by (auto intro: runsI)
  next
    case False
    have lt: "start < ?e" "?e < en" using be(1,2) False by auto
    have lb: "length ?buf = length buf" using less.prems(3) lt by simp
    have "runs n H (di_read_loop D di en ?e (?e div 512) (rs + (?e - start)) ?buf) V
        (rs + (?e - start) + (en - ?e), overwrite (rs + (?e - start)) (map (fbyte V di) [?e..<en]) ?buf) V"
      using lt less.prems(2,3) lb by (intro less.hyps) auto
    moreover have "overwrite (rs + (?e - start)) (map (fbyte V di) [?e..<en]) ?buf
        = overwrite rs (map (fbyte V di) [start..<en]) buf"
      using overwrite_overwrite_append [of rs "map (fbyte V di) [start..<?e]" "map (fbyte V di) [?e..<en]" buf]
        less.prems(3) lt upt_split [of start ?e en]
      by (simp add: less_imp_le)
    moreover have "rs + (?e - start) + (en - ?e) = rs + (en - start)" using lt by simp
    ultimately show "runs n H (\<lambda>st'. if ?e = en then Inr ((rs + (?e - start), ?buf), st')
        else di_read_loop D di en ?e (start div 512 + 1) (rs + (?e - start)) ?buf st') V
      (rs + (en - start), overwrite rs (map (fbyte V di) [start..<en]) buf) V"
      using False be(4) by simp
  qed
qed

lemma read_at_runs:
  fixes offset :: nat and buf :: "u8 list"
  assumes wf: "di_wf n H V di m" and H: "length H < 16" and d: "disk_ok n V"
    and m: "unat (di_size di) \<le> m * 512"
  defines "k \<equiv> min (offset + length buf) (unat (di_size di)) - offset"
  shows "runs n H (di_read_at D offset buf di) V (k, overwrite 0 (map (fbyte V di) [offset..<offset + k]) buf) V"
proof (cases "offset < min (offset + length buf) (unat (di_size di))")
  case True
  define en where "en = min (offset + length buf) (unat (di_size di))"
  have "runs n H (di_read_loop D di en offset (offset div 512) 0 buf) V
      (0 + (en - offset), overwrite 0 (map (fbyte V di) [offset..<en]) buf) V"
    using True m by (intro read_loop_runs [OF wf H d]) (auto simp: en_def)
  with True show ?thesis
    unfolding di_read_at_def k_def BLOCK_SZ_def Let_def en_def [symmetric] by simp
next
  case False
  then show ?thesis by (auto simp: di_read_at_def k_def)
qed

end

section \<open>Writing\<close>

context block_device
begin

definition write_step :: "disk_inode \<Rightarrow> nat \<Rightarrow> nat \<Rightarrow> nat \<Rightarrow> u8 list \<Rightarrow> (unit, 'd) act" where
  "write_step di start e ws buf =
     a_bind (di_get_block_id D (word_of_nat (start div 512)) di) (\<lambda>b.
     cache_modify D (unat b) 0 512 (\<lambda>data_block.
       a_bind (a_res (sliceE buf ws (ws + (e - start)))) (\<lambda>src.
       a_ret ((), overwrite (start mod 512) src data_block))))"

lemma write_loop_unfold:
  "di_write_loop D di en start (start div 512) ws buf =
     a_bind (write_step di start (block_end start en) ws buf) (\<lambda>_ st'.
       if block_end start en = en then Inr (ws + (block_end start en - start), st')
       else di_write_loop D di en (block_end start en) (start div 512 + 1) (ws + (block_end start en - start)) buf st')"
  by (rule ext, subst di_write_loop.simps) (simp only: Let_def BLOCK_SZ_def write_step_def block_end_def)

lemma write_step_runs:
  assumes wf: "di_wf n H V di m" and H: "length H < 16" and d: "disk_ok n V"
    and st: "start < en" and i: "start div 512 < m" and len: "ws + (block_end start en - start) \<le> length buf"
  defines "xs \<equiv> take (block_end start en - start) (drop ws buf)"
  obtains V1 where "runs n H (write_step di start (block_end start en) ws buf) V () V1"
    and "written n m di start xs V V1" and "length xs = block_end start en - start"
proof -
  let ?e = "block_end start en" and ?b = "unat (slot_val V di (Data (start div 512)))"
  note b = data_block [OF wf i d]
  note be = block_end_props [OF st]
  have lx: "length xs = ?e - start" using len by (simp add: xs_def)
  have sl: "sliceE buf ws (ws + (?e - start)) = Inr xs" using len by (simp add: sliceE_def xs_def)
  have lo: "length (overwrite (start mod 512) xs (V ?b)) = 512" using b(3) be(3) lx by simp
  let ?V1 = "V(?b := overwrite (start mod 512) xs (V ?b))"
  have "runs n H (cache_modify D ?b 0 512 (\<lambda>data_block.
       a_bind (a_res (sliceE buf ws (ws + (?e - start)))) (\<lambda>src.
       a_ret ((), overwrite (start mod 512) src data_block)))) V ()
      (V(?b := overwrite 0 (overwrite (start mod 512) xs (V ?b)) (V ?b)))"
    using sl lo b(3) by (intro runs_modify [OF b(1,2) H] runs_bind [OF runs_res]) auto
  then have "runs n H (write_step di start ?e ws buf) V () ?V1"
    unfolding write_step_def using lo b(3)
    by (intro runs_bind [OF get_block_id_runs [OF wf i H]]) (simp add: overwrite_def)
  moreover have "written n m di start xs V ?V1"
    using be(1,3) lx by (intro written_block [OF wf d i]) auto
  ultimately show thesis using lx by (intro that)
qed

lemma write_loop_runs:
  assumes "di_wf n H V di m" and H: "length H < 16" and "disk_ok n V"
    and "start < en" and "en \<le> m * 512" and "ws + (en - start) \<le> length buf"
  shows "\<exists>V'. runs n H (di_write_loop D di en start (start div 512) ws buf) V (ws + (en - start)) V'
    \<and> written n m di start (take (en - start) (drop ws buf)) V V'"
  using assms(1,3-6)
proof (induction "en - start" arbitrary: start ws V rule: less_induct)
  case less
  let ?e = "block_end start en" and ?xs = "take (block_end start en - start) (drop ws buf)"
  note be = block_end_props [OF less.prems(3)]
  have i: "start div 512 < m" using less.prems(3,4) by (simp add: less_mult_imp_div_less)
  have len: "ws + (?e - start) \<le> length buf" using be less.prems(5) by simp
  obtain V1 where r1: "runs n H (write_step di start ?e ws buf) V () V1"
    and w1: "written n m di start ?xs V V1" and lx: "length ?xs = ?e - start"
    by (rule write_step_runs [OF less.prems(1) H less.prems(2,3) i len])
  show ?case
  proof (cases "?e = en")
    case True
    have "runs n H (\<lambda>st'. if ?e = en then Inr (ws + (?e - start), st')
        else di_write_loop D di en ?e (start div 512 + 1) (ws + (?e - start)) buf st') V1 (ws + (en - start)) V1"
      using True by (auto intro: runsI)
    then show ?thesis
      unfolding write_loop_unfold using runs_bind [OF r1] w1 True by (intro exI [of _ V1]) auto
  next
    case False
    have lt: "start < ?e" "?e < en" using be(1,2) False by auto
    have wf1: "di_wf n H V1 di m"
      using lt less.prems(4) lx
      by (intro di_wf_cong [OF less.prems(1)] written_slot_val [OF less.prems(1) w1]) auto
    have d1: "disk_ok n V1" using w1 by (simp add: written_def)
    have "en - ?e < en - start" "ws + (?e - start) + (en - ?e) \<le> length buf" using lt less.prems(5) by linarith+
    from less.hyps [OF this(1) wf1 d1 lt(2) less.prems(4) this(2)] obtain V2 where
      r2: "runs n H (di_write_loop D di en ?e (?e div 512) (ws + (?e - start)) buf) V1 (ws + (?e - start) + (en - ?e)) V2"
      and w2: "written n m di ?e (take (en - ?e) (drop (ws + (?e - start)) buf)) V1 V2" by blast
    have "take (en - start) (drop ws buf) = ?xs @ take (en - ?e) (drop (ws + (?e - start)) buf)"
      using lt take_add [of "?e - start" "en - ?e" "drop ws buf"] by (simp add: add.commute)
    moreover have "written n m di start (?xs @ take (en - ?e) (drop (ws + (?e - start)) buf)) V V2"
      using w2 lx lt less.prems(4,5) by (intro written_append [OF less.prems(1) w1]) auto
    moreover have "runs n H (\<lambda>st'. if ?e = en then Inr (ws + (?e - start), st')
        else di_write_loop D di en ?e (start div 512 + 1) (ws + (?e - start)) buf st') V1 (ws + (en - start)) V2"
      using r2 lt be(4) False by simp
    ultimately show ?thesis
      unfolding write_loop_unfold using runs_bind [OF r1] by (intro exI [of _ V2]) auto
  qed
qed

lemma write_at_runs:
  fixes offset :: nat and buf :: "u8 list"
  assumes wf: "di_wf n H V di m" and H: "length H < 16" and d: "disk_ok n V"
    and m: "unat (di_size di) \<le> m * 512" and ne: "buf \<noteq> []" and off: "offset < unat (di_size di)"
  defines "k \<equiv> min (offset + length buf) (unat (di_size di)) - offset"
  shows "\<exists>V'. runs n H (di_write_at D offset buf di) V k V' \<and> written n m di offset (take k buf) V V'"
proof -
  define en where "en = min (offset + length buf) (unat (di_size di))"
  have en: "offset < en" "en \<le> m * 512" "0 + (en - offset) \<le> length buf" using ne off m by (auto simp: en_def)
  obtain V' where "runs n H (di_write_loop D di en offset (offset div 512) 0 buf) V (0 + (en - offset)) V'"
    "written n m di offset (take (en - offset) (drop 0 buf)) V V'"
    using write_loop_runs [OF wf H d en] by blast
  then show ?thesis
    unfolding di_write_at_def k_def BLOCK_SZ_def Let_def en_def [symmetric] using en
    by (intro exI [of _ V'] conjI runs_bind [OF runs_res]) auto
qed

end

end
