(* ===== verification/Inode_Grow.thy ===== *)
theory Inode_Grow
  imports Inode_Data
begin

text \<open>
  Growing and clearing an inode (\<^verbatim>\<open>increase_size\<close> and \<^verbatim>\<open>clear_size\<close> of \<^verbatim>\<open>layout.rs\<close>). The places
  of an inode are filled in a fixed order; the block numbers handed to \<^verbatim>\<open>increase_size\<close> go to the
  new places in this order, and \<^verbatim>\<open>clear_size\<close> gives all of them back in the same order.
\<close>

section \<open>The order of the places\<close>

fun slot_pos :: "slot \<Rightarrow> nat" where
  "slot_pos (Data i) = i + (if i < 28 then 0 else if i < 156 then 1 else 3 + (i - 156) div 128)"
| "slot_pos Ind1 = 28"
| "slot_pos Ind2 = 157"
| "slot_pos (Sub a) = 158 + 129 * a"

text \<open>The number of places of an inode with \<open>m\<close> data blocks.\<close>

definition slots :: "nat \<Rightarrow> nat" where
  "slots m = m + (if m \<le> 28 then 0 else 1) + (if m \<le> 156 then 0 else 1 + (m - 156 + 127) div 128)"

lemma slot_in_iff: "slot_in m s \<longleftrightarrow> slot_pos s < slots m"
proof (cases s)
  case (Data i)
  consider "m \<le> 28" | "28 < m" "m \<le> 156" | "156 < m" by linarith
  then show ?thesis
  proof cases
    case 3
    have "156 \<le> i \<Longrightarrow> i < m \<longleftrightarrow> i + (3 + (i - 156) div 128) < m + 1 + (1 + (m - 156 + 127) div 128)"
      using 3 by linarith
    then show ?thesis using Data 3 by (auto simp: slots_def)
  qed (use Data in \<open>auto simp: slots_def\<close>)
next
  case (Sub a)
  have "156 + 128 * a < m \<longleftrightarrow> 158 + 129 * a < m + 1 + (1 + (m - 156 + 127) div 128)" if "156 < m"
    using that by linarith
  then show ?thesis using Sub by (auto simp: slots_def)
qed (auto simp: slots_def)

text \<open>The place at a position.\<close>

definition slot_at :: "nat \<Rightarrow> slot" where
  "slot_at p =
     (if p < 28 then Data p else if p = 28 then Ind1 else if p < 157 then Data (p - 1)
      else if p = 157 then Ind2
      else if (p - 158) mod 129 = 0 then Sub ((p - 158) div 129)
      else Data (156 + (p - 158) div 129 * 128 + (p - 158) mod 129 - 1))"

lemma slot_pos_ge: "156 \<le> i \<Longrightarrow> slot_pos (Data i) = 158 + (i - 156) div 128 * 129 + ((i - 156) mod 128 + 1)"
  using div_mult_mod_eq [of "i - 156" 128] by simp

lemma slot_at_pos [simp]: "slot_at (slot_pos s) = s"
proof (cases s)
  case (Data i)
  show ?thesis
  proof (cases "156 \<le> i")
    case True
    define q r where "q = (i - 156) div 128" and "r = (i - 156) mod 128"
    have i: "i = 156 + q * 128 + r" and r: "r < 128" using True by (simp_all add: q_def r_def)
    have p: "slot_pos s = 158 + q * 129 + (r + 1)"
      unfolding Data slot_pos_ge [OF True] q_def [symmetric] r_def [symmetric] ..
    have "(slot_pos s - 158) div 129 = q" "(slot_pos s - 158) mod 129 = r + 1" "157 < slot_pos s"
      using r by (simp_all add: p)
    then show ?thesis using i Data by (simp add: slot_at_def del: slot_pos.simps)
  qed (use Data in \<open>auto simp: slot_at_def\<close>)
qed (auto simp: slot_at_def)

lemma slot_pos_inj: "slot_pos s = slot_pos t \<longleftrightarrow> s = t"
  by (metis slot_at_pos)

lemma slot_pos_at [simp]: "slot_pos (slot_at p) = p"
proof (cases "158 \<le> p")
  case True
  define q r where "q = (p - 158) div 129" and "r = (p - 158) mod 129"
  have p: "p = 158 + q * 129 + r" and r: "r < 129" using True by (simp_all add: q_def r_def)
  have at: "slot_at p = (if r = 0 then Sub q else Data (156 + q * 128 + r - 1))"
    using True by (simp add: slot_at_def q_def r_def)
  show ?thesis
  proof (cases "r = 0")
    case False
    then obtain r' where r': "r = Suc r'" by (cases r) auto
    then have "slot_pos (Data (156 + q * 128 + r')) = 158 + q * 129 + (r' + 1)"
      using r by (subst slot_pos_ge) simp_all
    then show ?thesis using r' at p by (simp only: add_Suc_right diff_Suc_1 if_False nat.simps)
  qed (use at p in simp)
qed (auto simp: slot_at_def)

lemma slots_mono: "m \<le> m' \<Longrightarrow> slots m \<le> slots m'"
proof -
  have "(m - 156 + 127) div 128 \<le> (m' - 156 + 127) div 128" if "m \<le> m'"
    using that by (intro div_le_mono) simp
  then show "m \<le> m' \<Longrightarrow> slots m \<le> slots m'" by (auto simp: slots_def)
qed

lemma total_blocks_slots:
  assumes "unat (size_data_blocks sz) \<le> max_blocks"
  shows "unat (di_total_blocks sz) = slots (unat (size_data_blocks sz))"
proof -
  let ?m = "unat (size_data_blocks sz)"
  have e: "di_total_blocks sz = word_of_nat (slots ?m)"
    by (auto simp: di_total_blocks_def slots_def Let_def INODE_DIRECT_COUNT_def INDIRECT1_BOUND_def
        INODE_INDIRECT1_COUNT_def BLOCK_SZ_def)
  have "slots ?m \<le> slots max_blocks" using assms by (rule slots_mono)
  also have "slots max_blocks < 2 ^ 32" by (simp add: slots_def)
  finally show ?thesis unfolding e by (rule unat_of_nat32)
qed

section \<open>Filling places\<close>

text \<open>
  A list of block numbers feeds the places of an inode with \<open>M\<close> data blocks from position \<open>t\<close> on:
  \<open>g\<close> gives the block number each place is to get.
\<close>

definition feeds :: "nat \<Rightarrow> (slot \<Rightarrow> u32) \<Rightarrow> nat \<Rightarrow> u32 list \<Rightarrow> bool" where
  "feeds M g t nb \<longleftrightarrow> (\<forall>p. t \<le> p \<and> p < slots M \<longrightarrow> p - t < length nb \<and> nb ! (p - t) = g (slot_at p))"

lemma feeds_drop: "feeds M g t nb \<Longrightarrow> t' = t + k \<Longrightarrow> feeds M g t' (drop k nb)"
  unfolding feeds_def
proof (intro allI impI)
  fix p
  assume f: "\<forall>p. t \<le> p \<and> p < slots M \<longrightarrow> p - t < length nb \<and> nb ! (p - t) = g (slot_at p)" and "t' = t + k" "t' \<le> p \<and> p < slots M"
  then obtain d where "p = t + k + d" "p < slots M" by (metis le_Suc_ex)
  with f [rule_format, of p] \<open>t' = t + k\<close> show "p - t' < length (drop k nb) \<and> drop k nb ! (p - t') = g (slot_at p)"
    by auto
qed

lemma feeds_nth:
  assumes "feeds M g t nb" and "slot_pos s = t + k" and "slot_in M s"
  shows "k < length nb" and "nb ! k = g s"
  using assms(1) [unfolded feeds_def, rule_format, of "slot_pos s", unfolded slot_at_pos] assms(2,3)
  by (auto simp: slot_in_iff simp del: slot_pos.simps)

lemma feeds_Cons:
  assumes "feeds M g (slot_pos s) nb" and "slot_in M s"
  obtains rest where "nb = g s # rest" and "feeds M g (slot_pos s + 1) rest"
proof (cases nb)
  case Nil
  then show thesis using feeds_nth [OF assms(1) _ assms(2), of 0] by simp
next
  case (Cons x rest)
  then have "x = g s" using feeds_nth [OF assms(1) _ assms(2), of 0] by simp
  then show thesis using that [of rest] feeds_drop [OF assms(1) refl, of 1] Cons by simp
qed

lemma fill_blocks_ok:
  assumes "bound \<le> length arr" and "current \<le> bound" and "bound - current \<le> length nb"
  shows "fill_blocks current bound arr nb
    = Inr (bound, overwrite current (take (bound - current) nb) arr, drop (bound - current) nb)"
  using assms
proof (induction "bound - current" arbitrary: current arr nb)
  case 0
  then show ?case by (subst fill_blocks.simps) (simp add: overwrite_def)
next
  case (Suc k)
  then obtain x rest where nb: "nb = x # rest" by (cases nb) auto
  have lt: "current < bound" using Suc.hyps(2) by simp
  have k: "bound - current = Suc (bound - (current + 1))" using lt by simp
  have "fill_blocks (current + 1) bound (arr[current := x]) rest
      = Inr (bound, overwrite (current + 1) (take (bound - (current + 1)) rest) (arr[current := x]), drop (bound - (current + 1)) rest)"
    using Suc nb lt by (intro Suc.hyps(1)) (auto simp: nb)
  moreover have "overwrite (current + 1) (take (bound - (current + 1)) rest) (arr[current := x])
      = overwrite current (take (bound - current) nb) arr"
    using Suc.prems lt nb k
    by (intro nth_equalityI) (auto simp: nth_overwrite nth_list_update nth_Cons' less_Suc_eq)
  ultimately show ?case
    using lt Suc.prems(1) nb k by (subst fill_blocks.simps) (simp add: updateE_def)
qed

lemma fill_blocks_none: "bound \<le> current \<Longrightarrow> fill_blocks current bound arr nb = Inr (current, arr, nb)"
  by (subst fill_blocks.simps) simp

lemma fill_data:
  assumes arr: "length arr = L" "\<forall>i < current. arr ! i = g (Data (\<beta> + i))" and bound: "current \<le> bound" "bound \<le> L"
    and pos: "\<forall>i < bound. slot_in M (Data (\<beta> + i)) \<and> slot_pos (Data (\<beta> + i)) = \<pi> + i" and f: "feeds M g (\<pi> + current) nb"
  obtains arr' where "fill_blocks current bound arr nb = Inr (bound, arr', drop (bound - current) nb)"
    and "length arr' = L" and "\<forall>i < bound. arr' ! i = g (Data (\<beta> + i))"
    and "feeds M g (\<pi> + bound) (drop (bound - current) nb)"
proof -
  have nth: "k < length nb \<and> nb ! k = g (Data (\<beta> + (current + k)))" if "k < bound - current" for k
    using feeds_nth [OF f, of "Data (\<beta> + (current + k))" k] pos that by (simp del: slot_pos.simps)
  have len: "bound - current \<le> length nb"
    using nth [of "bound - current - 1"] by (cases "bound - current") auto
  show thesis
  proof (rule that [OF fill_blocks_ok])
    show "feeds M g (\<pi> + bound) (drop (bound - current) nb)"
      using bound(1) by (intro feeds_drop [OF f]) simp
    show "\<forall>i < bound. overwrite current (take (bound - current) nb) arr ! i = g (Data (\<beta> + i))"
    proof (intro allI impI)
      fix i
      assume i: "i < bound"
      show "overwrite current (take (bound - current) nb) arr ! i = g (Data (\<beta> + i))"
        using i arr bound len nth [of "i - current"]
        by (cases "i < current") (simp_all add: nth_overwrite)
    qed
  qed (use arr bound len in auto)
qed

lemma fill_direct:
  assumes "length arr = 28" "\<forall>i < min m 28. arr ! i = g (Data i)" "m \<le> M" "feeds M g (slots m) nb"
  obtains arr' nb' where "fill_blocks m (min M 28) arr nb = Inr (max m (min M 28), arr', nb')" and "length arr' = 28"
    and "\<forall>i < min M 28. arr' ! i = g (Data i)" and "28 < M \<longrightarrow> feeds M g (if m \<le> 28 then 28 else slots m) nb'"
proof (cases "m \<le> 28")
  case True
  then have sm: "slots m = m" by (simp add: slots_def)
  obtain arr' where "fill_blocks m (min M 28) arr nb = Inr (min M 28, arr', drop (min M 28 - m) nb)" "length arr' = 28"
    "\<forall>i < min M 28. arr' ! i = g (Data (0 + i))" "feeds M g (0 + min M 28) (drop (min M 28 - m) nb)"
    by (rule fill_data [of arr 28 m g 0 "min M 28" M 0 nb]) (use assms True sm in auto)
  then show thesis using True assms(3) by (intro that) (auto simp: min_def)
next
  case False
  then show thesis using assms by (intro that [of arr nb]) (auto intro: fill_blocks_none)
qed

lemma fill_ind1:
  assumes "length arr = 128" "\<forall>i < min (m - 28) 128. arr ! i = g (Data (28 + i))" "m \<le> M" "28 < M"
    "feeds M g (if m \<le> 28 then 29 else slots m) nb"
  obtains arr' nb' where "fill_blocks (m - 28) (min (M - 28) 128) arr nb = Inr (max (m - 28) (min (M - 28) 128), arr', nb')"
    and "length arr' = 128" and "\<forall>i < min (M - 28) 128. arr' ! i = g (Data (28 + i))"
    and "156 < M \<longrightarrow> feeds M g (if m \<le> 156 then 157 else slots m) nb'"
proof (cases "m \<le> 156")
  case True
  then have sm: "(if m \<le> 28 then 29 else slots m) = 29 + (m - 28)" by (simp add: slots_def)
  let ?b = "min (M - 28) 128"
  obtain arr' where r: "fill_blocks (m - 28) ?b arr nb = Inr (?b, arr', drop (?b - (m - 28)) nb)" "length arr' = 128"
    "\<forall>i < ?b. arr' ! i = g (Data (28 + i))" "feeds M g (29 + ?b) (drop (?b - (m - 28)) nb)"
    by (rule fill_data [of arr 128 "m - 28" g 28 ?b M 29 nb]) (use assms True sm in auto)
  have "max (m - 28) ?b = ?b" "156 < M \<Longrightarrow> 29 + ?b = 157" using True assms(3,4) by auto
  with r True show thesis by (intro that [of arr' "drop (?b - (m - 28)) nb"]) metis+
next
  case False
  then show thesis using assms by (intro that [of arr nb]) (auto intro: fill_blocks_none)
qed

text \<open>The positions below the second index block, after its first \<open>j\<close> data blocks.\<close>

definition sub_pos :: "nat \<Rightarrow> nat" where
  "sub_pos j = 158 + j + (j + 127) div 128"

lemma sub_pos_Sub: "j mod 128 = 0 \<Longrightarrow> sub_pos j = slot_pos (Sub (j div 128))"
  by (auto simp: sub_pos_def elim!: dvdE simp flip: dvd_eq_mod_eq_0)

lemma sub_pos_Data: "slot_pos (Data (156 + j)) = (if j mod 128 = 0 then sub_pos j + 1 else sub_pos j)"
proof -
  define q r where "q = j div 128" and "r = j mod 128"
  have "j = q * 128 + r" "r < 128" by (simp_all add: q_def r_def)
  then have "(j + 127) div 128 = (if r = 0 then q else q + 1)" by (cases r) auto
  then have c: "(j + 127) div 128 = (if j mod 128 = 0 then j div 128 else j div 128 + 1)" by (simp add: q_def r_def)
  show ?thesis by (simp add: sub_pos_def c)
qed

lemma sub_pos_Suc: "sub_pos (Suc j) = slot_pos (Data (156 + j)) + 1"
proof -
  have "(Suc j + 127) div 128 = j div 128 + 1" by linarith
  then show ?thesis by (simp add: sub_pos_def)
qed

text \<open>
  The state of the loop over the blocks below the second index block, after \<open>j\<close> data blocks.
\<close>

definition ind2_inv :: "nat \<Rightarrow> (slot \<Rightarrow> u32) \<Rightarrow> nat \<Rightarrow> u32 list \<Rightarrow> (nat \<Rightarrow> u8 list) \<Rightarrow> bool" where
  "ind2_inv M g j ind2 V \<longleftrightarrow> length ind2 = 128
     \<and> (\<forall>a. 128 * a < j \<longrightarrow> ind2 ! a = g (Sub a))
     \<and> (\<forall>i < j. indirect (V (unat (g (Sub (i div 128))))) ! (i mod 128) = g (Data (156 + i)))"

text \<open>The blocks chosen for the places are on the disk and pairwise different.\<close>

definition slots_ok :: "nat \<Rightarrow> nat \<Rightarrow> (slot \<Rightarrow> u32) \<Rightarrow> bool" where
  "slots_ok n M g \<longleftrightarrow> M \<le> max_blocks
     \<and> (\<forall>s. slot_in M s \<longrightarrow> unat (g s) < n)
     \<and> (\<forall>s t. slot_in M s \<and> slot_in M t \<and> unat (g s) = unat (g t) \<longrightarrow> s = t)"

lemma ind2_sub_step:
  assumes "j mod 128 = 0 \<longrightarrow> slot_in M (Sub (j div 128))" and j: "156 + j < M" "j < 16384"
    and inv: "ind2_inv M g j ind2 V" and f: "feeds M g (sub_pos j) nb"
  obtains ind2' rest where
    "(if j mod 128 = 0 then
        rbind (case nb of [] \<Rightarrow> Inl UnwrapNone | x # rest \<Rightarrow> Inr (x, rest)) (\<lambda>(x, rest).
        rbind (updateE ind2 (j div 128) x) (\<lambda>ind2'. Inr (ind2', rest)))
      else Inr (ind2, nb)) = Inr (ind2', g (Data (156 + j)) # rest)"
    and "length ind2' = 128" and "\<forall>a. 128 * a < Suc j \<longrightarrow> ind2' ! a = g (Sub a)" and "feeds M g (sub_pos (Suc j)) rest"
proof -
  have sd: "slot_in M (Data (156 + j))" using j by simp
  have ja: "j div 128 < 128" using j by (simp add: less_mult_imp_div_less)
  show thesis
  proof (cases "j mod 128 = 0")
    case True
    with f assms(1) obtain rest1 where r1: "nb = g (Sub (j div 128)) # rest1" "feeds M g (sub_pos j + 1) rest1"
      using feeds_Cons [of M g "Sub (j div 128)" nb] sub_pos_Sub [OF True] by metis
    with True obtain rest where r2: "rest1 = g (Data (156 + j)) # rest" "feeds M g (slot_pos (Data (156 + j)) + 1) rest"
      using feeds_Cons [OF _ sd, of g rest1] sub_pos_Data [of j] by metis
    let ?i = "ind2[j div 128 := g (Sub (j div 128))]"
    have "?i ! a = g (Sub a)" if "128 * a < Suc j" for a
    proof (cases "128 * a < j")
      case True
      with inv ja show ?thesis by (cases "a = j div 128") (auto simp: ind2_inv_def)
    next
      case False
      with that have "j = 128 * a" by simp
      with inv ja show ?thesis by (simp add: ind2_inv_def)
    qed
    then show thesis
      using True r1 r2 inv ja sub_pos_Suc [of j]
      by (intro that [of ?i rest]) (auto simp: ind2_inv_def updateE_def simp del: slot_pos.simps)
  next
    case False
    with f obtain rest where r: "nb = g (Data (156 + j)) # rest" "feeds M g (slot_pos (Data (156 + j)) + 1) rest"
      using feeds_Cons [OF _ sd, of g nb] sub_pos_Data [of j] by metis
    have "128 * a < j" if "128 * a < Suc j" for a
      using that False by (metis less_antisym mod_mult_self1_is_0)
    then show thesis
      using False r inv sub_pos_Suc [of j]
      by (intro that [of ind2 rest]) (auto simp: ind2_inv_def simp del: slot_pos.simps)
  qed
qed

lemma ind2_data_step:
  assumes ok: "slots_ok n M g" and d: "disk_ok n V" and j: "156 + j < M"
    and inv: "ind2_inv M g j ind2 V" and ind2': "length ind2' = 128" "\<forall>a. 128 * a < Suc j \<longrightarrow> ind2' ! a = g (Sub a)"
  defines "b \<equiv> unat (g (Sub (j div 128)))"
  defines "V' \<equiv> V(b := enc_words 4 ((indirect (V b))[j mod 128 := g (Data (156 + j))]))"
  shows "ind2_inv M g (Suc j) ind2' V'" and "disk_ok n V'"
proof -
  have sin: "slot_in M (Sub (i div 128))" if "i \<le> j" for i
    using that j div_times_less_eq_dividend [of i 128] by (simp add: mult.commute)
  have other: "unat (g (Sub (i div 128))) = b \<longleftrightarrow> i div 128 = j div 128" if "i \<le> j" for i
    unfolding b_def using ok [unfolded slots_ok_def] sin [OF that] sin [OF le_refl] by (metis slot.inject(2))
  have Vb: "indirect (V' b) = (indirect (V b))[j mod 128 := g (Data (156 + j))]"
    using dec_enc_words [of 4 "(indirect (V b))[j mod 128 := g (Data (156 + j))]"] by (simp add: V'_def)
  have "indirect (V' (unat (g (Sub (i div 128))))) ! (i mod 128) = g (Data (156 + i))" if i: "i < Suc j" for i
  proof (cases "i = j")
    case True
    then show ?thesis using Vb by (simp add: b_def)
  next
    case False
    with i have old: "indirect (V (unat (g (Sub (i div 128))))) ! (i mod 128) = g (Data (156 + i))"
      using inv by (simp add: ind2_inv_def)
    show ?thesis
    proof (cases "i div 128 = j div 128")
      case True
      with False have "i mod 128 \<noteq> j mod 128" by (metis div_mult_mod_eq)
      with True old Vb show ?thesis by (simp add: b_def)
    next
      case False
      with other [of i] i have "unat (g (Sub (i div 128))) \<noteq> b" by simp
      with old show ?thesis by (simp add: V'_def)
    qed
  qed
  with ind2' show "ind2_inv M g (Suc j) ind2' V'" by (simp add: ind2_inv_def)
  show "disk_ok n V'" using d by (simp add: V'_def disk_ok_def)
qed

context block_device
begin

lemma fill_indirect2_runs:
  assumes ok: "slots_ok n M g" and H: "length H < 16" "\<forall>a. slot_in M (Sub a) \<longrightarrow> unat (g (Sub a)) \<notin> fst ` set H"
    and "disk_ok n V" and J: "M = 156 + J" and "j \<le> J"
    and "ind2_inv M g j ind2 V" and "feeds M g (sub_pos j) nb"
  shows "\<exists>ind2' rest V'.
      runs n H (fill_indirect2 D (J - j) (j div 128) (j mod 128) (J div 128) (J mod 128) ind2 nb) V (ind2', rest) V'
    \<and> ind2_inv M g J ind2' V' \<and> disk_ok n V'
    \<and> (\<forall>b. V' b \<noteq> V b \<longrightarrow> (\<exists>a. 128 * a < J \<and> b = unat (g (Sub a))))"
  using assms(4,6-)
proof (induction "J - j" arbitrary: j ind2 nb V)
  case 0
  then show ?case by (intro exI [of _ ind2] exI [of _ nb] exI [of _ V] conjI) auto
next
  case (Suc k)
  have lt: "j < J" using Suc.hyps(2) by simp
  have Jb: "J \<le> 16384" using ok J by (simp add: slots_ok_def)
  have aj: "128 * (j div 128) \<le> j" by simp
  have sub: "slot_in M (Sub (j div 128))" using lt J aj by simp
  let ?b = "unat (g (Sub (j div 128)))"
  have b: "?b < n" "?b \<notin> fst ` set H" using ok H(2) sub by (auto simp: slots_ok_def)
  have h: "j mod 128 = 0 \<longrightarrow> slot_in M (Sub (j div 128))" "156 + j < M" "j < 16384"
    using lt J Jb sub by auto
  obtain ind2' rest where st: "(if j mod 128 = 0 then
        rbind (case nb of [] \<Rightarrow> Inl UnwrapNone | x # rest \<Rightarrow> Inr (x, rest)) (\<lambda>(x, rest).
        rbind (updateE ind2 (j div 128) x) (\<lambda>ind2'. Inr (ind2', rest)))
      else Inr (ind2, nb)) = Inr (ind2', g (Data (156 + j)) # rest)"
    and i2: "length ind2' = 128" "\<forall>a. 128 * a < Suc j \<longrightarrow> ind2' ! a = g (Sub a)"
    and f: "feeds M g (sub_pos (Suc j)) rest"
    by (rule ind2_sub_step [OF h Suc.prems(3,4)])
  let ?ws = "(indirect (V ?b))[j mod 128 := g (Data (156 + j))]"
  let ?V = "V(?b := enc_words 4 ?ws)"
  note ds = ind2_data_step [OF ok Suc.prems(1) h(2) Suc.prems(3) i2]
  have k: "k = J - Suc j" "J - j = Suc (J - Suc j)" using lt Suc.hyps(2) by auto
  from Suc.hyps(1) [OF k(1) ds(2) _ ds(1) f] lt obtain ind3 rest3 V3 where
    r3: "runs n H (fill_indirect2 D (J - Suc j) (Suc j div 128) (Suc j mod 128) (J div 128) (J mod 128) ind2' rest) ?V (ind3, rest3) V3"
    and c3: "ind2_inv M g J ind3 V3" "disk_ok n V3" "\<forall>b. V3 b \<noteq> ?V b \<longrightarrow> (\<exists>a. 128 * a < J \<and> b = unat (g (Sub a)))"
    by (metis Suc_leI)
  have lb: "length (V ?b) = 512" using Suc.prems(1) b by (simp add: disk_ok_def)
  have md: "runs n H (cache_modify D ?b 0 512 (\<lambda>bs. a_res
            (rbind (case g (Data (156 + j)) # rest of [] \<Rightarrow> Inl UnwrapNone | x # rest' \<Rightarrow> Inr (x, rest')) (\<lambda>(x, rest').
             rbind (updateE (indirect bs) (j mod 128) x) (\<lambda>indirect1.
             Inr (rest', enc_words 4 indirect1)))))) V rest (V(?b := overwrite 0 (enc_words 4 ?ws) (V ?b)))"
    by (intro runs_modify [OF b H(1)] runs_res) (simp_all add: updateE_def)
  have tail: "runs n H (if j mod 128 + 1 = INODE_INDIRECT1_COUNT
       then fill_indirect2 D (J - Suc j) (j div 128 + 1) 0 (J div 128) (J mod 128) ind2' rest
       else fill_indirect2 D (J - Suc j) (j div 128) (j mod 128 + 1) (J div 128) (J mod 128) ind2' rest) ?V (ind3, rest3) V3"
    using r3 by (cases "j mod 128 = 127") (simp_all add: INODE_INDIRECT1_COUNT_def BLOCK_SZ_def div_Suc mod_Suc)
  have ix: "indexE ind2' (j div 128) = Inr (g (Sub (j div 128)))" using i2 aj Jb lt by (simp add: indexE_def less_mult_imp_div_less)
  have cond: "j div 128 < J div 128 \<or> j div 128 = J div 128 \<and> j mod 128 < J mod 128"
    using lt by (metis div_le_mono div_mult_mod_eq le_less less_imp_le_nat nat_add_left_cancel_less)
  have "runs n H (fill_indirect2 D (J - j) (j div 128) (j mod 128) (J div 128) (J mod 128) ind2 nb) V (ind3, rest3) V3"
    unfolding k(2) fill_indirect2.simps if_P [OF cond] Let_def
    using md tail ix lb by (intro runs_bind [OF runs_res [OF st]]) (auto intro!: runs_bind simp: overwrite_def)
  moreover have "\<exists>a. 128 * a < J \<and> b = unat (g (Sub a))" if "V3 b \<noteq> V b" for b
    using that c3(3) aj lt by (cases "b = ?b") (auto intro!: exI [of _ "j div 128"])
  ultimately show ?case using c3(1,2) by (intro exI [of _ ind3] exI [of _ rest3] exI [of _ V3] conjI) auto
qed

text \<open>
  \<^verbatim>\<open>increase_size\<close>. The inode has \<open>m\<close> data blocks and is to have \<open>M\<close>; \<open>g\<close> gives the block of each place
  in the end: the old blocks for the old places, the new ones in order for the others.
\<close>

definition grow_ok :: "nat \<Rightarrow> (nat \<times> bool) list \<Rightarrow> (nat \<Rightarrow> u8 list) \<Rightarrow> disk_inode \<Rightarrow> nat \<Rightarrow> nat \<Rightarrow> (slot \<Rightarrow> u32) \<Rightarrow> u32 list \<Rightarrow> bool" where
  "grow_ok n H V di m M g nb \<longleftrightarrow> length (di_direct di) = 28 \<and> m \<le> M \<and> slots_ok n M g
     \<and> (\<forall>s. slot_in M s \<longrightarrow> unat (g s) \<notin> fst ` set H)
     \<and> (\<forall>s. slot_in m s \<longrightarrow> slot_val V di s = g s) \<and> feeds M g (slots m) nb \<and> disk_ok n V"

lemma grow_sub_runs:
  assumes ok: "grow_ok n H V di m M g nb" and M: "156 < M" and H: "length H < 15"
    and V1: "\<forall>b. b \<noteq> unat (g Ind1) \<longrightarrow> V1 b = V b" "disk_ok n V1"
    and f: "feeds M g (sub_pos (m - 156)) nb4"
  defines "b2 \<equiv> unat (g Ind2)"
  shows "\<exists>V2. runs n H (cache_modify D b2 0 512 (\<lambda>bs.
       a_bind (fill_indirect2 D (M - 156 - (m - 156)) ((m - 156) div 128) ((m - 156) mod 128)
           ((M - 156) div 128) ((M - 156) mod 128) (indirect bs) nb4)
         (\<lambda>(indirect2, _). a_ret ((), enc_words 4 indirect2)))) V1 () V2
    \<and> disk_ok n V2
    \<and> (\<forall>i. 156 + i < M \<longrightarrow> indirect (V2 b2) ! (i div 128) = g (Sub (i div 128))
        \<and> indirect (V2 (unat (g (Sub (i div 128))))) ! (i mod 128) = g (Data (156 + i)))
    \<and> (\<forall>b. V2 b \<noteq> V1 b \<longrightarrow> b = b2 \<or> (\<exists>a. slot_in M (Sub a) \<and> b = unat (g (Sub a))))"
proof -
  let ?H = "(b2, True) # H"
  have sok: "slots_ok n M g" and nH: "\<forall>s. slot_in M s \<longrightarrow> unat (g s) \<notin> fst ` set H"
    and old: "\<And>s. slot_in m s \<Longrightarrow> slot_val V di s = g s" and mM: "m \<le> M" and sf: "length (di_direct di) = 28"
    using ok by (auto simp: grow_ok_def)
  have inj: "s = t" if "slot_in M s" "slot_in M t" "unat (g s) = unat (g t)" for s t
    using sok that unfolding slots_ok_def by blast
  have i2: "slot_in M Ind2" and i1: "slot_in M Ind1" using M by auto
  have b2: "b2 < n" "b2 \<notin> fst ` set H" using sok nH i2 by (auto simp: slots_ok_def b2_def)
  have sub_ne: "unat (g (Sub a)) \<noteq> b2" if "slot_in M (Sub a)" for a
    using inj [OF that i2] by (auto simp: b2_def)
  have sub1: "V1 (unat (g (Sub a))) = V (unat (g (Sub a)))" if "slot_in M (Sub a)" for a
    using inj [OF that i1] V1(1) by auto
  have b21: "V1 b2 = V b2" using inj [OF i1 i2] V1(1) by (metis b2_def slot.distinct(7))
  have inv: "ind2_inv M g (m - 156) (indirect (V1 b2)) V1"
    unfolding ind2_inv_def
  proof (intro conjI allI impI)
    fix a
    assume "128 * a < m - 156"
    then have a: "slot_in m (Sub a)" "slot_in m Ind2" by auto
    show "indirect (V1 b2) ! a = g (Sub a)" using old [OF a(1)] old [OF a(2)] b21 by (simp add: b2_def)
  next
    fix i
    assume i: "i < m - 156"
    then have s: "slot_in m (Data (156 + i))" "slot_in m (Sub (i div 128))" "slot_in m Ind2"
      using slot_in_ix(3) [of "156 + i" m] by (auto simp: sub_of_def)
    then have "slot_in M (Sub (i div 128))" using mM by auto
    from old [OF s(1)] old [OF s(2)] sub1 [OF this]
    show "indirect (V1 (unat (g (Sub (i div 128))))) ! (i mod 128) = g (Data (156 + i))"
      by (simp add: slot_val_Data sub_of_def)
  qed simp
  have nH2: "\<forall>a. slot_in M (Sub a) \<longrightarrow> unat (g (Sub a)) \<notin> fst ` set ?H" using nH sub_ne by auto
  have "M = 156 + (M - 156)" "m - 156 \<le> M - 156" "length ?H < 16" using M mM H by auto
  from fill_indirect2_runs [OF sok this(3) nH2 V1(2) this(1,2) inv f] obtain ind2' rest V2 where
    r: "runs n ?H (fill_indirect2 D (M - 156 - (m - 156)) ((m - 156) div 128) ((m - 156) mod 128)
           ((M - 156) div 128) ((M - 156) mod 128) (indirect (V1 b2)) nb4) V1 (ind2', rest) V2"
    and iv: "ind2_inv M g (M - 156) ind2' V2" and d2: "disk_ok n V2"
    and fr: "\<forall>b. V2 b \<noteq> V1 b \<longrightarrow> (\<exists>a. 128 * a < M - 156 \<and> b = unat (g (Sub a)))" by blast
  have len: "length ind2' = 128" "length (V2 b2) = 512" using iv d2 b2 by (auto simp: ind2_inv_def disk_ok_def)
  let ?V2 = "V2(b2 := enc_words 4 ind2')"
  have "runs n H (cache_modify D b2 0 512 (\<lambda>bs.
       a_bind (fill_indirect2 D (M - 156 - (m - 156)) ((m - 156) div 128) ((m - 156) mod 128)
           ((M - 156) div 128) ((M - 156) mod 128) (indirect bs) nb4)
         (\<lambda>(indirect2, _). a_ret ((), enc_words 4 indirect2)))) V1 () (V2(b2 := overwrite 0 (enc_words 4 ind2') (V2 b2)))"
    using r H len(1) by (intro runs_modify [OF b2] runs_bind [where v = "(ind2', rest)"]) auto
  moreover have ow: "overwrite 0 (enc_words 4 ind2') (V2 b2) = enc_words 4 ind2'"
    using len by (simp add: overwrite_def)
  ultimately have run: "runs n H (cache_modify D b2 0 512 (\<lambda>bs.
       a_bind (fill_indirect2 D (M - 156 - (m - 156)) ((m - 156) div 128) ((m - 156) mod 128)
           ((M - 156) div 128) ((M - 156) mod 128) (indirect bs) nb4)
         (\<lambda>(indirect2, _). a_ret ((), enc_words 4 indirect2)))) V1 () ?V2" by simp
  have d: "disk_ok n ?V2" using d2 len by (simp add: disk_ok_def)
  have e2: "indirect (?V2 b2) = ind2'" using dec_enc_words [of 4 ind2'] len by simp
  have vals: "indirect (?V2 b2) ! (i div 128) = g (Sub (i div 128))
        \<and> indirect (?V2 (unat (g (Sub (i div 128))))) ! (i mod 128) = g (Data (156 + i))" if i: "156 + i < M" for i
  proof -
    have s: "slot_in M (Sub (i div 128))" using i slot_in_ix(3) [of "156 + i" M] by (simp add: sub_of_def)
    then have "128 * (i div 128) < M - 156" by simp
    with iv i sub_ne [OF s] show ?thesis unfolding e2 by (simp add: ind2_inv_def)
  qed
  have "b = b2 \<or> (\<exists>a. slot_in M (Sub a) \<and> b = unat (g (Sub a)))" if ch: "?V2 b \<noteq> V1 b" for b
  proof (cases "b = b2")
    case False
    with ch fr obtain a where "128 * a < M - 156" "b = unat (g (Sub a))" by auto
    moreover from this(1) have "slot_in M (Sub a)" by simp
    ultimately show ?thesis by blast
  qed simp
  with run d vals show ?thesis by blast
qed

lemma next_block:
  assumes "slot_in M s" and "feeds M g (if new then slot_pos s else t) nb" and "\<not> new \<Longrightarrow> x = g s"
  obtains rest where "(if new then (case nb of [] \<Rightarrow> Inl UnwrapNone | y # rest \<Rightarrow> Inr (h y, rest)) else Inr (h x, nb)) = Inr (h (g s), rest)"
    and "feeds M g (if new then slot_pos s + 1 else t) rest"
proof (cases new)
  case True
  then obtain rest where "nb = g s # rest" "feeds M g (slot_pos s + 1) rest"
    using assms feeds_Cons [of M g s nb] by auto
  then show thesis using True by (intro that [of rest]) auto
qed (use assms that [of nb] in auto)

lemma increase_size_runs:
  assumes ok: "grow_ok n H V di m M g nb" and H: "length H < 15"
    and m: "m = unat (di_data_blocks di)" and M: "M = unat (size_data_blocks new_size)"
  shows "\<exists>di' V'. runs n H (di_increase_size D new_size nb di) V di' V' \<and> disk_ok n V'
    \<and> length (di_direct di') = 28 \<and> di_size di' = new_size \<and> di_type di' = di_type di
    \<and> (\<forall>s. slot_in M s \<longrightarrow> slot_val V' di' s = g s)
    \<and> (\<forall>b. V' b \<noteq> V b \<longrightarrow> (\<exists>s. slot_in M s \<and> (\<forall>i. s \<noteq> Data i) \<and> b = unat (g s)))"
proof -
  have sok: "slots_ok n M g" and nH: "\<forall>s. slot_in M s \<longrightarrow> unat (g s) \<notin> fst ` set H" and d: "disk_ok n V"
    and old: "\<And>s. slot_in m s \<Longrightarrow> slot_val V di s = g s" and mM: "m \<le> M" and len: "length (di_direct di) = 28"
    and f: "feeds M g (slots m) nb"
    using ok by (auto simp: grow_ok_def)
  let ?di1 = "di\<lparr>di_size := new_size\<rparr>"
  have o1: "\<forall>i < min m 28. di_direct di ! i = g (Data i)"
  proof (intro allI impI)
    fix i assume "i < min m 28"
    with old [of "Data i"] show "di_direct di ! i = g (Data i)" by (simp add: slot_val_Data)
  qed
  obtain direct nb1 where s1: "fill_blocks m (min M 28) (di_direct di) nb = Inr (max m (min M 28), direct, nb1)"
    and l1: "length direct = 28" and v1: "\<forall>i < min M 28. direct ! i = g (Data i)"
    and f1: "28 < M \<longrightarrow> feeds M g (if m \<le> 28 then 28 else slots m) nb1"
    by (rule fill_direct [OF len o1 mM f])
  let ?di2 = "?di1\<lparr>di_direct := direct\<rparr>"
  note sz = INODE_DIRECT_COUNT_def INODE_INDIRECT1_COUNT_def BLOCK_SZ_def
  have dm: "unat (di_data_blocks di) = m" "unat (di_data_blocks ?di1) = M" by (simp_all add: m M di_data_blocks_def)
  show ?thesis
  proof (cases "28 < M")
    case False
    have "runs n H (di_increase_size D new_size nb di) V ?di2 V"
      unfolding di_increase_size_def Let_def dm sz using False s1
      by (auto intro!: runs_bind)
    moreover have "slot_val V ?di2 s = g s" if "slot_in M s" for s
      using that False v1 by (cases s) (auto simp: slot_val_Data)
    ultimately show ?thesis using d l1 by (intro exI [of _ ?di2] exI [of _ V] conjI) auto
  next
    case True
    let ?b1 = "unat (g Ind1)" and ?di3 = "?di2\<lparr>di_indirect1 := g Ind1\<rparr>"
    have i1: "slot_in M Ind1" using True by simp
    have o2: "di_indirect1 di = g Ind1" if "\<not> m \<le> 28" using old [of Ind1] that by simp
    have f1': "feeds M g (if m \<le> 28 then slot_pos Ind1 else slots m) nb1" using f1 True by (auto split: if_splits)
    obtain nb2 where s2: "(if m \<le> 28 then (case nb1 of [] \<Rightarrow> Inl UnwrapNone | x # rest \<Rightarrow> Inr (?di2\<lparr>di_indirect1 := x\<rparr>, rest))
        else Inr (?di2\<lparr>di_indirect1 := di_indirect1 di\<rparr>, nb1)) = Inr (?di3, nb2)"
      and f2: "feeds M g (if m \<le> 28 then slot_pos Ind1 + 1 else slots m) nb2"
      by (rule next_block [OF i1 f1' o2])
    have o3: "\<forall>i < min (m - 28) 128. indirect (V ?b1) ! i = g (Data (28 + i))"
    proof (intro allI impI)
      fix i assume i: "i < min (m - 28) 128"
      then have "28 + i < m" "i < 128" by auto
      with old [of "Data (28 + i)"] o2 show "indirect (V ?b1) ! i = g (Data (28 + i))" by (simp add: slot_val_Data)
    qed
    have f2': "feeds M g (if m \<le> 28 then 29 else slots m) nb2" using f2 by (auto split: if_splits)
    obtain ws nb3 where s3: "fill_blocks (m - 28) (min (M - 28) 128) (indirect (V ?b1)) nb2
        = Inr (max (m - 28) (min (M - 28) 128), ws, nb3)" and l3: "length ws = 128"
      and v3: "\<forall>i < min (M - 28) 128. ws ! i = g (Data (28 + i))"
      and f3: "156 < M \<longrightarrow> feeds M g (if m \<le> 156 then 157 else slots m) nb3"
      by (rule fill_ind1 [OF length_dec_words o3 mM True f2'])
    have b1: "?b1 < n" "?b1 \<notin> fst ` set H" "length H < 16" using sok nH i1 H by (auto simp: slots_ok_def)
    let ?V1 = "V(?b1 := enc_words 4 ws)"
    have lb1: "length (V ?b1) = 512" using d b1 by (simp add: disk_ok_def)
    have d1: "disk_ok n ?V1" using d l3 by (simp add: disk_ok_def)
    have e1: "indirect (enc_words 4 ws) = ws" using dec_enc_words [of 4 ws] l3 by simp
    have "runs n H (cache_modify D ?b1 0 512 (\<lambda>bs.
        a_bind (a_res (fill_blocks (m - 28) (min (M - 28) 128) (indirect bs) nb2))
          (\<lambda>(current3, indirect1, nb3). a_ret ((current3, nb3), enc_words 4 indirect1)))) V
        (max (m - 28) (min (M - 28) 128), nb3) (V(?b1 := overwrite 0 (enc_words 4 ws) (V ?b1)))"
      using s3 l3 by (intro runs_modify [OF b1] runs_bind [OF runs_res]) auto
    then have r3: "runs n H (cache_modify D ?b1 0 512 (\<lambda>bs.
        a_bind (a_res (fill_blocks (m - 28) (min (M - 28) 128) (indirect bs) nb2))
          (\<lambda>(current3, indirect1, nb3). a_ret ((current3, nb3), enc_words 4 indirect1)))) V
        (max (m - 28) (min (M - 28) 128), nb3) ?V1"
      using lb1 l3 by (simp add: overwrite_def)
    have pre: "(max m (min M 28) = 28) = (m \<le> 28)" "max m (min M 28) - 28 = m - 28" using True by auto
    have e: "512 div (4::nat) = 128" by simp
    have s1': "fill_blocks m (min M 28) (di_direct ?di1) nb = Inr (max m (min M 28), direct, nb1)" using s1 by simp
    have i3: "di_indirect1 ?di3 = g Ind1" by simp
    have s2': "(if max m (min M 28) = 28 then (case nb1 of [] \<Rightarrow> Inl UnwrapNone | x # rest \<Rightarrow> Inr (?di2\<lparr>di_indirect1 := x\<rparr>, rest))
        else Inr (?di2, nb1)) = Inr (?di3, nb2)"
      using s2 by (simp add: pre(1) split: if_splits)
    show ?thesis
    proof (cases "156 < M")
      case M2: False
      then have nM: "\<not> 128 < M - 28" by simp
      have "runs n H (di_increase_size D new_size nb di) V ?di3 ?V1"
        unfolding di_increase_size_def Let_def dm sz
        by (rule runs_bind [OF runs_res [OF s1']], simp only: prod.case if_P [OF True] pre(2) e,
            rule runs_bind [OF runs_res [OF s2']], simp only: prod.case i3,
            rule runs_bind [OF r3], simp only: prod.case if_not_P [OF nM], rule runs_ret)
      moreover have "slot_val ?V1 ?di3 s = g s" if "slot_in M s" for s
        using that M2 v1 v3 e1 by (cases s) (auto simp: slot_val_Data)
      ultimately show ?thesis using d1 l1 i1
        by (intro exI [of _ ?di3] exI [of _ ?V1] conjI) (auto intro!: exI [of _ Ind1])
    next
      case M2: True
      let ?b2 = "unat (g Ind2)" and ?di4 = "?di3\<lparr>di_indirect2 := g Ind2\<rparr>"
      have i2: "slot_in M Ind2" using M2 by simp
      have o4: "di_indirect2 di = g Ind2" if "\<not> m \<le> 156" using old [of Ind2] that by simp
      have f3': "feeds M g (if m \<le> 156 then slot_pos Ind2 else slots m) nb3" using f3 M2 by (auto split: if_splits)
      obtain nb4 where s4: "(if m \<le> 156 then (case nb3 of [] \<Rightarrow> Inl UnwrapNone | x # rest \<Rightarrow> Inr (?di3\<lparr>di_indirect2 := x\<rparr>, rest))
          else Inr (?di3\<lparr>di_indirect2 := di_indirect2 di\<rparr>, nb3)) = Inr (?di4, nb4)"
        and f4: "feeds M g (if m \<le> 156 then slot_pos Ind2 + 1 else slots m) nb4"
        by (rule next_block [OF i2 f3' o4])
      have pos: "(if m \<le> 156 then slot_pos Ind2 + 1 else slots m) = sub_pos (m - 156)"
        by (simp add: sub_pos_def slots_def)
      have fr1: "\<forall>b. b \<noteq> unat (g Ind1) \<longrightarrow> ?V1 b = V b" by simp
      from grow_sub_runs [OF ok M2 H fr1 d1 f4 [unfolded pos]] obtain V2 where
        r5: "runs n H (cache_modify D ?b2 0 512 (\<lambda>bs.
           a_bind (fill_indirect2 D (M - 156 - (m - 156)) ((m - 156) div 128) ((m - 156) mod 128)
               ((M - 156) div 128) ((M - 156) mod 128) (indirect bs) nb4)
             (\<lambda>(indirect2, _). a_ret ((), enc_words 4 indirect2)))) ?V1 () V2"
        and d5: "disk_ok n V2"
        and v5: "\<forall>i. 156 + i < M \<longrightarrow> indirect (V2 ?b2) ! (i div 128) = g (Sub (i div 128))
          \<and> indirect (V2 (unat (g (Sub (i div 128))))) ! (i mod 128) = g (Data (156 + i))"
        and fr5: "\<forall>b. V2 b \<noteq> ?V1 b \<longrightarrow> b = ?b2 \<or> (\<exists>a. slot_in M (Sub a) \<and> b = unat (g (Sub a)))" by blast
      have pre2: "(max (m - 28) (min (M - 28) 128) = 128) = (m \<le> 156)" "max (m - 28) (min (M - 28) 128) - 128 = m - 156"
        "M - 28 - 128 = M - 156" "128 < M - 28" using True M2 by auto
      have s4': "(if max (m - 28) (min (M - 28) 128) = 128 then (case nb3 of [] \<Rightarrow> Inl UnwrapNone | x # rest \<Rightarrow> Inr (?di3\<lparr>di_indirect2 := x\<rparr>, rest))
          else Inr (?di3, nb3)) = Inr (?di4, nb4)"
        using s4 by (simp add: pre2(1) split: if_splits)
      have i4: "di_indirect2 ?di4 = g Ind2" by simp
      have run: "runs n H (di_increase_size D new_size nb di) V ?di4 V2"
        unfolding di_increase_size_def Let_def dm sz
        by (rule runs_bind [OF runs_res [OF s1']], simp only: prod.case if_P [OF True] pre(2) e,
            rule runs_bind [OF runs_res [OF s2']], simp only: prod.case i3,
            rule runs_bind [OF r3], simp only: prod.case if_P [OF pre2(4)],
            rule runs_bind [OF runs_res [OF s4']], simp only: prod.case i4 pre2(2,3),
            rule runs_bind [OF r5], rule runs_ret)
      have ne: "?b1 \<noteq> unat (g t)" if "slot_in M t" "t \<noteq> Ind1" for t
        using sok i1 that unfolding slots_ok_def by blast
      have vb1: "V2 ?b1 = enc_words 4 ws"
        using fr5 [rule_format, of ?b1] ne [OF i2] ne [of "Sub a" for a] by (auto simp: fun_upd_def)
      have vals: "slot_val V2 ?di4 s = g s" if s: "slot_in M s" for s
      proof (cases s)
        case (Data i)
        consider "i < 28" | "28 \<le> i" "i < 156" | "156 \<le> i" by linarith
        then show ?thesis
        proof cases
          case 2
          then have "i - 28 < min (M - 28) 128" using M2 by simp
          with v3 have "ws ! (i - 28) = g (Data i)" using 2 by auto
          then show ?thesis using Data 2 e1 vb1 by (simp add: slot_val_Data)
        next
          case 3
          then have "156 + (i - 156) < M" using s Data by simp
          with v5 [rule_format, OF this] show ?thesis using Data 3 by (simp add: slot_val_Data sub_of_def)
        qed (use Data v1 True in \<open>simp add: slot_val_Data\<close>)
      next
        case (Sub a)
        with v5 [rule_format, of "128 * a"] s show ?thesis by simp
      qed simp_all
      have fr: "\<exists>s. slot_in M s \<and> (\<forall>i. s \<noteq> Data i) \<and> b = unat (g s)" if "V2 b \<noteq> V b" for b
      proof (cases "V2 b = ?V1 b")
        case True
        with that have "b = ?b1" by (auto split: if_splits)
        then show ?thesis using i1 by (intro exI [of _ Ind1]) simp
      next
        case False
        with fr5 consider "b = ?b2" | a where "slot_in M (Sub a)" "b = unat (g (Sub a))" by blast
        then show ?thesis
        proof cases
          case 1
          then show ?thesis using i2 by (intro exI [of _ Ind2]) simp
        next
          case 2
          then show ?thesis by (intro exI [of _ "Sub a"]) simp
        qed
      qed
      from run d5 l1 vals fr show ?thesis by (intro exI [of _ ?di4] exI [of _ V2] conjI allI impI) simp_all
    qed
  qed
qed

end

end
