(* ===== verification/File_Alloc.thy ===== *)
theory File_Alloc
  imports Vfs Inode_Grow
begin

text \<open>
  Allocation of data blocks for an inode: \<^verbatim>\<open>EasyFileSystem::alloc_data\<close> and \<^verbatim>\<open>Inode::increase_size\<close>.
  A file system with \<open>N\<close> usable data blocks on a disk of \<open>n\<close> blocks; the data bitmap says which of
  them are in use.
\<close>

abbreviation ds :: "easy_fs \<Rightarrow> nat" where "ds fs \<equiv> unat (efs_data_area_start fs)"

definition bm_block :: "bitmap \<Rightarrow> nat \<Rightarrow> bool" where
  "bm_block bm b \<longleftrightarrow> bm_start bm \<le> b \<and> b < bm_start bm + bm_blocks bm"

definition fs_geom :: "nat \<Rightarrow> (nat \<times> bool) list \<Rightarrow> easy_fs \<Rightarrow> nat \<Rightarrow> bool" where
  "fs_geom n H fs N \<longleftrightarrow> bm_ok n H (efs_data_bitmap fs)
     \<and> bm_start (efs_data_bitmap fs) + bm_blocks (efs_data_bitmap fs) \<le> ds fs
     \<and> N \<le> bm_blocks (efs_data_bitmap fs) * 4096 \<and> ds fs + N \<le> n \<and> n < 2 ^ 32"

text \<open>Data block \<open>b\<close> (a block number on the disk) is in use.\<close>

definition used :: "easy_fs \<Rightarrow> (nat \<Rightarrow> u8 list) \<Rightarrow> nat \<Rightarrow> bool" where
  "used fs V b \<longleftrightarrow> ds fs \<le> b \<and> b < ds fs + bm_blocks (efs_data_bitmap fs) * 4096
     \<and> bm_bit (efs_data_bitmap fs) V (b - ds fs)"

lemma used_cong:
  assumes "\<And>b. bm_block (efs_data_bitmap fs) b \<Longrightarrow> V' b = V b"
  shows "used fs V' c \<longleftrightarrow> used fs V c"
proof (cases "ds fs \<le> c \<and> c < ds fs + bm_blocks (efs_data_bitmap fs) * 4096")
  case True
  then have "(c - ds fs) div 4096 < bm_blocks (efs_data_bitmap fs)"
    by (simp add: less_mult_imp_div_less less_diff_conv2 add.commute)
  then have "bm_block (efs_data_bitmap fs) (bm_start (efs_data_bitmap fs) + (c - ds fs) div 4096)"
    by (simp add: bm_block_def)
  from assms [OF this] show ?thesis by (simp add: used_def bm_bit_def)
qed (auto simp: used_def)

definition free_blocks :: "easy_fs \<Rightarrow> nat \<Rightarrow> (nat \<Rightarrow> u8 list) \<Rightarrow> nat set" where
  "free_blocks fs N V = {b. ds fs \<le> b \<and> b < ds fs + N \<and> \<not> used fs V b}"

lemma finite_free_blocks [simp]: "finite (free_blocks fs N V)"
  by (rule finite_subset [of _ "{..< ds fs + N}"]) (auto simp: free_blocks_def)

lemma not_bm_block: "fs_geom n H fs N \<Longrightarrow> ds fs \<le> b \<Longrightarrow> \<not> bm_block (efs_data_bitmap fs) b"
  by (auto simp: fs_geom_def bm_block_def)

context block_device
begin

lemma alloc_data_runs:
  assumes g: "fs_geom n H fs N" and d: "disk_ok n V" and free: "free_blocks fs N V \<noteq> {}"
  obtains b V' where "runs n H (efs_alloc_data D fs) V b V'" and "disk_ok n V'"
    and "unat b \<in> free_blocks fs N V" and "\<forall>c. used fs V' c \<longleftrightarrow> c = unat b \<or> used fs V c"
    and "\<forall>c. \<not> bm_block (efs_data_bitmap fs) c \<longrightarrow> V' c = V c"
proof -
  let ?bm = "efs_data_bitmap fs"
  have ok: "bm_ok n H ?bm" and N: "N \<le> bm_blocks ?bm * 4096" "ds fs + N \<le> n" "n < 2 ^ 32"
    using g by (auto simp: fs_geom_def)
  from free obtain f where f: "ds fs \<le> f" "f < ds fs + N" "\<not> bm_bit ?bm V (f - ds fs)"
    using N(1) by (auto simp: free_blocks_def used_def)
  from bitmap_alloc_runs [OF ok d] obtain r V' where run: "runs n H (bitmap_alloc D ?bm) V r V'" and d': "disk_ok n V'"
    and out: "\<forall>b. \<not> (bm_start ?bm \<le> b \<and> b < bm_start ?bm + bm_blocks ?bm) \<longrightarrow> V' b = V b"
    and res: "case r of
         None \<Rightarrow> V' = V \<and> (\<forall>i < bm_blocks ?bm * 4096. bm_bit ?bm V i)
       | Some i \<Rightarrow> i < bm_blocks ?bm * 4096 \<and> \<not> bm_bit ?bm V i \<and> (\<forall>j < i. bm_bit ?bm V j)
           \<and> (\<forall>j. bm_bit ?bm V' j \<longleftrightarrow> j = i \<or> bm_bit ?bm V j)" by blast
  have "f - ds fs < bm_blocks ?bm * 4096" using f N by linarith
  then obtain i where r: "r = Some i" using res f(3) by (cases r) auto
  with res have i: "\<not> bm_bit ?bm V i" "\<forall>j < i. bm_bit ?bm V j" "\<forall>j. bm_bit ?bm V' j \<longleftrightarrow> j = i \<or> bm_bit ?bm V j" by auto
  have iN: "i < N" using i(2) f by (metis less_diff_conv2 linorder_neqE_nat add.commute order.strict_trans)
  let ?b = "word_of_nat i + efs_data_area_start fs"
  have ub: "unat ?b = ds fs + i"
  proof -
    have "?b = word_of_nat (ds fs + i)" by simp
    then show ?thesis using iN N by (simp only: unat_of_nat32)
  qed
  show thesis
  proof (rule that [of ?b V'])
    show "runs n H (efs_alloc_data D fs) V ?b V'"
      unfolding efs_alloc_data_def
      by (rule runs_bind [OF run [unfolded r]], rule runs_bind [OF runs_res [of "unwrapE (Some i)" i]],
          simp, rule runs_ret)
    show "unat ?b \<in> free_blocks fs N V" using ub i iN by (simp add: free_blocks_def used_def)
    have "used fs V' c \<longleftrightarrow> ds fs \<le> c \<and> c < ds fs + bm_blocks ?bm * 4096 \<and> c - ds fs = i \<or> used fs V c" for c
      unfolding used_def i(3) [rule_format] by blast
    moreover have "ds fs \<le> c \<and> c < ds fs + bm_blocks ?bm * 4096 \<and> c - ds fs = i \<longleftrightarrow> c = ds fs + i" for c
      using iN N(1) by linarith
    ultimately show "\<forall>c. used fs V' c \<longleftrightarrow> c = unat ?b \<or> used fs V c" unfolding ub by simp
  qed (use d' out in \<open>auto simp: bm_block_def\<close>)
qed

lemma alloc_data_blocks_runs:
  assumes g: "fs_geom n H fs N" and "disk_ok n V" and "k \<le> card (free_blocks fs N V)"
  shows "\<exists>bs V'. runs n H (alloc_data_blocks D fs k v) V (v @ bs) V' \<and> disk_ok n V' \<and> length bs = k
    \<and> distinct bs \<and> unat ` set bs \<subseteq> free_blocks fs N V
    \<and> (\<forall>c. used fs V' c \<longleftrightarrow> c \<in> unat ` set bs \<or> used fs V c)
    \<and> (\<forall>c. \<not> bm_block (efs_data_bitmap fs) c \<longrightarrow> V' c = V c)"
  using assms(2,3)
proof (induction k arbitrary: v V)
  case 0
  then show ?case by (intro exI [of _ "[]"] exI [of _ V]) auto
next
  case (Suc k)
  then have ne: "free_blocks fs N V \<noteq> {}" by auto
  obtain b V1 where r1: "runs n H (efs_alloc_data D fs) V b V1" and d1: "disk_ok n V1"
    and b: "unat b \<in> free_blocks fs N V" and u1: "\<forall>c. used fs V1 c \<longleftrightarrow> c = unat b \<or> used fs V c"
    and o1: "\<forall>c. \<not> bm_block (efs_data_bitmap fs) c \<longrightarrow> V1 c = V c"
    by (rule alloc_data_runs [OF g Suc.prems(1) ne])
  have fr: "free_blocks fs N V1 = free_blocks fs N V - {unat b}" using u1 by (auto simp: free_blocks_def)
  have "k \<le> card (free_blocks fs N V1)" using Suc.prems(2) b by (simp add: fr)
  from Suc.IH [OF d1 this, of "v @ [b]"] obtain bs V2 where
    r2: "runs n H (alloc_data_blocks D fs k (v @ [b])) V1 (v @ [b] @ bs) V2" and d2: "disk_ok n V2"
    and bs: "length bs = k" "distinct bs" "unat ` set bs \<subseteq> free_blocks fs N V1"
    and u2: "\<forall>c. used fs V2 c \<longleftrightarrow> c \<in> unat ` set bs \<or> used fs V1 c"
    and o2: "\<forall>c. \<not> bm_block (efs_data_bitmap fs) c \<longrightarrow> V2 c = V1 c" by auto
  show ?case
  proof (intro exI [of _ "b # bs"] exI [of _ V2] conjI)
    show "runs n H (alloc_data_blocks D fs (Suc k) v) V (v @ b # bs) V2"
      using runs_bind [OF r1, of "\<lambda>b. alloc_data_blocks D fs k (v @ [b])"] r2 by simp
  qed (use bs fr b u1 u2 o1 o2 d2 in auto)
qed

end

section \<open>Files\<close>

lemma unat_size_data_blocks:
  assumes "unat sz + 511 < 2 ^ 32"
  shows "unat (size_data_blocks sz) = (unat sz + 511) div 512"
proof -
  have "unat (511 + sz) = unat sz + 511" using assms by (subst unat_add_lem [THEN iffD1]) simp_all
  then show ?thesis by (simp add: size_data_blocks_def unat_div)
qed

abbreviation n_blocks :: "disk_inode \<Rightarrow> nat" where
  "n_blocks di \<equiv> unat (di_data_blocks di)"

text \<open>The inode of a file: its blocks are different data blocks in use, none of them locked.\<close>

definition file_ok :: "nat \<Rightarrow> (nat \<times> bool) list \<Rightarrow> easy_fs \<Rightarrow> nat \<Rightarrow> (nat \<Rightarrow> u8 list) \<Rightarrow> disk_inode \<Rightarrow> bool" where
  "file_ok n H fs N V di \<longleftrightarrow> di_wf n H V di (n_blocks di) \<and> unat (di_size di) \<le> max_blocks * 512
     \<and> (\<forall>s. slot_in (n_blocks di) s \<longrightarrow> used fs V (unat (slot_val V di s)) \<and> unat (slot_val V di s) < ds fs + N)"

definition file_block :: "(nat \<Rightarrow> u8 list) \<Rightarrow> disk_inode \<Rightarrow> nat \<Rightarrow> bool" where
  "file_block V di b \<longleftrightarrow> (\<exists>s. slot_in (n_blocks di) s \<and> b = unat (slot_val V di s))"

lemma n_blocks_bounds:
  assumes "unat (di_size di) \<le> max_blocks * 512"
  shows "n_blocks di = (unat (di_size di) + 511) div 512" and "unat (di_size di) \<le> n_blocks di * 512"
    and "n_blocks di \<le> max_blocks"
proof -
  show e: "n_blocks di = (unat (di_size di) + 511) div 512"
    using assms by (simp add: di_data_blocks_def unat_size_data_blocks)
  show "unat (di_size di) \<le> n_blocks di * 512" unfolding e by linarith
  show "n_blocks di \<le> max_blocks" unfolding e using assms by linarith
qed

lemma file_ok_cong:
  assumes "file_ok n H fs N V di" and "\<And>b. used fs V b \<Longrightarrow> used fs V' b"
    and "\<And>b. file_block V di b \<Longrightarrow> V' b = V b"
  shows "file_ok n H fs N V' di" and "slot_in (n_blocks di) s \<Longrightarrow> slot_val V' di s = slot_val V di s"
    and "p < unat (di_size di) \<Longrightarrow> fbyte V' di p = fbyte V di p"
proof -
  have sv: "slot_val V' di s = slot_val V di s" if "slot_in (n_blocks di) s" for s
    using assms(3) by (intro slot_val_cong [OF that]) (auto simp: ix_block_def file_block_def)
  show "slot_in (n_blocks di) s \<Longrightarrow> slot_val V' di s = slot_val V di s" by (rule sv)
  show "file_ok n H fs N V' di"
    using assms(1,2) sv di_wf_cong [of n H V di "n_blocks di" V'] by (simp add: file_ok_def)
  assume p: "p < unat (di_size di)"
  have "p div 512 < n_blocks di"
    using p n_blocks_bounds(2) [of di] assms(1) by (simp add: file_ok_def less_mult_imp_div_less)
  then have s: "slot_in (n_blocks di) (Data (p div 512))" by simp
  then have "file_block V di (unat (slot_val V di (Data (p div 512))))" unfolding file_block_def by blast
  from assms(3) [OF this] show "fbyte V' di p = fbyte V di p" using sv [OF s] by (simp add: fbyte_def)
qed

section \<open>Growing a file\<close>

text \<open>The blocks after growing from \<open>m\<close> data blocks with the new blocks \<open>nb\<close>.\<close>

definition grown :: "(slot \<Rightarrow> u32) \<Rightarrow> nat \<Rightarrow> u32 list \<Rightarrow> slot \<Rightarrow> u32" where
  "grown old m nb s = (if slot_in m s then old s else nb ! (slot_pos s - slots m))"

lemma grown_new:
  assumes "slot_in M s" and "\<not> slot_in m s" and "length nb = slots M - slots m"
  shows "grown old m nb s \<in> set nb"
  using assms by (auto simp: grown_def slot_in_iff not_less intro!: nth_mem)

lemma feeds_grown: "length nb = slots M - slots m \<Longrightarrow> feeds M (grown old m nb) (slots m) nb"
  by (auto simp: feeds_def grown_def slot_in_iff)

lemma grown_inj:
  assumes "\<And>s t. slot_in m s \<Longrightarrow> slot_in m t \<Longrightarrow> unat (old s) = unat (old t) \<Longrightarrow> s = t"
    and "distinct nb" and "length nb = slots M - slots m" and "\<And>s. slot_in m s \<Longrightarrow> unat (old s) \<notin> unat ` set nb"
    and "slot_in M s" "slot_in M t" and eq: "unat (grown old m nb s) = unat (grown old m nb t)"
  shows "s = t"
proof -
  have new: "\<not> slot_in m t" if "\<not> slot_in m s" "slot_in M s" "unat (grown old m nb s) = unat (grown old m nb t)" for s t
  proof
    assume t: "slot_in m t"
    then have "unat (old t) = unat (grown old m nb s)" using that(3) by (simp add: grown_def)
    then have "unat (old t) \<in> unat ` set nb" using grown_new [OF that(2,1) assms(3)] by simp
    with assms(4) [OF t] show False by simp
  qed
  show ?thesis
  proof (cases "slot_in m s")
    case True
    moreover from this have "slot_in m t" using new [OF _ assms(6) eq [symmetric]] by blast
    ultimately show ?thesis using eq assms(1) by (simp add: grown_def)
  next
    case False
    with new [OF _ assms(5) eq] have "\<not> slot_in m t" by blast
    with False eq have "nb ! (slot_pos s - slots m) = nb ! (slot_pos t - slots m)"
      by (simp add: grown_def word_unat_eq_iff)
    with assms(2,3,5,6) False \<open>\<not> slot_in m t\<close> have "slot_pos s - slots m = slot_pos t - slots m"
      by (subst (asm) nth_eq_iff_index_eq) (auto simp: slot_in_iff)
    with False \<open>\<not> slot_in m t\<close> have "slot_pos s = slot_pos t" by (auto simp: slot_in_iff)
    then show ?thesis by (simp add: slot_pos_inj del: slot_pos.simps)
  qed
qed

text \<open>What is known after an inode has grown to \<open>sz\<close> bytes.\<close>

definition grown_file :: "nat \<Rightarrow> (nat \<times> bool) list \<Rightarrow> easy_fs \<Rightarrow> nat \<Rightarrow> u32 \<Rightarrow> (nat \<Rightarrow> u8 list) \<Rightarrow> disk_inode
    \<Rightarrow> (nat \<Rightarrow> u8 list) \<Rightarrow> disk_inode \<Rightarrow> bool" where
  "grown_file n H fs N sz V di V' di' \<longleftrightarrow> disk_ok n V' \<and> file_ok n H fs N V' di'
     \<and> di_size di' = sz \<and> di_type di' = di_type di \<and> length (di_direct di') = 28
     \<and> (\<forall>p < unat (di_size di). fbyte V' di' p = fbyte V di p)
     \<and> (\<forall>b. file_block V di b \<longrightarrow> file_block V' di' b)
     \<and> (\<forall>b. used fs V' b \<longleftrightarrow> used fs V b \<or> file_block V' di' b)
     \<and> (\<forall>b. file_block V' di' b \<and> used fs V b \<longrightarrow> file_block V di b)
     \<and> (\<forall>b. V' b \<noteq> V b \<longrightarrow> bm_block (efs_data_bitmap fs) b \<or> file_block V' di' b)"

context block_device
begin

lemma inode_increase_size_runs:
  assumes g: "fs_geom n H fs N" and f: "file_ok n H fs N V di" and d: "disk_ok n V"
    and H: "length H < 15" "\<forall>b. ds fs \<le> b \<longrightarrow> b \<notin> fst ` set H"
    and sz: "unat (di_size di) \<le> unat sz" "unat sz \<le> max_blocks * 512"
    and free: "slots (unat (size_data_blocks sz)) - slots (n_blocks di) \<le> card (free_blocks fs N V)"
  shows "\<exists>di' V'. runs n H (inode_increase_size D fs sz di) V di' V' \<and> grown_file n H fs N sz V di V' di'"
proof -
  let ?m = "n_blocks di" and ?M = "unat (size_data_blocks sz)"
  let ?old = "slot_val V di"
  have wf: "di_wf n H V di ?m" and own: "\<And>s. slot_in ?m s \<Longrightarrow> used fs V (unat (?old s)) \<and> unat (?old s) < ds fs + N"
    using f by (auto simp: file_ok_def)
  have M: "?M = (unat sz + 511) div 512" using sz by (simp add: unat_size_data_blocks)
  have m: "?m = (unat (di_size di) + 511) div 512" using sz by (simp add: di_data_blocks_def unat_size_data_blocks)
  have mM: "?m \<le> ?M" unfolding M m using sz(1) by (intro div_le_mono) simp
  have Mmax: "?M \<le> max_blocks" unfolding M using sz(2) by linarith
  have tot: "unat (di_total_blocks sz) = slots ?M" "unat (di_total_blocks (di_size di)) = slots ?m"
    using Mmax mM by (auto simp: total_blocks_slots di_data_blocks_def)
  have need: "unat (di_total_blocks sz - di_total_blocks (di_size di)) = slots ?M - slots ?m"
    using tot slots_mono [OF mM] by (subst unat_sub) (auto simp: word_le_nat_alt)
  obtain nb V1 where r1: "runs n H (alloc_data_blocks D fs (slots ?M - slots ?m) []) V nb V1" and d1: "disk_ok n V1"
    and nb: "length nb = slots ?M - slots ?m" "distinct nb" "unat ` set nb \<subseteq> free_blocks fs N V"
    and u1: "\<forall>c. used fs V1 c \<longleftrightarrow> c \<in> unat ` set nb \<or> used fs V c"
    and o1: "\<forall>c. \<not> bm_block (efs_data_bitmap fs) c \<longrightarrow> V1 c = V c"
    using alloc_data_blocks_runs [OF g d free, of "[]"] by auto
  have same: "V1 b = V b" if "ds fs \<le> b" for b using o1 not_bm_block [OF g that] by blast
  have old1: "slot_val V1 di s = ?old s" if "slot_in ?m s" for s
  proof (rule slot_val_cong [OF that])
    fix b assume "ix_block V di ?m b"
    then show "V1 b = V b" using own same by (auto simp: ix_block_def used_def)
  qed
  let ?g = "grown ?old ?m nb"
  have g_cases: "used fs V (unat (?g s)) \<and> slot_in ?m s \<or> unat (?g s) \<in> free_blocks fs N V \<and> \<not> slot_in ?m s"
    if "slot_in ?M s" for s
    using own grown_new [OF that _ nb(1), of ?old] nb(3) by (cases "slot_in ?m s") (auto simp: grown_def)
  have g_area: "ds fs \<le> unat (?g s) \<and> unat (?g s) < ds fs + N" if "slot_in ?M s" for s
    using g_cases [OF that] own [of s] by (auto simp: free_blocks_def used_def grown_def)
  have fresh: "unat (?old s) \<notin> unat ` set nb" if "slot_in ?m s" for s
    using own [OF that] nb(3) by (auto simp: free_blocks_def)
  have inj: "s = t" if "slot_in ?M s" "slot_in ?M t" "unat (?g s) = unat (?g t)" for s t
    by (rule grown_inj [OF di_wf_inj [OF wf] nb(2,1) fresh that])
  have sok: "slots_ok n ?M ?g"
    using g g_area inj Mmax unfolding slots_ok_def fs_geom_def by (meson order_less_le_trans)
  have notH: "\<forall>s. slot_in ?M s \<longrightarrow> unat (?g s) \<notin> fst ` set H" using g_area H(2) by blast
  have "grow_ok n H V1 di ?m ?M ?g nb"
    unfolding grow_ok_def using wf mM sok notH old1 feeds_grown [OF nb(1)] d1 by (auto simp: di_wf_def grown_def)
  from increase_size_runs [OF this H(1) refl refl] obtain di' V' where
    r2: "runs n H (di_increase_size D sz nb di) V1 di' V'" and d2: "disk_ok n V'"
    and di': "length (di_direct di') = 28" "di_size di' = sz" "di_type di' = di_type di"
    and sv: "\<forall>s. slot_in ?M s \<longrightarrow> slot_val V' di' s = ?g s"
    and fr: "\<forall>b. V' b \<noteq> V1 b \<longrightarrow> (\<exists>s. slot_in ?M s \<and> (\<forall>i. s \<noteq> Data i) \<and> b = unat (?g s))" by blast
  have M': "n_blocks di' = ?M" by (simp add: di_data_blocks_def di')
  have fb: "file_block V' di' b \<longleftrightarrow> (\<exists>s. slot_in ?M s \<and> b = unat (?g s))" for b
    unfolding file_block_def M' using sv by metis
  have ne: "\<not> sz < di_size di" "di_size di \<le> sz" using sz(1) by (auto simp: word_less_nat_alt word_le_nat_alt)
  have run: "runs n H (inode_increase_size D fs sz di) V di' V'"
    unfolding inode_increase_size_def if_not_P [OF ne(1)]
    by (rule runs_bind [OF runs_res [of _ "di_total_blocks sz - di_total_blocks (di_size di)"]],
        simp add: di_blocks_num_needed_def ne, unfold need, rule runs_bind [OF r1], rule r2)
  have u': "used fs V' b \<longleftrightarrow> b \<in> unat ` set nb \<or> used fs V b" for b
    unfolding u1 [rule_format, symmetric]
    by (rule used_cong) (use fr g_area not_bm_block [OF g] in blast)
  have new_fb: "file_block V' di' b" if "b \<in> unat ` set nb" for b
  proof -
    from that obtain k where k: "k < length nb" "b = unat (nb ! k)" by (auto simp: in_set_conv_nth)
    then have "slot_in ?M (slot_at (slots ?m + k))" "?g (slot_at (slots ?m + k)) = nb ! k"
      using nb(1) by (auto simp: slot_in_iff grown_def)
    then show ?thesis unfolding fb using k(2) by metis
  qed
  have wf': "di_wf n H V' di' ?M"
    unfolding di_wf_def using di'(1) Mmax sok notH inj sv by (simp add: slots_ok_def) (metis word_unat_eq_iff)
  have g_used: "used fs V' (unat (?g s))" if "slot_in ?M s" for s
  proof (cases "slot_in ?m s")
    case False
    then show ?thesis unfolding u' using grown_new [OF that _ nb(1)] by blast
  qed (use own u' in \<open>simp add: grown_def\<close>)
  have "file_ok n H fs N V' di'"
    unfolding file_ok_def M' di'(2) using wf' sz(2) sv g_used g_area by simp
  moreover have "fbyte V' di' p = fbyte V di p" if p: "p < unat (di_size di)" for p
  proof -
    have s: "slot_in ?m (Data (p div 512))"
      using p n_blocks_bounds(2) [of di] sz by (simp add: less_mult_imp_div_less)
    then have sM: "slot_in ?M (Data (p div 512))" using mM by simp
    have gs: "?g (Data (p div 512)) = ?old (Data (p div 512))" using s by (simp add: grown_def)
    have "V' (unat (?g (Data (p div 512)))) = V1 (unat (?g (Data (p div 512))))"
      using fr inj [OF sM] by blast
    also have "\<dots> = V (unat (?g (Data (p div 512))))" using g_area [OF sM] by (intro same) simp
    finally show ?thesis using sv sM gs by (simp add: fbyte_def)
  qed
  moreover have "file_block V' di' b" if "file_block V di b" for b
  proof -
    from that obtain s where s: "slot_in ?m s" "b = unat (?old s)" unfolding file_block_def by blast
    then have "slot_in ?M s" using mM slots_mono [OF mM] by (simp add: slot_in_iff)
    with s show ?thesis unfolding fb by (intro exI [of _ s]) (simp add: grown_def)
  qed
  moreover have "used fs V' b \<longleftrightarrow> used fs V b \<or> file_block V' di' b" for b
    using u' new_fb g_used fb by metis
  moreover have "file_block V di b" if "file_block V' di' b" "used fs V b" for b
  proof -
    from that(1) obtain s where s: "slot_in ?M s" "b = unat (?g s)" unfolding fb by blast
    then have "slot_in ?m s" using g_cases [OF s(1)] that(2) by (auto simp: free_blocks_def)
    with s(2) show ?thesis unfolding file_block_def by (intro exI [of _ s]) (simp add: grown_def)
  qed
  moreover have "bm_block (efs_data_bitmap fs) b \<or> file_block V' di' b" if "V' b \<noteq> V b" for b
    using that o1 fr fb by metis
  ultimately show ?thesis
    using run d2 di' unfolding grown_file_def by (intro exI [of _ di'] exI [of _ V'] conjI allI impI) simp_all
qed

end

end
