(* ===== verification/File_Ops.thy ===== *)
theory File_Ops
  imports File_Alloc
begin

text \<open>
  Reading and writing files through \<^verbatim>\<open>Inode\<close> (\<^verbatim>\<open>easy-fs/src/vfs.rs\<close>). A file stands for the list
  of its bytes; \<^verbatim>\<open>read_at\<close> returns a part of this list and \<^verbatim>\<open>write_at\<close> replaces one, growing the
  file where needed, and no other file changes.
\<close>

section \<open>The contents of a file\<close>

definition at_inode :: "(nat \<Rightarrow> u8 list) \<Rightarrow> inode \<Rightarrow> disk_inode" where
  "at_inode V ino = di_dec (take 128 (drop (in_block_offset ino) (V (in_block_id ino))))"

definition file_data :: "(nat \<Rightarrow> u8 list) \<Rightarrow> inode \<Rightarrow> u8 list" where
  "file_data V ino = (let di = at_inode V ino in map (fbyte V di) [0..<unat (di_size di)])"

text \<open>A file system with \<open>N\<close> data blocks on a disk of \<open>n\<close> blocks, and the place of an inode outside its data blocks.\<close>

definition place_ok :: "nat \<Rightarrow> easy_fs \<Rightarrow> nat \<Rightarrow> inode \<Rightarrow> bool" where
  "place_ok n fs N ino \<longleftrightarrow> fs_geom n [] fs N \<and> in_block_id ino < ds fs \<and> in_block_offset ino + 128 \<le> 512
     \<and> \<not> bm_block (efs_data_bitmap fs) (in_block_id ino)"

definition is_file :: "nat \<Rightarrow> easy_fs \<Rightarrow> nat \<Rightarrow> (nat \<Rightarrow> u8 list) \<Rightarrow> inode \<Rightarrow> bool" where
  "is_file n fs N V ino \<longleftrightarrow> place_ok n fs N ino \<and> file_ok n [] fs N V (at_inode V ino)"

text \<open>Two files that share neither their inode nor a block.\<close>

definition separate :: "(nat \<Rightarrow> u8 list) \<Rightarrow> inode \<Rightarrow> inode \<Rightarrow> bool" where
  "separate V i j \<longleftrightarrow> (in_block_id i \<noteq> in_block_id j \<or> in_block_offset i + 128 \<le> in_block_offset j
       \<or> in_block_offset j + 128 \<le> in_block_offset i)
     \<and> (\<forall>b. \<not> (file_block V (at_inode V i) b \<and> file_block V (at_inode V j) b))"

lemma is_file_bounds:
  assumes "is_file n fs N V ino"
  shows "fs_geom n [] fs N" and "in_block_id ino < n" and "in_block_id ino < ds fs"
    and "in_block_offset ino + 128 \<le> 512" and "\<not> bm_block (efs_data_bitmap fs) (in_block_id ino)"
    and "file_ok n [] fs N V (at_inode V ino)"
  using assms by (auto simp: is_file_def place_ok_def fs_geom_def)

lemma length_file_data [simp]: "length (file_data V ino) = unat (di_size (at_inode V ino))"
  by (simp add: file_data_def Let_def)

lemma nth_file_data: "p < length (file_data V ino) \<Longrightarrow> file_data V ino ! p = fbyte V (at_inode V ino) p"
  by (simp add: file_data_def Let_def)

text \<open>The inode's block is not one of the file's blocks.\<close>

lemma file_block_used: "file_ok n H fs N V di \<Longrightarrow> file_block V di b \<Longrightarrow> used fs V b"
  by (auto simp: file_ok_def file_block_def)

lemma used_ge: "used fs V b \<Longrightarrow> ds fs \<le> b"
  by (simp add: used_def)

lemma file_ok_held:
  assumes "b < ds fs"
  shows "file_ok n [(b, k)] fs N V di \<longleftrightarrow> file_ok n [] fs N V di"
  unfolding file_ok_def di_wf_def used_def using assms by auto

lemma fs_geom_held:
  assumes "fs_geom n [] fs N" and "\<not> bm_block (efs_data_bitmap fs) b"
  shows "fs_geom n [(b, k)] fs N"
  using assms by (auto simp: fs_geom_def bm_ok_def bm_block_def)

lemma file_unchanged:
  assumes f: "is_file n fs N V ino" and used: "\<And>b. used fs V b \<Longrightarrow> used fs V' b"
    and blocks: "\<And>b. file_block V (at_inode V ino) b \<Longrightarrow> V' b = V b"
    and di: "at_inode V' ino = at_inode V ino"
  shows "is_file n fs N V' ino" and "file_data V' ino = file_data V ino"
    and "file_block V' (at_inode V' ino) = file_block V (at_inode V ino)"
proof -
  let ?di = "at_inode V ino"
  note fc = file_ok_cong [OF is_file_bounds(6) [OF f] used blocks]
  show "is_file n fs N V' ino" using f fc(1) di by (simp add: is_file_def)
  show "file_data V' ino = file_data V ino" using fc(3) by (simp add: file_data_def di Let_def)
  show "file_block V' (at_inode V' ino) = file_block V ?di" using fc(2) di by (auto simp: file_block_def fun_eq_iff)
qed

section \<open>Writing\<close>

lemma grown_file_refl:
  assumes "file_ok n H fs N V di" and "disk_ok n V"
  shows "grown_file n H fs N (di_size di) V di V di"
  using assms file_block_used [OF assms(1)] by (auto simp: grown_file_def file_ok_def di_wf_def)

text \<open>Writing into the blocks of a file keeps everything but these blocks.\<close>

lemma written_file_ok:
  assumes f: "file_ok n H fs N V di" and g: "fs_geom n H fs N" and w: "written n (n_blocks di) di off xs V V'"
    and len: "off + length xs \<le> unat (di_size di)"
  shows "file_ok n H fs N V' di" and "file_block V' di = file_block V di" and "used fs V' b \<longleftrightarrow> used fs V b"
    and "V' b \<noteq> V b \<Longrightarrow> file_block V di b"
proof -
  have wf: "di_wf n H V di (n_blocks di)" and sz: "unat (di_size di) \<le> max_blocks * 512"
    using f by (auto simp: file_ok_def)
  have m: "off + length xs \<le> n_blocks di * 512" using len n_blocks_bounds(2) [OF sz] by simp
  note sv = written_slot_val [OF wf w m]
  have ch: "file_block V di b" if "V' b \<noteq> V b" for b
  proof -
    from that w obtain p where p: "p < off + length xs" "b = unat (slot_val V di (Data (p div 512)))"
      unfolding written_def by (meson atLeastLessThan_iff)
    then have "slot_in (n_blocks di) (Data (p div 512))" using m by (simp add: less_mult_imp_div_less)
    with p(2) show ?thesis unfolding file_block_def by blast
  qed
  then show "V' b \<noteq> V b \<Longrightarrow> file_block V di b" .
  have u: "used fs V' b \<longleftrightarrow> used fs V b" for b
    by (rule used_cong) (use ch file_block_used [OF f] used_ge not_bm_block [OF g] in blast)
  then show "used fs V' b \<longleftrightarrow> used fs V b" .
  show "file_block V' di = file_block V di" using sv by (auto simp: file_block_def fun_eq_iff)
  show "file_ok n H fs N V' di" using f sv u di_wf_cong [OF wf sv] by (simp add: file_ok_def)
qed

lemma take_drop_upt: "take l (drop a [0..<N]) = [a..<a + (min (a + l) N - a)]"
  by (rule nth_equalityI) auto

lemma splice:
  assumes "off \<le> length old"
  shows "length (take off old @ buf @ drop (off + length buf) old) = max (length old) (off + length buf)"
    and "i < max (length old) (off + length buf) \<Longrightarrow>
      (take off old @ buf @ drop (off + length buf) old) ! i = (if off \<le> i \<and> i < off + length buf then buf ! (i - off) else old ! i)"
  using assms by (auto simp: nth_append not_less)

text \<open>The contents of the disk after a write to a file.\<close>

definition wrote :: "nat \<Rightarrow> easy_fs \<Rightarrow> nat \<Rightarrow> inode \<Rightarrow> nat \<Rightarrow> u8 list \<Rightarrow> (nat \<Rightarrow> u8 list) \<Rightarrow> (nat \<Rightarrow> u8 list) \<Rightarrow> bool" where
  "wrote n fs N ino offset buf V V' \<longleftrightarrow> is_file n fs N V' ino \<and> disk_ok n V'
     \<and> file_data V' ino = take offset (file_data V ino) @ buf @ drop (offset + length buf) (file_data V ino)
     \<and> di_type (at_inode V' ino) = di_type (at_inode V ino)
     \<and> (\<forall>b. file_block V (at_inode V ino) b \<longrightarrow> file_block V' (at_inode V' ino) b)
     \<and> (\<forall>b. used fs V' b \<longleftrightarrow> used fs V b \<or> file_block V' (at_inode V' ino) b)
     \<and> (\<forall>b. file_block V' (at_inode V' ino) b \<and> used fs V b \<longrightarrow> file_block V (at_inode V ino) b)
     \<and> (\<forall>b. V' b \<noteq> V b \<longrightarrow> b = in_block_id ino \<or> bm_block (efs_data_bitmap fs) b \<or> file_block V' (at_inode V' ino) b)
     \<and> (\<forall>i < 512. (i < in_block_offset ino \<or> in_block_offset ino + 128 \<le> i)
          \<longrightarrow> V' (in_block_id ino) ! i = V (in_block_id ino) ! i)"

context block_device
begin

lemma grow_to_runs:
  assumes "fs_geom n H fs N" and f: "file_ok n H fs N V di" and d: "disk_ok n V"
    and "length H < 15" "\<forall>b. ds fs \<le> b \<longrightarrow> b \<notin> fst ` set H" and "unat sz \<le> max_blocks * 512"
    and "slots (unat (size_data_blocks sz)) - slots (n_blocks di) \<le> card (free_blocks fs N V)"
  shows "\<exists>di' V'. runs n H (inode_increase_size D fs sz di) V di' V' \<and> grown_file n H fs N (max (di_size di) sz) V di V' di'"
proof (cases "sz < di_size di")
  case True
  then have "runs n H (inode_increase_size D fs sz di) V di V" by (auto simp: inode_increase_size_def)
  with grown_file_refl [OF f d] True show ?thesis by (metis max.absorb1 order_less_imp_le)
next
  case False
  then have "unat (di_size di) \<le> unat sz" "max (di_size di) sz = sz" by (auto simp: word_le_nat_alt word_less_nat_alt)
  with inode_increase_size_runs [OF assms(1-5) _ assms(6,7)] show ?thesis by simp
qed

text \<open>The closure of \<^verbatim>\<open>write_at\<close>, with the inode's block locked.\<close>

lemma write_closure_runs:
  assumes g: "fs_geom n H fs N" and f: "file_ok n H fs N V di" and d: "disk_ok n V"
    and H: "length H < 15" "\<forall>b. ds fs \<le> b \<longrightarrow> b \<notin> fst ` set H"
    and buf: "buf \<noteq> []" "offset \<le> unat (di_size di)" "offset + length buf \<le> max_blocks * 512"
    and free: "slots ((offset + length buf + 511) div 512) - slots (n_blocks di) \<le> card (free_blocks fs N V)"
  defines "sz \<equiv> max (di_size di) (word_of_nat (offset + length buf))"
  shows "\<exists>di' V1 V2. runs n H (a_bind (inode_increase_size D fs (word_of_nat (offset + length buf)) di) (\<lambda>di'.
       a_bind (di_write_at D offset buf di') (\<lambda>k. a_ret (k, di')))) V (length buf, di') V2
     \<and> grown_file n H fs N sz V di V1 di' \<and> written n (n_blocks di') di' offset buf V1 V2"
proof -
  let ?e = "word_of_nat (offset + length buf) :: u32"
  have ue: "unat ?e = offset + length buf" using buf(3) by (intro unat_of_nat32) simp
  have usz: "unat sz = max (unat (di_size di)) (offset + length buf)"
    using ue by (simp add: sz_def max_def word_le_nat_alt)
  have "unat (size_data_blocks ?e) = (offset + length buf + 511) div 512"
    using buf(3) ue by (subst unat_size_data_blocks) simp_all
  with grow_to_runs [OF g f d H _, of ?e] free buf(3) ue obtain di' V1 where
    r1: "runs n H (inode_increase_size D fs ?e di) V di' V1" and gf: "grown_file n H fs N sz V di V1 di'"
    unfolding sz_def by auto
  then have sz': "unat (di_size di') = max (unat (di_size di)) (offset + length buf)"
    and f1: "file_ok n H fs N V1 di'" and d1: "disk_ok n V1" using usz by (auto simp: grown_file_def)
  have wf: "di_wf n H V1 di' (n_blocks di')" and b: "unat (di_size di') \<le> n_blocks di' * 512"
    using f1 n_blocks_bounds(2) [of di'] by (auto simp: file_ok_def)
  have H16: "length H < 16" using H by simp
  have off: "offset < unat (di_size di')" using sz' buf(1) by (simp add: max_def)
  have k: "min (offset + length buf) (unat (di_size di')) - offset = length buf" using sz' by simp
  from write_at_runs [OF wf H16 d1 b buf(1) off, unfolded k] obtain V2 where
    r2: "runs n H (di_write_at D offset buf di') V1 (length buf) V2" and w: "written n (n_blocks di') di' offset buf V1 V2"
    by auto
  have "runs n H (a_bind (inode_increase_size D fs ?e di) (\<lambda>di'.
       a_bind (di_write_at D offset buf di') (\<lambda>k. a_ret (k, di')))) V (length buf, di') V2"
    by (rule runs_bind [OF r1], rule runs_bind [OF r2], rule runs_ret)
  with gf w show ?thesis by blast
qed

text \<open>An action that grows the file and writes to it, with the inode's block locked for modification.\<close>

lemma modify_inode_wrote:
  assumes f: "is_file n fs N V ino" and d: "disk_ok n V"
    and buf: "buf \<noteq> []" "offset \<le> length (file_data V ino)" "offset + length buf \<le> max_blocks * 512"
    and free: "slots ((offset + length buf + 511) div 512) - slots (n_blocks (at_inode V ino)) \<le> card (free_blocks fs N V)"
    and c: "\<And>di' V2. runs n [(in_block_id ino, True)]
        (a_bind (inode_increase_size D fs (word_of_nat (offset + length buf)) (at_inode V ino)) (\<lambda>di'.
         a_bind (di_write_at D offset buf di') (\<lambda>k. a_ret (k, di')))) V (length buf, di') V2
      \<Longrightarrow> runs n [(in_block_id ino, True)] (g (at_inode V ino)) V (v, di') V2"
  shows "\<exists>V'. runs n [] (modify_disk_inode D ino g) V v V' \<and> wrote n fs N ino offset buf V V'"
proof -
  let ?ib = "in_block_id ino" and ?o = "in_block_offset ino" and ?di = "at_inode V ino"
  note fb = is_file_bounds [OF f]
  let ?H = "[(?ib, True)]"
  have g: "fs_geom n ?H fs N" by (rule fs_geom_held [OF fb(1,5)])
  have fo: "file_ok n ?H fs N V ?di" using fb(6) file_ok_held [OF fb(3)] by blast
  have H: "length ?H < 15" "\<forall>b. ds fs \<le> b \<longrightarrow> b \<notin> fst ` set ?H" using fb(3) by auto
  have off: "offset \<le> unat (di_size ?di)" using buf(2) by simp
  let ?sz = "max (di_size ?di) (word_of_nat (offset + length buf))"
  from write_closure_runs [OF g fo d H buf(1) off buf(3) free] obtain di' V1 V2 where
    r: "runs n ?H (a_bind (inode_increase_size D fs (word_of_nat (offset + length buf)) ?di) (\<lambda>di'.
       a_bind (di_write_at D offset buf di') (\<lambda>k. a_ret (k, di')))) V (length buf, di') V2"
    and gf: "grown_file n ?H fs N ?sz V ?di V1 di'" and w: "written n (n_blocks di') di' offset buf V1 V2" by blast
  have len: "length (di_direct di') = 28" using gf by (simp add: grown_file_def)
  let ?V = "V2(?ib := overwrite ?o (di_enc di') (V2 ?ib))"
  have run: "runs n [] (modify_disk_inode D ino g) V v ?V"
    unfolding modify_disk_inode_def DISK_INODE_SZ_def
  proof (rule runs_modify)
    show "runs n ?H (a_bind (g (di_dec (take 128 (drop ?o (V ?ib))))) (\<lambda>(v, di). a_ret (v, di_enc di))) V (v, di_enc di') V2"
      by (rule runs_bind [OF c [OF r, unfolded at_inode_def]]) auto
  qed (use fb(2,4) len in auto)
  have dok: "disk_ok n V2" using w by (simp add: written_def)
  have lib: "length (V2 ?ib) = 512" using dok fb(2) by (simp add: disk_ok_def)
  have at: "at_inode ?V ino = di'" using len lib fb(4) by (simp add: at_inode_def di_dec_overwrite)
  have f1: "file_ok n ?H fs N V1 di'" and sz1: "di_size di' = ?sz" using gf by (auto simp: grown_file_def)
  have usz: "unat (di_size di') = max (unat (di_size ?di)) (offset + length buf)"
    using sz1 buf(3) unat_of_nat32 [of "offset + length buf"] by (simp add: max_def word_le_nat_alt)
  have wl: "offset + length buf \<le> unat (di_size di')" using usz by simp
  note wf = written_file_ok [OF f1 g w wl]
  have nib: "\<not> file_block V1 di' ?ib" using file_block_used [OF f1] used_ge fb(3) by (meson not_less)
  have u: "used fs ?V b \<longleftrightarrow> used fs V1 b" for b
    unfolding wf(3) [symmetric] by (rule used_cong) (use fb(5) in auto)
  note fc = file_ok_cong [OF wf(1), of ?V, unfolded wf(2)]
  have same: "file_block V1 di' b \<Longrightarrow> ?V b = V2 b" for b using nib by auto
  have fo2: "file_ok n [] fs N ?V di'" 
    using fc(1) u wf(3) same file_ok_held [OF fb(3)] by blast
  have fbl: "file_block ?V di' = file_block V1 di'"
    unfolding wf(2) [symmetric] using fc(2) u wf(3) same by (auto simp: file_block_def fun_eq_iff)
  have bytes: "fbyte ?V di' p = (if offset \<le> p \<and> p < offset + length buf then buf ! (p - offset) else fbyte V1 di' p)"
    if "p < unat (di_size di')" for p
  proof -
    have "p < n_blocks di' * 512" using that n_blocks_bounds(2) [of di'] f1 by (simp add: file_ok_def)
    then show ?thesis using w fc(3) [OF _ _ that] u wf(3) same by (simp add: written_def)
  qed
  have old: "fbyte V1 di' p = file_data V ino ! p" if "p < unat (di_size ?di)" for p
    using that gf by (simp add: grown_file_def nth_file_data)
  have "file_data ?V ino = take offset (file_data V ino) @ buf @ drop (offset + length buf) (file_data V ino)"
    (is "_ = ?splice")
  proof (rule nth_equalityI)
    show "length (file_data ?V ino) = length ?splice" using at usz splice(1) [OF buf(2), of buf] by simp
    fix p
    assume "p < length (file_data ?V ino)"
    then have p: "p < unat (di_size di')" using at by simp
    then have "file_data ?V ino ! p = fbyte ?V di' p" using at by (simp add: nth_file_data)
    also have "\<dots> = ?splice ! p"
      using splice(2) [OF buf(2), of p buf] bytes [OF p] old [of p] p usz off by auto
    finally show "file_data ?V ino ! p = ?splice ! p" .
  qed
  moreover have change: "bm_block (efs_data_bitmap fs) b \<or> file_block V1 di' b" if "V2 b \<noteq> V b" for b
    using that gf wf(4) [of b] unfolding grown_file_def by metis
  moreover have "V2 ?ib = V ?ib" using change [of ?ib] fb(5) nib by blast
  then have "?V ?ib ! i = V ?ib ! i" if "i < 512" "i < ?o \<or> ?o + 128 \<le> i" for i
    using that lib len fb(4) by (auto simp: nth_overwrite)
  moreover have "is_file n fs N ?V ino" using f fo2 at by (simp add: is_file_def)
  moreover have "disk_ok n ?V" using dok lib len fb(4) by (simp add: disk_ok_def)
  ultimately have "wrote n fs N ino offset buf V ?V"
    unfolding wrote_def at fbl u using gf unfolding grown_file_def
    by (intro conjI allI impI) (simp_all, metis fun_upd_other)
  with run show ?thesis by blast
qed

lemma inode_write_at_runs:
  assumes "is_file n fs N V ino" and "disk_ok n V"
    and "buf \<noteq> []" "offset \<le> length (file_data V ino)" "offset + length buf \<le> max_blocks * 512"
    and "slots ((offset + length buf + 511) div 512) - slots (n_blocks (at_inode V ino)) \<le> card (free_blocks fs N V)"
  shows "\<exists>V'. runs n [] (inode_write_at D fs offset buf ino) V (length buf) V' \<and> wrote n fs N ino offset buf V V'"
  unfolding inode_write_at_def by (rule modify_inode_wrote [OF assms])

lemma inode_read_at_runs:
  assumes f: "is_file n fs N V ino" and d: "disk_ok n V"
  shows "runs n [] (inode_read_at D offset buf ino) V
    (length (take (length buf) (drop offset (file_data V ino))),
     overwrite 0 (take (length buf) (drop offset (file_data V ino))) buf) V"
proof -
  let ?ib = "in_block_id ino" and ?di = "at_inode V ino"
  note fb = is_file_bounds [OF f]
  let ?H = "[(?ib, False)]"
  have fo: "file_ok n ?H fs N V ?di" using fb(6) file_ok_held [OF fb(3)] by blast
  then have wf: "di_wf n ?H V ?di (n_blocks ?di)" and m: "unat (di_size ?di) \<le> n_blocks ?di * 512"
    using n_blocks_bounds(2) [of ?di] by (auto simp: file_ok_def)
  let ?k = "min (offset + length buf) (unat (di_size ?di)) - offset"
  have data: "map (fbyte V ?di) [offset..<offset + ?k] = take (length buf) (drop offset (file_data V ino))"
    unfolding file_data_def Let_def drop_map take_map take_drop_upt ..
  then have k: "?k = length (take (length buf) (drop offset (file_data V ino)))"
    by (metis diff_add_inverse length_map length_upt)
  have "runs n ?H (di_read_at D offset buf ?di) V (?k, overwrite 0 (map (fbyte V ?di) [offset..<offset + ?k]) buf) V"
    by (rule read_at_runs [OF wf _ d m]) simp
  from this [unfolded data, unfolded k] have r: "runs n ?H (di_read_at D offset buf ?di) V
    (length (take (length buf) (drop offset (file_data V ino))),
     overwrite 0 (take (length buf) (drop offset (file_data V ino))) buf) V" .
  show ?thesis
    unfolding inode_read_at_def read_disk_inode_def DISK_INODE_SZ_def
    by (rule runs_read) (use fb(2,4) r in \<open>simp_all add: at_inode_def\<close>)
qed

end

section \<open>Properties\<close>

lemma separate_unchanged:
  assumes w: "wrote n fs N i offset buf V V'" and f: "is_file n fs N V i" and g: "is_file n fs N V j" and sep: "separate V i j"
    and d: "disk_ok n V"
  shows "is_file n fs N V' j" and "file_data V' j = file_data V j" and "separate V' i j"
    and "at_inode V' j = at_inode V j" and "file_block V' (at_inode V' j) = file_block V (at_inode V j)"
proof -
  let ?o = "in_block_offset j" and ?b = "in_block_id j"
  note fb = is_file_bounds [OF g]
  have nf: "\<not> file_block V' (at_inode V' i) b" if "file_block V (at_inode V j) b" for b
    using w sep that file_block_used [OF fb(6) that] unfolding wrote_def separate_def by blast
  have blocks: "V' b = V b" if b: "file_block V (at_inode V j) b" for b
  proof (rule ccontr)
    assume "V' b \<noteq> V b"
    moreover have "ds fs \<le> b" using file_block_used [OF fb(6) b] used_ge by blast
    ultimately show False
      using w nf [OF b] not_bm_block [OF fb(1)] is_file_bounds(3) [OF f] unfolding wrote_def by (metis not_less)
  qed
  have ib: "take 128 (drop ?o (V' ?b)) = take 128 (drop ?o (V ?b))"
  proof (cases "?b = in_block_id i")
    case True
    have len: "length (V' ?b) = 512" "length (V ?b) = 512" using w d fb(2) by (auto simp: wrote_def disk_ok_def)
    show ?thesis
    proof (rule nth_equalityI)
      fix k
      assume "k < length (take 128 (drop ?o (V' ?b)))"
      then have k: "k < 128" "?o + k < 512" using len by auto
      with sep True have "?o + k < in_block_offset i \<or> in_block_offset i + 128 \<le> ?o + k"
        unfolding separate_def by linarith
      then have "V' (in_block_id i) ! (?o + k) = V (in_block_id i) ! (?o + k)"
        using w k(2) unfolding wrote_def by blast
      with k True show "take 128 (drop ?o (V' ?b)) ! k = take 128 (drop ?o (V ?b)) ! k"
        using len by simp
    qed (use len in simp)
  next
    case False
    have "\<not> file_block V' (at_inode V' i) ?b"
      using w file_block_used [OF is_file_bounds(6)] used_ge fb(3) unfolding wrote_def by (meson not_less)
    with w False fb(5) have "V' ?b = V ?b" unfolding wrote_def by blast
    then show ?thesis by simp
  qed
  have used: "used fs V' b" if "used fs V b" for b using w that by (simp add: wrote_def)
  show at: "at_inode V' j = at_inode V j" using ib by (simp add: at_inode_def)
  note fu = file_unchanged [OF g used blocks at]
  show "is_file n fs N V' j" by (rule fu(1))
  show "file_data V' j = file_data V j" by (rule fu(2))
  show "file_block V' (at_inode V' j) = file_block V (at_inode V j)" by (rule fu(3))
  then have "file_block V' (at_inode V' j) b = file_block V (at_inode V j) b" for b by simp
  then show "separate V' i j" unfolding separate_def using sep nf by (simp add: separate_def) blast
qed

text \<open>
  C18. Writing to a file. When the data area has enough free blocks, writing a non-empty
  buffer at a position inside the file or at its end returns the length of the buffer, and the
  contents of the file are then the old ones with the buffer put at that position, the file
  growing where the buffer goes beyond its end. Every other file, given as one that shares no
  block and no inode with it, keeps its contents.
\<close>

theorem file_write_correct:
  assumes dev: "block_device D blocks" and st: "block_device.sok D blocks n [] V st"
    and f: "is_file n fs N V ino"
    and buf: "buf \<noteq> []" "offset \<le> length (file_data V ino)" "offset + length buf \<le> max_blocks * 512"
    and free: "slots ((offset + length buf + 511) div 512) - slots (n_blocks (at_inode V ino)) \<le> card (free_blocks fs N V)"
  shows "\<exists>st' V'. inode_write_at D fs offset buf ino st = Inr (length buf, st') \<and> block_device.sok D blocks n [] V' st'
    \<and> is_file n fs N V' ino
    \<and> file_data V' ino = take offset (file_data V ino) @ buf @ drop (offset + length buf) (file_data V ino)
    \<and> (\<forall>j. is_file n fs N V j \<and> separate V ino j \<longrightarrow>
        is_file n fs N V' j \<and> separate V' ino j \<and> file_data V' j = file_data V j)"
proof -
  have d: "disk_ok n V" by (rule block_device.sok_disk_ok [OF dev st])
  from block_device.inode_write_at_runs [OF dev f d buf free] obtain V' where
    r: "block_device.runs D blocks n [] (inode_write_at D fs offset buf ino) V (length buf) V'"
    and w: "wrote n fs N ino offset buf V V'" by blast
  from block_device.runsD [OF dev r st] obtain st' where
    s: "inode_write_at D fs offset buf ino st = Inr (length buf, st')" "block_device.sok D blocks n [] V' st'" by blast
  have "is_file n fs N V' j \<and> separate V' ino j \<and> file_data V' j = file_data V j"
    if "is_file n fs N V j" "separate V ino j" for j
    using separate_unchanged [OF w f that d] by blast
  with s w show ?thesis unfolding wrote_def by blast
qed

text \<open>An empty file on an empty disk of 24 blocks.\<close>

definition small_fs :: easy_fs where
  "small_fs = \<lparr>efs_inode_bitmap = \<lparr>bm_start = 1, bm_blocks = 1\<rparr>, efs_data_bitmap = \<lparr>bm_start = 2, bm_blocks = 1\<rparr>,
     efs_inode_area_start = 3, efs_data_area_start = 4\<rparr>"

definition small_ino :: inode where
  "small_ino = \<lparr>in_inode_id = 0, in_block_id = 3, in_block_offset = 0, in_nlink = 1\<rparr>"

abbreviation zeros :: "nat \<Rightarrow> u8 list" where "zeros \<equiv> \<lambda>_. replicate 512 0"

lemma at_inode_small: "di_size (at_inode zeros small_ino) = 0" "length (di_direct (at_inode zeros small_ino)) = 28"
proof -
  have "le_dec (replicate 4 0) = (0 :: u32)" by (simp add: numeral_eq_Suc)
  then show "di_size (at_inode zeros small_ino) = 0" by (simp add: at_inode_def small_ino_def di_dec_def)
qed (simp add: at_inode_def)

lemma small_empty: "n_blocks (at_inode zeros small_ino) = 0" "file_data zeros small_ino = []"
  using n_blocks_bounds(1) [of "at_inode zeros small_ino"] at_inode_small(1)
  by (simp_all add: file_data_def)

lemma small_file: "is_file 24 small_fs 20 zeros small_ino"
proof -
  note small_empty(1)
  moreover have "\<not> slot_in 0 s" for s by (cases s) auto
  ultimately have "file_ok 24 [] small_fs 20 zeros (at_inode zeros small_ino)"
    using at_inode_small by (simp add: file_ok_def di_wf_def)
  then show ?thesis
    by (simp add: is_file_def place_ok_def fs_geom_def bm_ok_def bm_block_def small_fs_def small_ino_def)
qed

lemma small_free: "free_blocks small_fs 20 zeros = {4..<24}"
  by (auto simp: free_blocks_def used_def small_fs_def bm_bit_def blk_bit_def dec_words_zero less_mult_imp_div_less)

lemma small_room:
  "slots ((0 + length [7, 8 :: u8] + 511) div 512) - slots (n_blocks (at_inode zeros small_ino)) \<le> card (free_blocks small_fs 20 zeros)"
  unfolding small_free small_empty by (simp add: slots_def)

theorem file_write_correct_witness:
  "\<exists>st' V'. inode_write_at block_file small_fs 0 [7, 8] small_ino zero_disk = Inr (2, st')
    \<and> bf.sok 24 [] V' st' \<and> file_data V' small_ino = [7, 8]"
proof -
  from file_write_correct [OF bf.block_device_axioms zero_disk_ok small_file _ _ _ small_room] obtain st' V' where
    "inode_write_at block_file small_fs 0 [7, 8] small_ino zero_disk = Inr (length [7, 8 :: u8], st')" "bf.sok 24 [] V' st'"
    "file_data V' small_ino = take 0 (file_data zeros small_ino) @ [7, 8] @ drop (0 + length [7, 8 :: u8]) (file_data zeros small_ino)"
    by auto
  then show ?thesis by (intro exI [of _ st'] exI [of _ V']) (simp add: small_empty)
qed

text \<open>The same disk after two bytes were written to the file.\<close>

lemma small_written:
  obtains st V where "inode_write_at block_file small_fs 0 [7, 8] small_ino zero_disk = Inr (2, st)" and "bf.sok 24 [] V st"
    and "is_file 24 small_fs 20 V small_ino" and "file_data V small_ino = [7, 8]"
proof -
  from bf.inode_write_at_runs [OF small_file bf.sok_disk_ok [OF zero_disk_ok] _ _ _ small_room] obtain V where
    r: "bf.runs 24 [] (inode_write_at block_file small_fs 0 [7, 8] small_ino) zeros (length [7, 8 :: u8]) V"
    and w: "wrote 24 small_fs 20 small_ino 0 [7, 8] zeros V"
    by auto
  from bf.runsD [OF r zero_disk_ok] obtain st where "inode_write_at block_file small_fs 0 [7, 8] small_ino zero_disk = Inr (2, st)" "bf.sok 24 [] V st"
    by (auto simp: numeral_2_eq_2)
  with w show ?thesis by (intro that) (auto simp: wrote_def small_empty)
qed

text \<open>
  C19. Reading a file returns the bytes of the file from the given position, as many as the
  buffer takes and the file has, and changes neither the file nor any other block.
\<close>

theorem file_read_correct:
  assumes dev: "block_device D blocks" and st: "block_device.sok D blocks n [] V st" and f: "is_file n fs N V ino"
  shows "\<exists>st'. inode_read_at D offset buf ino st
      = Inr ((length (take (length buf) (drop offset (file_data V ino))),
              overwrite 0 (take (length buf) (drop offset (file_data V ino))) buf), st')
    \<and> block_device.sok D blocks n [] V st'"
  using block_device.runsD [OF dev block_device.inode_read_at_runs [OF dev f block_device.sok_disk_ok [OF dev st]] st] .

theorem file_read_correct_witness:
  "\<exists>st st'. inode_write_at block_file small_fs 0 [7, 8] small_ino zero_disk = Inr (2, st)
    \<and> inode_read_at block_file 1 [9, 9] small_ino st = Inr ((1, [8, 9]), st')"
proof -
  obtain st V where w: "inode_write_at block_file small_fs 0 [7, 8] small_ino zero_disk = Inr (2, st)"
    and V: "bf.sok 24 [] V st" "is_file 24 small_fs 20 V small_ino" "file_data V small_ino = [7, 8]" by (rule small_written)
  from file_read_correct [OF bf.block_device_axioms V(1,2), of 1 "[9, 9]"] w show ?thesis by (auto simp: V(3) overwrite_def)
qed

end
