(* ===== verification/Dir_Spec.thy ===== *)
theory Dir_Spec
  imports File_Ops
begin

text \<open>
  The file system as a whole: the inodes in use, the blocks of their files, and the directory of
  the root inode. The files are given by the list of their contents, that of the directory first;
  \<open>files_ok\<close> says that the disk holds these files, that no two of them share a block and that
  every block in use belongs to one of them. Creating a file appends to the list and writing to
  a file replaces one of its elements.
\<close>

section \<open>The places of inodes\<close>

definition ino :: "easy_fs \<Rightarrow> nat \<Rightarrow> inode" where
  "ino fs i = (let (b, off) = efs_get_disk_inode_pos fs (word_of_nat i) in inode_new (word_of_nat i) b off)"

abbreviation ia :: "easy_fs \<Rightarrow> nat" where "ia fs \<equiv> unat (efs_inode_area_start fs)"

definition n_inodes :: "easy_fs \<Rightarrow> nat" where
  "n_inodes fs = bm_blocks (efs_inode_bitmap fs) * 4096"

text \<open>The super block, the inode bitmap, the inodes, the data bitmap and the data blocks follow one another on the disk.\<close>

definition layout_ok :: "nat \<Rightarrow> easy_fs \<Rightarrow> nat \<Rightarrow> bool" where
  "layout_ok n fs N \<longleftrightarrow> fs_geom n [] fs N \<and> 0 < bm_start (efs_inode_bitmap fs)
     \<and> bm_start (efs_inode_bitmap fs) + bm_blocks (efs_inode_bitmap fs) \<le> ia fs
     \<and> ia fs + bm_blocks (efs_inode_bitmap fs) * 1024 \<le> bm_start (efs_data_bitmap fs)
     \<and> n_inodes fs \<le> 2 ^ 32"

lemma layout_less:
  assumes "layout_ok n fs N" and "i < n_inodes fs"
  shows "ia fs + i div 4 < bm_start (efs_data_bitmap fs)" and "bm_start (efs_data_bitmap fs) \<le> ds fs"
    and "ds fs \<le> n" and "n < 2 ^ 32"
proof -
  have "i div 4 < bm_blocks (efs_inode_bitmap fs) * 1024"
    using assms(2) by (simp add: n_inodes_def less_mult_imp_div_less)
  with assms(1) show "ia fs + i div 4 < bm_start (efs_data_bitmap fs)" unfolding layout_ok_def by linarith
  show "bm_start (efs_data_bitmap fs) \<le> ds fs" "ds fs \<le> n" "n < 2 ^ 32"
    using assms(1) by (auto simp: layout_ok_def fs_geom_def)
qed

lemma ino_place:
  assumes "layout_ok n fs N" and "i < n_inodes fs"
  shows "in_block_id (ino fs i) = ia fs + i div 4" and "in_block_offset (ino fs i) = i mod 4 * 128"
    and "in_inode_id (ino fs i) = i" and "in_nlink (ino fs i) = 1"
proof -
  note lt = layout_less [OF assms]
  have lt2: "ia fs + i div 4 < 2 ^ 32" using lt by linarith
  have i: "i < 2 ^ 32" using assms by (simp add: layout_ok_def)
  have ui: "unat (word_of_nat i :: u32) = i" using i by (rule unat_of_nat32)
  have "unat (word_of_nat i div 4 :: u32) = i div 4" by (simp add: unat_div ui)
  then have "unat (efs_inode_area_start fs + word_of_nat i div 4) = ia fs + i div 4"
    using lt2 by (subst unat_add_lem [THEN iffD1]) simp_all
  then show "in_block_id (ino fs i) = ia fs + i div 4" "in_block_offset (ino fs i) = i mod 4 * 128"
    "in_inode_id (ino fs i) = i" "in_nlink (ino fs i) = 1"
    by (simp_all add: ino_def efs_get_disk_inode_pos_def inode_new_def Let_def DISK_INODE_SZ_def BLOCK_SZ_def ui unat_mod)
qed

lemma ino_ok:
  assumes "layout_ok n fs N" and "i < n_inodes fs"
  shows "place_ok n fs N (ino fs i)"
proof -
  have "i mod 4 * 128 + 128 \<le> 512" by simp
  then show ?thesis
    using assms(1) layout_less [OF assms] ino_place [OF assms] by (auto simp: place_ok_def layout_ok_def bm_block_def)
qed

lemma ino_apart:
  assumes "layout_ok n fs N" and "i < n_inodes fs" and "j < n_inodes fs" and "i \<noteq> j"
  shows "in_block_id (ino fs i) \<noteq> in_block_id (ino fs j) \<or> in_block_offset (ino fs i) + 128 \<le> in_block_offset (ino fs j)
       \<or> in_block_offset (ino fs j) + 128 \<le> in_block_offset (ino fs i)"
proof -
  have "i div 4 \<noteq> j div 4 \<or> i mod 4 \<noteq> j mod 4" using assms(4) by (metis div_mult_mod_eq)
  moreover have "a < b \<Longrightarrow> a * 128 + 128 \<le> b * 128" for a b :: nat by simp
  ultimately show ?thesis
    unfolding ino_place [OF assms(1,2)] ino_place [OF assms(1,3)] by (metis add_left_imp_eq linorder_neqE_nat)
qed

text \<open>Changing one inode on the disk leaves the others.\<close>

lemma at_inode_other:
  assumes "layout_ok n fs N" and "i < n_inodes fs" and "j < n_inodes fs" and "i \<noteq> j"
    and "disk_ok n V" and "length bs \<le> 128"
  shows "at_inode (V(in_block_id (ino fs i) := overwrite (in_block_offset (ino fs i)) bs (V (in_block_id (ino fs i))))) (ino fs j)
    = at_inode V (ino fs j)"
proof (cases "in_block_id (ino fs i) = in_block_id (ino fs j)")
  case True
  have len: "length (V (in_block_id (ino fs j))) = 512"
    using ino_ok [OF assms(1,3)] assms(5) by (auto simp: place_ok_def fs_geom_def disk_ok_def)
  have off: "in_block_offset (ino fs i) + 128 \<le> 512" "in_block_offset (ino fs j) + 128 \<le> 512"
    using ino_ok [OF assms(1,2)] ino_ok [OF assms(1,3)] by (auto simp: place_ok_def)
  have "take 128 (drop (in_block_offset (ino fs j)) (overwrite (in_block_offset (ino fs i)) bs (V (in_block_id (ino fs j)))))
      = take 128 (drop (in_block_offset (ino fs j)) (V (in_block_id (ino fs j))))"
  proof (cases "in_block_offset (ino fs j) + 128 \<le> in_block_offset (ino fs i)")
    case True
    then show ?thesis using len off assms(6) by (intro take_drop_overwrite_before) auto
  next
    case False
    with ino_apart [OF assms(1-4)] \<open>in_block_id (ino fs i) = in_block_id (ino fs j)\<close>
    have "in_block_offset (ino fs i) + 128 \<le> in_block_offset (ino fs j)" by blast
    then show ?thesis using len off assms(6) by (intro take_drop_overwrite_after) auto
  qed
  then show ?thesis using True by (simp add: at_inode_def)
qed (simp add: at_inode_def)

section \<open>The files of a file system\<close>

abbreviation owns :: "easy_fs \<Rightarrow> (nat \<Rightarrow> u8 list) \<Rightarrow> nat \<Rightarrow> nat \<Rightarrow> bool" where
  "owns fs V i b \<equiv> file_block V (at_inode V (ino fs i)) b"

definition files_core :: "nat \<Rightarrow> easy_fs \<Rightarrow> nat \<Rightarrow> (nat \<Rightarrow> u8 list) \<Rightarrow> u8 list list \<Rightarrow> bool" where
  "files_core n fs N V cs \<longleftrightarrow> disk_ok n V \<and> layout_ok n fs N \<and> length cs \<le> n_inodes fs
     \<and> (\<forall>i < length cs. is_file n fs N V (ino fs i) \<and> file_data V (ino fs i) = cs ! i
          \<and> di_type (at_inode V (ino fs i)) = (if i = 0 then Directory else File))
     \<and> (\<forall>i < length cs. \<forall>j < length cs. \<forall>b. i \<noteq> j \<longrightarrow> owns fs V i b \<longrightarrow> \<not> owns fs V j b)
     \<and> (\<forall>b. used fs V b \<longrightarrow> (\<exists>i < length cs. owns fs V i b))"

definition inodes_used :: "easy_fs \<Rightarrow> (nat \<Rightarrow> u8 list) \<Rightarrow> nat \<Rightarrow> bool" where
  "inodes_used fs V k \<longleftrightarrow> (\<forall>j < n_inodes fs. bm_bit (efs_inode_bitmap fs) V j \<longleftrightarrow> j < k)"

text \<open>The super block on the disk describes the file system.\<close>

definition opened :: "super_block \<Rightarrow> easy_fs" where
  "opened sb =
     (let inode_total_blocks = sb_inode_bitmap_blocks sb + sb_inode_area_blocks sb in
      \<lparr>efs_inode_bitmap = bitmap_new 1 (unat (sb_inode_bitmap_blocks sb)),
       efs_data_bitmap = bitmap_new (unat (1 + inode_total_blocks)) (unat (sb_data_bitmap_blocks sb)),
       efs_inode_area_start = 1 + sb_inode_bitmap_blocks sb,
       efs_data_area_start = 1 + inode_total_blocks + sb_data_bitmap_blocks sb\<rparr>)"

definition super_ok :: "easy_fs \<Rightarrow> (nat \<Rightarrow> u8 list) \<Rightarrow> bool" where
  "super_ok fs V \<longleftrightarrow> super_block_is_valid (sb_dec (take 24 (V 0))) \<and> opened (sb_dec (take 24 (V 0))) = fs"

definition files_ok :: "nat \<Rightarrow> easy_fs \<Rightarrow> nat \<Rightarrow> (nat \<Rightarrow> u8 list) \<Rightarrow> u8 list list \<Rightarrow> bool" where
  "files_ok n fs N V cs \<longleftrightarrow> files_core n fs N V cs \<and> inodes_used fs V (length cs) \<and> super_ok fs V"

lemma files_coreD:
  assumes "files_core n fs N V cs"
  shows "disk_ok n V" and "layout_ok n fs N" and "length cs \<le> n_inodes fs"
    and "i < length cs \<Longrightarrow> is_file n fs N V (ino fs i)"
    and "i < length cs \<Longrightarrow> file_data V (ino fs i) = cs ! i"
    and "i < length cs \<Longrightarrow> di_type (at_inode V (ino fs i)) = (if i = 0 then Directory else File)"
    and "i < length cs \<Longrightarrow> j < length cs \<Longrightarrow> i \<noteq> j \<Longrightarrow> owns fs V i b \<Longrightarrow> \<not> owns fs V j b"
    and "used fs V b \<Longrightarrow> \<exists>i < length cs. owns fs V i b"
  using assms unfolding files_core_def by blast+

lemma files_separate:
  assumes "files_core n fs N V cs" and "i < length cs" and "j < length cs" and "i \<noteq> j"
  shows "separate V (ino fs i) (ino fs j)"
  unfolding separate_def
  using ino_apart [OF files_coreD(2) [OF assms(1)] _ _ assms(4)] files_coreD(7) [OF assms(1-4)] files_coreD(3) [OF assms(1)] assms(2,3)
  by auto

lemma files_cong:
  assumes f: "files_core n fs N V cs" and d: "disk_ok n V'" and used: "\<And>b. used fs V' b \<longleftrightarrow> used fs V b"
    and blocks: "\<And>b. ds fs \<le> b \<Longrightarrow> V' b = V b" and at: "\<And>i. i < length cs \<Longrightarrow> at_inode V' (ino fs i) = at_inode V (ino fs i)"
  shows "files_core n fs N V' cs"
proof -
  have same: "is_file n fs N V' (ino fs i)" "file_data V' (ino fs i) = file_data V (ino fs i)"
    "owns fs V' i b = owns fs V i b" if i: "i < length cs" for i b
  proof -
    note fi = files_coreD(4) [OF f i]
    have "V' b = V b" if "owns fs V i b" for b
      using used_ge [OF file_block_used [OF is_file_bounds(6) [OF fi] that]] by (rule blocks)
    note fu = file_unchanged [OF fi used [THEN iffD2] this at [OF i]]
    show "is_file n fs N V' (ino fs i)" by (rule fu(1))
    show "file_data V' (ino fs i) = file_data V (ino fs i)" by (rule fu(2))
    show "owns fs V' i b = owns fs V i b" using fu(3) by simp
  qed
  note fd = files_coreD [OF f]
  show ?thesis
    unfolding files_core_def
  proof (intro conjI allI impI)
    fix i j b
    assume "i < length cs" "j < length cs" "i \<noteq> j" "owns fs V' i b"
    with same fd(7) show "\<not> owns fs V' j b" by metis
  next
    fix b
    assume "used fs V' b"
    with used fd(8) same show "\<exists>i < length cs. owns fs V' i b" by metis
  qed (use fd(2,3,5,6) d at same in simp_all)
qed

text \<open>Both depend on the blocks before the inodes only.\<close>

lemma front_cong:
  assumes "layout_ok n fs N" and "\<And>b. b < ia fs \<Longrightarrow> V' b = V b"
  shows "inodes_used fs V' k \<longleftrightarrow> inodes_used fs V k" and "super_ok fs V' \<longleftrightarrow> super_ok fs V"
proof -
  have "bm_start (efs_inode_bitmap fs) + j div 4096 < ia fs" if "j < n_inodes fs" for j
    using that assms(1) less_mult_imp_div_less [of j "bm_blocks (efs_inode_bitmap fs)" 4096]
    unfolding layout_ok_def n_inodes_def by linarith
  then show "inodes_used fs V' k \<longleftrightarrow> inodes_used fs V k" using assms(2) by (simp add: inodes_used_def bm_bit_def)
  have "0 < ia fs" using assms(1) by (simp add: layout_ok_def)
  then show "super_ok fs V' \<longleftrightarrow> super_ok fs V" using assms(2) by (simp add: super_ok_def)
qed

section \<open>Blocks in use\<close>

text \<open>The number of blocks of a file with the given contents, index blocks included.\<close>

definition blocks_of :: "u8 list \<Rightarrow> nat" where
  "blocks_of xs = slots ((length xs + 511) div 512)"

definition cost :: "u8 list list \<Rightarrow> nat" where
  "cost cs = sum_list (map blocks_of cs)"

lemma card_slots: "card {s. slot_in m s} = slots m"
proof -
  have "{s. slot_in m s} = slot_at ` {..< slots m}"
  proof (intro set_eqI iffI)
    fix s assume "s \<in> {s. slot_in m s}"
    then show "s \<in> slot_at ` {..< slots m}" by (intro image_eqI [of _ _ "slot_pos s"]) (auto simp: slot_in_iff)
  qed (auto simp: slot_in_iff)
  moreover have "inj_on slot_at {..< slots m}" by (rule inj_on_inverseI [where g = slot_pos]) simp
  ultimately show ?thesis by (simp add: card_image)
qed

lemma card_file_blocks:
  assumes "file_ok n H fs N V di"
  shows "card {b. file_block V di b} = slots (n_blocks di)"
proof -
  have wf: "di_wf n H V di (n_blocks di)" using assms by (simp add: file_ok_def)
  have "{b. file_block V di b} = (\<lambda>s. unat (slot_val V di s)) ` {s. slot_in (n_blocks di) s}"
    by (auto simp: file_block_def)
  moreover have "inj_on (\<lambda>s. unat (slot_val V di s)) {s. slot_in (n_blocks di) s}"
    using di_wf_inj [OF wf] by (intro inj_onI) simp
  ultimately show ?thesis by (simp add: card_image card_slots)
qed

lemma free_blocks_count:
  assumes f: "files_core n fs N V cs"
  shows "card (free_blocks fs N V) = N - cost cs" and "cost cs \<le> N"
proof -
  note fd = files_coreD [OF f]
  let ?B = "\<lambda>i. {b. owns fs V i b}" and ?A = "{ds fs..<ds fs + N}"
  have ok: "file_ok n [] fs N V (at_inode V (ino fs i))" if "i < length cs" for i
    using is_file_bounds(6) [OF fd(4) [OF that]] .
  have sub: "?B i \<subseteq> ?A" if "i < length cs" for i
  proof
    fix b assume b: "b \<in> ?B i"
    then have "b < ds fs + N" using ok [OF that] by (auto simp: file_ok_def file_block_def)
    moreover have "ds fs \<le> b" using used_ge [OF file_block_used [OF ok [OF that]]] b by blast
    ultimately show "b \<in> ?A" by simp
  qed
  have card: "card (?B i) = blocks_of (cs ! i)" if "i < length cs" for i
  proof -
    have "n_blocks (at_inode V (ino fs i)) = (length (cs ! i) + 511) div 512"
      using n_blocks_bounds(1) ok [OF that] fd(5) [OF that] by (metis file_ok_def length_file_data)
    then show ?thesis using card_file_blocks [OF ok [OF that]] by (simp add: blocks_of_def)
  qed
  have fin: "finite (?B i)" if "i < length cs" for i using sub [OF that] by (rule finite_subset) simp
  have U: "card (\<Union>i \<in> {..<length cs}. ?B i) = cost cs"
  proof -
    have "card (\<Union>i \<in> {..<length cs}. ?B i) = (\<Sum>i \<in> {..<length cs}. card (?B i))"
      by (rule card_UN_disjoint) (use fin fd(7) in auto)
    also have "\<dots> = (\<Sum>i \<in> {..<length cs}. blocks_of (cs ! i))" using card by simp
    also have "\<dots> = cost cs" by (simp add: cost_def sum_list_sum_nth atLeast0LessThan)
    finally show ?thesis .
  qed
  have "free_blocks fs N V = ?A - (\<Union>i \<in> {..<length cs}. ?B i)"
    using fd(8) file_block_used [OF ok] by (auto simp: free_blocks_def)
  moreover have US: "(\<Union>i \<in> {..<length cs}. ?B i) \<subseteq> ?A" using sub by blast
  ultimately show "card (free_blocks fs N V) = N - cost cs"
    using U by (simp add: card_Diff_subset [OF finite_subset [OF US]])
  show "cost cs \<le> N" using card_mono [OF _ US] U by simp
qed

section \<open>Writing to a file\<close>

lemma files_wrote:
  assumes f: "files_core n fs N V cs" and i: "i < length cs" and w: "wrote n fs N (ino fs i) off buf V V'"
  shows "files_core n fs N V' (cs[i := take off (cs ! i) @ buf @ drop (off + length buf) (cs ! i)])"
proof -
  note fd = files_coreD [OF f]
  let ?cs = "cs[i := take off (cs ! i) @ buf @ drop (off + length buf) (cs ! i)]"
  have own: "owns fs V i b \<Longrightarrow> owns fs V' i b" "used fs V' b \<longleftrightarrow> used fs V b \<or> owns fs V' i b" for b
    using w by (auto simp: wrote_def)
  have other: "is_file n fs N V' (ino fs j)" "file_data V' (ino fs j) = file_data V (ino fs j)"
    "separate V' (ino fs i) (ino fs j)" if j: "j < length cs" "j \<noteq> i" for j
    using separate_unchanged [OF w fd(4) [OF i] fd(4) [OF j(1)] files_separate [OF f i j(1)] fd(1)] j(2) by auto
  have at: "at_inode V' (ino fs j) = at_inode V (ino fs j) \<and> (\<forall>b. owns fs V' j b = owns fs V j b)" if j: "j < length cs" "j \<noteq> i" for j
    using separate_unchanged(4,5) [OF w fd(4) [OF i] fd(4) [OF j(1)] files_separate [OF f i j(1)] fd(1)] j(2) by simp
  show ?thesis
    unfolding files_core_def length_list_update
  proof (intro conjI allI impI)
    show "disk_ok n V'" using w by (simp add: wrote_def)
    show "layout_ok n fs N" "length cs \<le> n_inodes fs" by (rule fd)+
    fix j assume j: "j < length cs"
    show "is_file n fs N V' (ino fs j)" using other(1) [OF j] w by (cases "j = i") (auto simp: wrote_def)
    show "file_data V' (ino fs j) = ?cs ! j"
      using other(2) [OF j] w fd(5) j by (cases "j = i") (auto simp: wrote_def)
    show "di_type (at_inode V' (ino fs j)) = (if j = 0 then Directory else File)"
      using at [OF j] w fd(6) [OF j] by (cases "j = i") (auto simp: wrote_def)
  next
    fix j k b
    assume jk: "j < length cs" "k < length cs" "j \<noteq> k" "owns fs V' j b"
    show "\<not> owns fs V' k b"
    proof (cases "j = i \<or> k = i")
      case True
      then show ?thesis using other(3) [of j] other(3) [of k] jk by (auto simp: separate_def)
    next
      case False
      then show ?thesis using fd(7) [OF jk(1-3)] at jk by metis
    qed
  next
    fix b assume "used fs V' b"
    then consider "owns fs V' i b" | "used fs V b" using own(2) by blast
    then show "\<exists>j < length cs. owns fs V' j b"
    proof cases
      case 2
      then obtain j where "j < length cs" "owns fs V j b" using fd(8) by blast
      then show ?thesis using own(1) at by (cases "j = i") auto
    qed (use i in blast)
  qed
qed

context block_device
begin

lemma files_modify_runs:
  assumes f: "files_ok n fs N V cs" and i: "i < length cs"
    and buf: "buf \<noteq> []" "off \<le> length (cs ! i)" "off + length buf \<le> max_blocks * 512"
    and cs': "cs' = cs[i := take off (cs ! i) @ buf @ drop (off + length buf) (cs ! i)]"
    and room: "cost cs' \<le> N"
    and c: "\<And>di' V2. runs n [(in_block_id (ino fs i), True)]
        (a_bind (inode_increase_size D fs (word_of_nat (off + length buf)) (at_inode V (ino fs i))) (\<lambda>di'.
         a_bind (di_write_at D off buf di') (\<lambda>k. a_ret (k, di')))) V (length buf, di') V2
      \<Longrightarrow> runs n [(in_block_id (ino fs i), True)] (g (at_inode V (ino fs i))) V (v, di') V2"
  shows "\<exists>V'. runs n [] (modify_disk_inode D (ino fs i) g) V v V' \<and> files_ok n fs N V' cs'"
proof -
  have fc: "files_core n fs N V cs" using f by (simp add: files_ok_def)
  note fd = files_coreD [OF fc]
  let ?di = "at_inode V (ino fs i)"
  have isf: "is_file n fs N V (ino fs i)" by (rule fd(4) [OF i])
  have nb: "n_blocks ?di = (length (cs ! i) + 511) div 512"
    using n_blocks_bounds(1) is_file_bounds(6) [OF isf] fd(5) [OF i] by (metis file_ok_def length_file_data)
  have len: "length (take off (cs ! i) @ buf @ drop (off + length buf) (cs ! i)) = max (length (cs ! i)) (off + length buf)"
    by (rule splice(1) [OF buf(2)])
  have cost: "cost cs' + blocks_of (cs ! i) = cost cs + blocks_of (take off (cs ! i) @ buf @ drop (off + length buf) (cs ! i))"
    using i elem_le_sum_list [of i "map blocks_of cs"] by (simp add: cost_def cs' map_update sum_list_update)
  have "slots ((off + length buf + 511) div 512) \<le> blocks_of (take off (cs ! i) @ buf @ drop (off + length buf) (cs ! i))"
    unfolding blocks_of_def len by (intro slots_mono div_le_mono) simp
  then have free: "slots ((off + length buf + 511) div 512) - slots (n_blocks ?di) \<le> card (free_blocks fs N V)"
    using cost room free_blocks_count [OF fc] unfolding nb blocks_of_def [symmetric] by linarith
  have off: "off \<le> length (file_data V (ino fs i))" using buf(2) fd(5) [OF i] by simp
  from modify_inode_wrote [where g = g, OF isf fd(1) buf(1) off buf(3) free c] obtain V' where
    r: "runs n [] (modify_disk_inode D (ino fs i) g) V v V'" and w: "wrote n fs N (ino fs i) off buf V V'" by blast
  have front: "V' b = V b" if b: "b < ia fs" for b
  proof (rule ccontr)
    assume ne: "V' b \<noteq> V b"
    have i': "i < n_inodes fs" using i fd(3) by simp
    have lt: "b < bm_start (efs_data_bitmap fs)" "b < ds fs" using b layout_less [OF fd(2) i'] by linarith+
    have "b \<noteq> in_block_id (ino fs i)" using b ino_place(1) [OF fd(2) i'] by simp
    then have "owns fs V' i b" using w ne lt(1) by (auto simp: wrote_def bm_block_def)
    then have "used fs V' b" using w by (auto simp: wrote_def)
    with used_ge lt(2) show False by (meson not_less)
  qed
  have "files_ok n fs N V' cs'"
    using files_wrote [OF fc i w] front_cong [OF fd(2) front] f by (simp add: files_ok_def cs')
  with r show ?thesis by blast
qed

lemma files_write_runs:
  assumes "files_ok n fs N V cs" and "i < length cs"
    and "buf \<noteq> []" "off \<le> length (cs ! i)" "off + length buf \<le> max_blocks * 512"
    and "cost (cs[i := take off (cs ! i) @ buf @ drop (off + length buf) (cs ! i)]) \<le> N"
  shows "\<exists>V'. runs n [] (inode_write_at D fs off buf (ino fs i)) V (length buf) V'
    \<and> files_ok n fs N V' (cs[i := take off (cs ! i) @ buf @ drop (off + length buf) (cs ! i)])"
  unfolding inode_write_at_def by (rule files_modify_runs [OF assms(1-5) refl assms(6)])

lemma files_read_runs:
  assumes "files_ok n fs N V cs" and "i < length cs"
  shows "runs n [] (inode_read_at D off buf (ino fs i)) V
    (length (take (length buf) (drop off (cs ! i))), overwrite 0 (take (length buf) (drop off (cs ! i))) buf) V"
proof -
  have fc: "files_core n fs N V cs" using assms by (simp add: files_ok_def)
  show ?thesis
    using inode_read_at_runs [OF files_coreD(4) [OF fc assms(2)] files_coreD(1) [OF fc]] files_coreD(5) [OF fc assms(2)] by simp
qed

end

section \<open>Creating an inode\<close>

lemma layout_apart:
  assumes "layout_ok n fs N" and "b < bm_start (efs_data_bitmap fs)"
  shows "\<not> bm_block (efs_data_bitmap fs) b" and "b < ds fs"
  using assms by (auto simp: layout_ok_def fs_geom_def bm_block_def)

text \<open>Writing the bytes of one inode.\<close>

definition put_inode :: "easy_fs \<Rightarrow> nat \<Rightarrow> disk_inode \<Rightarrow> (nat \<Rightarrow> u8 list) \<Rightarrow> nat \<Rightarrow> u8 list" where
  "put_inode fs i di V =
     V(in_block_id (ino fs i) := overwrite (in_block_offset (ino fs i)) (di_enc di) (V (in_block_id (ino fs i))))"

lemma put_inode:
  assumes l: "layout_ok n fs N" and i: "i < n_inodes fs" and d: "disk_ok n V" and di: "length (di_direct di) = 28"
  shows "disk_ok n (put_inode fs i di V)" and "used fs (put_inode fs i di V) b = used fs V b"
    and "ds fs \<le> b \<Longrightarrow> put_inode fs i di V b = V b"
    and "j < n_inodes fs \<Longrightarrow> at_inode (put_inode fs i di V) (ino fs j) = (if j = i then di else at_inode V (ino fs j))"
    and "b < ia fs \<Longrightarrow> put_inode fs i di V b = V b"
proof -
  let ?ib = "in_block_id (ino fs i)" and ?o = "in_block_offset (ino fs i)"
  note pl = ino_place [OF l i] and lt = layout_less [OF l i]
  have o: "?o + 128 \<le> 512" and ib: "?ib < n" using ino_ok [OF l i] by (auto simp: place_ok_def fs_geom_def)
  have len: "length (V ?ib) = 512" using d ib by (simp add: disk_ok_def)
  show "disk_ok n (put_inode fs i di V)" using d o len di by (auto simp: put_inode_def disk_ok_def)
  have ibb: "?ib < bm_start (efs_data_bitmap fs)" using pl(1) lt(1) by simp
  show "used fs (put_inode fs i di V) b = used fs V b"
    by (rule used_cong) (use layout_apart(1) [OF l ibb] in \<open>auto simp: put_inode_def\<close>)
  show "ds fs \<le> b \<Longrightarrow> put_inode fs i di V b = V b"
    using layout_apart(2) [OF l ibb] by (auto simp: put_inode_def)
  show "at_inode (put_inode fs i di V) (ino fs j) = (if j = i then di else at_inode V (ino fs j))" if j: "j < n_inodes fs"
  proof (cases "j = i")
    case True
    then show ?thesis using len o di by (simp add: put_inode_def at_inode_def di_dec_overwrite)
  next
    case False
    then show ?thesis using at_inode_other [OF l i j _ d, of "di_enc di"] di by (simp add: put_inode_def)
  qed
  show "b < ia fs \<Longrightarrow> put_inode fs i di V b = V b" using pl(1) by (auto simp: put_inode_def)
qed

lemma files_put_same:
  assumes f: "files_ok n fs N V cs" and i: "i < length cs"
  shows "files_ok n fs N (put_inode fs i (at_inode V (ino fs i)) V) cs"
proof -
  have fc: "files_core n fs N V cs" using f by (simp add: files_ok_def)
  note fd = files_coreD [OF fc]
  have i': "i < n_inodes fs" using i fd(3) by simp
  have "length (di_direct (at_inode V (ino fs i))) = 28" by (simp add: at_inode_def)
  note p = put_inode [OF fd(2) i' fd(1) this]
  have "files_core n fs N (put_inode fs i (at_inode V (ino fs i)) V) cs"
    by (rule files_cong [OF fc p(1-3)]) (use p(4) fd(3) in auto)
  with f front_cong [OF fd(2) p(5)] show ?thesis by (simp add: files_ok_def)
qed

lemma empty_inode:
  assumes "layout_ok n fs N" and "i < n_inodes fs" and "di_size (at_inode V (ino fs i)) = 0"
  shows "is_file n fs N V (ino fs i)" and "file_data V (ino fs i) = []" and "\<not> owns fs V i b"
proof -
  have n0: "n_blocks (at_inode V (ino fs i)) = 0" using n_blocks_bounds(1) [of "at_inode V (ino fs i)"] assms(3) by simp
  moreover have "\<not> slot_in 0 s" for s by (cases s) auto
  ultimately show "is_file n fs N V (ino fs i)" "file_data V (ino fs i) = []" "\<not> owns fs V i b"
    using ino_ok [OF assms(1,2)] assms(3)
    by (auto simp: is_file_def file_ok_def di_wf_def file_data_def file_block_def at_inode_def)
qed

text \<open>A new inode, and its bit in the bitmap.\<close>

lemma files_new:
  assumes f: "files_ok n fs N V cs" and i: "length cs < n_inodes fs"
    and d1: "disk_ok n V1" and V1: "\<And>b. \<not> (bm_start (efs_inode_bitmap fs) \<le> b \<and> b < bm_start (efs_inode_bitmap fs) + bm_blocks (efs_inode_bitmap fs)) \<Longrightarrow> V1 b = V b"
    and u1: "inodes_used fs V1 (Suc (length cs))"
    and di: "di_size di = 0" "length (di_direct di) = 28" "di_type di = (if cs = [] then Directory else File)"
  shows "files_ok n fs N (put_inode fs (length cs) di V1) (cs @ [[]])"
proof -
  let ?k = "length cs" and ?V = "put_inode fs (length cs) di V1"
  have fc: "files_core n fs N V cs" using f by (auto simp: files_ok_def)
  note fd = files_coreD [OF fc]
  note p = put_inode [OF fd(2) i d1 di(2)]
  have bm: "b < ia fs" if "bm_start (efs_inode_bitmap fs) \<le> b \<and> b < bm_start (efs_inode_bitmap fs) + bm_blocks (efs_inode_bitmap fs)" for b
    using that fd(2) by (auto simp: layout_ok_def)
  have hi: "V1 b = V b" if "ia fs \<le> b" for b using V1 bm that by (meson not_less)
  have ge: "ia fs \<le> bm_start (efs_data_bitmap fs)" "ia fs \<le> ds fs" using fd(2) by (auto simp: layout_ok_def fs_geom_def)
  have used: "used fs ?V b = used fs V b" for b
    unfolding p(2) by (rule used_cong) (use hi ge in \<open>auto simp: bm_block_def\<close>)
  have at1: "at_inode V1 (ino fs j) = at_inode V (ino fs j)" if "j < n_inodes fs" for j
    using hi [of "in_block_id (ino fs j)"] ino_place(1) [OF fd(2) that] by (simp add: at_inode_def)
  have core: "files_core n fs N ?V cs"
  proof (rule files_cong [OF fc p(1) used])
    fix b assume "ds fs \<le> b"
    with p(3) hi ge show "?V b = V b" by auto
  next
    fix j assume "j < length cs"
    with p(4) [of j] at1 [of j] i show "at_inode ?V (ino fs j) = at_inode V (ino fs j)" by auto
  qed
  have atk: "at_inode ?V (ino fs ?k) = di" using p(4) [OF i] by simp
  note new = empty_inode [OF fd(2) i, of ?V, unfolded atk, OF di(1)]
  note cd = files_coreD [OF core]
  have "files_core n fs N ?V (cs @ [[]])"
    unfolding files_core_def length_append_singleton less_Suc_eq
  proof (intro conjI allI impI)
    show "disk_ok n ?V" "layout_ok n fs N" by (rule cd)+
    show "Suc (length cs) \<le> n_inodes fs" using i by simp
  next
    fix j assume "j < length cs \<or> j = length cs"
    then show "is_file n fs N ?V (ino fs j)" "file_data ?V (ino fs j) = (cs @ [[]]) ! j"
      "di_type (at_inode ?V (ino fs j)) = (if j = 0 then Directory else File)"
      using cd(4-6) [of j] new atk di(3) by (auto simp: nth_append)
  next
    fix j k b
    assume "j < length cs \<or> j = length cs" "k < length cs \<or> k = length cs" "j \<noteq> k" "owns fs ?V j b"
    then show "\<not> owns fs ?V k b" using cd(7) [of j k b] new(3) [of b] atk by auto
  next
    fix b assume "used fs ?V b"
    then show "\<exists>j. (j < length cs \<or> j = length cs) \<and> owns fs ?V j b" using cd(8) by blast
  qed
  moreover have "super_ok fs V1" using V1 [of 0] f fd(2) by (simp add: files_ok_def super_ok_def layout_ok_def)
  ultimately show ?thesis using u1 front_cong [OF fd(2) p(5)] by (simp add: files_ok_def)
qed

section \<open>Directory entries\<close>

text \<open>Names that fit into an entry and can be read back.\<close>

definition name_ok :: "u8 list \<Rightarrow> bool" where
  "name_ok nm \<longleftrightarrow> 0 \<notin> set nm \<and> length nm \<le> 27 \<and> utf8_ok nm"

definition dirent :: "u8 list \<Rightarrow> nat \<Rightarrow> u8 list" where
  "dirent nm i = nm @ replicate (28 - length nm) 0 @ le_enc 4 (word_of_nat i :: u32)"

text \<open>The file with number \<open>i\<close> of the directory has inode \<open>i + 1\<close>.\<close>

fun dir_bytes :: "nat \<Rightarrow> u8 list list \<Rightarrow> u8 list" where
  "dir_bytes i [] = []"
| "dir_bytes i (nm # nms) = dirent nm i @ dir_bytes (i + 1) nms"

lemma length_dirent [simp]: "length nm \<le> 28 \<Longrightarrow> length (dirent nm i) = 32"
  by (simp add: dirent_def)

lemma length_dir_bytes: "\<forall>nm \<in> set nms. name_ok nm \<Longrightarrow> length (dir_bytes i nms) = 32 * length nms"
  by (induction nms arbitrary: i) (auto simp: name_ok_def)

lemma dir_bytes_append: "dir_bytes i (nms @ [nm]) = dir_bytes i nms @ dirent nm (i + length nms)"
  by (induction nms arbitrary: i) auto

lemma dir_bytes_entry:
  "\<forall>nm \<in> set nms. name_ok nm \<Longrightarrow> j < length nms \<Longrightarrow> take 32 (drop (32 * j) (dir_bytes i nms)) = dirent (nms ! j) (i + j)"
proof (induction nms arbitrary: i j)
  case (Cons nm nms)
  have len: "length (dirent nm i) = 32" using Cons.prems(1) by (simp add: name_ok_def)
  show ?case
  proof (cases j)
    case (Suc j')
    then show ?thesis using Cons.IH [of j' "i + 1"] Cons.prems len by simp
  qed (use len in simp)
qed simp

lemma dirent_facts:
  assumes "name_ok nm"
  shows "dir_entry_new nm (word_of_nat i) = Inr \<lparr>de_name_bytes = nm @ replicate (28 - length nm) 0, de_inode = word_of_nat i\<rparr>"
    and "dir_entry_into_bytes \<lparr>de_name_bytes = nm @ replicate (28 - length nm) 0, de_inode = word_of_nat i\<rparr> = dirent nm i"
    and "dir_entry_name (dir_entry_from_bytes (dirent nm i)) = Inr nm"
    and "dir_entry_inode_number (dir_entry_from_bytes (dirent nm i)) = word_of_nat i"
proof -
  have "takeWhile (\<lambda>b. b \<noteq> 0) (nm @ replicate (28 - length nm) 0) = nm"
    using assms by (intro takeWhile_zero_pad) (simp add: name_ok_def)
  then show "dir_entry_name (dir_entry_from_bytes (dirent nm i)) = Inr nm"
    using assms by (simp add: dir_entry_name_def dir_entry_from_bytes_def dirent_def name_ok_def)
qed (use assms in \<open>simp_all add: dir_entry_new_def dir_entry_into_bytes_def dirent_def name_ok_def NAME_LENGTH_LIMIT_def
      sliceE_def overwrite_def dir_entry_inode_number_def dir_entry_from_bytes_def le_dec_enc\<close>)

text \<open>The position of a name in a directory.\<close>

definition dir_find :: "u8 list list \<Rightarrow> u8 list \<Rightarrow> nat option" where
  "dir_find nms nm = find (\<lambda>i. nms ! i = nm) [0..<length nms]"

lemma dir_find_None: "dir_find nms nm = None \<longleftrightarrow> nm \<notin> set nms"
  by (auto simp: dir_find_def find_None_iff in_set_conv_nth)

lemma dir_find_Some: "dir_find nms nm = Some i \<Longrightarrow> i < length nms \<and> nms ! i = nm"
  by (auto simp: dir_find_def find_Some_iff)

section \<open>The root directory\<close>

text \<open>The files of the file system by name, in the order in which they were created.\<close>

definition fs_holds :: "nat \<Rightarrow> easy_fs \<Rightarrow> nat \<Rightarrow> (nat \<Rightarrow> u8 list) \<Rightarrow> (u8 list \<times> u8 list) list \<Rightarrow> bool" where
  "fs_holds n fs N V fl \<longleftrightarrow> files_ok n fs N V (dir_bytes 1 (map fst fl) # map snd fl)
     \<and> distinct (map fst fl) \<and> (\<forall>nm \<in> set (map fst fl). name_ok nm)"

lemma efs_root_inode_eq: "efs_root_inode fs = ino fs 0"
  by (simp add: efs_root_inode_def ino_def)

lemma inode_of_id: "(let (b, off) = efs_get_disk_inode_pos fs (word_of_nat i) in inode_new (word_of_nat i) b off) = ino fs i"
  by (simp add: ino_def)

context block_device
begin

text \<open>Reading one entry, with the block of the root inode locked.\<close>

lemma read_entry_runs:
  assumes h: "fs_holds n fs N V fl" and i: "i < length fl" and sp: "length space = 32"
  shows "runs n [(in_block_id (ino fs 0), m)] (di_read_at D (DIRENT_SZ * i) space (at_inode V (ino fs 0))) V
    (32, dirent (fst (fl ! i)) (i + 1)) V"
proof -
  let ?di = "at_inode V (ino fs 0)" and ?H = "[(in_block_id (ino fs 0), m)]"
  have fc: "files_core n fs N V (dir_bytes 1 (map fst fl) # map snd fl)" and nm: "\<forall>nm \<in> set (map fst fl). name_ok nm"
    using h by (auto simp: fs_holds_def files_ok_def)
  note fd = files_coreD [OF fc]
  have root: "is_file n fs N V (ino fs 0)" and data: "file_data V (ino fs 0) = dir_bytes 1 (map fst fl)"
    using fd(4,5) [of 0] by auto
  note fb = is_file_bounds [OF root]
  have fo: "file_ok n ?H fs N V ?di" using fb(6) file_ok_held [OF fb(3)] by blast
  then have wf: "di_wf n ?H V ?di (n_blocks ?di)" and mm: "unat (di_size ?di) \<le> n_blocks ?di * 512"
    using n_blocks_bounds(2) [of ?di] by (auto simp: file_ok_def)
  have sz: "unat (di_size ?di) = 32 * length fl"
    using data length_dir_bytes [OF nm, of 1] by (metis length_file_data length_map)
  have k: "min (32 * i + length space) (unat (di_size ?di)) - 32 * i = 32" using sz sp i by simp
  have "map (fbyte V ?di) [32 * i..<32 * i + 32] = take 32 (drop (32 * i) (file_data V (ino fs 0)))"
    using sz i by (simp add: file_data_def Let_def drop_map take_map take_drop_upt)
  also have "\<dots> = dirent (fst (fl ! i)) (i + 1)"
    unfolding data using dir_bytes_entry [OF nm, of i 1] i by simp
  finally have e: "map (fbyte V ?di) [32 * i..<32 * i + 32] = dirent (fst (fl ! i)) (i + 1)" .
  have "name_ok (fst (fl ! i))" using nm i by simp
  then have "length (dirent (fst (fl ! i)) (i + 1)) = 32" by (intro length_dirent) (simp add: name_ok_def)
  then have "overwrite 0 (dirent (fst (fl ! i)) (i + 1)) space = dirent (fst (fl ! i)) (i + 1)"
    using sp by (simp add: overwrite_def)
  then show ?thesis
    using read_at_runs [OF wf _ fd(1) mm, of "32 * i" space] unfolding k e by (simp add: DIRENT_SZ_def)
qed

lemma find_inode_loop_runs:
  assumes h: "fs_holds n fs N V fl" and "\<forall>i \<in> set is. i < length fl" and "length space = 32"
  shows "runs n [(in_block_id (ino fs 0), m)] (find_inode_loop D nm (at_inode V (ino fs 0)) is space) V
    (map_option (\<lambda>i. word_of_nat (i + 1)) (find (\<lambda>i. map fst fl ! i = nm) is)) V"
  using assms(2,3)
proof (induction "is" arbitrary: space)
  case (Cons i "is")
  let ?e = "dirent (fst (fl ! i)) (i + 1)"
  have i: "i < length fl" using Cons.prems(1) by simp
  then have ok: "name_ok (fst (fl ! i))" using h by (auto simp: fs_holds_def)
  have len: "length ?e = 32" using ok by (intro length_dirent) (simp add: name_ok_def)
  note r = read_entry_runs [OF h i Cons.prems(2), of m]
  note IH = Cons.IH [OF _ len]
  show ?case
    unfolding find_inode_loop.simps
    by (rule runs_bind [OF r], unfold prod.case, rule runs_bind [OF runs_res], simp add: DIRENT_SZ_def,
        unfold Let_def, rule runs_bind [OF runs_res [OF dirent_facts(3) [OF ok]]])
      (use i IH Cons.prems(1) dirent_facts(4) [OF ok] in \<open>auto\<close>)
qed auto

lemma dir_size:
  assumes h: "fs_holds n fs N V fl"
  shows "unat (di_size (at_inode V (ino fs 0))) div DIRENT_SZ = length fl"
proof -
  have fc: "files_core n fs N V (dir_bytes 1 (map fst fl) # map snd fl)" and nm: "\<forall>nm \<in> set (map fst fl). name_ok nm"
    using h by (auto simp: fs_holds_def files_ok_def)
  have "unat (di_size (at_inode V (ino fs 0))) = 32 * length fl"
    using files_coreD(5) [OF fc, of 0] length_dir_bytes [OF nm, of 1]
    by (metis length_Cons length_file_data length_map nth_Cons_0 zero_less_Suc)
  then show ?thesis by (simp add: DIRENT_SZ_def)
qed

lemma find_inode_id_runs:
  assumes h: "fs_holds n fs N V fl"
  shows "runs n [(in_block_id (ino fs 0), m)] (find_inode_id D nm (at_inode V (ino fs 0))) V
    (map_option (\<lambda>i. word_of_nat (i + 1)) (dir_find (map fst fl) nm)) V"
proof -
  let ?di = "at_inode V (ino fs 0)"
  have fc: "files_core n fs N V (dir_bytes 1 (map fst fl) # map snd fl)" and nm: "\<forall>nm \<in> set (map fst fl). name_ok nm"
    using h by (auto simp: fs_holds_def files_ok_def)
  note fd = files_coreD [OF fc]
  note k = dir_size [OF h]
  show ?thesis
    unfolding find_inode_id_def k dir_find_def
    by (rule runs_bind [OF runs_res], use fd(6) [of 0] in \<open>simp add: di_is_dir_def\<close>)
      (use find_inode_loop_runs [OF h, of "[0..<length fl]"] in \<open>simp add: DIRENT_SZ_def\<close>)
qed

lemma root_bounds:
  assumes h: "fs_holds n fs N V fl"
  shows "in_block_id (ino fs 0) < n" and "in_block_offset (ino fs 0) + 128 \<le> 512"
    and "di_is_dir (at_inode V (ino fs 0))" and "disk_ok n V" and "layout_ok n fs N"
proof -
  have fc: "files_core n fs N V (dir_bytes 1 (map fst fl) # map snd fl)" using h by (auto simp: fs_holds_def files_ok_def)
  note fd = files_coreD [OF fc]
  show "in_block_id (ino fs 0) < n" "in_block_offset (ino fs 0) + 128 \<le> 512"
    using is_file_bounds(2,4) [OF fd(4), of 0] by auto
  show "di_is_dir (at_inode V (ino fs 0))" using fd(6) [of 0] by (simp add: di_is_dir_def)
  show "disk_ok n V" "layout_ok n fs N" by (rule fd)+
qed

lemma inode_find_runs:
  assumes h: "fs_holds n fs N V fl"
  shows "runs n [] (inode_find D fs nm (ino fs 0)) V (map_option (\<lambda>i. ino fs (i + 1)) (dir_find (map fst fl) nm)) V"
proof -
  note rb = root_bounds [OF h]
  show ?thesis
    unfolding inode_find_def read_disk_inode_def DISK_INODE_SZ_def
  proof (rule runs_read)
    show "runs n [(in_block_id (ino fs 0), False)]
       (a_bind (find_inode_id D nm (di_dec (take 128 (drop (in_block_offset (ino fs 0)) (V (in_block_id (ino fs 0)))))))
         (\<lambda>r. a_ret (map_option (\<lambda>inode_id. let (block_id, block_offset) = efs_get_disk_inode_pos fs inode_id
            in inode_new inode_id block_id block_offset) r))) V
       (map_option (\<lambda>i. ino fs (i + 1)) (dir_find (map fst fl) nm)) V"
    proof (rule runs_bind [OF find_inode_id_runs [OF h, unfolded at_inode_def, of False nm]])
      have "map_option (\<lambda>inode_id. let (block_id, block_offset) = efs_get_disk_inode_pos fs inode_id
            in inode_new inode_id block_id block_offset) (map_option (\<lambda>i. word_of_nat (i + 1)) r)
          = map_option (\<lambda>i. ino fs (i + 1)) r" for r
        by (cases r) (simp_all add: ino_def)
      then show "runs n [(in_block_id (ino fs 0), False)]
         (a_ret (map_option (\<lambda>inode_id. let (block_id, block_offset) = efs_get_disk_inode_pos fs inode_id
            in inode_new inode_id block_id block_offset)
           (map_option (\<lambda>i. word_of_nat (i + 1)) (dir_find (map fst fl) nm)))) V
         (map_option (\<lambda>i. ino fs (i + 1)) (dir_find (map fst fl) nm)) V"
        using runs_ret by metis
    qed
  qed (use rb in auto)
qed

lemma ls_loop_runs:
  assumes h: "fs_holds n fs N V fl" and "\<forall>i \<in> set is. i < length fl"
  shows "runs n [(in_block_id (ino fs 0), m)] (ls_loop D (at_inode V (ino fs 0)) is v) V
    (v @ map (\<lambda>i. fst (fl ! i)) is) V"
  using assms(2)
proof (induction "is" arbitrary: v)
  case (Cons i "is")
  have i: "i < length fl" using Cons.prems(1) by simp
  then have ok: "name_ok (fst (fl ! i))" using h by (auto simp: fs_holds_def)
  have r: "runs n [(in_block_id (ino fs 0), m)] (di_read_at D (i * DIRENT_SZ) (replicate DIRENT_SZ 0) (at_inode V (ino fs 0))) V
    (32, dirent (fst (fl ! i)) (i + 1)) V"
    using read_entry_runs [OF h i, of "replicate DIRENT_SZ 0" m] by (simp add: DIRENT_SZ_def mult.commute)
  show ?case
    unfolding ls_loop.simps
    by (rule runs_bind [OF r], unfold prod.case, rule runs_bind [OF runs_res], simp add: DIRENT_SZ_def,
        rule runs_bind [OF runs_res [OF dirent_facts(3) [OF ok]]])
      (use Cons.IH [of "v @ [fst (fl ! i)]"] Cons.prems(1) in simp)
qed auto

lemma inode_ls_runs:
  assumes h: "fs_holds n fs N V fl"
  shows "runs n [] (inode_ls D (ino fs 0)) V (map fst fl) V"
  unfolding inode_ls_def read_disk_inode_def DISK_INODE_SZ_def
proof (rule runs_read)
  have "map (\<lambda>i. fst (fl ! i)) [0..<length fl] = map fst fl" by (intro nth_equalityI) auto
  then show "runs n [(in_block_id (ino fs 0), False)]
     (ls_loop D (di_dec (take 128 (drop (in_block_offset (ino fs 0)) (V (in_block_id (ino fs 0))))))
       [0..<unat (di_size (di_dec (take 128 (drop (in_block_offset (ino fs 0)) (V (in_block_id (ino fs 0))))))) div DIRENT_SZ] [])
     V (map fst fl) V"
    using ls_loop_runs [OF h, of "[0..<length fl]" False "[]"] dir_size [OF h] by (simp add: at_inode_def)
qed (use root_bounds [OF h] in auto)

text \<open>The lookup of \<^verbatim>\<open>create\<close> locks the inode for modification and writes it back as it was.\<close>

lemma create_lookup_runs:
  assumes h: "fs_holds n fs N V fl"
  shows "runs n [] (modify_disk_inode D (ino fs 0) (\<lambda>root_inode.
       a_bind (a_res (assertE (di_is_dir root_inode))) (\<lambda>_.
       a_bind (find_inode_id D nm root_inode) (\<lambda>r. a_ret (r, root_inode))))) V
     (map_option (\<lambda>i. word_of_nat (i + 1)) (dir_find (map fst fl) nm)) (put_inode fs 0 (at_inode V (ino fs 0)) V)"
  unfolding modify_disk_inode_def DISK_INODE_SZ_def put_inode_def
proof (rule runs_modify)
  note rb = root_bounds [OF h]
  have dir: "di_is_dir (di_dec (take 128 (drop (in_block_offset (ino fs 0)) (V (in_block_id (ino fs 0))))))"
    using rb(3) by (simp add: at_inode_def)
  show "runs n [(in_block_id (ino fs 0), True)]
     (a_bind (a_bind (a_res (assertE (di_is_dir (di_dec (take 128 (drop (in_block_offset (ino fs 0)) (V (in_block_id (ino fs 0)))))))))
       (\<lambda>_. a_bind (find_inode_id D nm (di_dec (take 128 (drop (in_block_offset (ino fs 0)) (V (in_block_id (ino fs 0)))))))
         (\<lambda>r. a_ret (r, di_dec (take 128 (drop (in_block_offset (ino fs 0)) (V (in_block_id (ino fs 0)))))))))
       (\<lambda>(v, di). a_ret (v, di_enc di))) V
     (map_option (\<lambda>i. word_of_nat (i + 1)) (dir_find (map fst fl) nm), di_enc (at_inode V (ino fs 0))) V"
    by (rule runs_bind, rule runs_bind [OF runs_res], simp add: dir, rule runs_bind [OF find_inode_id_runs [OF h, unfolded at_inode_def]],
        rule runs_ret) (auto simp: at_inode_def)
  show "in_block_offset (ino fs 0) + length (di_enc (at_inode V (ino fs 0))) \<le> 512"
    using rb(2) by (simp add: at_inode_def)
qed (use root_bounds [OF h] in auto)

lemma fs_holds_lookup: "fs_holds n fs N V fl \<Longrightarrow> fs_holds n fs N (put_inode fs 0 (at_inode V (ino fs 0)) V) fl"
  using files_put_same [of n fs N V "dir_bytes 1 (map fst fl) # map snd fl" 0] by (simp add: fs_holds_def)

lemma create_existing_runs:
  assumes h: "fs_holds n fs N V fl" and nm: "nm \<in> set (map fst fl)"
  shows "\<exists>V'. runs n [] (inode_create D fs nm (ino fs 0)) V None V' \<and> fs_holds n fs N V' fl"
proof -
  have "dir_find (map fst fl) nm \<noteq> None" using nm dir_find_None by blast
  then show ?thesis
    unfolding inode_create_def
    by (intro exI [of _ "put_inode fs 0 (at_inode V (ino fs 0)) V"] conjI fs_holds_lookup [OF h]
        runs_bind [OF create_lookup_runs [OF h]]) auto
qed

lemma alloc_inode_runs:
  assumes "layout_ok n fs N" and "disk_ok n V" and "inodes_used fs V k" and "k < n_inodes fs"
  shows "\<exists>V'. runs n [] (efs_alloc_inode D fs) V (word_of_nat k) V' \<and> disk_ok n V' \<and> inodes_used fs V' (Suc k)
    \<and> (\<forall>b. \<not> (bm_start (efs_inode_bitmap fs) \<le> b \<and> b < bm_start (efs_inode_bitmap fs) + bm_blocks (efs_inode_bitmap fs)) \<longrightarrow> V' b = V b)"
proof -
  let ?bm = "efs_inode_bitmap fs"
  have ok: "bm_ok n [] ?bm" using assms(1) by (auto simp: layout_ok_def fs_geom_def bm_ok_def)
  from bitmap_alloc_runs [OF ok assms(2)] obtain r V' where run: "runs n [] (bitmap_alloc D ?bm) V r V'" and d': "disk_ok n V'"
    and out: "\<forall>b. \<not> (bm_start ?bm \<le> b \<and> b < bm_start ?bm + bm_blocks ?bm) \<longrightarrow> V' b = V b"
    and res: "case r of
         None \<Rightarrow> V' = V \<and> (\<forall>i < bm_blocks ?bm * 4096. bm_bit ?bm V i)
       | Some i \<Rightarrow> i < bm_blocks ?bm * 4096 \<and> \<not> bm_bit ?bm V i \<and> (\<forall>j < i. bm_bit ?bm V j)
           \<and> (\<forall>j. bm_bit ?bm V' j \<longleftrightarrow> j = i \<or> bm_bit ?bm V j)" by blast
  have free: "\<not> bm_bit ?bm V k" "\<And>j. j < k \<Longrightarrow> bm_bit ?bm V j" using assms(3,4) by (auto simp: inodes_used_def)
  obtain i where r: "r = Some i" using res free(1) assms(4) by (cases r) (auto simp: n_inodes_def)
  with res have i: "\<not> bm_bit ?bm V i" "\<forall>j < i. bm_bit ?bm V j" "\<forall>j. bm_bit ?bm V' j \<longleftrightarrow> j = i \<or> bm_bit ?bm V j" by simp_all
  have "i = k" by (rule linorder_cases [of i k]) (use i(1,2) free in auto)
  with i(3) have bits: "\<forall>j. bm_bit ?bm V' j \<longleftrightarrow> j = k \<or> bm_bit ?bm V j" by simp
  have "runs n [] (efs_alloc_inode D fs) V (word_of_nat k) V'"
    unfolding efs_alloc_inode_def
    by (rule runs_bind [OF run], rule runs_bind [OF runs_res], simp add: r \<open>i = k\<close>, rule runs_ret)
  with d' out bits assms(3) show ?thesis by (intro exI [of _ V']) (auto simp: inodes_used_def)
qed

lemma init_inode_runs:
  assumes l: "layout_ok n fs N" and k: "k < n_inodes fs"
  defines "b \<equiv> unat (fst (efs_get_disk_inode_pos fs (word_of_nat k)))" and "off \<equiv> snd (efs_get_disk_inode_pos fs (word_of_nat k))"
  shows "runs n [] (cache_modify D b off DISK_INODE_SZ (\<lambda>bs. a_ret ((), di_enc (disk_inode_initialize ty (di_dec bs))))) V ()
    (put_inode fs k (disk_inode_initialize ty (at_inode V (ino fs k))) V)"
proof -
  have b: "b = in_block_id (ino fs k)" and off: "off = in_block_offset (ino fs k)"
    by (simp_all add: b_def off_def ino_def inode_new_def case_prod_beta)
  have p: "in_block_id (ino fs k) < n" "in_block_offset (ino fs k) + 128 \<le> 512"
    using ino_ok [OF l k] by (auto simp: place_ok_def fs_geom_def)
  show ?thesis
    unfolding put_inode_def b off DISK_INODE_SZ_def at_inode_def
    by (rule runs_modify) (use p in \<open>auto simp: disk_inode_initialize_def\<close>)
qed

lemma create_append_runs:
  assumes f: "files_ok n fs N V (dir_bytes 1 nms # cs)" and nms: "\<forall>nm \<in> set nms. name_ok nm" and nm: "name_ok nm"
    and k: "k = length nms + 1"
    and room: "32 * (length nms + 1) \<le> max_blocks * 512" "cost (dir_bytes 1 (nms @ [nm]) # cs) \<le> N"
  shows "\<exists>V'. runs n [] (modify_disk_inode D (ino fs 0) (\<lambda>root_inode.
          (let file_count = unat (di_size root_inode) div DIRENT_SZ; new_size = (file_count + 1) * DIRENT_SZ in
           a_bind (inode_increase_size D fs (word_of_nat new_size) root_inode) (\<lambda>root_inode'.
           a_bind (a_res (dir_entry_new nm (word_of_nat k))) (\<lambda>dirent.
           a_bind (di_write_at D (file_count * DIRENT_SZ) (dir_entry_into_bytes dirent) root_inode') (\<lambda>_.
           a_ret ((), root_inode'))))))) V () V'
      \<and> files_ok n fs N V' (dir_bytes 1 (nms @ [nm]) # cs)"
proof -
  let ?off = "32 * length nms" and ?buf = "dirent nm k"
  have fc: "files_core n fs N V (dir_bytes 1 nms # cs)" using f by (simp add: files_ok_def)
  have len: "length (dir_bytes 1 nms) = ?off" by (rule length_dir_bytes [OF nms])
  have sz: "unat (di_size (at_inode V (ino fs 0))) = ?off"
    using files_coreD(5) [OF fc, of 0] len by (metis length_Cons length_file_data nth_Cons_0 zero_less_Suc)
  have lb: "length ?buf = 32" using nm by (intro length_dirent) (simp add: name_ok_def)
  have new: "take ?off (dir_bytes 1 nms) @ ?buf @ drop (?off + length ?buf) (dir_bytes 1 nms) = dir_bytes 1 (nms @ [nm])"
    using len k by (simp add: dir_bytes_append)
  show ?thesis
  proof (rule files_modify_runs [OF f, where i = 0 and off = ?off and buf = ?buf])
    show "dir_bytes 1 (nms @ [nm]) # cs = (dir_bytes 1 nms # cs)[0 := take ?off ((dir_bytes 1 nms # cs) ! 0) @ ?buf
        @ drop (?off + length ?buf) ((dir_bytes 1 nms # cs) ! 0)]" using new by simp
    fix di' V2
    assume r: "runs n [(in_block_id (ino fs 0), True)]
        (a_bind (inode_increase_size D fs (word_of_nat (?off + length ?buf)) (at_inode V (ino fs 0))) (\<lambda>di'.
         a_bind (di_write_at D ?off ?buf di') (\<lambda>k. a_ret (k, di')))) V (length ?buf, di') V2"
    let ?de = "\<lparr>de_name_bytes = nm @ replicate (28 - length nm) 0, de_inode = word_of_nat k\<rparr> :: dir_entry"
    have cl: "a_bind (inode_increase_size D fs (word_of_nat ((length nms + 1) * 32)) (at_inode V (ino fs 0))) (\<lambda>root_inode'.
           a_bind (a_res (dir_entry_new nm (word_of_nat k))) (\<lambda>dirent.
           a_bind (di_write_at D (length nms * 32) (dir_entry_into_bytes dirent) root_inode') (\<lambda>_.
           a_ret ((), root_inode'))))
       = a_bind (a_bind (inode_increase_size D fs (word_of_nat (?off + length ?buf)) (at_inode V (ino fs 0))) (\<lambda>di'.
         a_bind (di_write_at D ?off ?buf di') (\<lambda>k. a_ret (k, di')))) (\<lambda>(k, di'). a_ret ((), di'))"
      using nm dirent_facts(1,2) [OF nm, of k] lb
      by (auto simp: fun_eq_iff a_bind_def a_ret_def a_res_def mult.commute add.commute rbind_assoc case_prod_beta
          intro!: rbind_cong)
    have fcn: "unat (di_size (at_inode V (ino fs 0))) div DIRENT_SZ = length nms" using sz by (simp add: DIRENT_SZ_def)
    show "runs n [(in_block_id (ino fs 0), True)]
       (let file_count = unat (di_size (at_inode V (ino fs 0))) div DIRENT_SZ; new_size = (file_count + 1) * DIRENT_SZ in
           a_bind (inode_increase_size D fs (word_of_nat new_size) (at_inode V (ino fs 0))) (\<lambda>root_inode'.
           a_bind (a_res (dir_entry_new nm (word_of_nat k))) (\<lambda>dirent.
           a_bind (di_write_at D (file_count * DIRENT_SZ) (dir_entry_into_bytes dirent) root_inode') (\<lambda>_.
           a_ret ((), root_inode'))))) V ((), di') V2"
      unfolding Let_def fcn unfolding DIRENT_SZ_def cl by (rule runs_bind [OF r]) auto
  qed (use len lb room in auto)
qed

lemma create_new_runs:
  assumes h: "fs_holds n fs N V fl" and nm: "nm \<notin> set (map fst fl)" "name_ok nm" and k: "length fl + 1 < n_inodes fs"
    and room: "32 * (length fl + 1) \<le> max_blocks * 512" "cost (dir_bytes 1 (map fst fl @ [nm]) # map snd fl @ [[]]) \<le> N"
  shows "\<exists>V'. runs n [] (inode_create D fs nm (ino fs 0)) V (Some (ino fs (length fl + 1))) V'
    \<and> fs_holds n fs N V' (fl @ [(nm, [])])"
proof -
  let ?V0 = "put_inode fs 0 (at_inode V (ino fs 0)) V" and ?k = "length fl + 1"
  let ?cs = "dir_bytes 1 (map fst fl) # map snd fl"
  have none: "dir_find (map fst fl) nm = None" using nm(1) dir_find_None by blast
  have h0: "fs_holds n fs N ?V0 fl" by (rule fs_holds_lookup [OF h])
  then have f0: "files_ok n fs N ?V0 ?cs" and names: "\<forall>nm \<in> set (map fst fl). name_ok nm" "distinct (map fst fl)"
    by (auto simp: fs_holds_def)
  have u0: "inodes_used fs ?V0 ?k" using f0 by (simp add: files_ok_def)
  note rb = root_bounds [OF h0]
  from alloc_inode_runs [OF rb(5,4) u0 k] obtain V1 where r1: "runs n [] (efs_alloc_inode D fs) ?V0 (word_of_nat ?k) V1"
    and d1: "disk_ok n V1" and u1: "inodes_used fs V1 (Suc ?k)"
    and o1: "\<forall>b. \<not> (bm_start (efs_inode_bitmap fs) \<le> b \<and> b < bm_start (efs_inode_bitmap fs) + bm_blocks (efs_inode_bitmap fs)) \<longrightarrow> V1 b = ?V0 b"
    by blast
  let ?di = "disk_inode_initialize File (at_inode V1 (ino fs ?k))"
  let ?V2 = "put_inode fs ?k ?di V1"
  have "files_ok n fs N (put_inode fs (length ?cs) ?di V1) (?cs @ [[]])"
  proof (rule files_new [OF f0 _ d1])
    show "V1 b = ?V0 b" if "\<not> (bm_start (efs_inode_bitmap fs) \<le> b \<and> b < bm_start (efs_inode_bitmap fs) + bm_blocks (efs_inode_bitmap fs))" for b
      using o1 that by blast
    show "inodes_used fs V1 (Suc (length ?cs))" using u1 by simp
  qed (use k in \<open>simp_all add: disk_inode_initialize_def at_inode_def\<close>)
  then have f2: "files_ok n fs N ?V2 (dir_bytes 1 (map fst fl) # map snd fl @ [[]])" by simp
  from create_append_runs [OF f2 names(1) nm(2), of ?k] room obtain V' where
    r3: "runs n [] (modify_disk_inode D (ino fs 0) (\<lambda>root_inode.
          (let file_count = unat (di_size root_inode) div DIRENT_SZ; new_size = (file_count + 1) * DIRENT_SZ in
           a_bind (inode_increase_size D fs (word_of_nat new_size) root_inode) (\<lambda>root_inode'.
           a_bind (a_res (dir_entry_new nm (word_of_nat ?k))) (\<lambda>dirent.
           a_bind (di_write_at D (file_count * DIRENT_SZ) (dir_entry_into_bytes dirent) root_inode') (\<lambda>_.
           a_ret ((), root_inode'))))))) ?V2 () V'"
    and f3: "files_ok n fs N V' (dir_bytes 1 (map fst fl @ [nm]) # map snd fl @ [[]])" by auto
  have "fs_holds n fs N V' (fl @ [(nm, [])])" using f3 names nm by (simp add: fs_holds_def)
  moreover have "runs n [] (inode_create D fs nm (ino fs 0)) V (Some (ino fs ?k)) V'"
    unfolding inode_create_def
    by (rule runs_bind [OF create_lookup_runs [OF h]], unfold none option.map simp_thms if_False, rule runs_bind [OF r1],
        unfold Let_def case_prod_beta, rule runs_bind [OF init_inode_runs [OF rb(5) k]], rule runs_bind [OF r3 [unfolded Let_def]],
        unfold ino_def Let_def case_prod_beta, rule runs_ret)
  ultimately show ?thesis by blast
qed

end

end
