(* ===== verification/Fs_Spec.thy ===== *)
theory Fs_Spec
  imports Dir_Spec "HOL-Library.AList"
begin

text \<open>
  A new file system, and what its users can rely on: the disk stands for a list of named files,
  and the operations of \<^verbatim>\<open>Inode\<close> on the root directory and on the files in it act on this list.
\<close>

section \<open>Creating and opening a file system\<close>

text \<open>The sizes of the parts of a new file system on a disk of \<open>T\<close> blocks with \<open>I\<close> blocks for the inode bitmap.\<close>

definition data_total :: "nat \<Rightarrow> nat \<Rightarrow> nat" where
  "data_total T I = T - 1 - 1025 * I"

definition data_area :: "nat \<Rightarrow> nat \<Rightarrow> nat" where
  "data_area T I = data_total T I - (data_total T I + 4096) div 4097"

definition sizes_ok :: "u32 \<Rightarrow> u32 \<Rightarrow> bool" where
  "sizes_ok total_blocks ib \<longleftrightarrow> 0 < ib \<and> unat ib \<le> 2 ^ 20 \<and> 1 + 1025 * unat ib < unat total_blocks \<and> unat total_blocks + 4096 < 2 ^ 32"

lemma sizes:
  assumes ok: "sizes_ok total_blocks ib"
  defines "T \<equiv> unat total_blocks" and "I \<equiv> unat ib"
  defines "db \<equiv> (data_total T I + 4096) div 4097"
  defines "area \<equiv> word_of_nat ((bitmap_maximum (bitmap_new 1 I) * DISK_INODE_SZ + BLOCK_SZ - 1) div BLOCK_SZ) :: u32"
  shows "unat area = 1024 * I" and "unat (1 + ib + area) = 1 + 1025 * I"
    and "unat (total_blocks - 1 - (ib + area)) = data_total T I"
    and "unat ((total_blocks - 1 - (ib + area) + 4096) div 4097) = db"
    and "unat (1 + (ib + area) + (total_blocks - 1 - (ib + area) + 4096) div 4097) = 1 + 1025 * I + db"
    and "data_area T I \<le> db * 4096" and "1 + 1025 * I + db + data_area T I = T" and "db \<le> data_total T I"
proof -
  have b: "1 + 1025 * I < T" "T + 4096 < 2 ^ 32" "0 < I" using ok by (auto simp: sizes_ok_def T_def I_def unat_gt_0)
  have "(bitmap_maximum (bitmap_new 1 I) * DISK_INODE_SZ + BLOCK_SZ - 1) div BLOCK_SZ = (1024 * I * 512 + 511) div 512"
    by (simp add: bitmap_maximum_eq bitmap_new_def DISK_INODE_SZ_def BLOCK_SZ_def add.commute)
  also have "\<dots> = 1024 * I" by simp
  finally have a: "area = word_of_nat (1024 * I)" by (simp only: area_def)
  show ua: "unat area = 1024 * I" unfolding a using b by (intro unat_of_nat32) simp
  have "ib + area = word_of_nat (1025 * I)" "1 + ib + area = word_of_nat (1 + 1025 * I)"
    by (simp_all add: a I_def)
  then have u1: "unat (ib + area) = 1025 * I" and u2: "unat (1 + ib + area) = 1 + 1025 * I"
    using b by (simp_all only: unat_of_nat32)
  show "unat (1 + ib + area) = 1 + 1025 * I" by (rule u2)
  have "total_blocks - 1 - (ib + area) = word_of_nat (data_total T I)"
    using b \<open>ib + area = word_of_nat (1025 * I)\<close> by (simp add: data_total_def T_def of_nat_diff)
  then show dt: "unat (total_blocks - 1 - (ib + area)) = data_total T I"
    using b by (simp only:) (rule unat_of_nat32, simp add: data_total_def)
  have "unat (total_blocks - 1 - (ib + area) + 4096) = data_total T I + 4096"
    using dt b by (subst unat_add_lem [THEN iffD1]) (simp_all add: data_total_def)
  then show d: "unat ((total_blocks - 1 - (ib + area) + 4096) div 4097) = db" by (simp add: unat_div db_def)
  have le: "db \<le> data_total T I" using b by (simp add: db_def data_total_def) 
  then show "db \<le> data_total T I" .
  have "1 + (ib + area) + (total_blocks - 1 - (ib + area) + 4096) div 4097 = word_of_nat (1 + 1025 * I + db)"
    unfolding \<open>ib + area = word_of_nat (1025 * I)\<close> d [symmetric] by simp
  then show "unat (1 + (ib + area) + (total_blocks - 1 - (ib + area) + 4096) div 4097) = 1 + 1025 * I + db"
    using b le by (simp only:) (rule unat_of_nat32, simp add: data_total_def)
  show "data_area T I \<le> db * 4096" by (simp add: data_area_def db_def)
  show "1 + 1025 * I + db + data_area T I = T"
    using b le unfolding data_area_def db_def [symmetric] by (simp add: data_total_def)
qed

lemma geometry_ok:
  assumes ok: "sizes_ok total_blocks ib" and g: "efs_geometry total_blocks ib = (fs, sb)"
  shows "layout_ok (unat total_blocks) fs (data_area (unat total_blocks) (unat ib))"
    and "super_block_is_valid sb" and "opened sb = fs" and "n_inodes fs = unat ib * 4096"
proof -
  note z = sizes [OF ok]
  have fs: "fs = fst (efs_geometry total_blocks ib)" and sb: "sb = snd (efs_geometry total_blocks ib)" using g by simp_all
  show "n_inodes fs = unat ib * 4096" by (simp add: fs efs_geometry_def n_inodes_def bitmap_new_def Let_def)
  show "super_block_is_valid sb" by (simp add: sb efs_geometry_def super_block_is_valid_def super_block_initialize_def Let_def)
  show "opened sb = fs"
    by (simp add: fs sb efs_geometry_def super_block_initialize_def opened_def Let_def add.assoc)
  have ib: "unat ib \<le> 2 ^ 20" and b: "1 + 1025 * unat ib < unat total_blocks" "unat total_blocks + 4096 < 2 ^ 32"
    using ok by (auto simp: sizes_ok_def)
  let ?T = "unat total_blocks" and ?I = "unat ib"
  let ?db = "(data_total ?T ?I + 4096) div 4097"
  note unf = fs efs_geometry_def Let_def fst_conv easy_fs.simps bitmap_new_def bitmap.simps
  have "unat (1 + ib) = 1 + ?I" using b by (subst unat_add_lem [THEN iffD1]) simp_all
  then have "bm_start (efs_inode_bitmap fs) = 1" "bm_blocks (efs_inode_bitmap fs) = ?I" "ia fs = 1 + ?I"
    by (simp_all add: unf)
  moreover have "bm_start (efs_data_bitmap fs) = 1 + 1025 * ?I" using z(2) unfolding unf .
  moreover have "bm_blocks (efs_data_bitmap fs) = ?db" using z(4) unfolding unf .
  moreover have "ds fs = 1 + 1025 * ?I + ?db" using z(5) unfolding unf .
  ultimately show "layout_ok ?T fs (data_area ?T ?I)"
    using z(6-8) ib b unfolding layout_ok_def fs_geom_def bm_ok_def n_inodes_def by simp
qed

context block_device
begin

lemma clear_blocks_runs:
  assumes "\<forall>b \<in> set bs. b < n" and "disk_ok n V"
  shows "runs n [] (clear_blocks D bs) V () (\<lambda>b. if b \<in> set bs then replicate 512 0 else V b)"
  using assms
proof (induction bs arbitrary: V)
  case (Cons b bs)
  have b: "b < n" and len: "length (V b) = 512" using Cons.prems by (auto simp: disk_ok_def)
  let ?V = "V(b := replicate 512 0)"
  have "overwrite 0 (map (\<lambda>_. 0) (take 512 (drop 0 (V b)))) (V b) = replicate 512 (0 :: u8)"
    using len by (simp add: overwrite_def map_replicate_const)
  then have r: "runs n [] (cache_modify D b 0 512 (\<lambda>data_block. a_ret ((), map (\<lambda>_. 0) data_block))) V () ?V"
    using runs_modify [of b n "[]" 0 512 "\<lambda>data_block. a_ret ((), map (\<lambda>_. 0) data_block)" V "()"
        "map (\<lambda>_. 0) (take 512 (drop 0 (V b)))" V] b len by auto
  have d: "disk_ok n ?V" using Cons.prems by (auto simp: disk_ok_def)
  have "(\<lambda>c. if c \<in> set (b # bs) then replicate 512 0 else V c) = (\<lambda>c. if c \<in> set bs then replicate 512 0 else ?V c)"
    by (auto simp: fun_eq_iff)
  then show ?case using runs_bind [OF r Cons.IH [OF _ d]] Cons.prems(1) by simp
qed auto

lemma efs_create_runs:
  assumes ok: "sizes_ok total_blocks ib" and d: "disk_ok (unat total_blocks) V"
  defines "fs \<equiv> fst (efs_geometry total_blocks ib)"
  shows "\<exists>V'. runs (unat total_blocks) [] (efs_create D total_blocks ib) V fs V'
    \<and> fs_holds (unat total_blocks) fs (data_area (unat total_blocks) (unat ib)) V' []"
proof -
  let ?n = "unat total_blocks" and ?N = "data_area (unat total_blocks) (unat ib)" and ?sb = "snd (efs_geometry total_blocks ib)"
  have "efs_geometry total_blocks ib = (fs, ?sb)" by (simp add: fs_def)
  note g = geometry_ok [OF ok this]
  have n0: "0 < ?n" using ok by (simp add: sizes_ok_def)
  let ?V0 = "\<lambda>b. if b \<in> set [0..<?n] then replicate 512 0 else V b"
  have r0: "runs ?n [] (clear_blocks D [0..<?n]) V () ?V0" by (rule clear_blocks_runs) (use d in auto)
  let ?V1 = "?V0(0 := overwrite 0 (sb_enc ?sb) (?V0 0))"
  have r1: "runs ?n [] (cache_modify D 0 0 SUPER_BLOCK_SZ (\<lambda>_. a_ret ((), sb_enc ?sb))) ?V0 () ?V1"
    by (rule runs_modify) (use n0 in \<open>auto simp: SUPER_BLOCK_SZ_def\<close>)
  have d1: "disk_ok ?n ?V1" using n0 by (auto simp: disk_ok_def)
  have V1: "?V1 b = replicate 512 0" if "0 < b" "b < ?n" for b using that by auto
  have zb: "\<not> bm_bit bm ?V1 j" if "0 < bm_start bm" "bm_start bm + bm_blocks bm \<le> ?n" "j < bm_blocks bm * 4096" for bm j
  proof -
    have "bm_start bm + j div 4096 < ?n" using that less_mult_imp_div_less [of j "bm_blocks bm" 4096] by linarith
    then show ?thesis using V1 [of "bm_start bm + j div 4096"] that(1)
      by (simp add: bm_bit_def blk_bit_def dec_words_zero less_mult_imp_div_less)
  qed
  have l: "0 < bm_start (efs_inode_bitmap fs)" "bm_start (efs_inode_bitmap fs) + bm_blocks (efs_inode_bitmap fs) \<le> ?n"
    "0 < bm_start (efs_data_bitmap fs)" "bm_start (efs_data_bitmap fs) + bm_blocks (efs_data_bitmap fs) \<le> ?n"
    using g(1) by (auto simp: layout_ok_def fs_geom_def)
  have "\<not> used fs ?V1 b" for b using zb [OF l(3,4), of "b - ds fs"] unfolding used_def by (auto simp: less_diff_conv2)
  then have "files_core ?n fs ?N ?V1 []" using d1 g(1) by (simp add: files_core_def)
  moreover have u1: "inodes_used fs ?V1 0" using zb [OF l(1,2)] by (simp add: inodes_used_def n_inodes_def)
  moreover have "super_ok fs ?V1"
    using g(2,3) sb_dec_enc [of ?sb] n0 by (simp add: super_ok_def overwrite_def)
  ultimately have f1: "files_ok ?n fs ?N ?V1 []" by (simp add: files_ok_def)
  have ni: "0 < n_inodes fs" using g(4) ok by (auto simp: sizes_ok_def unat_gt_0)
  from alloc_inode_runs [OF g(1) d1 u1 ni] obtain V2 where r2: "runs ?n [] (efs_alloc_inode D fs) ?V1 (word_of_nat 0) V2"
    and d2: "disk_ok ?n V2" and u2: "inodes_used fs V2 (Suc 0)"
    and o2: "\<forall>b. \<not> (bm_start (efs_inode_bitmap fs) \<le> b \<and> b < bm_start (efs_inode_bitmap fs) + bm_blocks (efs_inode_bitmap fs)) \<longrightarrow> V2 b = ?V1 b"
    by blast
  let ?di = "disk_inode_initialize Directory (at_inode V2 (ino fs 0))"
  have r3: "runs ?n [] (cache_modify D (unat (fst (efs_get_disk_inode_pos fs 0))) (snd (efs_get_disk_inode_pos fs 0)) DISK_INODE_SZ
      (\<lambda>bs. a_ret ((), di_enc (disk_inode_initialize Directory (di_dec bs))))) V2 () (put_inode fs 0 ?di V2)"
    using init_inode_runs [OF g(1) ni, where ty = Directory and V = V2] by simp
  have "files_ok ?n fs ?N (put_inode fs (length ([] :: u8 list list)) ?di V2) ([] @ [[]])"
    by (rule files_new [OF f1 _ d2]) (use ni o2 u2 in \<open>auto simp: disk_inode_initialize_def at_inode_def\<close>)
  then have "fs_holds ?n fs ?N (put_inode fs 0 ?di V2) []" by (simp add: fs_holds_def)
  moreover have "runs ?n [] (efs_create D total_blocks ib) V fs (put_inode fs 0 ?di V2)"
    unfolding efs_create_def case_prod_beta Let_def fs_def [symmetric]
    by (rule runs_bind [OF r0], rule runs_bind [OF r1], rule runs_bind [OF r2], rule runs_bind [OF runs_res [of _ "()"]],
        simp, rule runs_bind [OF r3], rule runs_ret)
  ultimately show ?thesis by blast
qed

lemma efs_open_runs:
  assumes h: "fs_holds n fs N V fl"
  shows "runs n [] (efs_open D) V fs V"
  unfolding efs_open_def SUPER_BLOCK_SZ_def
proof (rule runs_read)
  have s: "super_ok fs V" using h by (simp add: fs_holds_def files_ok_def)
  show "0 < n" using root_bounds(1) [OF h] by simp
  have "runs n [(0, False)] (a_bind (a_res (assertE (super_block_is_valid (sb_dec (take 24 (V 0)))))) (\<lambda>_. a_ret (opened (sb_dec (take 24 (V 0)))))) V fs V"
    using s unfolding super_ok_def by (intro runs_bind [OF runs_res [of _ "()"]]) auto
  then show "runs n [(0, False)]
     (let super_block = sb_dec (take 24 (drop 0 (V 0))) in
        a_bind (a_res (assertE (super_block_is_valid super_block))) (\<lambda>_.
        (let inode_total_blocks = sb_inode_bitmap_blocks super_block + sb_inode_area_blocks super_block in
         a_ret \<lparr>efs_inode_bitmap = bitmap_new 1 (unat (sb_inode_bitmap_blocks super_block)),
                efs_data_bitmap = bitmap_new (unat (1 + inode_total_blocks)) (unat (sb_data_bitmap_blocks super_block)),
                efs_inode_area_start = 1 + sb_inode_bitmap_blocks super_block,
                efs_data_area_start = 1 + inode_total_blocks + sb_data_bitmap_blocks super_block\<rparr>))) V fs V"
    by (simp add: opened_def Let_def)
qed auto

end

section \<open>The file system as a list of named files\<close>

datatype fs_op = FOpen | FCreate "u8 list" | FLs | FRead "u8 list" nat nat | FWrite "u8 list" nat "u8 list"

datatype fs_result = RDone | RNone | RNames "u8 list list" | RData "u8 list" | RWritten nat

text \<open>The operations as users of the file system perform them, starting from the root inode.\<close>

definition on_file :: "'d block_dev \<Rightarrow> easy_fs \<Rightarrow> u8 list \<Rightarrow> (inode \<Rightarrow> (fs_result, 'd) act) \<Rightarrow> (fs_result \<times> easy_fs, 'd) act" where
  "on_file D fs nm f =
     a_bind (inode_find D fs nm (efs_root_inode fs)) (\<lambda>r.
     a_bind (case r of None \<Rightarrow> a_ret RNone | Some i \<Rightarrow> f i) (\<lambda>x. a_ret (x, fs)))"

fun fs_run :: "'d block_dev \<Rightarrow> easy_fs \<Rightarrow> fs_op \<Rightarrow> (fs_result \<times> easy_fs, 'd) act" where
  "fs_run D fs FOpen = a_bind (efs_open D) (\<lambda>fs'. a_ret (RDone, fs'))"
| "fs_run D fs (FCreate nm) =
     a_bind (inode_create D fs nm (efs_root_inode fs)) (\<lambda>r. a_ret (if r = None then RNone else RDone, fs))"
| "fs_run D fs FLs = a_bind (inode_ls D (efs_root_inode fs)) (\<lambda>nms. a_ret (RNames nms, fs))"
| "fs_run D fs (FRead nm off len) =
     on_file D fs nm (\<lambda>i. a_bind (inode_read_at D off (replicate len 0) i) (\<lambda>(k, buf). a_ret (RData (take k buf))))"
| "fs_run D fs (FWrite nm off buf) =
     on_file D fs nm (\<lambda>i. a_bind (inode_write_at D fs off buf i) (\<lambda>k. a_ret (RWritten k)))"

fun fs_runs :: "'d block_dev \<Rightarrow> easy_fs \<Rightarrow> fs_op list \<Rightarrow> (fs_result list, 'd) act" where
  "fs_runs D fs [] = a_ret []"
| "fs_runs D fs (op # ops) = a_bind (fs_run D fs op) (\<lambda>(r, fs'). a_bind (fs_runs D fs' ops) (\<lambda>rs. a_ret (r # rs)))"

text \<open>
  What they do to the list of files. Creating and writing have a result as long as the files fit:
  each needs its data blocks and index blocks, the directory 32 bytes for each file, and there
  is an inode for each file and the directory.
\<close>

definition fits :: "nat \<Rightarrow> nat \<Rightarrow> (u8 list \<times> u8 list) list \<Rightarrow> bool" where
  "fits N I fl \<longleftrightarrow> slots ((32 * length fl + 511) div 512) + sum_list (map (\<lambda>f. slots ((length (snd f) + 511) div 512)) fl) \<le> N
     \<and> length fl < I \<and> 32 * length fl \<le> max_blocks * 512 \<and> (\<forall>f \<in> set fl. length (snd f) \<le> max_blocks * 512)"

definition spec_write :: "nat \<Rightarrow> u8 list \<Rightarrow> u8 list \<Rightarrow> u8 list" where
  "spec_write off buf xs = take off xs @ buf @ drop (off + length buf) xs"

fun spec_run :: "nat \<Rightarrow> nat \<Rightarrow> fs_op \<Rightarrow> (u8 list \<times> u8 list) list \<Rightarrow> (fs_result \<times> (u8 list \<times> u8 list) list) option" where
  "spec_run N I FOpen fl = Some (RDone, fl)"
| "spec_run N I (FCreate nm) fl =
     (if nm \<in> fst ` set fl then Some (RNone, fl)
      else if name_ok nm \<and> fits N I (fl @ [(nm, [])]) then Some (RDone, fl @ [(nm, [])]) else None)"
| "spec_run N I FLs fl = Some (RNames (map fst fl), fl)"
| "spec_run N I (FRead nm off len) fl =
     Some (case map_of fl nm of None \<Rightarrow> RNone | Some xs \<Rightarrow> RData (take len (drop off xs)), fl)"
| "spec_run N I (FWrite nm off buf) fl =
     (case map_of fl nm of
        None \<Rightarrow> Some (RNone, fl)
      | Some xs \<Rightarrow>
          (let fl' = AList.update nm (spec_write off buf xs) fl in
           if buf \<noteq> [] \<and> off \<le> length xs \<and> fits N I fl' then Some (RWritten (length buf), fl') else None))"

fun spec_runs :: "nat \<Rightarrow> nat \<Rightarrow> fs_op list \<Rightarrow> (u8 list \<times> u8 list) list \<Rightarrow> (fs_result list \<times> (u8 list \<times> u8 list) list) option" where
  "spec_runs N I [] fl = Some ([], fl)"
| "spec_runs N I (op # ops) fl =
     (case spec_run N I op fl of
        None \<Rightarrow> None
      | Some (r, fl1) \<Rightarrow> map_option (\<lambda>(rs, fl2). (r # rs, fl2)) (spec_runs N I ops fl1))"

subsection \<open>Names and positions\<close>

lemma dir_find_map_of:
  assumes "distinct (map fst fl)"
  shows "dir_find (map fst fl) nm = None \<Longrightarrow> map_of fl nm = None"
    and "dir_find (map fst fl) nm = Some i \<Longrightarrow> i < length fl \<and> fst (fl ! i) = nm \<and> map_of fl nm = Some (snd (fl ! i))"
proof -
  show "dir_find (map fst fl) nm = None \<Longrightarrow> map_of fl nm = None"
    by (simp add: dir_find_None map_of_eq_None_iff)
  assume "dir_find (map fst fl) nm = Some i"
  then have i: "i < length fl" "fst (fl ! i) = nm" using dir_find_Some by fastforce+
  then have "(nm, snd (fl ! i)) \<in> set fl" by (metis nth_mem prod.collapse)
  with i assms show "i < length fl \<and> fst (fl ! i) = nm \<and> map_of fl nm = Some (snd (fl ! i))" by simp
qed

lemma update_nth:
  "distinct (map fst fl) \<Longrightarrow> i < length fl \<Longrightarrow> AList.update (fst (fl ! i)) xs fl = fl[i := (fst (fl ! i), xs)]"
proof (induction fl arbitrary: i)
  case (Cons p fl)
  show ?case
  proof (cases i)
    case (Suc j)
    then have "fst p \<noteq> fst (fl ! j)" using Cons.prems by (metis distinct.simps(2) length_Cons length_map list.simps(9) nth_map nth_mem not_less_eq)
    then show ?thesis using Cons Suc by (cases p) auto
  qed (cases p, simp)
qed simp

lemma fits_cost:
  assumes "fits N I fl" and "\<forall>nm \<in> set (map fst fl). name_ok nm"
  shows "cost (dir_bytes 1 (map fst fl) # map snd fl) \<le> N"
proof -
  have "sum_list (map blocks_of (map snd fl)) = sum_list (map (\<lambda>f. slots ((length (snd f) + 511) div 512)) fl)"
    by (simp add: blocks_of_def comp_def)
  moreover have "blocks_of (dir_bytes 1 (map fst fl)) = slots ((32 * length fl + 511) div 512)"
    using length_dir_bytes [OF assms(2)] by (simp add: blocks_of_def)
  ultimately show ?thesis using assms(1) unfolding cost_def fits_def list.map sum_list.Cons by simp
qed

context block_device
begin

lemma on_file_runs:
  assumes h: "fs_holds n fs N V fl"
    and none: "map_of fl nm = None \<Longrightarrow> r = RNone \<and> V' = V"
    and some: "\<And>i. i < length fl \<Longrightarrow> fst (fl ! i) = nm \<Longrightarrow> map_of fl nm = Some (snd (fl ! i)) \<Longrightarrow> runs n [] (f (ino fs (i + 1))) V r V'"
  shows "runs n [] (on_file D fs nm f) V (r, fs) V'"
proof -
  have dist: "distinct (map fst fl)" using h by (simp add: fs_holds_def)
  note d = dir_find_map_of [OF dist, of nm]
  have "runs n [] (case map_option (\<lambda>i. ino fs (i + 1)) (dir_find (map fst fl) nm) of None \<Rightarrow> a_ret RNone | Some i \<Rightarrow> f i) V r V'"
  proof (cases "dir_find (map fst fl) nm")
    case None
    then show ?thesis using none d(1) by auto
  next
    case (Some i)
    then show ?thesis using some d(2) by auto
  qed
  then show ?thesis
    unfolding on_file_def efs_root_inode_eq
    by (intro runs_bind [OF inode_find_runs [OF h]] runs_bind) auto
qed

lemma fs_create_ok:
  assumes h: "fs_holds n fs N V fl" and s: "spec_run N (n_inodes fs) (FCreate nm) fl = Some (r, fl')"
  shows "\<exists>V'. runs n [] (fs_run D fs (FCreate nm)) V (r, fs) V' \<and> fs_holds n fs N V' fl'"
proof -
  have nms: "\<forall>nm \<in> set (map fst fl). name_ok nm" using h by (simp add: fs_holds_def)
  have "\<exists>i V'. runs n [] (inode_create D fs nm (ino fs 0)) V i V' \<and> fs_holds n fs N V' fl' \<and> r = (if i = None then RNone else RDone)"
  proof (cases "nm \<in> set (map fst fl)")
    case True
    then have "r = RNone" "fl' = fl" using s by auto
    with create_existing_runs [OF h True] show ?thesis by (intro exI [of _ None]) simp
  next
    case False
    then have ok: "name_ok nm" "fits N (n_inodes fs) (fl @ [(nm, [])])" and r: "r = RDone" "fl' = fl @ [(nm, [])]"
      using s by (auto split: if_splits)
    have c: "cost (dir_bytes 1 (map fst fl @ [nm]) # map snd fl @ [[]]) \<le> N"
      using fits_cost [OF ok(2)] nms ok(1) by simp
    have "length fl + 1 < n_inodes fs" "32 * (length fl + 1) \<le> max_blocks * 512" using ok(2) by (simp_all add: fits_def)
    from create_new_runs [OF h False ok(1) this c] r show ?thesis by (intro exI [of _ "Some (ino fs (length fl + 1))"]) simp
  qed
  then obtain i V' where i: "runs n [] (inode_create D fs nm (ino fs 0)) V i V'" "fs_holds n fs N V' fl'"
    "r = (if i = None then RNone else RDone)" by blast
  have "runs n [] (fs_run D fs (FCreate nm)) V (r, fs) V'"
    unfolding fs_run.simps efs_root_inode_eq i(3) by (rule runs_bind [OF i(1)], rule runs_ret)
  with i(2) show ?thesis by blast
qed

lemma fs_read_ok:
  assumes h: "fs_holds n fs N V fl" and s: "spec_run N I (FRead nm off len) fl = Some (r, fl')"
  shows "runs n [] (fs_run D fs (FRead nm off len)) V (r, fs) V \<and> fl' = fl"
proof
  have f: "files_ok n fs N V (dir_bytes 1 (map fst fl) # map snd fl)" using h by (simp add: fs_holds_def)
  show "runs n [] (fs_run D fs (FRead nm off len)) V (r, fs) V"
    unfolding fs_run.simps
  proof (rule on_file_runs [OF h])
    fix i
    assume i: "i < length fl" "map_of fl nm = Some (snd (fl ! i))"
    then have r: "r = RData (take len (drop off (snd (fl ! i))))" using s by auto
    show "runs n [] (a_bind (inode_read_at D off (replicate len 0) (ino fs (i + 1))) (\<lambda>(k, buf). a_ret (RData (take k buf)))) V r V"
      by (rule runs_bind [OF files_read_runs [OF f]], use i in simp, unfold prod.case take_length_overwrite) (use i r in auto)
  qed (use s in auto)
qed (use s in simp)

lemma fs_write_ok:
  assumes h: "fs_holds n fs N V fl" and s: "spec_run N (n_inodes fs) (FWrite nm off buf) fl = Some (r, fl')"
  shows "\<exists>V'. runs n [] (fs_run D fs (FWrite nm off buf)) V (r, fs) V' \<and> fs_holds n fs N V' fl'"
proof (cases "map_of fl nm")
  case None
  then have "runs n [] (fs_run D fs (FWrite nm off buf)) V (r, fs) V"
    unfolding fs_run.simps by (intro on_file_runs [OF h]) (use s in auto)
  then show ?thesis using s h None by auto
next
  case (Some xs)
  have dist: "distinct (map fst fl)" and nms: "\<forall>nm \<in> set (map fst fl). name_ok nm" and f: "files_ok n fs N V (dir_bytes 1 (map fst fl) # map snd fl)"
    using h by (auto simp: fs_holds_def)
  let ?fl = "AList.update nm (spec_write off buf xs) fl"
  have w: "buf \<noteq> []" "off \<le> length xs" "fits N (n_inodes fs) ?fl" and r: "r = RWritten (length buf)" "fl' = ?fl"
    using s Some by (auto simp: Let_def split: if_splits)
  obtain i where i: "i < length fl" "fst (fl ! i) = nm" "snd (fl ! i) = xs"
    using Some dir_find_map_of [OF dist, of nm] by (cases "dir_find (map fst fl) nm") auto
  have upd: "?fl = fl[i := (nm, spec_write off buf xs)]" using update_nth [OF dist i(1)] i(2) by simp
  have n': "map fst ?fl = map fst fl" using i by (simp add: upd map_update list_update_same_conv)
  let ?cs = "dir_bytes 1 (map fst fl) # map snd fl"
  have cs: "?cs[i + 1 := take off (?cs ! (i + 1)) @ buf @ drop (off + length buf) (?cs ! (i + 1))]
      = dir_bytes 1 (map fst ?fl) # map snd ?fl"
    using i unfolding n' unfolding upd by (simp add: map_update spec_write_def)
  have "(nm, spec_write off buf xs) \<in> set ?fl" unfolding upd by (rule set_update_memI [OF i(1)])
  then have "length (snd (nm, spec_write off buf xs)) \<le> max_blocks * 512" using w(3) unfolding fits_def by blast
  then have len: "off + length buf \<le> max_blocks * 512"
    unfolding spec_write_def snd_conv splice(1) [OF w(2)] by simp
  have c: "cost (dir_bytes 1 (map fst ?fl) # map snd ?fl) \<le> N" by (rule fits_cost [OF w(3)]) (use nms n' in simp)
  have "i + 1 < length ?cs" "off \<le> length (?cs ! (i + 1))" using i w(2) by simp_all
  from files_write_runs [OF f, of "i + 1" buf off, unfolded cs, OF this(1) w(1) this(2) len c] obtain V' where
    r': "runs n [] (inode_write_at D fs off buf (ino fs (i + 1))) V (length buf) V'"
    and f': "files_ok n fs N V' (dir_bytes 1 (map fst ?fl) # map snd ?fl)" by blast
  have "runs n [] (fs_run D fs (FWrite nm off buf)) V (r, fs) V'"
    unfolding fs_run.simps
  proof (rule on_file_runs [OF h])
    fix j
    assume j: "j < length fl" "fst (fl ! j) = nm"
    then have "j = i" using i nth_eq_iff_index_eq [OF dist, of j i] by simp
    then show "runs n [] (a_bind (inode_write_at D fs off buf (ino fs (j + 1))) (\<lambda>k. a_ret (RWritten k))) V r V'"
      unfolding r(1) by (simp only:) (rule runs_bind [OF r'], rule runs_ret)
  qed (use Some in auto)
  moreover have "fs_holds n fs N V' fl'" using f' r nms dist n' by (simp add: fs_holds_def)
  ultimately show ?thesis by blast
qed

lemma fs_run_ok:
  assumes h: "fs_holds n fs N V fl" and s: "spec_run N (n_inodes fs) op fl = Some (r, fl')"
  shows "\<exists>V'. runs n [] (fs_run D fs op) V (r, fs) V' \<and> fs_holds n fs N V' fl'"
proof (cases op)
  case FOpen
  have "runs n [] (fs_run D fs FOpen) V (RDone, fs) V"
    unfolding fs_run.simps by (rule runs_bind [OF efs_open_runs [OF h]], rule runs_ret)
  then show ?thesis using s h FOpen by auto
next
  case FLs
  have "runs n [] (fs_run D fs FLs) V (RNames (map fst fl), fs) V"
    unfolding fs_run.simps efs_root_inode_eq by (rule runs_bind [OF inode_ls_runs [OF h]], rule runs_ret)
  then show ?thesis using s h FLs by auto
next
  case (FCreate nm)
  then show ?thesis using fs_create_ok [OF h] s by simp
next
  case (FRead nm off len)
  then show ?thesis using fs_read_ok [OF h] s h by blast
next
  case (FWrite nm off buf)
  then show ?thesis using fs_write_ok [OF h] s by blast
qed

lemma fs_runs_ok:
  assumes "fs_holds n fs N V fl" and "spec_runs N (n_inodes fs) ops fl = Some (rs, fl')"
  shows "\<exists>V'. runs n [] (fs_runs D fs ops) V rs V' \<and> fs_holds n fs N V' fl'"
  using assms
proof (induction ops arbitrary: V fl rs)
  case (Cons op ops)
  then obtain r fl1 rs2 where s: "spec_run N (n_inodes fs) op fl = Some (r, fl1)"
    "spec_runs N (n_inodes fs) ops fl1 = Some (rs2, fl')" "rs = r # rs2"
    by (auto split: option.splits)
  from fs_run_ok [OF Cons.prems(1) s(1)] obtain V1 where r1: "runs n [] (fs_run D fs op) V (r, fs) V1" "fs_holds n fs N V1 fl1" by blast
  from Cons.IH [OF r1(2) s(2)] obtain V2 where r2: "runs n [] (fs_runs D fs ops) V1 rs2 V2" "fs_holds n fs N V2 fl'" by blast
  have "runs n [] (fs_runs D fs (op # ops)) V rs V2"
    unfolding fs_runs.simps s(3) by (rule runs_bind [OF r1(1)]) (auto intro: runs_bind [OF r2(1)])
  with r2(2) show ?case by blast
qed auto

end

section \<open>The property\<close>

text \<open>
  C16. The file system implements a list of named files. On any block device, a new file system
  is created and then used by a sequence of operations: opening it again from the disk, creating
  files, listing the directory, and reading and writing files found by name. As long as the
  files fit on the disk, every operation succeeds and returns what the list of files returns:
  a created file is found and listed, a read returns what was written, and no operation
  changes another file.
\<close>

theorem fs_refines_files:
  assumes dev: "block_device D blocks" and n: "blocks dev = unat total_blocks" and ok: "sizes_ok total_blocks ib"
    and s: "spec_runs (data_area (unat total_blocks) (unat ib)) (unat ib * 4096) ops [] = Some (rs, fl)"
  shows "\<exists>st'. a_bind (efs_create D total_blocks ib) (\<lambda>fs. fs_runs D fs ops) (block_cache_manager_new dev) = Inr (rs, st')"
proof -
  let ?n = "unat total_blocks" and ?fs = "fst (efs_geometry total_blocks ib)"
  let ?V = "block_device.dev_block D dev"
  have rd: "\<forall>b < blocks dev. bd_read D b dev = Inr (?V b)"
    using block_device.dev_block_read [OF dev] by blast
  note st = block_device.sok_new [OF dev rd, unfolded n]
  have d: "disk_ok ?n ?V" by (rule block_device.sok_disk_ok [OF dev st])
  from block_device.efs_create_runs [OF dev ok d] obtain V1 where
    r1: "block_device.runs D blocks ?n [] (efs_create D total_blocks ib) ?V ?fs V1"
    and h: "fs_holds ?n ?fs (data_area ?n (unat ib)) V1 []" by blast
  have "n_inodes ?fs = unat ib * 4096"
    using geometry_ok(4) [OF ok, of ?fs "snd (efs_geometry total_blocks ib)"] by simp
  with block_device.fs_runs_ok [OF dev h, of ops rs fl] s obtain V2 where
    r2: "block_device.runs D blocks ?n [] (fs_runs D ?fs ops) V1 rs V2" by auto
  from block_device.runsD [OF dev block_device.runs_bind [where f = "\<lambda>fs. fs_runs D fs ops", OF dev r1 r2] st] show ?thesis by blast
qed

text \<open>A disk of 1030 blocks has three data blocks.\<close>

definition example_ops :: "fs_op list" where
  "example_ops = [FCreate [97], FCreate [98], FWrite [98] 0 [1, 2, 3], FWrite [98] 1 [7, 8, 9], FOpen, FCreate [97], FLs,
     FRead [98] 1 10, FRead [97] 0 4, FRead [99] 0 1]"

theorem fs_refines_files_witness:
  "\<exists>st'. a_bind (efs_create block_file 1030 1) (\<lambda>fs. fs_runs block_file fs example_ops)
      (block_cache_manager_new (replicate 527360 0))
    = Inr ([RDone, RDone, RWritten 3, RWritten 3, RDone, RNone, RNames [[97], [98]], RData [7, 8, 9], RData [], RNone], st')"
proof (rule fs_refines_files [OF bf.block_device_axioms])
  show "length (replicate 527360 (0 :: u8)) div 512 = unat (1030 :: u32)" by simp
  show "sizes_ok 1030 1" by (simp add: sizes_ok_def)
  show "spec_runs (data_area (unat (1030 :: u32)) (unat (1 :: u32))) (unat (1 :: u32) * 4096) example_ops []
    = Some ([RDone, RDone, RWritten 3, RWritten 3, RDone, RNone, RNames [[97], [98]], RData [7, 8, 9], RData [], RNone],
        [([97], []), ([98], [1, 7, 8, 9])])"
    by (simp add: example_ops_def data_area_def data_total_def fits_def name_ok_def slots_def spec_write_def)
qed

end
