(* ===== verification/Packer.thy ===== *)
theory Packer
  imports Fs_Spec
begin

text \<open>
  The program that puts the user programs into a disk image (\<^verbatim>\<open>easy-fs-fuse/src/main.rs\<close>). Its
  arguments are the entries of the source directory and the files of the target directory of
  the host; the image is a file of the host, which is extended or cut to its full size first.
\<close>

definition IMG_SIZE_MB :: u32 where "IMG_SIZE_MB = 24"
definition IMG_SIZE :: u32 where "IMG_SIZE = IMG_SIZE_MB * 1024"
definition BLOCK_NUM :: u32 where "BLOCK_NUM = IMG_SIZE * 2"

text \<open>The name of an application is the part of the entry's name before the first dot.\<close>

definition app_name :: "u8 list \<Rightarrow> u8 list res" where
  "app_name name_with_ext =
     (if 46 \<in> set name_with_ext then Inr (takeWhile (\<lambda>c. c \<noteq> 46) name_with_ext) else Inl UnwrapNone)"

fun app_names :: "u8 list list \<Rightarrow> u8 list list res" where
  "app_names [] = Inr []"
| "app_names (e # es) = rbind (app_name e) (\<lambda>app. rbind (app_names es) (\<lambda>apps. Inr (app # apps)))"

definition set_len :: "nat \<Rightarrow> u8 list \<Rightarrow> u8 list" where
  "set_len len f = take len f @ replicate (len - length f) 0"

text \<open>Copying the applications into the root directory.\<close>

fun pack_apps :: "'d block_dev \<Rightarrow> easy_fs \<Rightarrow> (u8 list \<Rightarrow> u8 list option) \<Rightarrow> u8 list list \<Rightarrow> (unit, 'd) act" where
  "pack_apps D efs host [] = a_ret ()"
| "pack_apps D efs host (app # apps) =
     a_bind (a_res (unwrapE (host app))) (\<lambda>all_data.
     a_bind (inode_create D efs app (efs_root_inode efs)) (\<lambda>r.
     a_bind (a_res (unwrapE r)) (\<lambda>inode.
     a_bind (inode_write_at D efs 0 all_data inode) (\<lambda>_.
     pack_apps D efs host apps))))"

text \<open>The result is the list of the names that are printed, and the state of the image and the cache.\<close>

definition easy_fs_pack :: "(u8 list \<Rightarrow> u8 list option) \<Rightarrow> u8 list list \<Rightarrow> u8 list \<Rightarrow> (u8 list list \<times> u8 list store) res" where
  "easy_fs_pack host entries fs_img =
     rbind (app_names entries) (\<lambda>apps.
     a_bind (efs_create block_file BLOCK_NUM 1) (\<lambda>efs.
     a_bind (pack_apps block_file efs host apps) (\<lambda>_.
     inode_ls block_file (efs_root_inode efs)))
       (block_cache_manager_new (set_len (unat BLOCK_NUM * 512) fs_img)))"

text \<open>
  What dropping the manager of the cache does to the device: the cached blocks are dropped in their
  order, and each is written back if it was modified. The packer never does this, as its cache is in
  a static variable.
\<close>

fun drop_cached :: "'d block_dev \<Rightarrow> (nat \<times> block_cache) list \<Rightarrow> 'd \<Rightarrow> 'd res" where
  "drop_cached D [] dev = Inr dev"
| "drop_cached D ((b, bc) # q) dev = rbind (block_cache_sync D bc dev) (\<lambda>(_, dev'). drop_cached D q dev')"

section \<open>What is packed\<close>

lemma fits_prefix: "fits N I (xs @ ys) \<Longrightarrow> fits N I xs"
proof -
  assume f: "fits N I (xs @ ys)"
  have "slots ((32 * length xs + 511) div 512) \<le> slots ((32 * length (xs @ ys) + 511) div 512)"
    by (intro slots_mono div_le_mono) simp
  with f show "fits N I xs" unfolding fits_def by auto
qed

lemma fits_empty:
  assumes "fits N I (fl @ [(nm, xs)])"
  shows "fits N I (fl @ [(nm, [])])"
proof -
  have "slots ((0 + 511) div 512) \<le> slots ((length xs + 511) div 512)" by (intro slots_mono div_le_mono) simp
  with assms show ?thesis unfolding fits_def by auto
qed

context block_device
begin

lemma sync_entry:
  assumes "entry_ok d b bc"
  shows "\<exists>bc' d'. block_cache_sync D bc d = Inr (bc', d') \<and> blocks d' = blocks d
    \<and> (\<forall>c < blocks d. dev_block d' c = (if c = b then bc_cache bc else dev_block d c))"
  using assms dev_block_write [of b d "bc_cache bc"] by (auto simp: entry_ok_def block_cache_sync_def)

lemma drop_cached_ok:
  assumes "distinct (map fst q)" and "\<forall>(b, bc) \<in> set q. entry_ok d b bc"
  shows "\<exists>d'. drop_cached D q d = Inr d' \<and> blocks d' = blocks d
    \<and> (\<forall>c < blocks d. dev_block d' c = (case map_of q c of Some bc \<Rightarrow> bc_cache bc | None \<Rightarrow> dev_block d c))"
  using assms
proof (induction q arbitrary: d)
  case (Cons e q)
  obtain b bc where e: "e = (b, bc)" by (cases e)
  have "entry_ok d b bc" using Cons.prems(2) e by simp
  from sync_entry [OF this] obtain bc' d1 where s: "block_cache_sync D bc d = Inr (bc', d1)" "blocks d1 = blocks d"
    "\<forall>c < blocks d. dev_block d1 c = (if c = b then bc_cache bc else dev_block d c)" by blast
  have ne: "c \<noteq> b" if "(c, x) \<in> set q" for c x using Cons.prems(1) e that by (force simp: image_iff)
  then have "entry_ok d1 c x" if "(c, x) \<in> set q" for c x using Cons.prems(2) that s(2,3) by (fastforce simp: entry_ok_def)
  then have "\<forall>(c, x) \<in> set q. entry_ok d1 c x" by blast
  from Cons.IH [OF _ this] Cons.prems(1) obtain d' where d': "drop_cached D q d1 = Inr d'" "blocks d' = blocks d1"
    "\<forall>c < blocks d1. dev_block d' c = (case map_of q c of Some bc \<Rightarrow> bc_cache bc | None \<Rightarrow> dev_block d1 c)" by auto
  have "map_of q b = None" using ne by (force simp: map_of_eq_None_iff)
  then show ?case using s d' e by (auto split: option.splits)
qed auto

text \<open>The device then holds what was seen through the cache, which had at most 16 other blocks.\<close>

lemma drop_cached_view:
  assumes st: "sok n [] V st"
  obtains d where "drop_cached D (st_queue st) (st_dev st) = Inr d" and "sok n [] V (block_cache_manager_new d)"
    and "\<And>b. b < n \<Longrightarrow> b \<notin> fst ` set (st_queue st) \<Longrightarrow> dev_block d b = dev_block (st_dev st) b"
proof -
  have inv: "distinct (map fst (st_queue st))" "\<forall>(b, bc) \<in> set (st_queue st). entry_ok (st_dev st) b bc" "blocks (st_dev st) = n"
    and V: "\<forall>b < n. contents st b = V b" using st by (auto simp: sok_def cache_inv_def)
  from drop_cached_ok [OF inv(1,2)] inv(3) obtain d where d: "drop_cached D (st_queue st) (st_dev st) = Inr d" "blocks d = n"
    "\<forall>c < n. dev_block d c = contents st c" by (auto simp: contents_def entry_def)
  then have "\<forall>b < blocks d. bd_read D b d = Inr (V b)" using V dev_block_read by metis
  from sok_new [OF this] d(2) have n: "sok n [] V (block_cache_manager_new d)" by simp
  have "dev_block d b = dev_block (st_dev st) b" if "b < n" "b \<notin> fst ` set (st_queue st)" for b
    using d(3) that entry_None [of b st] by (simp add: contents_def)
  then show thesis by (rule that [OF d(1) n])
qed

lemma pack_app_runs:
  assumes h: "fs_holds n fs N V fl" and app: "app \<notin> set (map fst fl)" "name_ok app" and xs: "xs \<noteq> []"
    and room: "fits N (n_inodes fs) (fl @ [(app, xs)])"
  shows "\<exists>V1 V'. runs n [] (inode_create D fs app (ino fs 0)) V (Some (ino fs (length fl + 1))) V1
    \<and> runs n [] (inode_write_at D fs 0 xs (ino fs (length fl + 1))) V1 (length xs) V'
    \<and> fs_holds n fs N V' (fl @ [(app, xs)])"
proof -
  have nms: "\<forall>nm \<in> set (map fst fl). name_ok nm" "distinct (map fst fl)" using h by (auto simp: fs_holds_def)
  note f0 = fits_empty [OF room]
  have c0: "cost (dir_bytes 1 (map fst fl @ [app]) # map snd fl @ [[]]) \<le> N" using fits_cost [OF f0] nms app by simp
  have "length fl + 1 < n_inodes fs" "32 * (length fl + 1) \<le> max_blocks * 512" using f0 by (simp_all add: fits_def)
  from create_new_runs [OF h app this c0] obtain V1 where
    r1: "runs n [] (inode_create D fs app (ino fs 0)) V (Some (ino fs (length fl + 1))) V1"
    and h1: "fs_holds n fs N V1 (fl @ [(app, [])])" by blast
  let ?cs = "dir_bytes 1 (map fst fl @ [app]) # map snd fl @ [[]]"
  have f1: "files_ok n fs N V1 ?cs" using h1 by (simp add: fs_holds_def)
  have i: "length fl + 1 < length ?cs" "?cs ! (length fl + 1) = []" by (simp_all add: nth_append)
  have cs: "?cs[length fl + 1 := take 0 (?cs ! (length fl + 1)) @ xs @ drop (0 + length xs) (?cs ! (length fl + 1))]
      = dir_bytes 1 (map fst fl @ [app]) # map snd fl @ [xs]"
    unfolding i(2) by (simp add: list_update_append)
  have len: "0 + length xs \<le> max_blocks * 512" using room by (simp add: fits_def)
  have "cost (dir_bytes 1 (map fst fl @ [app]) # map snd fl @ [xs]) \<le> N" using fits_cost [OF room] nms app by simp
  from files_write_runs [OF f1 i(1) xs, of 0, unfolded cs, OF _ len this] obtain V' where
    r2: "runs n [] (inode_write_at D fs 0 xs (ino fs (length fl + 1))) V1 (length xs) V'"
    and f2: "files_ok n fs N V' (dir_bytes 1 (map fst fl @ [app]) # map snd fl @ [xs])" by auto
  have "fs_holds n fs N V' (fl @ [(app, xs)])" using f2 nms app by (simp add: fs_holds_def)
  with r1 r2 show ?thesis by blast
qed

lemma pack_apps_runs:
  assumes "fs_holds n fs N V fl" and "distinct (map fst fl @ apps)"
    and "\<forall>app \<in> set apps. name_ok app \<and> (\<exists>xs. host app = Some xs \<and> xs \<noteq> [])"
    and "fits N (n_inodes fs) (fl @ map (\<lambda>app. (app, the (host app))) apps)"
  shows "\<exists>V'. runs n [] (pack_apps D fs host apps) V () V' \<and> fs_holds n fs N V' (fl @ map (\<lambda>app. (app, the (host app))) apps)"
  using assms
proof (induction apps arbitrary: V fl)
  case (Cons app apps)
  then obtain xs where xs: "host app = Some xs" "xs \<noteq> []" and app: "app \<notin> set (map fst fl)" "name_ok app" by auto
  have "fits N (n_inodes fs) ((fl @ [(app, xs)]) @ map (\<lambda>app. (app, the (host app))) apps)" using Cons.prems(4) xs by simp
  note room = this fits_prefix [OF this]
  from pack_app_runs [OF Cons.prems(1) app xs(2) room(2)] obtain V1 V2 where
    r1: "runs n [] (inode_create D fs app (ino fs 0)) V (Some (ino fs (length fl + 1))) V1"
    and r2: "runs n [] (inode_write_at D fs 0 xs (ino fs (length fl + 1))) V1 (length xs) V2"
    and h2: "fs_holds n fs N V2 (fl @ [(app, xs)])" by blast
  from Cons.IH [OF h2 _ _ room(1)] Cons.prems(2,3) xs obtain V' where
    r3: "runs n [] (pack_apps D fs host apps) V2 () V'"
    and h3: "fs_holds n fs N V' ((fl @ [(app, xs)]) @ map (\<lambda>app. (app, the (host app))) apps)" by auto
  have "runs n [] (pack_apps D fs host (app # apps)) V () V'"
    unfolding pack_apps.simps xs(1) efs_root_inode_eq
    by (rule runs_bind [OF runs_res [of _ xs]], simp, rule runs_bind [OF r1], rule runs_bind [OF runs_res [of _ "ino fs (length fl + 1)"]],
        simp, rule runs_bind [OF r2], rule r3)
  with h3 xs show ?case by auto
qed auto

end

text \<open>The new file system on an image of 49152 blocks has 48114 data blocks.\<close>

lemma image_sizes: "unat BLOCK_NUM = 49152" "sizes_ok BLOCK_NUM 1" "data_area 49152 (unat (1 :: u32)) = 48114"
  by (simp_all add: sizes_ok_def BLOCK_NUM_def IMG_SIZE_def IMG_SIZE_MB_def data_area_def data_total_def)

lemma image_start:
  fixes fs_img :: "u8 list"
  defines "dev \<equiv> set_len (unat BLOCK_NUM * 512) fs_img"
  shows "bf.sok 49152 [] (bf.dev_block dev) (block_cache_manager_new dev)"
proof -
  have len: "length dev div 512 = 49152" unfolding dev_def image_sizes(1) by (simp add: set_len_def)
  have rd: "\<forall>b < length dev div 512. bd_read block_file b dev = Inr (bf.dev_block dev b)" using bf.dev_block_read by blast
  show ?thesis by (rule bf.sok_new [OF rd, unfolded len])
qed

lemma image_created:
  obtains V st where "efs_create block_file BLOCK_NUM 1 (block_cache_manager_new (set_len (unat BLOCK_NUM * 512) fs_img))
      = Inr (fst (efs_geometry BLOCK_NUM 1), st)"
    and "bf.sok 49152 [] V st" and "fs_holds 49152 (fst (efs_geometry BLOCK_NUM 1)) 48114 V []"
proof -
  note st = image_start [of fs_img]
  from bf.efs_create_runs [OF image_sizes(2), unfolded image_sizes(1,3), OF bf.sok_disk_ok [OF st [unfolded image_sizes(1)]]] obtain V where
    r: "bf.runs 49152 [] (efs_create block_file BLOCK_NUM 1) (bf.dev_block (set_len (unat BLOCK_NUM * 512) fs_img))
      (fst (efs_geometry BLOCK_NUM 1)) V" and h: "fs_holds 49152 (fst (efs_geometry BLOCK_NUM 1)) 48114 V []"
    unfolding image_sizes(1) by blast
  from bf.runsD [OF r st] obtain st' where
    "efs_create block_file BLOCK_NUM 1 (block_cache_manager_new (set_len (unat BLOCK_NUM * 512) fs_img))
      = Inr (fst (efs_geometry BLOCK_NUM 1), st')" "bf.sok 49152 [] V st'" by blast
  from that [OF this h] show thesis .
qed

text \<open>
  C17. The packer stores every application, in the image and the blocks that are still in its
  cache together. When the entries have different names up to their first dot, the names fit into a
  directory entry, and the files of the host are not empty and fit into the image of 49152 blocks,
  the packer finishes and lists exactly these names. At most 16 blocks are then in its cache; once
  they are written back the way dropping a cached block does it, which the packer itself leaves
  undone, only these blocks of the image have changed, and whoever opens the file system on the
  resulting image with an empty cache finds each name with the contents of the file of the host.
\<close>

theorem packer_correct:
  assumes apps: "app_names entries = Inr apps" "distinct apps"
    and files: "\<forall>app \<in> set apps. name_ok app \<and> (\<exists>xs. host app = Some xs \<and> xs \<noteq> [])"
    and room: "fits 48114 4096 (map (\<lambda>app. (app, the (host app))) apps)"
  shows "\<exists>st img. easy_fs_pack host entries fs_img = Inr (apps, st) \<and> length (st_queue st) \<le> 16
    \<and> drop_cached block_file (st_queue st) (st_dev st) = Inr img
    \<and> (\<forall>b < 49152. b \<notin> fst ` set (st_queue st) \<longrightarrow> bd_read block_file b img = bd_read block_file b (st_dev st))
    \<and> (\<forall>app \<in> set apps. \<exists>st'.
        a_bind (efs_open block_file) (\<lambda>efs. fs_runs block_file efs [FRead app 0 (length (the (host app)))]) (block_cache_manager_new img)
          = Inr ([RData (the (host app))], st'))"
proof -
  let ?n = "49152" and ?fl = "map (\<lambda>app. (app, the (host app))) apps" and ?fs = "fst (efs_geometry BLOCK_NUM 1)"
  have ni: "n_inodes ?fs = 4096" using geometry_ok(4) [OF image_sizes(2), of ?fs "snd (efs_geometry BLOCK_NUM 1)"] by simp
  obtain V1 st1 where c: "efs_create block_file BLOCK_NUM 1 (block_cache_manager_new (set_len (unat BLOCK_NUM * 512) fs_img)) = Inr (?fs, st1)"
    and s1: "bf.sok ?n [] V1 st1" and h1: "fs_holds ?n ?fs 48114 V1 []" by (rule image_created)
  from bf.pack_apps_runs [OF h1, of apps host] apps(2) files room ni obtain V2 where
    r2: "bf.runs ?n [] (pack_apps block_file ?fs host apps) V1 () V2" and h2: "fs_holds ?n ?fs 48114 V2 ?fl" by auto
  have "bf.runs ?n [] (a_bind (pack_apps block_file ?fs host apps) (\<lambda>_. inode_ls block_file (efs_root_inode ?fs))) V1 (map fst ?fl) V2"
    unfolding efs_root_inode_eq by (rule bf.runs_bind [OF r2], rule bf.inode_ls_runs [OF h2])
  from bf.runsD [OF this s1] obtain st2 where
    p: "easy_fs_pack host entries fs_img = Inr (apps, st2)" and st2: "bf.sok ?n [] V2 st2"
    using c by (auto simp: easy_fs_pack_def apps(1) comp_def a_bind_def [of "efs_create block_file BLOCK_NUM 1"])
  obtain img where img: "drop_cached block_file (st_queue st2) (st_dev st2) = Inr img"
    and new: "bf.sok ?n [] V2 (block_cache_manager_new img)"
    and same: "\<And>b. b < ?n \<Longrightarrow> b \<notin> fst ` set (st_queue st2) \<Longrightarrow> bf.dev_block img b = bf.dev_block (st_dev st2) b"
    by (rule bf.drop_cached_view [OF st2]) blast
  have len: "length img div 512 = ?n" "length (st_dev st2) div 512 = ?n" "length (st_queue st2) \<le> 16"
    using new st2 by (simp_all add: bf.sok_def bf.cache_inv_def block_cache_manager_new_def)
  have rd: "bd_read block_file b img = bd_read block_file b (st_dev st2)" if "b < ?n" "b \<notin> fst ` set (st_queue st2)" for b
    using same [OF that] bf.dev_block_read [of b img] bf.dev_block_read [of b "st_dev st2"] that(1) by (simp add: len)
  have "\<exists>st'. a_bind (efs_open block_file) (\<lambda>efs. fs_runs block_file efs [FRead app 0 (length (the (host app)))]) (block_cache_manager_new img)
      = Inr ([RData (the (host app))], st')" if "app \<in> set apps" for app
  proof -
    have "map_of ?fl app = Some (the (host app))" using that by (simp add: map_of_map_restrict)
    then have "spec_runs 48114 (n_inodes ?fs) [FRead app 0 (length (the (host app)))] ?fl = Some ([RData (the (host app))], ?fl)" by simp
    from bf.fs_runs_ok [OF h2 this] obtain V3 where
      r3: "bf.runs ?n [] (fs_runs block_file ?fs [FRead app 0 (length (the (host app)))]) V2 [RData (the (host app))] V3" by blast
    have "bf.runs ?n [] (a_bind (efs_open block_file) (\<lambda>efs. fs_runs block_file efs [FRead app 0 (length (the (host app)))])) V2
        [RData (the (host app))] V3"
      by (rule bf.runs_bind [OF bf.efs_open_runs [OF h2]], rule r3)
    from bf.runsD [OF this new] show ?thesis by blast
  qed
  with p img rd len(3) show ?thesis by blast
qed

theorem packer_correct_witness:
  "\<exists>st img st'. easy_fs_pack [[104, 105] \<mapsto> [1, 2, 3]] [[104, 105, 46, 114, 115]] [] = Inr ([[104, 105]], st)
    \<and> drop_cached block_file (st_queue st) (st_dev st) = Inr img
    \<and> a_bind (efs_open block_file) (\<lambda>efs. fs_runs block_file efs [FRead [104, 105] 0 3]) (block_cache_manager_new img)
        = Inr ([RData [1, 2, 3]], st')"
proof -
  have "app_names [[104, 105, 46, 114, 115]] = Inr [[104, 105]]" by (simp add: app_name_def)
  moreover have "fits 48114 4096 (map (\<lambda>app. (app, the ([[104, 105] \<mapsto> [1, 2, 3]] app))) [[104, 105]])"
    by (simp add: fits_def slots_def)
  ultimately obtain st img where "easy_fs_pack [[104, 105] \<mapsto> [1, 2, 3]] [[104, 105, 46, 114, 115]] [] = Inr ([[104, 105]], st)"
    "drop_cached block_file (st_queue st) (st_dev st) = Inr img"
    "\<exists>st'. a_bind (efs_open block_file) (\<lambda>efs. fs_runs block_file efs [FRead [104, 105] 0 (length [1 :: u8, 2, 3])]) (block_cache_manager_new img)
      = Inr ([RData [1, 2, 3]], st')"
    using packer_correct [of "[[104, 105, 46, 114, 115]]" "[[104, 105]]" "[[104, 105] \<mapsto> [1, 2, 3]]" "[]"]
    by (auto simp: name_ok_def simp del: fs_runs.simps)
  moreover have "length [1 :: u8, 2, 3] = 3" by simp
  ultimately show ?thesis by metis
qed

section \<open>What reaches the image\<close>

text \<open>
  A cached block is written to the image when it is evicted, and the cache is never emptied: it
  belongs to a static variable, which is not dropped when the program ends. The blocks that are
  cached, in the order in which they were loaded, tell which blocks were written.
\<close>

abbreviation keys :: "'d store \<Rightarrow> nat list" where "keys st \<equiv> map fst (st_queue st)"

definition load_key :: "nat \<Rightarrow> nat list \<Rightarrow> nat list" where
  "load_key b ks = (if b \<in> set ks then ks else (if length ks = 16 then tl ks else ks) @ [b])"

context block_device
begin

text \<open>Only the block that leaves the cache can change on the device.\<close>

definition loads :: "nat \<Rightarrow> nat \<Rightarrow> 'd store \<Rightarrow> 'd store \<Rightarrow> bool" where
  "loads n b st st' \<longleftrightarrow> keys st' = load_key b (keys st)
     \<and> (\<forall>c < n. c \<notin> set (keys st) \<or> c \<in> set (keys st') \<longrightarrow> dev_block (st_dev st') c = dev_block (st_dev st) c)"

lemma evict_first:
  assumes inv: "cache_inv st" and held: "held st = {}" and q: "length (st_queue st) = 16" and e: "evict D st = Inr st1"
  shows "keys st1 = tl (keys st)" and "c < blocks (st_dev st) \<Longrightarrow> c \<noteq> hd (keys st) \<Longrightarrow> dev_block (st_dev st1) c = dev_block (st_dev st) c"
proof -
  obtain b bc q where qs: "st_queue st = (b, bc) # q" using q by (cases "st_queue st") auto
  then have ok: "entry_ok (st_dev st) b bc" using inv by (simp add: cache_inv_def)
  have nl: "\<not> bc_locked bc" using held qs by (auto simp: held_def)
  then have refs: "bc_refs bc = 1" using ok by (simp add: entry_ok_def)
  have "find_unused (st_queue st) = Some 0"
    unfolding find_unused_def qs by (simp add: upt_conv_Cons refs del: upt_Suc)
  then obtain bc' dev' where s: "block_cache_sync D bc (st_dev st) = Inr (bc', dev')" "st1 = \<lparr>st_dev = dev', st_queue = q\<rparr>"
    using e qs by (auto simp: evict_def elim!: rbind_InrE)
  show "keys st1 = tl (keys st)" using s qs by simp
  assume c: "c < blocks (st_dev st)" "c \<noteq> hd (keys st)"
  show "dev_block (st_dev st1) c = dev_block (st_dev st) c"
  proof (cases "bc_modified bc")
    case True
    then have "bd_write D b (bc_cache bc) (st_dev st) = Inr dev'" using s(1) ok by (auto simp: block_cache_sync_def entry_ok_def elim!: rbind_InrE)
    then show ?thesis using dev_block_write [of b "st_dev st" "bc_cache bc"] ok s(2) c qs by (auto simp: entry_ok_def)
  next
    case False
    then show ?thesis using s by (simp add: block_cache_sync_def)
  qed
qed

lemma get_loads:
  assumes inv: "cache_inv st" and held: "held st = {}" and g: "get_block_cache D b st = Inr st1"
  shows "loads (blocks (st_dev st)) b st st1"
proof (cases "b \<in> set (keys st)")
  case True
  then have "find (\<lambda>pair. fst pair = b) (st_queue st) \<noteq> None" by (auto simp: find_None_iff)
  then have "st1 = upd_entry b (\<lambda>bc. bc\<lparr>bc_refs := bc_refs bc + 1\<rparr>) st" using g by (simp add: get_block_cache_def)
  then show ?thesis using True by (simp add: loads_def load_key_def)
next
  case False
  then have "find (\<lambda>pair. fst pair = b) (st_queue st) = None" by (force simp: find_None_iff)
  then obtain st0 bc where e: "(if length (st_queue st) = 16 then evict D st else Inr st) = Inr st0"
    and st1: "st1 = st0\<lparr>st_queue := st_queue st0 @ [(b, bc)]\<rparr>"
    using g by (auto simp: get_block_cache_def BLOCK_CACHE_SIZE_def elim!: rbind_InrE)
  show ?thesis
  proof (cases "length (st_queue st) = 16")
    case True
    note ev = evict_first [OF inv held True, of st0]
    have "keys st = hd (keys st) # tl (keys st)" using True by (cases "st_queue st") auto
    moreover have "distinct (keys st)" using inv by (simp add: cache_inv_def)
    ultimately have hd: "hd (keys st) \<notin> set (tl (keys st))" "hd (keys st) \<in> set (keys st)"
      by (metis distinct.simps(2), metis list.set_intros(1))
    show ?thesis using ev e st1 True False hd by (auto simp: loads_def load_key_def)
  next
    case F: False
    then show ?thesis using e st1 False by (simp add: loads_def load_key_def)
  qed
qed

lemma loads_trans_same:
  assumes "keys st2 = keys st1" and "st_dev st2 = st_dev st1" and "loads n b st st1"
  shows "loads n b st st2"
  using assms unfolding loads_def by metis

lemma modify_loads:
  assumes st: "sok n [] V st" and b: "b < n" and m: "cache_modify D b off sz f st = Inr (v, st')"
    and f: "\<And>st1 x st2. f (take sz (drop off (V b))) st1 = Inr (x, st2) \<Longrightarrow> st2 = st1"
  shows "loads n b st st'"
proof -
  have inv: "cache_inv st" "held st = {}" "blocks (st_dev st) = n" using st by (auto simp: sok_def)
  obtain st2 where a: "acquire b st = Inr st2" "bc_bytes b st2 = V b" "sok n [(b, False)] V st2" by (rule acquire_ok [OF st b]) auto
  obtain st1 where g: "get_block_cache D b st = Inr st1" "bc_lock b st1 = Inr st2" using a(1) by (auto simp: acquire_def elim!: rbind_InrE)
  have l: "st_dev st2 = st_dev st1" "keys st2 = keys st1" using g(2) by (auto simp: bc_lock_def split: option.splits if_splits)
  let ?st2 = "upd_entry b (\<lambda>bc. bc\<lparr>bc_modified := True\<rparr>) st2"
  obtain x st3 where x: "f (take sz (drop off (V b))) ?st2 = Inr (x, st3)"
    "st' = bc_release b (upd_entry b (\<lambda>bc. bc\<lparr>bc_cache := overwrite off (snd x) (bc_cache bc)\<rparr>) st3)"
    using m g mark_ok(2) [OF a(3)] a(2) by (auto simp: cache_modify_def Let_def elim!: rbind_InrE)
  from f [OF x(1)] x(2) have "keys st' = keys st1" "st_dev st' = st_dev st1" using l by (simp_all add: bc_release_def)
  then show ?thesis using get_loads [OF inv(1,2) g(1)] unfolding inv(3) by (rule loads_trans_same)
qed

lemma read_loads:
  assumes st: "sok n [] V st" and b: "b < n" and m: "cache_read D b off sz f st = Inr (v, st')"
    and f: "\<And>st1 x st2. f (take sz (drop off (V b))) st1 = Inr (x, st2) \<Longrightarrow> st2 = st1"
  shows "loads n b st st'"
proof -
  have inv: "cache_inv st" "held st = {}" "blocks (st_dev st) = n" using st by (auto simp: sok_def)
  obtain st2 where a: "acquire b st = Inr st2" "bc_bytes b st2 = V b" by (rule acquire_ok [OF st b]) auto
  obtain st1 where g: "get_block_cache D b st = Inr st1" "bc_lock b st1 = Inr st2" using a(1) by (auto simp: acquire_def elim!: rbind_InrE)
  have l: "st_dev st2 = st_dev st1" "keys st2 = keys st1" using g(2) by (auto simp: bc_lock_def split: option.splits if_splits)
  obtain x st3 where x: "f (take sz (drop off (V b))) st2 = Inr (x, st3)" "st' = bc_release b st3"
    using m g a(2) by (auto simp: cache_read_def elim!: rbind_InrE)
  from f [OF x(1)] x(2) have "keys st' = keys st1" "st_dev st' = st_dev st1" using l by (simp_all add: bc_release_def)
  then show ?thesis using get_loads [OF inv(1,2) g(1)] unfolding inv(3) by (rule loads_trans_same)
qed

lemma clear_keys:
  assumes "sok n [] V st" and "\<forall>b \<in> set bs. b < n" and "clear_blocks D bs st = Inr (v, st')"
  shows "keys st' = fold load_key bs (keys st)"
  using assms
proof (induction bs arbitrary: V st)
  case Nil
  then show ?case by (simp add: a_ret_def)
next
  case (Cons b bs)
  have b: "b < n" using Cons.prems(2) by simp
  have d: "disk_ok n V" by (rule sok_disk_ok [OF Cons.prems(1)])
  have "runs n [] (cache_modify D b 0 512 (\<lambda>data_block. a_ret ((), map (\<lambda>_. 0) data_block))) V ()
      (V(b := overwrite 0 (map (\<lambda>_. 0) (take 512 (drop 0 (V b)))) (V b)))"
    by (rule runs_modify) (use b in auto)
  from runsD [OF this Cons.prems(1)] obtain st1 where
    m: "cache_modify D b 0 512 (\<lambda>data_block. a_ret ((), map (\<lambda>_. 0) data_block)) st = Inr ((), st1)"
    "sok n [] (V(b := overwrite 0 (map (\<lambda>_. 0) (take 512 (drop 0 (V b)))) (V b))) st1" by blast
  have "loads n b st st1" by (rule modify_loads [OF Cons.prems(1) b m(1)]) (auto simp: a_ret_def)
  moreover have "clear_blocks D bs st1 = Inr (v, st')" using Cons.prems(3) m(1) by (simp add: a_bind_def)
  ultimately show ?case using Cons.IH [OF m(2)] Cons.prems(2) by (simp add: loads_def)
qed

end

lemma load_upt:
  assumes "length ([k..<n] @ ks) = 16" and "k < n" and "b \<notin> set ([k..<n] @ ks)"
  shows "load_key b ([k..<n] @ ks) = [Suc k..<n] @ ks @ [b]"
  using assms by (auto simp: load_key_def)

lemma fold_load_upt: "fold load_key [0..<k] [] = [k - 16..<k]"
proof (induction k)
  case (Suc k)
  have "load_key k [k - 16..<k] = [Suc k - 16..<Suc k]"
  proof (cases "16 \<le> k")
    case True
    then have "Suc (k - 16) = Suc k - 16" by simp
    then show ?thesis using load_upt [of "k - 16" k "[]" k] True by (simp del: upt_Suc add: upt_Suc_append)
  qed (simp add: load_key_def)
  then show ?case using Suc by simp
qed simp

context block_device
begin

text \<open>Creating a file system leaves its super block in the cache only.\<close>

lemma create_super_cached:
  assumes ok: "sizes_ok total_blocks 1" and st: "sok (unat total_blocks) [] V st" "keys st = []"
    and c: "efs_create D total_blocks 1 st = Inr (fs, st')"
  shows "dev_block (st_dev st') 0 = replicate 512 0" and "{0, unat (fst (efs_get_disk_inode_pos fs 0))} \<subseteq> set (keys st')"
proof -
  let ?n = "unat total_blocks" and ?sb = "snd (efs_geometry total_blocks 1)"
  have geo: "efs_geometry total_blocks 1 = (fst (efs_geometry total_blocks 1), ?sb)" by simp
  define fs0 where "fs0 = fst (efs_geometry total_blocks 1)"
  note g = geometry_ok [OF ok geo, folded fs0_def]
  define rb where "rb = unat (fst (efs_get_disk_inode_pos fs0 0))"
  have n: "1026 < ?n" using ok by (simp add: sizes_ok_def)
  obtain st0 st1 r st2 where c0: "clear_blocks D [0..<?n] st = Inr ((), st0)"
    and c1: "cache_modify D 0 0 SUPER_BLOCK_SZ (\<lambda>_. a_ret ((), sb_enc ?sb)) st0 = Inr ((), st1)"
    and c2: "efs_alloc_inode D fs0 st1 = Inr (r, st2)"
    and c3: "cache_modify D rb (snd (efs_get_disk_inode_pos fs0 0)) DISK_INODE_SZ
      (\<lambda>bs. a_ret ((), di_enc (disk_inode_initialize Directory (di_dec bs)))) st2 = Inr ((), st')"
    and fs: "fs = fs0"
    using c by (auto simp: efs_create_def a_bind_def a_res_def a_ret_def case_prod_beta Let_def fs0_def rb_def elim!: rbind_InrE)
  have sk: "bm_start (efs_inode_bitmap fs0) = 1" "bm_blocks (efs_inode_bitmap fs0) = 1" "rb = 2"
    by (simp_all add: rb_def fs0_def efs_geometry_def efs_get_disk_inode_pos_def Let_def bitmap_new_def)
  have e: "Suc (?n - 16) = ?n - 15" "Suc (?n - 15) = ?n - 14" "Suc (?n - 14) = ?n - 13" using n by simp_all
  let ?V0 = "\<lambda>b. if b \<in> set [0..<?n] then replicate 512 0 else V b"
  have "runs ?n [] (clear_blocks D [0..<?n]) V () ?V0" by (rule clear_blocks_runs) (use sok_disk_ok [OF st(1)] in auto)
  from runsD [OF this st(1)] c0 have s0: "sok ?n [] ?V0 st0" by auto
  have k0: "keys st0 = [?n - 16..<?n] @ []" using clear_keys [OF st(1) _ c0] st(2) fold_load_upt by auto
  have "runs ?n [] (cache_modify D 0 0 SUPER_BLOCK_SZ (\<lambda>_. a_ret ((), sb_enc ?sb))) ?V0 () (?V0(0 := overwrite 0 (sb_enc ?sb) (?V0 0)))"
    by (rule runs_modify) (use n in \<open>auto simp: SUPER_BLOCK_SZ_def\<close>)
  from runsD [OF this s0] c1 have s1: "sok ?n [] (?V0(0 := overwrite 0 (sb_enc ?sb) (?V0 0))) st1" by auto
  have l1: "loads ?n 0 st0 st1" by (rule modify_loads [OF s0 _ c1]) (use n in \<open>auto simp: a_ret_def\<close>)
  have k1: "keys st1 = [?n - 15..<?n] @ [0]"
    using l1 k0 load_upt [of "?n - 16" ?n "[]" 0] n by (auto simp: loads_def e)
  obtain pos where c2': "cache_modify D (0 + bm_start (efs_inode_bitmap fs0)) 0 512 (\<lambda>bytes.
       (let bitmap_block = dec_words 8 64 bytes in
        case bitmap_block_find bitmap_block of
          Some (bits64_pos, inner_pos) \<Rightarrow>
            a_ret (Some (0 * BLOCK_BITS + bits64_pos * 64 + inner_pos),
                   enc_words 8 (bitmap_block[bits64_pos := bitmap_block ! bits64_pos OR push_bit inner_pos 1]))
        | None \<Rightarrow> a_ret (None, bytes))) st1 = Inr (pos, st2)"
    using c2 sk(2) unfolding efs_alloc_inode_def bitmap_alloc_def
    by (auto simp: a_bind_def a_res_def a_ret_def bitmap_alloc_block_def elim!: rbind_InrE split: if_splits)
  have l2: "loads ?n (0 + bm_start (efs_inode_bitmap fs0)) st1 st2"
    by (rule modify_loads [OF s1 _ c2']) (use n sk in \<open>auto simp: a_ret_def Let_def split: option.splits\<close>)
  have k2: "keys st2 = [?n - 14..<?n] @ [0, 1]"
    using l2 k1 load_upt [of "?n - 15" ?n "[0]" 1] n sk by (auto simp: loads_def e)
  obtain V2 where s2: "sok ?n [] V2 st2"
  proof -
    have "bm_ok ?n [] (efs_inode_bitmap fs0)" using n sk by (simp add: bm_ok_def)
    from bitmap_alloc_runs [OF this sok_disk_ok [OF s1]] obtain r' V2 where
      "runs ?n [] (bitmap_alloc D (efs_inode_bitmap fs0)) (?V0(0 := overwrite 0 (sb_enc ?sb) (?V0 0))) r' V2" by blast
    from runsD [OF this s1] c2 that show thesis
      by (auto simp: efs_alloc_inode_def a_bind_def a_res_def a_ret_def elim!: rbind_InrE)
  qed
  have l3: "loads ?n rb st2 st'" by (rule modify_loads [OF s2 _ c3]) (use n sk in \<open>auto simp: a_ret_def\<close>)
  have k3: "keys st' = [?n - 13..<?n] @ [0, 1, 2]"
    using l3 k2 load_upt [of "?n - 14" ?n "[0, 1]" 2] n sk by (auto simp: loads_def e)
  then show "{0, unat (fst (efs_get_disk_inode_pos fs 0))} \<subseteq> set (keys st')" using sk(3) by (simp add: fs rb_def)
  have "entry 0 st0 = None" using k0 n by (auto simp: entry_None simp flip: list.set_map)
  moreover have "contents st0 0 = replicate 512 0" using s0 n by (simp add: sok_def)
  ultimately have "dev_block (st_dev st0) 0 = replicate 512 0" by (simp add: contents_def)
  moreover have "dev_block (st_dev st1) 0 = dev_block (st_dev st0) 0" using l1 n unfolding loads_def k1 by simp
  moreover have "dev_block (st_dev st2) 0 = dev_block (st_dev st1) 0" using l2 n unfolding loads_def k2 by simp
  moreover have "dev_block (st_dev st') 0 = dev_block (st_dev st2) 0" using l3 n unfolding loads_def k3 by simp
  ultimately show "dev_block (st_dev st') 0 = replicate 512 0" by simp
qed

end

text \<open>
  C39. The packer does not write back its cache. When there is nothing to pack, the packer
  finishes without an error, but the super block is still in the cache only: on the image
  that is left behind, opening the file system fails the check of its magic number.
\<close>

theorem packer_image_not_flushed:
  "\<exists>st. easy_fs_pack host [] fs_img = Inr ([], st)
    \<and> efs_open block_file (block_cache_manager_new (st_dev st)) = Inl AssertFailed"
proof -
  let ?n = "49152" and ?dev = "set_len (unat BLOCK_NUM * 512) fs_img" and ?fs = "fst (efs_geometry BLOCK_NUM 1)"
  obtain V1 st1 where c: "efs_create block_file BLOCK_NUM 1 (block_cache_manager_new ?dev) = Inr (?fs, st1)"
    and s1: "bf.sok ?n [] V1 st1" and h1: "fs_holds ?n ?fs 48114 V1 []" by (rule image_created)
  have "keys (block_cache_manager_new ?dev) = []" by (simp add: block_cache_manager_new_def)
  note super = bf.create_super_cached [OF image_sizes(2) image_start [folded image_sizes(1)] this c]
  from bf.runsD [OF bf.inode_ls_runs [OF h1] s1] obtain st2 where ls: "inode_ls block_file (ino ?fs 0) st1 = Inr ([], st2)"
    and s2: "bf.sok ?n [] V1 st2" by auto
  have "bf.loads ?n (in_block_id (ino ?fs 0)) st1 st2"
  proof (rule bf.read_loads [OF s1])
    show "cache_read block_file (in_block_id (ino ?fs 0)) (in_block_offset (ino ?fs 0)) DISK_INODE_SZ
        (\<lambda>bs. ls_loop block_file (di_dec bs) [0..<unat (di_size (di_dec bs)) div DIRENT_SZ] []) st1 = Inr ([], st2)"
      using ls by (simp add: inode_ls_def read_disk_inode_def)
  qed (use bf.root_bounds(1) [OF h1] bf.dir_size [OF h1] in \<open>auto simp: at_inode_def DISK_INODE_SZ_def a_ret_def\<close>)
  moreover have "in_block_id (ino ?fs 0) = unat (fst (efs_get_disk_inode_pos ?fs 0))"
    by (simp add: ino_def inode_new_def case_prod_beta)
  ultimately have l: "bf.loads ?n (unat (fst (efs_get_disk_inode_pos ?fs 0))) st1 st2" by simp
  have "unat (fst (efs_get_disk_inode_pos ?fs 0)) \<in> set (keys st1)" "0 \<in> set (keys st1)" using super(2) by blast+
  with l have k2: "keys st2 = keys st1" unfolding bf.loads_def load_key_def by simp
  from l \<open>0 \<in> set (keys st1)\<close> have "bf.dev_block (st_dev st2) 0 = bf.dev_block (st_dev st1) 0"
    unfolding bf.loads_def k2 by simp
  then have z: "bf.dev_block (st_dev st2) 0 = replicate 512 0" using super(1) by simp
  have p: "easy_fs_pack host [] fs_img = Inr ([], st2)"
    using c ls by (simp add: easy_fs_pack_def a_bind_def a_ret_def efs_root_inode_eq)
  let ?Z = "bf.dev_block (st_dev st2)"
  have n2: "length (st_dev st2) div 512 = ?n" using s2 by (simp add: bf.sok_def)
  have rd2: "\<forall>b < length (st_dev st2) div 512. bd_read block_file b (st_dev st2) = Inr (?Z b)" using bf.dev_block_read by blast
  note st3 = bf.sok_new [OF rd2, unfolded n2]
  have "\<not> super_block_is_valid (sb_dec (take 24 (drop 0 (?Z 0))))"
    unfolding z by (simp add: super_block_is_valid_def sb_dec_def dec_words_zero EFS_MAGIC_def)
  then have "bf.fails ?n [] (efs_open block_file) ?Z AssertFailed"
    unfolding efs_open_def SUPER_BLOCK_SZ_def
    by (intro bf.fails_read) (auto simp: Let_def intro!: bf.fails_bind1 bf.fails_res)
  then have "efs_open block_file (block_cache_manager_new (st_dev st2)) = Inl AssertFailed"
    using st3 by (simp add: bf.fails_def)
  with p show ?thesis by blast
qed

end
