(* ===== verification/Page_Table.thy ===== *)
theory Page_Table
  imports User_Buffer
begin

text \<open>
  The Sv39 page tables (\<^verbatim>\<open>os/src/mm/page_table.rs\<close>): entries, the three-level walk with and
  without the creation of missing nodes, \<^verbatim>\<open>map\<close>, \<^verbatim>\<open>unmap\<close>, \<^verbatim>\<open>translate\<close>, and the
  functions that give the kernel access to the memory of a user process. The nodes of a table
  are physical pages; an entry is eight bytes of its page.
\<close>

unbundle bit_operations_syntax

section \<open>Entries\<close>

type_synonym pte_flags = u8

definition PTE_V :: pte_flags where "PTE_V = 1"
definition PTE_R :: pte_flags where "PTE_R = 2"
definition PTE_W :: pte_flags where "PTE_W = 4"
definition PTE_X :: pte_flags where "PTE_X = 8"
definition PTE_U :: pte_flags where "PTE_U = 16"

datatype page_table_entry = PageTableEntry (pte_bits: usize)

definition pte_new :: "phys_page_num \<Rightarrow> pte_flags \<Rightarrow> page_table_entry" where
  "pte_new ppn flags = PageTableEntry (push_bit 10 (ppn_val ppn) OR ucast flags)"

definition pte_empty :: page_table_entry where
  "pte_empty = PageTableEntry 0"

definition pte_ppn :: "page_table_entry \<Rightarrow> phys_page_num" where
  "pte_ppn pte = PhysPageNum (drop_bit 10 (pte_bits pte) AND (push_bit 44 1 - 1))"

text \<open>All eight bits are flags, so \<^verbatim>\<open>from_bits(..).unwrap()\<close> never fails.\<close>

definition pte_get_flags :: "page_table_entry \<Rightarrow> pte_flags" where
  "pte_get_flags pte = ucast (pte_bits pte)"

definition pte_is_valid :: "page_table_entry \<Rightarrow> bool" where
  "pte_is_valid pte \<longleftrightarrow> pte_get_flags pte AND PTE_V \<noteq> 0"

definition pte_readable :: "page_table_entry \<Rightarrow> bool" where
  "pte_readable pte \<longleftrightarrow> pte_get_flags pte AND PTE_R \<noteq> 0"

definition pte_writable :: "page_table_entry \<Rightarrow> bool" where
  "pte_writable pte \<longleftrightarrow> pte_get_flags pte AND PTE_W \<noteq> 0"

definition pte_executable :: "page_table_entry \<Rightarrow> bool" where
  "pte_executable pte \<longleftrightarrow> pte_get_flags pte AND PTE_X \<noteq> 0"

text \<open>
  The page as an array of 512 entries (\<^verbatim>\<open>PhysPageNum::get_pte_array\<close>). The index is one of
  \<^verbatim>\<open>indexes\<close>, masked to nine bits, and so always inside the array. A mutable reference to
  an entry is the page with the index.
\<close>

type_synonym pte_ref = "phys_page_num \<times> nat"

definition pte_at :: "machine \<Rightarrow> pte_ref \<Rightarrow> page_table_entry" where
  "pte_at m r = PageTableEntry (le_dec (take 8 (drop (8 * snd r) (phys m (fst r)))))"

definition pte_set :: "pte_ref \<Rightarrow> page_table_entry \<Rightarrow> machine \<Rightarrow> machine" where
  "pte_set r pte m =
     m\<lparr>phys := (phys m)(fst r := overwrite (8 * snd r) (le_enc 8 (pte_bits pte)) (phys m (fst r)))\<rparr>"

section \<open>Page tables\<close>

record page_table =
  pt_root :: phys_page_num
  pt_frames :: "phys_page_num list"

definition page_table_new :: "machine \<Rightarrow> (page_table \<times> machine) res" where
  "page_table_new m =
     (let (frame, m') = frame_alloc m in
      rbind (unwrapE frame) (\<lambda>ppn. Inr (\<lparr>pt_root = ppn, pt_frames = [ppn]\<rparr>, m')))"

definition page_table_from_token :: "usize \<Rightarrow> page_table" where
  "page_table_from_token satp = \<lparr>pt_root = PhysPageNum (satp AND (push_bit 44 1 - 1)), pt_frames = []\<rparr>"

fun find_pte_create_loop ::
  "nat list \<Rightarrow> usize list \<Rightarrow> phys_page_num \<Rightarrow> page_table \<Rightarrow> machine \<Rightarrow> (pte_ref option \<times> page_table \<times> machine) res"
where
  "find_pte_create_loop [] idxs ppn pt m = Inr (None, pt, m)"
| "find_pte_create_loop (i # is) idxs ppn pt m =
     (let pte = (ppn, unat (idxs ! i)) in
      if i = 2 then Inr (Some pte, pt, m)
      else if \<not> pte_is_valid (pte_at m pte) then
        (let (frame, m1) = frame_alloc m in
         rbind (unwrapE frame) (\<lambda>f.
         (let m2 = pte_set pte (pte_new f PTE_V) m1; pt2 = pt\<lparr>pt_frames := pt_frames pt @ [f]\<rparr>
          in find_pte_create_loop is idxs (pte_ppn (pte_at m2 pte)) pt2 m2)))
      else find_pte_create_loop is idxs (pte_ppn (pte_at m pte)) pt m)"

definition find_pte_create :: "virt_page_num \<Rightarrow> page_table \<Rightarrow> machine \<Rightarrow> (pte_ref option \<times> page_table \<times> machine) res" where
  "find_pte_create vpn pt m = find_pte_create_loop [0, 1, 2] (indexes vpn) (pt_root pt) pt m"

fun find_pte_loop :: "nat list \<Rightarrow> usize list \<Rightarrow> phys_page_num \<Rightarrow> machine \<Rightarrow> pte_ref option" where
  "find_pte_loop [] idxs ppn m = None"
| "find_pte_loop (i # is) idxs ppn m =
     (let pte = (ppn, unat (idxs ! i)) in
      if i = 2 then Some pte
      else if \<not> pte_is_valid (pte_at m pte) then None
      else find_pte_loop is idxs (pte_ppn (pte_at m pte)) m)"

definition find_pte :: "virt_page_num \<Rightarrow> page_table \<Rightarrow> machine \<Rightarrow> pte_ref option" where
  "find_pte vpn pt m = find_pte_loop [0, 1, 2] (indexes vpn) (pt_root pt) m"

definition pt_map ::
  "virt_page_num \<Rightarrow> phys_page_num \<Rightarrow> pte_flags \<Rightarrow> page_table \<times> machine \<Rightarrow> (page_table \<times> machine) res"
where
  "pt_map vpn ppn flags = (\<lambda>(pt, m).
     rbind (find_pte_create vpn pt m) (\<lambda>(r, pt', m').
     rbind (unwrapE r) (\<lambda>pte.
     rbind (assertE (\<not> pte_is_valid (pte_at m' pte))) (\<lambda>_.
     Inr (pt', pte_set pte (pte_new ppn (flags OR PTE_V)) m')))))"

definition pt_unmap :: "virt_page_num \<Rightarrow> page_table \<times> machine \<Rightarrow> (page_table \<times> machine) res" where
  "pt_unmap vpn = (\<lambda>(pt, m).
     rbind (find_pte_create vpn pt m) (\<lambda>(r, pt', m').
     rbind (unwrapE r) (\<lambda>pte.
     rbind (assertE (pte_is_valid (pte_at m' pte))) (\<lambda>_.
     Inr (pt', pte_set pte pte_empty m')))))"

definition pt_translate :: "virt_page_num \<Rightarrow> page_table \<Rightarrow> machine \<Rightarrow> page_table_entry option" where
  "pt_translate vpn pt m = map_option (pte_at m) (find_pte vpn pt m)"

definition pt_translate_va :: "virt_addr \<Rightarrow> page_table \<Rightarrow> machine \<Rightarrow> phys_addr option" where
  "pt_translate_va va pt m =
     map_option (\<lambda>pte.
       (let aligned_pa = pa_of_ppn (pte_ppn (pte_at m pte));
            offset = va_page_offset va
        in PhysAddr (pa_val aligned_pa + offset)))
     (find_pte (va_floor va) pt m)"

definition pt_translate_pte :: "virt_addr \<Rightarrow> page_table \<Rightarrow> machine \<Rightarrow> page_table_entry option" where
  "pt_translate_pte va pt m = pt_translate (va_floor va) pt m"

definition pt_token :: "page_table \<Rightarrow> usize" where
  "pt_token pt = push_bit 60 8 OR ppn_val (pt_root pt)"

section \<open>Access to the memory of a process\<close>

definition phys_ptr :: "phys_addr \<Rightarrow> uptr" where
  "phys_ptr pa = (pa_floor pa, unat (pa_page_offset pa))"

text \<open>
  The loop of \<^verbatim>\<open>translated_byte_buffer\<close>. The address may wrap at the end of the address
  space, so the loop need not end: it is a partial function, \<^term>\<open>None\<close> meaning that it runs
  forever.
\<close>

partial_function (option) byte_buffer_loop ::
  "page_table \<Rightarrow> machine \<Rightarrow> usize \<Rightarrow> usize \<Rightarrow> user_buffer \<Rightarrow> user_buffer res option"
where
  "byte_buffer_loop pt m start en v =
     (if start < en then
        (let start_va = VirtAddr start; vpn = va_floor start_va in
         case pt_translate vpn pt m of
           None \<Rightarrow> Some (Inl UnwrapNone)
         | Some pte \<Rightarrow>
             (let ppn = pte_ppn pte;
                  end_va = min (va_of_vpn (vpn_step vpn)) (VirtAddr en);
                  a = unat (va_page_offset start_va); b = unat (va_page_offset end_va)
              in if a \<le> b then
                   byte_buffer_loop pt m (va_val end_va) en (v @ [\<lparr>us_ppn = ppn, us_start = a, us_end = b\<rparr>])
                 else Some (Inl IndexOutOfBounds)))
      else Some (Inr v))"

definition translated_byte_buffer :: "usize \<Rightarrow> usize \<Rightarrow> usize \<Rightarrow> machine \<Rightarrow> user_buffer res option" where
  "translated_byte_buffer token ptr len m =
     byte_buffer_loop (page_table_from_token token) m ptr (ptr + len) []"

definition virtual_addr_printable :: "usize \<Rightarrow> usize \<Rightarrow> machine \<Rightarrow> (bool \<times> usize) res" where
  "virtual_addr_printable token va m =
     (let pt = page_table_from_token token in
      case pt_translate_pte (VirtAddr va) pt m of
        Some pte \<Rightarrow>
          rbind (unwrapE (pt_translate_va (VirtAddr va) pt m)) (\<lambda>pa.
          Inr (pte_is_valid pte \<and> (pte_readable pte \<and> \<not> pte_executable pte), pa_val pa))
      | None \<Rightarrow> Inr (False, 0))"

definition virtual_addr_writable :: "usize \<Rightarrow> usize \<Rightarrow> machine \<Rightarrow> bool" where
  "virtual_addr_writable token va m =
     (if va \<ge> TRAP_CONTEXT then False
      else case pt_translate_pte (VirtAddr va) (page_table_from_token token) m of
        Some pte \<Rightarrow> pte_is_valid pte \<and> pte_readable pte \<and> pte_writable pte
      | None \<Rightarrow> False)"

definition virtual_addr_range_printable :: "usize \<Rightarrow> usize \<Rightarrow> usize \<Rightarrow> machine \<Rightarrow> (bool \<times> usize \<times> usize) res" where
  "virtual_addr_range_printable token ptr len m =
     rbind (virtual_addr_printable token ptr m) (\<lambda>(start_printable, start_pa).
     rbind (virtual_addr_printable token (ptr + len) m) (\<lambda>(end_printable, end_pa).
     Inr (start_printable \<and> end_printable, start_pa, end_pa)))"

definition virtual_addr_range_writable :: "usize \<Rightarrow> usize \<Rightarrow> usize \<Rightarrow> machine \<Rightarrow> bool" where
  "virtual_addr_range_writable token ptr len m =
     (virtual_addr_writable token ptr m \<and> virtual_addr_writable token (ptr + len) m)"

definition translated_virtual_ptr :: "usize \<Rightarrow> usize \<Rightarrow> machine \<Rightarrow> usize res" where
  "translated_virtual_ptr token v_ptr m =
     rbind (unwrapE (pt_translate_va (VirtAddr v_ptr) (page_table_from_token token) m)) (\<lambda>pa.
     Inr (pa_val pa))"

text \<open>The characters of the string: each byte of user memory becomes one character.\<close>

partial_function (option) translated_str_loop ::
  "page_table \<Rightarrow> machine \<Rightarrow> usize \<Rightarrow> u8 list \<Rightarrow> u8 list res option"
where
  "translated_str_loop pt m va str =
     (case pt_translate_va (VirtAddr va) pt m of
        None \<Rightarrow> Some (Inl UnwrapNone)
      | Some pa \<Rightarrow>
          (let ch = ptr_read m (phys_ptr pa) in
           if ch = 0 then Some (Inr str)
           else translated_str_loop pt m (va + 1) (str @ [ch])))"

definition translated_str :: "usize \<Rightarrow> usize \<Rightarrow> machine \<Rightarrow> u8 list res option" where
  "translated_str token ptr m = translated_str_loop (page_table_from_token token) m ptr []"

text \<open>References to user objects (\<^verbatim>\<open>translated_refmut\<close>, \<^verbatim>\<open>translated_ref\<close>) are their physical addresses.\<close>

definition translated_refmut :: "usize \<Rightarrow> usize \<Rightarrow> machine \<Rightarrow> phys_addr res" where
  "translated_refmut token ptr m =
     unwrapE (pt_translate_va (VirtAddr ptr) (page_table_from_token token) m)"

definition translated_ref :: "usize \<Rightarrow> usize \<Rightarrow> machine \<Rightarrow> phys_addr res" where
  "translated_ref token ptr m =
     unwrapE (pt_translate_va (VirtAddr ptr) (page_table_from_token token) m)"

section \<open>Entries, their bits and their place in memory\<close>

lemma and_mask44: "(w :: usize) AND (push_bit 44 1 - 1) = take_bit 44 w"
  by (simp add: take_bit_eq_mask mask_eq_exp_minus_1 push_bit_eq_mult)

lemma pte_ppn_new:
  assumes "unat (ppn_val n) < 2 ^ 44"
  shows "pte_ppn (pte_new n fl) = n"
proof (cases n)
  case (PhysPageNum w)
  have w: "take_bit 44 w = w"
    using assms PhysPageNum by (intro unsigned_word_eqI [where 'a = nat]) (simp add: unsigned_take_bit_eq take_bit_nat_eq_self)
  have "take_bit 44 (drop_bit 10 (push_bit 10 w OR ucast fl)) = take_bit 44 w"
  proof (rule bit_word_eqI)
    fix k
    have "\<not> bit fl (10 + k)" by (auto dest: bit_imp_le_length)
    then show "bit (take_bit 44 (drop_bit 10 (push_bit 10 w OR ucast fl))) k = bit (take_bit 44 w) k"
      by (auto simp: bit_simps)
  qed
  then show ?thesis
    using w PhysPageNum unfolding pte_ppn_def pte_new_def and_mask44 by simp
qed

lemma pte_flags_new: "pte_get_flags (pte_new n fl) = fl"
proof -
  have "ucast (push_bit 10 (ppn_val n) OR ucast fl :: usize) = fl"
    by (rule bit_word_eqI) (auto simp: bit_simps)
  then show ?thesis by (simp add: pte_get_flags_def pte_new_def)
qed

lemma pte_is_valid_bit: "pte_is_valid pte \<longleftrightarrow> bit (pte_get_flags pte) 0"
  by (simp add: pte_is_valid_def PTE_V_def and_one_eq bit_0 even_iff_mod_2_eq_zero)

lemma pte_valid_new: "pte_is_valid (pte_new n (fl OR PTE_V))" "pte_is_valid (pte_new n PTE_V)"
  by (simp_all add: pte_is_valid_bit pte_flags_new PTE_V_def bit_or_iff)

lemma pte_valid_empty: "\<not> pte_is_valid pte_empty"
  by (simp add: pte_is_valid_def pte_get_flags_def pte_empty_def)

lemma pte_at_set_same:
  "mem_ok m \<Longrightarrow> i < 512 \<Longrightarrow> pte_at (pte_set (n, i) e m) (n, i) = e"
  using take_drop_overwrite [of "8 * i" "le_enc 8 (pte_bits e)" "phys m n"]
  by (simp add: pte_at_def pte_set_def mem_ok_def le_dec_enc)

lemma pte_at_set_other:
  assumes "mem_ok m" and "i < 512" and "j < 512" and "(n, i) \<noteq> (k, j)"
  shows "pte_at (pte_set (n, i) e m) (k, j) = pte_at m (k, j)"
proof (cases "n = k")
  case False
  then show ?thesis by (simp add: pte_at_def pte_set_def)
next
  case True
  then consider "i < j" | "j < i" using assms(4) by force
  then show ?thesis
    using assms(1-3) True
    by cases (simp_all add: pte_at_def pte_set_def mem_ok_def take_drop_overwrite_after
        take_drop_overwrite_before)
qed

lemma mem_ok_pte_set [simp]: "mem_ok m \<Longrightarrow> snd r < 512 \<Longrightarrow> mem_ok (pte_set r e m)"
  by (simp add: mem_ok_def pte_set_def)

lemma frames_pte_set [simp]: "frames (pte_set r e m) = frames m"
  by (simp add: pte_set_def)

lemma phys_pte_set: "k \<noteq> fst r \<Longrightarrow> phys (pte_set r e m) k = phys m k"
  by (simp add: pte_set_def)

end
