(* ===== verification/Page_Table_Spec.thy ===== *)
theory Page_Table_Spec
  imports Page_Table
begin

text \<open>
  Page tables as partial maps from virtual pages to entries. The tree of nodes in physical
  memory is well formed when different paths lead to different frames of the table; then
  \<^verbatim>\<open>map\<close> and \<^verbatim>\<open>unmap\<close> change exactly one page of the map, whatever nodes they create on
  the way.
\<close>

section \<open>Paths\<close>

fun walk :: "machine \<Rightarrow> phys_page_num \<Rightarrow> nat list \<Rightarrow> phys_page_num option" where
  "walk m n [] = Some n"
| "walk m n (i # is) =
     (if pte_is_valid (pte_at m (n, i)) then walk m (pte_ppn (pte_at m (n, i))) is else None)"

definition node_path :: "nat list \<Rightarrow> bool" where
  "node_path p \<longleftrightarrow> length p \<le> 2 \<and> (\<forall>i \<in> set p. i < 512)"

definition vpn_idx :: "virt_page_num \<Rightarrow> nat \<Rightarrow> nat" where
  "vpn_idx vpn i = unat (indexes vpn ! i)"

lemma vpn_idx_bound: "i < 3 \<Longrightarrow> vpn_idx vpn i < 512"
  unfolding vpn_idx_def by (rule indexes_bound [of _ vpn]) simp

lemma vpn_idx_inject:
  "indexes u = indexes v \<longleftrightarrow> vpn_idx u 0 = vpn_idx v 0 \<and> vpn_idx u 1 = vpn_idx v 1 \<and> vpn_idx u 2 = vpn_idx v 2"
  by (auto simp: vpn_idx_def indexes_eq numeral_2_eq_2 word_unat_eq_iff)

lemma walk_append:
  "walk m n (p @ q) = (case walk m n p of None \<Rightarrow> None | Some k \<Rightarrow> walk m k q)"
  by (induction p arbitrary: n) auto

lemma walk_cong:
  assumes "\<And>k a. k < length p \<Longrightarrow> walk m n (take k p) = Some a \<Longrightarrow> pte_at m' (a, p ! k) = pte_at m (a, p ! k)"
  shows "walk m' n p = walk m n p"
  using assms
proof (induction p arbitrary: n)
  case Nil
  then show ?case by simp
next
  case (Cons i p)
  have hd: "pte_at m' (n, i) = pte_at m (n, i)" using Cons.prems [of 0 n] by simp
  show ?case
  proof (cases "pte_is_valid (pte_at m (n, i))")
    case True
    have "walk m' (pte_ppn (pte_at m (n, i))) p = walk m (pte_ppn (pte_at m (n, i))) p"
      using Cons.prems [of "Suc k" a for k a] True by (intro Cons.IH) simp
    with True hd show ?thesis by simp
  qed (simp add: hd)
qed

section \<open>Well-formed tables\<close>

definition pt_wf :: "machine \<Rightarrow> phys_page_num \<Rightarrow> phys_page_num set \<Rightarrow> bool" where
  "pt_wf m r fs \<longleftrightarrow>
     (\<forall>p n. node_path p \<and> walk m r p = Some n \<longrightarrow> n \<in> fs) \<and>
     (\<forall>p q n. node_path p \<and> node_path q \<and> walk m r p = Some n \<and> walk m r q = Some n \<longrightarrow> p = q)"

lemma pt_wf_node: "pt_wf m r fs \<Longrightarrow> node_path p \<Longrightarrow> walk m r p = Some n \<Longrightarrow> n \<in> fs"
  by (auto simp: pt_wf_def)

lemma pt_wf_inj:
  "pt_wf m r fs \<Longrightarrow> node_path p \<Longrightarrow> node_path q \<Longrightarrow> walk m r p = Some n \<Longrightarrow> walk m r q = Some n \<Longrightarrow> p = q"
  unfolding pt_wf_def by blast

lemma pt_wf_cong:
  "(\<And>p. node_path p \<Longrightarrow> walk m' r p = walk m r p) \<Longrightarrow> pt_wf m r fs \<Longrightarrow> pt_wf m' r fs"
  unfolding pt_wf_def by metis

lemma node_path_take: "node_path p \<Longrightarrow> node_path (take k p)"
  by (auto simp: node_path_def dest: in_set_takeD)

lemma node_path_snoc: "node_path q \<Longrightarrow> length q \<le> 1 \<Longrightarrow> i < 512 \<Longrightarrow> node_path (q @ [i])"
  by (auto simp: node_path_def)

lemma node_path_nth: "node_path p \<Longrightarrow> k < length p \<Longrightarrow> p ! k < 512"
  by (auto simp: node_path_def)

text \<open>Writing an entry of a leaf node changes no path.\<close>

lemma walk_set_leaf:
  assumes "pt_wf m r fs" and "mem_ok m" and "node_path q" and "length q = 2" and "walk m r q = Some n"
    and "i < 512" and "node_path p"
  shows "walk (pte_set (n, i) e m) r p = walk m r p"
proof (rule walk_cong)
  fix k a
  assume k: "k < length p" and a: "walk m r (take k p) = Some a"
  have "a \<noteq> n"
  proof
    assume "a = n"
    with assms a have "take k p = q" by (blast intro: pt_wf_inj node_path_take)
    with assms(4,7) k show False by (auto simp: node_path_def)
  qed
  then show "pte_at (pte_set (n, i) e m) (a, p ! k) = pte_at m (a, p ! k)"
    using assms node_path_nth [OF assms(7) k] by (intro pte_at_set_other) auto
qed

text \<open>Hanging a cleared frame below a missing entry adds one path.\<close>

lemma walk_set_node:
  assumes wf: "pt_wf m r fs" and q: "node_path q" "length q \<le> 1" "walk m r q = Some n" and i: "i < 512"
    and inv: "\<not> pte_is_valid (pte_at m (n, i))"
    and same: "\<And>k j. k \<in> fs \<Longrightarrow> j < 512 \<Longrightarrow> (k, j) \<noteq> (n, i) \<Longrightarrow> pte_at m' (k, j) = pte_at m (k, j)"
    and new: "pte_is_valid (pte_at m' (n, i))" "pte_ppn (pte_at m' (n, i)) = f"
    and clear: "\<And>j. j < 512 \<Longrightarrow> \<not> pte_is_valid (pte_at m' (f, j))"
    and p: "node_path p"
  shows "walk m' r p = (if p = q @ [i] then Some f else walk m r p)"
proof -
  have off: "walk m' r p = walk m r p" if p: "node_path p" and np: "take (length q + 1) p \<noteq> q @ [i]" for p
  proof (rule walk_cong)
    fix k a
    assume k: "k < length p" and a: "walk m r (take k p) = Some a"
    have "(a, p ! k) \<noteq> (n, i)"
    proof
      assume eq: "(a, p ! k) = (n, i)"
      with wf a q have "take k p = q" by (auto intro: pt_wf_inj node_path_take [OF p])
      with eq k have "take (length q + 1) p = q @ [i]"
        by (auto simp: take_Suc_conv_app_nth)
      with np show False by simp
    qed
    then show "pte_at m' (a, p ! k) = pte_at m (a, p ! k)"
      using pt_wf_node [OF wf node_path_take [OF p] a] node_path_nth [OF p k] by (intro same)
  qed
  show ?thesis
  proof (cases "take (length q + 1) p = q @ [i]")
    case False
    then have "p \<noteq> q @ [i]" by auto
    with off [OF p False] show ?thesis by simp
  next
    case True
    then obtain rest where rest: "p = (q @ [i]) @ rest" by (metis append_take_drop_id)
    have "walk m' r q = Some n" using off [OF q(1)] q(3) by simp
    then have "walk m' r p = walk m' f rest" using rest new by (simp add: walk_append)
    moreover have "walk m r p = None" using rest q(3) inv by (simp add: walk_append)
    moreover have "walk m' f rest = (if rest = [] then Some f else None)"
      using p rest clear by (cases rest) (auto simp: node_path_def)
    ultimately show ?thesis using rest by simp
  qed
qed

lemma pt_wf_set_node:
  assumes "pt_wf m r fs" and "f \<notin> fs"
    and "\<And>p. node_path p \<Longrightarrow> walk m' r p = (if p = c then Some f else walk m r p)"
  shows "pt_wf m' r (insert f fs)"
  using assms unfolding pt_wf_def by (smt (verit) insert_iff option.inject)

definition pt_inv :: "usize \<Rightarrow> page_table \<times> machine \<Rightarrow> bool" where
  "pt_inv l = (\<lambda>(pt, m). mem_ok m \<and> fa_inv l (frames m) \<and> unat (fa_end (frames m)) \<le> 2 ^ 44
     \<and> distinct (pt_frames pt) \<and> set (pt_frames pt) \<subseteq> fa_used l (frames m)
     \<and> pt_wf m (pt_root pt) (set (pt_frames pt)))"

text \<open>The partial map a table stands for: its valid leaf entries.\<close>

definition pt_view :: "page_table \<times> machine \<Rightarrow> virt_page_num \<Rightarrow> page_table_entry option" where
  "pt_view = (\<lambda>(pt, m) vpn.
     (case find_pte vpn pt m of
        None \<Rightarrow> None
      | Some r \<Rightarrow> if pte_is_valid (pte_at m r) then Some (pte_at m r) else None))"

lemma find_pte_walk:
  "find_pte vpn pt m = map_option (\<lambda>n. (n, vpn_idx vpn 2)) (walk m (pt_root pt) [vpn_idx vpn 0, vpn_idx vpn 1])"
  by (simp add: find_pte_def vpn_idx_def Let_def)

lemma leaf_path: "node_path [vpn_idx vpn 0, vpn_idx vpn 1]" "node_path [vpn_idx vpn 0]" "node_path []"
  by (simp_all add: node_path_def vpn_idx_bound)

lemma pt_view_at:
  "walk m (pt_root pt) [vpn_idx vpn 0, vpn_idx vpn 1] = Some n \<Longrightarrow>
   pt_view (pt, m) vpn = (if pte_is_valid (pte_at m (n, vpn_idx vpn 2)) then Some (pte_at m (n, vpn_idx vpn 2)) else None)"
  by (simp add: pt_view_def find_pte_walk)

lemma pt_view_same: "indexes u = indexes v \<Longrightarrow> pt_view s u = pt_view s v"
  by (cases s) (simp add: pt_view_def find_pte_walk vpn_idx_inject)

lemma pt_view_walk:
  "pt_view (pt, m) vpn = Some e \<Longrightarrow> \<exists>n. walk m (pt_root pt) [vpn_idx vpn 0, vpn_idx vpn 1] = Some n
     \<and> e = pte_at m (n, vpn_idx vpn 2) \<and> pte_is_valid e"
  by (auto simp: pt_view_def find_pte_walk split: option.splits if_splits)

lemma pt_view_cong:
  assumes "\<And>p. node_path p \<Longrightarrow> length p = 2 \<Longrightarrow> walk m' (pt_root pt') p = walk m (pt_root pt) p"
    and "\<And>p n j. node_path p \<Longrightarrow> length p = 2 \<Longrightarrow> walk m (pt_root pt) p = Some n \<Longrightarrow> j < 512 \<Longrightarrow>
           pte_at m' (n, j) = pte_at m (n, j)"
  shows "pt_view (pt', m') = pt_view (pt, m)"
proof
  fix vpn
  show "pt_view (pt', m') vpn = pt_view (pt, m) vpn"
    using assms(1) [OF leaf_path(1)] assms(2) [OF leaf_path(1)] vpn_idx_bound [of 2 vpn]
    by (cases "walk m (pt_root pt) [vpn_idx vpn 0, vpn_idx vpn 1]")
      (auto simp: pt_view_def find_pte_walk)
qed

lemma pte_at_clear: "phys m n = replicate 4096 0 \<Longrightarrow> \<not> pte_is_valid (pte_at m (n, j))"
proof -
  assume "phys m n = replicate 4096 0"
  then have "take 8 (drop (8 * j) (phys m n)) = replicate (min 8 (4096 - 8 * j)) 0"
    by (simp add: min.commute)
  moreover have "le_dec (replicate k 0) = (0 :: usize)" for k
    by (induction k) simp_all
  ultimately show ?thesis by (simp add: pte_at_def pte_is_valid_def pte_get_flags_def)
qed

text \<open>
  What one level of \<^verbatim>\<open>find_pte_create\<close> does: afterwards the path to the next node exists, and
  the map, the other pages and the frames of others are as before.
\<close>

definition pt_grows :: "usize \<Rightarrow> page_table \<times> machine \<Rightarrow> page_table \<times> machine \<Rightarrow> bool" where
  "pt_grows l = (\<lambda>(pt, m) (pt', m'). pt_inv l (pt', m') \<and> pt_root pt' = pt_root pt
     \<and> pt_view (pt', m') = pt_view (pt, m)
     \<and> set (pt_frames pt) \<subseteq> set (pt_frames pt')
     \<and> fa_used l (frames m') = fa_used l (frames m) \<union> set (pt_frames pt')
     \<and> (set (pt_frames pt') - set (pt_frames pt)) \<inter> fa_used l (frames m) = {}
     \<and> (\<forall>k. k \<notin> set (pt_frames pt') \<longrightarrow> phys m' k = phys m k)
     \<and> fa_end (frames m') = fa_end (frames m))"

lemma pt_grows_refl: "pt_inv l s \<Longrightarrow> pt_grows l s s"
  by (cases s) (auto simp: pt_grows_def pt_inv_def)

lemma pt_grows_trans:
  assumes "pt_grows l s s'" and "pt_grows l s' s''"
  shows "pt_grows l s s''"
  using assms by (cases s, cases s', cases s'') (auto simp: pt_grows_def)

lemma pt_view_new_leaf:
  assumes "\<And>p. node_path p \<Longrightarrow> walk m' (pt_root pt') p = (if p = c then Some f else walk m (pt_root pt) p)"
    and "walk m (pt_root pt) c = None"
    and "\<And>j. j < 512 \<Longrightarrow> \<not> pte_is_valid (pte_at m' (f, j))"
    and "\<And>p k j. node_path p \<Longrightarrow> length p = 2 \<Longrightarrow> walk m (pt_root pt) p = Some k \<Longrightarrow> j < 512 \<Longrightarrow>
      pte_at m' (k, j) = pte_at m (k, j)"
  shows "pt_view (pt', m') = pt_view (pt, m)"
proof
  fix vpn
  let ?p = "[vpn_idx vpn 0, vpn_idx vpn 1]"
  show "pt_view (pt', m') vpn = pt_view (pt, m) vpn"
    using assms(1) [OF leaf_path(1), of vpn] assms(2) assms(3) [of "vpn_idx vpn 2"]
      assms(4) [OF leaf_path(1), of vpn _ "vpn_idx vpn 2"] vpn_idx_bound [of 2 vpn]
    by (cases "?p = c"; cases "walk m (pt_root pt) ?p") (auto simp: pt_view_def find_pte_walk)
qed

lemma find_pte_create_step:
  assumes inv: "pt_inv l (pt, m)" and q: "node_path q" "length q = i" "walk m (pt_root pt) q = Some n"
    and i: "i < 2" and free: "0 < fa_free_count (frames m)"
  obtains n' pt' m' where
    "find_pte_create_loop (i # is) (indexes vpn) n pt m = find_pte_create_loop is (indexes vpn) n' pt' m'"
    and "pt_grows l (pt, m) (pt', m')" and "walk m' (pt_root pt) (q @ [vpn_idx vpn i]) = Some n'"
    and "fa_free_count (frames m) \<le> Suc (fa_free_count (frames m'))"
proof (cases "pte_is_valid (pte_at m (n, vpn_idx vpn i))")
  case True
  then show thesis
    using that [of "pte_ppn (pte_at m (n, vpn_idx vpn i))" pt m] i q(3) pt_grows_refl [OF inv]
    by (simp add: vpn_idx_def walk_append Let_def)
next
  case False
  let ?x = "vpn_idx vpn i"
  have x: "?x < 512" using i by (intro vpn_idx_bound) simp
  from inv have mem: "mem_ok m" and fi: "fa_inv l (frames m)" and fe: "unat (fa_end (frames m)) \<le> 2 ^ 44"
    and sub: "set (pt_frames pt) \<subseteq> fa_used l (frames m)"
    and wf: "pt_wf m (pt_root pt) (set (pt_frames pt))" and dist: "distinct (pt_frames pt)"
    by (auto simp: pt_inv_def)
  from fi free mem obtain f m1 where al: "frame_alloc m = (Some f, m1)" "f \<notin> fa_used l (frames m)"
    "fa_used l (frames m1) = insert f (fa_used l (frames m))" "fa_inv l (frames m1)"
    "fa_end (frames m1) = fa_end (frames m)" "fa_free_count (frames m) = Suc (fa_free_count (frames m1))"
    "phys m1 = (phys m)(f := replicate 4096 0)" "mem_ok m1"
    by (rule frame_alloc_ok)
  let ?m2 = "pte_set (n, ?x) (pte_new f PTE_V) m1" and ?pt2 = "pt\<lparr>pt_frames := pt_frames pt @ [f]\<rparr>"
  have n: "n \<in> set (pt_frames pt)" using pt_wf_node [OF wf q(1,3)] .
  have nf: "f \<notin> set (pt_frames pt)" "n \<noteq> f" using n sub al(2) by auto
  have "f \<in> fa_used l (frames m1)" using al(3) by simp
  then have "unat (ppn_val f) < 2 ^ 44" using fa_used_bound [OF al(4)] fe al(5) by fastforce
  then have entry: "pte_at ?m2 (n, ?x) = pte_new f PTE_V" "pte_ppn (pte_new f PTE_V) = f"
    "pte_is_valid (pte_new f PTE_V)"
    using al(8) x by (simp_all add: pte_at_set_same pte_ppn_new pte_valid_new)
  have same: "pte_at ?m2 (k, j) = pte_at m (k, j)" if "k \<in> set (pt_frames pt)" "j < 512" "(k, j) \<noteq> (n, ?x)" for k j
  proof -
    have "pte_at ?m2 (k, j) = pte_at m1 (k, j)" using al(8) x that by (intro pte_at_set_other) auto
    also have "\<dots> = pte_at m (k, j)" using that(1) nf al(7) by (auto simp: pte_at_def)
    finally show ?thesis .
  qed
  have clear: "\<not> pte_is_valid (pte_at ?m2 (f, j))" for j
    using nf al(7) by (intro pte_at_clear) (simp add: phys_pte_set)
  have len: "length q \<le> 1" using q(2) i by simp
  have wk: "walk ?m2 (pt_root pt) p = (if p = q @ [?x] then Some f else walk m (pt_root pt) p)" if "node_path p" for p
    using that by (intro walk_set_node [OF wf q(1) len q(3) x False same]) (auto simp: entry clear)
  have none: "walk m (pt_root pt) (q @ [?x]) = None" using q(3) False by (simp add: walk_append)
  have view: "pt_view (?pt2, ?m2) = pt_view (pt, m)"
  proof (rule pt_view_new_leaf)
    fix p k j
    assume p: "node_path p" "length p = 2" "walk m (pt_root pt) p = Some k" "j < (512 :: nat)"
    then have "k \<noteq> n" using pt_wf_inj [OF wf p(1) q(1) p(3)] q(2,3) i by auto
    then show "pte_at ?m2 (k, j) = pte_at m (k, j)"
      using p pt_wf_node [OF wf p(1,3)] by (intro same) auto
  qed (use wk none clear in auto)
  have inv2: "pt_inv l (?pt2, ?m2)"
    using al sub dist nf x fe pt_wf_set_node [OF wf nf(1) wk]
    by (auto simp: pt_inv_def)
  have "phys ?m2 k = phys m k" if "k \<notin> set (pt_frames ?pt2)" for k
    using that n al(7) by (cases "k = n") (auto simp: phys_pte_set)
  then have "pt_grows l (pt, m) (?pt2, ?m2)"
    using inv2 view al sub by (auto simp: pt_grows_def)
  moreover have "find_pte_create_loop (i # is) (indexes vpn) n pt m
      = find_pte_create_loop is (indexes vpn) f ?pt2 ?m2"
    using False al(1) i entry by (simp add: vpn_idx_def Let_def)
  ultimately show thesis
    using that [of f ?pt2 ?m2] wk [OF node_path_snoc [OF q(1) len x]] al(6) by simp
qed

lemma find_pte_create_ok:
  assumes inv: "pt_inv l (pt, m)" and free: "2 \<le> fa_free_count (frames m)"
  obtains n pt' m' where "find_pte_create vpn pt m = Inr (Some (n, vpn_idx vpn 2), pt', m')"
    and "pt_grows l (pt, m) (pt', m')" and "walk m' (pt_root pt') [vpn_idx vpn 0, vpn_idx vpn 1] = Some n"
    and "fa_free_count (frames m) \<le> fa_free_count (frames m') + 2"
proof -
  have "walk m (pt_root pt) [] = Some (pt_root pt)" by simp
  from find_pte_create_step [OF inv leaf_path(3) _ this, of 0 "[1, 2]" vpn] free obtain n1 pt1 m1 where
    s1: "find_pte_create_loop [0, 1, 2] (indexes vpn) (pt_root pt) pt m
      = find_pte_create_loop [1, 2] (indexes vpn) n1 pt1 m1"
    and g1: "pt_grows l (pt, m) (pt1, m1)" and w1: "walk m1 (pt_root pt) [vpn_idx vpn 0] = Some n1"
    and f1: "fa_free_count (frames m) \<le> Suc (fa_free_count (frames m1))"
    by auto
  from g1 have inv1: "pt_inv l (pt1, m1)" and r1: "pt_root pt1 = pt_root pt" by (auto simp: pt_grows_def)
  have c: "length [vpn_idx vpn 0] = 1" "1 < (2 :: nat)" "0 < fa_free_count (frames m1)"
    using free f1 by auto
  obtain n2 pt2 m2 where
    s2: "find_pte_create_loop [1, 2] (indexes vpn) n1 pt1 m1 = find_pte_create_loop [2] (indexes vpn) n2 pt2 m2"
    and g2: "pt_grows l (pt1, m1) (pt2, m2)"
    and w2: "walk m2 (pt_root pt1) ([vpn_idx vpn 0] @ [vpn_idx vpn 1]) = Some n2"
    and f2: "fa_free_count (frames m1) \<le> Suc (fa_free_count (frames m2))"
    by (rule find_pte_create_step [OF inv1 leaf_path(2) c(1) w1 [folded r1] c(2,3)])
  have "find_pte_create vpn pt m = Inr (Some (n2, vpn_idx vpn 2), pt2, m2)"
    using s1 s2 by (simp add: find_pte_create_def vpn_idx_def Let_def)
  moreover have "pt_root pt2 = pt_root pt" using g2 r1 by (simp add: pt_grows_def)
  ultimately show thesis
    using that [of n2 pt2 m2] pt_grows_trans [OF g1 g2] w2 r1 f1 f2 by simp
qed

lemma find_pte_create_existing:
  assumes "walk m (pt_root pt) [vpn_idx vpn 0, vpn_idx vpn 1] = Some n"
  shows "find_pte_create vpn pt m = Inr (Some (n, vpn_idx vpn 2), pt, m)"
  using assms by (simp add: find_pte_create_def vpn_idx_def Let_def split: if_splits)

lemma pt_set_leaf:
  fixes e :: page_table_entry
  assumes inv: "pt_inv l (pt, m)" and n: "walk m (pt_root pt) [vpn_idx vpn 0, vpn_idx vpn 1] = Some n"
  defines "m' \<equiv> pte_set (n, vpn_idx vpn 2) e m"
  shows "pt_inv l (pt, m')"
    and "pt_view (pt, m') u = (if indexes u = indexes vpn then (if pte_is_valid e then Some e else None)
      else pt_view (pt, m) u)"
    and "k \<notin> set (pt_frames pt) \<Longrightarrow> phys m' k = phys m k"
proof -
  have x: "vpn_idx vpn 2 < 512" "vpn_idx u 2 < 512" by (simp_all add: vpn_idx_bound)
  from inv have mem: "mem_ok m" and wf: "pt_wf m (pt_root pt) (set (pt_frames pt))"
    by (auto simp: pt_inv_def)
  have wk: "walk m' (pt_root pt) p = walk m (pt_root pt) p" if "node_path p" for p
    unfolding m'_def using walk_set_leaf [OF wf mem leaf_path(1) _ n x(1) that] by simp
  then have "pt_wf m' (pt_root pt) (set (pt_frames pt))"
    using wf by (rule pt_wf_cong)
  then show "pt_inv l (pt, m')" using inv x by (auto simp: pt_inv_def m'_def)
  show "k \<notin> set (pt_frames pt) \<Longrightarrow> phys m' k = phys m k"
    unfolding m'_def using pt_wf_node [OF wf leaf_path(1) n] by (intro phys_pte_set) auto
  let ?pu = "[vpn_idx u 0, vpn_idx u 1]"
  have wu: "walk m' (pt_root pt) ?pu = walk m (pt_root pt) ?pu" by (rule wk [OF leaf_path(1)])
  show "pt_view (pt, m') u = (if indexes u = indexes vpn then (if pte_is_valid e then Some e else None)
      else pt_view (pt, m) u)"
  proof (cases "indexes u = indexes vpn")
    case True
    have "pt_view (pt, m') vpn = (if pte_is_valid e then Some e else None)"
      using pt_view_at [OF trans [OF wk [OF leaf_path(1)] n]] mem x by (simp add: m'_def pte_at_set_same)
    with True show ?thesis using pt_view_same [OF True] by simp
  next
    case False
    have "pte_at m' (k, vpn_idx u 2) = pte_at m (k, vpn_idx u 2)" if "walk m (pt_root pt) ?pu = Some k" for k
      unfolding m'_def using mem x that False pt_wf_inj [OF wf leaf_path(1) leaf_path(1) n, of u]
      by (intro pte_at_set_other) (auto simp: vpn_idx_inject)
    then show ?thesis
      using False wu by (cases "walk m (pt_root pt) ?pu") (auto simp: pt_view_def find_pte_walk)
  qed
qed

text \<open>What a change of one page of the map leaves as it was.\<close>

definition pt_changes :: "usize \<Rightarrow> virt_page_num \<Rightarrow> page_table_entry option \<Rightarrow> page_table \<times> machine \<Rightarrow> page_table \<times> machine \<Rightarrow> bool" where
  "pt_changes l vpn e = (\<lambda>(pt, m) (pt', m'). pt_inv l (pt', m') \<and> pt_root pt' = pt_root pt
     \<and> pt_view (pt', m') = (\<lambda>u. if indexes u = indexes vpn then e else pt_view (pt, m) u)
     \<and> set (pt_frames pt) \<subseteq> set (pt_frames pt')
     \<and> fa_used l (frames m') = fa_used l (frames m) \<union> set (pt_frames pt')
     \<and> (set (pt_frames pt') - set (pt_frames pt)) \<inter> fa_used l (frames m) = {}
     \<and> (\<forall>k. k \<notin> set (pt_frames pt') \<longrightarrow> phys m' k = phys m k)
     \<and> fa_end (frames m') = fa_end (frames m))"

lemma pt_changesI:
  assumes g: "pt_grows l (pt, m) (pt', m')" and n: "walk m' (pt_root pt') [vpn_idx vpn 0, vpn_idx vpn 1] = Some n"
    and e: "x = (if pte_is_valid e then Some e else None)"
  shows "pt_changes l vpn x (pt, m) (pt', pte_set (n, vpn_idx vpn 2) e m')"
proof -
  have inv: "pt_inv l (pt', m')" using g by (simp add: pt_grows_def)
  show ?thesis
    using g pt_set_leaf [OF inv n, where e = e] unfolding pt_changes_def pt_grows_def e
    by (auto simp: fun_eq_iff)
qed

lemma pt_map_ok:
  assumes inv: "pt_inv l (pt, m)" and un: "pt_view (pt, m) vpn = None" and free: "2 \<le> fa_free_count (frames m)"
  shows "\<exists>pt' m'. pt_map vpn ppn fl (pt, m) = Inr (pt', m')
    \<and> pt_changes l vpn (Some (pte_new ppn (fl OR PTE_V))) (pt, m) (pt', m')
    \<and> fa_free_count (frames m) \<le> fa_free_count (frames m') + 2"
proof -
  from find_pte_create_ok [OF inv free] obtain n pt' m' where
    f: "find_pte_create vpn pt m = Inr (Some (n, vpn_idx vpn 2), pt', m')"
    and g: "pt_grows l (pt, m) (pt', m')" and n: "walk m' (pt_root pt') [vpn_idx vpn 0, vpn_idx vpn 1] = Some n"
    and fr: "fa_free_count (frames m) \<le> fa_free_count (frames m') + 2" by blast
  have "pt_view (pt', m') vpn = None" using g un by (simp add: pt_grows_def)
  then have "\<not> pte_is_valid (pte_at m' (n, vpn_idx vpn 2))"
    using n by (auto simp: pt_view_at split: if_splits)
  then show ?thesis
    using f fr pt_changesI [OF g n, of "Some (pte_new ppn (fl OR PTE_V))" "pte_new ppn (fl OR PTE_V)"]
    by (simp add: pt_map_def pte_valid_new)
qed

lemma pt_map_mapped:
  assumes "pt_view (pt, m) vpn = Some e"
  shows "pt_map vpn ppn fl (pt, m) = Inl AssertFailed"
proof -
  from pt_view_walk [OF assms] obtain n where
    n: "walk m (pt_root pt) [vpn_idx vpn 0, vpn_idx vpn 1] = Some n"
    and e: "pte_is_valid (pte_at m (n, vpn_idx vpn 2))" by auto
  show ?thesis using find_pte_create_existing [OF n] e by (simp add: pt_map_def)
qed

lemma pt_unmap_ok:
  assumes inv: "pt_inv l (pt, m)" and mp: "pt_view (pt, m) vpn = Some e"
  shows "\<exists>m'. pt_unmap vpn (pt, m) = Inr (pt, m') \<and> pt_changes l vpn None (pt, m) (pt, m')
    \<and> frames m' = frames m"
proof -
  from pt_view_walk [OF mp] obtain n where
    n: "walk m (pt_root pt) [vpn_idx vpn 0, vpn_idx vpn 1] = Some n"
    and e: "pte_is_valid (pte_at m (n, vpn_idx vpn 2))" by auto
  show ?thesis
    using find_pte_create_existing [OF n] e pt_changesI [OF pt_grows_refl [OF inv] n, of None pte_empty]
    by (simp add: pt_unmap_def pte_valid_empty)
qed

lemma pt_unmap_unmapped:
  assumes inv: "pt_inv l (pt, m)" and un: "pt_view (pt, m) vpn = None" and free: "2 \<le> fa_free_count (frames m)"
  shows "pt_unmap vpn (pt, m) = Inl AssertFailed"
proof -
  from find_pte_create_ok [OF inv free] obtain n pt' m' where
    f: "find_pte_create vpn pt m = Inr (Some (n, vpn_idx vpn 2), pt', m')"
    and g: "pt_grows l (pt, m) (pt', m')" and n: "walk m' (pt_root pt') [vpn_idx vpn 0, vpn_idx vpn 1] = Some n"
    by blast
  have "pt_view (pt', m') vpn = None" using g un by (simp add: pt_grows_def)
  then have "\<not> pte_is_valid (pte_at m' (n, vpn_idx vpn 2))"
    using n by (auto simp: pt_view_at split: if_splits)
  then show ?thesis using f by (simp add: pt_unmap_def)
qed

text \<open>Changes of memory outside the frames of a table do not concern it.\<close>

lemma pt_frame_rule:
  assumes inv: "pt_inv l (pt, m)" and same: "\<And>k. k \<in> set (pt_frames pt) \<Longrightarrow> phys m' k = phys m k"
    and mem: "mem_ok m'" "fa_inv l (frames m')" "unat (fa_end (frames m')) \<le> 2 ^ 44"
      "set (pt_frames pt) \<subseteq> fa_used l (frames m')"
  shows "pt_inv l (pt, m')" and "pt_view (pt, m') = pt_view (pt, m)"
proof -
  from inv have wf: "pt_wf m (pt_root pt) (set (pt_frames pt))" and d: "distinct (pt_frames pt)"
    by (auto simp: pt_inv_def)
  have at: "pte_at m' (k, j) = pte_at m (k, j)" if "k \<in> set (pt_frames pt)" for k j
    using same [OF that] by (simp add: pte_at_def)
  have wk: "walk m' (pt_root pt) p = walk m (pt_root pt) p" if "node_path p" for p
    by (rule walk_cong) (auto intro!: at pt_wf_node [OF wf node_path_take [OF that]])
  show "pt_inv l (pt, m')" using mem d pt_wf_cong [OF wk wf] by (simp add: pt_inv_def)
  show "pt_view (pt, m') = pt_view (pt, m)"
    by (rule pt_view_cong) (auto simp: wk intro!: at pt_wf_node [OF wf])
qed

section \<open>The contract for clients\<close>

text \<open>
  What the address spaces rely on: a page table is a partial map from pages, where pages with
  the same three indexes are one page; \<open>room\<close> counts the frames left for new nodes.
\<close>

locale page_map =
  fixes pmap :: "virt_page_num \<Rightarrow> phys_page_num \<Rightarrow> pte_flags \<Rightarrow> 's \<Rightarrow> 's res"
    and punmap :: "virt_page_num \<Rightarrow> 's \<Rightarrow> 's res"
    and view :: "'s \<Rightarrow> virt_page_num \<Rightarrow> page_table_entry option"
    and inv :: "'s \<Rightarrow> bool"
    and room :: "'s \<Rightarrow> nat"
  assumes map_ok: "inv s \<Longrightarrow> view s v = None \<Longrightarrow> 2 \<le> room s \<Longrightarrow>
      \<exists>s'. pmap v p fl s = Inr s' \<and> inv s' \<and> room s \<le> room s' + 2
        \<and> view s' = (\<lambda>u. if indexes u = indexes v then Some (pte_new p (fl OR PTE_V)) else view s u)"
    and map_mapped: "inv s \<Longrightarrow> view s v = Some e \<Longrightarrow> \<exists>err. pmap v p fl s = Inl err"
    and unmap_ok: "inv s \<Longrightarrow> view s v = Some e \<Longrightarrow>
      \<exists>s'. punmap v s = Inr s' \<and> inv s' \<and> room s' = room s
        \<and> view s' = (\<lambda>u. if indexes u = indexes v then None else view s u)"
    and unmap_unmapped: "inv s \<Longrightarrow> view s v = None \<Longrightarrow> 2 \<le> room s \<Longrightarrow> \<exists>err. punmap v s = Inl err"
    and view_same: "indexes u = indexes v \<Longrightarrow> view s u = view s v"
begin

lemma map_unmap:
  assumes "inv s" and "view s v = None" and "2 \<le> room s"
  shows "\<exists>s1 s2. pmap v p fl s = Inr s1 \<and> punmap v s1 = Inr s2 \<and> inv s2 \<and> view s2 = view s"
proof -
  obtain s1 where s1: "pmap v p fl s = Inr s1" "inv s1"
    "view s1 = (\<lambda>u. if indexes u = indexes v then Some (pte_new p (fl OR PTE_V)) else view s u)"
    using map_ok [OF assms] by blast
  then have "view s1 v = Some (pte_new p (fl OR PTE_V))" by simp
  from unmap_ok [OF s1(2) this] obtain s2 where "punmap v s1 = Inr s2" "inv s2"
    "view s2 = (\<lambda>u. if indexes u = indexes v then None else view s1 u)" by blast
  moreover have "(\<lambda>u. if indexes u = indexes v then None else view s1 u) = view s"
    using s1(3) view_same [of _ v s] assms(2) by (simp add: fun_eq_iff)
  ultimately show ?thesis using s1(1) by metis
qed

lemma map_twice_panics:
  assumes "inv s" and "view s v = None" and "2 \<le> room s" and "pmap v p fl s = Inr s1"
  shows "\<exists>err. pmap v p' fl' s1 = Inl err"
  using map_ok [OF assms(1-3), of p fl] assms(4) map_mapped [of s1 v] by auto

text \<open>Mapping a list of pages in turn, each to the frame a function gives for it.\<close>

fun map_pages :: "(virt_page_num \<Rightarrow> phys_page_num) \<Rightarrow> pte_flags \<Rightarrow> virt_page_num list \<Rightarrow> 's \<Rightarrow> 's res" where
  "map_pages f fl [] s = Inr s"
| "map_pages f fl (v # vs) s = rbind (pmap v (f v) fl s) (map_pages f fl vs)"

lemma map_pages_ok:
  assumes "inv s" and "\<forall>v \<in> set vs. view s v = None" and "distinct (map indexes vs)" and "2 * length vs \<le> room s"
  shows "\<exists>s'. map_pages f fl vs s = Inr s' \<and> inv s' \<and> room s \<le> room s' + 2 * length vs
    \<and> (\<forall>u. (\<forall>v \<in> set vs. indexes u \<noteq> indexes v) \<longrightarrow> view s' u = view s u)
    \<and> (\<forall>v \<in> set vs. view s' v = Some (pte_new (f v) (fl OR PTE_V)))"
  using assms
proof (induction vs arbitrary: s)
  case Nil
  then show ?case by simp
next
  case (Cons v vs)
  then obtain s1 where s1: "pmap v (f v) fl s = Inr s1" "inv s1" "room s \<le> room s1 + 2"
    "view s1 = (\<lambda>u. if indexes u = indexes v then Some (pte_new (f v) (fl OR PTE_V)) else view s u)"
    using map_ok [of s v "f v" fl] by auto
  have v: "\<forall>u \<in> set vs. indexes u \<noteq> indexes v" "\<forall>u \<in> set vs. indexes v \<noteq> indexes u"
    using Cons.prems(3) by (auto simp: image_iff)
  then have "\<forall>u \<in> set vs. view s1 u = None" using Cons.prems(2) s1(4) by simp
  from Cons.IH [OF s1(2) this] Cons.prems(3,4) s1(3) obtain s' where
    "map_pages f fl vs s1 = Inr s'" "inv s'" "room s1 \<le> room s' + 2 * length vs"
    "\<forall>u. (\<forall>v \<in> set vs. indexes u \<noteq> indexes v) \<longrightarrow> view s' u = view s1 u"
    "\<forall>v \<in> set vs. view s' v = Some (pte_new (f v) (fl OR PTE_V))" by auto
  with s1 v show ?case by (intro exI [of _ s']) auto
qed

end

interpretation ptm: page_map pt_map pt_unmap pt_view "pt_inv l" "\<lambda>(pt, m). fa_free_count (frames m)" for l
proof (unfold_locales, goal_cases)
  case (1 s v p fl)
  then show ?case using pt_map_ok [of l "fst s" "snd s" v p fl]
    by (cases s) (fastforce simp: pt_changes_def)
next
  case (2 s v e p fl)
  then show ?case using pt_map_mapped [of "fst s" "snd s" v e] by auto
next
  case (3 s v e)
  then show ?case using pt_unmap_ok [of l "fst s" "snd s" v e]
    by (cases s) (fastforce simp: pt_changes_def)
next
  case (4 s v)
  then show ?case using pt_unmap_unmapped [of l "fst s" "snd s" v] by (cases s) auto
next
  case (5 u v s)
  then show ?case by (rule pt_view_same)
qed

section \<open>Properties\<close>

lemma page_table_new_ok:
  assumes "fa_inv l (frames m)" and "0 < fa_free_count (frames m)" and "mem_ok m"
    and "unat (fa_end (frames m)) \<le> 2 ^ 44"
  obtains pt m' where "page_table_new m = Inr (pt, m')" and "pt_inv l (pt, m')"
    and "pt_view (pt, m') = (\<lambda>_. None)" and "fa_free_count (frames m) = Suc (fa_free_count (frames m'))"
    and "pt_frames pt = [pt_root pt]" and "pt_root pt \<notin> fa_used l (frames m)"
    and "fa_used l (frames m') = insert (pt_root pt) (fa_used l (frames m))"
    and "\<forall>k. k \<noteq> pt_root pt \<longrightarrow> phys m' k = phys m k" and "fa_end (frames m') = fa_end (frames m)"
proof -
  from assms(1-3) obtain f m1 where al: "frame_alloc m = (Some f, m1)" "f \<notin> fa_used l (frames m)"
    "fa_used l (frames m1) = insert f (fa_used l (frames m))" "fa_inv l (frames m1)"
    "fa_end (frames m1) = fa_end (frames m)" "fa_free_count (frames m) = Suc (fa_free_count (frames m1))"
    "phys m1 = (phys m)(f := replicate 4096 0)" "mem_ok m1"
    by (rule frame_alloc_ok)
  let ?pt = "\<lparr>pt_root = f, pt_frames = [f]\<rparr>"
  have wk: "walk m1 f p = (if p = [] then Some f else None)" for p
    using pte_at_clear [of m1 f] al(7) by (cases p) auto
  have "pt_wf m1 f {f}" by (auto simp: pt_wf_def wk split: if_splits)
  then have "pt_inv l (?pt, m1)" using al assms(4) by (simp add: pt_inv_def)
  moreover have "pt_view (?pt, m1) = (\<lambda>_. None)" by (simp add: fun_eq_iff pt_view_def find_pte_walk wk del: walk.simps)
  ultimately show thesis using that [of ?pt m1] al by (simp add: page_table_new_def)
qed

text \<open>
  C7. A page table implements a partial map. In a well-formed table, with two frames left for
  new nodes, mapping an unmapped page succeeds and makes exactly that page (all page numbers
  with its three indexes) point to the frame with the given flags and the valid bit; unmapping
  a mapped page succeeds and removes exactly that page; mapping a mapped page and unmapping an
  unmapped one panic. Well-formedness is kept, only frames of the table are written, and new
  nodes take frames nobody else uses.
\<close>

theorem page_table_refines_map:
  assumes "pt_inv l (pt, m)" and "2 \<le> fa_free_count (frames m)"
  shows "case pt_view (pt, m) vpn of
      None \<Rightarrow> (\<exists>pt' m'. pt_map vpn ppn fl (pt, m) = Inr (pt', m')
          \<and> pt_changes l vpn (Some (pte_new ppn (fl OR PTE_V))) (pt, m) (pt', m'))
        \<and> pt_unmap vpn (pt, m) = Inl AssertFailed
    | Some e \<Rightarrow> pt_map vpn ppn fl (pt, m) = Inl AssertFailed
        \<and> (\<exists>m'. pt_unmap vpn (pt, m) = Inr (pt, m') \<and> pt_changes l vpn None (pt, m) (pt, m'))"
proof (cases "pt_view (pt, m) vpn")
  case None
  then show ?thesis
    using pt_map_ok [OF assms(1) None assms(2), of ppn fl] pt_unmap_unmapped [OF assms(1) None assms(2)]
    by auto
next
  case (Some e)
  then show ?thesis
    using pt_map_mapped [OF Some, of ppn fl] pt_unmap_ok [OF assms(1) Some] by auto
qed

definition zero_machine :: machine where
  "zero_machine = \<lparr>phys = (\<lambda>_. replicate 4096 0), frames = fa_booted 1 9\<rparr>"

lemma zero_machine_ok:
  "fa_inv 1 (frames zero_machine)" "fa_free_count (frames zero_machine) = 8" "mem_ok zero_machine"
  "unat (fa_end (frames zero_machine)) \<le> 2 ^ 44"
  by (simp_all add: zero_machine_def fa_booted_def fa_init_def fa_new_def fa_inv_def fa_free_count_def mem_ok_def)

lemma zero_machine_table:
  obtains pt m where "page_table_new zero_machine = Inr (pt, m)" and "pt_inv 1 (pt, m)"
    and "pt_view (pt, m) = (\<lambda>_. None)" and "2 \<le> fa_free_count (frames m)"
proof -
  have "0 < fa_free_count (frames zero_machine)" by (simp add: zero_machine_ok)
  then show thesis
    by (rule page_table_new_ok [OF zero_machine_ok(1) _ zero_machine_ok(3,4)])
      (rule that, assumption+, use zero_machine_ok(2) in linarith)
qed

theorem page_table_refines_map_witness:
  "\<exists>pt m pt' m'. page_table_new zero_machine = Inr (pt, m)
    \<and> pt_map (VirtPageNum 5) (PhysPageNum 7) PTE_R (pt, m) = Inr (pt', m')
    \<and> pt_view (pt', m') (VirtPageNum 5) = Some (pte_new (PhysPageNum 7) (PTE_R OR PTE_V))"
proof -
  obtain pt m where new: "page_table_new zero_machine = Inr (pt, m)" and inv: "pt_inv 1 (pt, m)"
    and view: "pt_view (pt, m) = (\<lambda>_. None)" and free: "2 \<le> fa_free_count (frames m)"
    by (rule zero_machine_table)
  from page_table_refines_map [OF inv free, of "VirtPageNum 5" "PhysPageNum 7" PTE_R] new view
  show ?thesis by (auto simp: pt_changes_def)
qed

lemma find_pte_token:
  assumes "unat (ppn_val (pt_root pt)) < 2 ^ 44"
  shows "find_pte vpn (page_table_from_token (pt_token pt)) m = find_pte vpn pt m"
proof -
  let ?w = "ppn_val (pt_root pt)"
  have "take_bit 44 (push_bit 60 8 OR ?w) = take_bit 44 ?w"
    by (rule bit_word_eqI) (auto simp: bit_simps)
  also have "\<dots> = ?w"
    using assms by (intro unsigned_word_eqI [where 'a = nat]) (simp add: unsigned_take_bit_eq take_bit_nat_eq_self)
  finally have "(push_bit 60 8 OR ?w) AND (push_bit 44 1 - 1) = ?w" by (simp only: and_mask44)
  then have "pt_root (page_table_from_token (pt_token pt)) = pt_root pt"
    by (simp only: page_table_from_token_def pt_token_def page_table.simps phys_page_num.collapse)
  then show ?thesis by (simp add: find_pte_def)
qed

lemma pt_root_bound:
  assumes "pt_inv l (pt, m)"
  shows "unat (ppn_val (pt_root pt)) < 2 ^ 44"
proof -
  have "pt_root pt \<in> set (pt_frames pt)"
    using assms pt_wf_node [OF _ leaf_path(3), of m "pt_root pt"] by (auto simp: pt_inv_def)
  then show ?thesis
    using assms fa_used_bound [of l "frames m" "pt_root pt"] by (fastforce simp: pt_inv_def)
qed

lemma pt_view_translate:
  assumes "pt_inv l (pt, m)" and "pt_view (pt, m) vpn = Some e"
  shows "pt_translate vpn pt m = Some e" and "pt_translate vpn (page_table_from_token (pt_token pt)) m = Some e"
  using find_pte_token [OF pt_root_bound [OF assms(1)], of vpn m] assms(2)
  by (auto simp: pt_translate_def pt_view_def split: option.splits if_splits)

text \<open>
  C8. Mapping gives the address translation. After a page is mapped to a frame with a number
  below \<open>2 ^ 44\<close>, every virtual address of the page translates to the address at the same
  offset of that frame, through the token that is loaded into \<^verbatim>\<open>satp\<close> as well, and the entry
  carries the flags it was mapped with and the valid bit.
\<close>

theorem mapped_page_translates:
  assumes "pt_inv l (pt, m)" and "2 \<le> fa_free_count (frames m)" and "pt_view (pt, m) vpn = None"
    and "unat (ppn_val ppn) < 2 ^ 44" and "pt_map vpn ppn fl (pt, m) = Inr (pt', m')"
    and "va_floor va = vpn"
  shows "pt_translate_va va pt' m' = Some (PhysAddr (pa_val (pa_of_ppn ppn) + va_page_offset va))
    \<and> pt_translate_va va (page_table_from_token (pt_token pt')) m' = pt_translate_va va pt' m'
    \<and> map_option pte_get_flags (pt_translate vpn pt' m') = Some (fl OR PTE_V)"
proof -
  from pt_map_ok [OF assms(1,3,2), of ppn fl] assms(5)
  have ch: "pt_changes l vpn (Some (pte_new ppn (fl OR PTE_V))) (pt, m) (pt', m')" by auto
  then have "pt_view (pt', m') vpn = Some (pte_new ppn (fl OR PTE_V))" and inv': "pt_inv l (pt', m')"
    by (auto simp: pt_changes_def)
  from pt_view_translate [OF inv' this(1)] find_pte_token [OF pt_root_bound [OF inv'], of vpn m']
  show ?thesis
    using assms(4,6) by (auto simp: pt_translate_va_def pt_translate_def pte_ppn_new pte_flags_new)
qed

theorem mapped_page_translates_witness:
  "\<exists>pt m pt' m'. page_table_new zero_machine = Inr (pt, m)
    \<and> pt_map (VirtPageNum 5) (PhysPageNum 7) PTE_R (pt, m) = Inr (pt', m')
    \<and> pt_translate_va (VirtAddr 0x5123) pt' m' = Some (PhysAddr 0x7123)"
proof -
  obtain pt m where new: "page_table_new zero_machine = Inr (pt, m)" and inv: "pt_inv 1 (pt, m)"
    and view: "pt_view (pt, m) = (\<lambda>_. None)" and free: "2 \<le> fa_free_count (frames m)"
    by (rule zero_machine_table)
  from view have un: "pt_view (pt, m) (VirtPageNum 5) = None" by simp
  from pt_map_ok [OF inv un free] obtain pt' m' where
    mp: "pt_map (VirtPageNum 5) (PhysPageNum 7) PTE_R (pt, m) = Inr (pt', m')" by blast
  have "va_floor (VirtAddr 0x5123) = VirtPageNum 5" by (simp add: va_floor_def PAGE_SIZE_def)
  from mapped_page_translates [OF inv free un _ mp this] new mp show ?thesis
    by (auto simp: pa_of_ppn_def va_page_offset_def PAGE_SIZE_def PAGE_SIZE_BITS_def)
qed

end
