(* ===== verification/Memory_Set.thy ===== *)
theory Memory_Set
  imports Page_Table_Spec
begin

text \<open>
  Address spaces (\<^verbatim>\<open>os/src/mm/memory_set.rs\<close>): areas of pages that are mapped in the same way,
  and the sets of areas with their page table. A frame belongs to the area whose \<^verbatim>\<open>data_frames\<close>
  holds its \<^verbatim>\<open>FrameTracker\<close>; dropping the tracker gives the frame back. The symbols of the linker
  script and the ELF parser \<^verbatim>\<open>xmas_elf\<close> are parameters.
\<close>

section \<open>Areas\<close>

datatype map_type = Identical | Framed

type_synonym map_permission = u8

definition PERM_R :: map_permission where "PERM_R = 2"
definition PERM_W :: map_permission where "PERM_W = 4"
definition PERM_X :: map_permission where "PERM_X = 8"
definition PERM_U :: map_permission where "PERM_U = 16"

text \<open>A \<^verbatim>\<open>BTreeMap\<close> is the list of its entries in the order of their keys.\<close>

type_synonym frame_map = "(virt_page_num \<times> phys_page_num) list"

fun btree_insert :: "virt_page_num \<Rightarrow> phys_page_num \<Rightarrow> frame_map \<Rightarrow> phys_page_num option \<times> frame_map" where
  "btree_insert k v [] = (None, [(k, v)])"
| "btree_insert k v ((k', v') # es) =
     (if k = k' then (Some v', (k, v) # es)
      else if k < k' then (None, (k, v) # (k', v') # es)
      else (let (old, es') = btree_insert k v es in (old, (k', v') # es')))"

definition btree_remove :: "virt_page_num \<Rightarrow> frame_map \<Rightarrow> phys_page_num option \<times> frame_map" where
  "btree_remove k es = (map_of es k, filter (\<lambda>e. fst e \<noteq> k) es)"

record map_area =
  vpn_range_of :: vpn_range
  data_frames :: frame_map
  map_type_of :: map_type
  map_perm :: map_permission

definition map_area_new :: "virt_addr \<Rightarrow> virt_addr \<Rightarrow> map_type \<Rightarrow> map_permission \<Rightarrow> map_area res" where
  "map_area_new start_va end_va ty perm =
     (let start_vpn = va_floor start_va; end_vpn = va_ceil end_va in
      rbind (vpn_range_new start_vpn end_vpn) (\<lambda>r.
      Inr \<lparr>vpn_range_of = r, data_frames = [], map_type_of = ty, map_perm = perm\<rparr>))"

definition map_area_from_another :: "map_area \<Rightarrow> map_area res" where
  "map_area_from_another another =
     rbind (vpn_range_new (range_l (vpn_range_of another)) (range_r (vpn_range_of another))) (\<lambda>r.
     Inr \<lparr>vpn_range_of = r, data_frames = [], map_type_of = map_type_of another, map_perm = map_perm another\<rparr>)"

text \<open>Dropping frames in order.\<close>

fun drop_frames :: "phys_page_num list \<Rightarrow> machine \<Rightarrow> machine res" where
  "drop_frames [] m = Inr m"
| "drop_frames (f # fs) m = rbind (frame_dealloc f m) (drop_frames fs)"

definition drop_option :: "phys_page_num option \<Rightarrow> machine \<Rightarrow> machine res" where
  "drop_option f m = (case f of None \<Rightarrow> Inr m | Some n \<Rightarrow> frame_dealloc n m)"

text \<open>
  An area being changed together with the page table and the machine. \<^verbatim>\<open>PTEFlags\<close> has all eight
  bits, so \<^verbatim>\<open>from_bits\<close> succeeds. The results of type \<^verbatim>\<open>isize\<close> are 0 and -1 only.
\<close>

type_synonym area_state = "map_area \<times> page_table \<times> machine"

definition map_one :: "virt_page_num \<Rightarrow> area_state \<Rightarrow> (int \<times> area_state) res" where
  "map_one vpn = (\<lambda>(area, pt, m).
     (case map_type_of area of
        Identical \<Rightarrow>
          rbind (pt_map vpn (PhysPageNum (vpn_val vpn)) (map_perm area) (pt, m)) (\<lambda>(pt', m').
          Inr (0, area, pt', m'))
      | Framed \<Rightarrow>
          (case frame_alloc m of
             (Some ppn, m1) \<Rightarrow>
               (let (old, fs) = btree_insert vpn ppn (data_frames area) in
                rbind (drop_option old m1) (\<lambda>m2.
                rbind (pt_map vpn ppn (map_perm area) (pt, m2)) (\<lambda>(pt', m').
                Inr (0, area\<lparr>data_frames := fs\<rparr>, pt', m'))))
           | (None, m1) \<Rightarrow> Inr (- 1, area, pt, m1))))"

definition unmap_one :: "virt_page_num \<Rightarrow> area_state \<Rightarrow> area_state res" where
  "unmap_one vpn = (\<lambda>(area, pt, m).
     (let (old, area') = (case map_type_of area of
            Framed \<Rightarrow> (let (old, fs) = btree_remove vpn (data_frames area) in (old, area\<lparr>data_frames := fs\<rparr>))
          | Identical \<Rightarrow> (None, area)) in
      rbind (drop_option old m) (\<lambda>m1.
      rbind (pt_unmap vpn (pt, m1)) (\<lambda>(pt', m').
      Inr (area', pt', m')))))"

fun map_loop :: "virt_page_num list \<Rightarrow> area_state \<Rightarrow> (int \<times> area_state) res" where
  "map_loop [] s = Inr (0, s)"
| "map_loop (vpn # vpns) s =
     rbind (map_one vpn s) (\<lambda>(r, s'). if r < 0 then Inr (- 1, s') else map_loop vpns s')"

definition area_map :: "area_state \<Rightarrow> (int \<times> area_state) res" where
  "area_map s = map_loop (vpn_range_items (vpn_range_of (fst s))) s"

fun unmap_loop :: "virt_page_num list \<Rightarrow> area_state \<Rightarrow> area_state res" where
  "unmap_loop [] s = Inr s"
| "unmap_loop (vpn # vpns) s = rbind (unmap_one vpn s) (unmap_loop vpns)"

definition area_unmap :: "area_state \<Rightarrow> area_state res" where
  "area_unmap s = unmap_loop (vpn_range_items (vpn_range_of (fst s))) s"

definition area_have_mapped :: "map_area \<Rightarrow> virt_page_num \<Rightarrow> bool" where
  "area_have_mapped area vpn \<longleftrightarrow> map_of (data_frames area) vpn \<noteq> None"

definition page_write :: "phys_page_num \<Rightarrow> u8 list \<Rightarrow> machine \<Rightarrow> machine" where
  "page_write ppn src m = m\<lparr>phys := (phys m)(ppn := overwrite 0 src (phys m ppn))\<rparr>"

function copy_loop :: "page_table \<Rightarrow> u8 list \<Rightarrow> nat \<Rightarrow> virt_page_num \<Rightarrow> machine \<Rightarrow> machine res" where
  "copy_loop pt data start current_vpn m =
     rbind (sliceE data start (min (length data) (start + 4096))) (\<lambda>src.
     rbind (unwrapE (pt_translate current_vpn pt m)) (\<lambda>pte.
     (let m' = page_write (pte_ppn pte) src m; start' = start + 4096 in
      if start' \<ge> length data then Inr m'
      else copy_loop pt data start' (vpn_step current_vpn) m')))"
  by pat_completeness auto
termination by (relation "measure (\<lambda>(pt, data, start, _). length data - start)") auto

declare copy_loop.simps [simp del]

definition copy_data :: "u8 list \<Rightarrow> area_state \<Rightarrow> area_state res" where
  "copy_data data = (\<lambda>(area, pt, m).
     rbind (assertE (map_type_of area = Framed)) (\<lambda>_.
     rbind (copy_loop pt data 0 (range_l (vpn_range_of area)) m) (\<lambda>m'.
     Inr (area, pt, m'))))"

section \<open>Address spaces\<close>

record memory_set =
  ms_page_table :: page_table
  ms_areas :: "map_area list"

type_synonym space_state = "memory_set \<times> machine"

definition new_bare :: "machine \<Rightarrow> space_state res" where
  "new_bare m = rbind (page_table_new m) (\<lambda>(pt, m'). Inr (\<lparr>ms_page_table = pt, ms_areas = []\<rparr>, m'))"

definition ms_token :: "memory_set \<Rightarrow> usize" where
  "ms_token ms = pt_token (ms_page_table ms)"

definition ms_have_mapped :: "memory_set \<Rightarrow> virt_page_num \<Rightarrow> bool" where
  "ms_have_mapped ms vpn \<longleftrightarrow> list_ex (\<lambda>area. area_have_mapped area vpn) (ms_areas ms)"

definition ms_frames_used :: "memory_set \<Rightarrow> usize" where
  "ms_frames_used ms =
     fold (\<lambda>area frames. frames + (vpn_val (range_r (vpn_range_of area)) - vpn_val (range_l (vpn_range_of area))))
       (ms_areas ms) 0"

definition ms_push :: "map_area \<Rightarrow> u8 list option \<Rightarrow> space_state \<Rightarrow> (int \<times> space_state) res" where
  "ms_push map_area data = (\<lambda>(ms, m).
     rbind (area_map (map_area, ms_page_table ms, m)) (\<lambda>(succ, s1).
     rbind (case data of None \<Rightarrow> Inr s1 | Some data \<Rightarrow> copy_data data s1) (\<lambda>(area, pt, m').
     (let ms' = \<lparr>ms_page_table = pt, ms_areas = ms_areas ms @ [area]\<rparr> in
      if succ < 0 then Inr (- 1, ms', m') else Inr (0, ms', m')))))"

definition insert_framed_area :: "virt_addr \<Rightarrow> virt_addr \<Rightarrow> map_permission \<Rightarrow> space_state \<Rightarrow> space_state res" where
  "insert_framed_area start_va end_va permission s =
     rbind (map_area_new start_va end_va Framed permission) (\<lambda>area.
     rbind (ms_push area None s) (\<lambda>(_, s'). Inr s'))"

text \<open>Dropping an area drops the frames it holds.\<close>

definition drop_area :: "map_area \<Rightarrow> machine \<Rightarrow> machine res" where
  "drop_area area m = drop_frames (map snd (data_frames area)) m"

fun drop_areas :: "map_area list \<Rightarrow> machine \<Rightarrow> machine res" where
  "drop_areas [] m = Inr m"
| "drop_areas (a # as) m = rbind (drop_area a m) (drop_areas as)"

definition remove_area_with_start_vpn :: "virt_page_num \<Rightarrow> space_state \<Rightarrow> space_state res" where
  "remove_area_with_start_vpn start_vpn = (\<lambda>(ms, m).
     (case find (\<lambda>i. range_l (vpn_range_of (ms_areas ms ! i)) = start_vpn) [0..<length (ms_areas ms)] of
        None \<Rightarrow> Inr (ms, m)
      | Some idx \<Rightarrow>
          rbind (area_unmap (ms_areas ms ! idx, ms_page_table ms, m)) (\<lambda>(area, pt, m').
          rbind (drop_area area m') (\<lambda>m''.
          Inr (\<lparr>ms_page_table = pt, ms_areas = take idx (ms_areas ms) @ drop (idx + 1) (ms_areas ms)\<rparr>, m'')))))"

text \<open>The inner loop of \<^verbatim>\<open>unmap\<close>: the areas in order, with the page table and the machine.\<close>

fun unmap_areas :: "virt_page_num \<Rightarrow> map_area list \<Rightarrow> page_table \<times> machine \<Rightarrow> (map_area list \<times> page_table \<times> machine) res" where
  "unmap_areas vpn [] s = Inr ([], s)"
| "unmap_areas vpn (a # as) (pt, m) =
     rbind (if area_have_mapped a vpn then unmap_one vpn (a, pt, m) else Inr (a, pt, m)) (\<lambda>(a', s').
     rbind (unmap_areas vpn as s') (\<lambda>(as', s''). Inr (a' # as', s'')))"

fun unmap_vpns :: "virt_page_num list \<Rightarrow> space_state \<Rightarrow> space_state res" where
  "unmap_vpns [] s = Inr s"
| "unmap_vpns (vpn # vpns) (ms, m) =
     rbind (unmap_areas vpn (ms_areas ms) (ms_page_table ms, m)) (\<lambda>(areas, pt, m').
     unmap_vpns vpns (\<lparr>ms_page_table = pt, ms_areas = areas\<rparr>, m'))"

definition ms_unmap :: "vpn_range \<Rightarrow> space_state \<Rightarrow> space_state res" where
  "ms_unmap r s = unmap_vpns (vpn_range_items r) s"

definition ms_translate :: "memory_set \<Rightarrow> machine \<Rightarrow> virt_page_num \<Rightarrow> page_table_entry option" where
  "ms_translate ms m vpn = pt_translate vpn (ms_page_table ms) m"

definition recycle_data_pages :: "space_state \<Rightarrow> space_state res" where
  "recycle_data_pages = (\<lambda>(ms, m). rbind (drop_areas (ms_areas ms) m) (\<lambda>m'. Inr (ms\<lparr>ms_areas := []\<rparr>, m')))"

text \<open>Dropping an address space: the fields in order, first the frames of the page table.\<close>

definition drop_memory_set :: "memory_set \<Rightarrow> machine \<Rightarrow> machine res" where
  "drop_memory_set ms m = rbind (drop_frames (pt_frames (ms_page_table ms)) m) (drop_areas (ms_areas ms))"

section \<open>Making address spaces\<close>

record linker_symbols =
  sym_stext :: usize
  sym_etext :: usize
  sym_srodata :: usize
  sym_erodata :: usize
  sym_sdata :: usize
  sym_edata :: usize
  sym_sbss :: usize
  sym_ebss :: usize
  sym_ekernel :: usize
  sym_strampoline :: usize

definition map_trampoline :: "linker_symbols \<Rightarrow> space_state \<Rightarrow> space_state res" where
  "map_trampoline syms = (\<lambda>(ms, m).
     rbind (vpn_of_va (VirtAddr TRAMPOLINE)) (\<lambda>vpn.
     rbind (ppn_of_pa (PhysAddr (sym_strampoline syms))) (\<lambda>ppn.
     rbind (pt_map vpn ppn (PTE_R OR PTE_X) (ms_page_table ms, m)) (\<lambda>(pt, m').
     Inr (ms\<lparr>ms_page_table := pt\<rparr>, m')))))"

text \<open>Pushing a list of areas given by their bounds and permissions, ignoring the results.\<close>

fun push_areas :: "(usize \<times> usize \<times> map_type \<times> map_permission) list \<Rightarrow> space_state \<Rightarrow> space_state res" where
  "push_areas [] s = Inr s"
| "push_areas ((l, r, ty, perm) # as) s =
     rbind (map_area_new (VirtAddr l) (VirtAddr r) ty perm) (\<lambda>area.
     rbind (ms_push area None s) (\<lambda>(_, s'). push_areas as s'))"

definition MMIO :: "(usize \<times> usize) list" where
  "MMIO = [(0x10000000, 0x10000)]"

definition new_kernel :: "linker_symbols \<Rightarrow> machine \<Rightarrow> space_state res" where
  "new_kernel syms m =
     rbind (new_bare m) (\<lambda>s.
     rbind (map_trampoline syms s) (\<lambda>s.
     push_areas
       ([(sym_stext syms, sym_etext syms, Identical, PERM_R OR PERM_X),
         (sym_srodata syms, sym_erodata syms, Identical, PERM_R),
         (sym_sdata syms, sym_edata syms, Identical, PERM_R OR PERM_W),
         (sym_sbss syms, sym_ebss syms, Identical, PERM_R OR PERM_W),
         (sym_ekernel syms, MEMORY_END, Identical, PERM_R OR PERM_W)]
        @ map (\<lambda>(a, n). (a, a + n, Identical, PERM_R OR PERM_W)) MMIO) s))"

text \<open>What the kernel uses of an ELF file. A program header has a type or the parser returns an error.\<close>

datatype ph_type = Load | OtherType

record program_header =
  ph_get_type :: "ph_type option"
  ph_virtual_addr :: u64
  ph_mem_size :: u64
  ph_offset :: u64
  ph_file_size :: u64
  ph_is_read :: bool
  ph_is_write :: bool
  ph_is_execute :: bool

record elf_file =
  elf_magic :: "u8 list"
  elf_program_headers :: "program_header option list"
  elf_entry_point :: u64

definition ph_permission :: "program_header \<Rightarrow> map_permission" where
  "ph_permission ph =
     (let perm = PERM_U;
          perm = (if ph_is_read ph then perm OR PERM_R else perm)
      in if ph_is_execute ph then perm OR PERM_X
         else if ph_is_write ph then perm OR PERM_W else perm)"

fun load_segments :: "u8 list \<Rightarrow> program_header option list \<Rightarrow> virt_page_num \<Rightarrow> space_state \<Rightarrow> (virt_page_num \<times> space_state) res" where
  "load_segments elf_data [] max_end_vpn s = Inr (max_end_vpn, s)"
| "load_segments elf_data (h # hs) max_end_vpn s =
     rbind (unwrapE h) (\<lambda>ph.
     rbind (unwrapE (ph_get_type ph)) (\<lambda>ty.
     if ty = Load then
       rbind (map_area_new (VirtAddr (ph_virtual_addr ph)) (VirtAddr (ph_virtual_addr ph + ph_mem_size ph))
         Framed (ph_permission ph)) (\<lambda>area.
       rbind (sliceE elf_data (unat (ph_offset ph)) (unat (ph_offset ph + ph_file_size ph))) (\<lambda>data.
       rbind (ms_push area (Some data) s) (\<lambda>(_, s').
       load_segments elf_data hs (range_r (vpn_range_of area)) s')))
     else load_segments elf_data hs max_end_vpn s))"

definition from_elf ::
  "linker_symbols \<Rightarrow> (u8 list \<Rightarrow> elf_file option) \<Rightarrow> u8 list \<Rightarrow> machine \<Rightarrow> ((memory_set \<times> usize \<times> usize) \<times> machine) res"
where
  "from_elf syms elf_new elf_data m =
     rbind (new_bare m) (\<lambda>s.
     rbind (map_trampoline syms s) (\<lambda>s.
     rbind (unwrapE (elf_new elf_data)) (\<lambda>elf.
     rbind (assertE (elf_magic elf = [0x7f, 0x45, 0x4c, 0x46])) (\<lambda>_.
     rbind (load_segments elf_data (elf_program_headers elf) (VirtPageNum 0) s) (\<lambda>(max_end_vpn, s).
     (let max_end_va = va_of_vpn max_end_vpn;
          user_stack_bottom = va_val max_end_va + PAGE_SIZE;
          user_stack_top = user_stack_bottom + USER_STACK_SIZE in
      rbind (push_areas [(user_stack_bottom, user_stack_top, Framed, PERM_R OR PERM_W OR PERM_U),
                         (TRAP_CONTEXT, TRAMPOLINE, Framed, PERM_R OR PERM_W)] s) (\<lambda>(ms, m').
      Inr ((ms, user_stack_top, elf_entry_point elf), m'))))))))"

text \<open>Copying the pages of an area from one address space to another.\<close>

fun copy_pages :: "memory_set \<Rightarrow> memory_set \<Rightarrow> virt_page_num list \<Rightarrow> machine \<Rightarrow> machine res" where
  "copy_pages src dst [] m = Inr m"
| "copy_pages src dst (vpn # vpns) m =
     rbind (unwrapE (ms_translate src m vpn)) (\<lambda>src_pte.
     rbind (unwrapE (ms_translate dst m vpn)) (\<lambda>dst_pte.
     copy_pages src dst vpns (page_write (pte_ppn dst_pte) (phys m (pte_ppn src_pte)) m)))"

fun copy_areas :: "memory_set \<Rightarrow> map_area list \<Rightarrow> space_state \<Rightarrow> (bool \<times> space_state) res" where
  "copy_areas user_space [] s = Inr (True, s)"
| "copy_areas user_space (area # areas) s =
     rbind (map_area_from_another area) (\<lambda>new_area.
     rbind (ms_push new_area None s) (\<lambda>(r, ms', m').
     if r < 0 then Inr (False, ms', m')
     else
       rbind (copy_pages user_space ms' (vpn_range_items (vpn_range_of area)) m') (\<lambda>m''.
       copy_areas user_space areas (ms', m''))))"

definition from_existed_user :: "linker_symbols \<Rightarrow> memory_set \<Rightarrow> machine \<Rightarrow> (memory_set option \<times> machine) res" where
  "from_existed_user syms user_space m =
     rbind (new_bare m) (\<lambda>s.
     rbind (map_trampoline syms s) (\<lambda>s.
     rbind (copy_areas user_space (ms_areas user_space) s) (\<lambda>(succ, ms, m').
     if succ then Inr (Some ms, m')
     else rbind (drop_memory_set ms m') (\<lambda>m''. Inr (None, m'')))))"

text \<open>The test of the kernel's own address space.\<close>

definition remap_test :: "linker_symbols \<Rightarrow> memory_set \<Rightarrow> machine \<Rightarrow> unit res" where
  "remap_test syms kernel_space m =
     (let mid_text = VirtAddr ((sym_stext syms + sym_etext syms) div 2);
          mid_rodata = VirtAddr ((sym_srodata syms + sym_erodata syms) div 2);
          mid_data = VirtAddr ((sym_sdata syms + sym_edata syms) div 2);
          entry = (\<lambda>va. unwrapE (pt_translate (va_floor va) (ms_page_table kernel_space) m)) in
      rbind (entry mid_text) (\<lambda>pte. rbind (assertE (pte_writable pte = False)) (\<lambda>_.
      rbind (entry mid_rodata) (\<lambda>pte. rbind (assertE (pte_writable pte = False)) (\<lambda>_.
      rbind (entry mid_data) (\<lambda>pte. assertE (pte_executable pte = False)))))))"

end
