(* ===== verification/Virtio.thy ===== *)
theory Virtio
  imports Memory_Set Cache_Refine
begin

text \<open>
  The virtio block device (\<^verbatim>\<open>os/src/drivers/block/virtio_blk.rs\<close>). The driver itself is a third-party
  crate and a parameter; the code here gives it memory for its queues, translates addresses for it
  and turns its errors into panics.
\<close>

section \<open>The block device\<close>

record 'd virtio_blk =
  vb_read :: "nat \<Rightarrow> 'd \<Rightarrow> u8 list option"
  vb_write :: "nat \<Rightarrow> u8 list \<Rightarrow> 'd \<Rightarrow> 'd option"

definition virtio_read_block :: "'d virtio_blk \<Rightarrow> nat \<Rightarrow> 'd \<Rightarrow> u8 list res" where
  "virtio_read_block vb block_id d = unwrapE (vb_read vb block_id d)"

definition virtio_write_block :: "'d virtio_blk \<Rightarrow> nat \<Rightarrow> u8 list \<Rightarrow> 'd \<Rightarrow> 'd res" where
  "virtio_write_block vb block_id buf d = unwrapE (vb_write vb block_id buf d)"

definition virtio_block :: "'d virtio_blk \<Rightarrow> 'd block_dev" where
  "virtio_block vb = \<lparr>bd_read = virtio_read_block vb, bd_write = virtio_write_block vb\<rparr>"

text \<open>A driver that reads and writes the blocks of a disk is a block device for the file system.\<close>

lemma virtio_block_device:
  assumes "\<And>b d. b < blocks d \<Longrightarrow> \<exists>bs. vb_read vb b d = Some bs \<and> length bs = 512"
    and "\<And>b d bs. b < blocks d \<Longrightarrow> length bs = 512 \<Longrightarrow>
      \<exists>d'. vb_write vb b bs d = Some d' \<and> blocks d' = blocks d \<and> vb_read vb b d' = Some bs
        \<and> (\<forall>c. c < blocks d \<longrightarrow> c \<noteq> b \<longrightarrow> vb_read vb c d' = vb_read vb c d)"
  shows "block_device (virtio_block vb) blocks"
proof
  show "\<exists>bs. bd_read (virtio_block vb) b d = Inr bs \<and> length bs = 512" if "b < blocks d" for b d
    using assms(1) [OF that] by (auto simp: virtio_block_def virtio_read_block_def)
  show "\<exists>d'. bd_write (virtio_block vb) b bs d = Inr d' \<and> blocks d' = blocks d \<and> bd_read (virtio_block vb) b d' = Inr bs
      \<and> (\<forall>c. c < blocks d \<longrightarrow> c \<noteq> b \<longrightarrow> bd_read (virtio_block vb) c d' = bd_read (virtio_block vb) c d)"
    if "b < blocks d" "length bs = 512" for b d bs
    using assms(2) [OF that] by (auto simp: virtio_block_def virtio_read_block_def virtio_write_block_def)
qed

section \<open>Memory of the queues\<close>

text \<open>\<^verbatim>\<open>QUEUE_FRAMES\<close> keeps the frames of the queues; it is never emptied.\<close>

fun dma_alloc_loop :: "nat list \<Rightarrow> phys_page_num \<Rightarrow> machine \<Rightarrow> phys_page_num list \<Rightarrow>
    (phys_page_num \<times> machine \<times> phys_page_num list) res" where
  "dma_alloc_loop [] ppn_base m queue_frames = Inr (ppn_base, m, queue_frames)"
| "dma_alloc_loop (i # is) ppn_base m queue_frames =
     (let (r, m') = frame_alloc m in
      rbind (unwrapE r) (\<lambda>frame.
      (let ppn_base' = (if i = 0 then frame else ppn_base) in
       rbind (assertE (ppn_val frame = ppn_val ppn_base' + word_of_nat i)) (\<lambda>_.
       dma_alloc_loop is ppn_base' m' (queue_frames @ [frame])))))"

definition virtio_dma_alloc :: "usize \<Rightarrow> machine \<Rightarrow> phys_page_num list \<Rightarrow> (phys_addr \<times> machine \<times> phys_page_num list) res" where
  "virtio_dma_alloc pages m queue_frames =
     rbind (dma_alloc_loop [0..<unat pages] (PhysPageNum 0) m queue_frames) (\<lambda>(ppn_base, m', qf).
     Inr (pa_of_ppn ppn_base, m', qf))"

fun dma_dealloc_loop :: "nat \<Rightarrow> phys_page_num \<Rightarrow> machine \<Rightarrow> machine res" where
  "dma_dealloc_loop 0 ppn m = Inr m"
| "dma_dealloc_loop (Suc k) ppn m = rbind (frame_dealloc ppn m) (\<lambda>m'. dma_dealloc_loop k (ppn_step ppn) m')"

definition virtio_dma_dealloc :: "phys_addr \<Rightarrow> usize \<Rightarrow> machine \<Rightarrow> (i32 \<times> machine) res" where
  "virtio_dma_dealloc pa pages m =
     rbind (ppn_of_pa pa) (\<lambda>ppn_base.
     rbind (dma_dealloc_loop (unat pages) ppn_base m) (\<lambda>m'.
     Inr (0, m')))"

section \<open>Addresses\<close>

definition virtio_phys_to_virt :: "phys_addr \<Rightarrow> virt_addr" where
  "virtio_phys_to_virt paddr = VirtAddr (pa_val paddr)"

definition virtio_virt_to_phys :: "memory_set \<Rightarrow> virt_addr \<Rightarrow> machine \<Rightarrow> phys_addr res" where
  "virtio_virt_to_phys kernel_space vaddr m =
     unwrapE (pt_translate_va vaddr (page_table_from_token (ms_token kernel_space)) m)"

section \<open>Queues in consecutive frames\<close>

lemma ppn_round_trip:
  assumes "unat (ppn_val n) < 2 ^ 52"
  shows "ppn_of_pa (pa_of_ppn n) = Inr n"
  using va_of_vpn_offset [of "VirtPageNum (ppn_val n)"] va_of_vpn_floor [of "VirtPageNum (ppn_val n)"] assms
  by (cases n) (simp add: ppn_of_pa_def pa_of_ppn_def pa_page_offset_def pa_floor_def va_page_offset_def va_of_vpn_def va_floor_def)

definition run_of :: "usize \<Rightarrow> nat \<Rightarrow> nat \<Rightarrow> phys_page_num list" where
  "run_of b i p = map (\<lambda>j. PhysPageNum (b + word_of_nat j)) [i..<p]"

lemma run_of_Cons: "i < p \<Longrightarrow> run_of b i p = PhysPageNum (b + word_of_nat i) # run_of b (Suc i) p"
  by (simp add: run_of_def upt_conv_Cons)

lemma frame_alloc_next:
  assumes "fa_recycled (frames m) = []" and "fa_current (frames m) = c" and "unat c < unat (fa_end (frames m))"
  shows "frame_alloc m = (Some (PhysPageNum c), frame_tracker_new (PhysPageNum c) (m\<lparr>frames := (frames m)\<lparr>fa_current := c + 1\<rparr>\<rparr>))"
  using assms by (auto simp: frame_alloc_def fa_alloc_def Let_def)

lemma dma_alloc_loop_ok:
  assumes "fa_recycled (frames m) = []" and "fa_current (frames m) = b + word_of_nat i"
    and "unat b + p \<le> unat (fa_end (frames m))" and "0 < i \<longrightarrow> base = PhysPageNum b" and "i \<le> p" and "0 < p" and "mem_ok m"
  shows "\<exists>m'. dma_alloc_loop [i..<p] base m q = Inr (if i < p then PhysPageNum b else base, m', q @ run_of b i p)
    \<and> frames m' = (frames m)\<lparr>fa_current := b + word_of_nat p\<rparr> \<and> mem_ok m'
    \<and> (\<forall>n. phys m' n = (if n \<in> set (run_of b i p) then replicate 4096 0 else phys m n))"
  using assms
proof (induction "p - i" arbitrary: i base m q)
  case 0
  then have "i = p" by simp
  then show ?case using 0 by (intro exI [of _ m]) (auto simp: run_of_def)
next
  case (Suc k)
  then have i: "i < p" by simp
  let ?c = "b + word_of_nat i"
  have bi: "unat ?c = unat b + i"
  proof -
    have "unat b + i < 2 ^ 64" using Suc.prems(3) i unat64_less [of "fa_end (frames m)"] by linarith
    moreover have "?c = word_of_nat (unat b + i)" by simp
    ultimately show ?thesis by (simp only: unat_of_nat64)
  qed
  let ?m = "frame_tracker_new (PhysPageNum ?c) (m\<lparr>frames := (frames m)\<lparr>fa_current := ?c + 1\<rparr>\<rparr>)"
  have al: "frame_alloc m = (Some (PhysPageNum ?c), ?m)"
    by (rule frame_alloc_next) (use Suc.prems bi i in auto)
  have ph: "phys ?m n = (if n = PhysPageNum ?c then replicate 4096 0 else phys m n)" for n
    using Suc.prems(7) by (simp add: frame_tracker_new_def mem_ok_def map_replicate_const)
  have ok: "mem_ok ?m" using Suc.prems(7) ph by (auto simp: mem_ok_def)
  have fr: "frames ?m = (frames m)\<lparr>fa_current := b + word_of_nat (Suc i)\<rparr>" by (simp add: frame_tracker_new_def ac_simps)
  have base: "(if i = 0 then PhysPageNum ?c else base) = PhysPageNum b" using Suc.prems(4) by auto
  have "k = p - Suc i" using Suc(2) by simp
  from Suc(1) [OF this, of ?m "PhysPageNum b" "q @ [PhysPageNum ?c]"] Suc.prems fr ok i obtain m' where
    IH: "dma_alloc_loop [Suc i..<p] (PhysPageNum b) ?m (q @ [PhysPageNum ?c])
      = Inr (PhysPageNum b, m', q @ PhysPageNum ?c # run_of b (Suc i) p)"
    "frames m' = (frames m)\<lparr>fa_current := b + word_of_nat p\<rparr>" "mem_ok m'"
    "\<forall>n. phys m' n = (if n \<in> set (run_of b (Suc i) p) then replicate 4096 0 else phys ?m n)"
    by auto
  have "dma_alloc_loop [i..<p] base m q = Inr (PhysPageNum b, m', q @ run_of b i p)"
    using i al base IH(1) by (simp add: upt_conv_Cons run_of_Cons Let_def)
  then show ?case using IH i ph by (intro exI [of _ m']) (auto simp: run_of_Cons)
qed

lemma dma_dealloc_loop_ok:
  assumes "fa_current (frames m) = b + word_of_nat p" and "unat b + p < 2 ^ 64" and "i \<le> p"
    and "fa_recycled (frames m) = map ppn_val (run_of b 0 i)"
  shows "\<exists>m'. dma_dealloc_loop (p - i) (PhysPageNum (b + word_of_nat i)) m = Inr m'
    \<and> frames m' = (frames m)\<lparr>fa_recycled := map ppn_val (run_of b 0 p)\<rparr> \<and> phys m' = phys m"
  using assms
proof (induction "p - i" arbitrary: i m)
  case 0
  then have "i = p" by simp
  then show ?case using 0 by (intro exI [of _ m]) simp
next
  case (Suc k)
  then have i: "i < p" by simp
  have u: "unat (b + word_of_nat j) = unat b + j" if "j \<le> p" for j
  proof -
    have "b + word_of_nat j = word_of_nat (unat b + j)" by simp
    then show ?thesis using Suc.prems(2) that by (simp only: unat_of_nat64)
  qed
  let ?m = "m\<lparr>frames := (frames m)\<lparr>fa_recycled := map ppn_val (run_of b 0 (Suc i))\<rparr>\<rparr>"
  have "b + word_of_nat i \<notin> set (map ppn_val (run_of b 0 i))"
  proof
    assume "b + word_of_nat i \<in> set (map ppn_val (run_of b 0 i))"
    then obtain j where "j < i" "b + word_of_nat i = b + word_of_nat j" by (auto simp: run_of_def)
    with u [of i] u [of j] i show False by simp
  qed
  moreover have "b + word_of_nat i < fa_current (frames m)"
    using u [of i] u [of p] i Suc.prems(1) by (simp add: word_less_nat_alt)
  ultimately have de: "frame_dealloc (PhysPageNum (b + word_of_nat i)) m = Inr ?m"
    using Suc.prems(4) by (auto simp: frame_dealloc_def fa_dealloc_def Let_def run_of_def find_None_iff)
  have k: "k = p - Suc i" using Suc(2) by simp
  from Suc(1) [OF k, of ?m] Suc.prems i obtain m' where
    IH: "dma_dealloc_loop (p - Suc i) (PhysPageNum (b + word_of_nat (Suc i))) ?m = Inr m'"
    "frames m' = (frames m)\<lparr>fa_recycled := map ppn_val (run_of b 0 p)\<rparr>" "phys m' = phys m" by auto
  have "p - i = Suc (p - Suc i)" using i by simp
  then show ?case using de IH by (intro exI [of _ m']) (simp add: ppn_step_def ac_simps)
qed

text \<open>
  C40. The queues of the virtio device are consecutive frames. As long as no frame has been
  released, as it is when the kernel starts, \<^verbatim>\<open>virtio_dma_alloc\<close> succeeds and returns the address of
  consecutive frames that are filled with zeros, no other memory changes, and releasing the
  same pages succeeds and makes them free again. When the two frames released last do not
  follow one another, an allocation of two pages panics.
\<close>

theorem virtio_dma_consecutive:
  assumes ok: "mem_ok m" and p: "0 < pages" and e: "unat (fa_end (frames m)) < 2 ^ 52"
  defines "b \<equiv> fa_current (frames m)"
  shows "(fa_recycled (frames m) = [] \<and> unat b + unat pages \<le> unat (fa_end (frames m)) \<longrightarrow>
      (\<exists>m' m''. virtio_dma_alloc pages m q = Inr (pa_of_ppn (PhysPageNum b), m', q @ run_of b 0 (unat pages))
        \<and> (\<forall>n. phys m' n = (if n \<in> set (run_of b 0 (unat pages)) then replicate 4096 0 else phys m n))
        \<and> fa_free_count (frames m') + unat pages = fa_free_count (frames m)
        \<and> virtio_dma_dealloc (pa_of_ppn (PhysPageNum b)) pages m' = Inr (0, m'')
        \<and> fa_free_count (frames m'') = fa_free_count (frames m)))
    \<and> (\<forall>r x y. fa_recycled (frames m) = r @ [y, x] \<and> y \<noteq> x + 1 \<and> 1 < pages \<longrightarrow>
        virtio_dma_alloc pages m q = Inl AssertFailed)"
proof (intro conjI allI impI)
  assume a: "fa_recycled (frames m) = [] \<and> unat b + unat pages \<le> unat (fa_end (frames m))"
  have p': "0 < unat pages" using p by (simp add: unat_gt_0)
  from dma_alloc_loop_ok [of m b 0 "unat pages" "PhysPageNum 0" q] a ok p' obtain m' where
    al: "dma_alloc_loop [0..<unat pages] (PhysPageNum 0) m q = Inr (PhysPageNum b, m', q @ run_of b 0 (unat pages))"
    and fr: "frames m' = (frames m)\<lparr>fa_current := b + pages\<rparr>"
    and ph: "\<forall>n. phys m' n = (if n \<in> set (run_of b 0 (unat pages)) then replicate 4096 0 else phys m n)"
    by (auto simp: b_def)
  have lt: "unat b + unat pages < 2 ^ 52" using a e by linarith
  then have ub: "unat (b + pages) = unat b + unat pages" by (subst unat_add_lem [THEN iffD1]) simp_all
  from dma_dealloc_loop_ok [of m' b "unat pages" 0] fr a lt obtain m'' where
    de: "dma_dealloc_loop (unat pages) (PhysPageNum b) m' = Inr m''"
    and fr2: "frames m'' = (frames m')\<lparr>fa_recycled := map ppn_val (run_of b 0 (unat pages))\<rparr>" by (auto simp: run_of_def)
  have "ppn_of_pa (pa_of_ppn (PhysPageNum b)) = Inr (PhysPageNum b)" using lt by (intro ppn_round_trip) simp
  with al ph de fr fr2 a ub show "\<exists>m' m''. virtio_dma_alloc pages m q = Inr (pa_of_ppn (PhysPageNum b), m', q @ run_of b 0 (unat pages))
        \<and> (\<forall>n. phys m' n = (if n \<in> set (run_of b 0 (unat pages)) then replicate 4096 0 else phys m n))
        \<and> fa_free_count (frames m') + unat pages = fa_free_count (frames m)
        \<and> virtio_dma_dealloc (pa_of_ppn (PhysPageNum b)) pages m' = Inr (0, m'')
        \<and> fa_free_count (frames m'') = fa_free_count (frames m)"
    by (intro exI [of _ m'] exI [of _ m''])
      (auto simp: virtio_dma_alloc_def virtio_dma_dealloc_def fa_free_count_def run_of_def b_def)
next
  fix r x y
  assume a: "fa_recycled (frames m) = r @ [y, x] \<and> y \<noteq> x + 1 \<and> 1 < pages"
  then obtain k where k: "unat pages = Suc (Suc k)" by (metis One_nat_def less_iff_Suc_add plus_nat.simps(2) unat_1 word_less_nat_alt)
  then have up: "[0..<unat pages] = 0 # 1 # [2..<unat pages]" by (simp add: upt_conv_Cons numeral_2_eq_2 del: upt_Suc)
  show "virtio_dma_alloc pages m q = Inl AssertFailed"
    using a unfolding virtio_dma_alloc_def up
    by (auto simp: frame_alloc_def fa_alloc_def Let_def frame_tracker_new_def butlast_append)
qed

text \<open>A machine whose frames 524800 to 527359 are free.\<close>

definition boot_machine :: machine where
  "boot_machine = \<lparr>phys = \<lambda>_. replicate 4096 0, frames = fa_booted 0x80200 0x80c00\<rparr>"

theorem virtio_dma_consecutive_witness:
  "\<exists>m'. virtio_dma_alloc 2 boot_machine [] = Inr (PhysAddr 0x80200000, m', [PhysPageNum 0x80200, PhysPageNum 0x80201])"
proof -
  have "run_of 0x80200 0 2 = [PhysPageNum 0x80200, PhysPageNum 0x80201]" by (simp add: run_of_def upt_conv_Cons)
  moreover have "fa_current (frames boot_machine) = 0x80200" "fa_end (frames boot_machine) = 0x80c00" "fa_recycled (frames boot_machine) = []"
    by (simp_all add: boot_machine_def fa_booted_def fa_init_def fa_new_def)
  moreover have "mem_ok boot_machine" by (simp add: boot_machine_def mem_ok_def)
  ultimately show ?thesis
    using virtio_dma_consecutive [of boot_machine 2 "[]"] by (auto simp: pa_of_ppn_def PAGE_SIZE_BITS_def)
qed

end
