(* ===== verification/Pid.thy ===== *)
theory Pid
  imports Address Id_Allocator
begin

text \<open>
  Process identifiers and the place of a process's kernel stack
  (\<^verbatim>\<open>os/src/task/pid.rs\<close>, \<^verbatim>\<open>os/src/config.rs\<close>). Mapping and unmapping the stack in the
  kernel's address space is in the theory of address spaces.
\<close>

section \<open>The allocator of process identifiers\<close>

record pid_allocator =
  pid_current :: usize
  pid_recycled :: "usize list"

definition pid_allocator_new :: pid_allocator where
  "pid_allocator_new = \<lparr>pid_current = 0, pid_recycled = []\<rparr>"

definition pid_alloc :: "pid_allocator \<Rightarrow> usize \<times> pid_allocator" where
  "pid_alloc s =
     (if pid_recycled s \<noteq> [] then
        (last (pid_recycled s), s\<lparr>pid_recycled := butlast (pid_recycled s)\<rparr>)
      else (let s' = s\<lparr>pid_current := pid_current s + 1\<rparr> in (pid_current s' - 1, s')))"

definition pid_dealloc :: "pid_allocator \<Rightarrow> usize \<Rightarrow> pid_allocator res" where
  "pid_dealloc s pid =
     rbind (assertE (pid < pid_current s)) (\<lambda>_.
     rbind (assertE (find (\<lambda>ppid. ppid = pid) (pid_recycled s) = None)) (\<lambda>_.
     Inr (s\<lparr>pid_recycled := pid_recycled s @ [pid]\<rparr>)))"

text \<open>The identifiers run out only when all \<open>2 ^ 64\<close> of them were given out.\<close>

definition pid_room :: "pid_allocator \<Rightarrow> bool" where
  "pid_room s \<longleftrightarrow> pid_recycled s \<noteq> [] \<or> pid_current s \<noteq> - 1"

definition pid_inv :: "pid_allocator \<Rightarrow> bool" where
  "pid_inv s \<longleftrightarrow> distinct (pid_recycled s) \<and> (\<forall>x \<in> set (pid_recycled s). x < pid_current s)"

definition pid_used :: "pid_allocator \<Rightarrow> usize set" where
  "pid_used s = {p. p < pid_current s \<and> p \<notin> set (pid_recycled s)}"

section \<open>Kernel stacks\<close>

text \<open>The bottom and the top of the kernel stack of a process.\<close>

definition kernel_stack_position :: "usize \<Rightarrow> usize \<times> usize" where
  "kernel_stack_position app_id =
     (let top = TRAMPOLINE - app_id * (KERNEL_STACK_SIZE + PAGE_SIZE);
          bottom = top - KERNEL_STACK_SIZE
      in (bottom, top))"

definition kernel_stack_get_top :: "usize \<Rightarrow> usize" where
  "kernel_stack_get_top pid = snd (kernel_stack_position pid)"

section \<open>The allocator keeps its contract\<close>

lemma pid_alloc_step:
  assumes "pid_inv s" and "pid_room s" and al: "pid_alloc s = (p, s')"
  shows "p \<notin> pid_used s \<and> pid_used s' = insert p (pid_used s) \<and> pid_inv s'"
proof (cases "pid_recycled s = []")
  case True
  with assms have p: "p = pid_current s" and s': "s' = s\<lparr>pid_current := pid_current s + 1\<rparr>"
    and "pid_current s < - 1"
    by (auto simp: pid_alloc_def pid_room_def word_order.not_eq_extremum)
  with assms(1) True show ?thesis
    by (auto simp: pid_inv_def pid_used_def word_less_Suc_iff)
next
  case False
  let ?r = "pid_recycled s"
  have split: "set ?r = insert (last ?r) (set (butlast ?r))"
    using False by (rule set_butlast_last)
  from al False have p: "p = last ?r" and s': "s' = s\<lparr>pid_recycled := butlast ?r\<rparr>"
    by (auto simp: pid_alloc_def)
  show ?thesis
    using assms(1) False split last_notin_butlast [of ?r]
    by (auto simp: pid_inv_def pid_used_def p s' distinct_butlast)
qed

lemma pid_dealloc_step:
  assumes "pid_inv s" and "p \<in> pid_used s"
  shows "\<exists>s'. pid_dealloc s p = Inr s' \<and> pid_inv s' \<and> pid_used s' = pid_used s - {p}"
  using assms by (auto simp: pid_dealloc_def pid_used_def pid_inv_def)

interpretation pids: id_allocator "\<lambda>s. Some (pid_alloc s)" pid_dealloc pid_inv pid_used pid_room UNIV
proof
  show "\<exists>e. pid_dealloc s p = Inl e" if "p \<notin> pid_used s" for s p
    using that by (cases "p < pid_current s") (auto simp: pid_dealloc_def pid_used_def)
qed (use pid_alloc_step pid_dealloc_step in auto)

lemma pid_new_inv: "pid_inv pid_allocator_new" "pid_used pid_allocator_new = {}"
  by (simp_all add: pid_inv_def pid_used_def pid_allocator_new_def)

section \<open>Where the stacks lie\<close>

lemma kernel_stack_unat:
  assumes "unat p < 2 ^ 50"
  shows "unat (snd (kernel_stack_position p)) = 2 ^ 64 - 0x1000 - unat p * 0x3000"
    and "unat (fst (kernel_stack_position p)) = 2 ^ 64 - 0x3000 - unat p * 0x3000"
proof -
  have m: "unat (p * 0x3000) = unat p * 0x3000"
    using assms by (simp add: unat_word_ariths)
  have t: "unat (TRAMPOLINE - p * 0x3000) = 2 ^ 64 - 0x1000 - unat p * 0x3000"
    using assms m by (subst unat_sub) (simp_all add: TRAMPOLINE_def PAGE_SIZE_def word_le_nat_alt)
  show "unat (snd (kernel_stack_position p)) = 2 ^ 64 - 0x1000 - unat p * 0x3000"
    using t by (simp add: kernel_stack_position_def Let_def KERNEL_STACK_SIZE_def PAGE_SIZE_def)
  show "unat (fst (kernel_stack_position p)) = 2 ^ 64 - 0x3000 - unat p * 0x3000"
    using t assms unat_sub [of "0x2000" "TRAMPOLINE - p * 0x3000"]
    by (simp add: kernel_stack_position_def Let_def KERNEL_STACK_SIZE_def PAGE_SIZE_def word_le_nat_alt)
qed

lemma kernel_stack_gap:
  assumes "unat p < unat q" and "unat q < 2 ^ 50"
  shows "unat (snd (kernel_stack_position q)) + 0x1000 \<le> unat (fst (kernel_stack_position p))"
  using assms by (simp add: kernel_stack_unat)

text \<open>
  C6. Live processes have different identifiers and kernel stacks that do not meet. After any
  sequence of \<^verbatim>\<open>pid_alloc\<close> and drops of handles, two processes that are alive have
  different identifiers below the allocator's \<^verbatim>\<open>current\<close>, dropping either handle succeeds, and,
  as long as identifiers stay below \<open>2 ^ 50\<close>, the stack of the one with the larger identifier
  ends at least one whole page (the guard page) below the bottom of the other.
\<close>

theorem pid_stacks_disjoint:
  assumes "alloc_history (\<lambda>s. Some (pid_alloc s)) pid_dealloc pid_room pid_allocator_new s live"
    and "i < length live" and "j < length live" and "i \<noteq> j"
    and "unat (live ! i) \<le> unat (live ! j)" and "unat (live ! j) < 2 ^ 50"
  shows "live ! i \<noteq> live ! j \<and> live ! j < pid_current s
    \<and> (\<exists>s'. pid_dealloc s (live ! i) = Inr s')
    \<and> unat (snd (kernel_stack_position (live ! j))) + unat PAGE_SIZE
        \<le> unat (fst (kernel_stack_position (live ! i)))"
proof -
  have "distinct live" and used: "set live = pid_used s"
    using pids.history_live [OF assms(1) pid_new_inv] by auto
  then have ne: "live ! i \<noteq> live ! j" using assms(2-4) by (simp add: nth_eq_iff_index_eq)
  then have "unat (live ! i) < unat (live ! j)" using assms(5) by (simp add: order_less_le word_unat_eq_iff)
  then have "unat (snd (kernel_stack_position (live ! j))) + 0x1000
      \<le> unat (fst (kernel_stack_position (live ! i)))"
    by (rule kernel_stack_gap [OF _ assms(6)])
  moreover have "live ! j < pid_current s"
    using used nth_mem [OF assms(3)] by (auto simp: pid_used_def)
  moreover have "\<exists>s'. pid_dealloc s (live ! i) = Inr s'"
    using pids.history_dealloc_ok [OF assms(1) pid_new_inv] assms(2) by simp
  ultimately show ?thesis using ne by (simp add: PAGE_SIZE_def)
qed

lemma pid_example_history:
  "alloc_history (\<lambda>s. Some (pid_alloc s)) pid_dealloc pid_room pid_allocator_new
     \<lparr>pid_current = 2, pid_recycled = []\<rparr> [1, 0]"
proof -
  let ?h = "alloc_history (\<lambda>s. Some (pid_alloc s)) pid_dealloc pid_room pid_allocator_new"
  have "?h \<lparr>pid_current = 1, pid_recycled = []\<rparr> [0]"
    by (rule hist_alloc [OF hist_start]) (simp_all add: pid_room_def pid_alloc_def pid_allocator_new_def)
  then show ?thesis
    by (rule hist_alloc) (simp_all add: pid_room_def pid_alloc_def)
qed

theorem pid_stacks_disjoint_witness:
  "snd (kernel_stack_position 1) < fst (kernel_stack_position 0)
    \<and> unat (snd (kernel_stack_position 1)) + 4096 \<le> unat (fst (kernel_stack_position 0))"
  using pid_stacks_disjoint [OF pid_example_history, of 1 0]
  by (simp add: word_less_nat_alt PAGE_SIZE_def)

end
