(* ===== verification/Trap_Context.thy ===== *)
theory Trap_Context
  imports Memory_Set Pid
begin

text \<open>
  The saved contexts of a process (\<^verbatim>\<open>os/src/trap/context.rs\<close>, \<^verbatim>\<open>os/src/task/context.rs\<close>): the
  registers saved when a trap is taken, which lie at the start of a page of the process, and the
  registers saved when the kernel switches to another process, which lie on its kernel stack. Also
  the part of \<^verbatim>\<open>os/src/task/pid.rs\<close> that maps kernel stacks and writes to them.
\<close>

section \<open>Trap contexts\<close>

record trap_context =
  tc_x :: "usize list"
  tc_sstatus :: usize
  tc_sepc :: usize
  tc_kernel_satp :: usize
  tc_kernel_sp :: usize
  tc_trap_handler :: usize

definition set_sp :: "usize \<Rightarrow> trap_context \<Rightarrow> trap_context" where
  "set_sp sp cx = cx\<lparr>tc_x := (tc_x cx)[2 := sp]\<rparr>"

text \<open>\<open>sstatus\<close> is the value of the register after \<^verbatim>\<open>set_spp(SPP::User)\<close>.\<close>

definition app_init_context :: "usize \<Rightarrow> usize \<Rightarrow> usize \<Rightarrow> usize \<Rightarrow> usize \<Rightarrow> usize \<Rightarrow> trap_context" where
  "app_init_context sstatus entry sp kernel_satp kernel_sp trap_handler =
     set_sp sp \<lparr>tc_x = replicate 32 0, tc_sstatus = sstatus, tc_sepc = entry, tc_kernel_satp = kernel_satp,
       tc_kernel_sp = kernel_sp, tc_trap_handler = trap_handler\<rparr>"

text \<open>The layout in memory (\<^verbatim>\<open>repr(C)\<close>): 37 words of eight bytes.\<close>

definition tc_enc :: "trap_context \<Rightarrow> u8 list" where
  "tc_enc cx = enc_words 8 (tc_x cx @ [tc_sstatus cx, tc_sepc cx, tc_kernel_satp cx, tc_kernel_sp cx, tc_trap_handler cx])"

definition tc_dec :: "u8 list \<Rightarrow> trap_context" where
  "tc_dec bs =
     (let ws = dec_words 8 37 bs in
      \<lparr>tc_x = take 32 ws, tc_sstatus = ws ! 32, tc_sepc = ws ! 33, tc_kernel_satp = ws ! 34,
       tc_kernel_sp = ws ! 35, tc_trap_handler = ws ! 36\<rparr>)"

definition trap_cx_at :: "machine \<Rightarrow> phys_page_num \<Rightarrow> trap_context" where
  "trap_cx_at m ppn = tc_dec (phys m ppn)"

definition set_trap_cx :: "phys_page_num \<Rightarrow> trap_context \<Rightarrow> machine \<Rightarrow> machine" where
  "set_trap_cx ppn cx m = page_write ppn (tc_enc cx) m"

definition modify_trap_cx :: "phys_page_num \<Rightarrow> (trap_context \<Rightarrow> trap_context) \<Rightarrow> machine \<Rightarrow> machine" where
  "modify_trap_cx ppn f m = set_trap_cx ppn (f (trap_cx_at m ppn)) m"

section \<open>Task contexts\<close>

record task_context =
  cx_ra :: usize
  cx_s :: "usize list"

definition goto_trap_return :: "usize \<Rightarrow> task_context" where
  "goto_trap_return trap_return = \<lparr>cx_ra = trap_return, cx_s = replicate 12 0\<rparr>"

definition task_cx_enc :: "task_context \<Rightarrow> u8 list" where
  "task_cx_enc cx = enc_words 8 (cx_ra cx # cx_s cx)"

section \<open>Kernel stacks\<close>

text \<open>
  The kernel writes to its own address space through the page table, as the processor does. A
  page that is not there or not writable makes the processor trap, and the kernel panics.
\<close>

definition kernel_ptr :: "memory_set \<Rightarrow> machine \<Rightarrow> usize \<Rightarrow> uptr option" where
  "kernel_ptr ks m va =
     (case ms_translate ks m (va_floor (VirtAddr va)) of
        Some pte \<Rightarrow>
          if pte_is_valid pte \<and> pte_writable pte then Some (pte_ppn pte, unat (va_page_offset (VirtAddr va))) else None
      | None \<Rightarrow> None)"

fun kernel_store :: "memory_set \<Rightarrow> usize \<Rightarrow> u8 list \<Rightarrow> machine \<Rightarrow> machine res" where
  "kernel_store ks va [] m = Inr m"
| "kernel_store ks va (b # bs) m =
     (case kernel_ptr ks m va of
        None \<Rightarrow> Inl Panicked
      | Some p \<Rightarrow> kernel_store ks (va + 1) bs (ptr_write p b m))"

definition kernel_stack_new :: "usize \<Rightarrow> memory_set \<times> machine \<Rightarrow> (memory_set \<times> machine) res" where
  "kernel_stack_new pid s =
     (let (kernel_stack_bottom, kernel_stack_top) = kernel_stack_position pid in
      insert_framed_area (VirtAddr kernel_stack_bottom) (VirtAddr kernel_stack_top) (PERM_R OR PERM_W) s)"

definition push_on_top :: "usize \<Rightarrow> u8 list \<Rightarrow> memory_set \<times> machine \<Rightarrow> (usize \<times> machine) res" where
  "push_on_top pid value = (\<lambda>(ks, m).
     (let kernel_stack_top = kernel_stack_get_top pid;
          ptr_mut = kernel_stack_top - word_of_nat (length value) in
      rbind (kernel_store ks ptr_mut value m) (\<lambda>m'. Inr (ptr_mut, m'))))"

definition kernel_stack_drop :: "usize \<Rightarrow> memory_set \<times> machine \<Rightarrow> (memory_set \<times> machine) res" where
  "kernel_stack_drop pid s =
     (let (kernel_stack_bottom, _) = kernel_stack_position pid in
      rbind (vpn_of_va (VirtAddr kernel_stack_bottom)) (\<lambda>vpn. remove_area_with_start_vpn vpn s))"

section \<open>Contexts survive being stored\<close>

lemma length_tc_enc: "length (tc_x cx) = 32 \<Longrightarrow> length (tc_enc cx) = 296"
  by (simp add: tc_enc_def)

lemma dec_words_append:
  assumes "k * n \<le> length xs"
  shows "dec_words k n (xs @ ys) = dec_words k n xs"
proof -
  have "take k (drop (k * i) (xs @ ys)) = take k (drop (k * i) xs)" if "i < n" for i
  proof -
    have "k * Suc i \<le> k * n" using that by (intro mult_le_mono2) simp
    then have "k * i + k \<le> length xs" using assms by simp
    then show ?thesis by simp
  qed
  then show ?thesis unfolding dec_words_def by (intro map_cong refl arg_cong [where f = le_dec]) simp
qed

lemma tc_dec_enc:
  assumes "length (tc_x cx) = 32"
  shows "tc_dec (tc_enc cx @ bs) = cx"
proof -
  let ?ws = "tc_x cx @ [tc_sstatus cx, tc_sepc cx, tc_kernel_satp cx, tc_kernel_sp cx, tc_trap_handler cx]"
  have "dec_words 8 37 (tc_enc cx @ bs) = (dec_words 8 37 (tc_enc cx) :: usize list)"
    by (rule dec_words_append) (simp add: length_tc_enc assms)
  also have "\<dots> = ?ws" using dec_enc_words [of 8 ?ws] assms by (simp add: tc_enc_def)
  finally have "dec_words 8 37 (tc_enc cx @ bs) = ?ws" .
  then show ?thesis using assms by (simp add: tc_dec_def nth_append)
qed

lemma trap_cx_at_set:
  assumes "mem_ok m" and "length (tc_x cx) = 32"
  shows "trap_cx_at (set_trap_cx ppn cx m) ppn = cx"
  using tc_dec_enc [OF assms(2)] by (simp add: trap_cx_at_def set_trap_cx_def page_write_def overwrite_def)

lemma trap_cx_at_set_other: "p \<noteq> ppn \<Longrightarrow> trap_cx_at (set_trap_cx ppn cx m) p = trap_cx_at m p"
  by (simp add: trap_cx_at_def set_trap_cx_def page_write_def)

lemma mem_ok_set_trap_cx:
  assumes "mem_ok m" and "length (tc_x cx) = 32"
  shows "mem_ok (set_trap_cx ppn cx m)"
  using assms by (simp add: mem_ok_def set_trap_cx_def page_write_def overwrite_def length_tc_enc)

lemma length_trap_cx_x [simp]: "length (tc_x (trap_cx_at m ppn)) = 32"
  by (simp add: trap_cx_at_def tc_dec_def Let_def)

lemma modify_trap_cx_ok:
  assumes "mem_ok m" and "\<And>cx. length (tc_x cx) = 32 \<Longrightarrow> length (tc_x (f cx)) = 32"
  shows "trap_cx_at (modify_trap_cx ppn f m) ppn = f (trap_cx_at m ppn)"
    and "mem_ok (modify_trap_cx ppn f m)"
    and "p \<noteq> ppn \<Longrightarrow> phys (modify_trap_cx ppn f m) p = phys m p"
    and "frames (modify_trap_cx ppn f m) = frames m"
  using assms trap_cx_at_set mem_ok_set_trap_cx
  by (simp_all add: modify_trap_cx_def) (simp_all add: set_trap_cx_def page_write_def)

end
