(* ===== verification/Os_Inode.thy ===== *)
theory Os_Inode
  imports File_Ops User_Buffer
begin

text \<open>
  The kernel's view of the file system (\<^verbatim>\<open>os/src/fs/inode.rs\<close>): open files with their offsets,
  the table of hard links, and opening files by name. Shared objects (\<^verbatim>\<open>Arc<Inode>\<close> and
  \<^verbatim>\<open>Arc<OSInode>\<close>) are positions in lists; dropping one has no effect, so the lists only grow.
  The block device is a parameter.
\<close>

section \<open>Runs that may not end\<close>

text \<open>The result of an operation with a loop that may run forever; \<open>None\<close> is not returning.\<close>

type_synonym 'a run = "'a res option"

definition kbind :: "'a run \<Rightarrow> ('a \<Rightarrow> 'b run) \<Rightarrow> 'b run" where
  "kbind r f = (case r of None \<Rightarrow> None | Some (Inl e) \<Rightarrow> Some (Inl e) | Some (Inr x) \<Rightarrow> f x)"

abbreviation kret :: "'a \<Rightarrow> 'a run" where "kret x \<equiv> Some (Inr x)"

lemma kbind_simps [simp]:
  "kbind None f = None" "kbind (Some (Inl e)) f = Some (Inl e)" "kbind (kret x) f = f x"
  by (simp_all add: kbind_def)

lemma kbind_cong [fundef_cong]: "r = r' \<Longrightarrow> (\<And>x. r' = kret x \<Longrightarrow> f x = f' x) \<Longrightarrow> kbind r f = kbind r' f'"
  by (auto simp: kbind_def split: option.split sum.split)

lemma kbind_eq_ret: "kbind r f = kret y \<longleftrightarrow> (\<exists>x. r = kret x \<and> f x = kret y)"
  by (auto simp: kbind_def split: option.split sum.split)

lemma kbind_mono [partial_function_mono]:
  assumes "mono_option (\<lambda>g. r g)" and "\<And>x. mono_option (\<lambda>g. f x g)"
  shows "mono_option (\<lambda>g. kbind (r g) (\<lambda>x. f x g))"
proof (rule monotoneI)
  fix g h :: "'a \<Rightarrow> 'b option"
  assume le: "option.le_fun g h"
  then have r: "option_ord (r g) (r h)" and f: "option_ord (f x g) (f x h)" for x
    using assms by (auto dest: monotoneD)
  show "option_ord (kbind (r g) (\<lambda>x. f x g)) (kbind (r h) (\<lambda>x. f x h))"
  proof (cases "r g")
    case (Some a)
    then have "r h = Some a" using r by (simp add: flat_ord_def)
    then show ?thesis using Some f by (cases a) (simp_all add: flat_ord_def)
  qed (simp add: flat_ord_def)
qed

section \<open>Open files\<close>

record os_inode =
  oi_readable :: bool
  oi_writable :: bool
  oi_offset :: nat
  oi_inode :: nat

text \<open>The globals: the file system and its root directory, the shared objects and the two tables of names.\<close>

record 'd os_fs =
  fs_store :: "'d store"
  fs_efs :: easy_fs
  fs_root :: inode
  fs_inodes :: "inode list"
  fs_files :: "os_inode list"
  hard_link_map :: "u8 list \<rightharpoonup> nat"
  recycled_map :: "u8 list \<rightharpoonup> nat"

definition fs_do :: "('v, 'd) act \<Rightarrow> 'd os_fs \<Rightarrow> ('v \<times> 'd os_fs) res" where
  "fs_do a fs = rbind (a (fs_store fs)) (\<lambda>(v, st). Inr (v, fs\<lparr>fs_store := st\<rparr>))"

definition inode_of :: "'d os_fs \<Rightarrow> nat \<Rightarrow> inode" where
  "inode_of fs f = fs_inodes fs ! oi_inode (fs_files fs ! f)"

definition new_inode :: "inode \<Rightarrow> 'd os_fs \<Rightarrow> nat \<times> 'd os_fs" where
  "new_inode i fs = (length (fs_inodes fs), fs\<lparr>fs_inodes := fs_inodes fs @ [i]\<rparr>)"

definition os_inode_new :: "bool \<Rightarrow> bool \<Rightarrow> nat \<Rightarrow> 'd os_fs \<Rightarrow> nat \<times> 'd os_fs" where
  "os_inode_new readable writable i fs =
     (length (fs_files fs),
      fs\<lparr>fs_files := fs_files fs @ [\<lparr>oi_readable = readable, oi_writable = writable, oi_offset = 0, oi_inode = i\<rparr>]\<rparr>)"

definition advance :: "nat \<Rightarrow> nat \<Rightarrow> 'd os_fs \<Rightarrow> 'd os_fs" where
  "advance f k fs = fs\<lparr>fs_files := (fs_files fs)[f := (fs_files fs ! f)\<lparr>oi_offset := oi_offset (fs_files fs ! f) + k\<rparr>]\<rparr>"

text \<open>\<^verbatim>\<open>read_all\<close>: reading until nothing is left.\<close>

partial_function (option) read_all_loop ::
  "'d block_dev \<Rightarrow> nat \<Rightarrow> u8 list \<Rightarrow> u8 list \<Rightarrow> 'd os_fs \<Rightarrow> (u8 list \<times> 'd os_fs) run"
where
  "read_all_loop D f buffer v fs =
     kbind (Some (fs_do (inode_read_at D (oi_offset (fs_files fs ! f)) buffer (inode_of fs f)) fs)) (\<lambda>((len, buffer'), fs').
     if len = 0 then kret (v, fs')
     else read_all_loop D f buffer' (v @ take len buffer') (advance f len fs'))"

definition read_all :: "'d block_dev \<Rightarrow> nat \<Rightarrow> 'd os_fs \<Rightarrow> (u8 list \<times> 'd os_fs) run" where
  "read_all D f fs = read_all_loop D f (replicate 512 0) [] fs"

text \<open>The methods of \<^verbatim>\<open>File\<close>. A slice of user memory is passed as its bytes and written back.\<close>

definition os_readable :: "'d os_fs \<Rightarrow> nat \<Rightarrow> bool" where "os_readable fs f = oi_readable (fs_files fs ! f)"
definition os_writable :: "'d os_fs \<Rightarrow> nat \<Rightarrow> bool" where "os_writable fs f = oi_writable (fs_files fs ! f)"
definition os_nlink :: "'d os_fs \<Rightarrow> nat \<Rightarrow> nat" where "os_nlink fs f = get_nlink (inode_of fs f)"
definition os_inode_id :: "'d os_fs \<Rightarrow> nat \<Rightarrow> nat" where "os_inode_id fs f = get_inode_id (inode_of fs f)"

fun os_read_loop :: "'d block_dev \<Rightarrow> nat \<Rightarrow> user_buffer \<Rightarrow> nat \<Rightarrow> 'd os_fs \<times> machine \<Rightarrow> (nat \<times> 'd os_fs \<times> machine) res" where
  "os_read_loop D f [] total_read_size s = Inr (total_read_size, s)"
| "os_read_loop D f (sl # sls) total_read_size (fs, m) =
     rbind (fs_do (inode_read_at D (oi_offset (fs_files fs ! f)) (ptrs_read m (us_ptrs sl)) (inode_of fs f)) fs)
       (\<lambda>((read_size, bytes), fs').
     (let m' = ptrs_write (us_ptrs sl) bytes m in
      if read_size = 0 then Inr (total_read_size, fs', m')
      else os_read_loop D f sls (total_read_size + read_size) (advance f read_size fs', m')))"

definition os_read :: "'d block_dev \<Rightarrow> nat \<Rightarrow> user_buffer \<Rightarrow> 'd os_fs \<times> machine \<Rightarrow> (nat \<times> 'd os_fs \<times> machine) res" where
  "os_read D f buf s = os_read_loop D f buf 0 s"

fun os_write_loop :: "'d block_dev \<Rightarrow> nat \<Rightarrow> machine \<Rightarrow> user_buffer \<Rightarrow> nat \<Rightarrow> 'd os_fs \<Rightarrow> (nat \<times> 'd os_fs) res" where
  "os_write_loop D f m [] total_write_size fs = Inr (total_write_size, fs)"
| "os_write_loop D f m (sl # sls) total_write_size fs =
     rbind (fs_do (inode_write_at D (fs_efs fs) (oi_offset (fs_files fs ! f)) (ptrs_read m (us_ptrs sl)) (inode_of fs f)) fs)
       (\<lambda>(write_size, fs').
     rbind (assertE (write_size = us_len sl)) (\<lambda>_.
     os_write_loop D f m sls (total_write_size + write_size) (advance f write_size fs')))"

definition os_write :: "'d block_dev \<Rightarrow> nat \<Rightarrow> machine \<Rightarrow> user_buffer \<Rightarrow> 'd os_fs \<Rightarrow> (nat \<times> 'd os_fs) res" where
  "os_write D f m buf fs = os_write_loop D f m buf 0 fs"

section \<open>Names\<close>

definition update_inode :: "nat \<Rightarrow> (inode \<Rightarrow> inode) \<Rightarrow> 'd os_fs \<Rightarrow> 'd os_fs" where
  "update_inode f g fs =
     (let i = oi_inode (fs_files fs ! f) in fs\<lparr>fs_inodes := (fs_inodes fs)[i := g (fs_inodes fs ! i)]\<rparr>)"

definition link :: "u8 list \<Rightarrow> u8 list \<Rightarrow> 'd os_fs \<Rightarrow> int \<times> 'd os_fs" where
  "link old_path new_path fs =
     (if old_path = new_path then (- 1, fs)
      else case hard_link_map fs old_path of
        Some old_inode \<Rightarrow>
          (let fs1 = update_inode old_inode create_nlink fs in
           (0, fs1\<lparr>hard_link_map := (hard_link_map fs1)(new_path \<mapsto> old_inode)\<rparr>))
      | None \<Rightarrow> (- 1, fs))"

definition unlink :: "u8 list \<Rightarrow> 'd os_fs \<Rightarrow> int \<times> 'd os_fs" where
  "unlink path fs =
     (case hard_link_map fs path of
        Some old_inode \<Rightarrow>
          (let fs1 = update_inode old_inode destory_nlink fs in
           (0, fs1\<lparr>recycled_map := (recycled_map fs1)(path \<mapsto> old_inode),
                   hard_link_map := (hard_link_map fs1)(path := None)\<rparr>))
      | None \<Rightarrow> (- 1, fs))"

definition map_name :: "u8 list \<Rightarrow> nat \<Rightarrow> 'd os_fs \<Rightarrow> 'd os_fs" where
  "map_name path f fs = fs\<lparr>hard_link_map := (hard_link_map fs)(path \<mapsto> f)\<rparr>"

fun list_apps_loop :: "'d block_dev \<Rightarrow> u8 list list \<Rightarrow> 'd os_fs \<Rightarrow> 'd os_fs res" where
  "list_apps_loop D [] fs = Inr fs"
| "list_apps_loop D (app # apps) fs =
     rbind (fs_do (inode_find D (fs_efs fs) app (fs_root fs)) fs) (\<lambda>(r, fs1).
     rbind (unwrapE r) (\<lambda>inode.
     (let (i, fs2) = new_inode inode fs1; (f, fs3) = os_inode_new True False i fs2 in
      list_apps_loop D apps (map_name app f fs3))))"

definition list_apps :: "'d block_dev \<Rightarrow> 'd os_fs \<Rightarrow> 'd os_fs res" where
  "list_apps D fs = rbind (fs_do (inode_ls D (fs_root fs)) fs) (\<lambda>(apps, fs'). list_apps_loop D apps fs')"

section \<open>Opening files\<close>

type_synonym open_flags = u32

definition RDONLY :: open_flags where "RDONLY = 0"
definition WRONLY :: open_flags where "WRONLY = 1"
definition RDWR :: open_flags where "RDWR = 2"
definition CREATE :: open_flags where "CREATE = 0x200"
definition TRUNC :: open_flags where "TRUNC = 0x400"

text \<open>\<^verbatim>\<open>from_bits\<close> refuses values with other bits than those of the flags.\<close>

definition open_flags_from_bits :: "u32 \<Rightarrow> open_flags option" where
  "open_flags_from_bits bits = (if bits AND NOT (WRONLY OR RDWR OR CREATE OR TRUNC) = 0 then Some bits else None)"

definition contains :: "open_flags \<Rightarrow> open_flags \<Rightarrow> bool" where
  "contains flags fl \<longleftrightarrow> flags AND fl = fl"

definition read_write :: "open_flags \<Rightarrow> bool \<times> bool" where
  "read_write flags =
     (if flags = 0 then (True, False) else if contains flags WRONLY then (False, True) else (True, True))"

definition open_file :: "'d block_dev \<Rightarrow> u8 list \<Rightarrow> open_flags \<Rightarrow> 'd os_fs \<Rightarrow> (nat option \<times> 'd os_fs) res" where
  "open_file D name flags fs =
     (let (readable, writable) = read_write flags in
      if contains flags CREATE then
        case hard_link_map fs name of
          Some os_inode \<Rightarrow>
            rbind (fs_do (inode_clear D (fs_efs fs) (inode_of fs os_inode)) fs) (\<lambda>(_, fs1).
            (let (f, fs2) = os_inode_new readable writable (oi_inode (fs_files fs1 ! os_inode)) fs1 in Inr (Some f, fs2)))
        | None \<Rightarrow>
            rbind (fs_do (inode_create D (fs_efs fs) name (fs_root fs)) fs) (\<lambda>(r, fs1).
            case r of
              Some inode \<Rightarrow>
                (let (i, fs2) = new_inode inode fs1; (f, fs3) = os_inode_new readable writable i fs2 in
                 Inr (Some f, map_name name f fs3))
            | None \<Rightarrow>
                rbind (unwrapE (recycled_map fs1 name)) (\<lambda>f.
                Inr (Some f, map_name name f (fs1\<lparr>recycled_map := (recycled_map fs1)(name := None)\<rparr>))))
      else
        case hard_link_map fs name of
          Some os_inode \<Rightarrow>
            rbind (if contains flags TRUNC then fs_do (inode_clear D (fs_efs fs) (inode_of fs os_inode)) fs else Inr ((), fs)) (\<lambda>(_, fs1).
            (let (f, fs2) = os_inode_new readable writable (oi_inode (fs_files fs1 ! os_inode)) fs1 in Inr (Some f, fs2)))
        | None \<Rightarrow> Inr (None, fs))"

section \<open>Reading and writing open files\<close>

lemma advance_simps [simp]:
  "fs_store (advance f k fs) = fs_store fs" "fs_inodes (advance f k fs) = fs_inodes fs" "fs_efs (advance f k fs) = fs_efs fs"
  "length (fs_files (advance f k fs)) = length (fs_files fs)"
  "f < length (fs_files fs) \<Longrightarrow> fs_files (advance f k fs) ! f = (fs_files fs ! f)\<lparr>oi_offset := oi_offset (fs_files fs ! f) + k\<rparr>"
  "f < length (fs_files fs) \<Longrightarrow> inode_of (advance f k fs) f = inode_of fs f"
  by (simp_all add: advance_def inode_of_def)

lemma advance_advance: "f < length (fs_files fs) \<Longrightarrow> advance f j (advance f k fs) = advance f (k + j) fs"
  by (cases fs) (simp add: advance_def add.assoc)

lemma advance_store: "advance f k (fs\<lparr>fs_store := st\<rparr>) = (advance f k fs)\<lparr>fs_store := st\<rparr>"
  by (simp add: advance_def)

lemma advance_0: "advance f 0 fs = fs"
  by (cases fs) (simp add: advance_def)

lemma inode_of_store [simp]: "inode_of (fs\<lparr>fs_store := st\<rparr>) f = inode_of fs f"
  by (simp add: inode_of_def)

lemma take_drop_length: "take n xs @ drop (length (take n xs)) xs = xs"
  by (cases "n \<le> length xs") simp_all

lemma ptrs_write_own:
  assumes "distinct ps" and "length xs \<le> length ps" and "mem_ok m" and "\<forall>p \<in> set ps. snd p < 4096"
  shows "ptrs_write ps (overwrite 0 xs (ptrs_read m ps)) m = ptrs_write ps xs m"
  using assms
proof (induction ps arbitrary: xs m)
  case (Cons p ps)
  show ?case
  proof (cases xs)
    case Nil
    have "ptr_write p (ptr_read m p) m = m" by (simp add: ptr_write_def ptr_read_def)
    then show ?thesis using Nil Cons.IH [of "[]" m] Cons.prems by (simp add: ptrs_read_def overwrite_def)
  next
    case (Cons x xs')
    have "ptrs_read (ptr_write p x m) ps = ptrs_read m ps"
      using Cons.prems by (auto simp: ptrs_read_def ptr_read_write)
    then have "ptrs_write ps (overwrite 0 xs' (ptrs_read m ps)) (ptr_write p x m) = ptrs_write ps xs' (ptr_write p x m)"
      using Cons.IH [of xs' "ptr_write p x m"] Cons.prems Cons by simp
    moreover have "overwrite 0 xs (ptrs_read m (p # ps)) = x # overwrite 0 xs' (ptrs_read m ps)"
      by (simp add: Cons ptrs_read_def overwrite_def)
    ultimately show ?thesis by (simp add: Cons)
  qed
qed (simp add: overwrite_def)

lemma ptrs_write_append:
  "length xs = length ps \<Longrightarrow> ptrs_write (ps @ qs) (xs @ ys) m = ptrs_write qs ys (ptrs_write ps xs m)"
  by (induction ps xs arbitrary: m rule: list_induct2') simp_all

lemma ptrs_write_short: "length xs \<le> length ps \<Longrightarrow> ptrs_write (ps @ qs) xs m = ptrs_write ps xs m"
  by (induction ps xs arbitrary: m rule: list_induct2') simp_all

context block_device
begin

lemma fs_do_runs:
  assumes "runs n [] a V v V'" and "sok n [] V (fs_store fs)"
  obtains st where "fs_do a fs = Inr (v, fs\<lparr>fs_store := st\<rparr>)" and "sok n [] V' st"
proof -
  from runsD [OF assms] obtain st where "a (fs_store fs) = Inr (v, st)" "sok n [] V' st" by blast
  then show thesis by (intro that [of st]) (simp_all add: fs_do_def)
qed

lemma file_read_step:
  assumes "sok n [] V (fs_store fs)" and "is_file n (fs_efs fs) N V (inode_of fs f)"
  obtains st where "fs_do (inode_read_at D off buf (inode_of fs f)) fs
      = Inr ((length (take (length buf) (drop off (file_data V (inode_of fs f)))),
              overwrite 0 (take (length buf) (drop off (file_data V (inode_of fs f)))) buf), fs\<lparr>fs_store := st\<rparr>)"
    and "sok n [] V st"
  by (rule fs_do_runs [OF inode_read_at_runs [OF assms(2) sok_disk_ok [OF assms(1)]] assms(1)]) (rule that)

lemma read_all_loop_ok:
  assumes "f < length (fs_files fs)" and "sok n [] V (fs_store fs)" and "is_file n (fs_efs fs) N V (inode_of fs f)"
    and "length buffer = 512"
  shows "\<exists>st. read_all_loop D f buffer v fs
      = kret (v @ drop (oi_offset (fs_files fs ! f)) (file_data V (inode_of fs f)),
              (advance f (length (file_data V (inode_of fs f)) - oi_offset (fs_files fs ! f)) fs)\<lparr>fs_store := st\<rparr>)
    \<and> sok n [] V st"
  using assms
proof (induction "length (file_data V (inode_of fs f)) - oi_offset (fs_files fs ! f)" arbitrary: buffer v fs rule: less_induct)
  case less
  let ?o = "oi_offset (fs_files fs ! f)" and ?d = "file_data V (inode_of fs f)"
  let ?xs = "take 512 (drop ?o ?d)" and ?k = "length (take 512 (drop ?o ?d))"
  obtain st where r: "fs_do (inode_read_at D ?o buffer (inode_of fs f)) fs = Inr ((?k, overwrite 0 ?xs buffer), fs\<lparr>fs_store := st\<rparr>)"
    and st: "sok n [] V st"
    by (rule file_read_step [OF less.prems(2,3), of ?o buffer, unfolded less.prems(4)])
  show ?case
  proof (cases "?k = 0")
    case True
    then have "drop ?o ?d = []" "length ?d - ?o = 0" by auto
    then show ?thesis using r st True
      by (subst read_all_loop.simps) (auto simp: advance_0)
  next
    case False
    let ?fs = "advance f ?k (fs\<lparr>fs_store := st\<rparr>)" and ?b = "overwrite 0 ?xs buffer"
    have b: "take ?k ?b = ?xs" by (rule take_length_overwrite)
    have bl: "length ?b = 512" using less.prems(4) by (simp add: overwrite_def)
    have fs: "f < length (fs_files ?fs)" "sok n [] V (fs_store ?fs)" "inode_of ?fs f = inode_of fs f" "fs_efs ?fs = fs_efs fs"
      "oi_offset (fs_files ?fs ! f) = ?o + ?k"
      using less.prems(1) st by simp_all
    have lt: "length ?d - (?o + ?k) < length ?d - ?o" using False by auto
    have ex: "\<exists>st. read_all_loop D f ?b (v @ take ?k ?b) ?fs
        = kret ((v @ take ?k ?b) @ drop (?o + ?k) ?d, (advance f (length ?d - (?o + ?k)) ?fs)\<lparr>fs_store := st\<rparr>) \<and> sok n [] V st"
      using less.hyps [of ?fs ?b "v @ take ?k ?b"] lt fs less.prems(3) bl by (simp only: fs)
    have cat: "?xs @ drop (?o + ?k) ?d = drop ?o ?d"
      using take_drop_length [of 512 "drop ?o ?d"] by (simp only: drop_drop add.commute)
    have adv: "(advance f (length ?d - (?o + ?k)) ?fs)\<lparr>fs_store := s\<rparr> = (advance f (length ?d - ?o) fs)\<lparr>fs_store := s\<rparr>" for s
    proof -
      have "?k + (length ?d - (?o + ?k)) = length ?d - ?o" by simp
      then show ?thesis using less.prems(1) by (simp only: advance_store advance_advance) simp
    qed
    have "read_all_loop D f buffer v fs = read_all_loop D f ?b (v @ take ?k ?b) ?fs"
      unfolding read_all_loop.simps [of D f buffer v fs] r by (simp only: kbind_simps prod.case if_not_P [OF False])
    moreover have "(v @ take ?k ?b) @ drop (?o + ?k) ?d = v @ drop ?o ?d" using cat b by (simp only: append_assoc)
    ultimately show ?thesis using ex by (simp only: adv)
  qed
qed

lemma os_read_loop_ok:
  assumes "f < length (fs_files fs)" and "sok n [] V (fs_store fs)" and "is_file n (fs_efs fs) N V (inode_of fs f)"
    and "ub_ok buf" and "distinct (ub_ptrs buf)" and "mem_ok m"
  defines "xs \<equiv> take (length (ub_ptrs buf)) (drop (oi_offset (fs_files fs ! f)) (file_data V (inode_of fs f)))"
  shows "\<exists>st. os_read_loop D f buf k (fs, m)
      = Inr (k + length xs, (advance f (length xs) fs)\<lparr>fs_store := st\<rparr>, ptrs_write (ub_ptrs buf) xs m) \<and> sok n [] V st"
  using assms(1-6) unfolding assms(7)
proof (induction buf arbitrary: k fs m)
  case Nil
  then show ?case by (intro exI [of _ "fs_store fs"]) (simp add: ub_ptrs_def advance_0)
next
  case (Cons sl buf)
  let ?o = "oi_offset (fs_files fs ! f)" and ?d = "file_data V (inode_of fs f)" and ?ps = "us_ptrs sl" and ?qs = "ub_ptrs buf"
  let ?xs = "take (length ?ps) (drop ?o ?d)"
  have pq: "ub_ptrs (sl # buf) = ?ps @ ?qs" by (simp add: ub_ptrs_def)
  have ps: "distinct ?ps" "\<forall>p \<in> set ?ps. snd p < 4096" "?ps \<noteq> []" "ub_ok buf" "distinct ?qs"
    using Cons.prems(4,5) by (auto simp: pq us_ptrs_def ub_ok_def)
  obtain st where r: "fs_do (inode_read_at D ?o (ptrs_read m ?ps) (inode_of fs f)) fs
      = Inr ((length ?xs, overwrite 0 ?xs (ptrs_read m ?ps)), fs\<lparr>fs_store := st\<rparr>)" and st: "sok n [] V st"
    by (rule file_read_step [OF Cons.prems(2,3), of ?o "ptrs_read m ?ps"]) (simp add: ptrs_read_def)
  have own: "ptrs_write ?ps (overwrite 0 ?xs (ptrs_read m ?ps)) m = ptrs_write ?ps ?xs m"
    by (rule ptrs_write_own [OF ps(1) _ Cons.prems(6) ps(2)]) simp
  show ?case
  proof (cases "length ?xs = 0")
    case True
    then have "?xs = []" by (simp only: length_0_conv)
    then have "drop ?o ?d = []" using ps(3) by (simp only: take_eq_Nil length_0_conv simp_thms)
    then show ?thesis using r st own by (intro exI [of _ st]) (simp add: advance_0)
  next
    case False
    let ?fs = "advance f (length ?xs) (fs\<lparr>fs_store := st\<rparr>)" and ?m = "ptrs_write ?ps ?xs m"
    let ?ys = "take (length ?qs) (drop (?o + length ?xs) ?d)"
    have fs: "f < length (fs_files ?fs)" "sok n [] V (fs_store ?fs)" "inode_of ?fs f = inode_of fs f" "fs_efs ?fs = fs_efs fs"
      "oi_offset (fs_files ?fs ! f) = ?o + length ?xs"
      using Cons.prems(1) st by simp_all
    have "\<exists>st'. os_read_loop D f buf (k + length ?xs) (?fs, ?m)
        = Inr (k + length ?xs + length ?ys, (advance f (length ?ys) ?fs)\<lparr>fs_store := st'\<rparr>, ptrs_write ?qs ?ys ?m) \<and> sok n [] V st'"
      using Cons.IH [of ?fs ?m "k + length ?xs"] fs Cons.prems(3,6) ps(4,5) by (simp only: fs mem_ok_ptrs_write)
    then obtain st' where r2: "os_read_loop D f buf (k + length ?xs) (?fs, ?m)
        = Inr (k + length ?xs + length ?ys, (advance f (length ?ys) ?fs)\<lparr>fs_store := st'\<rparr>, ptrs_write ?qs ?ys ?m)"
      and st': "sok n [] V st'" by blast
    have all: "take (length (ub_ptrs (sl # buf))) (drop ?o ?d) = ?xs @ ?ys"
      "ptrs_write (ub_ptrs (sl # buf)) (?xs @ ?ys) m = ptrs_write ?qs ?ys ?m"
    proof -
      show a: "take (length (ub_ptrs (sl # buf))) (drop ?o ?d) = ?xs @ ?ys"
        by (cases "length ?ps \<le> length (drop ?o ?d)") (simp_all add: pq take_add add.commute)
      show "ptrs_write (ub_ptrs (sl # buf)) (?xs @ ?ys) m = ptrs_write ?qs ?ys ?m"
      proof (cases "length ?ps \<le> length (drop ?o ?d)")
        case True
        then show ?thesis unfolding pq by (intro ptrs_write_append) simp
      next
        case False
        then have ys: "?ys = []" by simp
        show ?thesis unfolding ys pq append_Nil2 ptrs_write_Nil by (rule ptrs_write_short) simp
      qed
    qed
    have "os_read_loop D f (sl # buf) k (fs, m) = os_read_loop D f buf (k + length ?xs) (?fs, ?m)"
      unfolding os_read_loop.simps r by (simp only: rbind_Inr prod.case Let_def own if_not_P [OF False])
    also note r2
    also have "(advance f (length ?ys) ?fs)\<lparr>fs_store := st'\<rparr> = (advance f (length (?xs @ ?ys)) fs)\<lparr>fs_store := st'\<rparr>"
      using Cons.prems(1) by (simp add: advance_store advance_advance)
    finally show ?thesis unfolding all(1) all(2) using st' by (intro exI [of _ st']) (simp add: add.assoc)
  qed
qed

end

section \<open>Properties\<close>

text \<open>
  C20. \<open>read_all\<close> ends: on a well-formed file it returns all bytes of the file from the offset of the
  open file on, moves the offset to the end of the file, and leaves the disk as it is.
\<close>

theorem read_all_returns_file:
  assumes dev: "block_device D blocks" and "block_device.sok D blocks n [] V (fs_store fs)"
    and "is_file n (fs_efs fs) N V (inode_of fs f)" and "f < length (fs_files fs)"
  shows "\<exists>st. read_all D f fs
      = kret (drop (oi_offset (fs_files fs ! f)) (file_data V (inode_of fs f)),
              (advance f (length (file_data V (inode_of fs f)) - oi_offset (fs_files fs ! f)) fs)\<lparr>fs_store := st\<rparr>)
    \<and> block_device.sok D blocks n [] V st"
  using block_device.read_all_loop_ok [OF dev assms(4,2,3), of "replicate 512 0" "[]"] by (simp add: read_all_def)

text \<open>
  C21. Reading an open file into a user buffer of several slices. The bytes of the file from the
  offset on are stored at the addresses of the buffer in order, as many as there are and as the
  buffer has room for; this number is returned, the offset moves by it, and neither the disk nor
  any other byte of memory changes.
\<close>

theorem os_read_fills_buffer:
  assumes dev: "block_device D blocks" and "block_device.sok D blocks n [] V (fs_store fs)"
    and "is_file n (fs_efs fs) N V (inode_of fs f)" and "f < length (fs_files fs)"
    and "ub_ok buf" and "distinct (ub_ptrs buf)" and "mem_ok m"
    and "xs = take (length (ub_ptrs buf)) (drop (oi_offset (fs_files fs ! f)) (file_data V (inode_of fs f)))"
  shows "\<exists>st m'. os_read D f buf (fs, m) = Inr (length xs, (advance f (length xs) fs)\<lparr>fs_store := st\<rparr>, m')
    \<and> block_device.sok D blocks n [] V st \<and> ptrs_read m' (take (length xs) (ub_ptrs buf)) = xs
    \<and> (\<forall>q. q \<notin> set (ub_ptrs buf) \<longrightarrow> ptr_read m' q = ptr_read m q)"
proof -
  have lt: "\<forall>p \<in> set (ub_ptrs buf). snd p < 4096"
    using assms(5) by (auto simp: ub_ok_def ub_ptrs_def us_ptrs_def)
  have len: "length xs \<le> length (ub_ptrs buf)" using assms(8) by simp
  from block_device.os_read_loop_ok [OF dev assms(4,2,3,5-7), of 0] assms(8) obtain st where
    "os_read D f buf (fs, m) = Inr (length xs, (advance f (length xs) fs)\<lparr>fs_store := st\<rparr>, ptrs_write (ub_ptrs buf) xs m)"
    "block_device.sok D blocks n [] V st" by (auto simp: os_read_def simp del: length_take)
  moreover note ptrs_read_write [OF assms(7) lt assms(6) len] ptr_read_ptrs_write_other [OF assms(7) lt]
  ultimately show ?thesis by blast
qed

text \<open>
  C22. Hard links. Linking an existing name under another one succeeds, makes the new name denote
  the same open file and adds one to the link count; opening the new name without creating or
  truncating gives a file on the same inode, with offset 0 and the access the flags ask for.
  Unlinking the new name again restores the names and the inodes, link counts included.
\<close>

theorem link_unlink_names:
  assumes "hard_link_map fs old_path = Some f" and "old_path \<noteq> new_path" and "f < length (fs_files fs)"
    and "oi_inode (fs_files fs ! f) < length (fs_inodes fs)" and "\<not> contains flags CREATE" and "\<not> contains flags TRUNC"
    and "hard_link_map fs new_path = None" and "1 \<le> os_nlink fs f"
  shows "\<exists>fs1 h fs2 fs3. link old_path new_path fs = (0, fs1)
    \<and> hard_link_map fs1 = (hard_link_map fs)(new_path \<mapsto> f) \<and> os_nlink fs1 f = os_nlink fs f + 1
    \<and> open_file D new_path flags fs1 = Inr (Some h, fs2)
    \<and> oi_inode (fs_files fs2 ! h) = oi_inode (fs_files fs ! f) \<and> inode_of fs2 h = inode_of fs1 f
    \<and> oi_offset (fs_files fs2 ! h) = 0 \<and> (os_readable fs2 h, os_writable fs2 h) = read_write flags
    \<and> unlink new_path fs1 = (0, fs3) \<and> hard_link_map fs3 = hard_link_map fs \<and> fs_inodes fs3 = fs_inodes fs"
proof -
  let ?i = "oi_inode (fs_files fs ! f)"
  let ?fs1 = "fs\<lparr>fs_inodes := (fs_inodes fs)[?i := create_nlink (fs_inodes fs ! ?i)],
    hard_link_map := (hard_link_map fs)(new_path \<mapsto> f)\<rparr>"
  have l: "link old_path new_path fs = (0, ?fs1)"
    using assms(1,2) by (simp add: link_def update_inode_def Let_def)
  have n: "os_nlink ?fs1 f = os_nlink fs f + 1"
    using assms(4) by (simp add: os_nlink_def inode_of_def get_nlink_def create_nlink_def)
  let ?h = "length (fs_files fs)"
  let ?fs2 = "?fs1\<lparr>fs_files := fs_files fs @ [\<lparr>oi_readable = fst (read_write flags), oi_writable = snd (read_write flags),
    oi_offset = 0, oi_inode = ?i\<rparr>]\<rparr>"
  have o: "open_file D new_path flags ?fs1 = Inr (Some ?h, ?fs2)"
    using assms(5,6) by (simp add: open_file_def os_inode_new_def case_prod_beta)
  have undo: "destory_nlink (create_nlink (fs_inodes fs ! ?i)) = fs_inodes fs ! ?i"
    using assms(8) by (simp add: destory_nlink_def create_nlink_def os_nlink_def get_nlink_def inode_of_def)
  obtain fs3 where u: "unlink new_path ?fs1 = (0, fs3)" "hard_link_map fs3 = hard_link_map fs" "fs_inodes fs3 = fs_inodes fs"
    using assms(4,7) undo by (simp add: unlink_def update_inode_def Let_def fun_upd_idem)
  show ?thesis
    by (rule exI [of _ ?fs1], rule exI [of _ ?h], rule exI [of _ ?fs2], rule exI [of _ fs3])
      (use l n o u in \<open>simp add: inode_of_def os_readable_def os_writable_def\<close>)
qed

definition small_os_fs :: "u8 list os_fs" where
  "small_os_fs = \<lparr>fs_store = zero_disk, fs_efs = small_fs, fs_root = small_ino, fs_inodes = [small_ino],
     fs_files = [\<lparr>oi_readable = True, oi_writable = False, oi_offset = 0, oi_inode = 0\<rparr>],
     hard_link_map = [[97] \<mapsto> 0], recycled_map = Map.empty\<rparr>"

text \<open>The file system when its file holds two bytes.\<close>

lemma small_os_fs_ok:
  obtains st V where "inode_write_at block_file small_fs 0 [7, 8] small_ino zero_disk = Inr (2, st)"
    and "bf.sok 24 [] V (fs_store (small_os_fs\<lparr>fs_store := st\<rparr>))"
    and "is_file 24 (fs_efs (small_os_fs\<lparr>fs_store := st\<rparr>)) 20 V (inode_of (small_os_fs\<lparr>fs_store := st\<rparr>) 0)"
    and "0 < length (fs_files (small_os_fs\<lparr>fs_store := st\<rparr>))" and "oi_offset (fs_files (small_os_fs\<lparr>fs_store := st\<rparr>) ! 0) = 0"
    and "file_data V (inode_of (small_os_fs\<lparr>fs_store := st\<rparr>) 0) = [7, 8]"
proof -
  obtain st V where "inode_write_at block_file small_fs 0 [7, 8] small_ino zero_disk = Inr (2, st)" "bf.sok 24 [] V st"
    "is_file 24 small_fs 20 V small_ino" "file_data V small_ino = [7, 8]" by (rule small_written)
  then show ?thesis by (intro that [of st V]) (simp_all add: small_os_fs_def inode_of_def)
qed

theorem read_all_returns_file_witness:
  "\<exists>st fs'. inode_write_at block_file small_fs 0 [7, 8] small_ino zero_disk = Inr (2, st)
    \<and> read_all block_file 0 (small_os_fs\<lparr>fs_store := st\<rparr>) = kret ([7, 8], fs')"
proof -
  obtain st V where w: "inode_write_at block_file small_fs 0 [7, 8] small_ino zero_disk = Inr (2, st)"
    and V: "bf.sok 24 [] V (fs_store (small_os_fs\<lparr>fs_store := st\<rparr>))"
      "is_file 24 (fs_efs (small_os_fs\<lparr>fs_store := st\<rparr>)) 20 V (inode_of (small_os_fs\<lparr>fs_store := st\<rparr>) 0)"
      "0 < length (fs_files (small_os_fs\<lparr>fs_store := st\<rparr>))"
    and d: "oi_offset (fs_files (small_os_fs\<lparr>fs_store := st\<rparr>) ! 0) = 0" "file_data V (inode_of (small_os_fs\<lparr>fs_store := st\<rparr>) 0) = [7, 8]"
    by (rule small_os_fs_ok)
  from read_all_returns_file [OF bf.block_device_axioms V] w show ?thesis unfolding d by auto
qed

theorem os_read_fills_buffer_witness:
  "\<exists>st fs' m'. inode_write_at block_file small_fs 0 [7, 8] small_ino zero_disk = Inr (2, st)
    \<and> os_read block_file 0 (byte_slice 3 @ byte_slice 4) (small_os_fs\<lparr>fs_store := st\<rparr>, mem_of_bytes (\<lambda>_. 0)) = Inr (2, fs', m')
    \<and> ptrs_read m' (ub_ptrs (byte_slice 3 @ byte_slice 4)) = [7, 8]"
proof -
  obtain st V where w: "inode_write_at block_file small_fs 0 [7, 8] small_ino zero_disk = Inr (2, st)"
    and V: "bf.sok 24 [] V (fs_store (small_os_fs\<lparr>fs_store := st\<rparr>))"
      "is_file 24 (fs_efs (small_os_fs\<lparr>fs_store := st\<rparr>)) 20 V (inode_of (small_os_fs\<lparr>fs_store := st\<rparr>) 0)"
      "0 < length (fs_files (small_os_fs\<lparr>fs_store := st\<rparr>))"
    and d: "oi_offset (fs_files (small_os_fs\<lparr>fs_store := st\<rparr>) ! 0) = 0" "file_data V (inode_of (small_os_fs\<lparr>fs_store := st\<rparr>) 0) = [7, 8]"
    by (rule small_os_fs_ok)
  have p: "ub_ptrs (byte_slice 3 @ byte_slice 4) = [(PhysPageNum 3, 4095), (PhysPageNum 4, 4095)]"
    using byte_slice_ptrs(1) [of 3] byte_slice_ptrs(1) [of 4] by (simp add: ub_ptrs_def)
  have "ub_ok (byte_slice 3 @ byte_slice 4)" "distinct (ub_ptrs (byte_slice 3 @ byte_slice 4))" "mem_ok (mem_of_bytes (\<lambda>_. 0))"
    "[7, 8] = take (length (ub_ptrs (byte_slice 3 @ byte_slice 4))) (drop (oi_offset (fs_files (small_os_fs\<lparr>fs_store := st\<rparr>) ! 0))
       (file_data V (inode_of (small_os_fs\<lparr>fs_store := st\<rparr>) 0)))"
    unfolding d p using byte_slice_ptrs(2) [of 3] byte_slice_ptrs(2) [of 4] by (auto simp: ub_ok_def mem_of_bytes_read(1))
  from os_read_fills_buffer [OF bf.block_device_axioms V this] w show ?thesis unfolding p by (auto simp: numeral_2_eq_2)
qed

theorem link_unlink_names_witness:
  "\<exists>fs1 fs3. link [97] [98] small_os_fs = (0, fs1) \<and> hard_link_map fs1 [98] = Some 0 \<and> os_nlink fs1 0 = 2
    \<and> unlink [98] fs1 = (0, fs3) \<and> hard_link_map fs3 = [[97] \<mapsto> 0]"
proof -
  have "hard_link_map small_os_fs [97] = Some 0" "[97] \<noteq> [98 :: u8]" "0 < length (fs_files small_os_fs)"
    "oi_inode (fs_files small_os_fs ! 0) < length (fs_inodes small_os_fs)" "\<not> contains RDONLY CREATE" "\<not> contains RDONLY TRUNC"
    "hard_link_map small_os_fs [98] = None" "1 \<le> os_nlink small_os_fs 0"
    by (simp_all add: small_os_fs_def contains_def RDONLY_def CREATE_def TRUNC_def os_nlink_def inode_of_def get_nlink_def small_ino_def)
  from link_unlink_names [OF this, of block_file] show ?thesis
    by (auto simp: small_os_fs_def os_nlink_def inode_of_def get_nlink_def small_ino_def)
qed

end
