(* ===== verification/Mail_Box.thy ===== *)
theory Mail_Box
  imports User_Buffer Fifo_Queue
begin

text \<open>
  The mailbox of a process (\<^verbatim>\<open>os/src/fs/mail_box.rs\<close>): at most sixteen packets of at most
  256 bytes. Packets are filled from and copied to user buffers byte by byte.
\<close>

definition MAX_PACKET_NUM :: nat where "MAX_PACKET_NUM = 16"
definition PACKET_BUFFER_SIZE :: nat where "PACKET_BUFFER_SIZE = 256"

record mail_packet =
  mp_arr :: "u8 list"
  mp_len :: nat

definition mail_packet_new :: mail_packet where
  "mail_packet_new = \<lparr>mp_arr = replicate PACKET_BUFFER_SIZE 0, mp_len = 0\<rparr>"

text \<open>
  The loop of \<^verbatim>\<open>MailPacket::from_buffer\<close>. Each round takes one pointer and lengthens the
  packet; it ends with the buffer or when the packet is full.
\<close>

function from_buffer_loop :: "machine \<Rightarrow> mail_packet \<Rightarrow> ub_iter \<Rightarrow> mail_packet res" where
  "from_buffer_loop m packet it =
     rbind (ub_next it) (\<lambda>(r, it').
       case r of
         None \<Rightarrow> Inr packet
       | Some p \<Rightarrow>
           rbind (updateE (mp_arr packet) (mp_len packet) (ptr_read m p)) (\<lambda>arr.
             let packet' = packet\<lparr>mp_arr := arr, mp_len := mp_len packet + 1\<rparr> in
             if mp_len packet' \<ge> PACKET_BUFFER_SIZE then Inr packet'
             else from_buffer_loop m packet' it'))"
  by pat_completeness auto
termination
  by (relation "measure (\<lambda>(m, packet, it). PACKET_BUFFER_SIZE - mp_len packet)") auto

declare from_buffer_loop.simps [simp del]

definition mail_packet_from_buffer :: "machine \<Rightarrow> user_buffer \<Rightarrow> mail_packet res" where
  "mail_packet_from_buffer m b = from_buffer_loop m mail_packet_new (ub_into_iter b)"

text \<open>The loop of \<^verbatim>\<open>MailPacket::write_buf\<close>, over \<^verbatim>\<open>for _i in 0..self.len\<close>.\<close>

fun write_buf_loop :: "nat \<Rightarrow> mail_packet \<Rightarrow> ub_iter \<Rightarrow> nat \<Rightarrow> machine \<Rightarrow> (nat \<times> machine) res" where
  "write_buf_loop 0 packet it write_size m = Inr (write_size, m)"
| "write_buf_loop (Suc n) packet it write_size m =
     rbind (ub_next it) (\<lambda>(r, it').
       case r of
         None \<Rightarrow> Inr (write_size, m)
       | Some p \<Rightarrow>
           rbind (indexE (mp_arr packet) write_size) (\<lambda>b.
             write_buf_loop n packet it' (write_size + 1) (ptr_write p b m)))"

definition mail_packet_write_buf :: "mail_packet \<Rightarrow> user_buffer \<Rightarrow> machine \<Rightarrow> (nat \<times> machine) res" where
  "mail_packet_write_buf packet b m = write_buf_loop (mp_len packet) packet (ub_into_iter b) 0 m"

record mail_box =
  mb_size :: nat
  mb_packets :: "mail_packet list"

definition mail_box_new :: mail_box where
  "mail_box_new = \<lparr>mb_size = 0, mb_packets = []\<rparr>"

definition mail_box_push :: "mail_packet \<Rightarrow> mail_box \<Rightarrow> mail_box" where
  "mail_box_push packet mb = mb\<lparr>mb_packets := mb_packets mb @ [packet], mb_size := mb_size mb + 1\<rparr>"

definition mail_box_write :: "user_buffer \<Rightarrow> machine \<Rightarrow> mail_box \<Rightarrow> (int \<times> mail_box) res" where
  "mail_box_write b m mb =
     (if mb_size mb \<ge> MAX_PACKET_NUM then Inr (- 1, mb)
      else rbind (mail_packet_from_buffer m b) (\<lambda>packet.
        Inr (int (mp_len packet),
             if mp_len packet > 0
             then mb\<lparr>mb_packets := mb_packets mb @ [packet], mb_size := mb_size mb + 1\<rparr> else mb)))"

definition mail_box_read :: "user_buffer \<Rightarrow> mail_box \<Rightarrow> machine \<Rightarrow> (int \<times> mail_box \<times> machine) res" where
  "mail_box_read b mb m =
     (if mb_size mb = 0 then Inr (- 1, mb, m)
      else if ub_len b > 0 then
        (case mb_packets mb of
           [] \<Rightarrow> Inr (- 1, mb, m)
         | packet # rest \<Rightarrow>
             (let mb' = mb\<lparr>mb_packets := rest, mb_size := mb_size mb - 1\<rparr> in
              rbind (mail_packet_write_buf packet b m) (\<lambda>(n, m'). Inr (int n, mb', m'))))
      else Inr (0, mb, m))"

section \<open>Invariant and abstraction\<close>

text \<open>The message a packet carries, and the messages of a mailbox, the oldest first.\<close>

definition mp_msg :: "mail_packet \<Rightarrow> u8 list" where
  "mp_msg p = take (mp_len p) (mp_arr p)"

definition mp_ok :: "mail_packet \<Rightarrow> bool" where
  "mp_ok p \<longleftrightarrow> length (mp_arr p) = PACKET_BUFFER_SIZE \<and> mp_len p \<le> PACKET_BUFFER_SIZE"

definition mb_inv :: "mail_box \<Rightarrow> bool" where
  "mb_inv mb \<longleftrightarrow> mb_size mb = length (mb_packets mb) \<and> mb_size mb \<le> MAX_PACKET_NUM
     \<and> (\<forall>p \<in> set (mb_packets mb). mp_ok p \<and> 0 < mp_len p)"

definition mb_msgs :: "mail_box \<Rightarrow> u8 list list" where
  "mb_msgs mb = map mp_msg (mb_packets mb)"

definition mail_box_pop :: "mail_box \<Rightarrow> (mail_packet \<times> mail_box) option" where
  "mail_box_pop mb =
     (case mb_packets mb of
        [] \<Rightarrow> None
      | p # rest \<Rightarrow> Some (p, mb\<lparr>mb_packets := rest, mb_size := mb_size mb - 1\<rparr>))"

interpretation mbq: fifo_queue mail_box_push mail_box_pop "\<lambda>mb. mb_size mb < MAX_PACKET_NUM"
  "\<lambda>mb. mb_size mb = length (mb_packets mb) \<and> mb_size mb \<le> MAX_PACKET_NUM" mb_packets
  by unfold_locales (auto simp: mail_box_push_def mail_box_pop_def)

lemma mail_box_new_inv [simp]: "mb_inv mail_box_new"
  by (simp add: mb_inv_def mail_box_new_def)

lemma from_buffer_loop_spec:
  "it_ok it \<Longrightarrow> mp_ok packet \<Longrightarrow> mp_len packet < PACKET_BUFFER_SIZE \<Longrightarrow>
   \<exists>packet'. from_buffer_loop m packet it = Inr packet' \<and> mp_ok packet' \<and>
     mp_msg packet' = take PACKET_BUFFER_SIZE (mp_msg packet @ ptrs_read m (it_rest it))"
proof (induction m packet it rule: from_buffer_loop.induct)
  case (1 m packet it)
  show ?case
  proof (cases "it_rest it")
    case Nil
    then show ?thesis
      using ub_next_None [OF "1.prems"(1) Nil] "1.prems"
      by (subst from_buffer_loop.simps) (simp add: ptrs_read_def mp_msg_def mp_ok_def)
  next
    case (Cons p ps)
    then obtain it' where nx: "ub_next it = Inr (Some p, it')" and it': "it_ok it'" "it_rest it' = ps"
      using ub_next_Some [OF "1.prems"(1)] by blast
    let ?arr = "(mp_arr packet)[mp_len packet := ptr_read m p]"
    let ?q = "packet\<lparr>mp_arr := ?arr, mp_len := mp_len packet + 1\<rparr>"
    have up: "updateE (mp_arr packet) (mp_len packet) (ptr_read m p) = Inr ?arr"
      using "1.prems" by (simp add: mp_ok_def)
    have q: "mp_ok ?q" and msg: "mp_msg ?q = mp_msg packet @ [ptr_read m p]"
      using "1.prems" by (auto simp: mp_ok_def mp_msg_def take_Suc_conv_app_nth)
    have step: "from_buffer_loop m packet it
        = (if mp_len ?q \<ge> PACKET_BUFFER_SIZE then Inr ?q else from_buffer_loop m ?q it')"
      by (subst from_buffer_loop.simps) (simp add: nx up Let_def)
    show ?thesis
    proof (cases "mp_len ?q \<ge> PACKET_BUFFER_SIZE")
      case True
      moreover have "length (mp_msg ?q) = mp_len ?q" using q by (simp add: mp_ok_def mp_msg_def)
      moreover have "PACKET_BUFFER_SIZE - mp_len packet = 1" using True "1.prems"(3) by simp
      ultimately show ?thesis
        using q msg step Cons by (simp add: ptrs_read_def)
    next
      case False
      have "\<exists>packet'. from_buffer_loop m ?q it' = Inr packet' \<and> mp_ok packet' \<and>
        mp_msg packet' = take PACKET_BUFFER_SIZE (mp_msg ?q @ ptrs_read m (it_rest it'))"
        by (rule "1.IH" [OF nx refl refl up refl False it'(1) q]) (use False in simp)
      moreover have "mp_msg ?q @ ptrs_read m (it_rest it') = mp_msg packet @ ptrs_read m (it_rest it)"
        using msg Cons it'(2) by (simp add: ptrs_read_def)
      ultimately show ?thesis
        using False step by (simp only: if_False)
    qed
  qed
qed

lemma mail_packet_from_buffer_spec:
  assumes "ub_ok b"
  shows "\<exists>packet. mail_packet_from_buffer m b = Inr packet \<and> mp_ok packet \<and>
    mp_msg packet = take PACKET_BUFFER_SIZE (ptrs_read m (ub_ptrs b))"
  using from_buffer_loop_spec [OF it_ok_into_iter [OF assms], of mail_packet_new m]
  by (simp add: mail_packet_from_buffer_def it_rest_into_iter mail_packet_new_def mp_ok_def
      mp_msg_def PACKET_BUFFER_SIZE_def)

lemma write_buf_loop_spec:
  "it_ok it \<Longrightarrow> k + n \<le> length (mp_arr packet) \<Longrightarrow>
   write_buf_loop n packet it k m =
     Inr (k + min n (length (it_rest it)), ptrs_write (it_rest it) (take n (drop k (mp_arr packet))) m)"
proof (induction n packet it k m rule: write_buf_loop.induct)
  case (1 packet it k m)
  then show ?case by simp
next
  case (2 n packet it k m)
  show ?case
  proof (cases "it_rest it")
    case Nil
    then show ?thesis using ub_next_None [OF "2.prems"(1) Nil] by simp
  next
    case (Cons p ps)
    then obtain it' where nx: "ub_next it = Inr (Some p, it')" and it': "it_ok it'" "it_rest it' = ps"
      using ub_next_Some [OF "2.prems"(1)] by blast
    have k: "k < length (mp_arr packet)" using "2.prems" by simp
    then have d: "drop k (mp_arr packet) = mp_arr packet ! k # drop (Suc k) (mp_arr packet)"
      by (simp add: Cons_nth_drop_Suc)
    have ix: "indexE (mp_arr packet) k = Inr (mp_arr packet ! k)" using k by simp
    have "write_buf_loop n packet it' (k + 1) (ptr_write p (mp_arr packet ! k) m) =
      Inr (k + 1 + min n (length (it_rest it')),
        ptrs_write (it_rest it') (take n (drop (k + 1) (mp_arr packet))) (ptr_write p (mp_arr packet ! k) m))"
      by (rule "2.IH" [OF nx refl refl ix it'(1)]) (use "2.prems" in simp)
    then show ?thesis
      using nx ix Cons it'(2) d by simp
  qed
qed

lemma mail_packet_write_buf_spec:
  assumes "ub_ok b" and "mp_ok packet"
  shows "mail_packet_write_buf packet b m =
    Inr (min (mp_len packet) (ub_len b), ptrs_write (ub_ptrs b) (mp_msg packet) m)"
  using write_buf_loop_spec [OF it_ok_into_iter [OF assms(1)], of 0 "mp_len packet" packet m] assms(2)
  by (simp add: mail_packet_write_buf_def it_rest_into_iter mp_ok_def mp_msg_def ub_len_eq)

section \<open>Properties\<close>

definition ub_msg :: "machine \<Rightarrow> user_buffer \<Rightarrow> u8 list" where
  "ub_msg m b = take PACKET_BUFFER_SIZE (ptrs_read m (ub_ptrs b))"

lemma mail_box_write_spec:
  assumes "mb_inv mb" and "ub_ok b"
  shows "\<exists>mb'. mail_box_write b m mb =
      Inr (if length (mb_msgs mb) = MAX_PACKET_NUM then - 1 else int (length (ub_msg m b)), mb')
    \<and> mb_inv mb'
    \<and> mb_msgs mb' = mb_msgs mb @
        (if length (mb_msgs mb) = MAX_PACKET_NUM \<or> ub_msg m b = [] then [] else [ub_msg m b])"
proof (cases "mb_size mb \<ge> MAX_PACKET_NUM")
  case True
  with assms(1) show ?thesis by (simp add: mail_box_write_def mb_inv_def mb_msgs_def)
next
  case False
  obtain packet where pk: "mail_packet_from_buffer m b = Inr packet" "mp_ok packet"
    and msg: "mp_msg packet = ub_msg m b"
    using mail_packet_from_buffer_spec [OF assms(2)] by (auto simp: ub_msg_def)
  have len: "mp_len packet = length (ub_msg m b)"
    using pk(2) by (simp add: msg [symmetric] mp_msg_def mp_ok_def)
  with False assms(1) pk msg show ?thesis
    by (auto simp: mail_box_write_def mb_inv_def mb_msgs_def)
qed

lemma mail_box_read_spec:
  assumes "mb_inv mb" and "ub_ok b"
  shows "mail_box_read b mb m =
    (case mb_msgs mb of
       [] \<Rightarrow> Inr (- 1, mb, m)
     | msg # msgs \<Rightarrow>
         if ub_ptrs b = [] then Inr (0, mb, m)
         else Inr (int (min (length msg) (length (ub_ptrs b))),
                   mb\<lparr>mb_packets := tl (mb_packets mb), mb_size := mb_size mb - 1\<rparr>,
                   ptrs_write (ub_ptrs b) msg m))"
proof (cases "mb_packets mb")
  case Nil
  with assms show ?thesis by (simp add: mail_box_read_def mb_inv_def mb_msgs_def)
next
  case (Cons p ps)
  then have p: "mp_ok p" "mb_size mb \<noteq> 0" using assms(1) by (auto simp: mb_inv_def)
  then have "length (mp_msg p) = mp_len p" by (simp add: mp_ok_def mp_msg_def)
  with p Cons show ?thesis
    by (simp add: mail_box_read_def mb_msgs_def mail_packet_write_buf_spec [OF assms(2)] ub_len_eq)
qed

text \<open>
  C2. What writing to a mailbox does. A mailbox with sixteen messages refuses the write with
  \<^verbatim>\<open>-1\<close> and is unchanged; otherwise the first 256 bytes of the user's buffer are appended as
  one message, unless there are none, and their number is returned. The invariant (the size
  field counts the packets, at most sixteen, each of one to 256 bytes) is kept, and a valid
  buffer never makes the kernel panic.
\<close>

theorem mail_box_write_correct:
  assumes "mb_inv mb" and "ub_ok b"
  shows "\<exists>r mb'. mail_box_write b m mb = Inr (r, mb') \<and> mb_inv mb'
    \<and> r = (if length (mb_msgs mb) = 16 then - 1 else int (min 256 (length (ub_ptrs b))))
    \<and> mb_msgs mb' = mb_msgs mb @
        (if length (mb_msgs mb) = 16 \<or> ub_ptrs b = [] then [] else [take 256 (ptrs_read m (ub_ptrs b))])"
  using mail_box_write_spec [OF assms, of m]
  by (auto simp: ub_msg_def PACKET_BUFFER_SIZE_def MAX_PACKET_NUM_def ptrs_read_def min.commute)

theorem mail_box_write_correct_witness:
  "\<exists>r mb'. mail_box_write (byte_slice 3) (mem_of_bytes (\<lambda>_. 9)) mail_box_new = Inr (r, mb') \<and> r = 1
    \<and> mb_msgs mb' = [[9]]"
  using mail_box_write_correct [OF mail_box_new_inv byte_slice_ptrs(2) [of 3], of "mem_of_bytes (\<lambda>_. 9)"]
  by (auto simp: mb_msgs_def mail_box_new_def ptrs_read_def byte_slice_ptrs mem_of_bytes_read)

text \<open>
  C3. A message arrives. When a process writes a non-empty buffer to an empty mailbox and the
  owner then reads into a buffer of pairwise different addresses, the call returns the number
  of bytes that fit (at most 256), these bytes are now in the reader's buffer, the rest of
  memory is unchanged and the mailbox is empty again.
\<close>

theorem mail_round_trip:
  assumes "mb_inv mb" and "mb_msgs mb = []" and "ub_ok src" and "ub_ok dst"
    and "ub_ptrs src \<noteq> []" and "ub_ptrs dst \<noteq> []" and "distinct (ub_ptrs dst)" and "mem_ok m'"
    and "mail_box_write src m mb = Inr (r, mb1)"
  shows "\<exists>n mb2 m2. mail_box_read dst mb1 m' = Inr (int n, mb2, m2)
    \<and> n = min (min 256 (length (ub_ptrs src))) (length (ub_ptrs dst))
    \<and> ptrs_read m2 (take n (ub_ptrs dst)) = take n (ptrs_read m (ub_ptrs src))
    \<and> (\<forall>p. p \<notin> set (ub_ptrs dst) \<longrightarrow> ptr_read m2 p = ptr_read m' p)
    \<and> mb_inv mb2 \<and> mb_msgs mb2 = []"
proof -
  let ?msg = "ub_msg m src" and ?ps = "ub_ptrs dst"
  let ?n = "min (length ?msg) (length ?ps)"
  from assms mail_box_write_spec [OF assms(1,3), of m] have inv1: "mb_inv mb1"
    and msgs1: "mb_msgs mb1 = [?msg]"
    by (auto simp: ub_msg_def MAX_PACKET_NUM_def PACKET_BUFFER_SIZE_def ptrs_read_def)
  then obtain p where pk: "mb_packets mb1 = [p]" by (auto simp: mb_msgs_def)
  let ?mb2 = "mb1\<lparr>mb_packets := [], mb_size := mb_size mb1 - 1\<rparr>" and ?m2 = "ptrs_write ?ps ?msg m'"
  have bound: "\<forall>p \<in> set ?ps. snd p < 4096" using ub_ptrs_bound [OF assms(4)] by blast
  have read: "mail_box_read dst mb1 m' = Inr (int ?n, ?mb2, ?m2)"
    using mail_box_read_spec [OF inv1 assms(4), of m'] msgs1 pk assms(6) by simp
  have inv2: "mb_inv ?mb2" "mb_msgs ?mb2 = []"
    using inv1 pk by (simp_all add: mb_inv_def mb_msgs_def)
  have data: "ptrs_read ?m2 (take ?n ?ps) = take ?n ?msg"
    using ptrs_write_prefix [of m' ?ps ?msg] bound assms(7,8) by simp
  have msg: "take ?n ?msg = take ?n (ptrs_read m (ub_ptrs src))"
    and n: "?n = min (min 256 (length (ub_ptrs src))) (length ?ps)"
    by (simp_all add: ub_msg_def PACKET_BUFFER_SIZE_def ptrs_read_def min.commute)
  show ?thesis
    using read inv2 data msg n ptr_read_ptrs_write_other [OF assms(8) bound] by metis
qed

theorem mail_round_trip_witness:
  "\<exists>r mb1 mb2 m2. mail_box_write (byte_slice 3) (mem_of_bytes (\<lambda>_. 9)) mail_box_new = Inr (r, mb1)
    \<and> mail_box_read (byte_slice 4) mb1 (mem_of_bytes (\<lambda>_. 5)) = Inr (1, mb2, m2)
    \<and> ptr_read m2 (PhysPageNum 4, 4095) = 9 \<and> ptr_read m2 (PhysPageNum 3, 4095) = 5"
proof -
  let ?m = "mem_of_bytes (\<lambda>_. 9)" and ?m' = "mem_of_bytes (\<lambda>_. 5)"
  obtain r mb1 where w: "mail_box_write (byte_slice 3) ?m mail_box_new = Inr (r, mb1)"
    using mail_box_write_spec [OF mail_box_new_inv byte_slice_ptrs(2)] by blast
  have "mb_msgs mail_box_new = []" by (simp add: mb_msgs_def mail_box_new_def)
  from mail_round_trip [OF mail_box_new_inv this byte_slice_ptrs(2) byte_slice_ptrs(2) _ _ _
      mem_of_bytes_read(1) w, of 4 "\<lambda>_. 5"]
  show ?thesis
    using w by (fastforce simp: byte_slice_ptrs ptrs_read_def mem_of_bytes_read)
qed

end
