(* ===== verification/Task.thy ===== *)
theory Task
  imports Trap_Context Os_Inode Pipe Mail_Box "HOL-Library.Signed_Division"
begin

text \<open>
  Processes (\<^verbatim>\<open>os/src/task/task.rs\<close>), the queue of ready processes
  (\<^verbatim>\<open>os/src/task/manager.rs\<close>), the processor (\<^verbatim>\<open>os/src/task/processor.rs\<close>) and what they do
  together (\<^verbatim>\<open>os/src/task/mod.rs\<close>). All shared objects of the kernel are in one state: a process
  (\<^verbatim>\<open>Arc<TaskControlBlock>\<close>) is a position in the list of control blocks, which keeps its number
  of strong references. The kernel runs on one processor and is not interrupted, so a lock that is
  taken and released within a function is not part of the state.
\<close>

section \<open>The state of the kernel\<close>

definition BIG_STRIDE :: isize where "BIG_STRIDE = 0x7FFFFFFF"
definition TASK_INIT_PRIORITY :: isize where "TASK_INIT_PRIORITY = 16"

datatype task_status = Ready | RunningTask | Zombie

datatype os_file = Stdin | Stdout | FInode nat | FPipe nat

text \<open>
  What a process that was suspended in the kernel does when it is resumed; this is what its kernel
  stack says. It returns to user mode, or returns 0 from \<^verbatim>\<open>sys_yield\<close>, or goes on reading or
  writing a pipe, or waits for a character or for a child.
\<close>

datatype kcont =
    TrapReturn
  | YieldReturn
  | PipeReading nat ub_iter nat
  | PipeWriting nat ub_iter nat
  | StdinReading user_buffer
  | ChildWaiting isize usize

record tcb =
  tcb_pid :: usize
  strong_count :: nat
  task_cx_ptr :: usize
  task_status :: task_status
  task_stride :: isize
  task_priority :: isize
  tcb_memory_set :: memory_set
  trap_cx_ppn :: phys_page_num
  base_size :: usize
  tcb_parent :: "nat option"
  children :: "nat list"
  exit_code :: i32
  fd_table :: "os_file option list"
  tcb_mail_box :: mail_box
  tcb_cont :: kcont

record task_manager =
  ready_queue :: "nat list"

record processor =
  proc_current :: "nat option"

record 'd kernel =
  k_mach :: machine
  k_space :: memory_set
  k_pids :: pid_allocator
  k_tasks :: "tcb list"
  k_manager :: task_manager
  k_proc :: processor
  k_initproc :: nat
  k_pipes :: pipe_heap
  k_fs :: "'d os_fs"
  k_input :: "usize list"
  k_output :: "u8 list"
  k_reads :: nat
  k_timer :: usize

text \<open>
  What the kernel takes from its surroundings: the addresses the linker gives, the value of
  \<^verbatim>\<open>sstatus\<close> for user mode, the ELF parser, and the readings of the clock.
\<close>

record platform =
  pf_syms :: linker_symbols
  pf_trap_return :: usize
  pf_trap_handler :: usize
  pf_alltraps :: usize
  pf_restore :: usize
  pf_sstatus_user :: usize
  pf_elf_new :: "u8 list \<Rightarrow> elf_file option"
  pf_clock :: "nat \<Rightarrow> usize"

definition task_at :: "'d kernel \<Rightarrow> nat \<Rightarrow> tcb" where "task_at k t = k_tasks k ! t"

definition upd_task :: "nat \<Rightarrow> (tcb \<Rightarrow> tcb) \<Rightarrow> 'd kernel \<Rightarrow> 'd kernel" where
  "upd_task t f k = k\<lparr>k_tasks := (k_tasks k)[t := f (k_tasks k ! t)]\<rparr>"

section \<open>Control blocks\<close>

definition get_user_token :: "tcb \<Rightarrow> usize" where
  "get_user_token tcb = ms_token (tcb_memory_set tcb)"

definition is_zombie :: "tcb \<Rightarrow> bool" where
  "is_zombie tcb \<longleftrightarrow> task_status tcb = Zombie"

definition alloc_fd :: "tcb \<Rightarrow> nat \<times> tcb" where
  "alloc_fd tcb =
     (case find (\<lambda>fd. fd_table tcb ! fd = None) [0..<length (fd_table tcb)] of
        Some fd \<Rightarrow> (fd, tcb)
      | None \<Rightarrow>
          (let tcb' = tcb\<lparr>fd_table := fd_table tcb @ [None]\<rparr> in (length (fd_table tcb') - 1, tcb')))"

definition tcb_frames_used :: "tcb \<Rightarrow> usize" where
  "tcb_frames_used tcb = ms_frames_used (tcb_memory_set tcb)"

definition set_priority :: "isize \<Rightarrow> tcb \<Rightarrow> isize \<times> tcb" where
  "set_priority priority tcb =
     (if 1 < sint priority \<and> sint priority \<le> 2 ^ 63 - 1 then (priority, tcb\<lparr>task_priority := priority\<rparr>) else (- 1, tcb))"

text \<open>References to files: only pipe ends are affected by being shared and dropped.\<close>

definition clone_file :: "os_file \<Rightarrow> pipe_heap \<Rightarrow> pipe_heap" where
  "clone_file f h = (case f of FPipe i \<Rightarrow> pipe_arc_clone i h | _ \<Rightarrow> h)"

definition drop_file :: "os_file \<Rightarrow> pipe_heap \<Rightarrow> pipe_heap" where
  "drop_file f h = (case f of FPipe i \<Rightarrow> pipe_arc_drop i h | _ \<Rightarrow> h)"

fun drop_fds :: "os_file option list \<Rightarrow> pipe_heap \<Rightarrow> pipe_heap" where
  "drop_fds [] h = h"
| "drop_fds (None # fds) h = drop_fds fds h"
| "drop_fds (Some f # fds) h = drop_fds fds (drop_file f h)"

fun clone_fds :: "os_file option list \<Rightarrow> os_file option list \<Rightarrow> pipe_heap \<Rightarrow> os_file option list \<times> pipe_heap" where
  "clone_fds [] new h = (new, h)"
| "clone_fds (Some f # fds) new h = clone_fds fds (new @ [Some f]) (clone_file f h)"
| "clone_fds (None # fds) new h = clone_fds fds (new @ [None]) h"

fun copy_mails :: "mail_packet list \<Rightarrow> mail_box \<Rightarrow> mail_box" where
  "copy_mails [] mb = mb"
| "copy_mails (mail # mails) mb = copy_mails mails (mail_box_push mail mb)"

section \<open>The ready queue\<close>

definition task_manager_new :: task_manager where
  "task_manager_new = \<lparr>ready_queue = []\<rparr>"

definition tm_add :: "nat \<Rightarrow> task_manager \<Rightarrow> task_manager" where
  "tm_add task tm = tm\<lparr>ready_queue := ready_queue tm @ [task]\<rparr>"

definition tm_fetch :: "task_manager \<Rightarrow> (nat \<times> task_manager) option" where
  "tm_fetch tm = (case ready_queue tm of [] \<Rightarrow> None | t # ts \<Rightarrow> Some (t, tm\<lparr>ready_queue := ts\<rparr>))"

definition tm_running_num :: "task_manager \<Rightarrow> nat" where
  "tm_running_num tm = length (ready_queue tm)"

definition set_task_mail :: "usize \<Rightarrow> user_buffer \<Rightarrow> 'd kernel \<Rightarrow> (isize \<times> 'd kernel) res" where
  "set_task_mail pid buffer k =
     (case find (\<lambda>t. pid = tcb_pid (task_at k t)) (ready_queue (k_manager k)) of
        Some t \<Rightarrow>
          rbind (mail_box_write buffer (k_mach k) (tcb_mail_box (task_at k t))) (\<lambda>(r, mb).
          Inr (word_of_int r, upd_task t (\<lambda>c. c\<lparr>tcb_mail_box := mb\<rparr>) k))
      | None \<Rightarrow> Inr (- 1, k))"

definition add_task :: "nat \<Rightarrow> 'd kernel \<Rightarrow> 'd kernel" where
  "add_task task k = k\<lparr>k_manager := tm_add task (k_manager k)\<rparr>"

text \<open>
  The other scheduler, which the kernel does not use: a \<^verbatim>\<open>BinaryHeap\<close> gives one of the processes
  with the smallest stride; which one among several is not specified.
\<close>

definition stride_add :: "nat \<Rightarrow> nat list \<Rightarrow> nat list" where
  "stride_add task q = q @ [task]"

inductive stride_fetch :: "(nat \<Rightarrow> isize) \<Rightarrow> nat list \<Rightarrow> nat option \<Rightarrow> nat list \<Rightarrow> bool" for stride where
  stride_empty: "stride_fetch stride [] None []"
| stride_least: "t \<in> set q \<Longrightarrow> (\<forall>u \<in> set q. sint (stride t) \<le> sint (stride u)) \<Longrightarrow> stride_fetch stride q (Some t) (remove1 t q)"

section \<open>The processor\<close>

definition current_task :: "'d kernel \<Rightarrow> nat res" where
  "current_task k = unwrapE (proc_current (k_proc k))"

definition take_current_task :: "'d kernel \<Rightarrow> (nat \<times> 'd kernel) res" where
  "take_current_task k = rbind (current_task k) (\<lambda>t. Inr (t, k\<lparr>k_proc := \<lparr>proc_current = None\<rparr>\<rparr>))"

definition current_user_token :: "'d kernel \<Rightarrow> usize res" where
  "current_user_token k = rbind (current_task k) (\<lambda>t. Inr (get_user_token (task_at k t)))"

definition current_task_id :: "'d kernel \<Rightarrow> usize res" where
  "current_task_id k = rbind (current_task k) (\<lambda>t. Inr (tcb_pid (task_at k t)))"

definition set_task_priority :: "isize \<Rightarrow> 'd kernel \<Rightarrow> (isize \<times> 'd kernel) res" where
  "set_task_priority priority k =
     rbind (current_task k) (\<lambda>t. Inr (fst (set_priority priority (task_at k t)), upd_task t (\<lambda>c. snd (set_priority priority c)) k))"

text \<open>One round of \<^verbatim>\<open>Processor::run\<close>, up to the switch to the process. Division by zero panics.\<close>

definition run_next :: "'d kernel \<Rightarrow> 'd kernel res" where
  "run_next k =
     (case tm_fetch (k_manager k) of
        Some (task, tm) \<Rightarrow>
          rbind (if task_priority (task_at k task) = 0 then Inl Panicked
                 else Inr (word_of_int (sint BIG_STRIDE sdiv sint (task_priority (task_at k task))))) (\<lambda>step.
          Inr (upd_task task (\<lambda>c. c\<lparr>task_status := RunningTask, task_stride := task_stride c + step\<rparr>)
                (k\<lparr>k_manager := tm, k_proc := \<lparr>proc_current = Some task\<rparr>\<rparr>)))
      | None \<Rightarrow> Inl Panicked)"

text \<open>The continuation is what the process does after \<^verbatim>\<open>schedule\<close> returns.\<close>

definition suspend_current_and_run_next :: "kcont \<Rightarrow> 'd kernel \<Rightarrow> 'd kernel res" where
  "suspend_current_and_run_next cont k =
     rbind (take_current_task k) (\<lambda>(task, k1).
     run_next (add_task task (upd_task task (\<lambda>c. c\<lparr>task_status := Ready, tcb_cont := cont\<rparr>) k1)))"

section \<open>Making processes\<close>

definition new_task :: "tcb \<Rightarrow> 'd kernel \<Rightarrow> nat \<times> 'd kernel" where
  "new_task tcb k = (length (k_tasks k), k\<lparr>k_tasks := k_tasks k @ [tcb]\<rparr>)"

definition trap_cx_frame :: "memory_set \<Rightarrow> machine \<Rightarrow> phys_page_num res" where
  "trap_cx_frame ms m =
     rbind (vpn_of_va (VirtAddr TRAP_CONTEXT)) (\<lambda>vpn.
     rbind (unwrapE (ms_translate ms m vpn)) (\<lambda>pte. Inr (pte_ppn pte)))"

text \<open>
  An identifier and a kernel stack with the context to start from: what \<^verbatim>\<open>new\<close> and \<^verbatim>\<open>fork\<close>
  both do. Returns the identifier, the top of the stack and the address of the task context.
\<close>

definition alloc_kernel_stack :: "platform \<Rightarrow> 'd kernel \<Rightarrow> ((usize \<times> usize \<times> usize) \<times> 'd kernel) res" where
  "alloc_kernel_stack pf k =
     (let (pid_handle, pids) = pid_alloc (k_pids k) in
      rbind (kernel_stack_new pid_handle (k_space k, k_mach k)) (\<lambda>(ks, m1).
      (let kernel_stack_top = kernel_stack_get_top pid_handle in
       rbind (push_on_top pid_handle (task_cx_enc (goto_trap_return (pf_trap_return pf))) (ks, m1)) (\<lambda>(task_cx_ptr, m2).
       Inr ((pid_handle, kernel_stack_top, task_cx_ptr), k\<lparr>k_pids := pids, k_space := ks, k_mach := m2\<rparr>)))))"

definition tcb_new :: "platform \<Rightarrow> u8 list \<Rightarrow> 'd kernel \<Rightarrow> (nat \<times> 'd kernel) res" where
  "tcb_new pf elf_data k =
     rbind (from_elf (pf_syms pf) (pf_elf_new pf) elf_data (k_mach k)) (\<lambda>((memory_set, user_sp, entry_point), m1).
     rbind (trap_cx_frame memory_set m1) (\<lambda>ppn.
     rbind (alloc_kernel_stack pf (k\<lparr>k_mach := m1\<rparr>)) (\<lambda>((pid_handle, kernel_stack_top, cx_ptr), k2).
     (let (t, k3) = new_task
            \<lparr>tcb_pid = pid_handle, strong_count = 1, task_cx_ptr = cx_ptr, task_status = Ready, task_stride = 0,
             task_priority = TASK_INIT_PRIORITY, tcb_memory_set = memory_set, trap_cx_ppn = ppn, base_size = user_sp,
             tcb_parent = None, children = [], exit_code = 0,
             fd_table = [Some Stdin, Some Stdout, Some Stdout], tcb_mail_box = mail_box_new, tcb_cont = TrapReturn\<rparr> k2
      in Inr (t, k3\<lparr>k_mach := set_trap_cx ppn
           (app_init_context (pf_sstatus_user pf) entry_point user_sp (ms_token (k_space k3)) kernel_stack_top (pf_trap_handler pf))
           (k_mach k3)\<rparr>)))))"

text \<open>Writing through a reference to an object in physical memory.\<close>

fun phys_store :: "usize \<Rightarrow> u8 list \<Rightarrow> machine \<Rightarrow> machine" where
  "phys_store pa [] m = m"
| "phys_store pa (b # bs) m = phys_store (pa + 1) bs (ptr_write (phys_ptr (PhysAddr pa)) b m)"

definition user_store :: "usize \<Rightarrow> usize \<Rightarrow> u8 list \<Rightarrow> machine \<Rightarrow> machine res" where
  "user_store token ptr bs m = rbind (translated_refmut token ptr m) (\<lambda>pa. Inr (phys_store (pa_val pa) bs m))"

text \<open>A string holds Latin-1 characters; its bytes are their UTF-8 encoding.\<close>

definition as_bytes :: "u8 list \<Rightarrow> u8 list" where
  "as_bytes cs = concat (map (\<lambda>c. if c < 128 then [c] else [0xC0 OR drop_bit 6 c, 0x80 OR (c AND 0x3F)]) cs)"

fun argv_refs :: "usize \<Rightarrow> usize \<Rightarrow> nat list \<Rightarrow> machine \<Rightarrow> usize list res" where
  "argv_refs token argv_base [] m = Inr []"
| "argv_refs token argv_base (arg # args) m =
     rbind (translated_refmut token (argv_base + word_of_nat arg * 8) m) (\<lambda>pa.
     rbind (argv_refs token argv_base args m) (\<lambda>pas. Inr (pa_val pa # pas)))"

fun push_string :: "usize \<Rightarrow> usize \<Rightarrow> u8 list \<Rightarrow> machine \<Rightarrow> machine res" where
  "push_string token p [] m = user_store token p [0] m"
| "push_string token p (c # cs) m = rbind (user_store token p [c] m) (push_string token (p + 1) cs)"

fun push_args :: "usize \<Rightarrow> usize list \<Rightarrow> u8 list list \<Rightarrow> usize \<Rightarrow> machine \<Rightarrow> (usize \<times> machine) res" where
  "push_args token (ref # argv) (arg # args) user_sp m =
     (let user_sp' = user_sp - word_of_nat (length (as_bytes arg) + 1) in
      rbind (push_string token user_sp' (as_bytes arg) (phys_store ref (le_enc 8 user_sp') m)) (\<lambda>m'.
      push_args token argv args user_sp' m'))"
| "push_args token argv args user_sp m = Inr (user_sp, m)"

text \<open>The addresses of the arguments and then the arguments themselves go to the user stack.\<close>

definition push_argv :: "usize \<Rightarrow> usize \<Rightarrow> u8 list list \<Rightarrow> machine \<Rightarrow> (usize \<times> usize \<times> machine) res" where
  "push_argv token user_sp0 args m1 =
     (let argv_base = user_sp0 - word_of_nat ((length args + 1) * 8) in
      rbind (argv_refs token argv_base [0..<length args + 1] m1) (\<lambda>argv.
      (let m2 = phys_store (argv ! length args) (le_enc 8 (0 :: usize)) m1 in
       rbind (push_args token argv args argv_base m2) (\<lambda>(user_sp, m3).
       Inr (argv_base, user_sp - user_sp mod 8, m3)))))"

definition task_exec :: "platform \<Rightarrow> nat \<Rightarrow> u8 list \<Rightarrow> u8 list list \<Rightarrow> 'd kernel \<Rightarrow> 'd kernel res" where
  "task_exec pf t elf_data args k =
     rbind (from_elf (pf_syms pf) (pf_elf_new pf) elf_data (k_mach k)) (\<lambda>((memory_set, user_sp0, entry_point), m1).
     rbind (trap_cx_frame memory_set m1) (\<lambda>ppn.
     rbind (push_argv (ms_token memory_set) user_sp0 args m1) (\<lambda>(argv_base, user_sp, m2).
     rbind (drop_memory_set (tcb_memory_set (task_at k t)) m2) (\<lambda>m3.
     (let cx = app_init_context (pf_sstatus_user pf) entry_point user_sp (ms_token (k_space k))
                 (kernel_stack_get_top (tcb_pid (task_at k t))) (pf_trap_handler pf);
          cx' = cx\<lparr>tc_x := (tc_x cx)[10 := word_of_nat (length args), 11 := argv_base]\<rparr> in
      Inr (upd_task t (\<lambda>c. c\<lparr>tcb_memory_set := memory_set, trap_cx_ppn := ppn\<rparr>)
            (k\<lparr>k_mach := set_trap_cx ppn cx' m3\<rparr>)))))))"

definition task_fork :: "platform \<Rightarrow> nat \<Rightarrow> 'd kernel \<Rightarrow> (nat option \<times> 'd kernel) res" where
  "task_fork pf t k =
     rbind (from_existed_user (pf_syms pf) (tcb_memory_set (task_at k t)) (k_mach k)) (\<lambda>(r, m1).
     case r of
       None \<Rightarrow> Inr (None, k\<lparr>k_mach := m1\<rparr>)
     | Some memory_set \<Rightarrow>
         rbind (trap_cx_frame memory_set m1) (\<lambda>ppn.
         rbind (alloc_kernel_stack pf (k\<lparr>k_mach := m1\<rparr>)) (\<lambda>((pid_handle, kernel_stack_top, cx_ptr), k2).
         (let parent = task_at k2 t;
              (new_fd_table, pipes) = clone_fds (fd_table parent) [] (k_pipes k2);
              (c, k3) = new_task
                \<lparr>tcb_pid = pid_handle, strong_count = 2, task_cx_ptr = cx_ptr, task_status = Ready, task_stride = 0,
                 task_priority = task_priority parent, tcb_memory_set = memory_set, trap_cx_ppn = ppn,
                 base_size = base_size parent, tcb_parent = Some t, children = [], exit_code = 0,
                 fd_table = new_fd_table, tcb_mail_box = copy_mails (mb_packets (tcb_mail_box parent)) mail_box_new,
                 tcb_cont = TrapReturn\<rparr> (k2\<lparr>k_pipes := pipes\<rparr>);
              k4 = upd_task t (\<lambda>p. p\<lparr>children := children p @ [c]\<rparr>) k3
          in Inr (Some c, k4\<lparr>k_mach := modify_trap_cx ppn (\<lambda>cx. cx\<lparr>tc_kernel_sp := kernel_stack_top\<rparr>) (k_mach k4)\<rparr>)))))"

end
