(* ===== verification/Task_Ops.thy ===== *)
theory Task_Ops
  imports Task
begin

text \<open>
  The end of processes and the operations on the memory of the running process
  (\<^verbatim>\<open>os/src/task/mod.rs\<close>), and the drop of control blocks: when the last strong reference to a
  process goes, its identifier, its kernel stack, its address space, its references to its
  children and to its open files go too.
\<close>

section \<open>Dropping processes\<close>

text \<open>
  What goes with a control block. Its references to open files are dropped here and those to its
  children afterwards; the code drops the children first, and the two touch different objects.
\<close>

definition release_task :: "nat \<Rightarrow> 'd kernel \<Rightarrow> 'd kernel res" where
  "release_task t k =
     rbind (pid_dealloc (k_pids k) (tcb_pid (task_at k t))) (\<lambda>pids.
     rbind (kernel_stack_drop (tcb_pid (task_at k t)) (k_space k, k_mach k)) (\<lambda>(ks, m1).
     rbind (drop_memory_set (tcb_memory_set (task_at k t)) m1) (\<lambda>m2.
     Inr (k\<lparr>k_pids := pids, k_space := ks, k_mach := m2, k_pipes := drop_fds (fd_table (task_at k t)) (k_pipes k)\<rparr>))))"

text \<open>
  Dropping references to processes. A process without strong references is released and drops
  its references to its children in turn; the number of references shrinks, so this ends.
\<close>

definition total_refs :: "'d kernel \<Rightarrow> nat" where
  "total_refs k = sum_list (map strong_count (k_tasks k))"

function drop_tasks :: "nat list \<Rightarrow> 'd kernel \<Rightarrow> 'd kernel res" where
  "drop_tasks [] k = Inr k"
| "drop_tasks (t # ts) k =
     (if t < length (k_tasks k) \<and> 0 < strong_count (task_at k t) then
        (let k1 = upd_task t (\<lambda>c. c\<lparr>strong_count := strong_count c - 1\<rparr>) k in
         if strong_count (task_at k1 t) \<noteq> 0 then drop_tasks ts k1
         else rbind (release_task t k1) (\<lambda>k2. drop_tasks (children (task_at k2 t) @ ts) k2))
      else drop_tasks ts k)"
  by pat_completeness auto

lemma release_task_tasks: "release_task t k = Inr k' \<Longrightarrow> k_tasks k' = k_tasks k"
  by (auto simp: release_task_def elim!: rbind_InrE)

lemma total_refs_drop:
  assumes "t < length (k_tasks k)" and "0 < strong_count (task_at k t)"
  shows "total_refs (upd_task t (\<lambda>c. c\<lparr>strong_count := strong_count c - 1\<rparr>) k) < total_refs k"
proof -
  have "k_tasks k = take t (k_tasks k) @ k_tasks k ! t # drop (Suc t) (k_tasks k)"
    by (simp add: id_take_nth_drop assms(1))
  then have "total_refs k = sum_list (map strong_count (take t (k_tasks k))) + strong_count (task_at k t)
      + sum_list (map strong_count (drop (Suc t) (k_tasks k)))"
    unfolding total_refs_def task_at_def by (metis (no_types) add.assoc list.map(2) map_append sum_list.Cons sum_list.append)
  moreover have "total_refs (upd_task t (\<lambda>c. c\<lparr>strong_count := strong_count c - 1\<rparr>) k)
      = sum_list (map strong_count (take t (k_tasks k))) + (strong_count (task_at k t) - 1)
      + sum_list (map strong_count (drop (Suc t) (k_tasks k)))"
    by (simp add: total_refs_def upd_task_def task_at_def upd_conv_take_nth_drop assms(1))
  ultimately show ?thesis using assms(2) by simp
qed

termination drop_tasks
proof (relation "measures [\<lambda>(ts, k). total_refs k, \<lambda>(ts, k). length ts]", goal_cases)
  case (3 t ts k k1 k2)
  then have "total_refs k2 = total_refs k1" by (simp add: total_refs_def release_task_tasks)
  then show ?case using total_refs_drop [of t k] 3 by auto
qed (use total_refs_drop in auto)

declare drop_tasks.simps [simp del]

section \<open>Leaving the processor for good\<close>

text \<open>The children go to the initial process, which gets references to them.\<close>

fun adopt :: "nat \<Rightarrow> nat list \<Rightarrow> 'd kernel \<Rightarrow> 'd kernel" where
  "adopt initproc [] k = k"
| "adopt initproc (c # cs) k =
     adopt initproc cs
       (upd_task initproc (\<lambda>i. i\<lparr>children := children i @ [c]\<rparr>)
         (upd_task c (\<lambda>i. i\<lparr>tcb_parent := Some initproc, strong_count := strong_count i + 1\<rparr>) k))"

definition exit_current :: "i32 \<Rightarrow> 'd kernel \<Rightarrow> 'd kernel res" where
  "exit_current code k =
     rbind (take_current_task k) (\<lambda>(task, k1).
     (let k2 = upd_task task (\<lambda>c. c\<lparr>task_status := Zombie, exit_code := code\<rparr>) k1;
          cs = children (task_at k2 task);
          k3 = (if tcb_pid (task_at k2 task) \<noteq> tcb_pid (task_at k2 (k_initproc k2)) then adopt (k_initproc k2) cs k2 else k2);
          k4 = upd_task task (\<lambda>c. c\<lparr>children := []\<rparr>) k3 in
      rbind (drop_tasks cs k4) (\<lambda>k5.
      rbind (recycle_data_pages (tcb_memory_set (task_at k5 task), k_mach k5)) (\<lambda>(ms, m).
      drop_tasks [task] (upd_task task (\<lambda>c. c\<lparr>tcb_memory_set := ms\<rparr>) (k5\<lparr>k_mach := m\<rparr>))))))"

definition exit_current_and_run_next :: "i32 \<Rightarrow> 'd kernel \<Rightarrow> 'd kernel res" where
  "exit_current_and_run_next code k = rbind (exit_current code k) run_next"

section \<open>Memory of the running process\<close>

definition port_to_permission :: "usize \<Rightarrow> map_permission" where
  "port_to_permission port =
     (let p0 = PERM_U;
          p1 = (if port AND 1 \<noteq> 0 then p0 OR PERM_R else p0);
          p2 = (if port AND 2 \<noteq> 0 then p1 OR PERM_W else p1)
      in if port AND 4 \<noteq> 0 then p2 OR PERM_X else p2)"

definition map_virtual_pages :: "usize \<Rightarrow> usize \<Rightarrow> usize \<Rightarrow> 'd kernel \<Rightarrow> (isize \<times> 'd kernel) res" where
  "map_virtual_pages addr len port k =
     (if addr AND (PAGE_SIZE - 1) \<noteq> 0 \<or> len > 0x40000000 \<or> port AND NOT 7 \<noteq> 0 \<or> port AND 7 = 0 then Inr (- 1, k)
      else if len = 0 then Inr (0, k)
      else if usable_frames (k_mach k) < len div 4096 + 100 + tcb_frames_used (task_at k (k_initproc k)) then Inr (- 1, k)
      else
        rbind (current_task k) (\<lambda>task.
        (let ms = tcb_memory_set (task_at k task); map_perm = port_to_permission port in
         rbind (map_area_new (VirtAddr addr) (VirtAddr (addr + len)) Framed map_perm) (\<lambda>map_area.
         (let vpn_range = vpn_range_of map_area in
          if list_ex (ms_have_mapped ms) (vpn_range_items vpn_range) then Inr (- 1, k)
          else
            (let va_start = va_of_vpn (range_l vpn_range); va_end = va_of_vpn (range_r vpn_range) in
             rbind (ms_push map_area None (ms, k_mach k)) (\<lambda>(succ, ms', m').
             (let k' = upd_task task (\<lambda>c. c\<lparr>tcb_memory_set := ms'\<rparr>) (k\<lparr>k_mach := m'\<rparr>) in
              if succ < 0 then Inr (- 1, k') else Inr (va_val va_end - va_val va_start, k')))))))))"

definition unmap_virtual_pages :: "usize \<Rightarrow> usize \<Rightarrow> 'd kernel \<Rightarrow> (isize \<times> 'd kernel) res" where
  "unmap_virtual_pages addr len k =
     (if addr AND (PAGE_SIZE - 1) \<noteq> 0 \<or> len > 0x40000000 then Inr (- 1, k)
      else if len = 0 then Inr (0, k)
      else
        rbind (current_task k) (\<lambda>task.
        (let ms = tcb_memory_set (task_at k task); start_va = VirtAddr addr; end_va = VirtAddr (addr + len) in
         rbind (vpn_range_new (va_floor start_va) (va_ceil end_va)) (\<lambda>vpn_range.
         (let va_start = va_of_vpn (range_l vpn_range); va_end = va_of_vpn (range_r vpn_range) in
          if list_ex (\<lambda>vpn. \<not> ms_have_mapped ms vpn) (vpn_range_items vpn_range) then Inr (- 1, k)
          else
            rbind (ms_unmap vpn_range (ms, k_mach k)) (\<lambda>(ms', m').
            Inr (va_val va_end - va_val va_start, upd_task task (\<lambda>c. c\<lparr>tcb_memory_set := ms'\<rparr>) (k\<lparr>k_mach := m'\<rparr>))))))))"

section \<open>The initial process\<close>

definition initproc_new :: "'d block_dev \<Rightarrow> platform \<Rightarrow> 'd kernel \<Rightarrow> 'd kernel run" where
  "initproc_new D pf k =
     kbind (Some (open_file D (map (\<lambda>c. word_of_nat (of_char c)) ''initproc'') RDONLY (k_fs k))) (\<lambda>(r, fs1).
     kbind (Some (unwrapE r)) (\<lambda>inode.
     kbind (read_all D inode fs1) (\<lambda>(v, fs2).
     Some (rbind (tcb_new pf v (k\<lparr>k_fs := fs2\<rparr>)) (\<lambda>(t, k'). Inr (k'\<lparr>k_initproc := t\<rparr>))))))"

text \<open>The queue gets a second reference.\<close>

definition add_initproc :: "'d kernel \<Rightarrow> 'd kernel" where
  "add_initproc k =
     add_task (k_initproc k) (upd_task (k_initproc k) (\<lambda>c. c\<lparr>strong_count := strong_count c + 1\<rparr>) k)"

end
