(* ===== verification/Syscall_Fs.thy ===== *)
theory Syscall_Fs
  imports Task_Ops
begin

text \<open>
  The system calls on files (\<^verbatim>\<open>os/src/syscall/fs.rs\<close>) and the standard streams
  (\<^verbatim>\<open>os/src/fs/stdio.rs\<close>). A system call returns a value to the running process, or the process
  was suspended inside the call and another process is running now. The console of the machine is
  the list of the characters it will deliver (0 when there is none) and the bytes it has printed.
\<close>

section \<open>Results of system calls\<close>

datatype 'd sysres = Return isize "'d kernel" | Switched "'d kernel"

definition ret :: "isize \<Rightarrow> 'd kernel \<Rightarrow> 'd sysres run" where
  "ret r k = kret (Return r k)"

text \<open>Giving up the processor inside a system call.\<close>

definition suspend_in :: "kcont \<Rightarrow> 'd kernel \<Rightarrow> 'd sysres run" where
  "suspend_in cont k = kbind (Some (suspend_current_and_run_next cont k)) (\<lambda>k'. kret (Switched k'))"

section \<open>Standard streams\<close>

definition console_getchar :: "'d kernel \<Rightarrow> usize \<times> 'd kernel" where
  "console_getchar k = (case k_input k of [] \<Rightarrow> (0, k) | c # cs \<Rightarrow> (c, k\<lparr>k_input := cs\<rparr>))"

definition stdin_reading :: "user_buffer \<Rightarrow> 'd kernel \<Rightarrow> 'd sysres run" where
  "stdin_reading user_buf k =
     (let (c, k1) = console_getchar k in
      if c = 0 then suspend_in (StdinReading user_buf) k1
      else
        kbind (Some (indexE user_buf 0)) (\<lambda>buffer.
        ret 1 (k1\<lparr>k_mach := ptr_write (us_ppn buffer, us_start buffer) (ucast c) (k_mach k1)\<rparr>)))"

definition stdin_read :: "user_buffer \<Rightarrow> 'd kernel \<Rightarrow> 'd sysres run" where
  "stdin_read user_buf k = kbind (Some (assertE (ub_len user_buf = 1))) (\<lambda>_. stdin_reading user_buf k)"

fun print_slices :: "user_buffer \<Rightarrow> 'd kernel \<Rightarrow> 'd kernel res" where
  "print_slices [] k = Inr k"
| "print_slices (buffer # buffers) k =
     (let bytes = ptrs_read (k_mach k) (us_ptrs buffer) in
      if utf8_ok bytes then print_slices buffers (k\<lparr>k_output := k_output k @ bytes\<rparr>) else Inl UnwrapNone)"

definition stdout_write :: "user_buffer \<Rightarrow> 'd kernel \<Rightarrow> 'd sysres run" where
  "stdout_write user_buf k =
     kbind (Some (print_slices user_buf k)) (\<lambda>k'. ret (word_of_nat (ub_len user_buf)) k')"

section \<open>Files of all kinds\<close>

definition file_readable :: "'d kernel \<Rightarrow> os_file \<Rightarrow> bool" where
  "file_readable k f =
     (case f of Stdin \<Rightarrow> True | Stdout \<Rightarrow> False | FInode i \<Rightarrow> os_readable (k_fs k) i
      | FPipe p \<Rightarrow> p_readable (fst (ph_pipes (k_pipes k) ! p)))"

definition file_writable :: "'d kernel \<Rightarrow> os_file \<Rightarrow> bool" where
  "file_writable k f =
     (case f of Stdin \<Rightarrow> False | Stdout \<Rightarrow> True | FInode i \<Rightarrow> os_writable (k_fs k) i
      | FPipe p \<Rightarrow> p_writable (fst (ph_pipes (k_pipes k) ! p)))"

definition file_nlink :: "'d kernel \<Rightarrow> os_file \<Rightarrow> nat" where
  "file_nlink k f = (case f of FInode i \<Rightarrow> os_nlink (k_fs k) i | _ \<Rightarrow> 1)"

definition file_inode_id :: "'d kernel \<Rightarrow> os_file \<Rightarrow> nat" where
  "file_inode_id k f = (case f of FInode i \<Rightarrow> os_inode_id (k_fs k) i | _ \<Rightarrow> 0)"

text \<open>The rounds of a pipe call, until it returns or the process gives up the processor.\<close>

definition finish_pipe :: "nat \<Rightarrow> nat \<Rightarrow> 'd kernel \<Rightarrow> 'd sysres run" where
  "finish_pipe self n k = ret (word_of_nat n) (k\<lparr>k_pipes := pipe_arc_drop self (k_pipes k)\<rparr>)"

partial_function (option) pipe_reading :: "nat \<Rightarrow> ub_iter \<Rightarrow> nat \<Rightarrow> 'd kernel \<Rightarrow> 'd sysres run" where
  "pipe_reading self it n k =
     kbind (Some (pipe_read_round self it n (k_pipes k) (k_mach k))) (\<lambda>(out, h, m).
     case out of
       Returned n' \<Rightarrow> finish_pipe self n' (k\<lparr>k_pipes := h, k_mach := m\<rparr>)
     | Suspended it' n' \<Rightarrow> suspend_in (PipeReading self it' n') (k\<lparr>k_pipes := h, k_mach := m\<rparr>)
     | Again it' n' \<Rightarrow> pipe_reading self it' n' (k\<lparr>k_pipes := h, k_mach := m\<rparr>))"

partial_function (option) pipe_writing :: "nat \<Rightarrow> ub_iter \<Rightarrow> nat \<Rightarrow> 'd kernel \<Rightarrow> 'd sysres run" where
  "pipe_writing self it n k =
     kbind (Some (pipe_write_round self it n (k_pipes k) (k_mach k))) (\<lambda>(out, h).
     case out of
       Returned n' \<Rightarrow> finish_pipe self n' (k\<lparr>k_pipes := h\<rparr>)
     | Suspended it' n' \<Rightarrow> suspend_in (PipeWriting self it' n') (k\<lparr>k_pipes := h\<rparr>)
     | Again it' n' \<Rightarrow> pipe_writing self it' n' (k\<lparr>k_pipes := h\<rparr>))"

text \<open>\<^verbatim>\<open>File::read\<close> and \<^verbatim>\<open>File::write\<close> on a cloned reference, which is dropped at the end.\<close>

definition file_read :: "'d block_dev \<Rightarrow> os_file \<Rightarrow> user_buffer \<Rightarrow> 'd kernel \<Rightarrow> 'd sysres run" where
  "file_read D f buf k =
     (case f of
        Stdin \<Rightarrow> stdin_read buf k
      | Stdout \<Rightarrow> Some (Inl Panicked)
      | FInode i \<Rightarrow>
          kbind (Some (os_read D i buf (k_fs k, k_mach k))) (\<lambda>(n, fs, m).
          ret (word_of_nat n) (k\<lparr>k_fs := fs, k_mach := m\<rparr>))
      | FPipe p \<Rightarrow>
          kbind (Some (pipe_read p buf (k_pipes k))) (\<lambda>_.
          pipe_reading p (ub_into_iter buf) 0 (k\<lparr>k_pipes := pipe_arc_clone p (k_pipes k)\<rparr>)))"

definition file_write :: "'d block_dev \<Rightarrow> os_file \<Rightarrow> user_buffer \<Rightarrow> 'd kernel \<Rightarrow> 'd sysres run" where
  "file_write D f buf k =
     (case f of
        Stdin \<Rightarrow> Some (Inl Panicked)
      | Stdout \<Rightarrow> stdout_write buf k
      | FInode i \<Rightarrow>
          kbind (Some (os_write D i (k_mach k) buf (k_fs k))) (\<lambda>(n, fs).
          ret (word_of_nat n) (k\<lparr>k_fs := fs\<rparr>))
      | FPipe p \<Rightarrow>
          kbind (Some (pipe_write p buf (k_pipes k))) (\<lambda>_.
          pipe_writing p (ub_into_iter buf) 0 (k\<lparr>k_pipes := pipe_arc_clone p (k_pipes k)\<rparr>)))"

section \<open>System calls on open files\<close>

definition sys_write :: "'d block_dev \<Rightarrow> usize \<Rightarrow> usize \<Rightarrow> usize \<Rightarrow> 'd kernel \<Rightarrow> 'd sysres run" where
  "sys_write D fd buf len k =
     kbind (Some (current_user_token k)) (\<lambda>token.
     kbind (Some (current_task k)) (\<lambda>task.
     (let table = fd_table (task_at k task) in
      if unat fd \<ge> length table then ret (- 1) k
      else case table ! unat fd of
        Some f \<Rightarrow>
          if \<not> file_writable k f then ret (- 1) k
          else
            kbind (Some (virtual_addr_range_printable token buf len (k_mach k))) (\<lambda>(printable, start_pa, end_pa).
            if \<not> printable then ret (- 1) k
            else
              kbind (translated_byte_buffer token buf len (k_mach k)) (\<lambda>buffers.
              file_write D f buffers k))
      | None \<Rightarrow> if fd = 1 \<or> fd = 2 then ret 0 k else ret (- 1) k)))"

definition sys_read :: "'d block_dev \<Rightarrow> usize \<Rightarrow> usize \<Rightarrow> usize \<Rightarrow> 'd kernel \<Rightarrow> 'd sysres run" where
  "sys_read D fd buf len k =
     kbind (Some (current_user_token k)) (\<lambda>token.
     kbind (Some (current_task k)) (\<lambda>task.
     (let table = fd_table (task_at k task) in
      if unat fd \<ge> length table then ret (- 1) k
      else if virtual_addr_range_writable token buf len (k_mach k) then
        (case table ! unat fd of
           Some f \<Rightarrow>
             if \<not> file_readable k f then ret (- 1) k
             else
               kbind (translated_byte_buffer token buf len (k_mach k)) (\<lambda>buffers.
               file_read D f buffers k)
         | None \<Rightarrow> ret (- 1) k)
      else ret (- 1) k)))"

definition sys_close :: "usize \<Rightarrow> 'd kernel \<Rightarrow> 'd sysres run" where
  "sys_close fd k =
     kbind (Some (current_task k)) (\<lambda>task.
     (let table = fd_table (task_at k task) in
      if unat fd \<ge> length table then ret (- 1) k
      else case table ! unat fd of
        None \<Rightarrow> ret (- 1) k
      | Some f \<Rightarrow>
          ret 0 (upd_task task (\<lambda>c. c\<lparr>fd_table := (fd_table c)[unat fd := None]\<rparr>) (k\<lparr>k_pipes := drop_file f (k_pipes k)\<rparr>))))"

text \<open>Putting a file under the first free descriptor.\<close>

definition install_fd :: "nat \<Rightarrow> os_file \<Rightarrow> 'd kernel \<Rightarrow> nat \<times> 'd kernel" where
  "install_fd task f k =
     (let (fd, tcb) = alloc_fd (task_at k task) in
      (fd, upd_task task (\<lambda>_. tcb\<lparr>fd_table := (fd_table tcb)[fd := Some f]\<rparr>) k))"

definition sys_dup :: "usize \<Rightarrow> 'd kernel \<Rightarrow> 'd sysres run" where
  "sys_dup fd k =
     kbind (Some (current_task k)) (\<lambda>task.
     (let table = fd_table (task_at k task) in
      if unat fd \<ge> length table then ret (- 1) k
      else case table ! unat fd of
        None \<Rightarrow> ret (- 1) k
      | Some f \<Rightarrow>
          (let (new_fd, k1) = install_fd task f k in
           ret (word_of_nat new_fd) (k1\<lparr>k_pipes := clone_file f (k_pipes k1)\<rparr>))))"

definition sys_pipe :: "usize \<Rightarrow> 'd kernel \<Rightarrow> 'd sysres run" where
  "sys_pipe pipe k =
     kbind (Some (current_task k)) (\<lambda>task.
     kbind (Some (current_user_token k)) (\<lambda>token.
     if \<not> virtual_addr_writable token pipe (k_mach k) then ret (- 1) k
     else
       (let ((pipe_read, pipe_write), h) = make_pipe (k_pipes k);
            (read_fd, k1) = install_fd task (FPipe pipe_read) (k\<lparr>k_pipes := h\<rparr>);
            (write_fd, k2) = install_fd task (FPipe pipe_write) k1 in
        kbind (Some (user_store token pipe (le_enc 8 (word_of_nat read_fd :: usize)) (k_mach k2))) (\<lambda>m1.
        kbind (Some (user_store token (pipe + 8) (le_enc 8 (word_of_nat write_fd :: usize)) m1)) (\<lambda>m2.
        ret 0 (k2\<lparr>k_mach := m2\<rparr>))))))"

section \<open>System calls on names\<close>

definition valid_file_name :: "u8 list \<Rightarrow> bool" where
  "valid_file_name path \<longleftrightarrow>
     (if length path = 0 then False
      else if (path ! 0 \<ge> 32 \<and> path ! 0 \<le> 47) \<or> path ! 0 > 122 then False
      else list_all (\<lambda>ch. \<not> (ch < 32 \<or> ch > 126 \<or> ch = 47 \<or> ch = 92)) path)"

definition user_str :: "usize \<Rightarrow> usize \<Rightarrow> machine \<Rightarrow> u8 list run" where
  "user_str token ptr m = kbind (translated_str token ptr m) (\<lambda>cs. kret (as_bytes cs))"

definition sys_openat :: "'d block_dev \<Rightarrow> usize \<Rightarrow> u32 \<Rightarrow> 'd kernel \<Rightarrow> 'd sysres run" where
  "sys_openat D path flags k =
     kbind (Some (current_task k)) (\<lambda>task.
     kbind (Some (current_user_token k)) (\<lambda>token.
     kbind (Some (virtual_addr_printable token path (k_mach k))) (\<lambda>(readable, _).
     if readable then
       kbind (user_str token path (k_mach k)) (\<lambda>name.
       if \<not> valid_file_name name then ret (- 1) k
       else
         kbind (Some (unwrapE (open_flags_from_bits flags))) (\<lambda>fl.
         kbind (Some (open_file D name fl (k_fs k))) (\<lambda>(r, fs).
         case r of
           Some inode \<Rightarrow>
             (let (fd, k1) = install_fd task (FInode inode) (k\<lparr>k_fs := fs\<rparr>) in ret (word_of_nat fd) k1)
         | None \<Rightarrow> ret (- 1) (k\<lparr>k_fs := fs\<rparr>))))
     else ret (- 1) k)))"

definition sys_linkat :: "usize \<Rightarrow> usize \<Rightarrow> 'd kernel \<Rightarrow> 'd sysres run" where
  "sys_linkat oldpath newpath k =
     kbind (Some (current_user_token k)) (\<lambda>token.
     kbind (Some (virtual_addr_printable token oldpath (k_mach k))) (\<lambda>(old_path_readable, _).
     kbind (Some (virtual_addr_printable token newpath (k_mach k))) (\<lambda>(new_path_readable, _).
     if old_path_readable \<and> new_path_readable then
       kbind (user_str token newpath (k_mach k)) (\<lambda>new_path.
       kbind (user_str token oldpath (k_mach k)) (\<lambda>old_path.
       if \<not> valid_file_name new_path \<or> \<not> valid_file_name old_path then ret (- 1) k
       else (let (r, fs) = link old_path new_path (k_fs k) in ret (word_of_int r) (k\<lparr>k_fs := fs\<rparr>))))
     else ret (- 1) k)))"

definition sys_unlinkat :: "usize \<Rightarrow> 'd kernel \<Rightarrow> 'd sysres run" where
  "sys_unlinkat path k =
     kbind (Some (current_user_token k)) (\<lambda>token.
     kbind (Some (virtual_addr_printable token path (k_mach k))) (\<lambda>(path_readable, _).
     if path_readable then
       kbind (user_str token path (k_mach k)) (\<lambda>path_str.
       if \<not> valid_file_name path_str then ret (- 1) k
       else (let (r, fs) = unlink path_str (k_fs k) in ret (word_of_int r) (k\<lparr>k_fs := fs\<rparr>)))
     else ret (- 1) k))"

text \<open>The fields of \<^verbatim>\<open>Stat\<close> that are written: \<^verbatim>\<open>ino\<close> at 8, \<^verbatim>\<open>mode\<close> at 16, \<^verbatim>\<open>nlink\<close> at 20.\<close>

definition STAT_FILE :: u32 where "STAT_FILE = 0x8000"

definition sys_fstat :: "usize \<Rightarrow> usize \<Rightarrow> 'd kernel \<Rightarrow> 'd sysres run" where
  "sys_fstat fd st k =
     kbind (Some (current_user_token k)) (\<lambda>token.
     if \<not> virtual_addr_writable token st (k_mach k) then ret (- 1) k
     else
       kbind (Some (current_task k)) (\<lambda>task.
       (let table = fd_table (task_at k task) in
        if unat fd \<ge> length table then ret (- 1) k
        else case table ! unat fd of
          Some f \<Rightarrow>
            kbind (Some (translated_virtual_ptr token st (k_mach k))) (\<lambda>pa.
            ret 0 (if pa = 0 then k
              else k\<lparr>k_mach :=
                phys_store (pa + 20) (le_enc 4 (word_of_nat (file_nlink k f) :: u32))
                 (phys_store (pa + 16) (le_enc 4 STAT_FILE)
                  (phys_store (pa + 8) (le_enc 8 (word_of_nat (file_inode_id k f) :: u64)) (k_mach k)))\<rparr>))
        | None \<Rightarrow> ret (- 1) k)))"

section \<open>Mail\<close>

definition sys_mail_read :: "usize \<Rightarrow> usize \<Rightarrow> 'd kernel \<Rightarrow> 'd sysres run" where
  "sys_mail_read buffer len k =
     kbind (Some (current_user_token k)) (\<lambda>token.
     kbind (Some (virtual_addr_range_printable token buffer len (k_mach k))) (\<lambda>(printable, _, _).
     if \<not> printable then ret (- 1) k
     else
       kbind (Some (current_task k)) (\<lambda>task.
       kbind (translated_byte_buffer token buffer len (k_mach k)) (\<lambda>buf.
       kbind (Some (mail_box_read buf (tcb_mail_box (task_at k task)) (k_mach k))) (\<lambda>(r, mb, m).
       ret (word_of_int r) (upd_task task (\<lambda>c. c\<lparr>tcb_mail_box := mb\<rparr>) (k\<lparr>k_mach := m\<rparr>)))))))"

definition sys_mail_write :: "usize \<Rightarrow> usize \<Rightarrow> usize \<Rightarrow> 'd kernel \<Rightarrow> 'd sysres run" where
  "sys_mail_write pid buffer len k =
     kbind (Some (current_user_token k)) (\<lambda>token.
     if \<not> virtual_addr_range_writable token buffer len (k_mach k) then ret (- 1) k
     else
       kbind (translated_byte_buffer token buffer len (k_mach k)) (\<lambda>buf.
       kbind (Some (current_task_id k)) (\<lambda>current_id.
       if pid \<noteq> current_id then kbind (Some (set_task_mail pid buf k)) (\<lambda>(r, k'). ret r k')
       else
         kbind (Some (current_task k)) (\<lambda>task.
         kbind (Some (mail_box_write buf (k_mach k) (tcb_mail_box (task_at k task)))) (\<lambda>(r, mb).
         ret (word_of_int r) (upd_task task (\<lambda>c. c\<lparr>tcb_mail_box := mb\<rparr>) k))))))"

end
