(* ===== verification/Syscall_Process.thy ===== *)
theory Syscall_Process
  imports Syscall_Fs
begin

text \<open>
  The system calls on processes (\<^verbatim>\<open>os/src/syscall/process.rs\<close>), the clock
  (\<^verbatim>\<open>os/src/timer.rs\<close>), and the dispatch of system calls (\<^verbatim>\<open>os/src/syscall/mod.rs\<close>).
\<close>

section \<open>The clock\<close>

definition CLOCK_FREQ :: usize where "CLOCK_FREQ = 12500000"
definition TICKS_PER_SEC :: usize where "TICKS_PER_SEC = 100"
definition MSEC_PER_SEC :: usize where "MSEC_PER_SEC = 1000"
definition USEC_PER_SEC :: usize where "USEC_PER_SEC = 1000000"

text \<open>Each reading of the clock gives its next value.\<close>

definition get_time :: "platform \<Rightarrow> 'd kernel \<Rightarrow> usize \<times> 'd kernel" where
  "get_time pf k = (pf_clock pf (k_reads k), k\<lparr>k_reads := k_reads k + 1\<rparr>)"

definition get_time_ms :: "platform \<Rightarrow> 'd kernel \<Rightarrow> usize \<times> 'd kernel" where
  "get_time_ms pf k = (let (t, k') = get_time pf k in (t div (CLOCK_FREQ div MSEC_PER_SEC), k'))"

definition ticks_to_us :: "usize \<Rightarrow> usize" where
  "ticks_to_us t = t * 2 div 25"

definition get_time_us :: "platform \<Rightarrow> 'd kernel \<Rightarrow> usize \<times> 'd kernel" where
  "get_time_us pf k = (let (t, k') = get_time pf k in (ticks_to_us t, k'))"

text \<open>\<^verbatim>\<open>TimeVal\<close>: the seconds at 0 and the microseconds at 8. The clock is read once for each.\<close>

definition get_time_sys :: "platform \<Rightarrow> usize \<Rightarrow> 'd kernel \<Rightarrow> (isize \<times> 'd kernel) res" where
  "get_time_sys pf ts k =
     rbind (current_user_token k) (\<lambda>token.
     rbind (translated_virtual_ptr token ts (k_mach k)) (\<lambda>pa_ts.
     if pa_ts = 0 then Inr (- 1, k)
     else
       (let (us1, k1) = get_time_us pf k;
            m1 = phys_store (pa_ts + 8) (le_enc 8 (us1 mod USEC_PER_SEC)) (k_mach k1);
            (us2, k2) = get_time_us pf k1;
            m2 = phys_store pa_ts (le_enc 8 (us2 div USEC_PER_SEC)) m1
        in Inr (0, k2\<lparr>k_mach := m2\<rparr>))))"

definition set_next_trigger :: "platform \<Rightarrow> 'd kernel \<Rightarrow> 'd kernel" where
  "set_next_trigger pf k = (let (t, k') = get_time pf k in k'\<lparr>k_timer := t + CLOCK_FREQ div TICKS_PER_SEC\<rparr>)"

section \<open>System calls\<close>

definition lift_sys :: "(isize \<times> 'd kernel) res \<Rightarrow> 'd sysres run" where
  "lift_sys r = kbind (Some r) (\<lambda>(v, k). ret v k)"

definition sys_exit :: "i32 \<Rightarrow> 'd kernel \<Rightarrow> 'd sysres run" where
  "sys_exit code k = kbind (Some (exit_current_and_run_next code k)) (\<lambda>k'. kret (Switched k'))"

definition sys_yield :: "'d kernel \<Rightarrow> 'd sysres run" where
  "sys_yield k = suspend_in YieldReturn k"

definition sys_get_time :: "platform \<Rightarrow> usize \<Rightarrow> 'd kernel \<Rightarrow> 'd sysres run" where
  "sys_get_time pf ts k = lift_sys (get_time_sys pf ts k)"

definition sys_set_priority :: "isize \<Rightarrow> 'd kernel \<Rightarrow> 'd sysres run" where
  "sys_set_priority priority k = lift_sys (set_task_priority priority k)"

definition sys_mmap :: "usize \<Rightarrow> usize \<Rightarrow> usize \<Rightarrow> 'd kernel \<Rightarrow> 'd sysres run" where
  "sys_mmap start len port k = lift_sys (map_virtual_pages start len port k)"

definition sys_munmap :: "usize \<Rightarrow> usize \<Rightarrow> 'd kernel \<Rightarrow> 'd sysres run" where
  "sys_munmap start len k = lift_sys (unmap_virtual_pages start len k)"

definition sys_getpid :: "'d kernel \<Rightarrow> 'd sysres run" where
  "sys_getpid k = kbind (Some (current_task k)) (\<lambda>t. ret (tcb_pid (task_at k t)) k)"

text \<open>
  When memory is short, \<^verbatim>\<open>sys_fork\<close> exits while it holds a reference to the process, which is
  never dropped.
\<close>

definition fork_room :: "nat \<Rightarrow> 'd kernel \<Rightarrow> bool" where
  "fork_room t k \<longleftrightarrow>
     \<not> usable_frames (k_mach k) < tcb_frames_used (task_at k t) + 100 + tcb_frames_used (task_at k (k_initproc k))"

definition set_a0 :: "nat \<Rightarrow> usize \<Rightarrow> 'd kernel \<Rightarrow> 'd kernel" where
  "set_a0 t v k =
     k\<lparr>k_mach := modify_trap_cx (trap_cx_ppn (task_at k t)) (\<lambda>cx. cx\<lparr>tc_x := (tc_x cx)[10 := v]\<rparr>) (k_mach k)\<rparr>"

definition sys_fork :: "platform \<Rightarrow> 'd kernel \<Rightarrow> 'd sysres run" where
  "sys_fork pf k =
     kbind (Some (current_task k)) (\<lambda>t.
     if \<not> fork_room t k then
       kbind (Some (exit_current_and_run_next (- 1) (upd_task t (\<lambda>c. c\<lparr>strong_count := strong_count c + 1\<rparr>) k))) (\<lambda>k'.
       kret (Switched k'))
     else
       kbind (Some (task_fork pf t k)) (\<lambda>(r, k1).
       case r of
         Some c \<Rightarrow> ret (tcb_pid (task_at k1 c)) (add_task c (set_a0 c 0 k1))
       | None \<Rightarrow> ret (- 1) k1))"

text \<open>The arguments of \<^verbatim>\<open>exec\<close>: pointers to strings up to a null pointer.\<close>

fun phys_load :: "usize \<Rightarrow> nat \<Rightarrow> machine \<Rightarrow> u8 list" where
  "phys_load pa 0 m = []"
| "phys_load pa (Suc n) m = ptr_read m (phys_ptr (PhysAddr pa)) # phys_load (pa + 1) n m"

partial_function (option) exec_args :: "usize \<Rightarrow> usize \<Rightarrow> machine \<Rightarrow> u8 list list \<Rightarrow> u8 list list run" where
  "exec_args token args m args_vec =
     kbind (Some (translated_ref token args m)) (\<lambda>pa.
     (let arg_str_ptr = le_dec (phys_load (pa_val pa) 8 m) in
      if arg_str_ptr = 0 then kret args_vec
      else kbind (translated_str token arg_str_ptr m) (\<lambda>s. exec_args token (args + 8) m (args_vec @ [s]))))"

definition sys_exec :: "'d block_dev \<Rightarrow> platform \<Rightarrow> usize \<Rightarrow> usize \<Rightarrow> 'd kernel \<Rightarrow> 'd sysres run" where
  "sys_exec D pf path args k =
     kbind (Some (current_user_token k)) (\<lambda>token.
     kbind (user_str token path (k_mach k)) (\<lambda>name.
     kbind (exec_args token args (k_mach k) []) (\<lambda>args_vec.
     kbind (Some (open_file D name RDONLY (k_fs k))) (\<lambda>(r, fs1).
     case r of
       Some app_inode \<Rightarrow>
         kbind (read_all D app_inode fs1) (\<lambda>(all_data, fs2).
         kbind (Some (current_task k)) (\<lambda>task.
         kbind (Some (task_exec pf task all_data args_vec (k\<lparr>k_fs := fs2\<rparr>))) (\<lambda>k'.
         ret (word_of_nat (length args_vec)) k')))
     | None \<Rightarrow> ret (- 1) (k\<lparr>k_fs := fs1\<rparr>)))))"

definition sys_spawn :: "'d block_dev \<Rightarrow> platform \<Rightarrow> usize \<Rightarrow> 'd kernel \<Rightarrow> 'd sysres run" where
  "sys_spawn D pf path k =
     kbind (Some (current_user_token k)) (\<lambda>token.
     kbind (user_str token path (k_mach k)) (\<lambda>name.
     kbind (Some (open_file D name RDONLY (k_fs k))) (\<lambda>(r, fs1).
     case r of
       Some app_inode \<Rightarrow>
         kbind (read_all D app_inode fs1) (\<lambda>(all_data, fs2).
         kbind (Some (current_task k)) (\<lambda>t.
         kbind (Some (task_fork pf t (k\<lparr>k_fs := fs2\<rparr>))) (\<lambda>(r, k1).
         case r of
           Some c \<Rightarrow>
             kbind (Some (task_exec pf c all_data [] (set_a0 c 0 k1))) (\<lambda>k2.
             ret (tcb_pid (task_at k2 c)) (add_task c k2))
         | None \<Rightarrow> ret (- 1) k1)))
     | None \<Rightarrow> ret (- 1) (k\<lparr>k_fs := fs1\<rparr>))))"

section \<open>Waiting for children\<close>

definition pid_matches :: "isize \<Rightarrow> 'd kernel \<Rightarrow> nat \<Rightarrow> bool" where
  "pid_matches pid k p \<longleftrightarrow> pid = - 1 \<or> pid = 0 \<or> pid = tcb_pid (task_at k p)"

definition remove_nth :: "nat \<Rightarrow> 'a list \<Rightarrow> 'a list" where
  "remove_nth i xs = take i xs @ drop (i + 1) xs"

text \<open>Taking the child at position \<open>idx\<close> off the list, storing its exit code, and dropping it.\<close>

definition reap :: "(nat \<Rightarrow> bool) \<Rightarrow> nat \<Rightarrow> nat \<Rightarrow> usize \<Rightarrow> 'd kernel \<Rightarrow> (isize \<times> 'd kernel) res" where
  "reap count_ok task idx exit_code_ptr k =
     (let child = children (task_at k task) ! idx;
          k1 = upd_task task (\<lambda>c. c\<lparr>children := remove_nth idx (children c)\<rparr>) k in
      rbind (assertE (count_ok (strong_count (task_at k1 child)))) (\<lambda>_.
      (let found_pid = tcb_pid (task_at k1 child); code = exit_code (task_at k1 child);
           token = get_user_token (task_at k1 task) in
       if virtual_addr_writable token exit_code_ptr (k_mach k1) then
         rbind (user_store token exit_code_ptr (le_enc 4 code) (k_mach k1)) (\<lambda>m.
         rbind (drop_tasks [child] (k1\<lparr>k_mach := m\<rparr>)) (\<lambda>k2. Inr (found_pid, k2)))
       else rbind (drop_tasks [child] k1) (\<lambda>k2. Inr (- 1, k2)))))"

definition find_zombie :: "isize \<Rightarrow> nat \<Rightarrow> 'd kernel \<Rightarrow> nat option" where
  "find_zombie pid task k =
     (let cs = children (task_at k task) in
      find (\<lambda>i. is_zombie (task_at k (cs ! i)) \<and> pid_matches pid k (cs ! i)) [0..<length cs])"

definition sys_waitpid_non_blocking :: "isize \<Rightarrow> usize \<Rightarrow> 'd kernel \<Rightarrow> 'd sysres run" where
  "sys_waitpid_non_blocking pid exit_code_ptr k =
     kbind (Some (current_task k)) (\<lambda>task.
     if find (pid_matches pid k) (children (task_at k task)) = None then ret (- 1) k
     else case find_zombie pid task k of
       Some idx \<Rightarrow> lift_sys (reap (\<lambda>n. n = 1 \<or> n = 2) task idx exit_code_ptr k)
     | None \<Rightarrow> ret (- 2) k)"

definition waitpid_waiting :: "isize \<Rightarrow> usize \<Rightarrow> 'd kernel \<Rightarrow> 'd sysres run" where
  "waitpid_waiting pid exit_code_ptr k =
     kbind (Some (current_task k)) (\<lambda>task.
     case find_zombie pid task k of
       Some idx \<Rightarrow> lift_sys (reap (\<lambda>n. n = 1) task idx exit_code_ptr k)
     | None \<Rightarrow> suspend_in (ChildWaiting pid exit_code_ptr) k)"

definition sys_waitpid_blocking :: "isize \<Rightarrow> usize \<Rightarrow> 'd kernel \<Rightarrow> 'd sysres run" where
  "sys_waitpid_blocking pid exit_code_ptr k =
     kbind (Some (current_task k)) (\<lambda>task.
     if find (pid_matches pid k) (children (task_at k task)) = None then ret (- 1) k
     else waitpid_waiting pid exit_code_ptr k)"

section \<open>Dispatch\<close>

definition syscall :: "'d block_dev \<Rightarrow> platform \<Rightarrow> usize \<Rightarrow> usize list \<Rightarrow> 'd kernel \<Rightarrow> 'd sysres run" where
  "syscall D pf syscall_id args k =
     (if syscall_id = 63 then sys_read D (args ! 0) (args ! 1) (args ! 2) k
      else if syscall_id = 64 then sys_write D (args ! 0) (args ! 1) (args ! 2) k
      else if syscall_id = 93 then sys_exit (ucast (args ! 0)) k
      else if syscall_id = 124 then sys_yield k
      else if syscall_id = 169 then sys_get_time pf (args ! 0) k
      else if syscall_id = 140 then sys_set_priority (args ! 0) k
      else if syscall_id = 222 then sys_mmap (args ! 0) (args ! 1) (args ! 2) k
      else if syscall_id = 215 then sys_munmap (args ! 0) (args ! 1) k
      else if syscall_id = 172 then sys_getpid k
      else if syscall_id = 220 then sys_fork pf k
      else if syscall_id = 221 then sys_exec D pf (args ! 0) (args ! 1) k
      else if syscall_id = 260 then sys_waitpid_non_blocking (args ! 0) (args ! 1) k
      else if syscall_id = 400 then sys_spawn D pf (args ! 0) k
      else if syscall_id = 57 then sys_close (args ! 0) k
      else if syscall_id = 59 then sys_pipe (args ! 0) k
      else if syscall_id = 401 then sys_mail_read (args ! 0) (args ! 1) k
      else if syscall_id = 402 then sys_mail_write (args ! 0) (args ! 1) (args ! 2) k
      else if syscall_id = 24 then sys_dup (args ! 0) k
      else if syscall_id = 56 then sys_openat D (args ! 1) (ucast (args ! 2)) k
      else if syscall_id = 37 then sys_linkat (args ! 1) (args ! 3) k
      else if syscall_id = 35 then sys_unlinkat (args ! 1) k
      else if syscall_id = 80 then sys_fstat (args ! 0) (args ! 1) k
      else Some (Inl Panicked))"

end
