(* ===== verification/Trap.thy ===== *)
theory Trap
  imports Syscall_Process
begin

text \<open>
  Traps (\<^verbatim>\<open>os/src/trap/mod.rs\<close>): what the kernel does when the running process makes a system
  call, causes a fault or is interrupted by the timer, and how it goes on with a process it had
  suspended. Between two traps the process runs in user mode.
\<close>

datatype trap_cause =
    UserEnvCall
  | StoreFault | StorePageFault
  | LoadFault | LoadPageFault
  | InstructionFault | InstructionPageFault
  | IllegalInstruction
  | SupervisorTimer
  | OtherTrap

text \<open>The result of a system call goes to register a0 of the process, if it is still running.\<close>

definition deliver :: "'d sysres \<Rightarrow> 'd kernel res" where
  "deliver r = (case r of Return v k \<Rightarrow> rbind (current_task k) (\<lambda>t. Inr (set_a0 t v k)) | Switched k \<Rightarrow> Inr k)"

definition trap_handler :: "'d block_dev \<Rightarrow> platform \<Rightarrow> trap_cause \<Rightarrow> 'd kernel \<Rightarrow> 'd kernel run" where
  "trap_handler D pf cause k =
     (case cause of
        UserEnvCall \<Rightarrow>
          kbind (Some (current_task k)) (\<lambda>t.
          (let ppn = trap_cx_ppn (task_at k t);
               k1 = k\<lparr>k_mach := modify_trap_cx ppn (\<lambda>cx. cx\<lparr>tc_sepc := tc_sepc cx + 4\<rparr>) (k_mach k)\<rparr>;
               x = tc_x (trap_cx_at (k_mach k1) ppn) in
           kbind (syscall D pf (x ! 17) [x ! 10, x ! 11, x ! 12, x ! 13, x ! 14] k1) (\<lambda>r. Some (deliver r))))
      | StoreFault \<Rightarrow> Some (exit_current_and_run_next (- 2) k)
      | StorePageFault \<Rightarrow> Some (exit_current_and_run_next (- 2) k)
      | LoadFault \<Rightarrow> Some (exit_current_and_run_next (- 2) k)
      | LoadPageFault \<Rightarrow> Some (exit_current_and_run_next (- 2) k)
      | InstructionFault \<Rightarrow> Some (exit_current_and_run_next (- 2) k)
      | InstructionPageFault \<Rightarrow> Some (exit_current_and_run_next (- 2) k)
      | IllegalInstruction \<Rightarrow> Some (exit_current_and_run_next (- 3) k)
      | SupervisorTimer \<Rightarrow> Some (suspend_current_and_run_next TrapReturn (set_next_trigger pf k))
      | OtherTrap \<Rightarrow> Some (Inl Panicked))"

text \<open>The jump back to user mode: the address of \<^verbatim>\<open>__restore\<close> in the trampoline, and its two arguments.\<close>

definition trap_return :: "platform \<Rightarrow> 'd kernel \<Rightarrow> (usize \<times> usize \<times> usize) res" where
  "trap_return pf k =
     rbind (current_user_token k) (\<lambda>user_satp.
     Inr (pf_restore pf - pf_alltraps pf + TRAMPOLINE, TRAP_CONTEXT, user_satp))"

text \<open>
  What the process that was just switched to does in the kernel. In the end it returns to user
  mode, or it gives up the processor again.
\<close>

definition resume_task :: "kcont \<Rightarrow> 'd kernel \<Rightarrow> 'd kernel run" where
  "resume_task cont k =
     (case cont of
        TrapReturn \<Rightarrow> kret k
      | YieldReturn \<Rightarrow> Some (deliver (Return 0 k))
      | PipeReading self it n \<Rightarrow> kbind (pipe_reading self it n k) (\<lambda>r. Some (deliver r))
      | PipeWriting self it n \<Rightarrow> kbind (pipe_writing self it n k) (\<lambda>r. Some (deliver r))
      | StdinReading buf \<Rightarrow> kbind (stdin_reading buf k) (\<lambda>r. Some (deliver r))
      | ChildWaiting pid ptr \<Rightarrow> kbind (waitpid_waiting pid ptr k) (\<lambda>r. Some (deliver r)))"

definition run_current :: "'d kernel \<Rightarrow> 'd kernel run" where
  "run_current k = kbind (Some (current_task k)) (\<lambda>t. resume_task (tcb_cont (task_at k t)) k)"

end
