(* ===== verification/Scheduler.thy ===== *)
theory Scheduler
  imports Trap
begin

text \<open>
  Where processes are. Every process is in exactly one place: the running one is the current one
  of the processor, the ready ones are in the queue, each once, and the exited ones are in
  neither. All operations of the kernel keep this, whatever the processes do; suspending never
  fails, and the processes take turns.
\<close>

section \<open>The invariant\<close>

abbreviation ready :: "'d kernel \<Rightarrow> nat list" where "ready k \<equiv> ready_queue (k_manager k)"
abbreviation current :: "'d kernel \<Rightarrow> nat option" where "current k \<equiv> proc_current (k_proc k)"

definition prio_ok :: "tcb \<Rightarrow> bool" where
  "prio_ok c \<longleftrightarrow> 1 < sint (task_priority c)"

definition placed :: "'d kernel \<Rightarrow> bool" where
  "placed k \<longleftrightarrow> k_initproc k < length (k_tasks k) \<and> distinct (ready k) \<and> set (ready k) \<subseteq> {..<length (k_tasks k)}
     \<and> (\<forall>t. current k = Some t \<longrightarrow> t < length (k_tasks k))
     \<and> (\<forall>t < length (k_tasks k). prio_ok (task_at k t)
          \<and> (task_status (task_at k t) = Ready \<longleftrightarrow> t \<in> set (ready k))
          \<and> (task_status (task_at k t) = RunningTask \<longleftrightarrow> current k = Some t))"

definition sched_inv :: "'d kernel \<Rightarrow> bool" where
  "sched_inv k \<longleftrightarrow> placed k \<and> current k \<noteq> None"

section \<open>Operations that move no process\<close>

definition quiet :: "'d kernel \<Rightarrow> 'd kernel \<Rightarrow> bool" where
  "quiet k k' \<longleftrightarrow> k_manager k' = k_manager k \<and> k_proc k' = k_proc k \<and> k_initproc k' = k_initproc k
     \<and> length (k_tasks k') = length (k_tasks k)
     \<and> (\<forall>t < length (k_tasks k). task_status (task_at k' t) = task_status (task_at k t)
          \<and> (prio_ok (task_at k t) \<longrightarrow> prio_ok (task_at k' t)))"

lemma quiet_refl [intro, simp]: "quiet k k"
  by (simp add: quiet_def)

lemma quiet_trans: "quiet k k1 \<Longrightarrow> quiet k1 k2 \<Longrightarrow> quiet k k2"
  by (simp add: quiet_def)

lemma quiet_fields [simp]:
  "quiet k (k1\<lparr>k_mach := m\<rparr>) = quiet k k1"
  "quiet k (k1\<lparr>k_fs := fs\<rparr>) = quiet k k1"
  "quiet k (k1\<lparr>k_pipes := h\<rparr>) = quiet k k1"
  "quiet k (k1\<lparr>k_pids := p\<rparr>) = quiet k k1"
  "quiet k (k1\<lparr>k_space := s\<rparr>) = quiet k k1"
  "quiet k (k1\<lparr>k_input := i\<rparr>) = quiet k k1"
  "quiet k (k1\<lparr>k_output := out\<rparr>) = quiet k k1"
  "quiet k (k1\<lparr>k_reads := r\<rparr>) = quiet k k1"
  "quiet k (k1\<lparr>k_timer := tm\<rparr>) = quiet k k1"
  by (simp_all add: quiet_def task_at_def)

lemma quiet_fields_left [simp]:
  "quiet (k\<lparr>k_mach := m\<rparr>) k' = quiet k k'" "quiet (k\<lparr>k_fs := fs\<rparr>) k' = quiet k k'"
  "quiet (k\<lparr>k_pipes := h\<rparr>) k' = quiet k k'"
  by (simp_all add: quiet_def task_at_def)

lemma task_at_upd: "task_at (upd_task t f k) u = (if u = t \<and> t < length (k_tasks k) then f (task_at k t) else task_at k u)"
  by (cases "t < length (k_tasks k)") (simp_all add: task_at_def upd_task_def nth_list_update list_update_beyond)

lemma upd_task_simps [simp]:
  "k_manager (upd_task t f k) = k_manager k" "k_proc (upd_task t f k) = k_proc k" "k_initproc (upd_task t f k) = k_initproc k"
  "length (k_tasks (upd_task t f k)) = length (k_tasks k)" "k_mach (upd_task t f k) = k_mach k"
  "k_pipes (upd_task t f k) = k_pipes k" "k_fs (upd_task t f k) = k_fs k" "k_pids (upd_task t f k) = k_pids k"
  "k_space (upd_task t f k) = k_space k"
  by (simp_all add: upd_task_def)

lemma task_at_fields [simp]:
  "task_at (k\<lparr>k_mach := m\<rparr>) t = task_at k t" "task_at (k\<lparr>k_fs := fs\<rparr>) t = task_at k t"
  "task_at (k\<lparr>k_pipes := h\<rparr>) t = task_at k t" "task_at (k\<lparr>k_pids := p\<rparr>) t = task_at k t"
  "task_at (k\<lparr>k_space := s\<rparr>) t = task_at k t" "task_at (k\<lparr>k_proc := pr\<rparr>) t = task_at k t"
  "task_at (k\<lparr>k_manager := mg\<rparr>) t = task_at k t" "task_at (add_task u k) t = task_at k t"
  by (simp_all add: task_at_def add_task_def)

lemma quiet_upd [intro]:
  assumes "quiet k k1" and "\<And>c. task_status (f c) = task_status c" and "\<And>c. prio_ok c \<Longrightarrow> prio_ok (f c)"
  shows "quiet k (upd_task t f k1)"
  using assms by (auto simp: quiet_def task_at_upd)

lemma prio_ok_fields [simp]:
  "prio_ok (c\<lparr>tcb_memory_set := ms\<rparr>) = prio_ok c" "prio_ok (c\<lparr>fd_table := fds\<rparr>) = prio_ok c"
  "prio_ok (c\<lparr>tcb_mail_box := mb\<rparr>) = prio_ok c" "prio_ok (c\<lparr>children := cs\<rparr>) = prio_ok c"
  "prio_ok (c\<lparr>strong_count := n\<rparr>) = prio_ok c" "prio_ok (c\<lparr>trap_cx_ppn := p\<rparr>) = prio_ok c"
  "prio_ok (c\<lparr>tcb_parent := q\<rparr>) = prio_ok c" "prio_ok (c\<lparr>task_status := s\<rparr>) = prio_ok c"
  "prio_ok (c\<lparr>exit_code := e\<rparr>) = prio_ok c" "prio_ok (c\<lparr>tcb_cont := kc\<rparr>) = prio_ok c"
  "prio_ok (c\<lparr>task_stride := st\<rparr>) = prio_ok c"
  by (simp_all add: prio_ok_def)

lemma quiet_upd_iff:
  assumes "\<And>c. task_status (f c) = task_status c" and "\<And>c. prio_ok (f c) = prio_ok c"
  shows "quiet k (upd_task t f k1) = quiet k k1"
proof -
  have "task_status (task_at (upd_task t f k1) u) = task_status (task_at k1 u)" "prio_ok (task_at (upd_task t f k1) u) = prio_ok (task_at k1 u)" for u
    using assms by (simp_all add: task_at_upd)
  then show ?thesis by (simp add: quiet_def)
qed

lemma quiet_upd_fields [simp]:
  "quiet k (upd_task t (tcb_memory_set_update g) k1) = quiet k k1"
  "quiet k (upd_task t (fd_table_update g2) k1) = quiet k k1"
  "quiet k (upd_task t (tcb_mail_box_update g3) k1) = quiet k k1"
  "quiet k (upd_task t (children_update g4) k1) = quiet k k1"
  "quiet k (upd_task t (strong_count_update g5) k1) = quiet k k1"
  by (rule quiet_upd_iff; simp add: prio_ok_def)+

lemma quiet_placed: "quiet k k' \<Longrightarrow> placed k \<Longrightarrow> placed k'"
  by (auto simp: quiet_def placed_def)

lemma quiet_sched_inv: "quiet k k' \<Longrightarrow> sched_inv k \<Longrightarrow> sched_inv k'"
  using quiet_placed by (auto simp: sched_inv_def quiet_def)

lemma quietD: "quiet k k' \<Longrightarrow> ready k' = ready k \<and> current k' = current k \<and> k_initproc k' = k_initproc k"
  by (simp add: quiet_def)

lemma release_task_quiet: "release_task t k = Inr k' \<Longrightarrow> quiet k k'"
  by (auto simp: release_task_def elim!: rbind_InrE)

lemma drop_tasks_quiet: "drop_tasks ts k = Inr k' \<Longrightarrow> quiet k k'"
proof (induction ts k arbitrary: k' rule: drop_tasks.induct)
  case (2 t ts k)
  let ?k1 = "upd_task t (\<lambda>c. c\<lparr>strong_count := strong_count c - 1\<rparr>) k"
  have q1: "quiet k ?k1" by (rule quiet_upd) auto
  show ?case
  proof (cases "t < length (k_tasks k) \<and> 0 < strong_count (task_at k t)")
    case True
    show ?thesis
    proof (cases "strong_count (task_at ?k1 t) \<noteq> 0")
      case False
      with 2(4) True obtain k2 where k2: "release_task t ?k1 = Inr k2" "drop_tasks (children (task_at k2 t) @ ts) k2 = Inr k'"
        by (auto simp: drop_tasks.simps Let_def elim!: rbind_InrE)
      with 2(2) True False have "quiet k2 k'" by auto
      then show ?thesis using quiet_trans [OF q1 quiet_trans [OF release_task_quiet [OF k2(1)]]] by blast
    qed (use 2 True q1 in \<open>auto simp: drop_tasks.simps Let_def intro: quiet_trans\<close>)
  qed (use 2 in \<open>auto simp: drop_tasks.simps\<close>)
qed (simp add: drop_tasks.simps)

lemma adopt_quiet: "quiet k (adopt i cs k)"
proof (induction cs arbitrary: k)
  case (Cons c cs)
  let ?k = "upd_task i (\<lambda>i. i\<lparr>children := children i @ [c]\<rparr>)
    (upd_task c (\<lambda>j. j\<lparr>tcb_parent := Some i, strong_count := strong_count j + 1\<rparr>) k)"
  have "quiet k ?k" by (intro quiet_upd) auto
  then show ?case using Cons.IH [of ?k] by (auto intro: quiet_trans)
qed simp

section \<open>Operations that move processes\<close>

interpretation rq: fifo_queue tm_add tm_fetch "\<lambda>_. True" "\<lambda>_. True" ready_queue
  by unfold_locales (auto simp: tm_add_def tm_fetch_def)

text \<open>With no current process, the first of the queue becomes the current one.\<close>

lemma run_next_ok:
  assumes p: "placed k" and cur: "current k = None" and q: "ready k = t # ts"
  obtains k' where "run_next k = Inr k'" and "placed k'" and "current k' = Some t" and "ready k' = ts"
    and "\<And>u. tcb_cont (task_at k' u) = tcb_cont (task_at k u)"
proof -
  obtain tm where tm: "tm_fetch (k_manager k) = Some (t, tm)" "ready_queue tm = ts"
    using rq.get_first [OF TrueI q] by blast
  let ?pr = "task_priority (task_at k t)"
  let ?f = "\<lambda>c. c\<lparr>task_status := RunningTask, task_stride := task_stride c + word_of_int (sint BIG_STRIDE sdiv sint ?pr)\<rparr>"
  let ?k' = "upd_task t ?f (k\<lparr>k_manager := tm, k_proc := \<lparr>proc_current = Some t\<rparr>\<rparr>)"
  have t: "t < length (k_tasks k)" "prio_ok (task_at k t)" using p q by (auto simp: placed_def)
  then have "?pr \<noteq> 0" by (auto simp: prio_ok_def)
  then have r: "run_next k = Inr ?k'" using tm by (simp add: run_next_def)
  have "t \<notin> set ts" "distinct ts" using p q by (auto simp: placed_def)
  then have "placed ?k'" using p q cur t tm(2) by (auto simp: placed_def task_at_upd)
  then show thesis using r tm(2) by (intro that [of ?k']) (simp_all add: task_at_upd)
qed

lemma placed_leave:
  assumes p: "placed k" and cur: "current k = Some t" and "s \<noteq> RunningTask"
    and f: "\<And>c. task_status (f c) = s" "\<And>c. prio_ok c \<Longrightarrow> prio_ok (f c)"
    and q: "q = (if s = Ready then ready k @ [t] else ready k)"
  shows "placed (upd_task t f (k\<lparr>k_manager := (k_manager k)\<lparr>ready_queue := q\<rparr>, k_proc := \<lparr>proc_current = None\<rparr>\<rparr>))"
proof -
  have t: "t < length (k_tasks k)" "t \<notin> set (ready k)" using p cur by (auto simp: placed_def)
  show ?thesis
  proof (cases "s = Ready")
    case True
    then show ?thesis using p cur t f by (auto simp: placed_def task_at_upd q)
  next
    case False
    then have "s = Zombie" using assms(3) by (cases s) auto
    then show ?thesis using p cur t f by (auto simp: placed_def task_at_upd q)
  qed
qed

text \<open>Suspending puts the current process at the end of the queue.\<close>

lemma suspend_ok:
  assumes p: "placed k" and cur: "current k = Some t" and q: "ready k @ [t] = u # us"
  obtains k' where "suspend_current_and_run_next cont k = Inr k'" and "placed k'" and "current k' = Some u" and "ready k' = us"
    and "tcb_cont (task_at k' t) = cont" and "\<And>v. v \<noteq> t \<Longrightarrow> tcb_cont (task_at k' v) = tcb_cont (task_at k v)"
proof -
  let ?f = "\<lambda>c. c\<lparr>task_status := Ready, tcb_cont := cont\<rparr>"
  let ?k1 = "upd_task t ?f (k\<lparr>k_manager := (k_manager k)\<lparr>ready_queue := ready k @ [t]\<rparr>, k_proc := \<lparr>proc_current = None\<rparr>\<rparr>)"
  have t: "t < length (k_tasks k)" using p cur by (auto simp: placed_def)
  have pl: "placed ?k1" by (rule placed_leave [OF p cur, of Ready]) auto
  have e: "suspend_current_and_run_next cont k = run_next ?k1"
    using cur by (cases k) (simp add: suspend_current_and_run_next_def take_current_task_def current_task_def unwrapE_def
      add_task_def tm_add_def upd_task_def)
  have "current ?k1 = None" "ready ?k1 = u # us" using q by simp_all
  from run_next_ok [OF pl this] obtain k' where
    "run_next ?k1 = Inr k'" "placed k'" "current k' = Some u" "ready k' = us" "\<And>u. tcb_cont (task_at k' u) = tcb_cont (task_at ?k1 u)"
    by blast
  then show thesis using t e by (intro that [of k']) (simp_all add: task_at_upd)
qed

lemma suspend_sched_inv:
  assumes "sched_inv k"
  shows "\<exists>k'. suspend_current_and_run_next cont k = Inr k' \<and> sched_inv k'"
proof -
  obtain t where t: "placed k" "current k = Some t" using assms by (auto simp: sched_inv_def)
  obtain u us where "ready k @ [t] = u # us" by (cases "ready k") auto
  then show ?thesis by (rule suspend_ok [OF t, of u us cont]) (auto simp: sched_inv_def)
qed

text \<open>Exiting takes the current process away.\<close>

lemma exit_current_placed:
  assumes p: "placed k" and cur: "current k = Some t" and e: "exit_current code k = Inr k'"
  shows "placed k' \<and> current k' = None \<and> ready k' = ready k"
proof -
  let ?f = "\<lambda>c. c\<lparr>task_status := Zombie, exit_code := code\<rparr>"
  let ?k2 = "upd_task t ?f (k\<lparr>k_proc := \<lparr>proc_current = None\<rparr>\<rparr>)"
  have pl: "placed ?k2" using placed_leave [OF p cur, of Zombie ?f "ready k"] by simp
  let ?cs = "children (task_at ?k2 t)"
  let ?k3 = "if tcb_pid (task_at ?k2 t) \<noteq> tcb_pid (task_at ?k2 (k_initproc ?k2)) then adopt (k_initproc ?k2) ?cs ?k2 else ?k2"
  let ?k4 = "upd_task t (\<lambda>c. c\<lparr>children := []\<rparr>) ?k3"
  have q4: "quiet ?k2 ?k4" by (rule quiet_upd) (auto intro: adopt_quiet)
  from e cur obtain k5 ms m where k5: "drop_tasks ?cs ?k4 = Inr k5"
    and k': "drop_tasks [t] (upd_task t (\<lambda>c. c\<lparr>tcb_memory_set := ms\<rparr>) (k5\<lparr>k_mach := m\<rparr>)) = Inr k'"
    unfolding exit_current_def take_current_task_def current_task_def unwrapE_def Let_def
    by (auto elim!: rbind_InrE)
  have "quiet k5 (upd_task t (\<lambda>c. c\<lparr>tcb_memory_set := ms\<rparr>) (k5\<lparr>k_mach := m\<rparr>))" by (rule quiet_upd) auto
  then have "quiet ?k2 k'"
    using quiet_trans [OF q4 quiet_trans [OF drop_tasks_quiet [OF k5]]] quiet_trans drop_tasks_quiet [OF k'] by blast
  then show ?thesis using quiet_placed [OF _ pl] quietD by fastforce
qed

lemma exit_sched_inv:
  assumes "sched_inv k" and "exit_current_and_run_next code k = Inr k'"
  shows "sched_inv k'"
proof -
  obtain t where t: "placed k" "current k = Some t" using assms by (auto simp: sched_inv_def)
  from assms(2) obtain k1 where e: "exit_current code k = Inr k1" and r: "run_next k1 = Inr k'"
    by (auto simp: exit_current_and_run_next_def elim!: rbind_InrE)
  have k1: "placed k1" "current k1 = None" using exit_current_placed [OF t e] by auto
  show ?thesis
  proof (cases "ready k1")
    case Nil
    then show ?thesis using r by (simp add: run_next_def tm_fetch_def)
  next
    case (Cons u us)
    show ?thesis by (rule run_next_ok [OF k1 Cons]) (use r in \<open>auto simp: sched_inv_def\<close>)
  qed
qed

section \<open>System calls\<close>

definition sys_inv :: "'d sysres \<Rightarrow> bool" where
  "sys_inv r = (case r of Return v k \<Rightarrow> sched_inv k | Switched k \<Rightarrow> sched_inv k)"

lemma ret_inv: "ret v k' = kret r \<Longrightarrow> sched_inv k \<Longrightarrow> quiet k k' \<Longrightarrow> sys_inv r"
  by (auto simp: ret_def sys_inv_def intro: quiet_sched_inv)

lemma suspend_in_inv: "suspend_in c k' = kret r \<Longrightarrow> sched_inv k \<Longrightarrow> quiet k k' \<Longrightarrow> sys_inv r"
  using suspend_sched_inv [of k' c] quiet_sched_inv [of k k']
  by (auto simp: suspend_in_def sys_inv_def kbind_eq_ret)

lemma lift_sys_inv:
  assumes "lift_sys x = kret r" and "sched_inv k" and "\<And>v k'. x = Inr (v, k') \<Longrightarrow> quiet k k'"
  shows "sys_inv r"
  using assms by (auto simp: lift_sys_def kbind_eq_ret intro: ret_inv)

lemma print_slices_quiet: "print_slices bs k = Inr k' \<Longrightarrow> quiet k k'"
proof (induction bs arbitrary: k)
  case (Cons b bs)
  let ?k = "k\<lparr>k_output := k_output k @ ptrs_read (k_mach k) (us_ptrs b)\<rparr>"
  have "quiet ?k k'" using Cons by (auto simp: Let_def split: if_splits)
  then show ?case using quiet_trans [of k ?k k'] by simp
qed simp

lemma stdin_reading_inv: "stdin_reading buf k = kret r \<Longrightarrow> sched_inv k \<Longrightarrow> sys_inv r"
  by (cases "k_input k")
    (auto simp: stdin_reading_def console_getchar_def Let_def kbind_eq_ret split: if_splits elim!: suspend_in_inv ret_inv)

lemma pipe_reading_inv:
  assumes "pipe_reading self it n k = kret r" and "sched_inv k"
  shows "sys_inv r"
proof -
  have "\<forall>r. y = Inr r \<longrightarrow> sched_inv k \<longrightarrow> sys_inv r" if "pipe_reading self it n k = Some y" for y
  proof (rule pipe_reading.raw_induct [where P = "\<lambda>self it n k y. \<forall>r. y = Inr r \<longrightarrow> sched_inv k \<longrightarrow> sys_inv r", OF _ that], goal_cases)
    case (1 pipe_reading self it n k y)
    show ?case
    proof (intro allI impI)
      fix r assume y: "y = Inr r" and inv: "sched_inv k"
      from 1(2) [unfolded y] obtain out h m where
        o: "(case out of Returned n' \<Rightarrow> finish_pipe self n' (k\<lparr>k_pipes := h, k_mach := m\<rparr>)
          | Suspended it' n' \<Rightarrow> suspend_in (PipeReading self it' n') (k\<lparr>k_pipes := h, k_mach := m\<rparr>)
          | Again it' n' \<Rightarrow> pipe_reading self it' n' (k\<lparr>k_pipes := h, k_mach := m\<rparr>)) = kret r"
        by (auto simp: kbind_eq_ret)
      have "sched_inv (k\<lparr>k_pipes := h, k_mach := m\<rparr>)" by (rule quiet_sched_inv [OF _ inv]) simp
      with o 1(1) inv show "sys_inv r"
        by (cases out) (auto simp: finish_pipe_def elim!: suspend_in_inv ret_inv)
    qed
  qed
  then show ?thesis using assms by blast
qed

lemma pipe_writing_inv:
  assumes "pipe_writing self it n k = kret r" and "sched_inv k"
  shows "sys_inv r"
proof -
  have "\<forall>r. y = Inr r \<longrightarrow> sched_inv k \<longrightarrow> sys_inv r" if "pipe_writing self it n k = Some y" for y
  proof (rule pipe_writing.raw_induct [where P = "\<lambda>self it n k y. \<forall>r. y = Inr r \<longrightarrow> sched_inv k \<longrightarrow> sys_inv r", OF _ that], goal_cases)
    case (1 pipe_writing self it n k y)
    show ?case
    proof (intro allI impI)
      fix r assume y: "y = Inr r" and inv: "sched_inv k"
      from 1(2) [unfolded y] obtain out h where
        o: "(case out of Returned n' \<Rightarrow> finish_pipe self n' (k\<lparr>k_pipes := h\<rparr>)
          | Suspended it' n' \<Rightarrow> suspend_in (PipeWriting self it' n') (k\<lparr>k_pipes := h\<rparr>)
          | Again it' n' \<Rightarrow> pipe_writing self it' n' (k\<lparr>k_pipes := h\<rparr>)) = kret r"
        by (auto simp: kbind_eq_ret)
      have "sched_inv (k\<lparr>k_pipes := h\<rparr>)" by (rule quiet_sched_inv [OF _ inv]) simp
      with o 1(1) inv show "sys_inv r"
        by (cases out) (auto simp: finish_pipe_def elim!: suspend_in_inv ret_inv)
    qed
  qed
  then show ?thesis using assms by blast
qed

lemma file_read_inv:
  assumes "file_read D f buf k = kret r" and inv: "sched_inv k"
  shows "sys_inv r"
proof -
  have q: "sched_inv (k\<lparr>k_pipes := h\<rparr>)" for h by (rule quiet_sched_inv [OF _ inv]) simp
  show ?thesis
    using assms pipe_reading_inv [OF _ q]
    by (cases f) (auto simp: file_read_def kbind_eq_ret stdin_read_def elim!: ret_inv stdin_reading_inv)
qed

lemma file_write_inv:
  assumes "file_write D f buf k = kret r" and inv: "sched_inv k"
  shows "sys_inv r"
proof -
  have q: "sched_inv (k\<lparr>k_pipes := h\<rparr>)" for h by (rule quiet_sched_inv [OF _ inv]) simp
  show ?thesis
    using assms pipe_writing_inv [OF _ q] print_slices_quiet
    by (cases f) (auto simp: file_write_def kbind_eq_ret stdout_write_def elim!: ret_inv)
qed

lemma sys_write_inv: "sys_write D fd buf len k = kret r \<Longrightarrow> sched_inv k \<Longrightarrow> sys_inv r"
  by (auto simp: sys_write_def Let_def kbind_eq_ret split: if_splits option.splits elim!: ret_inv file_write_inv)

lemma sys_read_inv: "sys_read D fd buf len k = kret r \<Longrightarrow> sched_inv k \<Longrightarrow> sys_inv r"
  by (auto simp: sys_read_def Let_def kbind_eq_ret split: if_splits option.splits elim!: ret_inv file_read_inv)

lemma install_fd_quiet:
  assumes "install_fd t f k = (fd, k')"
  shows "quiet k k'"
proof -
  obtain fd' c where c: "alloc_fd (task_at k t) = (fd', c)" by fastforce
  then have s: "task_status c = task_status (task_at k t)" "task_priority c = task_priority (task_at k t)"
    by (auto simp: alloc_fd_def Let_def split: option.splits)
  show ?thesis using assms c s by (auto simp: install_fd_def quiet_def task_at_upd prio_ok_def)
qed

lemma install_fd_quiet_trans: "quiet k k1 \<Longrightarrow> quiet k (snd (install_fd t f k1))"
  using quiet_trans install_fd_quiet by (metis prod.collapse)

lemma sys_close_inv: "sys_close fd k = kret r \<Longrightarrow> sched_inv k \<Longrightarrow> sys_inv r"
  by (auto simp: sys_close_def Let_def kbind_eq_ret split: if_splits option.splits elim!: ret_inv)

lemma sys_dup_inv: "sys_dup fd k = kret r \<Longrightarrow> sched_inv k \<Longrightarrow> sys_inv r"
  using install_fd_quiet
  by (fastforce simp: sys_dup_def Let_def kbind_eq_ret split: if_splits option.splits prod.splits elim!: ret_inv)

lemma sys_pipe_inv:
  assumes "sys_pipe p k = kret r" and inv: "sched_inv k"
  shows "sys_inv r"
  using assms
  by (auto simp: sys_pipe_def Let_def kbind_eq_ret split: if_splits prod.splits elim!: ret_inv
    dest!: install_fd_quiet intro: quiet_trans)

lemma sys_openat_inv: "sys_openat D path fl k = kret r \<Longrightarrow> sched_inv k \<Longrightarrow> sys_inv r"
  by (auto simp: sys_openat_def Let_def kbind_eq_ret case_prod_beta split: if_splits option.splits elim!: ret_inv
    intro!: install_fd_quiet_trans)

lemma sys_linkat_inv: "sys_linkat old new k = kret r \<Longrightarrow> sched_inv k \<Longrightarrow> sys_inv r"
  by (auto simp: sys_linkat_def Let_def kbind_eq_ret case_prod_beta split: if_splits elim!: ret_inv)

lemma sys_unlinkat_inv: "sys_unlinkat path k = kret r \<Longrightarrow> sched_inv k \<Longrightarrow> sys_inv r"
  by (auto simp: sys_unlinkat_def Let_def kbind_eq_ret case_prod_beta split: if_splits elim!: ret_inv)

lemma sys_fstat_inv: "sys_fstat fd st k = kret r \<Longrightarrow> sched_inv k \<Longrightarrow> sys_inv r"
  by (auto simp: sys_fstat_def Let_def kbind_eq_ret split: if_splits option.splits elim!: ret_inv)

lemma sys_mail_read_inv: "sys_mail_read buf len k = kret r \<Longrightarrow> sched_inv k \<Longrightarrow> sys_inv r"
  by (auto simp: sys_mail_read_def kbind_eq_ret split: if_splits elim!: ret_inv)

lemma set_task_mail_quiet: "set_task_mail pid buf k = Inr (v, k') \<Longrightarrow> quiet k k'"
  by (auto simp: set_task_mail_def split: option.splits elim!: rbind_InrE)

lemma sys_mail_write_inv: "sys_mail_write pid buf len k = kret r \<Longrightarrow> sched_inv k \<Longrightarrow> sys_inv r"
  by (auto simp: sys_mail_write_def kbind_eq_ret split: if_splits elim!: ret_inv dest!: set_task_mail_quiet)

lemma map_virtual_pages_quiet: "map_virtual_pages addr len port k = Inr (v, k') \<Longrightarrow> quiet k k'"
  by (auto simp: map_virtual_pages_def Let_def split: if_splits elim!: rbind_InrE)

lemma unmap_virtual_pages_quiet: "unmap_virtual_pages addr len k = Inr (v, k') \<Longrightarrow> quiet k k'"
  by (auto simp: unmap_virtual_pages_def Let_def split: if_splits elim!: rbind_InrE)

lemma set_task_priority_quiet:
  assumes "set_task_priority pr k = Inr (v, k')"
  shows "quiet k k'"
proof -
  obtain t where "k' = upd_task t (\<lambda>c. snd (set_priority pr c)) k"
    using assms by (auto simp: set_task_priority_def elim!: rbind_InrE)
  then show ?thesis by (auto simp: set_priority_def prio_ok_def)
qed

lemma get_time_sys_quiet: "get_time_sys pf ts k = Inr (v, k') \<Longrightarrow> quiet k k'"
  by (auto simp: get_time_sys_def get_time_us_def get_time_def Let_def split: if_splits elim!: rbind_InrE)

lemma exec_quiet:
  assumes "task_exec pf t d args k = Inr k'"
  shows "quiet k k'"
proof -
  obtain m ms p where "k' = upd_task t (\<lambda>c. c\<lparr>tcb_memory_set := ms, trap_cx_ppn := p\<rparr>) (k\<lparr>k_mach := m\<rparr>)"
    using assms by (auto simp: task_exec_def Let_def elim!: rbind_InrE)
  then show ?thesis by auto
qed

lemma reap_quiet:
  assumes "reap ok task idx ptr k = Inr (v, k')"
  shows "quiet k k'"
proof -
  let ?k1 = "upd_task task (\<lambda>c. c\<lparr>children := remove_nth idx (children c)\<rparr>) k"
  have q: "quiet k ?k1" by (rule quiet_upd) auto
  obtain c m where "drop_tasks [c] (?k1\<lparr>k_mach := m\<rparr>) = Inr k' \<or> drop_tasks [c] ?k1 = Inr k'"
    using assms by (auto simp: reap_def Let_def split: if_splits elim!: rbind_InrE)
  then have "quiet ?k1 k'" using drop_tasks_quiet by fastforce
  then show ?thesis using quiet_trans [OF q] by blast
qed

lemma waitpid_inv: "sys_waitpid_non_blocking pid ptr k = kret r \<Longrightarrow> sched_inv k \<Longrightarrow> sys_inv r"
  by (auto simp: sys_waitpid_non_blocking_def kbind_eq_ret split: if_splits option.splits
    elim!: ret_inv lift_sys_inv dest!: reap_quiet)

lemma waitpid_waiting_inv: "waitpid_waiting pid ptr k = kret r \<Longrightarrow> sched_inv k \<Longrightarrow> sys_inv r"
  by (auto simp: waitpid_waiting_def kbind_eq_ret split: option.splits
    elim!: suspend_in_inv lift_sys_inv dest!: reap_quiet)

text \<open>A fork adds one process, which goes to the queue.\<close>

lemma alloc_kernel_stack_quiet: "alloc_kernel_stack pf k = Inr (v, k') \<Longrightarrow> quiet k k' \<and> k_tasks k' = k_tasks k"
  by (auto simp: alloc_kernel_stack_def Let_def split: prod.splits elim!: rbind_InrE)

definition one_more :: "nat \<Rightarrow> 'd kernel \<Rightarrow> 'd kernel \<Rightarrow> bool" where
  "one_more c k k' \<longleftrightarrow> k_manager k' = k_manager k \<and> k_proc k' = k_proc k \<and> k_initproc k' = k_initproc k
     \<and> c = length (k_tasks k) \<and> length (k_tasks k') = Suc c
     \<and> (\<forall>t < c. task_status (task_at k' t) = task_status (task_at k t) \<and> (prio_ok (task_at k t) \<longrightarrow> prio_ok (task_at k' t)))
     \<and> task_status (task_at k' c) = Ready \<and> ((\<forall>t < c. prio_ok (task_at k t)) \<longrightarrow> prio_ok (task_at k' c))"

lemma one_more_quiet: "one_more c k k1 \<Longrightarrow> quiet k1 k2 \<Longrightarrow> one_more c k k2"
  by (auto simp: one_more_def quiet_def)

lemma one_more_add:
  assumes "sched_inv k" and "one_more c k k'"
  shows "sched_inv (add_task c k')"
  using assms
  by (auto simp: sched_inv_def placed_def one_more_def add_task_def tm_add_def task_at_def less_Suc_eq)

text \<open>What \<open>task_fork\<close> did when it made a process.\<close>

lemma task_forkE:
  assumes "task_fork pf t k = Inr (Some c, k')"
  obtains ms m1 ppn pid top cx k2 where
    "from_existed_user (pf_syms pf) (tcb_memory_set (task_at k t)) (k_mach k) = Inr (Some ms, m1)"
    and "trap_cx_frame ms m1 = Inr ppn" and "alloc_kernel_stack pf (k\<lparr>k_mach := m1\<rparr>) = Inr ((pid, top, cx), k2)"
    and "c = length (k_tasks k2)"
    and "k' = (upd_task t (\<lambda>p. p\<lparr>children := children p @ [c]\<rparr>)
      (k2\<lparr>k_pipes := snd (clone_fds (fd_table (task_at k2 t)) [] (k_pipes k2)),
          k_tasks := k_tasks k2 @ [\<lparr>tcb_pid = pid, strong_count = 2, task_cx_ptr = cx, task_status = Ready, task_stride = 0,
            task_priority = task_priority (task_at k2 t), tcb_memory_set = ms, trap_cx_ppn = ppn,
            base_size = base_size (task_at k2 t), tcb_parent = Some t, children = [], exit_code = 0,
            fd_table = fst (clone_fds (fd_table (task_at k2 t)) [] (k_pipes k2)),
            tcb_mail_box = copy_mails (mb_packets (tcb_mail_box (task_at k2 t))) mail_box_new, tcb_cont = TrapReturn\<rparr>]\<rparr>))
      \<lparr>k_mach := modify_trap_cx ppn (\<lambda>cx. cx\<lparr>tc_kernel_sp := top\<rparr>) (k_mach k2)\<rparr>"
proof -
  from assms obtain r m1 where f: "from_existed_user (pf_syms pf) (tcb_memory_set (task_at k t)) (k_mach k) = Inr (r, m1)"
    by (auto simp: task_fork_def elim!: rbind_InrE)
  with assms obtain ms where r: "r = Some ms" by (cases r) (auto simp: task_fork_def)
  from assms f r obtain ppn pid top cx k2 where
    p: "trap_cx_frame ms m1 = Inr ppn" and al: "alloc_kernel_stack pf (k\<lparr>k_mach := m1\<rparr>) = Inr ((pid, top, cx), k2)"
    by (auto simp: task_fork_def elim!: rbind_InrE)
  show thesis
    by (rule that [OF f [unfolded r] p al])
      (use assms f r p al in \<open>auto simp: task_fork_def Let_def new_task_def case_prod_beta\<close>)
qed

lemma fork_one_more:
  assumes "task_fork pf t k = Inr (Some c, k')" and "t < length (k_tasks k)"
  shows "one_more c k k'"
  using assms(1)
proof (rule task_forkE, goal_cases)
  case (1 ms m1 ppn pid top cx k2)
  have q: "quiet k k2" "k_tasks k2 = k_tasks k" using alloc_kernel_stack_quiet [OF 1(3)] by simp_all
  show ?thesis using 1(4,5) q assms(2)
    by (auto simp: one_more_def quiet_def upd_task_def task_at_def nth_append nth_list_update prio_ok_def)
qed

lemma fork_none_quiet: "task_fork pf t k = Inr (None, k') \<Longrightarrow> quiet k k'"
  by (auto simp: task_fork_def Let_def split: option.splits prod.splits elim!: rbind_InrE)

lemma set_a0_quiet: "quiet k k1 \<Longrightarrow> quiet k (set_a0 t v k1)"
  by (simp add: set_a0_def)

lemma current_lt: "sched_inv k \<Longrightarrow> current_task k = Inr t \<Longrightarrow> t < length (k_tasks k)"
  by (auto simp: sched_inv_def placed_def current_task_def unwrapE_def)

lemma sys_fork_inv:
  assumes "sys_fork pf k = kret r" and inv: "sched_inv k"
  shows "sys_inv r"
proof -
  from assms(1) obtain t where t: "current_task k = Inr t" by (auto simp: sys_fork_def kbind_eq_ret)
  show ?thesis
  proof (cases "fork_room t k")
    case False
    let ?k = "upd_task t (\<lambda>c. c\<lparr>strong_count := strong_count c + 1\<rparr>) k"
    have "sched_inv ?k" by (rule quiet_sched_inv [OF quiet_upd inv]) auto
    then show ?thesis using assms(1) t False exit_sched_inv [of ?k "- 1"]
      by (auto simp: sys_fork_def kbind_eq_ret sys_inv_def)
  next
    case True
    with assms(1) t obtain r' k1 where f: "task_fork pf t k = Inr (r', k1)"
      and e: "(case r' of Some c \<Rightarrow> ret (tcb_pid (task_at k1 c)) (add_task c (set_a0 c 0 k1)) | None \<Rightarrow> ret (- 1) k1) = kret r"
      by (auto simp: sys_fork_def kbind_eq_ret)
    show ?thesis
    proof (cases r')
      case None
      then show ?thesis using e f fork_none_quiet inv by (auto elim!: ret_inv)
    next
      case (Some c)
      have "one_more c k (set_a0 c 0 k1)"
        using one_more_quiet [OF fork_one_more [OF f [unfolded Some] current_lt [OF inv t]]] set_a0_quiet by blast
      from one_more_add [OF inv this] e Some show ?thesis by (auto simp: ret_def sys_inv_def)
    qed
  qed
qed

lemma sys_spawn_inv:
  assumes "sys_spawn D pf path k = kret r" and inv: "sched_inv k"
  shows "sys_inv r"
proof -
  from assms(1) obtain app fs1 where
    e: "(case app of
       Some app_inode \<Rightarrow>
         kbind (read_all D app_inode fs1) (\<lambda>(all_data, fs2).
         kbind (Some (current_task k)) (\<lambda>t.
         kbind (Some (task_fork pf t (k\<lparr>k_fs := fs2\<rparr>))) (\<lambda>(r, k1).
         case r of
           Some c \<Rightarrow>
             kbind (Some (task_exec pf c all_data [] (set_a0 c 0 k1))) (\<lambda>k2.
             ret (tcb_pid (task_at k2 c)) (add_task c k2))
         | None \<Rightarrow> ret (- 1) k1)))
     | None \<Rightarrow> ret (- 1) (k\<lparr>k_fs := fs1\<rparr>)) = kret r"
    by (auto simp: sys_spawn_def kbind_eq_ret)
  show ?thesis
  proof (cases app)
    case None
    then show ?thesis using e inv by (auto elim!: ret_inv)
  next
    case (Some i)
    with e obtain d fs2 t r' k1 where t: "current_task k = Inr t" and f: "task_fork pf t (k\<lparr>k_fs := fs2\<rparr>) = Inr (r', k1)"
      and e': "(case r' of
           Some c \<Rightarrow> kbind (Some (task_exec pf c d [] (set_a0 c 0 k1))) (\<lambda>k2. ret (tcb_pid (task_at k2 c)) (add_task c k2))
         | None \<Rightarrow> ret (- 1) k1) = kret r"
      by (auto simp: kbind_eq_ret)
    have inv': "sched_inv (k\<lparr>k_fs := fs2\<rparr>)" by (rule quiet_sched_inv [OF _ inv]) simp
    have t': "t < length (k_tasks (k\<lparr>k_fs := fs2\<rparr>))" using current_lt [OF inv t] by simp
    show ?thesis
    proof (cases r')
      case None
      then show ?thesis using e' f fork_none_quiet [of pf t "k\<lparr>k_fs := fs2\<rparr>" k1] inv by (auto elim!: ret_inv)
    next
      case (Some c)
      with e' obtain k2 where x: "task_exec pf c d [] (set_a0 c 0 k1) = Inr k2" and r: "ret (tcb_pid (task_at k2 c)) (add_task c k2) = kret r"
        by (auto simp: kbind_eq_ret)
      have "one_more c (k\<lparr>k_fs := fs2\<rparr>) k2"
        using one_more_quiet [OF fork_one_more [OF f [unfolded Some] t']] quiet_trans [OF set_a0_quiet [OF quiet_refl] exec_quiet [OF x]]
        by blast
      from one_more_add [OF inv' this] r show ?thesis by (auto simp: ret_def sys_inv_def)
    qed
  qed
qed

lemma sys_exec_inv:
  "sys_exec D pf path args k = kret r \<Longrightarrow> sched_inv k \<Longrightarrow> sys_inv r"
  by (auto simp: sys_exec_def kbind_eq_ret split: option.splits elim!: ret_inv dest!: exec_quiet)

lemma sys_exit_inv: "sys_exit code k = kret r \<Longrightarrow> sched_inv k \<Longrightarrow> sys_inv r"
  using exit_sched_inv by (auto simp: sys_exit_def kbind_eq_ret sys_inv_def)

lemma sys_yield_inv: "sys_yield k = kret r \<Longrightarrow> sched_inv k \<Longrightarrow> sys_inv r"
  by (auto simp: sys_yield_def elim!: suspend_in_inv)

lemma sys_getpid_inv: "sys_getpid k = kret r \<Longrightarrow> sched_inv k \<Longrightarrow> sys_inv r"
  by (auto simp: sys_getpid_def kbind_eq_ret elim!: ret_inv)

lemma lifted_inv:
  "sys_get_time pf ts k = kret r \<Longrightarrow> sched_inv k \<Longrightarrow> sys_inv r"
  "sys_set_priority pr k = kret r \<Longrightarrow> sched_inv k \<Longrightarrow> sys_inv r"
  "sys_mmap a l port k = kret r \<Longrightarrow> sched_inv k \<Longrightarrow> sys_inv r"
  "sys_munmap a l k = kret r \<Longrightarrow> sched_inv k \<Longrightarrow> sys_inv r"
  by (auto simp: sys_get_time_def sys_set_priority_def sys_mmap_def sys_munmap_def elim!: lift_sys_inv
    dest!: get_time_sys_quiet set_task_priority_quiet map_virtual_pages_quiet unmap_virtual_pages_quiet)

lemmas sys_calls_inv =
  sys_read_inv sys_write_inv sys_exit_inv sys_yield_inv lifted_inv sys_getpid_inv sys_fork_inv sys_exec_inv
  waitpid_inv sys_spawn_inv sys_close_inv sys_pipe_inv sys_mail_read_inv sys_mail_write_inv sys_dup_inv
  sys_openat_inv sys_linkat_inv sys_unlinkat_inv sys_fstat_inv

lemma syscall_inv: "syscall D pf n args k = kret r \<Longrightarrow> sched_inv k \<Longrightarrow> sys_inv r"
  unfolding syscall_def by (simp split: if_splits) (erule (1) sys_calls_inv)+

section \<open>Steps of the kernel\<close>

text \<open>
  The kernel takes a trap of the running process, or goes on with a process it has just switched
  to; in between the process in user mode changes memory, and characters arrive at the console.
\<close>

inductive kernel_step :: "'d block_dev \<Rightarrow> platform \<Rightarrow> 'd kernel \<Rightarrow> 'd kernel \<Rightarrow> bool" for D pf where
  step_trap: "trap_handler D pf cause k = kret k' \<Longrightarrow> kernel_step D pf k k'"
| step_resume: "run_current k = kret k' \<Longrightarrow> kernel_step D pf k k'"
| step_user: "kernel_step D pf k (k\<lparr>k_mach := m\<rparr>)"
| step_console: "kernel_step D pf k (k\<lparr>k_input := k_input k @ [c]\<rparr>)"

inductive kernel_reaches :: "'d block_dev \<Rightarrow> platform \<Rightarrow> 'd kernel \<Rightarrow> 'd kernel \<Rightarrow> bool" for D pf k0 where
  reach_start: "kernel_reaches D pf k0 k0"
| reach_step: "kernel_reaches D pf k0 k \<Longrightarrow> kernel_step D pf k k' \<Longrightarrow> kernel_reaches D pf k0 k'"

lemma deliver_inv: "deliver r = Inr k' \<Longrightarrow> sys_inv r \<Longrightarrow> sched_inv k'"
  by (cases r) (auto simp: deliver_def sys_inv_def intro: quiet_sched_inv [OF set_a0_quiet [OF quiet_refl]] elim!: rbind_InrE)

lemma set_next_trigger_quiet: "quiet k (set_next_trigger pf k)"
  by (simp add: set_next_trigger_def get_time_def)

lemma trap_handler_inv:
  assumes "trap_handler D pf cause k = kret k'" and inv: "sched_inv k"
  shows "sched_inv k'"
proof (cases "cause = UserEnvCall")
  case True
  with assms(1) obtain n args m r where s: "syscall D pf n args (k\<lparr>k_mach := m\<rparr>) = kret r" and r: "deliver r = Inr k'"
    by (auto simp: trap_handler_def Let_def kbind_eq_ret)
  have "sched_inv (k\<lparr>k_mach := m\<rparr>)" by (rule quiet_sched_inv [OF _ inv]) simp
  with s have "sys_inv r" by (rule syscall_inv)
  then show ?thesis using r deliver_inv by blast
next
  case False
  have "sched_inv (set_next_trigger pf k)" by (rule quiet_sched_inv [OF set_next_trigger_quiet inv])
  then show ?thesis
    using assms False exit_sched_inv [OF inv] suspend_sched_inv [of "set_next_trigger pf k" TrapReturn]
    by (cases cause) (auto simp: trap_handler_def)
qed

lemma run_current_inv:
  assumes "run_current k = kret k'" and inv: "sched_inv k"
  shows "sched_inv k'"
proof -
  from assms(1) obtain t where r: "resume_task (tcb_cont (task_at k t)) k = kret k'"
    by (auto simp: run_current_def kbind_eq_ret)
  have "sys_inv (Return 0 k)" using inv by (simp add: sys_inv_def)
  then show ?thesis
    using r inv
    by (cases "tcb_cont (task_at k t)")
      (auto simp: resume_task_def kbind_eq_ret
        intro: deliver_inv pipe_reading_inv pipe_writing_inv stdin_reading_inv waitpid_waiting_inv)
qed

lemma kernel_step_inv: "kernel_step D pf k k' \<Longrightarrow> sched_inv k \<Longrightarrow> sched_inv k'"
  by (induction rule: kernel_step.induct)
    (auto intro: trap_handler_inv run_current_inv elim: quiet_sched_inv [rotated])

section \<open>Properties\<close>

text \<open>
  C31. Every process is in one place, whatever happens. From a state where it holds, after any
  sequence of traps (system calls with any arguments, faults, timer interrupts), resumptions and
  changes of memory by processes, there is a current process and it alone has status running, the
  processes in the ready queue are those with status ready, each is there once, and every priority
  is greater than 1. Forking, spawning, exiting, waiting and blocking all keep this.
\<close>

theorem processes_in_one_place:
  assumes "kernel_reaches D pf k0 k" and "sched_inv k0"
  shows "sched_inv k \<and> (\<exists>t. current k = Some t \<and> t < length (k_tasks k) \<and> t \<notin> set (ready k))
    \<and> distinct (ready k)
    \<and> (\<forall>t < length (k_tasks k). task_status (task_at k t) =
         (if current k = Some t then RunningTask else if t \<in> set (ready k) then Ready else Zombie))"
proof -
  have inv: "sched_inv k" using assms by (induction rule: kernel_reaches.induct) (auto intro: kernel_step_inv)
  obtain t where t: "current k = Some t" using inv by (auto simp: sched_inv_def)
  have p: "placed k" using inv by (simp add: sched_inv_def)
  then have "t < length (k_tasks k)" "task_status (task_at k t) = RunningTask" using t by (auto simp: placed_def)
  then have "t \<notin> set (ready k)" using p by (auto simp: placed_def)
  moreover have "task_status (task_at k u) = (if current k = Some u then RunningTask else if u \<in> set (ready k) then Ready else Zombie)"
    if "u < length (k_tasks k)" for u
    using p that by (cases "task_status (task_at k u)") (auto simp: placed_def)
  ultimately show ?thesis using inv t p by (auto simp: placed_def)
qed

fun suspends :: "kcont list \<Rightarrow> 'd kernel \<Rightarrow> 'd kernel res" where
  "suspends [] k = Inr k"
| "suspends (c # cs) k = rbind (suspend_current_and_run_next c k) (suspends cs)"

lemma suspends_rotate:
  assumes "placed k" and "current k = Some t"
  shows "\<exists>k'. suspends cs k = Inr k' \<and> placed k' \<and> current k' = Some (hd (rotate (length cs) (t # ready k)))
    \<and> ready k' = tl (rotate (length cs) (t # ready k))"
  using assms
proof (induction cs arbitrary: k t)
  case (Cons c cs)
  obtain u us where u: "ready k @ [t] = u # us" by (cases "ready k") auto
  obtain k1 where k1: "suspend_current_and_run_next c k = Inr k1" "placed k1" "current k1 = Some u" "ready k1 = us"
    by (rule suspend_ok [OF Cons.prems u, of c])
  have rot: "rotate (length (c # cs)) (t # ready k) = rotate (length cs) (u # us)"
    using u by (simp add: rotate1_rotate_swap flip: rotate_Suc) (simp add: rotate_def funpow_swap1)
  from Cons.IH [OF k1(2,3)] k1(1,4) show ?case unfolding rot by auto
qed auto

text \<open>
  C32. Processes take turns. Suspending the running process never fails, and when the running
  processes are suspended one after the other, the process at position \<open>i\<close> of the ready queue
  runs after \<open>i + 1\<close> suspensions, with the processes before it behind the others in the queue.
\<close>

theorem round_robin:
  assumes "sched_inv k" and "current k = Some t" and "i < length (ready k)" and "length conts = i + 1"
  shows "\<exists>k'. suspends conts k = Inr k' \<and> sched_inv k' \<and> current k' = Some (ready k ! i)
    \<and> ready k' = drop (i + 1) (ready k) @ t # take i (ready k)"
proof -
  have p: "placed k" using assms(1) by (simp add: sched_inv_def)
  have r: "rotate (i + 1) (t # ready k) = drop (i + 1) (t # ready k) @ take (i + 1) (t # ready k)"
    using assms(3) by (simp add: rotate_drop_take)
  have h: "drop i (ready k) = ready k ! i # drop (i + 1) (ready k)" using assms(3) by (simp add: Cons_nth_drop_Suc)
  from suspends_rotate [OF p assms(2), of conts] show ?thesis
    unfolding assms(4) r using h by (auto simp: sched_inv_def)
qed

section \<open>An example\<close>

text \<open>Two processes, the first running and the second ready.\<close>

definition example_tcb :: "usize \<Rightarrow> task_status \<Rightarrow> tcb" where
  "example_tcb pid st = \<lparr>tcb_pid = pid, strong_count = 1, task_cx_ptr = 0, task_status = st, task_stride = 0,
     task_priority = TASK_INIT_PRIORITY, tcb_memory_set = \<lparr>ms_page_table = \<lparr>pt_root = PhysPageNum 1, pt_frames = []\<rparr>, ms_areas = []\<rparr>,
     trap_cx_ppn = PhysPageNum (2 + pid), base_size = 0, tcb_parent = None, children = [], exit_code = 0,
     fd_table = [Some Stdin, Some Stdout, Some Stdout], tcb_mail_box = mail_box_new, tcb_cont = TrapReturn\<rparr>"

definition example_kernel :: "u8 list kernel" where
  "example_kernel = \<lparr>k_mach = zero_machine, k_space = \<lparr>ms_page_table = \<lparr>pt_root = PhysPageNum 1, pt_frames = []\<rparr>, ms_areas = []\<rparr>,
     k_pids = \<lparr>pid_current = 2, pid_recycled = []\<rparr>, k_tasks = [example_tcb 0 RunningTask, example_tcb 1 Ready],
     k_manager = \<lparr>ready_queue = [1]\<rparr>, k_proc = \<lparr>proc_current = Some 0\<rparr>, k_initproc = 0,
     k_pipes = \<lparr>ph_rings = [], ph_pipes = []\<rparr>, k_fs = small_os_fs, k_input = [], k_output = [], k_reads = 0, k_timer = 0\<rparr>"

definition example_platform :: platform where
  "example_platform = \<lparr>pf_syms = \<lparr>sym_stext = 0, sym_etext = 0, sym_srodata = 0, sym_erodata = 0, sym_sdata = 0,
       sym_edata = 0, sym_sbss = 0, sym_ebss = 0, sym_ekernel = 0, sym_strampoline = 0x80201000\<rparr>,
     pf_trap_return = 0, pf_trap_handler = 0, pf_alltraps = 0, pf_restore = 0, pf_sstatus_user = 0,
     pf_elf_new = (\<lambda>_. None), pf_clock = (\<lambda>n. word_of_nat n)\<rparr>"

lemma example_kernel_inv: "sched_inv example_kernel"
  by (auto simp: sched_inv_def placed_def example_kernel_def example_tcb_def task_at_def prio_ok_def TASK_INIT_PRIORITY_def
    less_Suc_eq nth_Cons')

lemma example_timer:
  obtains k where "trap_handler block_file example_platform SupervisorTimer example_kernel = kret k"
    and "current k = Some 1" and "ready k = [0]" and "length (k_tasks k) = 2"
  by (simp add: trap_handler_def set_next_trigger_def get_time_def suspend_current_and_run_next_def take_current_task_def
    current_task_def unwrapE_def example_kernel_def add_task_def tm_add_def run_next_def tm_fetch_def task_at_def upd_task_def
    example_tcb_def TASK_INIT_PRIORITY_def)

theorem processes_in_one_place_witness:
  "\<exists>k. trap_handler block_file example_platform SupervisorTimer example_kernel = kret k
    \<and> current k = Some 1 \<and> ready k = [0] \<and> task_status (task_at k 1) = RunningTask"
proof (rule example_timer, goal_cases)
  case (1 k)
  have "kernel_reaches block_file example_platform example_kernel k"
    by (rule reach_step [OF reach_start step_trap [OF 1(1)]])
  from processes_in_one_place [OF this example_kernel_inv] 1 show ?case by auto
qed

theorem round_robin_witness:
  "\<exists>k. suspends [YieldReturn] example_kernel = Inr k \<and> current k = Some 1 \<and> ready k = [0]"
proof -
  have e: "current example_kernel = Some 0" "0 < length (ready example_kernel)" "length [YieldReturn] = 0 + 1" "ready example_kernel = [1]"
    by (simp_all add: example_kernel_def)
  from round_robin [OF example_kernel_inv e(1-3)] e(4) show ?thesis by auto
qed

end
