(* ===== verification/Fd_Spec.thy ===== *)
theory Fd_Spec
  imports Scheduler
begin

text \<open>
  File descriptors. A descriptor is given out as the smallest free one; duplicating a descriptor
  shares the open file, and closing the duplicate undoes it, reference counts included.
\<close>

section \<open>Free descriptors\<close>

lemma alloc_fd_least:
  assumes "alloc_fd c = (fd, c')"
  shows "fd_table c' = fd_table c @ replicate (fd + 1 - length (fd_table c)) None"
    and "fd \<le> length (fd_table c)"
    and "fd < length (fd_table c')" and "fd_table c' ! fd = None"
    and "\<And>i. i < fd \<Longrightarrow> fd_table c ! i \<noteq> None"
    and "c' = c\<lparr>fd_table := fd_table c'\<rparr>"
  using assms
  by (auto simp: alloc_fd_def Let_def find_None_iff find_Some_iff split: option.splits)

lemma install_fd_eq:
  assumes "t < length (k_tasks k)"
  obtains fd table where "install_fd t f k = (fd, upd_task t (\<lambda>c. c\<lparr>fd_table := table[fd := Some f]\<rparr>) k)"
    and "table = fd_table (task_at k t) @ replicate (fd + 1 - length (fd_table (task_at k t))) None"
    and "fd \<le> length (fd_table (task_at k t))" and "fd < length table" and "table ! fd = None"
    and "\<forall>i < fd. fd_table (task_at k t) ! i \<noteq> None"
proof -
  obtain fd c' where a: "alloc_fd (task_at k t) = (fd, c')" by (cases "alloc_fd (task_at k t)")
  note l = alloc_fd_least [OF a]
  have "install_fd t f k = (fd, upd_task t (\<lambda>c. c\<lparr>fd_table := (fd_table c')[fd := Some f]\<rparr>) k)"
    using a l(6) by (cases c') (simp add: install_fd_def upd_task_def task_at_def)
  then show thesis by (rule that) (use l in auto)
qed

section \<open>References to files\<close>

lemma drop_clone_file: "drop_file f (clone_file f h) = h"
proof (cases f)
  case (FPipe i)
  then show ?thesis
    by (cases "i < length (ph_pipes h)") (simp_all add: drop_file_def clone_file_def pipe_arc_drop_def pipe_arc_clone_def list_update_beyond)
qed (simp_all add: drop_file_def clone_file_def)

lemma sys_dup_ok:
  assumes "sched_inv k" and "current k = Some t" and "unat fd < length (fd_table (task_at k t))"
    and "fd_table (task_at k t) ! unat fd = Some f"
  obtains new table k1 where "sys_dup fd k = kret (Return (word_of_nat new) k1)"
    and "k1 = (upd_task t (\<lambda>c. c\<lparr>fd_table := table[new := Some f]\<rparr>) k)\<lparr>k_pipes := clone_file f (k_pipes k)\<rparr>"
    and "table = fd_table (task_at k t) @ replicate (new + 1 - length (fd_table (task_at k t))) None"
    and "new \<le> length (fd_table (task_at k t))" and "new < length table" and "table ! new = None"
    and "\<forall>i < new. fd_table (task_at k t) ! i \<noteq> None"
proof -
  have t: "current_task k = Inr t" using assms(2) by (simp add: current_task_def)
  have "t < length (k_tasks k)" using assms(1) t by (rule current_lt)
  then show thesis
  proof (rule install_fd_eq [of t k f], goal_cases)
    case (1 new table)
    show ?case
      by (rule that [OF _ refl 1(2-6)])
        (use assms t 1(1) in \<open>simp add: sys_dup_def Let_def ret_def upd_task_def\<close>)
  qed
qed

text \<open>
  C38. Duplicating a descriptor gives the smallest free one, for the same open file, and closing
  the duplicate gives back the kernel as it was: the table of the process has at most one free
  place more at its end, and the numbers of references to pipe ends are the same as before.
\<close>

theorem dup_then_close:
  assumes "sched_inv k" and "current k = Some t" and "table = fd_table (task_at k t)"
    and "unat fd < length table" and "table ! unat fd = Some f" and "length table < 2 ^ 63"
  shows "\<exists>new k1. sys_dup fd k = kret (Return (word_of_nat new) k1)
    \<and> new \<le> length table \<and> (new < length table \<longrightarrow> table ! new = None) \<and> (\<forall>i < new. table ! i \<noteq> None)
    \<and> fd_table (task_at k1 t) ! new = Some f \<and> (\<forall>i < length table. i \<noteq> new \<longrightarrow> fd_table (task_at k1 t) ! i = table ! i)
    \<and> k_pipes k1 = clone_file f (k_pipes k)
    \<and> sys_close (word_of_nat new) k1 =
        kret (Return 0 (upd_task t (\<lambda>c. c\<lparr>fd_table := table @ replicate (new + 1 - length table) None\<rparr>) k))"
  using assms(1,2) assms(4,5) [unfolded assms(3)]
proof (rule sys_dup_ok, goal_cases)
  case (1 new table' k1)
  have t: "t < length (k_tasks k)" by (rule current_lt [OF assms(1)]) (simp add: current_task_def assms(2))
  have u: "unat (word_of_nat new :: usize) = new" using 1(4) assms(3,6) by (intro unat_of_nat64) simp
  have f1: "fd_table (task_at k1 t) = table'[new := Some f]" using 1(2) t by (simp add: task_at_upd)
  have c1: "current_task k1 = Inr t" using 1(2) assms(2) by (simp add: current_task_def)
  have n: "table'[new := None] = table'" using 1(6) by (metis list_update_id)
  have "sys_close (word_of_nat new) k1 = kret (Return 0 (upd_task t (\<lambda>c. c\<lparr>fd_table := table'\<rparr>) k))"
    using 1(2,5) f1 c1 t u n
    by (simp add: sys_close_def ret_def drop_clone_file upd_task_def task_at_def)
  then show ?case using 1 assms(3) f1 by (intro exI [of _ new] exI [of _ k1]) (auto simp: nth_append)
qed

theorem dup_then_close_witness:
  "\<exists>k1. sys_dup 1 example_kernel = kret (Return 3 k1) \<and> fd_table (task_at k1 0) ! 3 = Some Stdout
    \<and> (\<exists>k2. sys_close 3 k1 = kret (Return 0 k2) \<and> fd_table (task_at k2 0) = [Some Stdin, Some Stdout, Some Stdout, None])"
proof -
  let ?t = "[Some Stdin, Some Stdout, Some Stdout]"
  have e: "current example_kernel = Some 0" "?t = fd_table (task_at example_kernel 0)" "unat (1 :: usize) < length ?t"
    "?t ! unat (1 :: usize) = Some Stdout" "length ?t < 2 ^ 63" "length (k_tasks example_kernel) = 2"
    by (simp_all add: example_kernel_def example_tcb_def task_at_def)
  from dup_then_close [OF example_kernel_inv e(1-5)] show ?thesis
  proof (elim exE conjE, goal_cases)
    case (1 new k1)
    have "\<not> new < 3" using 1(3) by (auto simp: less_Suc_eq numeral_3_eq_3)
    then have n: "new = 3" using 1(2) by simp
    show ?case using 1(1,5,8) e(6) unfolding n by (auto simp: task_at_upd)
  qed
qed

end
