(* ===== verification/Kernel_Refs.thy ===== *)
theory Kernel_Refs
  imports Fd_Spec
begin

text \<open>
  Well-formedness of the kernel's shared objects. Processes, open files, inodes, pipe ends and
  ring buffers refer to each other by their positions; in every reachable state each position is
  one of an object that was made, every ring buffer has its indices in range, and every mailbox is
  within its bounds. Whether the object is still there is a matter of its reference count.
\<close>

section \<open>The invariant\<close>

definition ref_ok :: "nat \<Rightarrow> nat \<Rightarrow> os_file \<Rightarrow> bool" where
  "ref_ok files pipes f \<longleftrightarrow> (case f of FInode i \<Rightarrow> i < files | FPipe p \<Rightarrow> p < pipes | _ \<Rightarrow> True)"

definition cont_ok :: "nat \<Rightarrow> kcont \<Rightarrow> bool" where
  "cont_ok pipes c \<longleftrightarrow> (case c of PipeReading p it n \<Rightarrow> p < pipes | PipeWriting p it n \<Rightarrow> p < pipes | _ \<Rightarrow> True)"

definition tcb_ok :: "nat \<Rightarrow> nat \<Rightarrow> nat \<Rightarrow> tcb \<Rightarrow> bool" where
  "tcb_ok tasks files pipes c \<longleftrightarrow> set (children c) \<subseteq> {..<tasks} \<and> (\<forall>p. tcb_parent c = Some p \<longrightarrow> p < tasks)
     \<and> (\<forall>f. Some f \<in> set (fd_table c) \<longrightarrow> ref_ok files pipes f) \<and> cont_ok pipes (tcb_cont c) \<and> mb_inv (tcb_mail_box c)"

definition pipes_ok :: "pipe_heap \<Rightarrow> bool" where
  "pipes_ok h \<longleftrightarrow> (\<forall>(p, n) \<in> set (ph_pipes h). p_buffer p < length (ph_rings h))
     \<and> (\<forall>rb \<in> set (ph_rings h). rb_inv rb \<and> (\<exists>w < length (ph_pipes h). rb_write_end rb = Some w))"

definition fs_ok :: "'d os_fs \<Rightarrow> bool" where
  "fs_ok fs \<longleftrightarrow> (\<forall>oi \<in> set (fs_files fs). oi_inode oi < length (fs_inodes fs))
     \<and> (\<forall>path f. hard_link_map fs path = Some f \<longrightarrow> f < length (fs_files fs))
     \<and> (\<forall>path f. recycled_map fs path = Some f \<longrightarrow> f < length (fs_files fs))"

definition refs_ok :: "'d kernel \<Rightarrow> bool" where
  "refs_ok k \<longleftrightarrow>
     (\<forall>c \<in> set (k_tasks k). tcb_ok (length (k_tasks k)) (length (fs_files (k_fs k))) (length (ph_pipes (k_pipes k))) c)
     \<and> k_initproc k < length (k_tasks k) \<and> set (ready k) \<subseteq> {..<length (k_tasks k)}
     \<and> (\<forall>t. current k = Some t \<longrightarrow> t < length (k_tasks k)) \<and> pipes_ok (k_pipes k) \<and> fs_ok (k_fs k)"

section \<open>Changes of parts of the kernel\<close>

lemma ref_ok_mono: "ref_ok a b f \<Longrightarrow> a \<le> a' \<Longrightarrow> b \<le> b' \<Longrightarrow> ref_ok a' b' f"
  by (auto simp: ref_ok_def split: os_file.splits)

lemma cont_ok_mono: "cont_ok b c \<Longrightarrow> b \<le> b' \<Longrightarrow> cont_ok b' c"
  by (auto simp: cont_ok_def split: kcont.splits)

lemma tcb_ok_mono:
  assumes "tcb_ok n a b c" and "n \<le> n'" and "a \<le> a'" and "b \<le> b'"
  shows "tcb_ok n' a' b' c"
  using assms unfolding tcb_ok_def by (fastforce intro: ref_ok_mono cont_ok_mono)

lemma refs_ok_fields [simp]:
  "refs_ok (k\<lparr>k_mach := m\<rparr>) = refs_ok k" "refs_ok (k\<lparr>k_pids := p\<rparr>) = refs_ok k" "refs_ok (k\<lparr>k_space := s\<rparr>) = refs_ok k"
  "refs_ok (k\<lparr>k_input := i\<rparr>) = refs_ok k" "refs_ok (k\<lparr>k_output := out\<rparr>) = refs_ok k" "refs_ok (k\<lparr>k_reads := r\<rparr>) = refs_ok k"
  "refs_ok (k\<lparr>k_timer := tm\<rparr>) = refs_ok k"
  by (simp_all add: refs_ok_def)

lemma refs_ok_task: "refs_ok k \<Longrightarrow> t < length (k_tasks k) \<Longrightarrow>
    tcb_ok (length (k_tasks k)) (length (fs_files (k_fs k))) (length (ph_pipes (k_pipes k))) (task_at k t)"
  by (simp add: refs_ok_def task_at_def)

lemma refs_ok_upd:
  assumes "refs_ok k"
    and "\<And>c. tcb_ok (length (k_tasks k)) (length (fs_files (k_fs k))) (length (ph_pipes (k_pipes k))) c \<Longrightarrow>
      tcb_ok (length (k_tasks k)) (length (fs_files (k_fs k))) (length (ph_pipes (k_pipes k))) (f c)"
  shows "refs_ok (upd_task t f k)"
proof (cases "t < length (k_tasks k)")
  case True
  then show ?thesis using assms by (auto simp: refs_ok_def upd_task_def dest!: set_update_subset_insert [THEN subsetD])
next
  case False
  then show ?thesis using assms by (simp add: refs_ok_def upd_task_def list_update_beyond)
qed

lemma refs_ok_fs:
  assumes "refs_ok k" and "fs_ok fs" and "length (fs_files (k_fs k)) \<le> length (fs_files fs)"
  shows "refs_ok (k\<lparr>k_fs := fs\<rparr>)"
  using assms tcb_ok_mono by (fastforce simp: refs_ok_def)

lemma refs_ok_pipes:
  assumes "refs_ok k" and "pipes_ok h" and "length (ph_pipes (k_pipes k)) \<le> length (ph_pipes h)"
  shows "refs_ok (k\<lparr>k_pipes := h\<rparr>)"
  using assms tcb_ok_mono by (fastforce simp: refs_ok_def)

text \<open>Pipe ends only change their reference counts.\<close>

lemma pipes_ok_count:
  assumes "pipes_ok h"
  shows "pipes_ok (h\<lparr>ph_pipes := (ph_pipes h)[i := (fst (ph_pipes h ! i), n)]\<rparr>)"
proof (cases "i < length (ph_pipes h)")
  case True
  then have "(fst (ph_pipes h ! i), snd (ph_pipes h ! i)) \<in> set (ph_pipes h)" by simp
  then show ?thesis using assms by (fastforce simp: pipes_ok_def dest!: set_update_subset_insert [THEN subsetD])
next
  case False
  then show ?thesis using assms by (simp add: list_update_beyond)
qed

lemma pipe_arcs_ok [simp]:
  "pipes_ok h \<Longrightarrow> pipes_ok (pipe_arc_clone i h)" "length (ph_pipes (pipe_arc_clone i h)) = length (ph_pipes h)"
  "pipes_ok h \<Longrightarrow> pipes_ok (pipe_arc_drop i h)" "length (ph_pipes (pipe_arc_drop i h)) = length (ph_pipes h)"
  by (simp_all add: pipe_arc_clone_def pipe_arc_drop_def pipes_ok_count)

lemma clone_file_ok [simp]:
  "pipes_ok h \<Longrightarrow> pipes_ok (clone_file f h)" "length (ph_pipes (clone_file f h)) = length (ph_pipes h)"
  "pipes_ok h \<Longrightarrow> pipes_ok (drop_file f h)" "length (ph_pipes (drop_file f h)) = length (ph_pipes h)"
  by (cases f; simp add: clone_file_def drop_file_def)+

lemma drop_fds_ok [simp]:
  "pipes_ok h \<Longrightarrow> pipes_ok (drop_fds fds h)" "length (ph_pipes (drop_fds fds h)) = length (ph_pipes h)"
  by (induction fds h rule: drop_fds.induct) simp_all

lemma clone_fds_ok:
  "fst (clone_fds fds new h) = new @ fds" "pipes_ok h \<Longrightarrow> pipes_ok (snd (clone_fds fds new h))"
  "length (ph_pipes (snd (clone_fds fds new h))) = length (ph_pipes h)"
  by (induction fds new h rule: clone_fds.induct) simp_all

lemma copy_mails_packets: "copy_mails ps mb = \<lparr>mb_size = mb_size mb + length ps, mb_packets = mb_packets mb @ ps\<rparr>"
  by (induction ps arbitrary: mb) (simp_all add: mail_box_push_def)

lemma copy_mails_new: "mb_inv mb \<Longrightarrow> copy_mails (mb_packets mb) mail_box_new = mb"
  by (cases mb) (simp add: copy_mails_packets mail_box_new_def mb_inv_def)

section \<open>Dropping and adopting processes\<close>

lemma release_task_refs: "release_task t k = Inr k' \<Longrightarrow> refs_ok k \<Longrightarrow> refs_ok k'"
proof -
  assume r: "release_task t k = Inr k'" and ok: "refs_ok k"
  from r obtain p s m where "k' = k\<lparr>k_pids := p, k_space := s, k_mach := m, k_pipes := drop_fds (fd_table (task_at k t)) (k_pipes k)\<rparr>"
    by (auto simp: release_task_def elim!: rbind_InrE)
  moreover have "refs_ok (k\<lparr>k_pids := p, k_space := s, k_mach := m, k_pipes := drop_fds (fd_table (task_at k t)) (k_pipes k)\<rparr>)"
    by (rule refs_ok_pipes) (use ok in \<open>auto simp: refs_ok_def\<close>)
  ultimately show ?thesis by simp
qed

lemma tcb_ok_fields [simp]:
  "tcb_ok n a b (c\<lparr>strong_count := s\<rparr>) = tcb_ok n a b c" "tcb_ok n a b (c\<lparr>task_status := st\<rparr>) = tcb_ok n a b c"
  "tcb_ok n a b (c\<lparr>tcb_memory_set := ms\<rparr>) = tcb_ok n a b c" "tcb_ok n a b (c\<lparr>trap_cx_ppn := p\<rparr>) = tcb_ok n a b c"
  "tcb_ok n a b (c\<lparr>exit_code := e\<rparr>) = tcb_ok n a b c" "tcb_ok n a b (c\<lparr>task_stride := sd\<rparr>) = tcb_ok n a b c"
  "tcb_ok n a b (c\<lparr>task_priority := pr\<rparr>) = tcb_ok n a b c"
  by (simp_all add: tcb_ok_def)

lemma drop_tasks_refs: "drop_tasks ts k = Inr k' \<Longrightarrow> refs_ok k \<Longrightarrow> refs_ok k'"
proof (induction ts k arbitrary: k' rule: drop_tasks.induct)
  case (2 t ts k)
  let ?k1 = "upd_task t (\<lambda>c. c\<lparr>strong_count := strong_count c - 1\<rparr>) k"
  have r1: "refs_ok ?k1" by (rule refs_ok_upd [OF 2(5)]) simp
  show ?case
  proof (cases "t < length (k_tasks k) \<and> 0 < strong_count (task_at k t)")
    case True
    show ?thesis
    proof (cases "strong_count (task_at ?k1 t) \<noteq> 0")
      case False
      with 2(4) True obtain k2 where k2: "release_task t ?k1 = Inr k2" "drop_tasks (children (task_at k2 t) @ ts) k2 = Inr k'"
        by (auto simp: drop_tasks.simps Let_def elim!: rbind_InrE)
      with 2(2) True False release_task_refs [OF k2(1) r1] show ?thesis by auto
    qed (use 2 True r1 in \<open>auto simp: drop_tasks.simps Let_def\<close>)
  qed (use 2 in \<open>auto simp: drop_tasks.simps\<close>)
qed (simp add: drop_tasks.simps)

lemma adopt_refs: "refs_ok k \<Longrightarrow> set cs \<subseteq> {..<length (k_tasks k)} \<Longrightarrow> i < length (k_tasks k) \<Longrightarrow> refs_ok (adopt i cs k)"
proof (induction cs arbitrary: k)
  case (Cons c cs)
  let ?k1 = "upd_task c (\<lambda>j. j\<lparr>tcb_parent := Some i, strong_count := strong_count j + 1\<rparr>) k"
  have 1: "refs_ok ?k1" by (rule refs_ok_upd [OF Cons.prems(1)]) (use Cons.prems in \<open>simp add: tcb_ok_def\<close>)
  have "refs_ok (upd_task i (\<lambda>i. i\<lparr>children := children i @ [c]\<rparr>) ?k1)"
    by (rule refs_ok_upd [OF 1]) (use Cons.prems in \<open>simp add: tcb_ok_def\<close>)
  then show ?case using Cons by simp
qed simp

section \<open>Switching processes\<close>

lemma run_next_refs: "run_next k = Inr k' \<Longrightarrow> refs_ok k \<Longrightarrow> refs_ok k'"
proof -
  assume r: "run_next k = Inr k'" and ok: "refs_ok k"
  from r obtain t ts step where q: "ready k = t # ts"
    and k': "k' = upd_task t (\<lambda>c. c\<lparr>task_status := RunningTask, task_stride := task_stride c + step\<rparr>)
      (k\<lparr>k_manager := (k_manager k)\<lparr>ready_queue := ts\<rparr>, k_proc := \<lparr>proc_current = Some t\<rparr>\<rparr>)"
    by (auto simp: run_next_def tm_fetch_def split: list.splits elim!: rbind_InrE)
  have "refs_ok (k\<lparr>k_manager := (k_manager k)\<lparr>ready_queue := ts\<rparr>, k_proc := \<lparr>proc_current = Some t\<rparr>\<rparr>)"
    using ok q by (simp add: refs_ok_def)
  then show ?thesis unfolding k' by (rule refs_ok_upd) simp
qed

lemma refs_ok_current: "refs_ok k \<Longrightarrow> current_task k = Inr t \<Longrightarrow> t < length (k_tasks k)"
  by (auto simp: refs_ok_def current_task_def unwrapE_def split: option.splits)

lemma suspend_refs:
  assumes "suspend_current_and_run_next c k = Inr k'" and "refs_ok k" and "cont_ok (length (ph_pipes (k_pipes k))) c"
  shows "refs_ok k'"
proof -
  from assms(1) obtain t where t: "current_task k = Inr t"
    and r: "run_next (add_task t (upd_task t (\<lambda>x. x\<lparr>task_status := Ready, tcb_cont := c\<rparr>) (k\<lparr>k_proc := \<lparr>proc_current = None\<rparr>\<rparr>))) = Inr k'"
    by (auto simp: suspend_current_and_run_next_def take_current_task_def elim!: rbind_InrE)
  have "refs_ok (k\<lparr>k_proc := \<lparr>proc_current = None\<rparr>\<rparr>)" using assms(2) by (simp add: refs_ok_def)
  then have "refs_ok (upd_task t (\<lambda>x. x\<lparr>task_status := Ready, tcb_cont := c\<rparr>) (k\<lparr>k_proc := \<lparr>proc_current = None\<rparr>\<rparr>))" (is "refs_ok ?k")
    by (rule refs_ok_upd) (use assms(3) in \<open>simp add: tcb_ok_def\<close>)
  then have "refs_ok (add_task t ?k)" using refs_ok_current [OF assms(2) t] by (simp add: refs_ok_def add_task_def tm_add_def)
  with r show ?thesis by (rule run_next_refs)
qed

lemma exit_currentE:
  assumes "exit_current code k = Inr k'"
  obtains t k2 k3 k5 ms m where "current_task k = Inr t"
    and "k2 = upd_task t (\<lambda>c. c\<lparr>task_status := Zombie, exit_code := code\<rparr>) (k\<lparr>k_proc := \<lparr>proc_current = None\<rparr>\<rparr>)"
    and "k3 = (if tcb_pid (task_at k2 t) \<noteq> tcb_pid (task_at k2 (k_initproc k2)) then adopt (k_initproc k2) (children (task_at k2 t)) k2 else k2)"
    and "drop_tasks (children (task_at k2 t)) (upd_task t (\<lambda>c. c\<lparr>children := []\<rparr>) k3) = Inr k5"
    and "recycle_data_pages (tcb_memory_set (task_at k5 t), k_mach k5) = Inr (ms, m)"
    and "drop_tasks [t] (upd_task t (\<lambda>c. c\<lparr>tcb_memory_set := ms\<rparr>) (k5\<lparr>k_mach := m\<rparr>)) = Inr k'"
proof -
  from assms obtain t where t: "current_task k = Inr t" by (auto simp: exit_current_def take_current_task_def elim!: rbind_InrE)
  define k2 where "k2 = upd_task t (\<lambda>c. c\<lparr>task_status := Zombie, exit_code := code\<rparr>) (k\<lparr>k_proc := \<lparr>proc_current = None\<rparr>\<rparr>)"
  define k3 where "k3 = (if tcb_pid (task_at k2 t) \<noteq> tcb_pid (task_at k2 (k_initproc k2)) then adopt (k_initproc k2) (children (task_at k2 t)) k2 else k2)"
  have "rbind (drop_tasks (children (task_at k2 t)) (upd_task t (\<lambda>c. c\<lparr>children := []\<rparr>) k3)) (\<lambda>k5.
      rbind (recycle_data_pages (tcb_memory_set (task_at k5 t), k_mach k5)) (\<lambda>(ms, m).
      drop_tasks [t] (upd_task t (\<lambda>c. c\<lparr>tcb_memory_set := ms\<rparr>) (k5\<lparr>k_mach := m\<rparr>)))) = Inr k'"
    using assms t unfolding exit_current_def take_current_task_def Let_def k3_def k2_def by (simp only: rbind_Inr case_prod_conv)
  then show thesis using that [OF t k2_def k3_def] by (auto elim!: rbind_InrE)
qed

lemma exit_current_refs:
  assumes "exit_current code k = Inr k'" and ok: "refs_ok k"
  shows "refs_ok k'"
  using assms(1)
proof (rule exit_currentE, goal_cases)
  case (1 t k2 k3 k5 ms m)
  have "refs_ok (k\<lparr>k_proc := \<lparr>proc_current = None\<rparr>\<rparr>)" using ok by (simp add: refs_ok_def)
  then have r2: "refs_ok k2" unfolding 1(2) by (rule refs_ok_upd) simp
  have "t < length (k_tasks k2)" using refs_ok_current [OF ok 1(1)] by (simp add: 1(2))
  from refs_ok_task [OF r2 this] have "set (children (task_at k2 t)) \<subseteq> {..<length (k_tasks k2)}" by (simp add: tcb_ok_def)
  then have "refs_ok k3" using r2 adopt_refs [OF r2] by (simp add: 1(3) refs_ok_def [of k2])
  then have "refs_ok (upd_task t (\<lambda>c. c\<lparr>children := []\<rparr>) k3)" by (rule refs_ok_upd) (simp add: tcb_ok_def)
  then have "refs_ok (k5\<lparr>k_mach := m\<rparr>)" using drop_tasks_refs [OF 1(4)] by simp
  then have "refs_ok (upd_task t (\<lambda>c. c\<lparr>tcb_memory_set := ms\<rparr>) (k5\<lparr>k_mach := m\<rparr>))" by (rule refs_ok_upd) simp
  with 1(6) show ?case by (rule drop_tasks_refs)
qed

lemma exit_refs: "exit_current_and_run_next code k = Inr k' \<Longrightarrow> refs_ok k \<Longrightarrow> refs_ok k'"
  by (auto simp: exit_current_and_run_next_def elim!: rbind_InrE intro: run_next_refs exit_current_refs)

section \<open>System calls\<close>

definition sys_refs :: "'d sysres \<Rightarrow> bool" where
  "sys_refs r \<longleftrightarrow> (case r of Return v k \<Rightarrow> refs_ok k | Switched k \<Rightarrow> refs_ok k)"

lemma ret_refs: "ret v k' = kret r \<Longrightarrow> refs_ok k' \<Longrightarrow> sys_refs r"
  by (auto simp: ret_def sys_refs_def)

lemma suspend_in_refs:
  "suspend_in c k = kret r \<Longrightarrow> refs_ok k \<Longrightarrow> cont_ok (length (ph_pipes (k_pipes k))) c \<Longrightarrow> sys_refs r"
  using suspend_refs by (auto simp: suspend_in_def kbind_eq_ret sys_refs_def)

lemma lift_sys_refs: "lift_sys x = kret r \<Longrightarrow> (\<And>v k'. x = Inr (v, k') \<Longrightarrow> refs_ok k') \<Longrightarrow> sys_refs r"
  by (auto simp: lift_sys_def kbind_eq_ret intro: ret_refs)

lemma print_slices_refs: "print_slices bs k = Inr k' \<Longrightarrow> refs_ok k \<Longrightarrow> refs_ok k'"
  by (induction bs arbitrary: k) (auto simp: Let_def split: if_splits)

lemma stdin_reading_refs: "stdin_reading buf k = kret r \<Longrightarrow> refs_ok k \<Longrightarrow> sys_refs r"
  by (cases "k_input k")
    (auto simp: stdin_reading_def console_getchar_def Let_def kbind_eq_ret cont_ok_def split: if_splits
      elim!: suspend_in_refs ret_refs)

text \<open>The rounds of pipe calls keep the ring buffers.\<close>

lemma ring_bytes_keep:
  "read_byte rb = Inr (c, rb') \<Longrightarrow> rb_inv rb \<Longrightarrow> rb_inv rb' \<and> rb_write_end rb' = rb_write_end rb"
  "write_byte x rb = Inr rb' \<Longrightarrow> rb_inv rb \<Longrightarrow> rb_inv rb' \<and> rb_write_end rb' = rb_write_end rb"
  by (auto simp: read_byte_def write_byte_def rb_inv_def RING_BUFFER_SIZE_def Let_def split: if_splits elim!: rbind_InrE)

lemma pipe_loops_keep:
  "pipe_read_loop j it n rb m = Inr (out, rb', m') \<Longrightarrow> rb_inv rb \<Longrightarrow> rb_inv rb' \<and> rb_write_end rb' = rb_write_end rb"
  "pipe_write_loop j it n rb m = Inr (out, rb') \<Longrightarrow> rb_inv rb \<Longrightarrow> rb_inv rb' \<and> rb_write_end rb' = rb_write_end rb"
  by (induction j arbitrary: it n rb m) (fastforce split: option.splits elim!: rbind_InrE dest!: ring_bytes_keep)+

lemma pipes_ok_ring:
  assumes "pipes_ok h" and "rb_inv rb \<and> rb_write_end rb = rb_write_end (ph_rings h ! b)"
  shows "pipes_ok (h\<lparr>ph_rings := (ph_rings h)[b := rb]\<rparr>)"
proof (cases "b < length (ph_rings h)")
  case True
  then have "ph_rings h ! b \<in> set (ph_rings h)" by simp
  then show ?thesis using assms by (fastforce simp: pipes_ok_def dest!: set_update_subset_insert [THEN subsetD])
qed (use assms in \<open>simp add: list_update_beyond\<close>)

lemma pipe_buffer_ok:
  assumes "pipes_ok h" and "i < length (ph_pipes h)"
  shows "rb_inv (ph_rings h ! p_buffer (fst (ph_pipes h ! i)))"
proof -
  have "(fst (ph_pipes h ! i), snd (ph_pipes h ! i)) \<in> set (ph_pipes h)" using assms(2) by simp
  then have "p_buffer (fst (ph_pipes h ! i)) < length (ph_rings h)" using assms(1) by (fastforce simp: pipes_ok_def)
  then show ?thesis using assms(1) by (simp add: pipes_ok_def)
qed

lemma pipe_rounds_keep:
  assumes "pipes_ok h" and "i < length (ph_pipes h)"
  shows "pipe_read_round i it n h m = Inr (out, h', m') \<Longrightarrow> pipes_ok h' \<and> length (ph_pipes h') = length (ph_pipes h)"
    and "pipe_write_round i it n h m = Inr (out, h') \<Longrightarrow> pipes_ok h' \<and> length (ph_pipes h') = length (ph_pipes h)"
  using assms pipe_buffer_ok [OF assms]
  by (auto simp: pipe_read_round_def pipe_write_round_def Let_def split: if_splits elim!: rbind_InrE
    intro!: pipes_ok_ring dest!: pipe_loops_keep)

lemma pipe_reading_refs:
  assumes "pipe_reading self it n k = kret r" and "refs_ok k" and "self < length (ph_pipes (k_pipes k))"
  shows "sys_refs r"
proof -
  let ?P = "\<lambda>self k y. \<forall>r. y = Inr r \<longrightarrow> refs_ok k \<longrightarrow> self < length (ph_pipes (k_pipes k)) \<longrightarrow> sys_refs r"
  have "?P self k y" if "pipe_reading self it n k = Some y" for y
  proof (rule pipe_reading.raw_induct [where P = "\<lambda>self it n k y. ?P self k y", OF _ that], goal_cases)
    case (1 pipe_reading self it n k y)
    show ?case
    proof (intro allI impI)
      fix r assume y: "y = Inr r" and ok: "refs_ok k" and lt: "self < length (ph_pipes (k_pipes k))"
      from 1(2) [unfolded y] obtain out h m where
        rd: "pipe_read_round self it n (k_pipes k) (k_mach k) = Inr (out, h, m)" and
        o: "(case out of Returned n' \<Rightarrow> finish_pipe self n' (k\<lparr>k_pipes := h, k_mach := m\<rparr>)
          | Suspended it' n' \<Rightarrow> suspend_in (PipeReading self it' n') (k\<lparr>k_pipes := h, k_mach := m\<rparr>)
          | Again it' n' \<Rightarrow> pipe_reading self it' n' (k\<lparr>k_pipes := h, k_mach := m\<rparr>)) = kret r"
        by (auto simp: kbind_eq_ret)
      have h: "pipes_ok h \<and> length (ph_pipes h) = length (ph_pipes (k_pipes k))"
        using pipe_rounds_keep(1) [OF _ lt rd] ok by (simp add: refs_ok_def)
      have "refs_ok (k\<lparr>k_pipes := h\<rparr>)" "refs_ok (k\<lparr>k_mach := m, k_pipes := pipe_arc_drop self h\<rparr>)"
        using h ok by (auto intro!: refs_ok_pipes)
      with o 1(1) h lt show "sys_refs r"
        by (cases out) (auto simp: finish_pipe_def cont_ok_def elim!: suspend_in_refs ret_refs)
    qed
  qed
  then show ?thesis using assms by blast
qed

lemma pipe_writing_refs:
  assumes "pipe_writing self it n k = kret r" and "refs_ok k" and "self < length (ph_pipes (k_pipes k))"
  shows "sys_refs r"
proof -
  let ?P = "\<lambda>self k y. \<forall>r. y = Inr r \<longrightarrow> refs_ok k \<longrightarrow> self < length (ph_pipes (k_pipes k)) \<longrightarrow> sys_refs r"
  have "?P self k y" if "pipe_writing self it n k = Some y" for y
  proof (rule pipe_writing.raw_induct [where P = "\<lambda>self it n k y. ?P self k y", OF _ that], goal_cases)
    case (1 pipe_writing self it n k y)
    show ?case
    proof (intro allI impI)
      fix r assume y: "y = Inr r" and ok: "refs_ok k" and lt: "self < length (ph_pipes (k_pipes k))"
      from 1(2) [unfolded y] obtain out h where
        rd: "pipe_write_round self it n (k_pipes k) (k_mach k) = Inr (out, h)" and
        o: "(case out of Returned n' \<Rightarrow> finish_pipe self n' (k\<lparr>k_pipes := h\<rparr>)
          | Suspended it' n' \<Rightarrow> suspend_in (PipeWriting self it' n') (k\<lparr>k_pipes := h\<rparr>)
          | Again it' n' \<Rightarrow> pipe_writing self it' n' (k\<lparr>k_pipes := h\<rparr>)) = kret r"
        by (auto simp: kbind_eq_ret)
      have h: "pipes_ok h \<and> length (ph_pipes h) = length (ph_pipes (k_pipes k))"
        using pipe_rounds_keep(2) [OF _ lt rd] ok by (simp add: refs_ok_def)
      have "refs_ok (k\<lparr>k_pipes := h\<rparr>)" "refs_ok (k\<lparr>k_pipes := pipe_arc_drop self h\<rparr>)"
        using h by (auto intro!: refs_ok_pipes [OF ok])
      with o 1(1) h lt show "sys_refs r"
        by (cases out) (auto simp: finish_pipe_def cont_ok_def elim!: suspend_in_refs ret_refs)
    qed
  qed
  then show ?thesis using assms by blast
qed

text \<open>Operations of the file system.\<close>

definition fs_step :: "'d os_fs \<Rightarrow> 'd os_fs \<Rightarrow> bool" where
  "fs_step fs fs' \<longleftrightarrow> (fs_ok fs \<longrightarrow> fs_ok fs') \<and> length (fs_files fs) \<le> length (fs_files fs')"

lemma fs_step_refl [simp]: "fs_step fs fs"
  by (simp add: fs_step_def)

lemma fs_step_trans: "fs_step a b \<Longrightarrow> fs_step b c \<Longrightarrow> fs_step a c"
  by (auto simp: fs_step_def)

lemma refs_ok_fs_step: "refs_ok k \<Longrightarrow> fs_step (k_fs k) fs \<Longrightarrow> refs_ok (k\<lparr>k_fs := fs\<rparr>)"
  by (rule refs_ok_fs) (auto simp: fs_step_def refs_ok_def)

lemma fs_step_store: "fs_step fs (fs'\<lparr>fs_store := st\<rparr>) = fs_step fs fs'"
  by (simp add: fs_step_def fs_ok_def)

lemma fs_do_step: "fs_do a fs = Inr (v, fs') \<Longrightarrow> fs_step fs fs'"
  by (auto simp: fs_do_def fs_step_store elim!: rbind_InrE)

lemma advance_step: "fs_step fs (advance f n fs)"
proof (cases "f < length (fs_files fs)")
  case True
  then have "fs_files fs ! f \<in> set (fs_files fs)" by simp
  then show ?thesis
    by (fastforce simp: fs_step_def fs_ok_def advance_def dest!: set_update_subset_insert [THEN subsetD])
qed (simp add: fs_step_def fs_ok_def advance_def list_update_beyond)

lemma fs_step_advance: "fs_step a b \<Longrightarrow> fs_step (advance f n b) c \<Longrightarrow> fs_step a c"
  using advance_step fs_step_trans by blast

lemma read_all_loop_step:
  assumes "read_all_loop D f buf v fs = kret (d, fs')"
  shows "fs_step fs fs'"
proof -
  let ?P = "\<lambda>fs y. \<forall>d fs'. y = Inr (d, fs') \<longrightarrow> fs_step fs fs'"
  have "?P fs y" if "read_all_loop D f buf v fs = Some y" for y
  proof (rule read_all_loop.raw_induct [where P = "\<lambda>D f buf v fs y. ?P fs y", OF _ that], goal_cases)
    case (1 loop D f buf v fs y)
    show ?case
    proof (intro allI impI)
      fix d fs' assume y: "y = Inr (d, fs')"
      from 1(2) [unfolded y] obtain len b fs1 where r: "fs_do (inode_read_at D (oi_offset (fs_files fs ! f)) buf (inode_of fs f)) fs = Inr ((len, b), fs1)"
        and e: "(if len = 0 then kret (v, fs1) else loop D f b (v @ take len b) (advance f len fs1)) = kret (d, fs')"
        by (auto simp: kbind_eq_ret)
      show "fs_step fs fs'"
      proof (cases "len = 0")
        case False
        with e 1(1) have "fs_step (advance f len fs1) fs'" by auto
        then show ?thesis by (rule fs_step_advance [OF fs_do_step [OF r]])
      qed (use e fs_do_step [OF r] in auto)
    qed
  qed
  then show ?thesis using assms by blast
qed

lemma read_all_step: "read_all D f fs = kret (d, fs') \<Longrightarrow> fs_step fs fs'"
  unfolding read_all_def by (rule read_all_loop_step)

lemma os_read_step: "os_read_loop D f bs n (fs, m) = Inr (j, fs', m') \<Longrightarrow> fs_step fs fs'"
proof (induction bs arbitrary: n fs m)
  case (Cons b bs)
  from Cons.prems show ?case
    by (auto simp: Let_def split: if_splits elim!: rbind_InrE dest!: fs_do_step Cons.IH intro: fs_step_advance)
qed simp

lemma os_write_step: "os_write_loop D f m bs n fs = Inr (j, fs') \<Longrightarrow> fs_step fs fs'"
proof (induction bs arbitrary: n fs)
  case (Cons b bs)
  then show ?case
    by (auto elim!: rbind_InrE dest!: fs_do_step intro: fs_step_advance)
qed simp

lemma new_objects_step:
  "new_inode i fs = (j, fs') \<Longrightarrow> fs_step fs fs' \<and> j < length (fs_inodes fs') \<and> fs_files fs' = fs_files fs"
  "os_inode_new r w j fs = (f, fs') \<Longrightarrow> j < length (fs_inodes fs) \<Longrightarrow> fs_step fs fs' \<and> f < length (fs_files fs')"
  by (auto simp: new_inode_def os_inode_new_def fs_step_def fs_ok_def less_Suc_eq)

lemma names_step:
  "f < length (fs_files fs) \<Longrightarrow> fs_step fs (map_name p f fs)"
  "fs_step fs (fs\<lparr>recycled_map := (recycled_map fs)(p := None)\<rparr>)"
  by (auto simp: fs_step_def fs_ok_def map_name_def split: if_splits)

lemma link_step: "fs_step fs (snd (link old new fs))"
  by (auto simp: link_def update_inode_def Let_def fs_step_def fs_ok_def split: if_splits option.splits)

lemma unlink_step: "fs_step fs (snd (unlink p fs))"
  by (auto simp: unlink_def update_inode_def Let_def fs_step_def fs_ok_def split: if_splits option.splits)

lemma open_file_step:
  assumes "open_file D name fl fs = Inr (r, fs')" and ok: "fs_ok fs"
  shows "fs_step fs fs' \<and> (\<forall>f. r = Some f \<longrightarrow> f < length (fs_files fs'))"
proof -
  have known: "oi_inode (fs_files fs1 ! f) < length (fs_inodes fs1) \<and> f < length (fs_files fs1)"
    if "hard_link_map fs name = Some f" "fs_step fs fs1" for f fs1
  proof -
    have "f < length (fs_files fs)" using ok that(1) by (simp add: fs_ok_def)
    then have "f < length (fs_files fs1)" "fs_ok fs1" using that(2) ok by (auto simp: fs_step_def)
    then show ?thesis by (simp add: fs_ok_def)
  qed
  have opened: "fs_step fs fs2 \<and> g < length (fs_files fs2)"
    if "hard_link_map fs name = Some f" "fs_step fs fs1" "os_inode_new rd wr (oi_inode (fs_files fs1 ! f)) fs1 = (g, fs2)" for f fs1 rd wr g fs2
    using new_objects_step(2) [OF that(3)] known [OF that(1,2)] fs_step_trans [OF that(2)] by blast
  have created: "fs_step fs (map_name name g fs3) \<and> g < length (fs_files (map_name name g fs3))"
    if "fs_step fs fs1" "new_inode i fs1 = (j, fs2)" "os_inode_new rd wr j fs2 = (g, fs3)" for i fs1 rd wr g j fs2 fs3
    using new_objects_step(1) [OF that(2)] new_objects_step(2) [OF that(3)] fs_step_trans [OF that(1)] fs_step_trans names_step(1) [of g fs3 name]
    by (auto simp: map_name_def)
  have again: "fs_step fs (map_name name g (fs1\<lparr>recycled_map := (recycled_map fs1)(name := None)\<rparr>)) \<and> g < length (fs_files fs1)"
    if "fs_step fs fs1" "recycled_map fs1 name = Some g" for fs1 g
  proof -
    have "fs_ok fs1" using that(1) ok by (simp add: fs_step_def)
    then have g: "g < length (fs_files fs1)" using that(2) by (simp add: fs_ok_def)
    then show ?thesis
      using fs_step_trans [OF that(1) fs_step_trans [OF names_step(2) names_step(1)], of g name name] by simp
  qed
  show ?thesis
  proof (cases "hard_link_map fs name")
    case (Some f)
    obtain rd wr where rw: "read_write fl = (rd, wr)" by (cases "read_write fl")
    show ?thesis
    proof (cases "contains fl CREATE \<or> contains fl TRUNC")
      case True
      with assms(1) Some rw obtain fs1 g where "fs_step fs fs1" "os_inode_new rd wr (oi_inode (fs_files fs1 ! f)) fs1 = (g, fs')" "r = Some g"
        by (auto simp: open_file_def split: prod.splits if_splits elim!: rbind_InrE dest!: fs_do_step)
      then show ?thesis using opened [OF Some] by blast
    next
      case False
      with assms(1) Some rw opened [OF Some fs_step_refl, of rd wr] show ?thesis
        by (auto simp: open_file_def split: prod.splits)
    qed
  next
    case None
    obtain rd wr where rw: "read_write fl = (rd, wr)" by (cases "read_write fl")
    show ?thesis
    proof (cases "contains fl CREATE")
      case True
      with assms(1) None rw obtain x fs1 where c: "fs_do (inode_create D (fs_efs fs) name (fs_root fs)) fs = Inr (x, fs1)"
        by (auto simp: open_file_def elim!: rbind_InrE)
      have s1: "fs_step fs fs1" by (rule fs_do_step [OF c])
      show ?thesis
      proof (cases x)
        case (Some i)
        obtain j fs2 where n: "new_inode i fs1 = (j, fs2)" by (cases "new_inode i fs1")
        obtain g fs3 where o: "os_inode_new rd wr j fs2 = (g, fs3)" by (cases "os_inode_new rd wr j fs2")
        show ?thesis using created [OF s1 n o] assms(1) None True rw c Some n o by (simp add: open_file_def) blast
      next
        case x: None
        with assms(1) None True rw c obtain g where g: "recycled_map fs1 name = Some g" by (auto simp: open_file_def unwrapE_eq_Inr elim!: rbind_InrE)
        show ?thesis using again [OF s1 g] assms(1) None True rw c x g by (auto simp: open_file_def map_name_def)
      qed
    qed (use assms(1) None rw in \<open>auto simp: open_file_def\<close>)
  qed
qed

text \<open>Mailboxes.\<close>

lemma from_buffer_loop_ok:
  "from_buffer_loop m p it = Inr p' \<Longrightarrow> mp_ok p \<Longrightarrow> mp_len p < PACKET_BUFFER_SIZE \<Longrightarrow> mp_ok p'"
proof (induction m p it arbitrary: p' rule: from_buffer_loop.induct)
  case (1 m p it)
  from "1.prems"(1) obtain r it' where n: "ub_next it = Inr (r, it')"
    by (subst (asm) from_buffer_loop.simps) (auto elim!: rbind_InrE)
  show ?case
  proof (cases r)
    case None
    then show ?thesis using "1.prems" n by (subst (asm) from_buffer_loop.simps) auto
  next
    case (Some q)
    let ?p = "p\<lparr>mp_arr := (mp_arr p)[mp_len p := ptr_read m q], mp_len := mp_len p + 1\<rparr>"
    have l: "mp_len p < length (mp_arr p)" "mp_ok ?p" using "1.prems"(2,3) by (auto simp: mp_ok_def)
    from "1.prems"(1) n Some l(1) have e: "(if PACKET_BUFFER_SIZE \<le> mp_len ?p then Inr ?p else from_buffer_loop m ?p it') = Inr p'"
      by (subst (asm) from_buffer_loop.simps) (simp add: Let_def split: if_splits)
    show ?thesis
    proof (cases "PACKET_BUFFER_SIZE \<le> mp_len ?p")
      case False
      show ?thesis by (rule "1.IH" [OF n refl Some _ refl]) (use e l False in auto)
    qed (use e l(2) in auto)
  qed
qed

lemma mail_box_write_ok: "mail_box_write b m mb = Inr (v, mb') \<Longrightarrow> mb_inv mb \<Longrightarrow> mb_inv mb'"
  using from_buffer_loop_ok [of m mail_packet_new "ub_into_iter b"]
  by (auto simp: mail_box_write_def mail_packet_from_buffer_def mail_packet_new_def mb_inv_def mp_ok_def PACKET_BUFFER_SIZE_def
    split: if_splits elim!: rbind_InrE)

lemma mail_box_read_ok: "mail_box_read b mb m = Inr (v, mb', m') \<Longrightarrow> mb_inv mb \<Longrightarrow> mb_inv mb'"
  by (auto simp: mail_box_read_def mb_inv_def Let_def split: if_splits list.splits elim!: rbind_InrE)

lemma refs_ok_mail: "refs_ok k \<Longrightarrow> mb_inv mb \<Longrightarrow> refs_ok (upd_task t (\<lambda>c. c\<lparr>tcb_mail_box := mb\<rparr>) k)"
  by (rule refs_ok_upd) (auto simp: tcb_ok_def)

lemma task_mail_ok: "refs_ok k \<Longrightarrow> t < length (k_tasks k) \<Longrightarrow> mb_inv (tcb_mail_box (task_at k t))"
  using refs_ok_task by (auto simp: tcb_ok_def)

lemma set_task_mail_refs: "set_task_mail pid buf k = Inr (v, k') \<Longrightarrow> refs_ok k \<Longrightarrow> refs_ok k'"
proof -
  assume e: "set_task_mail pid buf k = Inr (v, k')" and ok: "refs_ok k"
  have "t < length (k_tasks k)" if "find P (ready k) = Some t" for P t
  proof -
    have "t \<in> set (ready k)" using that by (auto simp: find_Some_iff)
    then show ?thesis using ok by (auto simp: refs_ok_def)
  qed
  then show ?thesis
    using e ok by (auto simp: set_task_mail_def split: option.splits elim!: rbind_InrE intro!: refs_ok_mail
      dest: mail_box_write_ok task_mail_ok)
qed

text \<open>Calls on files.\<close>

lemma file_read_refs:
  assumes "file_read D f buf k = kret r" and ok: "refs_ok k" and f: "ref_ok (length (fs_files (k_fs k))) (length (ph_pipes (k_pipes k))) f"
  shows "sys_refs r"
proof (cases f)
  case (FPipe p)
  have "refs_ok (k\<lparr>k_pipes := pipe_arc_clone p (k_pipes k)\<rparr>)" by (rule refs_ok_pipes [OF ok]) (use ok in \<open>auto simp: refs_ok_def\<close>)
  then show ?thesis using assms(1) f FPipe by (auto simp: file_read_def kbind_eq_ret ref_ok_def elim!: pipe_reading_refs)
next
  case (FInode i)
  with assms(1) obtain n fs m where r: "os_read_loop D i buf 0 (k_fs k, k_mach k) = Inr (n, fs, m)"
    and e: "ret (word_of_nat n) (k\<lparr>k_fs := fs, k_mach := m\<rparr>) = kret r"
    by (auto simp: file_read_def kbind_eq_ret os_read_def)
  have "refs_ok (k\<lparr>k_fs := fs\<rparr>)" by (rule refs_ok_fs_step [OF ok os_read_step [OF r]])
  with e show ?thesis by (auto elim!: ret_refs)
qed (use assms in \<open>auto simp: file_read_def kbind_eq_ret stdin_read_def elim!: stdin_reading_refs\<close>)

lemma file_write_refs:
  assumes "file_write D f buf k = kret r" and ok: "refs_ok k" and f: "ref_ok (length (fs_files (k_fs k))) (length (ph_pipes (k_pipes k))) f"
  shows "sys_refs r"
proof (cases f)
  case (FPipe p)
  have "refs_ok (k\<lparr>k_pipes := pipe_arc_clone p (k_pipes k)\<rparr>)" by (rule refs_ok_pipes [OF ok]) (use ok in \<open>auto simp: refs_ok_def\<close>)
  then show ?thesis using assms(1) f FPipe by (auto simp: file_write_def kbind_eq_ret ref_ok_def elim!: pipe_writing_refs)
next
  case (FInode i)
  with assms(1) obtain n fs where r: "os_write_loop D i (k_mach k) buf 0 (k_fs k) = Inr (n, fs)"
    and e: "ret (word_of_nat n) (k\<lparr>k_fs := fs\<rparr>) = kret r"
    by (auto simp: file_write_def kbind_eq_ret os_write_def)
  have "refs_ok (k\<lparr>k_fs := fs\<rparr>)" by (rule refs_ok_fs_step [OF ok os_write_step [OF r]])
  with e show ?thesis by (auto elim!: ret_refs)
qed (use assms print_slices_refs in \<open>auto simp: file_write_def kbind_eq_ret stdout_write_def elim!: ret_refs\<close>)

lemma table_ref_ok:
  assumes "refs_ok k" and "current_task k = Inr t" and "fd < length (fd_table (task_at k t))" and "fd_table (task_at k t) ! fd = Some f"
  shows "ref_ok (length (fs_files (k_fs k))) (length (ph_pipes (k_pipes k))) f"
proof -
  have "Some f \<in> set (fd_table (task_at k t))" using assms(3,4) by (metis nth_mem)
  then show ?thesis using refs_ok_task [OF assms(1) refs_ok_current [OF assms(1,2)]] by (simp add: tcb_ok_def)
qed

lemma sys_write_refs: "sys_write D fd buf len k = kret r \<Longrightarrow> refs_ok k \<Longrightarrow> sys_refs r"
  by (auto simp: sys_write_def Let_def kbind_eq_ret not_le split: if_splits option.splits elim!: ret_refs file_write_refs
    intro: table_ref_ok)

lemma sys_read_refs: "sys_read D fd buf len k = kret r \<Longrightarrow> refs_ok k \<Longrightarrow> sys_refs r"
  by (auto simp: sys_read_def Let_def kbind_eq_ret not_le split: if_splits option.splits elim!: ret_refs file_read_refs
    intro: table_ref_ok)

lemma install_fd_refs:
  assumes "install_fd t f k = (fd, k')" and ok: "refs_ok k" and f: "ref_ok (length (fs_files (k_fs k))) (length (ph_pipes (k_pipes k))) f"
    and t: "t < length (k_tasks k)"
  shows "refs_ok k' \<and> length (k_tasks k') = length (k_tasks k) \<and> k_fs k' = k_fs k \<and> k_pipes k' = k_pipes k"
  using t
proof (rule install_fd_eq [of t k f], goal_cases)
  case (1 new table)
  have k': "k' = upd_task t (\<lambda>c. c\<lparr>fd_table := table[new := Some f]\<rparr>) k" using assms(1) 1(1) by auto
  have "Some g \<in> set (fd_table (task_at k t))" if "Some g \<in> set table" for g using that 1(2) by auto
  then have "ref_ok (length (fs_files (k_fs k))) (length (ph_pipes (k_pipes k))) g" if "Some g \<in> set (table[new := Some f])" for g
    using that f refs_ok_task [OF ok t] set_update_subset_insert [of table new "Some f"] by (auto simp: tcb_ok_def)
  then have "refs_ok (upd_task t (\<lambda>c. c\<lparr>fd_table := table[new := Some f]\<rparr>) k)"
    by (intro refs_ok_upd [OF ok]) (auto simp: tcb_ok_def)
  then show ?case by (simp add: k')
qed

lemma sys_close_refs: "sys_close fd k = kret r \<Longrightarrow> refs_ok k \<Longrightarrow> sys_refs r"
proof -
  assume e: "sys_close fd k = kret r" and ok: "refs_ok k"
  have "refs_ok (k\<lparr>k_pipes := drop_file f (k_pipes k)\<rparr>)" for f by (rule refs_ok_pipes [OF ok]) (use ok in \<open>auto simp: refs_ok_def\<close>)
  then have "refs_ok (upd_task t (\<lambda>c. c\<lparr>fd_table := (fd_table c)[i := None]\<rparr>) (k\<lparr>k_pipes := drop_file f (k_pipes k)\<rparr>))" for t i f
    by (rule refs_ok_upd) (auto simp: tcb_ok_def dest!: set_update_subset_insert [THEN subsetD])
  then show ?thesis
    using e ok by (auto simp: sys_close_def Let_def kbind_eq_ret split: if_splits option.splits elim!: ret_refs)
qed

lemma sys_dup_refs:
  assumes "sys_dup fd k = kret r" and ok: "refs_ok k"
  shows "sys_refs r"
proof -
  have inst: "refs_ok (k'\<lparr>k_pipes := clone_file f (k_pipes k')\<rparr>)"
    if "current_task k = Inr t" "unat fd < length (fd_table (task_at k t))" "fd_table (task_at k t) ! unat fd = Some f" "k' = snd (install_fd t f k)"
    for t f k'
  proof -
    from install_fd_refs [OF prod.collapse [symmetric] ok table_ref_ok [OF ok that(1-3)] refs_ok_current [OF ok that(1)]] that(4)
    have k': "refs_ok k'" by simp
    show ?thesis by (rule refs_ok_pipes [OF k']) (use k' in \<open>auto simp: refs_ok_def\<close>)
  qed
  show ?thesis
    using assms inst by (auto simp: sys_dup_def Let_def kbind_eq_ret not_le case_prod_beta split: if_splits option.splits elim!: ret_refs)
qed

lemma make_pipe_ok:
  assumes "pipes_ok h" and "make_pipe h = ((i, j), h')"
  shows "pipes_ok h' \<and> i < length (ph_pipes h') \<and> j < length (ph_pipes h') \<and> length (ph_pipes h) \<le> length (ph_pipes h')"
  using assms
  by (fastforce simp: make_pipe_def Let_def pipes_ok_def set_write_end_def pipe_ring_buffer_new_def rb_inv_def RING_BUFFER_SIZE_def
    read_end_with_buffer_def write_end_with_buffer_def less_Suc_eq)

lemma sys_pipe_refs:
  assumes "sys_pipe pipe k = kret r" and ok: "refs_ok k"
  shows "sys_refs r"
proof -
  from assms(1) obtain t token where t: "current_task k = Inr t" and token: "current_user_token k = Inr token"
    by (auto simp: sys_pipe_def kbind_eq_ret)
  obtain i j h where mk: "make_pipe (k_pipes k) = ((i, j), h)" by (cases "make_pipe (k_pipes k)") auto
  have h: "pipes_ok h \<and> i < length (ph_pipes h) \<and> j < length (ph_pipes h) \<and> length (ph_pipes (k_pipes k)) \<le> length (ph_pipes h)"
    by (rule make_pipe_ok [OF _ mk]) (use ok in \<open>simp add: refs_ok_def\<close>)
  have k0: "refs_ok (k\<lparr>k_pipes := h\<rparr>)" using h by (intro refs_ok_pipes [OF ok]) auto
  obtain a k1 where i1: "install_fd t (FPipe i) (k\<lparr>k_pipes := h\<rparr>) = (a, k1)" by (cases "install_fd t (FPipe i) (k\<lparr>k_pipes := h\<rparr>)")
  obtain b k2 where i2: "install_fd t (FPipe j) k1 = (b, k2)" by (cases "install_fd t (FPipe j) k1")
  have t': "t < length (k_tasks k)" by (rule refs_ok_current [OF ok t])
  have r1: "refs_ok k1 \<and> length (k_tasks k1) = length (k_tasks k) \<and> k_fs k1 = k_fs k \<and> k_pipes k1 = h"
    using install_fd_refs [OF i1 k0] h t' by (auto simp: ref_ok_def)
  then have "refs_ok k2" using install_fd_refs [OF i2] h t' by (auto simp: ref_ok_def)
  then show ?thesis
    using assms t token mk i1 i2 by (auto simp: sys_pipe_def Let_def kbind_eq_ret split: if_splits elim!: ret_refs)
qed

lemma sys_openat_refs:
  assumes "sys_openat D path fl k = kret r" and ok: "refs_ok k"
  shows "sys_refs r"
proof -
  have fs: "refs_ok (k\<lparr>k_fs := fs\<rparr>) \<and> (\<forall>f. x = Some f \<longrightarrow> f < length (fs_files fs))" if "open_file D name m (k_fs k) = Inr (x, fs)" for name m x fs
    using open_file_step [OF that] refs_ok_fs_step [OF ok] ok by (auto simp: refs_ok_def)
  have inst: "refs_ok (snd (install_fd t (FInode f) (k\<lparr>k_fs := fs\<rparr>)))"
    if "open_file D name m (k_fs k) = Inr (Some f, fs)" "current_task k = Inr t" for name m f fs t
    using install_fd_refs [OF prod.collapse [symmetric], where t = t and f = "FInode f" and k = "k\<lparr>k_fs := fs\<rparr>"] fs [OF that(1)] refs_ok_current [OF ok that(2)]
    by (auto simp: ref_ok_def)
  show ?thesis
    using assms fs inst
    by (auto simp: sys_openat_def Let_def kbind_eq_ret case_prod_beta split: if_splits option.splits elim!: ret_refs)
qed

lemma sys_names_refs:
  "sys_linkat old new k = kret r \<Longrightarrow> refs_ok k \<Longrightarrow> sys_refs r"
  "sys_unlinkat path k = kret r \<Longrightarrow> refs_ok k \<Longrightarrow> sys_refs r"
  by (auto simp: sys_linkat_def sys_unlinkat_def Let_def kbind_eq_ret case_prod_beta split: if_splits
    elim!: ret_refs intro: refs_ok_fs_step link_step unlink_step)

lemma sys_fstat_refs: "sys_fstat fd st k = kret r \<Longrightarrow> refs_ok k \<Longrightarrow> sys_refs r"
  by (auto simp: sys_fstat_def Let_def kbind_eq_ret split: if_splits option.splits elim!: ret_refs)

lemma sys_mail_refs:
  "sys_mail_read buf len k = kret r \<Longrightarrow> refs_ok k \<Longrightarrow> sys_refs r"
  "sys_mail_write pid buf len k = kret r \<Longrightarrow> refs_ok k \<Longrightarrow> sys_refs r"
  by (auto simp: sys_mail_read_def sys_mail_write_def kbind_eq_ret split: if_splits elim!: ret_refs
    intro!: refs_ok_mail dest: mail_box_read_ok mail_box_write_ok set_task_mail_refs task_mail_ok refs_ok_current)

text \<open>Calls on processes.\<close>

lemma task_fork_refs:
  assumes "task_fork pf t k = Inr (Some c, k')" and ok: "refs_ok k" and t: "t < length (k_tasks k)"
  shows "refs_ok k' \<and> c < length (k_tasks k')"
  using assms(1)
proof (rule task_forkE, goal_cases)
  case (1 ms m1 ppn pid top cx k2)
  have k2: "k_tasks k2 = k_tasks k" "k_manager k2 = k_manager k" "k_proc k2 = k_proc k" "k_initproc k2 = k_initproc k"
    "k_pipes k2 = k_pipes k" "k_fs k2 = k_fs k"
    using 1(3) by (auto simp: alloc_kernel_stack_def Let_def case_prod_beta elim!: rbind_InrE)
  have r2: "refs_ok k2" using ok by (simp add: refs_ok_def k2)
  let ?p = "task_at k2 t"
  define h where "h = snd (clone_fds (fd_table ?p) [] (k_pipes k2))"
  define child where "child = \<lparr>tcb_pid = pid, strong_count = 2, task_cx_ptr = cx, task_status = Ready, task_stride = 0,
    task_priority = task_priority ?p, tcb_memory_set = ms, trap_cx_ppn = ppn, base_size = base_size ?p, tcb_parent = Some t,
    children = [], exit_code = 0, fd_table = fd_table ?p, tcb_mail_box = copy_mails (mb_packets (tcb_mail_box ?p)) mail_box_new,
    tcb_cont = TrapReturn\<rparr>"
  have h: "pipes_ok h" "length (ph_pipes h) = length (ph_pipes (k_pipes k2))" using r2 by (auto simp: h_def clone_fds_ok refs_ok_def)
  have r3: "refs_ok (k2\<lparr>k_pipes := h\<rparr>)" using h by (intro refs_ok_pipes [OF r2]) auto
  have p: "tcb_ok (length (k_tasks k2)) (length (fs_files (k_fs k2))) (length (ph_pipes h)) ?p"
    using refs_ok_task [OF r2] t h(2) by (simp add: k2)
  then have "tcb_ok (Suc (length (k_tasks k2))) (length (fs_files (k_fs k2))) (length (ph_pipes h)) child"
    using t by (simp add: tcb_ok_def child_def cont_ok_def copy_mails_new k2)
  then have "refs_ok (k2\<lparr>k_pipes := h, k_tasks := k_tasks k2 @ [child]\<rparr>)" (is "refs_ok ?k")
    using r3 tcb_ok_mono [where n = "length (k_tasks k2)" and n' = "Suc (length (k_tasks k2))"] by (auto simp: refs_ok_def less_Suc_eq)
  then have "refs_ok (upd_task t (\<lambda>p. p\<lparr>children := children p @ [c]\<rparr>) ?k)"
    by (rule refs_ok_upd) (use 1(4) in \<open>simp add: tcb_ok_def\<close>)
  then show ?case unfolding 1(5) by (simp add: 1(4) h_def child_def clone_fds_ok)
qed

lemma task_fork_none_refs: "task_fork pf t k = Inr (None, k') \<Longrightarrow> refs_ok k \<Longrightarrow> refs_ok k'"
  by (auto simp: task_fork_def Let_def split: option.splits prod.splits elim!: rbind_InrE)

lemma task_fork_result:
  assumes "task_fork pf t k = Inr (x, k')" and "refs_ok k" and "t < length (k_tasks k)"
  shows "refs_ok k'" and "x = Some c \<Longrightarrow> c < length (k_tasks k')"
  using assms task_fork_none_refs task_fork_refs by (cases x; fastforce)+

lemma set_a0_refs [simp]: "refs_ok (set_a0 t v k) = refs_ok k"
  by (simp add: set_a0_def)

lemma task_exec_refs:
  assumes "task_exec pf t d args k = Inr k'" and "refs_ok k"
  shows "refs_ok k' \<and> length (k_tasks k') = length (k_tasks k)"
proof -
  obtain m ms p where "k' = upd_task t (\<lambda>c. c\<lparr>tcb_memory_set := ms, trap_cx_ppn := p\<rparr>) (k\<lparr>k_mach := m\<rparr>)"
    using assms by (auto simp: task_exec_def Let_def elim!: rbind_InrE)
  moreover have "refs_ok (upd_task t (\<lambda>c. c\<lparr>tcb_memory_set := ms, trap_cx_ppn := p\<rparr>) (k\<lparr>k_mach := m\<rparr>))"
    by (rule refs_ok_upd) (use assms(2) in simp_all)
  ultimately show ?thesis by simp
qed

lemma add_task_refs: "refs_ok k \<Longrightarrow> c < length (k_tasks k) \<Longrightarrow> refs_ok (add_task c k)"
  by (simp add: refs_ok_def add_task_def tm_add_def)

lemma length_set_a0 [simp]: "length (k_tasks (set_a0 t v k)) = length (k_tasks k)"
  by (simp add: set_a0_def)

lemma sys_fork_refs:
  assumes "sys_fork pf k = kret r" and ok: "refs_ok k"
  shows "sys_refs r"
proof -
  from assms(1) obtain t where t: "current_task k = Inr t" by (auto simp: sys_fork_def kbind_eq_ret)
  have l: "t < length (k_tasks k)" by (rule refs_ok_current [OF ok t])
  have "refs_ok (upd_task t (\<lambda>c. c\<lparr>strong_count := strong_count c + 1\<rparr>) k)" by (rule refs_ok_upd [OF ok]) simp
  then have x: "refs_ok k'" if "exit_current_and_run_next e (upd_task t (\<lambda>c. c\<lparr>strong_count := strong_count c + 1\<rparr>) k) = Inr k'" for e k'
    using exit_refs that by blast
  have f: "refs_ok (add_task c (set_a0 c 0 k1))" if "task_fork pf t k = Inr (Some c, k1)" for c k1
    using task_fork_refs [OF that ok l] by (simp add: add_task_refs)
  show ?thesis
    using assms(1) t
    by (auto simp: sys_fork_def kbind_eq_ret sys_refs_def ret_def split: if_splits option.splits
      intro: x [simplified] task_fork_result(1) [OF _ ok l] intro!: f)
qed

lemma sys_spawn_refs:
  assumes "sys_spawn D pf path k = kret r" and ok: "refs_ok k"
  shows "sys_refs r"
proof -
  have fs1: "refs_ok (k\<lparr>k_fs := fs1\<rparr>)" if "open_file D name m (k_fs k) = Inr (x, fs1)" for name m x fs1
    using open_file_step [OF that] refs_ok_fs_step [OF ok] ok by (auto simp: refs_ok_def)
  have fs2: "refs_ok (k\<lparr>k_fs := fs2\<rparr>)" if "open_file D name m (k_fs k) = Inr (x, fs1)" "read_all D f fs1 = kret (d, fs2)" for name m x fs1 f d fs2
    using refs_ok_fs_step [OF fs1 [OF that(1)], of fs2] read_all_step [OF that(2)] by simp
  have none: "refs_ok k1"
    if "refs_ok (k\<lparr>k_fs := fs2\<rparr>)" "current_task k = Inr t" "task_fork pf t (k\<lparr>k_fs := fs2\<rparr>) = Inr (x, k1)" for fs2 t x k1
    using task_fork_result(1) [OF that(3,1)] refs_ok_current [OF ok that(2)] by simp
  have forked: "refs_ok (add_task c k2)"
    if "refs_ok (k\<lparr>k_fs := fs2\<rparr>)" "current_task k = Inr t" "task_fork pf t (k\<lparr>k_fs := fs2\<rparr>) = Inr (Some c, k1)"
      "task_exec pf c d [] (set_a0 c 0 k1) = Inr k2" for fs2 t c k1 d k2
    using task_fork_refs [OF that(3,1)] refs_ok_current [OF ok that(2)] task_exec_refs [OF that(4)] by (simp add: add_task_refs)
  show ?thesis
    using assms(1) fs1
    by (auto simp: sys_spawn_def kbind_eq_ret split: option.splits elim!: ret_refs)
      (blast intro: forked [OF fs2] none [OF fs2])+
qed

lemma sys_exec_refs:
  assumes "sys_exec D pf path args k = kret r" and ok: "refs_ok k"
  shows "sys_refs r"
proof -
  have fs1: "refs_ok (k\<lparr>k_fs := fs1\<rparr>)" if "open_file D name m (k_fs k) = Inr (x, fs1)" for name m x fs1
    using open_file_step [OF that] refs_ok_fs_step [OF ok] ok by (auto simp: refs_ok_def)
  have fs2: "refs_ok (k\<lparr>k_fs := fs2\<rparr>)" if "open_file D name m (k_fs k) = Inr (x, fs1)" "read_all D f fs1 = kret (d, fs2)" for name m x fs1 f d fs2
    using refs_ok_fs_step [OF fs1 [OF that(1)], of fs2] read_all_step [OF that(2)] by simp
  show ?thesis
    using assms(1) fs1
    by (auto simp: sys_exec_def kbind_eq_ret split: option.splits elim!: ret_refs dest: task_exec_refs [OF _ fs2])
qed

lemma reap_refs:
  assumes "reap p task idx ptr k = Inr (v, k')" and ok: "refs_ok k"
  shows "refs_ok k'"
proof -
  have "set (remove_nth idx xs) \<subseteq> set xs" for xs :: "nat list"
    using set_take_subset set_drop_subset by (fastforce simp: remove_nth_def)
  then have "refs_ok (upd_task task (\<lambda>c. c\<lparr>children := remove_nth idx (children c)\<rparr>) k)"
    by (intro refs_ok_upd [OF ok]) (fastforce simp: tcb_ok_def)
  then show ?thesis
    using assms(1) by (auto simp: reap_def Let_def split: if_splits elim!: rbind_InrE intro: drop_tasks_refs)
qed

lemma waitpid_refs:
  "sys_waitpid_non_blocking pid ptr k = kret r \<Longrightarrow> refs_ok k \<Longrightarrow> sys_refs r"
  "waitpid_waiting pid ptr k = kret r \<Longrightarrow> refs_ok k \<Longrightarrow> sys_refs r"
  by (auto simp: sys_waitpid_non_blocking_def waitpid_waiting_def kbind_eq_ret cont_ok_def split: if_splits option.splits
    elim!: ret_refs lift_sys_refs suspend_in_refs dest: reap_refs)

lemma lifted_refs:
  "sys_get_time pf ts k = kret r \<Longrightarrow> refs_ok k \<Longrightarrow> sys_refs r"
  "sys_set_priority pr k = kret r \<Longrightarrow> refs_ok k \<Longrightarrow> sys_refs r"
  "sys_mmap a l port k = kret r \<Longrightarrow> refs_ok k \<Longrightarrow> sys_refs r"
  "sys_munmap a l k = kret r \<Longrightarrow> refs_ok k \<Longrightarrow> sys_refs r"
  by (auto simp: sys_get_time_def sys_set_priority_def sys_mmap_def sys_munmap_def get_time_sys_def get_time_us_def get_time_def
      set_task_priority_def set_priority_def map_virtual_pages_def unmap_virtual_pages_def Let_def
    split: if_splits elim!: lift_sys_refs rbind_InrE intro!: refs_ok_upd)

lemma sys_exit_refs: "sys_exit code k = kret r \<Longrightarrow> refs_ok k \<Longrightarrow> sys_refs r"
  using exit_refs by (auto simp: sys_exit_def kbind_eq_ret sys_refs_def)

lemma sys_yield_refs: "sys_yield k = kret r \<Longrightarrow> refs_ok k \<Longrightarrow> sys_refs r"
  by (auto simp: sys_yield_def cont_ok_def elim!: suspend_in_refs)

lemma sys_getpid_refs: "sys_getpid k = kret r \<Longrightarrow> refs_ok k \<Longrightarrow> sys_refs r"
  by (auto simp: sys_getpid_def kbind_eq_ret elim!: ret_refs)

lemmas sys_calls_refs =
  sys_read_refs sys_write_refs sys_exit_refs sys_yield_refs lifted_refs sys_getpid_refs sys_fork_refs sys_exec_refs
  waitpid_refs(1) sys_spawn_refs sys_close_refs sys_pipe_refs sys_mail_refs sys_dup_refs
  sys_openat_refs sys_names_refs sys_fstat_refs

lemma syscall_refs: "syscall D pf n args k = kret r \<Longrightarrow> refs_ok k \<Longrightarrow> sys_refs r"
  unfolding syscall_def by (simp split: if_splits) (erule (1) sys_calls_refs)+

lemma deliver_refs: "deliver r = Inr k' \<Longrightarrow> sys_refs r \<Longrightarrow> refs_ok k'"
  by (cases r) (auto simp: deliver_def sys_refs_def elim!: rbind_InrE)

lemma trap_handler_refs:
  assumes "trap_handler D pf cause k = kret k'" and ok: "refs_ok k"
  shows "refs_ok k'"
proof -
  have "refs_ok (set_next_trigger pf k)" using ok by (simp add: set_next_trigger_def get_time_def)
  then have s: "refs_ok k2" if "suspend_current_and_run_next TrapReturn (set_next_trigger pf k) = Inr k2" for k2
    using suspend_refs [OF that] by (simp add: cont_ok_def)
  have c: "sys_refs r" if "syscall D pf n args (k\<lparr>k_mach := m\<rparr>) = kret r" for n args m r
    using syscall_refs [OF that] ok by simp
  show ?thesis
    using assms s by (cases cause) (auto simp: trap_handler_def Let_def kbind_eq_ret intro: exit_refs deliver_refs c)
qed

lemma run_current_refs:
  assumes "run_current k = kret k'" and ok: "refs_ok k"
  shows "refs_ok k'"
proof -
  from assms(1) obtain t where t: "current_task k = Inr t" and r: "resume_task (tcb_cont (task_at k t)) k = kret k'"
    by (auto simp: run_current_def kbind_eq_ret)
  have "cont_ok (length (ph_pipes (k_pipes k))) (tcb_cont (task_at k t))"
    using refs_ok_task [OF ok refs_ok_current [OF ok t]] by (simp add: tcb_ok_def)
  moreover have "sys_refs (Return 0 k)" using ok by (simp add: sys_refs_def)
  ultimately show ?thesis
    using r ok
    by (cases "tcb_cont (task_at k t)")
      (auto simp: resume_task_def kbind_eq_ret cont_ok_def
        intro: deliver_refs pipe_reading_refs pipe_writing_refs stdin_reading_refs waitpid_refs(2))
qed

lemma kernel_step_refs: "kernel_step D pf k k' \<Longrightarrow> refs_ok k \<Longrightarrow> refs_ok k'"
  by (induction rule: kernel_step.induct) (auto intro: trap_handler_refs run_current_refs)

end
