(* ===== verification/Memory_Set_Spec.thy ===== *)
theory Memory_Set_Spec
  imports Memory_Set
begin

text \<open>
  What the operations on address spaces do to the pages a process sees. A list \<open>es\<close> of pages with
  their frames describes what has been mapped; \<open>mapped\<close> says that exactly these pages were added
  to the page table with the given flags, in frames nobody used before, and that nothing else
  changed.
\<close>

section \<open>Pages added to a table\<close>

definition frame_at :: "frame_map \<Rightarrow> virt_page_num \<Rightarrow> phys_page_num option" where
  "frame_at es u = map_of (map (\<lambda>(v, p). (indexes v, p)) es) (indexes u)"

definition view_with :: "pte_flags \<Rightarrow> frame_map \<Rightarrow> (virt_page_num \<Rightarrow> page_table_entry option) \<Rightarrow> virt_page_num \<Rightarrow> page_table_entry option" where
  "view_with fl es view u = (case frame_at es u of Some p \<Rightarrow> Some (pte_new p (fl OR PTE_V)) | None \<Rightarrow> view u)"

definition mapped :: "usize \<Rightarrow> pte_flags \<Rightarrow> frame_map \<Rightarrow> page_table \<times> machine \<Rightarrow> page_table \<times> machine \<Rightarrow> bool" where
  "mapped l fl es = (\<lambda>(pt, m) (pt', m'). pt_inv l (pt', m')
     \<and> pt_view (pt', m') = view_with fl es (pt_view (pt, m))
     \<and> set (pt_frames pt) \<subseteq> set (pt_frames pt')
     \<and> fa_used l (frames m') = fa_used l (frames m) \<union> set (pt_frames pt') \<union> snd ` set es
     \<and> (set (pt_frames pt') - set (pt_frames pt)) \<inter> fa_used l (frames m) = {}
     \<and> snd ` set es \<inter> (fa_used l (frames m) \<union> set (pt_frames pt')) = {}
     \<and> distinct (map snd es)
     \<and> (\<forall>k. k \<notin> set (pt_frames pt') \<longrightarrow> k \<notin> snd ` set es \<longrightarrow> phys m' k = phys m k)
     \<and> (\<forall>k \<in> snd ` set es. phys m' k = replicate 4096 0)
     \<and> fa_end (frames m') = fa_end (frames m))"

lemma frame_at_simps [simp]:
  "frame_at [] u = None"
  "frame_at ((v, p) # es) u = (if indexes u = indexes v then Some p else frame_at es u)"
  by (simp_all add: frame_at_def)

lemma frame_at_None_iff: "frame_at es u = None \<longleftrightarrow> indexes u \<notin> indexes ` fst ` set es"
  by (simp add: frame_at_def map_of_eq_None_iff image_image case_prod_beta)

lemma frame_at_mem:
  "distinct (map indexes (map fst es)) \<Longrightarrow> (v, p) \<in> set es \<Longrightarrow> frame_at es v = Some p"
  by (induction es) (auto simp: rev_image_eqI)

lemma view_with_Nil [simp]: "view_with fl [] view = view"
  by (simp add: view_with_def fun_eq_iff)

lemma view_with_other:
  assumes "indexes v \<notin> indexes ` set (map fst es)"
  shows "view_with fl es view v = view v"
proof -
  have "frame_at es v = None" using assms by (simp add: frame_at_None_iff)
  then show ?thesis by (simp add: view_with_def)
qed

lemma view_with_Cons:
  assumes "indexes v \<notin> indexes ` fst ` set es"
  shows "view_with fl es (view_with fl [(v, p)] view) = view_with fl ((v, p) # es) view"
proof
  fix u
  show "view_with fl es (view_with fl [(v, p)] view) u = view_with fl ((v, p) # es) view u"
  proof (cases "indexes u = indexes v")
    case True
    then have "frame_at es u = None" using assms by (simp add: frame_at_None_iff)
    then show ?thesis using True by (simp add: view_with_def)
  qed (simp add: view_with_def split: option.split)
qed

lemma mappedD:
  assumes "mapped l fl es (pt, m) (pt', m')"
  shows "pt_inv l (pt', m')" and "pt_view (pt', m') = view_with fl es (pt_view (pt, m))"
    and "set (pt_frames pt) \<subseteq> set (pt_frames pt')"
    and "fa_used l (frames m') = fa_used l (frames m) \<union> set (pt_frames pt') \<union> snd ` set es"
    and "(set (pt_frames pt') - set (pt_frames pt)) \<inter> fa_used l (frames m) = {}"
    and "snd ` set es \<inter> (fa_used l (frames m) \<union> set (pt_frames pt')) = {}"
    and "distinct (map snd es)"
    and "k \<notin> set (pt_frames pt') \<Longrightarrow> k \<notin> snd ` set es \<Longrightarrow> phys m' k = phys m k"
    and "k \<in> snd ` set es \<Longrightarrow> phys m' k = replicate 4096 0"
    and "fa_end (frames m') = fa_end (frames m)"
    and "k \<in> fa_used l (frames m) \<Longrightarrow> k \<notin> set (pt_frames pt) \<Longrightarrow> phys m' k = phys m k"
proof -
  show "k \<notin> set (pt_frames pt') \<Longrightarrow> k \<notin> snd ` set es \<Longrightarrow> phys m' k = phys m k"
    and "(set (pt_frames pt') - set (pt_frames pt)) \<inter> fa_used l (frames m) = {}"
    and "snd ` set es \<inter> (fa_used l (frames m) \<union> set (pt_frames pt')) = {}" for k
    using assms by (simp_all add: mapped_def)
  then show "k \<in> fa_used l (frames m) \<Longrightarrow> k \<notin> set (pt_frames pt) \<Longrightarrow> phys m' k = phys m k" by (metis DiffI IntI UnI1 emptyE)
qed (use assms in \<open>auto simp: mapped_def\<close>)

lemma mapped_refl: "pt_inv l s \<Longrightarrow> mapped l fl [] s s"
  by (cases s) (auto simp: mapped_def pt_inv_def)

lemma mapped_trans:
  assumes "mapped l fl [(v, p)] s s1" and "mapped l fl es s1 s2" and "indexes v \<notin> indexes ` fst ` set es"
  shows "mapped l fl ((v, p) # es) s s2"
proof -
  obtain pt m pt1 m1 pt2 m2 where s: "s = (pt, m)" "s1 = (pt1, m1)" "s2 = (pt2, m2)" by (metis surj_pair)
  have v: "pt_view s2 = view_with fl ((v, p) # es) (pt_view s)"
    using assms(1,2) view_with_Cons [OF assms(3), of fl p "pt_view s"] by (simp add: mapped_def s)
  have p2: "p \<notin> set (pt_frames pt2)" "p \<notin> snd ` set es"
    using assms(1,2) unfolding mapped_def s by auto
  show ?thesis
    using assms(1,2) v p2 unfolding mapped_def s
    by auto
qed

section \<open>Mapping an area\<close>

lemma btree_insert_last:
  "\<forall>k' \<in> set (map fst es). k' < k \<Longrightarrow> btree_insert k v es = (None, es @ [(k, v)])"
  by (induction es) auto

lemma map_one_framed:
  assumes inv: "pt_inv l (pt, m)" and un: "pt_view (pt, m) vpn = None" and free: "3 \<le> fa_free_count (frames m)"
    and ty: "map_type_of area = Framed" and keys: "\<forall>k \<in> set (map fst (data_frames area)). k < vpn"
  obtains ppn pt' m' where
    "map_one vpn (area, pt, m) = Inr (0, area\<lparr>data_frames := data_frames area @ [(vpn, ppn)]\<rparr>, pt', m')"
    and "mapped l (map_perm area) [(vpn, ppn)] (pt, m) (pt', m')"
    and "fa_free_count (frames m) \<le> fa_free_count (frames m') + 3"
proof -
  have mem: "mem_ok m" and fa: "fa_inv l (frames m)" and fe: "unat (fa_end (frames m)) \<le> 2 ^ 44"
    and sub: "set (pt_frames pt) \<subseteq> fa_used l (frames m)" using inv by (auto simp: pt_inv_def)
  have f0: "0 < fa_free_count (frames m)" using free by simp
  obtain f m1 where al: "frame_alloc m = (Some f, m1)" and f: "f \<notin> fa_used l (frames m)"
    and u1: "fa_used l (frames m1) = insert f (fa_used l (frames m))" and fa1: "fa_inv l (frames m1)"
    and e1: "fa_end (frames m1) = fa_end (frames m)" and c1: "fa_free_count (frames m) = Suc (fa_free_count (frames m1))"
    and p1: "phys m1 = (phys m)(f := replicate 4096 0)" and mem1: "mem_ok m1"
    by (rule frame_alloc_ok [OF fa f0 mem])
  have same: "phys m1 k = phys m k" if "k \<in> set (pt_frames pt)" for k using that sub f p1 by auto
  have fr: "pt_inv l (pt, m1)" "pt_view (pt, m1) = pt_view (pt, m)"
    by (rule pt_frame_rule [OF inv same mem1 fa1]; use e1 fe u1 sub in auto)+
  from pt_map_ok [OF fr(1), of vpn f "map_perm area"] un fr(2) free c1 obtain pt' m' where
    mp: "pt_map vpn f (map_perm area) (pt, m1) = Inr (pt', m')"
    and ch: "pt_changes l vpn (Some (pte_new f (map_perm area OR PTE_V))) (pt, m1) (pt', m')"
    and c2: "fa_free_count (frames m1) \<le> fa_free_count (frames m') + 2" by auto
  have view: "pt_view (pt', m') = view_with (map_perm area) [(vpn, f)] (pt_view (pt, m))"
    using ch fr(2) by (simp add: pt_changes_def view_with_def fun_eq_iff)
  have nf: "f \<notin> set (pt_frames pt')" using ch f sub u1 unfolding pt_changes_def by auto
  have "mapped l (map_perm area) [(vpn, f)] (pt, m) (pt', m')"
    using ch view nf f u1 e1 p1 unfolding mapped_def pt_changes_def by auto
  moreover have "map_one vpn (area, pt, m) = Inr (0, area\<lparr>data_frames := data_frames area @ [(vpn, f)]\<rparr>, pt', m')"
    using al mp ty btree_insert_last [OF keys, of f] by (simp add: map_one_def drop_option_def)
  ultimately show thesis using that c1 c2 by auto
qed

lemma map_loop_framed:
  assumes "pt_inv l (pt, m)" and "\<forall>v \<in> set vs. pt_view (pt, m) v = None" and "3 * length vs \<le> fa_free_count (frames m)"
    and "map_type_of area = Framed" and "distinct (map indexes vs)"
    and "sorted_wrt (<) (map fst (data_frames area) @ vs)"
  shows "\<exists>es pt' m'. map_loop vs (area, pt, m) = Inr (0, area\<lparr>data_frames := data_frames area @ es\<rparr>, pt', m')
    \<and> map fst es = vs \<and> mapped l (map_perm area) es (pt, m) (pt', m')
    \<and> fa_free_count (frames m) \<le> fa_free_count (frames m') + 3 * length vs"
  using assms
proof (induction vs arbitrary: area pt m)
  case Nil
  then show ?case by (intro exI [of _ "[]"] exI [of _ pt] exI [of _ m]) (simp add: mapped_refl)
next
  case (Cons v vs)
  have h: "pt_view (pt, m) v = None" "3 \<le> fa_free_count (frames m)" "\<forall>k \<in> set (map fst (data_frames area)). k < v"
    using Cons.prems by (auto simp: sorted_wrt_append)
  obtain p pt1 m1 where
    r1: "map_one v (area, pt, m) = Inr (0, area\<lparr>data_frames := data_frames area @ [(v, p)]\<rparr>, pt1, m1)"
    and m1: "mapped l (map_perm area) [(v, p)] (pt, m) (pt1, m1)"
    and c1: "fa_free_count (frames m) \<le> fa_free_count (frames m1) + 3"
    by (rule map_one_framed [OF Cons.prems(1) h(1,2) Cons.prems(4) h(3)])
  let ?a = "area\<lparr>data_frames := data_frames area @ [(v, p)]\<rparr>"
  have ne: "indexes u \<noteq> indexes v" if "u \<in> set vs" for u using Cons.prems(5) that by (auto simp: image_iff)
  have "pt_inv l (pt1, m1)" using m1 by (simp add: mapped_def)
  moreover have "\<forall>u \<in> set vs. pt_view (pt1, m1) u = None"
    using m1 Cons.prems(2) ne by (simp add: mapped_def view_with_def)
  moreover have "3 * length vs \<le> fa_free_count (frames m1)" using Cons.prems(3) c1 by simp
  moreover have "sorted_wrt (<) (map fst (data_frames ?a) @ vs)" using Cons.prems(6) by simp
  ultimately obtain es pt' m' where
    r2: "map_loop vs (?a, pt1, m1) = Inr (0, ?a\<lparr>data_frames := data_frames ?a @ es\<rparr>, pt', m')"
    and es: "map fst es = vs" and m2: "mapped l (map_perm area) es (pt1, m1) (pt', m')"
    and c2: "fa_free_count (frames m1) \<le> fa_free_count (frames m') + 3 * length vs"
    using Cons.IH [of pt1 m1 ?a] Cons.prems(4,5) by auto
  have "indexes v \<notin> indexes ` fst ` set es" using ne es by (metis (no_types, lifting) image_iff list.set_map)
  from mapped_trans [OF m1 m2 this] r1 r2 es c1 c2 show ?case
    by (intro exI [of _ "(v, p) # es"] exI [of _ pt'] exI [of _ m']) auto
qed

text \<open>Pushing a new area of frames.\<close>

lemma push_framed:
  assumes "pt_inv l (ms_page_table ms, m)" and "\<forall>v \<in> set vs. pt_view (ms_page_table ms, m) v = None"
    and "3 * length vs \<le> fa_free_count (frames m)" and "distinct (map indexes vs)" and "sorted_wrt (<) vs"
    and area: "map_type_of area = Framed" "data_frames area = []" and vs: "vs = vpn_range_items (vpn_range_of area)"
  obtains es pt' m' where
    "ms_push area None (ms, m) = Inr (0, \<lparr>ms_page_table = pt', ms_areas = ms_areas ms @ [area\<lparr>data_frames := es\<rparr>]\<rparr>, m')"
    and "map fst es = vs" and "mapped l (map_perm area) es (ms_page_table ms, m) (pt', m')"
    and "fa_free_count (frames m) \<le> fa_free_count (frames m') + 3 * length vs"
proof -
  from map_loop_framed [OF assms(1-3) area(1) assms(4)] assms(5) area(2) obtain es pt' m' where
    r: "map_loop vs (area, ms_page_table ms, m) = Inr (0, area\<lparr>data_frames := es\<rparr>, pt', m')"
    and es: "map fst es = vs" "mapped l (map_perm area) es (ms_page_table ms, m) (pt', m')"
      "fa_free_count (frames m) \<le> fa_free_count (frames m') + 3 * length vs" by auto
  have "ms_push area None (ms, m) = Inr (0, \<lparr>ms_page_table = pt', ms_areas = ms_areas ms @ [area\<lparr>data_frames := es\<rparr>]\<rparr>, m')"
    using r vs by (simp add: ms_push_def area_map_def)
  then show thesis using es by (rule that)
qed

section \<open>Copying pages\<close>

lemma page_write_simps [simp]:
  "frames (page_write p src m) = frames m"
  "phys (page_write p src m) = (phys m)(p := overwrite 0 src (phys m p))"
  by (simp_all add: page_write_def)

lemma page_write_whole: "mem_ok m \<Longrightarrow> page_write p (phys m q) m = m\<lparr>phys := (phys m)(p := phys m q)\<rparr>"
  by (simp add: page_write_def mem_ok_def overwrite_def)

lemma page_write_frame:
  assumes "pt_inv l (pt, m)" and "p \<notin> set (pt_frames pt)"
  shows "pt_inv l (pt, page_write p (phys m q) m)" and "pt_view (pt, page_write p (phys m q) m) = pt_view (pt, m)"
proof -
  have m: "mem_ok m" "fa_inv l (frames m)" "unat (fa_end (frames m)) \<le> 2 ^ 44" "set (pt_frames pt) \<subseteq> fa_used l (frames m)"
    using assms(1) by (auto simp: pt_inv_def)
  have same: "phys (page_write p (phys m q) m) k = phys m k" if "k \<in> set (pt_frames pt)" for k
    using assms(2) that by auto
  have "mem_ok (page_write p (phys m q) m)" using m(1) by (simp add: mem_ok_def page_write_def)
  from pt_frame_rule [OF assms(1) same this] m
  show "pt_inv l (pt, page_write p (phys m q) m)" "pt_view (pt, page_write p (phys m q) m) = pt_view (pt, m)" by simp_all
qed

text \<open>Pages \<open>v\<close> with their frames \<open>q\<close> in the one space and \<open>p\<close> in the other.\<close>

definition page_pairs :: "memory_set \<Rightarrow> memory_set \<Rightarrow> pte_flags \<Rightarrow> (virt_page_num \<times> phys_page_num \<times> phys_page_num) list \<Rightarrow> machine \<Rightarrow> bool" where
  "page_pairs src dst fl xs m \<longleftrightarrow> (\<forall>(v, q, p) \<in> set xs.
     pt_view (ms_page_table src, m) v = Some (pte_new q fl) \<and> pt_view (ms_page_table dst, m) v = Some (pte_new p fl)
     \<and> unat (ppn_val q) < 2 ^ 44 \<and> unat (ppn_val p) < 2 ^ 44)"

lemma copy_pages_ok:
  assumes "pt_inv l (ms_page_table src, m)" and "pt_inv l (ms_page_table dst, m)" and "page_pairs src dst fl xs m"
    and "distinct (map (snd \<circ> snd) xs)"
    and "(snd \<circ> snd) ` set xs \<inter> (set (pt_frames (ms_page_table src)) \<union> set (pt_frames (ms_page_table dst)) \<union> (fst \<circ> snd) ` set xs) = {}"
  shows "\<exists>m'. copy_pages src dst (map fst xs) m = Inr m' \<and> frames m' = frames m \<and> mem_ok m'
    \<and> (\<forall>(v, q, p) \<in> set xs. phys m' p = phys m q)
    \<and> (\<forall>k. k \<notin> (snd \<circ> snd) ` set xs \<longrightarrow> phys m' k = phys m k)"
  using assms
proof (induction xs arbitrary: m)
  case Nil
  then show ?case by (auto simp: pt_inv_def)
next
  case (Cons x xs)
  obtain v q p where x: "x = (v, q, p)" by (metis surj_pair)
  let ?m = "page_write p (phys m q) m"
  have np: "p \<notin> set (pt_frames (ms_page_table src))" "p \<notin> set (pt_frames (ms_page_table dst))"
    using Cons.prems(5) x by auto
  note fs = page_write_frame [OF Cons.prems(1) np(1), of q] page_write_frame [OF Cons.prems(2) np(2), of q]
  have ph: "phys ?m = (phys m)(p := phys m q)"
    using Cons.prems(1) page_write_whole [of m p q] by (simp add: pt_inv_def)
  have pp: "page_pairs src dst fl xs ?m" using Cons.prems(3) fs(2,4) by (simp add: page_pairs_def x)
  from Cons.IH [OF fs(1,3) pp] Cons.prems(4,5) obtain m' where
    r: "copy_pages src dst (map fst xs) ?m = Inr m'" and m': "frames m' = frames m" "mem_ok m'"
    and cp: "\<forall>(v, q, p) \<in> set xs. phys m' p = phys ?m q"
    and ot: "\<forall>k. k \<notin> (snd \<circ> snd) ` set xs \<longrightarrow> phys m' k = phys ?m k" by auto
  have "ms_translate src m v = Some (pte_new q fl)" "ms_translate dst m v = Some (pte_new p fl)"
    "pte_ppn (pte_new q fl) = q" "pte_ppn (pte_new p fl) = p"
    using Cons.prems(3) pt_view_translate(1) [OF Cons.prems(1)] pt_view_translate(1) [OF Cons.prems(2)]
    by (auto simp: page_pairs_def x ms_translate_def pte_ppn_new)
  then have "copy_pages src dst (map fst (x # xs)) m = Inr m'" using r by (simp add: x)
  moreover have "phys m' p' = phys m q'" if "(v', q', p') \<in> set (x # xs)" for v' q' p'
  proof (cases "(v', q', p') \<in> set xs")
    case True
    have "q' \<noteq> p" using True Cons.prems(5) x by force
    then show ?thesis using True cp ph by auto
  next
    case False
    then have "p' = p" "q' = q" using that x by auto
    moreover have "p \<notin> (snd \<circ> snd) ` set xs" using Cons.prems(4) x by auto
    ultimately have "phys m' p' = phys ?m p" using ot by simp
    then show ?thesis using ph \<open>q' = q\<close> by (metis fun_upd_same)
  qed
  moreover have "phys m' k = phys m k" if "k \<notin> (snd \<circ> snd) ` set (x # xs)" for k
    using that ot ph x by auto
  ultimately show ?case using m' by (intro exI [of _ m']) auto
qed

section \<open>Copying an address space\<close>

text \<open>An area of frames with all its pages mapped.\<close>

definition area_vpns :: "map_area \<Rightarrow> virt_page_num list" where
  "area_vpns a = vpn_range_items (vpn_range_of a)"

definition area_full :: "page_table \<times> machine \<Rightarrow> map_area \<Rightarrow> bool" where
  "area_full s a \<longleftrightarrow> map_type_of a = Framed \<and> range_l (vpn_range_of a) \<le> range_r (vpn_range_of a)
     \<and> map fst (data_frames a) = area_vpns a
     \<and> (\<forall>(v, q) \<in> set (data_frames a). pt_view s v = Some (pte_new q (map_perm a OR PTE_V)) \<and> unat (ppn_val q) < 2 ^ 44)"

text \<open>The copy of an area in another space: the same pages and contents in frames that were not in use.\<close>

definition area_copied :: "usize \<Rightarrow> machine \<Rightarrow> page_table \<times> machine \<Rightarrow> map_area \<Rightarrow> map_area \<Rightarrow> bool" where
  "area_copied l m0 = (\<lambda>(pt, m) a a'. a' = a\<lparr>data_frames := data_frames a'\<rparr>
     \<and> map fst (data_frames a') = map fst (data_frames a)
     \<and> (\<forall>((v, q), (_, p)) \<in> set (zip (data_frames a) (data_frames a')).
          pt_view (pt, m) v = Some (pte_new p (map_perm a OR PTE_V)) \<and> phys m p = phys m0 q
          \<and> p \<in> fa_used l (frames m) - fa_used l (frames m0) - set (pt_frames pt)))"

lemma area_copied_keeps:
  assumes c: "area_copied l m0 (pt, m) a a'"
    and view: "\<And>v. v \<in> set (map fst (data_frames a)) \<Longrightarrow> pt_view (pt', m') v = pt_view (pt, m) v"
    and phys: "\<And>k. k \<in> fa_used l (frames m) \<Longrightarrow> k \<notin> set (pt_frames pt) \<Longrightarrow> phys m' k = phys m k"
    and used: "fa_used l (frames m) \<subseteq> fa_used l (frames m')"
    and pt: "(set (pt_frames pt') - set (pt_frames pt)) \<inter> fa_used l (frames m) = {}"
  shows "area_copied l m0 (pt', m') a a'"
  unfolding area_copied_def prod.case
proof (intro conjI ballI, goal_cases)
  case 1 show ?case using c by (simp add: area_copied_def)
next
  case 2 show ?case using c by (simp add: area_copied_def)
next
  case (3 x)
  obtain v q v' p where x: "x = ((v, q), (v', p))" by (metis surj_pair)
  with c 3 have h: "pt_view (pt, m) v = Some (pte_new p (map_perm a OR PTE_V))" "phys m p = phys m0 q"
    "p \<in> fa_used l (frames m) - fa_used l (frames m0) - set (pt_frames pt)"
    unfolding area_copied_def by auto
  have "v \<in> set (map fst (data_frames a))" using 3 x by (force dest: set_zip_leftD)
  then show ?case using x h view [of v] phys [of p] used pt by auto
qed

definition trampoline_vpn :: virt_page_num where
  "trampoline_vpn = va_floor (VirtAddr TRAMPOLINE)"

definition trampoline_entry :: "linker_symbols \<Rightarrow> page_table_entry" where
  "trampoline_entry syms = pte_new (pa_floor (PhysAddr (sym_strampoline syms))) (PTE_R OR PTE_X OR PTE_V)"

definition space_frames :: "memory_set \<Rightarrow> phys_page_num list" where
  "space_frames ms = concat (map (\<lambda>a. map snd (data_frames a)) (ms_areas ms))"

definition fork_inv :: "linker_symbols \<Rightarrow> usize \<Rightarrow> memory_set \<Rightarrow> machine \<Rightarrow> usize list set \<Rightarrow> map_area list \<Rightarrow> space_state \<Rightarrow> bool" where
  "fork_inv syms l ms m0 seen copied = (\<lambda>(ms', m'). pt_inv l (ms_page_table ms', m') \<and> pt_inv l (ms_page_table ms, m')
     \<and> pt_view (ms_page_table ms, m') = pt_view (ms_page_table ms, m0)
     \<and> (\<forall>k \<in> fa_used l (frames m0). phys m' k = phys m0 k)
     \<and> fa_used l (frames m0) \<subseteq> fa_used l (frames m')
     \<and> set (pt_frames (ms_page_table ms)) \<subseteq> fa_used l (frames m0)
     \<and> set (pt_frames (ms_page_table ms')) \<inter> fa_used l (frames m0) = {}
     \<and> (\<forall>v. indexes v \<notin> seen \<longrightarrow> pt_view (ms_page_table ms', m') v = None)
     \<and> (\<forall>a \<in> set copied. indexes ` set (area_vpns a) \<subseteq> seen \<and> map fst (data_frames a) = area_vpns a)
     \<and> list_all2 (area_copied l m0 (ms_page_table ms', m')) copied (ms_areas ms')
     \<and> distinct (space_frames ms') \<and> set (space_frames ms') \<subseteq> fa_used l (frames m')
     \<and> indexes trampoline_vpn \<in> seen \<and> pt_view (ms_page_table ms', m') trampoline_vpn = Some (trampoline_entry syms))"

lemma mapped_other_space:
  assumes "mapped l fl es (pt, m) (pt1, m1)" and inv: "pt_inv l (other, m)" and dis: "set (pt_frames pt) \<inter> set (pt_frames other) = {}"
  shows "pt_inv l (other, m1)" and "pt_view (other, m1) = pt_view (other, m)"
proof -
  have sub: "set (pt_frames other) \<subseteq> fa_used l (frames m)" using inv by (auto simp: pt_inv_def)
  have same: "phys m1 k = phys m k" if "k \<in> set (pt_frames other)" for k
    using that dis sub by (intro mappedD(11) [OF assms(1)]) auto
  have h: "mem_ok m1" "fa_inv l (frames m1)" "unat (fa_end (frames m1)) \<le> 2 ^ 44" "set (pt_frames other) \<subseteq> fa_used l (frames m1)"
    using mappedD(1,4) [OF assms(1)] sub by (auto simp: pt_inv_def)
  show "pt_inv l (other, m1)" "pt_view (other, m1) = pt_view (other, m)"
    by (rule pt_frame_rule [OF inv same h], assumption)+
qed

text \<open>The frames of an area's pages before and after.\<close>

definition pairs :: "frame_map \<Rightarrow> frame_map \<Rightarrow> (virt_page_num \<times> phys_page_num \<times> phys_page_num) list" where
  "pairs qs ps = map (\<lambda>((v, q), (_, p)). (v, q, p)) (zip qs ps)"

lemma pairs_simps:
  assumes "map fst qs = map fst ps"
  shows "map fst (pairs qs ps) = map fst qs" and "map (snd \<circ> snd) (pairs qs ps) = map snd ps"
    and "(snd \<circ> snd) ` set (pairs qs ps) = snd ` set ps" and "(fst \<circ> snd) ` set (pairs qs ps) = snd ` set qs"
    and "(v, q, p) \<in> set (pairs qs ps) \<Longrightarrow> (v, q) \<in> set qs \<and> (v, p) \<in> set ps"
    and "((v, q), (v', p)) \<in> set (zip qs ps) \<Longrightarrow> (v, q, p) \<in> set (pairs qs ps)"
proof -
  have l: "length qs = length ps" using assms by (metis length_map)
  show m: "map fst (pairs qs ps) = map fst qs" "map (snd \<circ> snd) (pairs qs ps) = map snd ps"
    using l by (auto intro!: nth_equalityI simp: pairs_def case_prod_beta)
  have m3: "map (fst \<circ> snd) (pairs qs ps) = map snd qs"
    using l by (auto intro!: nth_equalityI simp: pairs_def case_prod_beta)
  show "(snd \<circ> snd) ` set (pairs qs ps) = snd ` set ps" "(fst \<circ> snd) ` set (pairs qs ps) = snd ` set qs"
    using arg_cong [OF m(2), of set] arg_cong [OF m3, of set] by simp_all
  show "((v, q), (v', p)) \<in> set (zip qs ps) \<Longrightarrow> (v, q, p) \<in> set (pairs qs ps)"
    unfolding pairs_def by force
  assume "(v, q, p) \<in> set (pairs qs ps)"
  then obtain i where i: "i < length qs" "v = fst (qs ! i)" "q = snd (qs ! i)" "p = snd (ps ! i)"
    using l by (auto simp: pairs_def in_set_conv_nth case_prod_beta)
  moreover have "fst (ps ! i) = fst (qs ! i)" using assms i(1) l by (metis nth_map)
  ultimately show "(v, q) \<in> set qs \<and> (v, p) \<in> set ps" using l by (metis nth_mem prod.collapse)
qed

lemma copy_area_step:
  assumes f: "fork_inv syms l ms m0 seen copied (ms', m')" and full: "area_full (ms_page_table ms, m0) a"
    and used: "set (map snd (data_frames a)) \<subseteq> fa_used l (frames m0)"
    and dist: "distinct (map indexes (area_vpns a))" "indexes ` set (area_vpns a) \<inter> seen = {}"
    and free: "3 * length (area_vpns a) \<le> fa_free_count (frames m')"
  shows "\<exists>ms2 m1 m2. ms_push (a\<lparr>data_frames := []\<rparr>) None (ms', m') = Inr (0, ms2, m1)
    \<and> copy_pages ms ms2 (area_vpns a) m1 = Inr m2
    \<and> fork_inv syms l ms m0 (seen \<union> indexes ` set (area_vpns a)) (copied @ [a]) (ms2, m2)
    \<and> fa_free_count (frames m') \<le> fa_free_count (frames m2) + 3 * length (area_vpns a)"
proof -
  let ?na = "a\<lparr>data_frames := []\<rparr>" and ?fl = "map_perm a OR PTE_V"
  have inv: "pt_inv l (ms_page_table ms', m')" and invp: "pt_inv l (ms_page_table ms, m')"
    and vp: "pt_view (ms_page_table ms, m') = pt_view (ms_page_table ms, m0)"
    and ph: "\<forall>k \<in> fa_used l (frames m0). phys m' k = phys m0 k"
    and us: "fa_used l (frames m0) \<subseteq> fa_used l (frames m')" "set (pt_frames (ms_page_table ms)) \<subseteq> fa_used l (frames m0)"
    and ptd: "set (pt_frames (ms_page_table ms')) \<inter> fa_used l (frames m0) = {}"
    and none: "\<forall>v. indexes v \<notin> seen \<longrightarrow> pt_view (ms_page_table ms', m') v = None"
    and cop: "\<forall>a \<in> set copied. indexes ` set (area_vpns a) \<subseteq> seen \<and> map fst (data_frames a) = area_vpns a"
    and la: "list_all2 (area_copied l m0 (ms_page_table ms', m')) copied (ms_areas ms')"
    and tr: "indexes trampoline_vpn \<in> seen" "pt_view (ms_page_table ms', m') trampoline_vpn = Some (trampoline_entry syms)"
    and sf: "distinct (space_frames ms')" "set (space_frames ms') \<subseteq> fa_used l (frames m')"
    using f by (auto simp: fork_inv_def)
  have ty: "map_type_of ?na = Framed" "data_frames ?na = []" and rg: "range_l (vpn_range_of a) \<le> range_r (vpn_range_of a)"
    and qs: "map fst (data_frames a) = area_vpns a"
    and qv: "\<forall>(v, q) \<in> set (data_frames a). pt_view (ms_page_table ms, m0) v = Some (pte_new q ?fl) \<and> unat (ppn_val q) < 2 ^ 44"
    using full by (auto simp: area_full_def)
  have un: "\<forall>v \<in> set (area_vpns a). pt_view (ms_page_table ms', m') v = None" using none dist(2) by blast
  have srt: "sorted_wrt (<) (area_vpns a)" using vpn_range_items_range(2) [OF rg] by (simp add: area_vpns_def)
  have vsd: "area_vpns a = vpn_range_items (vpn_range_of ?na)" by (simp add: area_vpns_def)
  obtain es pt1 m1 where
    push: "ms_push ?na None (ms', m') = Inr (0, \<lparr>ms_page_table = pt1, ms_areas = ms_areas ms' @ [?na\<lparr>data_frames := es\<rparr>]\<rparr>, m1)"
    and es: "map fst es = area_vpns a" and mp: "mapped l (map_perm ?na) es (ms_page_table ms', m') (pt1, m1)"
    and fc: "fa_free_count (frames m') \<le> fa_free_count (frames m1) + 3 * length (area_vpns a)"
    by (rule push_framed [OF inv un free dist(1) srt ty vsd])
  let ?ms2 = "\<lparr>ms_page_table = pt1, ms_areas = ms_areas ms' @ [a\<lparr>data_frames := es\<rparr>]\<rparr>"
  note md = mappedD [OF mp]
  have dis: "set (pt_frames (ms_page_table ms')) \<inter> set (pt_frames (ms_page_table ms)) = {}" using ptd us(2) by blast
  note op = mapped_other_space [OF mp invp dis]
  have fsteq: "map fst (data_frames a) = map fst es" using qs es by simp
  note ps = pairs_simps [OF fsteq]
  let ?xs = "pairs (data_frames a) es"
  have dx: "distinct (map indexes (map fst es))" using dist(1) es by simp
  have b44: "unat (ppn_val p) < 2 ^ 44" if "(v, p) \<in> set es" for v p
  proof -
    have "p \<in> fa_used l (frames m1)" using that md(4) by (auto intro: image_eqI [of _ snd "(v, p)"])
    then show ?thesis using md(1) fa_used_bound [of l "frames m1" p] by (auto simp: pt_inv_def)
  qed
  have pp: "page_pairs ms ?ms2 ?fl ?xs m1"
    unfolding page_pairs_def
  proof (intro ballI, clarify, goal_cases)
    case (1 v q p)
    from ps(5) [OF this] have vq: "(v, q) \<in> set (data_frames a)" "(v, p) \<in> set es" by auto
    then show ?case
      using qv op(2) vp md(2) frame_at_mem [OF dx vq(2)] b44 [OF vq(2)] by (auto simp: view_with_def)
  qed
  have pt1d: "set (pt_frames pt1) \<inter> fa_used l (frames m0) = {}" using ptd md(5) us(1) by blast
  have esd: "snd ` set es \<inter> fa_used l (frames m') = {}" "snd ` set es \<inter> set (pt_frames pt1) = {}" using md(6) by auto
  have "(snd \<circ> snd) ` set ?xs \<inter> (set (pt_frames (ms_page_table ms)) \<union> set (pt_frames (ms_page_table ?ms2)) \<union> (fst \<circ> snd) ` set ?xs) = {}"
  proof -
    have "snd ` set (data_frames a) \<subseteq> fa_used l (frames m0)" using used by simp
    then show ?thesis unfolding ps(3,4) memory_set.simps using esd us by blast
  qed
  from copy_pages_ok [OF op(1) _ pp _ this] md(1,7) ps(2) obtain m2 where
    cp: "copy_pages ms ?ms2 (map fst ?xs) m1 = Inr m2" and fr2: "frames m2 = frames m1" and mem2: "mem_ok m2"
    and cont: "\<forall>(v, q, p) \<in> set ?xs. phys m2 p = phys m1 q"
    and oth: "\<forall>k. k \<notin> (snd \<circ> snd) ` set ?xs \<longrightarrow> phys m2 k = phys m1 k" by auto
  have oth': "phys m2 k = phys m1 k" if "k \<notin> snd ` set es" for k using oth that unfolding ps(3) by blast
  have h2: "fa_inv l (frames m2)" "unat (fa_end (frames m2)) \<le> 2 ^ 44" using md(1) fr2 by (auto simp: pt_inv_def)
  have inv2: "pt_inv l (pt1, m2)" and view2: "pt_view (pt1, m2) = pt_view (pt1, m1)"
    by (rule pt_frame_rule [OF md(1) oth' mem2 h2]; use esd(2) md(4) fr2 in auto)+
  have invp2: "pt_inv l (ms_page_table ms, m2)" and viewp2: "pt_view (ms_page_table ms, m2) = pt_view (ms_page_table ms, m1)"
    by (rule pt_frame_rule [OF op(1) oth' mem2 h2]; use esd(1) md(4) fr2 us in auto)+
  have u2: "fa_used l (frames m') \<subseteq> fa_used l (frames m2)" using md(4) fr2 by auto
  have ph2: "phys m2 k = phys m0 k" if k: "k \<in> fa_used l (frames m0)" for k
  proof -
    have ne: "k \<notin> snd ` set es" "k \<notin> set (pt_frames pt1)" using k esd(1) us(1) pt1d by blast+
    then show ?thesis using oth' [OF ne(1)] md(8) [OF ne(2,1)] ph k by simp
  qed
  have old: "area_copied l m0 (pt1, m2) b b'" if "area_copied l m0 (ms_page_table ms', m') b b'" "b \<in> set copied" for b b'
  proof (rule area_copied_keeps [OF that(1) _ _ u2 md(5)])
    fix v assume "v \<in> set (map fst (data_frames b))"
    then have "indexes v \<in> seen" using cop that(2) by auto
    then have "indexes v \<notin> indexes ` set (map fst es)" using dist(2) unfolding es by blast
    then show "pt_view (pt1, m2) v = pt_view (ms_page_table ms', m') v" by (simp add: view2 md(2) view_with_other)
  next
    fix k assume k: "k \<in> fa_used l (frames m')" "k \<notin> set (pt_frames (ms_page_table ms'))"
    then show "phys m2 k = phys m' k" using oth' md(11) esd(1) by (metis disjoint_iff)
  qed
  have new: "area_copied l m0 (pt1, m2) a (a\<lparr>data_frames := es\<rparr>)"
    unfolding area_copied_def prod.case
  proof (intro conjI ballI, goal_cases)
    case (3 x)
    obtain v q v' p where x: "x = ((v, q), (v', p))" by (metis surj_pair)
    then have t: "(v, q, p) \<in> set ?xs" using 3 ps(6) by simp
    from ps(5) [OF this] have vq: "(v, q) \<in> set (data_frames a)" "(v, p) \<in> set es" by auto
    have p: "p \<in> snd ` set es" using vq(2) by force
    have q: "q \<in> fa_used l (frames m0)" using vq(1) used by force
    have "phys m2 p = phys m1 q" using cont t by auto
    also have "\<dots> = phys m' q" by (rule md(8); use q esd(1) us(1) pt1d in blast)
    also have "\<dots> = phys m0 q" using q ph by blast
    finally have c: "phys m2 p = phys m0 q" .
    have "pt_view (pt1, m2) v = Some (pte_new p ?fl)"
      using frame_at_mem [OF dx vq(2)] by (simp add: view2 md(2) view_with_def)
    moreover have "p \<in> fa_used l (frames m2) - fa_used l (frames m0) - set (pt_frames pt1)"
      using p md(4) esd us(1) unfolding fr2 by blast
    ultimately show ?case using c by (simp add: x)
  qed (use fsteq in simp_all)
  have "fork_inv syms l ms m0 (seen \<union> indexes ` set (area_vpns a)) (copied @ [a]) (?ms2, m2)"
    unfolding fork_inv_def prod.case
  proof (intro conjI, goal_cases)
    case 8
    have "pt_view (pt1, m2) v = None" if v: "indexes v \<notin> seen \<union> indexes ` set (area_vpns a)" for v
    proof -
      have "indexes v \<notin> indexes ` set (map fst es)" using v unfolding es by blast
      then show ?thesis using none v by (simp add: view2 md(2) view_with_other)
    qed
    then show ?case by simp
  next
    case 10
    have "list_all2 (area_copied l m0 (pt1, m2)) copied (ms_areas ms')"
      by (rule list.rel_mono_strong [OF la]) (use old in blast)
    then show ?case using new by (simp add: list_all2_appendI)
  next
    case 9
    show ?case using cop qs by fastforce
  next
    case 11
    have "set (space_frames ms') \<inter> snd ` set es = {}" using sf(2) esd(1) by blast
    then show ?case using sf(1) md(7) by (simp add: space_frames_def)
  next
    case 13
    show ?case using tr(1) by blast
  next
    case 14
    have "indexes trampoline_vpn \<notin> indexes ` set (map fst es)" using dist(2) tr(1) unfolding es by blast
    then show ?case using tr(2) by (simp add: view2 md(2) view_with_other)
  next
    case 12
    have "snd ` set es \<subseteq> fa_used l (frames m2)" using md(4) fr2 by simp
    then show ?case using sf(2) u2 by (auto simp: space_frames_def)
  qed (use inv2 invp2 viewp2 op(2) vp ph2 us u2 pt1d in auto)
  with push cp ps(1) qs fc fr2 show ?thesis
    by (intro exI [of _ ?ms2] exI [of _ m1] exI [of _ m2]) simp
qed

lemma from_another_full:
  assumes "area_full s a"
  shows "map_area_from_another a = Inr (a\<lparr>data_frames := []\<rparr>)"
  using assms by (cases a, cases "vpn_range_of a") (simp add: map_area_from_another_def area_full_def vpn_range_new_def)

lemma copy_areas_ok:
  assumes "fork_inv syms l ms m0 seen copied (ms', m')" and "\<forall>a \<in> set areas. area_full (ms_page_table ms, m0) a"
    and "\<forall>a \<in> set areas. set (map snd (data_frames a)) \<subseteq> fa_used l (frames m0)"
    and "distinct (map indexes (concat (map area_vpns areas)))"
    and "indexes ` set (concat (map area_vpns areas)) \<inter> seen = {}"
    and "3 * length (concat (map area_vpns areas)) \<le> fa_free_count (frames m')"
  shows "\<exists>ms2 m2. copy_areas ms areas (ms', m') = Inr (True, ms2, m2)
    \<and> fork_inv syms l ms m0 (seen \<union> indexes ` set (concat (map area_vpns areas))) (copied @ areas) (ms2, m2)
    \<and> fa_free_count (frames m') \<le> fa_free_count (frames m2) + 3 * length (concat (map area_vpns areas))"
  using assms
proof (induction areas arbitrary: seen copied ms' m')
  case (Cons a areas)
  let ?vs = "area_vpns a" and ?us = "concat (map area_vpns areas)"
  have d: "distinct (map indexes ?vs)" "indexes ` set ?vs \<inter> seen = {}" "3 * length ?vs \<le> fa_free_count (frames m')"
    using Cons.prems(4-6) by auto
  from copy_area_step [OF Cons.prems(1) _ _ d] Cons.prems(2,3) obtain ms1 m1 m2 where
    push: "ms_push (a\<lparr>data_frames := []\<rparr>) None (ms', m') = Inr (0, ms1, m1)"
    and cp: "copy_pages ms ms1 ?vs m1 = Inr m2"
    and f: "fork_inv syms l ms m0 (seen \<union> indexes ` set ?vs) (copied @ [a]) (ms1, m2)"
    and c: "fa_free_count (frames m') \<le> fa_free_count (frames m2) + 3 * length ?vs" by auto
  have "indexes ` set ?us \<inter> (seen \<union> indexes ` set ?vs) = {}" using Cons.prems(4,5) by (auto simp: image_iff)
  from Cons.IH [OF f _ _ _ this] Cons.prems(2-4,6) c obtain ms3 m3 where
    r: "copy_areas ms areas (ms1, m2) = Inr (True, ms3, m3)"
    and f3: "fork_inv syms l ms m0 (seen \<union> indexes ` set ?vs \<union> indexes ` set ?us) ((copied @ [a]) @ areas) (ms3, m3)"
    and c3: "fa_free_count (frames m2) \<le> fa_free_count (frames m3) + 3 * length ?us" by auto
  have "copy_areas ms (a # areas) (ms', m') = Inr (True, ms3, m3)"
    using from_another_full [of _ a] Cons.prems(2) push cp r by (auto simp: area_vpns_def)
  moreover have "fa_free_count (frames m') \<le> fa_free_count (frames m3) + 3 * length (concat (map area_vpns (a # areas)))"
    using c c3 by simp
  ultimately show ?case using f3 by (auto simp: image_Un Un_assoc)
qed simp

section \<open>Address spaces of processes\<close>

text \<open>
  What holds of the address space of a process: its page table is well formed, all its areas are
  fully mapped in frames of their own, no two pages share their indexes, the trampoline is mapped,
  and nothing else is.
\<close>

definition space_pages :: "memory_set \<Rightarrow> virt_page_num list" where
  "space_pages ms = concat (map area_vpns (ms_areas ms))"

definition space_inv :: "linker_symbols \<Rightarrow> usize \<Rightarrow> space_state \<Rightarrow> bool" where
  "space_inv syms l = (\<lambda>(ms, m). pt_inv l (ms_page_table ms, m)
     \<and> (\<forall>a \<in> set (ms_areas ms). area_full (ms_page_table ms, m) a)
     \<and> distinct (map indexes (trampoline_vpn # space_pages ms))
     \<and> distinct (space_frames ms)
     \<and> set (space_frames ms) \<subseteq> fa_used l (frames m) - set (pt_frames (ms_page_table ms))
     \<and> pt_view (ms_page_table ms, m) trampoline_vpn = Some (trampoline_entry syms)
     \<and> (\<forall>v. indexes v \<notin> indexes ` set (trampoline_vpn # space_pages ms) \<longrightarrow> pt_view (ms_page_table ms, m) v = None))"

lemma map_trampoline_ok:
  assumes "pt_inv l (ms_page_table ms, m)" and "2 \<le> fa_free_count (frames m)"
    and "pt_view (ms_page_table ms, m) trampoline_vpn = None" and "pa_page_offset (PhysAddr (sym_strampoline syms)) = 0"
  obtains pt' m' where "map_trampoline syms (ms, m) = Inr (ms\<lparr>ms_page_table := pt'\<rparr>, m')"
    and "pt_changes l trampoline_vpn (Some (trampoline_entry syms)) (ms_page_table ms, m) (pt', m')"
    and "fa_free_count (frames m) \<le> fa_free_count (frames m') + 2"
proof -
  let ?p = "pa_floor (PhysAddr (sym_strampoline syms))"
  have t: "vpn_of_va (VirtAddr TRAMPOLINE) = Inr trampoline_vpn"
    by (simp add: vpn_of_va_def trampoline_vpn_def va_page_offset_def config_defs)
  from pt_map_ok [OF assms(1,3,2), of ?p "PTE_R OR PTE_X"] obtain pt' m' where
    "pt_map trampoline_vpn ?p (PTE_R OR PTE_X) (ms_page_table ms, m) = Inr (pt', m')"
    and r: "pt_changes l trampoline_vpn (Some (pte_new ?p ((PTE_R OR PTE_X) OR PTE_V))) (ms_page_table ms, m) (pt', m')"
      "fa_free_count (frames m) \<le> fa_free_count (frames m') + 2" by blast
  then have "map_trampoline syms (ms, m) = Inr (ms\<lparr>ms_page_table := pt'\<rparr>, m')"
    using t assms(4) by (simp add: map_trampoline_def ppn_of_pa_def)
  from that [OF this] r show thesis by (simp add: trampoline_entry_def or.assoc)
qed

lemma new_space_ok:
  assumes "fa_inv l (frames m)" and "3 \<le> fa_free_count (frames m)" and "mem_ok m" and "unat (fa_end (frames m)) \<le> 2 ^ 44"
    and "pa_page_offset (PhysAddr (sym_strampoline syms)) = 0"
  obtains ms1 ms2 m1 m2 where "new_bare m = Inr (ms1, m1)" and "map_trampoline syms (ms1, m1) = Inr (ms2, m2)"
    and "pt_inv l (ms_page_table ms2, m2)" and "ms_areas ms2 = []"
    and "pt_view (ms_page_table ms2, m2) = (\<lambda>u. if indexes u = indexes trampoline_vpn then Some (trampoline_entry syms) else None)"
    and "fa_used l (frames m2) = fa_used l (frames m) \<union> set (pt_frames (ms_page_table ms2))"
    and "set (pt_frames (ms_page_table ms2)) \<inter> fa_used l (frames m) = {}"
    and "\<forall>k. k \<notin> set (pt_frames (ms_page_table ms2)) \<longrightarrow> phys m2 k = phys m k"
    and "fa_end (frames m2) = fa_end (frames m)" and "fa_free_count (frames m) \<le> fa_free_count (frames m2) + 3"
proof -
  have pos: "0 < fa_free_count (frames m)" using assms(2) by simp
  obtain pt1 m1 where n: "page_table_new m = Inr (pt1, m1)" and inv: "pt_inv l (pt1, m1)"
    and v: "pt_view (pt1, m1) = (\<lambda>_. None)" and c: "fa_free_count (frames m) = Suc (fa_free_count (frames m1))"
    and pf: "pt_frames pt1 = [pt_root pt1]" and fresh: "pt_root pt1 \<notin> fa_used l (frames m)"
    and u: "fa_used l (frames m1) = insert (pt_root pt1) (fa_used l (frames m))"
    and ph: "\<forall>k. k \<noteq> pt_root pt1 \<longrightarrow> phys m1 k = phys m k" and e: "fa_end (frames m1) = fa_end (frames m)"
    by (rule page_table_new_ok [OF assms(1) pos assms(3,4)])
  let ?ms1 = "\<lparr>ms_page_table = pt1, ms_areas = []\<rparr>"
  have h: "pt_inv l (ms_page_table ?ms1, m1)" "2 \<le> fa_free_count (frames m1)" "pt_view (ms_page_table ?ms1, m1) trampoline_vpn = None"
    using inv c assms(2) v by simp_all
  obtain pt2 m2 where t: "map_trampoline syms (?ms1, m1) = Inr (?ms1\<lparr>ms_page_table := pt2\<rparr>, m2)"
    and ch: "pt_changes l trampoline_vpn (Some (trampoline_entry syms)) (pt1, m1) (pt2, m2)"
    and c2: "fa_free_count (frames m1) \<le> fa_free_count (frames m2) + 2"
    by (rule map_trampoline_ok [OF h assms(5)]) auto
  have nb: "new_bare m = Inr (?ms1, m1)" using n by (simp add: new_bare_def)
  have r: "pt_root pt1 \<in> set (pt_frames pt2)" using ch pf unfolding pt_changes_def by auto
  have ph': "\<forall>k. k \<notin> set (pt_frames pt2) \<longrightarrow> phys m1 k = phys m k" using ph r by metis
  show thesis
    by (rule that [OF nb t]; use ch v pf fresh u ph' e c c2 r in \<open>auto simp: pt_changes_def\<close>)
qed

lemma new_space_inv:
  assumes "fa_inv l (frames m)" and "3 \<le> fa_free_count (frames m)" and "mem_ok m" and "unat (fa_end (frames m)) \<le> 2 ^ 44"
    and "pa_page_offset (PhysAddr (sym_strampoline syms)) = 0"
  obtains ms1 ms2 m1 m2 where "new_bare m = Inr (ms1, m1)" and "map_trampoline syms (ms1, m1) = Inr (ms2, m2)"
    and "space_inv syms l (ms2, m2)" and "ms_areas ms2 = []" and "fa_free_count (frames m) \<le> fa_free_count (frames m2) + 3"
  by (rule new_space_ok [OF assms], rule that, assumption+)
    (simp_all add: space_inv_def space_pages_def space_frames_def)

lemma fork_start:
  assumes "pt_inv l (ms_page_table ms, m)" and "3 \<le> fa_free_count (frames m)"
    and "pa_page_offset (PhysAddr (sym_strampoline syms)) = 0"
  obtains ms1 ms2 m1 m2 where "new_bare m = Inr (ms1, m1)" and "map_trampoline syms (ms1, m1) = Inr (ms2, m2)"
    and "fork_inv syms l ms m {indexes trampoline_vpn} [] (ms2, m2)" and "fa_free_count (frames m) \<le> fa_free_count (frames m2) + 3"
proof -
  have h: "fa_inv l (frames m)" "mem_ok m" "unat (fa_end (frames m)) \<le> 2 ^ 44" and sub: "set (pt_frames (ms_page_table ms)) \<subseteq> fa_used l (frames m)"
    using assms(1) by (auto simp: pt_inv_def)
  obtain ms1 ms2 m1 m2 where n: "new_bare m = Inr (ms1, m1)" "map_trampoline syms (ms1, m1) = Inr (ms2, m2)"
    and inv: "pt_inv l (ms_page_table ms2, m2)" and ar: "ms_areas ms2 = []"
    and v: "pt_view (ms_page_table ms2, m2) = (\<lambda>u. if indexes u = indexes trampoline_vpn then Some (trampoline_entry syms) else None)"
    and u: "fa_used l (frames m2) = fa_used l (frames m) \<union> set (pt_frames (ms_page_table ms2))"
    and d: "set (pt_frames (ms_page_table ms2)) \<inter> fa_used l (frames m) = {}"
    and ph: "\<forall>k. k \<notin> set (pt_frames (ms_page_table ms2)) \<longrightarrow> phys m2 k = phys m k"
    and c: "fa_free_count (frames m) \<le> fa_free_count (frames m2) + 3"
    by (rule new_space_ok [OF h(1) assms(2) h(2,3) assms(3)])
  have ph': "phys m2 k = phys m k" if "k \<in> fa_used l (frames m)" for k using ph d that by blast
  have h2: "mem_ok m2" "fa_inv l (frames m2)" "unat (fa_end (frames m2)) \<le> 2 ^ 44" using inv by (auto simp: pt_inv_def)
  have "pt_inv l (ms_page_table ms, m2)" "pt_view (ms_page_table ms, m2) = pt_view (ms_page_table ms, m)"
    by (rule pt_frame_rule [OF assms(1) ph' h2]; use sub u in blast)+
  then have "fork_inv syms l ms m {indexes trampoline_vpn} [] (ms2, m2)"
    unfolding fork_inv_def prod.case using inv ar v u d ph' sub by (simp add: space_frames_def)
  from that [OF n this c] show thesis .
qed

lemma area_copied_full:
  assumes c: "area_copied l m0 (pt, m) a a'" and full: "area_full s a" and inv: "pt_inv l (pt, m)"
  shows "area_full (pt, m) a'" and "area_vpns a' = area_vpns a"
    and "set (map snd (data_frames a')) \<subseteq> fa_used l (frames m) - set (pt_frames pt)"
proof -
  have a': "a' = a\<lparr>data_frames := data_frames a'\<rparr>" and fs: "map fst (data_frames a') = map fst (data_frames a)"
    using c by (auto simp: area_copied_def)
  have le: "length (data_frames a) = length (data_frames a')" using fs by (metis length_map)
  have r: "vpn_range_of a' = vpn_range_of a" "map_type_of a' = map_type_of a" "map_perm a' = map_perm a" by (subst a', simp)+
  show vs: "area_vpns a' = area_vpns a" by (simp add: area_vpns_def r)
  have e: "pt_view (pt, m) v = Some (pte_new p (map_perm a OR PTE_V)) \<and> p \<in> fa_used l (frames m) - set (pt_frames pt)"
    if vp: "(v, p) \<in> set (data_frames a')" for v p
  proof -
    obtain i where i: "i < length (data_frames a')" "data_frames a' ! i = (v, p)" using vp by (auto simp: in_set_conv_nth)
    then have "fst (data_frames a ! i) = v" using fs le by (metis fst_conv nth_map)
    then have "((v, snd (data_frames a ! i)), (v, p)) \<in> set (zip (data_frames a) (data_frames a'))"
      using i le by (auto simp: set_zip intro!: exI [of _ i])
    then show ?thesis using c unfolding area_copied_def by fastforce
  qed
  then show "set (map snd (data_frames a')) \<subseteq> fa_used l (frames m) - set (pt_frames pt)" by fastforce
  have "unat (ppn_val p) < 2 ^ 44" if "p \<in> fa_used l (frames m)" for p
    using inv fa_used_bound [of l "frames m" p] that by (auto simp: pt_inv_def)
  then show "area_full (pt, m) a'" using full e fs vs r by (auto simp: area_full_def)
qed

lemma fork_inv_child:
  assumes f: "fork_inv syms l ms m0 ({indexes trampoline_vpn} \<union> indexes ` set (space_pages ms)) (ms_areas ms) (ms', m')"
    and inv: "space_inv syms l (ms, m0)"
  shows "space_inv syms l (ms', m')"
proof -
  have la: "list_all2 (area_copied l m0 (ms_page_table ms', m')) (ms_areas ms) (ms_areas ms')"
    and pti: "pt_inv l (ms_page_table ms', m')" using f by (simp_all add: fork_inv_def)
  have full: "\<forall>a \<in> set (ms_areas ms). area_full (ms_page_table ms, m0) a" using inv by (simp add: space_inv_def)
  have c: "area_copied l m0 (ms_page_table ms', m') (ms_areas ms ! i) (ms_areas ms' ! i)" "area_full (ms_page_table ms, m0) (ms_areas ms ! i)"
    if "i < length (ms_areas ms')" for i
    using la full that by (auto simp: list_all2_conv_all_nth)
  note cf = area_copied_full [OF c pti]
  have "map area_vpns (ms_areas ms') = map area_vpns (ms_areas ms)"
    using cf(2) list_all2_lengthD [OF la] by (auto intro!: nth_equalityI)
  then have "space_pages ms' = space_pages ms" by (simp add: space_pages_def)
  moreover have "\<forall>a \<in> set (ms_areas ms'). area_full (ms_page_table ms', m') a"
    using cf(1) by (auto simp: in_set_conv_nth)
  moreover have "set (space_frames ms') \<subseteq> fa_used l (frames m') - set (pt_frames (ms_page_table ms'))"
  proof
    fix p assume "p \<in> set (space_frames ms')"
    then obtain a where a: "a \<in> set (ms_areas ms')" "p \<in> set (map snd (data_frames a))" by (auto simp: space_frames_def)
    then obtain i where i: "i < length (ms_areas ms')" "p \<in> set (map snd (data_frames (ms_areas ms' ! i)))"
      by (metis in_set_conv_nth)
    then show "p \<in> fa_used l (frames m') - set (pt_frames (ms_page_table ms'))" using cf(3) [OF i(1) i(1)] by blast
  qed
  ultimately show ?thesis using f inv by (simp add: space_inv_def fork_inv_def)
qed

lemma fork_inv_parent:
  assumes f: "fork_inv syms l ms m0 seen copied (ms', m')" and inv: "space_inv syms l (ms, m0)"
  shows "space_inv syms l (ms, m')"
proof -
  have h: "pt_inv l (ms_page_table ms, m')" "pt_view (ms_page_table ms, m') = pt_view (ms_page_table ms, m0)"
    "fa_used l (frames m0) \<subseteq> fa_used l (frames m')" using f by (simp_all add: fork_inv_def)
  then show ?thesis using inv by (auto simp: space_inv_def area_full_def)
qed

lemma from_existed_user_ok:
  assumes "space_inv syms l (ms, m)" and "3 * length (space_pages ms) + 3 \<le> fa_free_count (frames m)"
    and "pa_page_offset (PhysAddr (sym_strampoline syms)) = 0"
  shows "\<exists>child m'. from_existed_user syms ms m = Inr (Some child, m')
    \<and> space_inv syms l (child, m') \<and> space_inv syms l (ms, m')
    \<and> list_all2 (area_copied l m (ms_page_table child, m')) (ms_areas ms) (ms_areas child)
    \<and> pt_view (ms_page_table ms, m') = pt_view (ms_page_table ms, m)
    \<and> (\<forall>k \<in> fa_used l (frames m). phys m' k = phys m k)
    \<and> fa_used l (frames m) \<subseteq> fa_used l (frames m')
    \<and> fa_free_count (frames m) \<le> fa_free_count (frames m') + 3 * length (space_pages ms) + 3
    \<and> set (pt_frames (ms_page_table child)) \<inter> fa_used l (frames m) = {}"
proof -
  have inv: "pt_inv l (ms_page_table ms, m)" and full: "\<forall>a \<in> set (ms_areas ms). area_full (ms_page_table ms, m) a"
    and sf: "set (space_frames ms) \<subseteq> fa_used l (frames m)"
    using assms(1) by (auto simp: space_inv_def)
  have used: "\<forall>a \<in> set (ms_areas ms). set (map snd (data_frames a)) \<subseteq> fa_used l (frames m)"
    using sf by (auto simp: space_frames_def)
  have dist: "distinct (map indexes (concat (map area_vpns (ms_areas ms))))"
    "indexes ` set (concat (map area_vpns (ms_areas ms))) \<inter> {indexes trampoline_vpn} = {}"
    using assms(1) by (auto simp: space_inv_def space_pages_def)
  have f3: "3 \<le> fa_free_count (frames m)" using assms(2) by simp
  obtain ms1 ms2 m1 m2 where st: "new_bare m = Inr (ms1, m1)" "map_trampoline syms (ms1, m1) = Inr (ms2, m2)"
    and f: "fork_inv syms l ms m {indexes trampoline_vpn} [] (ms2, m2)" and c: "fa_free_count (frames m) \<le> fa_free_count (frames m2) + 3"
    by (rule fork_start [OF inv f3 assms(3)])
  have "3 * length (concat (map area_vpns (ms_areas ms))) \<le> fa_free_count (frames m2)"
    using assms(2) c by (simp add: space_pages_def)
  from copy_areas_ok [OF f full used dist this] obtain child m' where
    r: "copy_areas ms (ms_areas ms) (ms2, m2) = Inr (True, child, m')"
    and f': "fork_inv syms l ms m ({indexes trampoline_vpn} \<union> indexes ` set (space_pages ms)) (ms_areas ms) (child, m')"
    and c': "fa_free_count (frames m2) \<le> fa_free_count (frames m') + 3 * length (space_pages ms)"
    by (auto simp: space_pages_def)
  have "from_existed_user syms ms m = Inr (Some child, m')" using st r by (simp add: from_existed_user_def)
  moreover note fork_inv_child [OF f' assms(1)] fork_inv_parent [OF f' assms(1)]
  ultimately show ?thesis using f' c c' unfolding fork_inv_def prod.case
    by (intro exI [of _ child] exI [of _ m']) (simp add: Int_commute)
qed

text \<open>
  C28. Forking copies the memory of a process. For an address space whose areas are mapped, with
  three free frames for every page of the areas and three more, \<open>from_existed_user\<close> returns a new
  space with the same areas: every page has the same permissions and contents as in the parent,
  in a frame of its own that was not in use before. Both spaces satisfy the invariant afterwards
  (their areas and the trampoline are mapped, and nothing else), the parent sees the same pages, and no frame
  that was in use has changed.
\<close>

theorem fork_copies_memory:
  assumes "space_inv syms l (ms, m)" and "3 * length (space_pages ms) + 3 \<le> fa_free_count (frames m)"
    and "pa_page_offset (PhysAddr (sym_strampoline syms)) = 0"
  shows "\<exists>child m'. from_existed_user syms ms m = Inr (Some child, m')
    \<and> space_inv syms l (child, m') \<and> space_inv syms l (ms, m')
    \<and> list_all2 (area_copied l m (ms_page_table child, m')) (ms_areas ms) (ms_areas child)
    \<and> pt_view (ms_page_table ms, m') = pt_view (ms_page_table ms, m)
    \<and> (\<forall>k \<in> fa_used l (frames m). phys m' k = phys m k)
    \<and> fa_used l (frames m) \<subseteq> fa_used l (frames m')"
  using from_existed_user_ok [OF assms] by blast

section \<open>Adding areas\<close>

lemma space_inv_push:
  assumes inv: "space_inv syms l (ms, m)" and free: "3 * length vs \<le> fa_free_count (frames m)"
    and dist: "distinct (map indexes (trampoline_vpn # space_pages ms @ vs))"
    and area: "map_type_of area = Framed" "data_frames area = []" "range_l (vpn_range_of area) \<le> range_r (vpn_range_of area)"
    and vs: "vs = area_vpns area"
  obtains es pt' m' where
    "ms_push area None (ms, m) = Inr (0, \<lparr>ms_page_table = pt', ms_areas = ms_areas ms @ [area\<lparr>data_frames := es\<rparr>]\<rparr>, m')"
    and "space_inv syms l (\<lparr>ms_page_table = pt', ms_areas = ms_areas ms @ [area\<lparr>data_frames := es\<rparr>]\<rparr>, m')"
    and "map fst es = vs" and "mapped l (map_perm area) es (ms_page_table ms, m) (pt', m')"
    and "fa_free_count (frames m) \<le> fa_free_count (frames m') + 3 * length vs"
proof -
  have pti: "pt_inv l (ms_page_table ms, m)" using inv by (simp add: space_inv_def)
  have rest: "\<forall>v. indexes v \<notin> indexes ` set (trampoline_vpn # space_pages ms) \<longrightarrow> pt_view (ms_page_table ms, m) v = None"
    using inv by (simp add: space_inv_def)
  have "indexes ` set vs \<inter> indexes ` set (trampoline_vpn # space_pages ms) = {}" using dist by auto
  then have un: "\<forall>v \<in> set vs. pt_view (ms_page_table ms, m) v = None" using rest by blast
  have d: "distinct (map indexes vs)" using dist by simp
  have srt: "sorted_wrt (<) vs" using vpn_range_items_range(2) [OF area(3)] by (simp add: vs area_vpns_def)
  have vs': "vs = vpn_range_items (vpn_range_of area)" by (simp add: vs area_vpns_def)
  obtain es pt' m' where
    r: "ms_push area None (ms, m) = Inr (0, \<lparr>ms_page_table = pt', ms_areas = ms_areas ms @ [area\<lparr>data_frames := es\<rparr>]\<rparr>, m')"
    and es: "map fst es = vs" and mp: "mapped l (map_perm area) es (ms_page_table ms, m) (pt', m')"
    and c: "fa_free_count (frames m) \<le> fa_free_count (frames m') + 3 * length vs"
    by (rule push_framed [OF pti un free d srt area(1,2) vs'])
  let ?a = "area\<lparr>data_frames := es\<rparr>"
  note md = mappedD [OF mp]
  have keep: "pt_view (pt', m') v = pt_view (ms_page_table ms, m) v" if "indexes v \<notin> indexes ` set vs" for v
    using that unfolding es [symmetric] md(2) by (rule view_with_other)
  have old: "area_full (pt', m') a" if a: "a \<in> set (ms_areas ms)" for a
  proof -
    have f: "area_full (ms_page_table ms, m) a" using inv a by (simp add: space_inv_def)
    have "pt_view (pt', m') v = pt_view (ms_page_table ms, m) v" if v: "(v, q) \<in> set (data_frames a)" for v q
    proof (rule keep)
      have "v \<in> set (space_pages ms)"
        using f v a unfolding area_full_def space_pages_def by (force dest: arg_cong [of _ _ set] simp: rev_image_eqI)
      then show "indexes v \<notin> indexes ` set vs" using dist by auto
    qed
    then show ?thesis using f by (fastforce simp: area_full_def)
  qed
  have dx: "distinct (map indexes (map fst es))" using d es by simp
  have used: "snd ` set es \<subseteq> fa_used l (frames m')" using md(4) by blast
  have new: "area_full (pt', m') ?a"
    unfolding area_full_def
  proof (intro conjI ballI, goal_cases)
    case (4 x)
    obtain v p where x: "x = (v, p)" by (metis surj_pair)
    have "p \<in> fa_used l (frames m')" using used 4 x by force
    then have "unat (ppn_val p) < 2 ^ 44" using md(1) fa_used_bound [of l "frames m'" p] by (auto simp: pt_inv_def)
    moreover have "frame_at es v = Some p" using frame_at_mem [OF dx] 4 x by simp
    ultimately show ?case by (simp add: x md(2) view_with_def)
  qed (use area es vs in \<open>simp_all add: area_vpns_def\<close>)
  have frames_new: "set (space_frames ms) \<inter> snd ` set es = {}" "set (space_frames ms) \<inter> set (pt_frames pt') = {}"
    using inv md(5,6) unfolding space_inv_def prod.case by blast+
  have "space_inv syms l (\<lparr>ms_page_table = pt', ms_areas = ms_areas ms @ [?a]\<rparr>, m')" (is "space_inv syms l (?ms', m')")
    unfolding space_inv_def prod.case
  proof (intro conjI, goal_cases)
    case 3
    show ?case using dist by (simp add: space_pages_def vs area_vpns_def)
  next
    case 4
    show ?case using inv frames_new(1) md(7) by (simp add: space_inv_def space_frames_def)
  next
    case 5
    have "set (space_frames ms) \<subseteq> fa_used l (frames m')" using inv md(4) by (auto simp: space_inv_def)
    moreover have "set (space_frames ?ms') = set (space_frames ms) \<union> snd ` set es" by (simp add: space_frames_def)
    ultimately show ?case using frames_new(2) used md(6) by auto
  next
    case 6
    show ?case using keep [of trampoline_vpn] inv dist by (simp add: space_inv_def)
  next
    case 7
    have "set (space_pages ?ms') = set (space_pages ms) \<union> set vs" by (simp add: space_pages_def vs area_vpns_def)
    then show ?case using keep inv by (simp add: space_inv_def image_Un)
  qed (use md(1) old new in auto)
  from that [OF r this es mp c] show thesis .
qed

text \<open>
  C29. Adding an area to an address space. When the pages from \<open>start_va\<close> to \<open>end_va\<close> are not yet in
  the space and three frames are free for each of them, \<open>insert_framed_area\<close> appends an area
  whose pages are mapped with the given permission, each in a zeroed frame of its own that was not
  in use; every other page, and the contents of every frame in use outside the page table, stay.
\<close>

theorem insert_framed_area_adds_pages:
  assumes "space_inv syms l (ms, m)" and "va_floor start_va \<le> va_ceil end_va"
    and "vs = vpn_range_items \<lparr>range_l = va_floor start_va, range_r = va_ceil end_va\<rparr>"
    and "3 * length vs \<le> fa_free_count (frames m)" and "distinct (map indexes (trampoline_vpn # space_pages ms @ vs))"
  shows "\<exists>ms' m' es. insert_framed_area start_va end_va perm (ms, m) = Inr (ms', m')
    \<and> space_inv syms l (ms', m')
    \<and> ms_areas ms' = ms_areas ms @ [\<lparr>vpn_range_of = \<lparr>range_l = va_floor start_va, range_r = va_ceil end_va\<rparr>,
         data_frames = es, map_type_of = Framed, map_perm = perm\<rparr>]
    \<and> map fst es = vs \<and> snd ` set es \<inter> fa_used l (frames m) = {}
    \<and> (\<forall>p \<in> snd ` set es. phys m' p = replicate 4096 0)
    \<and> (\<forall>v. indexes v \<notin> indexes ` set vs \<longrightarrow> pt_view (ms_page_table ms', m') v = pt_view (ms_page_table ms, m) v)
    \<and> (\<forall>k \<in> fa_used l (frames m) - set (pt_frames (ms_page_table ms)). phys m' k = phys m k)"
proof -
  let ?a = "\<lparr>vpn_range_of = \<lparr>range_l = va_floor start_va, range_r = va_ceil end_va\<rparr>, data_frames = [],
    map_type_of = Framed, map_perm = perm\<rparr>"
  have a: "map_type_of ?a = Framed" "data_frames ?a = []" "range_l (vpn_range_of ?a) \<le> range_r (vpn_range_of ?a)"
    "vs = area_vpns ?a" using assms(2,3) by (simp_all add: area_vpns_def)
  obtain es pt' m' where
    r: "ms_push ?a None (ms, m) = Inr (0, \<lparr>ms_page_table = pt', ms_areas = ms_areas ms @ [?a\<lparr>data_frames := es\<rparr>]\<rparr>, m')"
    and inv: "space_inv syms l (\<lparr>ms_page_table = pt', ms_areas = ms_areas ms @ [?a\<lparr>data_frames := es\<rparr>]\<rparr>, m')"
    and es: "map fst es = vs" and mp: "mapped l (map_perm ?a) es (ms_page_table ms, m) (pt', m')"
    by (rule space_inv_push [OF assms(1,4,5) a])
  note md = mappedD [OF mp]
  have n: "map_area_new start_va end_va Framed perm = Inr ?a"
    using assms(2) by (simp add: map_area_new_def vpn_range_new_def)
  have v: "pt_view (pt', m') v = pt_view (ms_page_table ms, m) v" if "indexes v \<notin> indexes ` set vs" for v
    using that unfolding es [symmetric] md(2) by (rule view_with_other)
  show ?thesis
    by (rule exI, rule exI [of _ m'], rule exI [of _ es], intro conjI)
      (use n r inv es md(6,9,11) v in \<open>auto simp: insert_framed_area_def\<close>)
qed

section \<open>Giving frames back\<close>

lemma drop_frames_ok:
  assumes "fa_inv l (frames m)" and "distinct fs" and "set fs \<subseteq> fa_used l (frames m)"
  shows "\<exists>m'. drop_frames fs m = Inr m' \<and> fa_inv l (frames m') \<and> fa_used l (frames m') = fa_used l (frames m) - set fs
    \<and> phys m' = phys m \<and> fa_end (frames m') = fa_end (frames m)
    \<and> fa_free_count (frames m') = fa_free_count (frames m) + length fs"
  using assms
proof (induction fs arbitrary: m)
  case (Cons f fs)
  from fa_dealloc_step [OF Cons.prems(1), of f] Cons.prems(3) obtain s where
    d: "fa_dealloc (frames m) f = Inr s" and i: "fa_inv l s" and u: "fa_used l s = fa_used l (frames m) - {f}" by auto
  from Cons.IH [of "m\<lparr>frames := s\<rparr>"] i u Cons.prems(2,3) obtain m' where
    r: "drop_frames fs (m\<lparr>frames := s\<rparr>) = Inr m'" and m': "fa_inv l (frames m')" "fa_used l (frames m') = fa_used l s - set fs"
      "phys m' = phys m" "fa_end (frames m') = fa_end s" "fa_free_count (frames m') = fa_free_count s + length fs" by auto
  have "drop_frames (f # fs) m = Inr m'" using d r by (simp add: frame_dealloc_def)
  then show ?case using m' u fa_dealloc_end [OF d] fa_dealloc_free_count [OF d] by auto
qed simp

lemma drop_frames_append: "drop_frames (xs @ ys) m = rbind (drop_frames xs m) (drop_frames ys)"
  by (induction xs arbitrary: m) (simp_all add: rbind_def split: sum.split)

lemma drop_areas_frames: "drop_areas as m = drop_frames (concat (map (\<lambda>a. map snd (data_frames a)) as)) m"
  by (induction as arbitrary: m) (simp_all add: drop_area_def drop_frames_append rbind_def split: sum.split)

lemma recycle_ok:
  assumes "space_inv syms l (ms, m)"
  obtains m1 where "recycle_data_pages (ms, m) = Inr (ms\<lparr>ms_areas := []\<rparr>, m1)" and "fa_inv l (frames m1)"
    and "fa_used l (frames m1) = fa_used l (frames m) - set (space_frames ms)" and "phys m1 = phys m"
    and "fa_free_count (frames m1) = fa_free_count (frames m) + length (space_frames ms)"
    and "pt_inv l (ms_page_table ms, m1)" and "pt_view (ms_page_table ms, m1) = pt_view (ms_page_table ms, m)"
proof -
  let ?pt = "ms_page_table ms"
  have inv: "pt_inv l (?pt, m)" and ds: "distinct (space_frames ms)"
    and sub: "set (space_frames ms) \<subseteq> fa_used l (frames m) - set (pt_frames ?pt)" using assms by (simp_all add: space_inv_def)
  have h: "fa_inv l (frames m)" "mem_ok m" "unat (fa_end (frames m)) \<le> 2 ^ 44" "set (pt_frames ?pt) \<subseteq> fa_used l (frames m)"
    using inv by (auto simp: pt_inv_def)
  from drop_frames_ok [OF h(1) ds] sub obtain m1 where
    d1: "drop_frames (space_frames ms) m = Inr m1" and i1: "fa_inv l (frames m1)"
    and u1: "fa_used l (frames m1) = fa_used l (frames m) - set (space_frames ms)" and p1: "phys m1 = phys m"
    and e1: "fa_end (frames m1) = fa_end (frames m)"
    and c1: "fa_free_count (frames m1) = fa_free_count (frames m) + length (space_frames ms)" by auto
  have pu: "set (pt_frames ?pt) \<subseteq> fa_used l (frames m1)" using u1 sub h(4) by blast
  have same: "phys m1 k = phys m k" if "k \<in> set (pt_frames ?pt)" for k by (simp add: p1)
  have mem1: "mem_ok m1" using h(2) by (simp add: mem_ok_def p1)
  have v: "pt_inv l (?pt, m1)" "pt_view (?pt, m1) = pt_view (?pt, m)"
    by (rule pt_frame_rule [OF inv same mem1 i1]; use e1 h(3) pu in simp)+
  have "recycle_data_pages (ms, m) = Inr (ms\<lparr>ms_areas := []\<rparr>, m1)"
    using d1 by (simp add: recycle_data_pages_def drop_areas_frames space_frames_def)
  then show thesis using that i1 u1 p1 c1 v by blast
qed

text \<open>
  C30. The end of an address space. Recycling the data pages (what an exiting process does) and
  then dropping the space (what its parent does in \<open>waitpid\<close>) succeed and give back exactly the
  frames of the areas and those of the page table, once each: every other frame in use stays in
  use, and memory is not written.
\<close>

theorem recycle_and_drop_return_frames:
  assumes "space_inv syms l (ms, m)"
  shows "\<exists>m1 m2. recycle_data_pages (ms, m) = Inr (ms\<lparr>ms_areas := []\<rparr>, m1)
    \<and> fa_used l (frames m1) = fa_used l (frames m) - set (space_frames ms)
    \<and> pt_inv l (ms_page_table ms, m1) \<and> pt_view (ms_page_table ms, m1) = pt_view (ms_page_table ms, m)
    \<and> drop_memory_set (ms\<lparr>ms_areas := []\<rparr>) m1 = Inr m2 \<and> fa_inv l (frames m2) \<and> phys m2 = phys m
    \<and> fa_used l (frames m2) = fa_used l (frames m) - set (space_frames ms) - set (pt_frames (ms_page_table ms))
    \<and> fa_free_count (frames m2) = fa_free_count (frames m) + length (space_frames ms) + length (pt_frames (ms_page_table ms))"
proof -
  let ?pt = "ms_page_table ms"
  have d: "distinct (pt_frames ?pt)" using assms by (auto simp: space_inv_def pt_inv_def)
  from recycle_ok [OF assms] obtain m1 where
    1: "recycle_data_pages (ms, m) = Inr (ms\<lparr>ms_areas := []\<rparr>, m1)" "fa_inv l (frames m1)"
      "fa_used l (frames m1) = fa_used l (frames m) - set (space_frames ms)" "phys m1 = phys m"
      "fa_free_count (frames m1) = fa_free_count (frames m) + length (space_frames ms)"
      "pt_inv l (?pt, m1)" "pt_view (?pt, m1) = pt_view (?pt, m)" .
  have "set (pt_frames ?pt) \<subseteq> fa_used l (frames m1)" using 1(6) by (simp add: pt_inv_def)
  from drop_frames_ok [OF 1(2) d this] obtain m2 where
    d2: "drop_frames (pt_frames ?pt) m1 = Inr m2" and m2: "fa_inv l (frames m2)"
      "fa_used l (frames m2) = fa_used l (frames m1) - set (pt_frames ?pt)" "phys m2 = phys m1"
      "fa_free_count (frames m2) = fa_free_count (frames m1) + length (pt_frames ?pt)" by auto
  have "drop_memory_set (ms\<lparr>ms_areas := []\<rparr>) m1 = Inr m2" using d2 by (simp add: drop_memory_set_def)
  then show ?thesis using 1 m2 by (intro exI [of _ m1] exI [of _ m2]) simp
qed

section \<open>An example\<close>

text \<open>A machine of 63 free frames, and the space with one page at address \<^verbatim>\<open>0x10000\<close>.\<close>

definition example_machine :: machine where
  "example_machine = \<lparr>phys = (\<lambda>_. replicate 4096 0), frames = fa_booted 1 64\<rparr>"

definition example_syms :: linker_symbols where
  "example_syms = \<lparr>sym_stext = 0, sym_etext = 0, sym_srodata = 0, sym_erodata = 0, sym_sdata = 0, sym_edata = 0,
     sym_sbss = 0, sym_ebss = 0, sym_ekernel = 0, sym_strampoline = 0x80201000\<rparr>"

lemma example_space:
  obtains ms m where "space_inv example_syms 1 (ms, m)" and "ms_areas ms = []" and "60 \<le> fa_free_count (frames m)"
proof -
  have h: "fa_inv 1 (frames example_machine)" "3 \<le> fa_free_count (frames example_machine)" "mem_ok example_machine"
    "unat (fa_end (frames example_machine)) \<le> 2 ^ 44" "pa_page_offset (PhysAddr (sym_strampoline example_syms)) = 0"
    by (simp_all add: example_machine_def example_syms_def fa_booted_def fa_init_def fa_new_def fa_inv_def
      fa_free_count_def mem_ok_def pa_page_offset_def config_defs)
  have c: "fa_free_count (frames example_machine) = 63"
    by (simp add: example_machine_def fa_booted_def fa_init_def fa_new_def fa_free_count_def)
  obtain ms1 ms m1 m where "space_inv example_syms 1 (ms, m)" and "ms_areas ms = []" and "63 \<le> fa_free_count (frames m) + 3"
    by (rule new_space_inv [OF h, unfolded c])
  then show thesis using that by simp
qed

definition example_range :: vpn_range where
  "example_range = \<lparr>range_l = VirtPageNum 16, range_r = VirtPageNum 17\<rparr>"

lemma example_pages:
  "vpn_range_items example_range = [VirtPageNum 16]" "range_l example_range \<le> range_r example_range"
  "va_floor (VirtAddr 0x10000) = range_l example_range" "va_ceil (VirtAddr 0x11000) = range_r example_range"
  "distinct (map indexes [trampoline_vpn, VirtPageNum 16])"
  by code_simp+

lemma example_forkable:
  obtains ms m where "space_inv example_syms 1 (ms, m)" and "space_pages ms = [VirtPageNum 16]" and "57 \<le> fa_free_count (frames m)"
proof -
  let ?a = "\<lparr>vpn_range_of = example_range, data_frames = [], map_type_of = Framed, map_perm = PERM_R OR PERM_U\<rparr>"
  obtain ms m where s: "space_inv example_syms 1 (ms, m)" "ms_areas ms = []" "60 \<le> fa_free_count (frames m)"
    by (rule example_space)
  have h: "3 * length [VirtPageNum 16] \<le> fa_free_count (frames m)"
    "distinct (map indexes (trampoline_vpn # space_pages ms @ [VirtPageNum 16]))"
    using s(2,3) example_pages(5) by (simp_all add: space_pages_def)
  have a: "map_type_of ?a = Framed" "data_frames ?a = []" "range_l (vpn_range_of ?a) \<le> range_r (vpn_range_of ?a)"
    "[VirtPageNum 16] = area_vpns ?a" using example_pages by (simp_all add: area_vpns_def)
  obtain es pt' m' where
    i: "space_inv example_syms 1 (\<lparr>ms_page_table = pt', ms_areas = ms_areas ms @ [?a\<lparr>data_frames := es\<rparr>]\<rparr>, m')"
    and c: "fa_free_count (frames m) \<le> fa_free_count (frames m') + 3 * length [VirtPageNum 16]"
    by (rule space_inv_push [OF s(1) h a])
  show thesis
    by (rule that [OF i]; use c s(2,3) example_pages(1) in \<open>simp add: space_pages_def area_vpns_def\<close>)
qed

theorem fork_copies_memory_witness:
  "\<exists>ms m child m'. space_inv example_syms 1 (ms, m) \<and> space_pages ms = [VirtPageNum 16]
    \<and> from_existed_user example_syms ms m = Inr (Some child, m')
    \<and> list_all2 (area_copied 1 m (ms_page_table child, m')) (ms_areas ms) (ms_areas child)"
proof -
  obtain ms m where s: "space_inv example_syms 1 (ms, m)" "space_pages ms = [VirtPageNum 16]" "57 \<le> fa_free_count (frames m)"
    by (rule example_forkable)
  have h: "3 * length (space_pages ms) + 3 \<le> fa_free_count (frames m)"
    "pa_page_offset (PhysAddr (sym_strampoline example_syms)) = 0"
    using s(2,3) by (simp_all add: example_syms_def pa_page_offset_def config_defs)
  from fork_copies_memory [OF s(1) h] s show ?thesis by blast
qed

theorem insert_framed_area_adds_pages_witness:
  "\<exists>ms m ms' m' es. space_inv example_syms 1 (ms, m)
    \<and> insert_framed_area (VirtAddr 0x10000) (VirtAddr 0x11000) PERM_R (ms, m) = Inr (ms', m')
    \<and> space_inv example_syms 1 (ms', m') \<and> map fst es = [VirtPageNum 16]
    \<and> (\<forall>p \<in> snd ` set es. phys m' p = replicate 4096 0)"
proof -
  obtain ms m where s: "space_inv example_syms 1 (ms, m)" "ms_areas ms = []" "60 \<le> fa_free_count (frames m)"
    by (rule example_space)
  have h: "va_floor (VirtAddr 0x10000) \<le> va_ceil (VirtAddr 0x11000)"
    "[VirtPageNum 16] = vpn_range_items \<lparr>range_l = va_floor (VirtAddr 0x10000), range_r = va_ceil (VirtAddr 0x11000)\<rparr>"
    "3 * length [VirtPageNum 16] \<le> fa_free_count (frames m)"
    "distinct (map indexes (trampoline_vpn # space_pages ms @ [VirtPageNum 16]))"
    using s(2,3) example_pages by (simp_all add: space_pages_def example_range_def)
  from insert_framed_area_adds_pages [OF s(1) h, of PERM_R] obtain ms' m' es where
    "insert_framed_area (VirtAddr 0x10000) (VirtAddr 0x11000) PERM_R (ms, m) = Inr (ms', m')"
    "space_inv example_syms 1 (ms', m')" "map fst es = [VirtPageNum 16]"
    "\<forall>p \<in> snd ` set es. phys m' p = replicate 4096 0" by (elim exE conjE)
  with s(1) show ?thesis by (intro exI conjI)
qed

theorem recycle_and_drop_return_frames_witness:
  "\<exists>ms m m1 m2. space_pages ms = [VirtPageNum 16] \<and> recycle_data_pages (ms, m) = Inr (ms\<lparr>ms_areas := []\<rparr>, m1)
    \<and> drop_memory_set (ms\<lparr>ms_areas := []\<rparr>) m1 = Inr m2
    \<and> fa_used 1 (frames m2) = fa_used 1 (frames m) - set (space_frames ms) - set (pt_frames (ms_page_table ms))"
proof -
  obtain ms m where s: "space_inv example_syms 1 (ms, m)" "space_pages ms = [VirtPageNum 16]"
    by (rule example_forkable)
  from recycle_and_drop_return_frames [OF s(1)] s(2) show ?thesis by blast
qed

end
