(* ===== verification/Kernel_Stack.thy ===== *)
theory Kernel_Stack
  imports Trap_Context Memory_Set_Spec
begin

text \<open>
  Kernel stacks (\<^verbatim>\<open>os/src/task/pid.rs\<close>): a new stack is two zeroed pages below the trampoline in
  the kernel's address space, and the context that is pushed on it lies in its upper page.
\<close>

section \<open>The pages of a stack\<close>

definition stack_pages :: "usize \<Rightarrow> virt_page_num list" where
  "stack_pages pid = vpn_range_items
     \<lparr>range_l = va_floor (VirtAddr (fst (kernel_stack_position pid))), range_r = va_ceil (VirtAddr (snd (kernel_stack_position pid)))\<rparr>"

definition stack_top_page :: "usize \<Rightarrow> virt_page_num" where
  "stack_top_page pid = va_floor (VirtAddr (kernel_stack_get_top pid - 1))"

lemma stack_range:
  assumes "unat pid < 2 ^ 50"
  shows "unat (vpn_val (va_floor (VirtAddr (fst (kernel_stack_position pid))))) = 2 ^ 52 - 3 - 3 * unat pid"
    and "unat (vpn_val (va_ceil (VirtAddr (snd (kernel_stack_position pid))))) = 2 ^ 52 - 1 - 3 * unat pid"
    and "unat (vpn_val (stack_top_page pid)) = 2 ^ 52 - 2 - 3 * unat pid"
proof -
  note k = kernel_stack_unat [OF assms]
  let ?b = "fst (kernel_stack_position pid)" and ?t = "snd (kernel_stack_position pid)"
  have "unat ?b = (2 ^ 52 - 3 - 3 * unat pid) * 4096" using k(2) assms by simp
  then show "unat (vpn_val (va_floor (VirtAddr ?b))) = 2 ^ 52 - 3 - 3 * unat pid"
    by (simp add: va_floor_def PAGE_SIZE_def unat_div)
  have t: "unat ?t = (2 ^ 52 - 1 - 3 * unat pid) * 4096" using k(1) assms by simp
  have "unat (?t - 1 + 4096) = unat (?t + 4095)" by (simp add: algebra_simps)
  also have "\<dots> = unat ?t + 4095" using t assms by (simp add: unat_word_ariths)
  finally show "unat (vpn_val (va_ceil (VirtAddr ?t))) = 2 ^ 52 - 1 - 3 * unat pid"
    using t by (simp add: va_ceil_def PAGE_SIZE_def unat_div)
  have "unat (?t - 1) = unat ?t - 1" using t assms by (subst unat_sub) (auto simp: word_le_nat_alt)
  also have "\<dots> = (2 ^ 52 - 2 - 3 * unat pid) * 4096 + 4095" using t assms by simp
  finally show "unat (vpn_val (stack_top_page pid)) = 2 ^ 52 - 2 - 3 * unat pid"
    by (simp add: stack_top_page_def kernel_stack_get_top_def va_floor_def PAGE_SIZE_def unat_div)
qed

lemma Suc_mod_neq: "1 < N \<Longrightarrow> Suc n mod N \<noteq> n mod N"
  by (simp add: mod_Suc)

lemma stack_pages_ok:
  assumes "unat pid < 2 ^ 50"
  shows "length (stack_pages pid) = 2" and "sorted_wrt (<) (stack_pages pid)" and "stack_top_page pid \<in> set (stack_pages pid)"
    and "distinct (map indexes (stack_pages pid))"
    and "va_floor (VirtAddr (fst (kernel_stack_position pid))) \<le> va_ceil (VirtAddr (snd (kernel_stack_position pid)))"
proof -
  note r = stack_range [OF assms]
  show le: "va_floor (VirtAddr (fst (kernel_stack_position pid))) \<le> va_ceil (VirtAddr (snd (kernel_stack_position pid)))"
    using r assms by (simp add: less_eq_virt_page_num_def word_le_nat_alt)
  let ?r = "\<lparr>range_l = va_floor (VirtAddr (fst (kernel_stack_position pid))), range_r = va_ceil (VirtAddr (snd (kernel_stack_position pid)))\<rparr>"
  have le': "range_l ?r \<le> range_r ?r" using le by simp
  note i = vpn_range_items_range [OF le']
  show len: "length (stack_pages pid) = 2" using i(3) r assms by (simp add: stack_pages_def)
  show "sorted_wrt (<) (stack_pages pid)" using i(2) by (simp add: stack_pages_def)
  show "stack_top_page pid \<in> set (stack_pages pid)"
    using i(1) r assms by (simp add: stack_pages_def less_eq_virt_page_num_def less_virt_page_num_def word_le_nat_alt word_less_nat_alt) arith
  have ix: "indexes u \<noteq> indexes v" if "u \<in> set (stack_pages pid)" "v \<in> set (stack_pages pid)" "u \<noteq> v" for u v
  proof -
    define n where "n = 2 ^ 52 - 3 - 3 * unat pid"
    have n: "unat (vpn_val (va_floor (VirtAddr (fst (kernel_stack_position pid))))) = n"
      "unat (vpn_val (va_ceil (VirtAddr (snd (kernel_stack_position pid))))) = Suc (Suc n)"
      using r assms unfolding n_def by simp_all
    have b: "unat (vpn_val w) = n \<or> unat (vpn_val w) = Suc n" if "w \<in> set (stack_pages pid)" for w
      using that i(1) by (auto simp: stack_pages_def less_eq_virt_page_num_def less_virt_page_num_def word_le_nat_alt word_less_nat_alt n)
    have ne: "unat (vpn_val u) \<noteq> unat (vpn_val v)" using that(3) by (cases u; cases v) (simp add: word_unat_eq_iff)
    have "Suc n mod 2 ^ 27 \<noteq> n mod 2 ^ 27" by (rule Suc_mod_neq) simp
    then have "unat (vpn_val u) mod 2 ^ 27 \<noteq> unat (vpn_val v) mod 2 ^ 27"
      using b [OF that(1)] b [OF that(2)] ne by metis
    then show ?thesis by (simp add: indexes_inject take_bit_eq_mod word_unat_eq_iff unat_mod)
  qed
  have "distinct (stack_pages pid)" using i(2) by (simp add: stack_pages_def strict_sorted_iff)
  then show "distinct (map indexes (stack_pages pid))" using ix by (auto simp: distinct_map inj_on_def)
qed

section \<open>Storing in a page of the kernel\<close>

lemma overwrite_Cons:
  assumes "off + length (b # bs) \<le> length xs"
  shows "overwrite (Suc off) bs (xs[off := b]) = overwrite off (b # bs) xs"
  using assms by (intro nth_equalityI) (auto simp: nth_overwrite nth_list_update nth_Cons')

lemma kernel_store_ok:
  assumes "pt_inv l (ms_page_table ks, m)" and "pt_view (ms_page_table ks, m) v = Some (pte_new p fl)" and "fl AND PTE_W \<noteq> 0"
    and "unat (ppn_val p) < 2 ^ 44" and "p \<notin> set (pt_frames (ms_page_table ks))" and "off + length bs \<le> 4096"
    and "\<forall>i < length bs. va_floor (VirtAddr (va + word_of_nat i)) = v \<and> unat (va_page_offset (VirtAddr (va + word_of_nat i))) = off + i"
  shows "kernel_store ks va bs m = Inr (m\<lparr>phys := (phys m)(p := overwrite off bs (phys m p))\<rparr>)"
  using assms
proof (induction bs arbitrary: va off m)
  case (Cons b bs)
  let ?m = "ptr_write (p, off) b m" and ?pt = "ms_page_table ks"
  have mem: "mem_ok m" "fa_inv l (frames m)" "unat (fa_end (frames m)) \<le> 2 ^ 44" "set (pt_frames ?pt) \<subseteq> fa_used l (frames m)"
    using Cons.prems(1) by (auto simp: pt_inv_def)
  have a0: "va_floor (VirtAddr va) = v" "unat (va_page_offset (VirtAddr va)) = off" using Cons.prems(7) by force+
  have "ms_translate ks m v = Some (pte_new p fl)"
    using pt_view_translate(1) [OF Cons.prems(1,2)] by (simp add: ms_translate_def)
  moreover have "pte_is_valid (pte_new p fl)" using pt_view_walk [OF Cons.prems(2)] by blast
  ultimately have kp: "kernel_ptr ks m va = Some (p, off)"
    using a0 Cons.prems(3,4) by (simp add: kernel_ptr_def pte_writable_def pte_flags_new pte_ppn_new)
  have same: "phys ?m k = phys m k" if "k \<in> set (pt_frames ?pt)" for k using that Cons.prems(5) by (auto simp: ptr_write_def)
  have mem': "mem_ok ?m" "frames ?m = frames m" using mem(1) by (simp_all add: mem_ok_def ptr_write_def)
  have fr: "pt_inv l (?pt, ?m)" "pt_view (?pt, ?m) = pt_view (?pt, m)"
    by (rule pt_frame_rule [OF Cons.prems(1) same mem'(1)]; use mem mem'(2) in simp)+
  have step: "\<forall>i < length bs. va_floor (VirtAddr (va + 1 + word_of_nat i)) = v
      \<and> unat (va_page_offset (VirtAddr (va + 1 + word_of_nat i))) = Suc off + i"
  proof (intro allI impI)
    fix i assume "i < length bs"
    then have "Suc i < length (b # bs)" by simp
    from Cons.prems(7) [rule_format, OF this]
    show "va_floor (VirtAddr (va + 1 + word_of_nat i)) = v \<and> unat (va_page_offset (VirtAddr (va + 1 + word_of_nat i))) = Suc off + i"
      by (simp add: add.assoc)
  qed
  have "kernel_store ks (va + 1) bs ?m = Inr (?m\<lparr>phys := (phys ?m)(p := overwrite (Suc off) bs (phys ?m p))\<rparr>)"
    by (rule Cons.IH [OF fr(1) _ Cons.prems(3-5) _ step]) (use fr(2) Cons.prems(2,6) in simp_all)
  then show ?case using kp Cons.prems(6) mem(1) by (simp add: ptr_write_def overwrite_Cons mem_ok_def) (simp add: fun_upd_def)
qed simp

section \<open>A new stack\<close>

lemma stack_top_addr:
  assumes "unat pid < 2 ^ 50" and "0 < n" and "n \<le> 4096" and "i < n"
  shows "va_floor (VirtAddr (kernel_stack_get_top pid - word_of_nat n + word_of_nat i)) = stack_top_page pid"
    and "unat (va_page_offset (VirtAddr (kernel_stack_get_top pid - word_of_nat n + word_of_nat i))) = 4096 - n + i"
proof -
  let ?t = "kernel_stack_get_top pid" and ?a = "kernel_stack_get_top pid - word_of_nat n + word_of_nat i"
  have t: "unat ?t = (2 ^ 52 - 1 - 3 * unat pid) * 4096"
    using kernel_stack_unat(1) [OF assms(1)] assms(1) by (simp add: kernel_stack_get_top_def)
  have n: "unat (word_of_nat n :: usize) = n" "unat (word_of_nat i :: usize) = i" using assms by (auto intro!: unat_of_nat64)
  have "unat (?t - word_of_nat n) = unat ?t - n" using t n assms by (subst unat_sub) (auto simp: word_le_nat_alt)
  moreover have "unat ?a = (unat (?t - word_of_nat n) + i) mod 2 ^ 64" using n by (simp add: unat_word_ariths)
  ultimately have "unat ?a = unat ?t - n + i" using t assms by simp
  also have "\<dots> = (2 ^ 52 - 2 - 3 * unat pid) * 4096 + (4096 - n + i)" using t assms by simp
  finally have a: "unat ?a = (2 ^ 52 - 2 - 3 * unat pid) * 4096 + (4096 - n + i)" .
  have lt: "4096 - n + i < 4096" using assms by simp
  have "unat (vpn_val (va_floor (VirtAddr ?a))) = 2 ^ 52 - 2 - 3 * unat pid"
    using a lt by (simp add: va_floor_def PAGE_SIZE_def unat_div)
  then show "va_floor (VirtAddr ?a) = stack_top_page pid"
    using stack_range(3) [OF assms(1)] by (cases "stack_top_page pid"; cases "va_floor (VirtAddr ?a)") (simp add: word_unat_eq_iff)
  have "va_page_offset (VirtAddr ?a) = take_bit 12 ?a"
    by (simp add: va_page_offset_def PAGE_SIZE_def take_bit_eq_mask mask_eq_exp_minus_1)
  then have "unat (va_page_offset (VirtAddr ?a)) = unat ?a mod 4096" by (simp add: take_bit_eq_mod unat_mod)
  then show "unat (va_page_offset (VirtAddr ?a)) = 4096 - n + i" using a lt by simp
qed

lemma new_stack_ok:
  assumes inv: "pt_inv l (ms_page_table ks, m)" and un: "\<forall>v \<in> set (stack_pages pid). pt_view (ms_page_table ks, m) v = None"
    and free: "6 \<le> fa_free_count (frames m)" and pid: "unat pid < 2 ^ 50" and len: "0 < length value" "length value \<le> 4096"
  obtains es ks' m1 m2 p where "kernel_stack_new pid (ks, m) = Inr (ks', m1)"
    and "mapped l (PERM_R OR PERM_W) es (ms_page_table ks, m) (ms_page_table ks', m1)" and "map fst es = stack_pages pid"
    and "push_on_top pid value (ks', m1) = Inr (kernel_stack_get_top pid - word_of_nat (length value), m2)"
    and "(stack_top_page pid, p) \<in> set es"
    and "m2 = m1\<lparr>phys := (phys m1)(p := overwrite (4096 - length value) value (phys m1 p))\<rparr>"
    and "pt_inv l (ms_page_table ks', m2)" and "pt_view (ms_page_table ks', m2) = pt_view (ms_page_table ks', m1)"
proof -
  let ?b = "VirtAddr (fst (kernel_stack_position pid))" and ?t = "VirtAddr (snd (kernel_stack_position pid))"
  let ?a = "\<lparr>vpn_range_of = \<lparr>range_l = va_floor ?b, range_r = va_ceil ?t\<rparr>, data_frames = [], map_type_of = Framed, map_perm = PERM_R OR PERM_W\<rparr>"
  note sp = stack_pages_ok [OF pid]
  have h: "3 * length (stack_pages pid) \<le> fa_free_count (frames m)" "map_type_of ?a = Framed" "data_frames ?a = []"
    "stack_pages pid = vpn_range_items (vpn_range_of ?a)" using sp(1) free by (simp_all add: stack_pages_def)
  obtain es pt' m1 where
    push: "ms_push ?a None (ks, m) = Inr (0, \<lparr>ms_page_table = pt', ms_areas = ms_areas ks @ [?a\<lparr>data_frames := es\<rparr>]\<rparr>, m1)"
    and es: "map fst es = stack_pages pid" and mp: "mapped l (map_perm ?a) es (ms_page_table ks, m) (pt', m1)"
    by (rule push_framed [OF inv un h(1) sp(4,2) h(2-4)])
  let ?ks = "\<lparr>ms_page_table = pt', ms_areas = ms_areas ks @ [?a\<lparr>data_frames := es\<rparr>]\<rparr>"
  have new: "kernel_stack_new pid (ks, m) = Inr (?ks, m1)"
    using push sp(5) by (simp add: kernel_stack_new_def case_prod_beta insert_framed_area_def map_area_new_def vpn_range_new_def)
  note md = mappedD [OF mp]
  obtain p where p: "(stack_top_page pid, p) \<in> set es" using sp(3) unfolding es [symmetric] by auto
  have dx: "distinct (map indexes (map fst es))" using sp(4) by (simp add: es)
  have v: "pt_view (pt', m1) (stack_top_page pid) = Some (pte_new p ((PERM_R OR PERM_W) OR PTE_V))"
    using frame_at_mem [OF dx p] by (simp add: md(2) view_with_def)
  have pu: "p \<in> fa_used l (frames m1)" "p \<notin> set (pt_frames pt')" using md(4,6) p by force+
  have pb: "unat (ppn_val p) < 2 ^ 44" using md(1) fa_used_bound [OF _ pu(1)] by (auto simp: pt_inv_def)
  have w: "((PERM_R OR PERM_W) OR PTE_V) AND PTE_W \<noteq> 0" by code_simp
  let ?va = "kernel_stack_get_top pid - word_of_nat (length value)"
  have adr: "\<forall>i < length value. va_floor (VirtAddr (?va + word_of_nat i)) = stack_top_page pid
      \<and> unat (va_page_offset (VirtAddr (?va + word_of_nat i))) = (4096 - length value) + i"
    using stack_top_addr [OF pid len] by simp
  let ?m2 = "m1\<lparr>phys := (phys m1)(p := overwrite (4096 - length value) value (phys m1 p))\<rparr>"
  have st: "kernel_store ?ks ?va value m1 = Inr ?m2"
    by (rule kernel_store_ok [OF _ _ w pb _ _ adr]) (use md(1) v pu(2) len in simp_all)
  have mem: "mem_ok m1" "fa_inv l (frames m1)" "unat (fa_end (frames m1)) \<le> 2 ^ 44" "set (pt_frames pt') \<subseteq> fa_used l (frames m1)"
    using md(1) by (auto simp: pt_inv_def)
  have same: "phys ?m2 k = phys m1 k" if "k \<in> set (pt_frames pt')" for k using that pu(2) by auto
  have mem2: "mem_ok ?m2" using mem(1) len by (simp add: mem_ok_def)
  have fr: "pt_inv l (pt', ?m2)" "pt_view (pt', ?m2) = pt_view (pt', m1)"
    by (rule pt_frame_rule [OF md(1) same mem2]; use mem in simp)+
  show thesis
    by (rule that [OF new _ es _ p refl]) (use mp st fr in \<open>simp_all add: push_on_top_def\<close>)
qed

end
