(* ===== verification/Fork_Spec.thy ===== *)
theory Fork_Spec
  imports Kernel_Refs Kernel_Stack
begin

text \<open>
  Forking a process, from the system call down to page tables and frames: the child is a process
  of its own with a copy of the parent's memory, the parent's open files and mail, a kernel stack
  and a trap context that makes it return 0 from the call.
\<close>

section \<open>Pages of a process\<close>

text \<open>What a process sees at a page: the flags and the contents.\<close>

definition user_page :: "memory_set \<Rightarrow> machine \<Rightarrow> virt_page_num \<Rightarrow> (pte_flags \<times> u8 list) option" where
  "user_page ms m v = map_option (\<lambda>e. (pte_get_flags e, phys m (pte_ppn e))) (pt_view (ms_page_table ms, m) v)"

definition trap_vpn :: virt_page_num where
  "trap_vpn = va_floor (VirtAddr TRAP_CONTEXT)"

lemma trap_vpn_of_va: "vpn_of_va (VirtAddr TRAP_CONTEXT) = Inr trap_vpn"
  by (simp add: vpn_of_va_def trap_vpn_def va_page_offset_def config_defs)

text \<open>Spaces whose page table frames are not written keep their invariant and their view.\<close>

lemma space_frame_rule:
  assumes inv: "space_inv syms l (ms, m)" and same: "\<And>f. f \<in> set (pt_frames (ms_page_table ms)) \<Longrightarrow> phys m' f = phys m f"
    and mem: "mem_ok m'" "fa_inv l (frames m')" "unat (fa_end (frames m')) \<le> 2 ^ 44" and used: "fa_used l (frames m) \<subseteq> fa_used l (frames m')"
  shows "space_inv syms l (ms, m')" and "pt_view (ms_page_table ms, m') = pt_view (ms_page_table ms, m)"
proof -
  have p: "pt_inv l (ms_page_table ms, m)" using inv by (simp add: space_inv_def)
  then have s: "set (pt_frames (ms_page_table ms)) \<subseteq> fa_used l (frames m')" using used by (auto simp: pt_inv_def)
  note r = pt_frame_rule [OF p same mem s]
  then show "pt_view (ms_page_table ms, m') = pt_view (ms_page_table ms, m)" by simp
  with r(1) show "space_inv syms l (ms, m')" using inv used by (auto simp: space_inv_def area_full_def)
qed

lemma area_page:
  assumes c: "area_copied l m (pt, m') a a'" and full: "area_full (pt0, m) a" and v: "v \<in> set (area_vpns a)"
  obtains q p where "(v, q) \<in> set (data_frames a)" and "(v, p) \<in> set (data_frames a')"
    and "pt_view (pt0, m) v = Some (pte_new q (map_perm a OR PTE_V))" and "pt_view (pt, m') v = Some (pte_new p (map_perm a OR PTE_V))"
    and "unat (ppn_val q) < 2 ^ 44" and "phys m' p = phys m q" and "p \<in> fa_used l (frames m') - fa_used l (frames m) - set (pt_frames pt)"
proof -
  have k: "map fst (data_frames a) = area_vpns a" "map fst (data_frames a') = area_vpns a"
    using c full by (auto simp: area_copied_def area_full_def)
  then have le: "length (data_frames a) = length (data_frames a')" by (metis length_map)
  obtain i where i: "i < length (data_frames a)" "fst (data_frames a ! i) = v"
    using v unfolding k(1) [symmetric] by (auto simp: in_set_conv_nth)
  obtain q where q: "data_frames a ! i = (v, q)" using i(2) by (metis surj_pair fst_conv)
  have "fst (data_frames a' ! i) = v" using i k le by (metis nth_map)
  then obtain p where p: "data_frames a' ! i = (v, p)" by (metis surj_pair fst_conv)
  have "((v, q), (v, p)) \<in> set (zip (data_frames a) (data_frames a'))" using i(1) le q p by (auto simp: set_zip intro!: exI [of _ i])
  then have h: "pt_view (pt, m') v = Some (pte_new p (map_perm a OR PTE_V)) \<and> phys m' p = phys m q
      \<and> p \<in> fa_used l (frames m') - fa_used l (frames m) - set (pt_frames pt)"
    using c unfolding area_copied_def by fastforce
  have q': "(v, q) \<in> set (data_frames a)" using i(1) q by (metis nth_mem)
  have p': "(v, p) \<in> set (data_frames a')" using i(1) le p by (metis nth_mem)
  show thesis by (rule that [OF q' p']) (use h q' full in \<open>auto simp: area_full_def\<close>)
qed

text \<open>A copied space, page by page.\<close>

definition space_map :: "memory_set \<Rightarrow> frame_map" where
  "space_map ms = concat (map data_frames (ms_areas ms))"

lemma space_frames_map: "space_frames ms = map snd (space_map ms)"
  by (simp add: space_frames_def space_map_def map_concat comp_def)

lemma space_map_inj: "space_inv syms l (ms, m) \<Longrightarrow> (u, p) \<in> set (space_map ms) \<Longrightarrow> (v, p) \<in> set (space_map ms) \<Longrightarrow> u = v"
proof -
  assume "space_inv syms l (ms, m)" and m: "(u, p) \<in> set (space_map ms)" "(v, p) \<in> set (space_map ms)"
  then have "inj_on snd (set (space_map ms))" by (simp add: space_inv_def space_frames_map distinct_map)
  from inj_onD [OF this _ m] show ?thesis by simp
qed

lemma copied_frames_fresh:
  assumes la: "list_all2 (area_copied l m (pt, m')) as as'" and p: "p \<in> snd ` set (concat (map data_frames as'))"
  shows "p \<notin> fa_used l (frames m)"
proof -
  from p obtain a' v where a': "a' \<in> set as'" "(v, p) \<in> set (data_frames a')" by auto
  then obtain a where c: "area_copied l m (pt, m') a a'" using la by (auto simp: list_all2_conv_all_nth in_set_conv_nth)
  then have le: "length (data_frames a) = length (data_frames a')" unfolding area_copied_def by (metis (mono_tags, lifting) case_prod_conv length_map)
  obtain i where i: "i < length (data_frames a')" "data_frames a' ! i = (v, p)" using a'(2) by (auto simp: in_set_conv_nth)
  then have "(data_frames a ! i, (v, p)) \<in> set (zip (data_frames a) (data_frames a'))" using le by (auto simp: set_zip intro!: exI [of _ i])
  then show ?thesis using c unfolding area_copied_def by (fastforce split: prod.splits)
qed

lemma copied_page:
  assumes inv: "space_inv syms l (ms, m)" "space_inv syms l (child, m')"
    and la: "list_all2 (area_copied l m (ms_page_table child, m')) (ms_areas ms) (ms_areas child)"
    and v: "v \<in> set (space_pages ms)"
  obtains q p fl where "pt_view (ms_page_table ms, m) v = Some (pte_new q fl)" and "pt_view (ms_page_table child, m') v = Some (pte_new p fl)"
    and "pte_ppn (pte_new q fl) = q" and "pte_ppn (pte_new p fl) = p" and "phys m' p = phys m q"
    and "p \<in> fa_used l (frames m') - fa_used l (frames m) - set (pt_frames (ms_page_table child))"
    and "(v, p) \<in> set (space_map child)" and "v \<in> set (space_pages child)"
proof -
  from v obtain a where a: "a \<in> set (ms_areas ms)" "v \<in> set (area_vpns a)" by (auto simp: space_pages_def)
  then obtain i where i: "i < length (ms_areas ms)" "ms_areas ms ! i = a" by (auto simp: in_set_conv_nth)
  let ?a' = "ms_areas child ! i"
  have a': "?a' \<in> set (ms_areas child)" using i la by (simp add: list_all2_conv_all_nth)
  have c: "area_copied l m (ms_page_table child, m') a ?a'" using la i by (auto simp: list_all2_conv_all_nth)
  have f: "area_full (ms_page_table ms, m) a" using inv(1) a(1) by (simp add: space_inv_def)
  show thesis
  proof (rule area_page [OF c f a(2)], goal_cases)
    case (1 q p)
    have pti: "pt_inv l (ms_page_table child, m')" using inv(2) by (simp add: space_inv_def)
    then have pb: "unat (ppn_val p) < 2 ^ 44" using 1(7) fa_used_bound [of l "frames m'" p] by (auto simp: pt_inv_def)
    have vc: "v \<in> set (space_pages child)" using a(2) a' area_copied_full(2) [OF c f pti] by (auto simp: space_pages_def intro!: bexI [of _ ?a'])
    show ?case
      by (rule that [OF 1(3,4) _ _ 1(6,7) _ vc]) (use 1(1,2,5) pb a(1) a' in \<open>force simp: pte_ppn_new space_map_def\<close>)+
  qed
qed

lemma copied_user_page:
  assumes inv: "space_inv syms l (ms, m)" "space_inv syms l (child, m')"
    and la: "list_all2 (area_copied l m (ms_page_table child, m')) (ms_areas ms) (ms_areas child)"
    and v: "indexes v \<noteq> indexes trampoline_vpn"
  shows "user_page child m' v = user_page ms m v"
proof (cases "indexes v \<in> indexes ` set (space_pages ms)")
  case True
  then obtain u where u: "u \<in> set (space_pages ms)" "indexes u = indexes v" by auto
  show ?thesis
  proof (rule copied_page [OF inv la u(1)], goal_cases)
    case (1 q p fl)
    have "pt_view s v = pt_view s u" for s using pt_view_same [OF u(2)] by simp
    then show ?case using 1 by (simp add: user_page_def pte_flags_new)
  qed
next
  case False
  have "\<forall>i < length (ms_areas ms). area_vpns (ms_areas child ! i) = area_vpns (ms_areas ms ! i)"
    using la inv area_copied_full(2) by (fastforce simp: list_all2_conv_all_nth space_inv_def)
  then have "map area_vpns (ms_areas child) = map area_vpns (ms_areas ms)"
    using list_all2_lengthD [OF la] by (auto intro!: nth_equalityI)
  then have "space_pages child = space_pages ms" by (simp add: space_pages_def)
  then show ?thesis using inv v False by (simp add: user_page_def space_inv_def)
qed

section \<open>The kernel stack of the child\<close>

lemma length_task_cx_enc: "length (task_cx_enc (goto_trap_return a)) = 104"
  by (simp add: task_cx_enc_def goto_trap_return_def)

lemma alloc_kernel_stack_ok:
  fixes k :: "'d kernel"
  assumes inv: "pt_inv l (ms_page_table (k_space k), k_mach k)" and pid: "pid_alloc (k_pids k) = (pid, pids)" "unat pid < 2 ^ 50"
    and un: "\<forall>v \<in> set (stack_pages pid). pt_view (ms_page_table (k_space k), k_mach k) v = None"
    and free: "6 \<le> fa_free_count (frames (k_mach k))"
  obtains cx k2 where "alloc_kernel_stack pf k = Inr ((pid, kernel_stack_get_top pid, cx), k2)"
    and "k2 = k\<lparr>k_pids := pids, k_space := k_space k2, k_mach := k_mach k2\<rparr>"
    and "pt_inv l (ms_page_table (k_space k2), k_mach k2)"
    and "set (pt_frames (ms_page_table (k_space k2))) \<inter> fa_used l (frames (k_mach k)) \<subseteq> set (pt_frames (ms_page_table (k_space k)))"
    and "\<forall>f \<in> fa_used l (frames (k_mach k)) - set (pt_frames (ms_page_table (k_space k))). phys (k_mach k2) f = phys (k_mach k) f"
    and "fa_used l (frames (k_mach k)) \<subseteq> fa_used l (frames (k_mach k2))"
    and "pt_view (ms_page_table (k_space k2), k_mach k2) v \<noteq> None \<or> v \<notin> set (stack_pages pid)"
proof -
  let ?cx = "task_cx_enc (goto_trap_return (pf_trap_return pf))"
  have len: "0 < length ?cx" "length ?cx \<le> 4096" by (simp_all add: length_task_cx_enc)
  show thesis
  proof (rule new_stack_ok [OF inv un free pid(2) len], goal_cases)
    case (1 es ks m1 m2 p)
    note md = mappedD [OF 1(2)]
    let ?k2 = "k\<lparr>k_pids := pids, k_space := ks, k_mach := m2\<rparr>"
    have p: "p \<in> snd ` set es" using 1(5) by force
    have a: "alloc_kernel_stack pf k = Inr ((pid, kernel_stack_get_top pid, kernel_stack_get_top pid - word_of_nat (length ?cx)), ?k2)"
      using 1(1,4) pid(1) by (simp add: alloc_kernel_stack_def)
    have fr: "frames m2 = frames m1" "\<forall>f. f \<noteq> p \<longrightarrow> phys m2 f = phys m1 f" using 1(6) by simp_all
    have ph: "phys m2 f = phys (k_mach k) f" if "f \<in> fa_used l (frames (k_mach k)) - set (pt_frames (ms_page_table (k_space k)))" for f
    proof -
      have "f \<noteq> p" using md(6) p that by blast
      then show ?thesis using that md(11) fr(2) by simp
    qed
    have v: "pt_view (ms_page_table ks, m2) v \<noteq> None \<or> v \<notin> set (stack_pages pid)"
    proof -
      have "frame_at es v \<noteq> None" if "v \<in> set (stack_pages pid)" using that unfolding frame_at_None_iff 1(3) [symmetric] by auto
      then show ?thesis by (auto simp: 1(8) md(2) view_with_def split: option.split)
    qed
    show ?case
      by (rule that [OF a]) (use 1(7) md(4,5) fr(1) ph v in auto)
  qed
qed

section \<open>Forking\<close>

text \<open>
  What holds of the memory of a process that can run: its space satisfies the invariant, the page
  of the trap context is in the frame the control block says, and none of its frames is a node of
  the kernel's page table.
\<close>

definition proc_mem :: "linker_symbols \<Rightarrow> usize \<Rightarrow> 'd kernel \<Rightarrow> nat \<Rightarrow> bool" where
  "proc_mem syms l k t \<longleftrightarrow>
     (let ms = tcb_memory_set (task_at k t) in
      space_inv syms l (ms, k_mach k) \<and> trap_vpn \<in> set (space_pages ms)
      \<and> map_option pte_ppn (pt_view (ms_page_table ms, k_mach k) trap_vpn) = Some (trap_cx_ppn (task_at k t))
      \<and> set (pt_frames (ms_page_table (k_space k))) \<inter> (set (space_frames ms) \<union> set (pt_frames (ms_page_table ms))) = {})"

lemma space_page_distinct:
  assumes "space_inv syms l (ms, m)" and "v \<in> set (space_pages ms)"
  shows "indexes v \<noteq> indexes trampoline_vpn"
proof -
  have "indexes trampoline_vpn \<notin> indexes ` set (space_pages ms)" using assms(1) by (simp add: space_inv_def)
  then show ?thesis using assms(2) by (metis imageI)
qed

text \<open>The machine after the child's trap context was changed.\<close>

definition child_cx :: "usize \<Rightarrow> trap_context \<Rightarrow> trap_context" where
  "child_cx sp cx = cx\<lparr>tc_x := (tc_x cx)[10 := 0], tc_kernel_sp := sp\<rparr>"

lemma child_cx_modified:
  assumes "mem_ok m"
  shows "modify_trap_cx p (\<lambda>cx. cx\<lparr>tc_x := (tc_x cx)[10 := 0]\<rparr>) (modify_trap_cx p (\<lambda>cx. cx\<lparr>tc_kernel_sp := sp\<rparr>) m) = m'
    \<Longrightarrow> trap_cx_at m' p = child_cx sp (trap_cx_at m p) \<and> mem_ok m' \<and> frames m' = frames m \<and> (\<forall>f. f \<noteq> p \<longrightarrow> phys m' f = phys m f)"
proof -
  let ?m1 = "modify_trap_cx p (\<lambda>cx. cx\<lparr>tc_kernel_sp := sp\<rparr>) m"
  have a: "trap_cx_at ?m1 p = (trap_cx_at m p)\<lparr>tc_kernel_sp := sp\<rparr>" "mem_ok ?m1" "frames ?m1 = frames m" "\<forall>f. f \<noteq> p \<longrightarrow> phys ?m1 f = phys m f"
    by (simp_all add: modify_trap_cx_ok [OF assms])
  assume "modify_trap_cx p (\<lambda>cx. cx\<lparr>tc_x := (tc_x cx)[10 := 0]\<rparr>) ?m1 = m'"
  then show ?thesis
    using a by (auto simp: child_cx_def modify_trap_cx_ok [OF a(2)])
qed

lemma trap_cx_frame_ok:
  assumes "space_inv syms l (ms, m)" and "pt_view (ms_page_table ms, m) trap_vpn = Some e"
  shows "trap_cx_frame ms m = Inr (pte_ppn e)"
proof -
  have "pt_inv l (ms_page_table ms, m)" using assms(1) by (simp add: space_inv_def)
  from pt_view_translate(1) [OF this assms(2)] show ?thesis
    by (simp add: trap_cx_frame_def trap_vpn_of_va ms_translate_def)
qed

text \<open>The state \<open>k'\<close> after process \<open>t\<close> of \<open>k\<close> forked a child with identifier \<open>pid\<close>.\<close>

definition forked :: "linker_symbols \<Rightarrow> usize \<Rightarrow> nat \<Rightarrow> usize \<Rightarrow> 'd kernel \<Rightarrow> 'd kernel \<Rightarrow> bool" where
  "forked syms l t pid k k' \<longleftrightarrow>
     (let c = length (k_tasks k); parent = task_at k t; child = task_at k' c in
      length (k_tasks k') = Suc c \<and> ready k' = ready k @ [c] \<and> current k' = current k
      \<and> (\<forall>u < c. u \<noteq> t \<longrightarrow> task_at k' u = task_at k u) \<and> task_at k' t = parent\<lparr>children := children parent @ [c]\<rparr>
      \<and> tcb_pid child = pid \<and> task_status child = Ready \<and> tcb_parent child = Some t \<and> children child = []
      \<and> task_priority child = task_priority parent \<and> tcb_cont child = TrapReturn
      \<and> fd_table child = fd_table parent \<and> tcb_mail_box child = tcb_mail_box parent
      \<and> k_pipes k' = snd (clone_fds (fd_table parent) [] (k_pipes k)) \<and> k_fs k' = k_fs k
      \<and> proc_mem syms l k' c \<and> proc_mem syms l k' t
      \<and> (\<forall>v. indexes v \<noteq> indexes trampoline_vpn \<longrightarrow> indexes v \<noteq> indexes trap_vpn \<longrightarrow>
           user_page (tcb_memory_set child) (k_mach k') v = user_page (tcb_memory_set parent) (k_mach k) v)
      \<and> trap_cx_at (k_mach k') (trap_cx_ppn child) = child_cx (kernel_stack_get_top pid) (trap_cx_at (k_mach k) (trap_cx_ppn parent))
      \<and> set (space_frames (tcb_memory_set child)) \<inter> fa_used l (frames (k_mach k)) = {}
      \<and> (\<forall>f \<in> fa_used l (frames (k_mach k)) - set (pt_frames (ms_page_table (k_space k))). phys (k_mach k') f = phys (k_mach k) f))"

text \<open>The computation of the call, given what its three parts return.\<close>

lemma sys_fork_runs:
  fixes k :: "'d kernel"
  assumes cur: "current k = Some t" "t < length (k_tasks k)" and room: "fork_room t k" and mb: "mb_inv (tcb_mail_box (task_at k t))"
    and fe: "from_existed_user (pf_syms pf) (tcb_memory_set (task_at k t)) (k_mach k) = Inr (Some child, m1)"
    and tf: "trap_cx_frame child m1 = Inr p"
    and al: "alloc_kernel_stack pf (k\<lparr>k_mach := m1\<rparr>) = Inr ((pid, sp, cx), k2)"
    and k2: "k2 = k\<lparr>k_pids := pids, k_space := k_space k2, k_mach := k_mach k2\<rparr>"
  obtains k' where "sys_fork pf k = kret (Return pid k')"
    and "k_tasks k' = (k_tasks k)[t := (task_at k t)\<lparr>children := children (task_at k t) @ [length (k_tasks k)]\<rparr>] @
      [\<lparr>tcb_pid = pid, strong_count = 2, task_cx_ptr = cx, task_status = Ready, task_stride = 0,
        task_priority = task_priority (task_at k t), tcb_memory_set = child, trap_cx_ppn = p, base_size = base_size (task_at k t),
        tcb_parent = Some t, children = [], exit_code = 0, fd_table = fd_table (task_at k t),
        tcb_mail_box = tcb_mail_box (task_at k t), tcb_cont = TrapReturn\<rparr>]"
    and "ready k' = ready k @ [length (k_tasks k)]" and "current k' = current k" and "k_fs k' = k_fs k" and "k_space k' = k_space k2"
    and "k_pipes k' = snd (clone_fds (fd_table (task_at k t)) [] (k_pipes k))"
    and "k_mach k' = modify_trap_cx p (\<lambda>cx. cx\<lparr>tc_x := (tc_x cx)[10 := 0]\<rparr>)
      (modify_trap_cx p (\<lambda>cx. cx\<lparr>tc_kernel_sp := sp\<rparr>) (k_mach k2))"
proof -
  let ?parent = "task_at k t" and ?c = "length (k_tasks k)"
  let ?h = "snd (clone_fds (fd_table ?parent) [] (k_pipes k))"
  let ?C = "\<lparr>tcb_pid = pid, strong_count = 2, task_cx_ptr = cx, task_status = Ready, task_stride = 0,
    task_priority = task_priority ?parent, tcb_memory_set = child, trap_cx_ppn = p, base_size = base_size ?parent, tcb_parent = Some t,
    children = [], exit_code = 0, fd_table = fd_table ?parent, tcb_mail_box = tcb_mail_box ?parent, tcb_cont = TrapReturn\<rparr>"
  have k2f: "k_tasks k2 = k_tasks k" "k_pipes k2 = k_pipes k" "k_manager k2 = k_manager k" "k_proc k2 = k_proc k" "k_fs k2 = k_fs k" "task_at k2 t = ?parent"
    by (subst k2, simp add: task_at_def)+
  define K where "K = (upd_task t (\<lambda>p. p\<lparr>children := children p @ [?c]\<rparr>) (k2\<lparr>k_pipes := ?h, k_tasks := k_tasks k @ [?C]\<rparr>))
    \<lparr>k_mach := modify_trap_cx p (\<lambda>cx. cx\<lparr>tc_kernel_sp := sp\<rparr>) (k_mach k2)\<rparr>"
  have "task_fork pf t k = Inr (Some ?c, K)"
    using fe tf al clone_fds_ok(1) [of "fd_table ?parent" "[]" "k_pipes k"] copy_mails_new [OF mb]
    by (simp add: task_fork_def new_task_def case_prod_beta k2f K_def Let_def)
  then have sf: "sys_fork pf k = kret (Return (tcb_pid (task_at K ?c)) (add_task ?c (set_a0 ?c 0 K)))"
    using cur room by (simp add: sys_fork_def current_task_def ret_def)
  have tK: "k_tasks K = (k_tasks k)[t := ?parent\<lparr>children := children ?parent @ [?c]\<rparr>] @ [?C]"
    using cur(2) by (simp add: K_def upd_task_def nth_append list_update_append task_at_def)
  then have c: "task_at K ?c = ?C" by (simp add: task_at_def nth_append)
  show thesis
    by (rule that [of "add_task ?c (set_a0 ?c 0 K)"])
      (use sf tK c in \<open>simp_all add: add_task_def tm_add_def set_a0_def\<close>, simp_all add: K_def k2f)
qed

text \<open>What the child sees, when only its trap context differs from the copy of the parent.\<close>

lemma child_pages:
  assumes inv: "space_inv syms l (ms, m)" "space_inv syms l (child, m1)"
    and la: "list_all2 (area_copied l m (ms_page_table child, m1)) (ms_areas ms) (ms_areas child)"
    and trap: "(trap_vpn, p) \<in> set (space_map child)" and view: "pt_view (ms_page_table child, m') = pt_view (ms_page_table child, m1)"
    and keep: "\<And>f. f \<in> fa_used l (frames m1) - fa_used l (frames m) \<Longrightarrow> f \<noteq> p \<Longrightarrow> phys m' f = phys m1 f"
    and v: "indexes v \<noteq> indexes trampoline_vpn" "indexes v \<noteq> indexes trap_vpn"
  shows "user_page child m' v = user_page ms m v"
proof (cases "indexes v \<in> indexes ` set (space_pages ms)")
  case True
  then obtain u where u: "u \<in> set (space_pages ms)" "indexes u = indexes v" by auto
  have e: "pt_view s v = pt_view s u" for s using pt_view_same [OF u(2)] by simp
  show ?thesis
  proof (rule copied_page [OF inv la u(1)], goal_cases)
    case (1 qu pu fu)
    have "pu \<noteq> p" using space_map_inj [OF inv(2) trap, of u] 1(7) u(2) v(2) by auto
    then have "phys m' pu = phys m1 pu" using 1(6) by (intro keep) auto
    then show ?case using 1 by (simp add: user_page_def e view pte_flags_new)
  qed
next
  case False
  have "user_page child m' v = user_page child m1 v"
    using copied_user_page [OF inv la v(1)] False inv(1) v(1) view by (auto simp: user_page_def space_inv_def)
  then show ?thesis using copied_user_page [OF inv la v(1)] by simp
qed

text \<open>The first part of the call: the copy of the space, with the kernel's table as it was.\<close>

lemma fork_copy:
  fixes k :: "'d kernel"
  assumes mem: "proc_mem syms l k t" and kinv: "pt_inv l (ms_page_table (k_space k), k_mach k)"
    and free: "3 * length (space_pages (tcb_memory_set (task_at k t))) + 9 \<le> fa_free_count (frames (k_mach k))"
    and tramp: "pa_page_offset (PhysAddr (sym_strampoline syms)) = 0"
  obtains child m1 p fl where "from_existed_user syms (tcb_memory_set (task_at k t)) (k_mach k) = Inr (Some child, m1)"
    and "trap_cx_frame child m1 = Inr p"
    and "space_inv syms l (child, m1)" and "space_inv syms l (tcb_memory_set (task_at k t), m1)"
    and "list_all2 (area_copied l (k_mach k) (ms_page_table child, m1)) (ms_areas (tcb_memory_set (task_at k t))) (ms_areas child)"
    and "pt_view (ms_page_table (tcb_memory_set (task_at k t)), m1) = pt_view (ms_page_table (tcb_memory_set (task_at k t)), k_mach k)"
    and "\<forall>f \<in> fa_used l (frames (k_mach k)). phys m1 f = phys (k_mach k) f"
    and "fa_used l (frames (k_mach k)) \<subseteq> fa_used l (frames m1)"
    and "set (pt_frames (ms_page_table child)) \<inter> fa_used l (frames (k_mach k)) = {}"
    and "pt_inv l (ms_page_table (k_space k), m1)"
    and "pt_view (ms_page_table (k_space k), m1) = pt_view (ms_page_table (k_space k), k_mach k)"
    and "6 \<le> fa_free_count (frames m1)"
    and "pt_view (ms_page_table child, m1) trap_vpn = Some (pte_new p fl)" and "pte_ppn (pte_new p fl) = p"
    and "phys m1 p = phys (k_mach k) (trap_cx_ppn (task_at k t))"
    and "p \<in> fa_used l (frames m1) - fa_used l (frames (k_mach k)) - set (pt_frames (ms_page_table child))"
    and "(trap_vpn, p) \<in> set (space_map child)" and "trap_vpn \<in> set (space_pages child)"
proof -
  let ?parent = "task_at k t" and ?m = "k_mach k" and ?kpt = "ms_page_table (k_space k)"
  let ?ms = "tcb_memory_set ?parent"
  have inv: "space_inv syms l (?ms, ?m)" and tp: "trap_vpn \<in> set (space_pages ?ms)"
    and tc: "map_option pte_ppn (pt_view (ms_page_table ?ms, ?m) trap_vpn) = Some (trap_cx_ppn ?parent)"
    using mem by (simp_all add: proc_mem_def Let_def)
  have ku: "set (pt_frames ?kpt) \<subseteq> fa_used l (frames ?m)" using kinv by (auto simp: pt_inv_def)
  have f3: "3 * length (space_pages ?ms) + 3 \<le> fa_free_count (frames ?m)" using free by simp
  from from_existed_user_ok [OF inv f3 tramp] obtain child m1 where
    fe: "from_existed_user syms ?ms ?m = Inr (Some child, m1)" and inv1: "space_inv syms l (child, m1)" "space_inv syms l (?ms, m1)"
    and la: "list_all2 (area_copied l ?m (ms_page_table child, m1)) (ms_areas ?ms) (ms_areas child)"
    and pv: "pt_view (ms_page_table ?ms, m1) = pt_view (ms_page_table ?ms, ?m)"
    and ph1: "\<forall>f \<in> fa_used l (frames ?m). phys m1 f = phys ?m f" and us1: "fa_used l (frames ?m) \<subseteq> fa_used l (frames m1)"
    and c1: "fa_free_count (frames ?m) \<le> fa_free_count (frames m1) + 3 * length (space_pages ?ms) + 3"
    and cpt: "set (pt_frames (ms_page_table child)) \<inter> fa_used l (frames ?m) = {}" by blast
  have mem1: "mem_ok m1" "fa_inv l (frames m1)" "unat (fa_end (frames m1)) \<le> 2 ^ 44"
    using inv1(1) by (auto simp: space_inv_def pt_inv_def)
  have ph1': "phys m1 f = phys ?m f" if "f \<in> set (pt_frames ?kpt)" for f using that ku ph1 by blast
  have k1: "pt_inv l (?kpt, m1)" "pt_view (?kpt, m1) = pt_view (?kpt, ?m)"
    by (rule pt_frame_rule [OF kinv ph1' mem1]; use ku us1 in blast)+
  have c6: "6 \<le> fa_free_count (frames m1)" using c1 free by simp
  show thesis
  proof (rule copied_page [OF inv inv1(1) la tp], goal_cases)
    case (1 q p fl)
    have q: "trap_cx_ppn ?parent = q" using tc 1(1,3) by simp
    have tf: "trap_cx_frame child m1 = Inr p" using trap_cx_frame_ok [OF inv1(1) 1(2)] 1(4) by simp
    show ?case by (rule that [OF fe tf inv1 la pv ph1 us1 cpt k1 c6 1(2,4) _ 1(6-8)]) (simp add: q 1(5))
  qed
qed

lemma sys_fork_ok:
  fixes k :: "'d kernel"
  assumes cur: "current k = Some t" "t < length (k_tasks k)" and room: "fork_room t k"
    and mem: "proc_mem (pf_syms pf) l k t" and kinv: "pt_inv l (ms_page_table (k_space k), k_mach k)"
    and pid: "pid_alloc (k_pids k) = (pid, pids)" "unat pid < 2 ^ 50"
    and un: "\<forall>v \<in> set (stack_pages pid). pt_view (ms_page_table (k_space k), k_mach k) v = None"
    and free: "3 * length (space_pages (tcb_memory_set (task_at k t))) + 9 \<le> fa_free_count (frames (k_mach k))"
    and tramp: "pa_page_offset (PhysAddr (sym_strampoline (pf_syms pf))) = 0" and mb: "mb_inv (tcb_mail_box (task_at k t))"
  shows "\<exists>k'. sys_fork pf k = kret (Return pid k') \<and> forked (pf_syms pf) l t pid k k'"
proof (rule fork_copy [OF mem kinv free tramp], goal_cases)
  case C: (1 child m1 p fl)
  let ?syms = "pf_syms pf" and ?parent = "task_at k t" and ?m = "k_mach k" and ?kpt = "ms_page_table (k_space k)"
  let ?ms = "tcb_memory_set ?parent" and ?c = "length (k_tasks k)" and ?k1 = "k\<lparr>k_mach := m1\<rparr>"
  have inv: "space_inv ?syms l (?ms, ?m)" and tp: "trap_vpn \<in> set (space_pages ?ms)"
    and tc: "map_option pte_ppn (pt_view (ms_page_table ?ms, ?m) trap_vpn) = Some (trap_cx_ppn ?parent)"
    and dis: "set (pt_frames ?kpt) \<inter> (set (space_frames ?ms) \<union> set (pt_frames (ms_page_table ?ms))) = {}"
    using mem by (simp_all add: proc_mem_def Let_def)
  have ku: "set (pt_frames ?kpt) \<subseteq> fa_used l (frames ?m)" using kinv by (auto simp: pt_inv_def)
  have h2: "pt_inv l (ms_page_table (k_space ?k1), k_mach ?k1)" "pid_alloc (k_pids ?k1) = (pid, pids)"
    "\<forall>v \<in> set (stack_pages pid). pt_view (ms_page_table (k_space ?k1), k_mach ?k1) v = None" "6 \<le> fa_free_count (frames (k_mach ?k1))"
    using C(10-12) pid(1) un by simp_all
  obtain cx k2 where al: "alloc_kernel_stack pf ?k1 = Inr ((pid, kernel_stack_get_top pid, cx), k2)"
    and k2: "k2 = k\<lparr>k_pids := pids, k_space := k_space k2, k_mach := k_mach k2\<rparr>"
    and inv2: "pt_inv l (ms_page_table (k_space k2), k_mach k2)"
    and new2: "set (pt_frames (ms_page_table (k_space k2))) \<inter> fa_used l (frames m1) \<subseteq> set (pt_frames ?kpt)"
    and ph2: "\<forall>f \<in> fa_used l (frames m1) - set (pt_frames ?kpt). phys (k_mach k2) f = phys m1 f"
    and us2: "fa_used l (frames m1) \<subseteq> fa_used l (frames (k_mach k2))"
    by (rule alloc_kernel_stack_ok [OF h2(1,2) pid(2) h2(3,4), of pf]) simp
  have mem2: "mem_ok (k_mach k2)" "fa_inv l (frames (k_mach k2))" "unat (fa_end (frames (k_mach k2))) \<le> 2 ^ 44"
    using inv2 by (auto simp: pt_inv_def)
  show ?case
  proof (rule sys_fork_runs [OF cur room mb C(1,2) al k2], goal_cases)
    case R: (1 k')
    let ?m' = "k_mach k'"
    have ta: "task_at k' t = ?parent\<lparr>children := children ?parent @ [?c]\<rparr>" "\<forall>u < ?c. u \<noteq> t \<longrightarrow> task_at k' u = task_at k u"
      using cur(2) by (simp_all add: task_at_def R(2) nth_append)
    have cc: "trap_cx_at ?m' p = child_cx (kernel_stack_get_top pid) (trap_cx_at (k_mach k2) p)" and mem': "mem_ok ?m'"
      and fr': "frames ?m' = frames (k_mach k2)" and ph': "\<forall>f. f \<noteq> p \<longrightarrow> phys ?m' f = phys (k_mach k2) f"
      using child_cx_modified [OF mem2(1) R(8) [symmetric]] by blast+
    have pk: "p \<in> fa_used l (frames m1) - set (pt_frames ?kpt)" using C(16) ku by blast
    then have "phys (k_mach k2) p = phys ?m (trap_cx_ppn ?parent)" using ph2 C(15) by simp
    then have cx: "trap_cx_at ?m' p = child_cx (kernel_stack_get_top pid) (trap_cx_at ?m (trap_cx_ppn ?parent))"
      using cc by (simp add: trap_cx_at_def)
    have keep1: "phys ?m' f = phys m1 f" if "f \<in> fa_used l (frames m1) - set (pt_frames ?kpt)" "f \<noteq> p" for f
      using that ph' ph2 by simp
    have keep: "phys ?m' f = phys ?m f" if "f \<in> fa_used l (frames ?m) - set (pt_frames ?kpt)" for f
      using that keep1 [of f] C(7,8,16) by auto
    have us': "fa_used l (frames m1) \<subseteq> fa_used l (frames ?m')" using us2 fr' by simp
    have m'f: "fa_inv l (frames ?m')" "unat (fa_end (frames ?m')) \<le> 2 ^ 44" using mem2 fr' by simp_all
    have su: "set (pt_frames (ms_page_table child)) \<union> set (space_frames child) \<subseteq> fa_used l (frames m1)"
      "set (pt_frames (ms_page_table ?ms)) \<union> set (space_frames ?ms) \<subseteq> fa_used l (frames ?m)"
      using C(3) inv by (auto simp: space_inv_def pt_inv_def)
    have "phys ?m' f = phys m1 f" if "f \<in> set (pt_frames (ms_page_table child))" for f
      using that su(1) C(9,16) ku by (intro keep1) auto
    note ch = space_frame_rule [OF C(3) this mem' m'f us']
    have "phys ?m' f = phys m1 f" if "f \<in> set (pt_frames (ms_page_table ?ms))" for f
      using that su(2) C(8,16) dis by (intro keep1) auto
    note pa = space_frame_rule [OF C(4) this mem' m'f us']
    have fresh: "set (space_frames child) \<inter> fa_used l (frames ?m) = {}"
      using copied_frames_fresh [OF C(5)] by (auto simp: space_frames_map space_map_def)
    have up: "user_page child ?m' v = user_page ?ms ?m v" if "indexes v \<noteq> indexes trampoline_vpn" "indexes v \<noteq> indexes trap_vpn" for v
      by (rule child_pages [OF inv C(3,5,17) ch(2) _ that]) (use keep1 ku in auto)
    have dc: "set (pt_frames (ms_page_table (k_space k2))) \<inter> (set (space_frames child) \<union> set (pt_frames (ms_page_table child))) = {}"
      using new2 su(1) fresh C(9) ku by blast
    have dp: "set (pt_frames (ms_page_table (k_space k2))) \<inter> (set (space_frames ?ms) \<union> set (pt_frames (ms_page_table ?ms))) = {}"
      using new2 su(2) C(8) dis by blast
    have tac: "task_at k' ?c = last (k_tasks k')" by (simp add: task_at_def R(2) nth_append)
    have "proc_mem ?syms l k' ?c" using ch C(13,14,18) dc by (simp add: proc_mem_def tac R(2,6))
    moreover have "proc_mem ?syms l k' t" using pa tp C(6) tc dp by (simp add: proc_mem_def ta R(6))
    ultimately have "forked ?syms l t pid k k'"
      using R(3-7) ta tac up cx keep fresh by (simp add: forked_def Let_def R(2))
    then show ?case using R(1) by blast
  qed
qed

text \<open>
  C23. Forking. The running process has a well-formed address space with its trap context, the
  kernel's page table is well formed and has no pages at the new kernel stack, and there are three
  free frames for every page of the process and nine more. Then the call returns the identifier
  \<open>pid\<close> of a new process: it is the last of the ready queue, a child of the caller, with the caller's
  priority, mail and open files (each pipe end counts one more reference for each descriptor). Its
  memory is the caller's, page by page with the same flags and contents, in frames that were not in
  use; only its trap context differs, where the result register is 0 and the kernel stack pointer
  is the top of its own kernel stack. The caller changes only by its new child, other processes not
  at all, and no frame in use other than the nodes of the kernel's page table is written.
\<close>

theorem sys_fork_correct:
  fixes k :: "'d kernel"
  assumes "current k = Some t" and "t < length (k_tasks k)" and "fork_room t k"
    and "proc_mem (pf_syms pf) l k t" and "pt_inv l (ms_page_table (k_space k), k_mach k)"
    and "pid_alloc (k_pids k) = (pid, pids)" and "unat pid < 2 ^ 50"
    and "\<forall>v \<in> set (stack_pages pid). pt_view (ms_page_table (k_space k), k_mach k) v = None"
    and "3 * length (space_pages (tcb_memory_set (task_at k t))) + 9 \<le> fa_free_count (frames (k_mach k))"
    and "pa_page_offset (PhysAddr (sym_strampoline (pf_syms pf))) = 0" and "mb_inv (tcb_mail_box (task_at k t))"
  shows "\<exists>k'. sys_fork pf k = kret (Return pid k') \<and> forked (pf_syms pf) l t pid k k'"
  by (rule sys_fork_ok [OF assms])

section \<open>An example\<close>

text \<open>A machine of 1023 frames and a process with the page of its trap context only.\<close>

definition fork_machine :: machine where
  "fork_machine = \<lparr>phys = (\<lambda>_. replicate 4096 0), frames = fa_booted 1 1024\<rparr>"

definition trap_range :: vpn_range where
  "trap_range = \<lparr>range_l = VirtPageNum 0xFFFFFFFFFFFFE, range_r = VirtPageNum 0xFFFFFFFFFFFFF\<rparr>"

lemma trap_range_items:
  "vpn_range_items trap_range = [trap_vpn]" "range_l trap_range \<le> range_r trap_range"
  "distinct (map indexes [trampoline_vpn, trap_vpn])" "vpn_val (range_r trap_range) - vpn_val (range_l trap_range) = 1"
  by code_simp+

lemma fork_space:
  obtains ms m q where "space_inv example_syms 1 (ms, m)" and "space_pages ms = [trap_vpn]" and "ms_frames_used ms = 1"
    and "map_option pte_ppn (pt_view (ms_page_table ms, m) trap_vpn) = Some q" and "1017 \<le> fa_free_count (frames m)"
    and "fa_end (frames m) = 1024"
proof -
  have h: "fa_inv 1 (frames fork_machine)" "3 \<le> fa_free_count (frames fork_machine)" "mem_ok fork_machine"
    "unat (fa_end (frames fork_machine)) \<le> 2 ^ 44" "pa_page_offset (PhysAddr (sym_strampoline example_syms)) = 0"
    by (simp_all add: fork_machine_def example_syms_def fa_booted_def fa_init_def fa_new_def fa_inv_def
      fa_free_count_def mem_ok_def pa_page_offset_def config_defs)
  have c: "fa_free_count (frames fork_machine) = 1023" "fa_end (frames fork_machine) = 1024"
    by (simp_all add: fork_machine_def fa_booted_def fa_init_def fa_new_def fa_free_count_def)
  let ?a = "\<lparr>vpn_range_of = trap_range, data_frames = [], map_type_of = Framed, map_perm = PERM_R OR PERM_W\<rparr>"
  have a: "map_type_of ?a = Framed" "data_frames ?a = []" "range_l (vpn_range_of ?a) \<le> range_r (vpn_range_of ?a)" "[trap_vpn] = area_vpns ?a"
    using trap_range_items by (simp_all add: area_vpns_def)
  show thesis
  proof (rule new_space_ok [OF h], goal_cases)
    case S: (1 ms1 ms2 m1 m2)
    have i2: "space_inv example_syms 1 (ms2, m2)" using S(3-5) by (simp add: space_inv_def space_pages_def space_frames_def)
    have g: "3 * length [trap_vpn] \<le> fa_free_count (frames m2)" "distinct (map indexes (trampoline_vpn # space_pages ms2 @ [trap_vpn]))"
      using S(4,10) c(1) trap_range_items(3) by (simp_all add: space_pages_def)
    show ?case
    proof (rule space_inv_push [OF i2 g a], goal_cases)
      case P: (1 es pt m)
      let ?ms = "\<lparr>ms_page_table = pt, ms_areas = ms_areas ms2 @ [?a\<lparr>data_frames := es\<rparr>]\<rparr>"
      have sp: "space_pages ?ms = [trap_vpn]" using S(4) trap_range_items(1) by (simp add: space_pages_def area_vpns_def)
      have fu: "ms_frames_used ?ms = 1" using S(4) trap_range_items(4) by (simp add: ms_frames_used_def)
      have "frame_at es trap_vpn \<noteq> None" using P(3) by (cases es) (auto simp: frame_at_def)
      then obtain q where "map_option pte_ppn (pt_view (ms_page_table ?ms, m) trap_vpn) = Some q"
        using mappedD(2) [OF P(4)] by (auto simp: view_with_def)
      then show ?case
        by (rule that [OF P(2) sp fu]) (use P(5) S(9,10) c mappedD(10) [OF P(4)] in simp_all)
    qed
  qed
qed

lemma usable_frames_free:
  assumes "fa_inv l s"
  shows "unat (fa_usable_frames s) = fa_free_count s"
proof -
  have le: "unat (fa_current s) \<le> unat (fa_end s)" using assms by (simp add: fa_inv_def word_le_nat_alt)
  have "length (fa_recycled s) = card (unat ` set (fa_recycled s))"
    using assms by (subst card_image) (auto simp: fa_inv_def distinct_card inj_on_def word_unat_eq_iff)
  also have "\<dots> \<le> card {..<unat (fa_current s)}"
    using assms by (intro card_mono) (auto simp: fa_inv_def word_less_nat_alt)
  finally have "fa_free_count s \<le> unat (fa_end s)" using le by (simp add: fa_free_count_def)
  then have "fa_free_count s < 2 ^ 64" using unat64_less [of "fa_end s"] by linarith
  moreover have "fa_usable_frames s = word_of_nat (fa_free_count s)" using le by (simp add: fa_usable_frames_def fa_free_count_def)
  ultimately show ?thesis by (simp add: unat_of_nat64)
qed

theorem sys_fork_correct_witness:
  "\<exists>(k :: u8 list kernel) k'. sys_fork example_platform k = kret (Return 2 k') \<and> forked (pf_syms example_platform) 1 0 2 k k'
    \<and> length (k_tasks k') = 3 \<and> ready k' = [1, 2] \<and> fd_table (task_at k' 2) = [Some Stdin, Some Stdout, Some Stdout]"
proof -
  have syms: "pf_syms example_platform = example_syms" by (simp add: example_platform_def example_syms_def)
  show ?thesis
  proof (rule fork_space, goal_cases)
    case S: (1 ms m q)
    have pi: "pt_inv 1 (ms_page_table ms, m)" using S(1) by (simp add: space_inv_def)
    then have h: "fa_inv 1 (frames m)" "0 < fa_free_count (frames m)" "mem_ok m" "unat (fa_end (frames m)) \<le> 2 ^ 44"
      using S(5) by (auto simp: pt_inv_def)
    show ?case
    proof (rule page_table_new_ok [OF h], goal_cases)
      case K: (1 kpt m')
      have pu: "set (pt_frames (ms_page_table ms)) \<subseteq> fa_used 1 (frames m)" "set (space_frames ms) \<subseteq> fa_used 1 (frames m)"
        using pi S(1) by (auto simp: pt_inv_def space_inv_def)
      have m': "mem_ok m'" "fa_inv 1 (frames m')" "unat (fa_end (frames m')) \<le> 2 ^ 44" using K(2) by (auto simp: pt_inv_def)
      have same: "phys m' f = phys m f" if "f \<in> set (pt_frames (ms_page_table ms))" for f using that pu(1) K(6,8) by (metis subsetD)
      have us: "fa_used 1 (frames m) \<subseteq> fa_used 1 (frames m')" using K(7) by auto
      note r = space_frame_rule [OF S(1) same m' us]
      define k where "k = example_kernel\<lparr>k_mach := m', k_space := \<lparr>ms_page_table = kpt, ms_areas = []\<rparr>,
        k_tasks := [(example_tcb 0 RunningTask)\<lparr>tcb_memory_set := ms, trap_cx_ppn := q\<rparr>, example_tcb 1 Ready]\<rparr>"
      have t0: "task_at k 0 = (example_tcb 0 RunningTask)\<lparr>tcb_memory_set := ms, trap_cx_ppn := q\<rparr>" "k_mach k = m'" "ms_page_table (k_space k) = kpt"
        by (simp_all add: k_def task_at_def)
      have "unat (usable_frames m') = fa_free_count (frames m')" using usable_frames_free [OF m'(2)] by (simp add: usable_frames_def)
      then have u: "\<not> usable_frames m' < 102" using K(4) S(5) by (simp add: word_less_nat_alt)
      have room: "fork_room 0 k" using u S(3) by (simp add: fork_room_def t0 tcb_frames_used_def example_kernel_def k_def [THEN arg_cong [of _ _ k_initproc]])
      have pm: "proc_mem (pf_syms example_platform) 1 k 0"
        using r S(2,4) K(5-7) pu by (auto simp: proc_mem_def t0 syms)
      have rest: "current k = Some 0" "0 < length (k_tasks k)" "pid_alloc (k_pids k) = (2, \<lparr>pid_current = 3, pid_recycled = []\<rparr>)"
        "mb_inv (tcb_mail_box (task_at k 0))" "ready k = [1]" "length (k_tasks k) = 2" "fd_table (task_at k 0) = [Some Stdin, Some Stdout, Some Stdout]"
        by (simp_all add: k_def example_kernel_def pid_alloc_def task_at_def example_tcb_def)
      have kp: "pt_inv 1 (ms_page_table (k_space k), k_mach k)" "\<forall>v \<in> set (stack_pages 2). pt_view (ms_page_table (k_space k), k_mach k) v = None"
        using K(2,3) by (simp_all add: t0)
      have fr: "3 * length (space_pages (tcb_memory_set (task_at k 0))) + 9 \<le> fa_free_count (frames (k_mach k))"
        using S(2,5) K(4) by (simp add: t0)
      have tr: "pa_page_offset (PhysAddr (sym_strampoline (pf_syms example_platform))) = 0"
        by (simp add: syms example_syms_def pa_page_offset_def config_defs)
      from sys_fork_correct [OF rest(1,2) room pm kp(1) rest(3) _ kp(2) fr tr rest(4)] obtain k' where
        "sys_fork example_platform k = kret (Return 2 k')" "forked (pf_syms example_platform) 1 0 2 k k'" by auto
      then show ?case using rest(5-7) by (intro exI [of _ k] exI [of _ k']) (simp add: forked_def Let_def)
    qed
  qed
qed

end
