(* ===== verification/Mmap_Spec.thy ===== *)
theory Mmap_Spec
  imports Fork_Spec
begin

text \<open>
  Mapping memory of the running process: \<^verbatim>\<open>sys_mmap\<close> refuses bad arguments and ranges that meet
  mapped pages without changing anything, and otherwise adds zeroed pages with the permissions
  asked for.
\<close>

section \<open>The pages of a range of addresses\<close>

definition range_pages :: "usize \<Rightarrow> usize \<Rightarrow> virt_page_num set" where
  "range_pages addr len = {v. va_floor (VirtAddr addr) \<le> v \<and> v < va_ceil (VirtAddr (addr + len))}"

lemma range_bounds:
  assumes "addr AND (PAGE_SIZE - 1) = 0" and "unat addr + unat len + 4095 < 2 ^ 64"
  shows "unat (vpn_val (va_floor (VirtAddr addr))) = unat addr div 4096"
    and "unat (vpn_val (va_ceil (VirtAddr (addr + len)))) = unat addr div 4096 + (unat len + 4095) div 4096"
proof -
  show "unat (vpn_val (va_floor (VirtAddr addr))) = unat addr div 4096" by (simp add: va_floor_def PAGE_SIZE_def unat_div)
  have "take_bit 12 addr = 0" using assms(1) by (simp add: PAGE_SIZE_def take_bit_eq_mask mask_eq_exp_minus_1)
  then have "unat addr mod 4096 = 0" by (simp add: take_bit_eq_mod word_unat_eq_iff unat_mod)
  then have a: "unat addr = 4096 * (unat addr div 4096)" by (metis add.right_neutral mult_div_mod_eq)
  have s: "unat (addr + len) = unat addr + unat len" using assms(2) by (simp add: unat_word_ariths)
  then have "unat (vpn_val (va_ceil (VirtAddr (addr + len)))) = (unat addr + unat len + 4095) div 4096"
    using assms(2) by (subst unat_va_ceil) simp_all
  also have "\<dots> = (4096 * (unat addr div 4096) + (unat len + 4095)) div 4096" using a by (simp add: add.assoc)
  also have "\<dots> = unat addr div 4096 + (unat len + 4095) div 4096" by simp
  finally show "unat (vpn_val (va_ceil (VirtAddr (addr + len)))) = unat addr div 4096 + (unat len + 4095) div 4096" .
qed

lemma indexes_inj_near:
  assumes "indexes u = indexes v" and "unat (vpn_val u) < unat (vpn_val v) + 2 ^ 27" and "unat (vpn_val v) < unat (vpn_val u) + 2 ^ 27"
  shows "u = v"
proof -
  let ?u = "unat (vpn_val u)" and ?v = "unat (vpn_val v)"
  have e: "?u mod 2 ^ 27 = ?v mod 2 ^ 27"
    using assms(1) by (simp add: indexes_inject take_bit_eq_mod word_unat_eq_iff unat_mod)
  have "?u = ?v"
  proof (rule ccontr)
    assume "?u \<noteq> ?v"
    then consider "?u < ?v" | "?v < ?u" by linarith
    then show False
    proof cases
      case 1
      then have "(2 ^ 27 :: nat) dvd ?v - ?u" using e by (subst (asm) eq_commute) (simp add: mod_eq_dvd_iff_nat)
      then show False using 1 assms(3) by (auto dest: dvd_imp_le)
    next
      case 2
      then have "(2 ^ 27 :: nat) dvd ?u - ?v" using e by (simp add: mod_eq_dvd_iff_nat)
      then show False using 2 assms(2) by (auto dest: dvd_imp_le)
    qed
  qed
  then show ?thesis by (cases u; cases v) (simp add: word_unat_eq_iff)
qed

lemma range_items:
  assumes al: "addr AND (PAGE_SIZE - 1) = 0" and nw: "unat addr + unat len + 4095 < 2 ^ 64" and len: "unat len \<le> 0x40000000"
  defines "r \<equiv> \<lparr>range_l = va_floor (VirtAddr addr), range_r = va_ceil (VirtAddr (addr + len))\<rparr>"
  shows "set (vpn_range_items r) = range_pages addr len" and "length (vpn_range_items r) = (unat len + 4095) div 4096"
    and "distinct (map indexes (vpn_range_items r))" and "range_l r \<le> range_r r"
    and "va_val (va_of_vpn (range_r r)) - va_val (va_of_vpn (range_l r)) = word_of_nat (4096 * ((unat len + 4095) div 4096))"
proof -
  note b = range_bounds [OF al nw]
  show le: "range_l r \<le> range_r r" using b by (simp add: r_def less_eq_virt_page_num_def word_le_nat_alt)
  note i = vpn_range_items_range [OF le]
  show s: "set (vpn_range_items r) = range_pages addr len" using i(1) by (simp add: r_def range_pages_def)
  show "length (vpn_range_items r) = (unat len + 4095) div 4096" using i(3) b by (simp add: r_def)
  have n: "(unat len + 4095) div 4096 < 2 ^ 27" using len by simp
  have "inj_on indexes (set (vpn_range_items r))"
  proof (rule inj_onI)
    fix u v assume uv: "u \<in> set (vpn_range_items r)" "v \<in> set (vpn_range_items r)" "indexes u = indexes v"
    have w: "unat addr div 4096 \<le> unat (vpn_val x) \<and> unat (vpn_val x) < unat addr div 4096 + (unat len + 4095) div 4096"
      if "x \<in> set (vpn_range_items r)" for x
      using that b unfolding s range_pages_def by (simp add: less_eq_virt_page_num_def less_virt_page_num_def word_le_nat_alt word_less_nat_alt)
    show "u = v" by (rule indexes_inj_near [OF uv(3)]) (use w [OF uv(1)] w [OF uv(2)] n in linarith)+
  qed
  moreover have "distinct (vpn_range_items r)" using i(2) by (simp add: strict_sorted_iff)
  ultimately show "distinct (map indexes (vpn_range_items r))" by (simp add: distinct_map)
  have v: "va_val (va_of_vpn x) = vpn_val x * 4096" for x
    by (simp add: va_of_vpn_def PAGE_SIZE_BITS_def push_bit_eq_mult)
  have "vpn_val (range_r r) = vpn_val (range_l r) + word_of_nat ((unat len + 4095) div 4096)"
  proof -
    have "vpn_val (range_r r) = word_of_nat (unat (vpn_val (range_r r)))" by simp
    also have "\<dots> = word_of_nat (unat (vpn_val (range_l r))) + word_of_nat ((unat len + 4095) div 4096)"
      using b by (simp only: r_def vpn_range.simps of_nat_add)
    finally show ?thesis by simp
  qed
  then show "va_val (va_of_vpn (range_r r)) - va_val (va_of_vpn (range_l r)) = word_of_nat (4096 * ((unat len + 4095) div 4096))"
    by (simp add: v algebra_simps)
qed

section \<open>Permissions\<close>

text \<open>The bits of \<open>port\<close> are those of the entry, one place to the left.\<close>

lemma port_to_permission_bits:
  assumes "port AND NOT 7 = 0"
  shows "port_to_permission port = PERM_U OR push_bit 1 (ucast port)"
proof -
  have "port = (port AND 7) OR (port AND NOT 7)" by (simp flip: bit.conj_disj_distrib)
  then have "port = take_bit 3 port" using assms by (simp add: take_bit_eq_mask mask_eq_exp_minus_1)
  then have "unat port = take_bit 3 (unat port)" by (metis unsigned_take_bit_eq)
  then have "unat port < 8" using take_bit_nat_less_exp [of 3 "unat port"] by simp
  then have "unat port \<in> {0, 1, 2, 3, 4, 5, 6, 7}" by auto
  then have "port \<in> {0, 1, 2, 3, 4, 5, 6, 7}" by (auto simp: word_unat_eq_iff)
  then show ?thesis by (elim insertE emptyE; hypsubst; code_simp)
qed

section \<open>Mapping\<close>

text \<open>Pages of a space with their frames: the frame is one of the space's.\<close>

lemma space_page_frame:
  assumes "space_inv syms l (ms, m)" and "v \<in> set (space_pages ms)"
  obtains q fl where "pt_view (ms_page_table ms, m) v = Some (pte_new q fl)" and "pte_ppn (pte_new q fl) = q"
    and "q \<in> fa_used l (frames m) - set (pt_frames (ms_page_table ms))" and "(v, q) \<in> set (space_map ms)"
proof -
  from assms(2) obtain a where a: "a \<in> set (ms_areas ms)" "v \<in> set (area_vpns a)" by (auto simp: space_pages_def)
  have f: "area_full (ms_page_table ms, m) a" using assms(1) a(1) by (simp add: space_inv_def)
  then obtain q where q: "(v, q) \<in> set (data_frames a)" using a(2) by (force simp: area_full_def dest: arg_cong [of _ _ set])
  have sm: "(v, q) \<in> set (space_map ms)" using q a(1) by (auto simp: space_map_def)
  then have "q \<in> set (space_frames ms)" by (force simp: space_frames_map)
  then have "q \<in> fa_used l (frames m) - set (pt_frames (ms_page_table ms))" using assms(1) by (auto simp: space_inv_def)
  then show thesis using that [OF _ _ _ sm] f q by (fastforce simp: area_full_def pte_ppn_new)
qed

lemma have_mapped_page: "space_inv syms l (ms, m) \<Longrightarrow> ms_have_mapped ms v \<longleftrightarrow> v \<in> set (space_pages ms)"
proof -
  assume "space_inv syms l (ms, m)"
  then have "\<forall>a \<in> set (ms_areas ms). map fst (data_frames a) = area_vpns a" by (simp add: space_inv_def area_full_def)
  then have "\<forall>a \<in> set (ms_areas ms). fst ` set (data_frames a) = set (area_vpns a)" by (metis list.set_map)
  then show ?thesis
    by (auto simp: ms_have_mapped_def area_have_mapped_def list_ex_iff space_pages_def map_of_eq_None_iff)
qed

lemma map_virtual_pages_ok:
  fixes k :: "'d kernel"
  assumes cur: "current k = Some t" "t < length (k_tasks k)" and inv: "space_inv syms l (ms, k_mach k)" and ms: "ms = tcb_memory_set (task_at k t)"
    and al: "addr AND (PAGE_SIZE - 1) = 0" and len: "0 < len" "unat len \<le> 0x40000000" and nw: "unat addr + unat len + 4095 < 2 ^ 64"
    and port: "port AND NOT 7 = 0" "port AND 7 \<noteq> 0"
    and new: "indexes ` range_pages addr len \<inter> indexes ` set (trampoline_vpn # space_pages ms) = {}"
    and room: "\<not> usable_frames (k_mach k) < len div 4096 + 100 + tcb_frames_used (task_at k (k_initproc k))"
    and free: "3 * ((unat len + 4095) div 4096) \<le> fa_free_count (frames (k_mach k))"
  obtains es pt m' where "map_virtual_pages addr len port k = Inr (word_of_nat (4096 * ((unat len + 4095) div 4096)),
      upd_task t (\<lambda>c. c\<lparr>tcb_memory_set := \<lparr>ms_page_table = pt, ms_areas = ms_areas ms @
        [\<lparr>vpn_range_of = \<lparr>range_l = va_floor (VirtAddr addr), range_r = va_ceil (VirtAddr (addr + len))\<rparr>, data_frames = es,
          map_type_of = Framed, map_perm = port_to_permission port\<rparr>]\<rparr>\<rparr>) (k\<lparr>k_mach := m'\<rparr>))"
    and "space_inv syms l (\<lparr>ms_page_table = pt, ms_areas = ms_areas ms @
        [\<lparr>vpn_range_of = \<lparr>range_l = va_floor (VirtAddr addr), range_r = va_ceil (VirtAddr (addr + len))\<rparr>, data_frames = es,
          map_type_of = Framed, map_perm = port_to_permission port\<rparr>]\<rparr>, m')"
    and "set (map fst es) = range_pages addr len" and "distinct (map indexes (map fst es))"
    and "mapped l (port_to_permission port) es (ms_page_table ms, k_mach k) (pt, m')"
proof -
  let ?r = "\<lparr>range_l = va_floor (VirtAddr addr), range_r = va_ceil (VirtAddr (addr + len))\<rparr>"
  let ?a = "\<lparr>vpn_range_of = ?r, data_frames = [], map_type_of = Framed, map_perm = port_to_permission port\<rparr>"
  note ri = range_items [OF al nw len(2)]
  have a: "map_type_of ?a = Framed" "data_frames ?a = []" "range_l (vpn_range_of ?a) \<le> range_r (vpn_range_of ?a)"
    "vpn_range_items ?r = area_vpns ?a" using ri(4) by (simp_all add: area_vpns_def)
  have d: "distinct (map indexes (trampoline_vpn # space_pages ms @ vpn_range_items ?r))"
    using inv new ri(1,3) by (auto simp: space_inv_def)
  have fr: "3 * length (vpn_range_items ?r) \<le> fa_free_count (frames (k_mach k))" using free ri(2) by simp
  have free_pages: "\<not> list_ex (ms_have_mapped ms) (vpn_range_items ?r)"
    using new ri(1) have_mapped_page [OF inv] by (auto simp: list_ex_iff)
  show thesis
  proof (rule space_inv_push [OF inv fr d a], goal_cases)
    case (1 es pt m')
    have n: "map_area_new (VirtAddr addr) (VirtAddr (addr + len)) Framed (port_to_permission port) = Inr ?a"
      using ri(4) by (simp add: map_area_new_def vpn_range_new_def)
    have l: "\<not> len > 0x40000000" "len \<noteq> 0" using len by (auto simp: word_less_nat_alt)
    have mv: "map_virtual_pages addr len port k = Inr (word_of_nat (4096 * ((unat len + 4095) div 4096)),
        upd_task t (\<lambda>c. c\<lparr>tcb_memory_set := \<lparr>ms_page_table = pt, ms_areas = ms_areas ms @ [?a\<lparr>data_frames := es\<rparr>]\<rparr>\<rparr>) (k\<lparr>k_mach := m'\<rparr>))"
      using al l port room cur n free_pages 1(1) ri(5)
      by (simp add: map_virtual_pages_def current_task_def Let_def flip: ms)
    show ?case
      by (rule that [of pt es m']) (use mv 1(2-4) ri(1,3) in simp_all)
  qed
qed

text \<open>
  C26. Mapping memory. When the request is aligned, at most one gigabyte, does not wrap around, asks
  for at least one permission and no other bits, no page of it has the indexes of a page of the process, and frames
  suffice, \<open>sys_mmap\<close> returns the length rounded up to pages. Afterwards every page of the range is
  there, filled with zeros, with the permissions of \<open>port\<close> for user mode; every other page has the
  flags and contents it had, the invariant of the space holds, other processes are the same, and no
  frame in use outside the page table of the process is written.
\<close>

theorem sys_mmap_correct:
  fixes k :: "'d kernel"
  assumes "current k = Some t" and "t < length (k_tasks k)" and "space_inv syms l (ms, k_mach k)" and "ms = tcb_memory_set (task_at k t)"
    and "addr AND (PAGE_SIZE - 1) = 0" and "0 < len" and "unat len \<le> 0x40000000" and "unat addr + unat len + 4095 < 2 ^ 64"
    and "port AND NOT 7 = 0" and "port AND 7 \<noteq> 0"
    and "indexes ` range_pages addr len \<inter> indexes ` set (trampoline_vpn # space_pages ms) = {}"
    and "\<not> usable_frames (k_mach k) < len div 4096 + 100 + tcb_frames_used (task_at k (k_initproc k))"
    and "3 * ((unat len + 4095) div 4096) \<le> fa_free_count (frames (k_mach k))"
  shows "\<exists>ms' m'. sys_mmap addr len port k = kret (Return (word_of_nat (4096 * ((unat len + 4095) div 4096)))
        (upd_task t (\<lambda>c. c\<lparr>tcb_memory_set := ms'\<rparr>) (k\<lparr>k_mach := m'\<rparr>)))
    \<and> space_inv syms l (ms', m')
    \<and> (\<forall>v \<in> range_pages addr len. user_page ms' m' v = Some (PERM_U OR push_bit 1 (ucast port) OR PTE_V, replicate 4096 0))
    \<and> (\<forall>v. indexes v \<noteq> indexes trampoline_vpn \<longrightarrow> indexes v \<notin> indexes ` range_pages addr len \<longrightarrow>
         user_page ms' m' v = user_page ms (k_mach k) v)
    \<and> (\<forall>f \<in> fa_used l (frames (k_mach k)) - set (pt_frames (ms_page_table ms)). phys m' f = phys (k_mach k) f)"
proof (rule map_virtual_pages_ok [OF assms], goal_cases)
  case R: (1 es pt m')
  let ?ms = "\<lparr>ms_page_table = pt, ms_areas = ms_areas ms @
    [\<lparr>vpn_range_of = \<lparr>range_l = va_floor (VirtAddr addr), range_r = va_ceil (VirtAddr (addr + len))\<rparr>, data_frames = es,
      map_type_of = Framed, map_perm = port_to_permission port\<rparr>]\<rparr>"
  note md = mappedD [OF R(5)]
  have new: "user_page ?ms m' v = Some (PERM_U OR push_bit 1 (ucast port) OR PTE_V, replicate 4096 0)" if v: "v \<in> range_pages addr len" for v
  proof -
    obtain p where p: "(v, p) \<in> set es" using v unfolding R(3) [symmetric] by auto
    then have ps: "p \<in> snd ` set es" by force
    then have "unat (ppn_val p) < 2 ^ 44" using md(1,4) fa_used_bound [of l "frames m'" p] by (auto simp: pt_inv_def)
    then show ?thesis
      using frame_at_mem [OF R(4) p] md(9) [OF ps] port_to_permission_bits [OF assms(9)]
      by (simp add: user_page_def md(2) view_with_def pte_ppn_new pte_flags_new or.assoc)
  qed
  have old: "user_page ?ms m' v = user_page ms (k_mach k) v" if v: "indexes v \<noteq> indexes trampoline_vpn" "indexes v \<notin> indexes ` range_pages addr len" for v
  proof -
    have vw: "pt_view (pt, m') v = pt_view (ms_page_table ms, k_mach k) v"
      using view_with_other [of v es] v(2) unfolding md(2) R(3) by simp
    show ?thesis
    proof (cases "indexes v \<in> indexes ` set (space_pages ms)")
      case True
      then obtain u where u: "u \<in> set (space_pages ms)" "indexes u = indexes v" by auto
      show ?thesis
      proof (rule space_page_frame [OF assms(3) u(1)], goal_cases)
        case (1 q fl)
        then have "phys m' q = phys (k_mach k) q" by (intro md(11)) auto
        then show ?case using 1(1,2) pt_view_same [OF u(2)] vw by (simp add: user_page_def)
      qed
    next
      case False
      then show ?thesis using assms(3) v(1) vw by (simp add: user_page_def space_inv_def)
    qed
  qed
  show ?case
    by (rule exI [of _ ?ms], rule exI [of _ m'], intro conjI)
      (use R(1,2) new old md(11) in \<open>simp_all add: sys_mmap_def lift_sys_def ret_def\<close>)
qed

section \<open>Requests that fail\<close>

lemma range_wraps:
  assumes "unat len \<le> 0x40000000" and "2 ^ 64 \<le> unat addr + unat len"
  shows "\<not> va_floor (VirtAddr addr) \<le> va_ceil (VirtAddr (addr + len))"
proof -
  let ?s = "addr + len"
  have s: "unat ?s = unat addr + unat len - 2 ^ 64"
    using assms unat64_less [of addr] unat64_less [of len] by (simp add: unat_word_ariths mod_if)
  have f: "unat (vpn_val (va_floor (VirtAddr addr))) = unat addr div 4096" by (simp add: va_floor_def PAGE_SIZE_def unat_div)
  have s2: "unat ?s \<le> 0x40000000" using s assms(1) unat64_less [of addr] by simp
  have u: "unat ?s + 4095 < 2 ^ 64" using s2 by simp
  have "unat (vpn_val (va_ceil (VirtAddr ?s))) = (unat ?s + 4095) div 4096" using u by (subst unat_va_ceil) simp_all
  also have "\<dots> \<le> (0x40000000 + 4095) div 4096" using s2 by (intro div_le_mono) simp
  also have "\<dots> < (2 ^ 64 - 0x40000000) div 4096" by simp
  also have "\<dots> \<le> unat addr div 4096" using assms by (intro div_le_mono) simp
  finally show ?thesis using f by (simp add: less_eq_virt_page_num_def word_le_nat_alt)
qed

text \<open>
  C27. Requests that fail. An address that is not aligned, more than a gigabyte, a \<open>port\<close> with
  other bits or without permission, and a range with a page that the process has, are refused with
  \<open>-1\<close> and change nothing; a request of length 0 returns 0. A range that wraps around the address
  space is not refused: it makes the kernel panic.
\<close>

theorem sys_mmap_errors:
  fixes k :: "'d kernel"
  assumes "current k = Some t" and "space_inv syms l (tcb_memory_set (task_at k t), k_mach k)"
  shows "(addr AND (PAGE_SIZE - 1) \<noteq> 0 \<or> len > 0x40000000 \<or> port AND NOT 7 \<noteq> 0 \<or> port AND 7 = 0 \<longrightarrow>
      sys_mmap addr len port k = kret (Return (- 1) k))
    \<and> (addr AND (PAGE_SIZE - 1) = 0 \<and> port AND NOT 7 = 0 \<and> port AND 7 \<noteq> 0 \<longrightarrow> sys_mmap addr 0 port k = kret (Return 0 k))
    \<and> (addr AND (PAGE_SIZE - 1) = 0 \<and> 0 < len \<and> unat len \<le> 0x40000000 \<and> unat addr + unat len + 4095 < 2 ^ 64
        \<and> range_pages addr len \<inter> set (space_pages (tcb_memory_set (task_at k t))) \<noteq> {} \<longrightarrow>
       sys_mmap addr len port k = kret (Return (- 1) k))
    \<and> (addr AND (PAGE_SIZE - 1) = 0 \<and> unat len \<le> 0x40000000 \<and> port AND NOT 7 = 0 \<and> port AND 7 \<noteq> 0 \<and> 2 ^ 64 \<le> unat addr + unat len
        \<and> \<not> usable_frames (k_mach k) < len div 4096 + 100 + tcb_frames_used (task_at k (k_initproc k)) \<longrightarrow>
       sys_mmap addr len port k = Some (Inl AssertFailed))"
proof (intro conjI impI, goal_cases)
  case 1
  then show ?case by (auto simp: sys_mmap_def lift_sys_def map_virtual_pages_def ret_def)
next
  case 2
  then show ?case by (simp add: sys_mmap_def lift_sys_def map_virtual_pages_def ret_def)
next
  case 3
  then have al: "addr AND (PAGE_SIZE - 1) = 0" and len: "0 < len" "unat len \<le> 0x40000000" and nw: "unat addr + unat len + 4095 < 2 ^ 64"
    and m: "range_pages addr len \<inter> set (space_pages (tcb_memory_set (task_at k t))) \<noteq> {}" by blast+
  note ri = range_items [OF al nw len(2)]
  have "list_ex (ms_have_mapped (tcb_memory_set (task_at k t)))
      (vpn_range_items \<lparr>range_l = va_floor (VirtAddr addr), range_r = va_ceil (VirtAddr (addr + len))\<rparr>)"
    using m ri(1) have_mapped_page [OF assms(2)] by (auto simp: list_ex_iff)
  then show ?case
    using assms(1) len(1) [THEN less_imp_neq, symmetric] ri(4)
    by (simp add: sys_mmap_def lift_sys_def map_virtual_pages_def ret_def current_task_def map_area_new_def vpn_range_new_def Let_def)
next
  case 4
  then have "len \<noteq> 0" using unat64_less [of addr] by (auto simp: not_le)
  moreover have "\<not> len > 0x40000000" using 4 by (simp add: word_less_nat_alt)
  ultimately show ?case
    using 4 assms(1) range_wraps [of len addr]
    by (simp add: sys_mmap_def lift_sys_def map_virtual_pages_def ret_def current_task_def map_area_new_def vpn_range_new_def Let_def)
qed

section \<open>An example\<close>

text \<open>The process of the example for forking, at its trap context only, maps one page.\<close>

definition mmap_kernel :: "memory_set \<Rightarrow> machine \<Rightarrow> u8 list kernel" where
  "mmap_kernel ms m = example_kernel\<lparr>k_mach := m,
     k_tasks := [(example_tcb 0 RunningTask)\<lparr>tcb_memory_set := ms\<rparr>, example_tcb 1 Ready]\<rparr>"

lemma mmap_kernel_simps [simp]:
  "current (mmap_kernel ms m) = Some 0" "length (k_tasks (mmap_kernel ms m)) = 2" "k_mach (mmap_kernel ms m) = m"
  "tcb_memory_set (task_at (mmap_kernel ms m) 0) = ms" "k_initproc (mmap_kernel ms m) = 0"
  by (simp_all add: mmap_kernel_def task_at_def example_kernel_def)

lemma mmap_range: "range_pages 0x10000 0x1000 = {VirtPageNum 16}"
proof -
  have "va_floor (VirtAddr 0x10000) = VirtPageNum 16" "va_ceil (VirtAddr (0x10000 + 0x1000)) = VirtPageNum 17" by code_simp+
  then have "v \<in> range_pages 0x10000 0x1000 \<longleftrightarrow> unat (vpn_val v) = 16" for v
    by (auto simp: range_pages_def less_eq_virt_page_num_def less_virt_page_num_def word_le_nat_alt word_less_nat_alt)
  moreover have "unat (vpn_val v) = 16 \<longleftrightarrow> v = VirtPageNum 16" for v by (cases v) (auto simp: word_unat_eq_iff)
  ultimately show ?thesis by auto
qed

theorem sys_mmap_correct_witness:
  "\<exists>ms m ms' m'. sys_mmap 0x10000 0x1000 3 (mmap_kernel ms m) = kret (Return 0x1000 (upd_task 0 (\<lambda>c. c\<lparr>tcb_memory_set := ms'\<rparr>) ((mmap_kernel ms m)\<lparr>k_mach := m'\<rparr>)))
    \<and> user_page ms' m' (VirtPageNum 16) = Some (PERM_U OR PERM_R OR PERM_W OR PTE_V, replicate 4096 0)"
proof (rule fork_space, goal_cases)
  case S: (1 ms m q)
  let ?k = "mmap_kernel ms m"
  have fa: "fa_inv 1 (frames m)" using S(1) by (auto simp: space_inv_def pt_inv_def)
  have "unat (usable_frames m) = fa_free_count (frames m)" using usable_frames_free [OF fa] by (simp add: usable_frames_def)
  then have u: "\<not> usable_frames m < 102" using S(5) by (simp add: word_less_nat_alt)
  have ix: "indexes (VirtPageNum 16) \<noteq> indexes trampoline_vpn" "indexes (VirtPageNum 16) \<noteq> indexes trap_vpn" by code_simp+
  have a: "(0x10000 :: usize) AND (PAGE_SIZE - 1) = 0" "(3 :: usize) AND NOT 7 = 0" "(3 :: usize) AND 7 \<noteq> 0" by code_simp+
  have e: "PERM_U OR push_bit 1 (ucast (3 :: usize)) OR PTE_V = PERM_U OR PERM_R OR PERM_W OR PTE_V" by code_simp
  have "indexes ` range_pages 0x10000 0x1000 \<inter> indexes ` set (trampoline_vpn # space_pages ms) = {}"
    using ix S(2) by (simp add: mmap_range)
  moreover have "\<not> usable_frames (k_mach ?k) < 0x1000 div 4096 + 100 + tcb_frames_used (task_at ?k (k_initproc ?k))"
    using u S(3) by (simp add: tcb_frames_used_def)
  ultimately show ?case
    using sys_mmap_correct [of ?k 0 example_syms 1 ms "0x10000" "0x1000" 3] S(1,5) a e by (auto simp: mmap_range)
qed

theorem sys_mmap_errors_witness:
  "\<exists>ms m. sys_mmap 0xFFFFFFFFFFFFF000 0x1000 3 (mmap_kernel ms m) = Some (Inl AssertFailed)"
proof (rule fork_space, goal_cases)
  case S: (1 ms m q)
  let ?k = "mmap_kernel ms m"
  have fa: "fa_inv 1 (frames m)" using S(1) by (auto simp: space_inv_def pt_inv_def)
  have "unat (usable_frames m) = fa_free_count (frames m)" using usable_frames_free [OF fa] by (simp add: usable_frames_def)
  then have u: "\<not> usable_frames m < 102" using S(5) by (simp add: word_less_nat_alt)
  have a: "(0xFFFFFFFFFFFFF000 :: usize) AND (PAGE_SIZE - 1) = 0" "(3 :: usize) AND NOT 7 = 0" "(3 :: usize) AND 7 \<noteq> 0" by code_simp+
  show ?case
    using sys_mmap_errors [of ?k 0 example_syms 1 "0xFFFFFFFFFFFFF000" "0x1000" 3] S(1,3) u a by (auto simp: tcb_frames_used_def)
qed

end
