(* ===== verification/User_Lib.thy ===== *)
theory User_Lib
  imports Scheduler
begin

text \<open>
  The library of the user programs (\<^verbatim>\<open>user/src/syscall.rs\<close>, \<^verbatim>\<open>user/src/console.rs\<close>, \<^verbatim>\<open>user/src/lib.rs\<close>).
  The instruction \<^verbatim>\<open>ecall\<close> is an argument \<open>sc\<close> of the wrappers: it takes the number of the system call
  and the values of the argument registers. A slice or a string is the address of its first byte
  and its length, an object in memory is its address. A wrapper returns what the instruction returns;
  \<^verbatim>\<open>sys_exit\<close> has no answer to return, since the process that exits does not run again.
\<close>

section \<open>Wrappers of the system calls\<close>

definition SYSCALL_DUP :: usize where "SYSCALL_DUP = 24"
definition SYSCALL_OPENAT :: usize where "SYSCALL_OPENAT = 56"
definition SYSCALL_CLOSE :: usize where "SYSCALL_CLOSE = 57"
definition SYSCALL_PIPE :: usize where "SYSCALL_PIPE = 59"
definition SYSCALL_READ :: usize where "SYSCALL_READ = 63"
definition SYSCALL_WRITE :: usize where "SYSCALL_WRITE = 64"
definition SYSCALL_UNLINKAT :: usize where "SYSCALL_UNLINKAT = 35"
definition SYSCALL_LINKAT :: usize where "SYSCALL_LINKAT = 37"
definition SYSCALL_FSTAT :: usize where "SYSCALL_FSTAT = 80"
definition SYSCALL_EXIT :: usize where "SYSCALL_EXIT = 93"
definition SYSCALL_YIELD :: usize where "SYSCALL_YIELD = 124"
definition SYSCALL_GETTIMEOFDAY :: usize where "SYSCALL_GETTIMEOFDAY = 169"
definition SYSCALL_GETPID :: usize where "SYSCALL_GETPID = 172"
definition SYSCALL_FORK :: usize where "SYSCALL_FORK = 220"
definition SYSCALL_EXEC :: usize where "SYSCALL_EXEC = 221"
definition SYSCALL_WAITPID :: usize where "SYSCALL_WAITPID = 260"
definition SYSCALL_SET_PRIORITY :: usize where "SYSCALL_SET_PRIORITY = 140"
definition SYSCALL_MUNMAP :: usize where "SYSCALL_MUNMAP = 215"
definition SYSCALL_MMAP :: usize where "SYSCALL_MMAP = 222"
definition SYSCALL_SPAWN :: usize where "SYSCALL_SPAWN = 400"
definition SYSCALL_MAIL_READ :: usize where "SYSCALL_MAIL_READ = 401"
definition SYSCALL_MAIL_WRITE :: usize where "SYSCALL_MAIL_WRITE = 402"

lemmas syscall_numbers =
  SYSCALL_DUP_def SYSCALL_OPENAT_def SYSCALL_CLOSE_def SYSCALL_PIPE_def SYSCALL_READ_def SYSCALL_WRITE_def
  SYSCALL_UNLINKAT_def SYSCALL_LINKAT_def SYSCALL_FSTAT_def SYSCALL_EXIT_def SYSCALL_YIELD_def
  SYSCALL_GETTIMEOFDAY_def SYSCALL_GETPID_def SYSCALL_FORK_def SYSCALL_EXEC_def SYSCALL_WAITPID_def
  SYSCALL_SET_PRIORITY_def SYSCALL_MUNMAP_def SYSCALL_MMAP_def SYSCALL_SPAWN_def SYSCALL_MAIL_READ_def
  SYSCALL_MAIL_WRITE_def

type_synonym 'r ecall = "usize \<Rightarrow> usize list \<Rightarrow> 'r"
type_synonym slice = "usize \<times> usize"

definition u_sys_write :: "'r ecall \<Rightarrow> usize \<Rightarrow> slice \<Rightarrow> 'r" where
  "u_sys_write sc fd buffer = sc SYSCALL_WRITE [fd, fst buffer, snd buffer]"

definition u_sys_read :: "'r ecall \<Rightarrow> usize \<Rightarrow> slice \<Rightarrow> 'r" where
  "u_sys_read sc fd buffer = sc SYSCALL_READ [fd, fst buffer, snd buffer]"

definition u_sys_exit :: "'r ecall \<Rightarrow> i32 \<Rightarrow> 'r" where
  "u_sys_exit sc code = sc SYSCALL_EXIT [scast code, 0, 0]"

definition u_sys_yield :: "'r ecall \<Rightarrow> 'r" where
  "u_sys_yield sc = sc SYSCALL_YIELD [0, 0, 0]"

definition u_sys_get_time :: "'r ecall \<Rightarrow> usize \<Rightarrow> usize \<Rightarrow> 'r" where
  "u_sys_get_time sc time tz = sc SYSCALL_GETTIMEOFDAY [time, tz, 0]"

definition u_sys_set_priority :: "'r ecall \<Rightarrow> isize \<Rightarrow> 'r" where
  "u_sys_set_priority sc prio = sc SYSCALL_SET_PRIORITY [prio, 0, 0]"

definition u_sys_mmap :: "'r ecall \<Rightarrow> usize \<Rightarrow> usize \<Rightarrow> usize \<Rightarrow> 'r" where
  "u_sys_mmap sc start len prot = sc SYSCALL_MMAP [start, len, prot]"

definition u_sys_munmap :: "'r ecall \<Rightarrow> usize \<Rightarrow> usize \<Rightarrow> 'r" where
  "u_sys_munmap sc start len = sc SYSCALL_MUNMAP [start, len, 0]"

definition u_sys_getpid :: "'r ecall \<Rightarrow> 'r" where
  "u_sys_getpid sc = sc SYSCALL_GETPID [0, 0, 0]"

definition u_sys_fork :: "'r ecall \<Rightarrow> 'r" where
  "u_sys_fork sc = sc SYSCALL_FORK [0, 0, 0]"

definition u_sys_exec :: "'r ecall \<Rightarrow> slice \<Rightarrow> slice \<Rightarrow> 'r" where
  "u_sys_exec sc path args = sc SYSCALL_EXEC [fst path, fst args, 0]"

definition u_sys_waitpid :: "'r ecall \<Rightarrow> isize \<Rightarrow> usize \<Rightarrow> 'r" where
  "u_sys_waitpid sc pid xstatus = sc SYSCALL_WAITPID [pid, xstatus, 0]"

definition u_sys_spawn :: "'r ecall \<Rightarrow> slice \<Rightarrow> 'r" where
  "u_sys_spawn sc path = sc SYSCALL_SPAWN [fst path, 0, 0]"

definition u_sys_pipe :: "'r ecall \<Rightarrow> slice \<Rightarrow> 'r" where
  "u_sys_pipe sc pipe = sc SYSCALL_PIPE [fst pipe, 0, 0]"

definition u_sys_close :: "'r ecall \<Rightarrow> usize \<Rightarrow> 'r" where
  "u_sys_close sc fd = sc SYSCALL_CLOSE [fd, 0, 0]"

definition u_sys_mail_read :: "'r ecall \<Rightarrow> slice \<Rightarrow> 'r" where
  "u_sys_mail_read sc buffer = sc SYSCALL_MAIL_READ [fst buffer, snd buffer, 0]"

definition u_sys_mail_write :: "'r ecall \<Rightarrow> usize \<Rightarrow> slice \<Rightarrow> 'r" where
  "u_sys_mail_write sc pid buffer = sc SYSCALL_MAIL_WRITE [pid, fst buffer, snd buffer]"

definition u_sys_dup :: "'r ecall \<Rightarrow> usize \<Rightarrow> 'r" where
  "u_sys_dup sc fd = sc SYSCALL_DUP [fd, 0, 0]"

definition u_sys_openat :: "'r ecall \<Rightarrow> usize \<Rightarrow> slice \<Rightarrow> u32 \<Rightarrow> u32 \<Rightarrow> 'r" where
  "u_sys_openat sc dirfd path flags mode = sc SYSCALL_OPENAT [dirfd, fst path, ucast flags, ucast mode, 0, 0]"

definition u_sys_linkat :: "'r ecall \<Rightarrow> usize \<Rightarrow> slice \<Rightarrow> usize \<Rightarrow> slice \<Rightarrow> usize \<Rightarrow> 'r" where
  "u_sys_linkat sc old_dirfd old_path new_dirfd new_path flags =
     sc SYSCALL_LINKAT [old_dirfd, fst old_path, new_dirfd, fst new_path, flags, 0]"

definition u_sys_unlinkat :: "'r ecall \<Rightarrow> usize \<Rightarrow> slice \<Rightarrow> usize \<Rightarrow> 'r" where
  "u_sys_unlinkat sc dirfd path flags = sc SYSCALL_UNLINKAT [dirfd, fst path, flags]"

definition u_sys_fstat :: "'r ecall \<Rightarrow> usize \<Rightarrow> usize \<Rightarrow> 'r" where
  "u_sys_fstat sc fd st = sc SYSCALL_FSTAT [fd, st, 0]"

lemmas wrapper_defs =
  u_sys_write_def u_sys_read_def u_sys_exit_def u_sys_yield_def u_sys_get_time_def u_sys_set_priority_def u_sys_mmap_def
  u_sys_munmap_def u_sys_getpid_def u_sys_fork_def u_sys_exec_def u_sys_waitpid_def u_sys_spawn_def u_sys_pipe_def
  u_sys_close_def u_sys_mail_read_def u_sys_mail_write_def u_sys_dup_def u_sys_openat_def u_sys_linkat_def
  u_sys_unlinkat_def u_sys_fstat_def

section \<open>The way into the kernel\<close>

text \<open>
  \<^verbatim>\<open>ecall\<close> with the arguments in the registers from a0 (x10) on and the number in a7 (x17): the
  registers are saved to the trap context of the running process and the kernel handles the trap.
\<close>

fun put_args :: "nat \<Rightarrow> usize list \<Rightarrow> usize list \<Rightarrow> usize list" where
  "put_args i [] x = x"
| "put_args i (a # as) x = put_args (i + 1) as (x[i := a])"

definition save_regs :: "nat \<Rightarrow> usize \<Rightarrow> usize list \<Rightarrow> 'd kernel \<Rightarrow> 'd kernel" where
  "save_regs t num args k =
     k\<lparr>k_mach := modify_trap_cx (trap_cx_ppn (task_at k t)) (\<lambda>cx. cx\<lparr>tc_x := (put_args 10 args (tc_x cx))[17 := num]\<rparr>) (k_mach k)\<rparr>"

definition kernel_ecall :: "'d block_dev \<Rightarrow> platform \<Rightarrow> 'd kernel \<Rightarrow> 'd kernel run ecall" where
  "kernel_ecall D pf k num args =
     kbind (Some (current_task k)) (\<lambda>t. trap_handler D pf UserEnvCall (save_regs t num args k))"

text \<open>The kernel in the system call: the program counter is behind the instruction.\<close>

definition in_call :: "usize \<Rightarrow> usize list \<Rightarrow> nat \<Rightarrow> 'd kernel \<Rightarrow> 'd kernel" where
  "in_call num args t k =
     k\<lparr>k_mach := modify_trap_cx (trap_cx_ppn (task_at k t)) (\<lambda>cx. cx\<lparr>tc_sepc := tc_sepc cx + 4\<rparr>) (k_mach (save_regs t num args k))\<rparr>"

definition finish :: "'d sysres run \<Rightarrow> 'd kernel run" where
  "finish r = kbind r (\<lambda>r. Some (deliver r))"

lemma length_put_args [simp]: "length (put_args i as x) = length x"
  by (induction as arbitrary: i x) simp_all

lemma kernel_ecall_dispatch:
  assumes "current k = Some t" and "mem_ok (k_mach k)" and "length args = 3 \<or> length args = 6"
  shows "\<exists>x. kernel_ecall D pf k num args = finish (syscall D pf num x (in_call num args t k)) \<and> take (length args) x = take 5 args"
proof -
  let ?ppn = "trap_cx_ppn (task_at k t)" and ?m = "k_mach (save_regs t num args k)"
  let ?x = "(put_args 10 args (tc_x (trap_cx_at (k_mach k) ?ppn)))[17 := num]"
  have "trap_cx_at ?m ?ppn = (trap_cx_at (k_mach k) ?ppn)\<lparr>tc_x := ?x\<rparr>" and m: "mem_ok ?m"
    unfolding save_regs_def using modify_trap_cx_ok [OF assms(2), of "\<lambda>cx. cx\<lparr>tc_x := (put_args 10 args (tc_x cx))[17 := num]\<rparr>" ?ppn]
    by simp_all
  then have x: "tc_x (trap_cx_at (modify_trap_cx ?ppn (\<lambda>cx. cx\<lparr>tc_sepc := tc_sepc cx + 4\<rparr>) ?m) ?ppn) = ?x"
    using modify_trap_cx_ok(1) [OF m, of "\<lambda>cx. cx\<lparr>tc_sepc := tc_sepc cx + 4\<rparr>" ?ppn] by simp
  have len: "length (tc_x (trap_cx_at (k_mach k) ?ppn)) = 32" by simp
  have "?x ! 17 = num" by simp
  moreover have "take (length args) [?x ! 10, ?x ! 11, ?x ! 12, ?x ! 13, ?x ! 14] = take 5 args"
    using assms(3) len by (auto simp: length_Suc_conv numeral_eq_Suc)
  moreover have "current_task (save_regs t num args k) = Inr t" "task_at (save_regs t num args k) t = task_at k t" "current_task k = Inr t"
    using assms(1) by (simp_all add: current_task_def save_regs_def task_at_def)
  moreover have "(save_regs t num args k)\<lparr>k_mach := modify_trap_cx ?ppn (\<lambda>cx. cx\<lparr>tc_sepc := tc_sepc cx + 4\<rparr>) ?m\<rparr> = in_call num args t k"
    by (simp add: in_call_def save_regs_def)
  ultimately show ?thesis
    using x by (intro exI [of _ "[?x ! 10, ?x ! 11, ?x ! 12, ?x ! 13, ?x ! 14]"])
      (simp add: kernel_ecall_def trap_handler_def finish_def in_call_def Let_def)
qed

lemmas sys_dispatch = syscall_def syscall_numbers wrapper_defs

lemma ecall3:
  assumes "current k = Some t" and "mem_ok (k_mach k)"
    and "\<And>x. syscall D pf num (a # b # c # x) (in_call num [a, b, c] t k) = r"
  shows "kernel_ecall D pf k num [a, b, c] = finish r"
proof -
  from kernel_ecall_dispatch [OF assms(1,2), of "[a, b, c]" D pf num] obtain x where
    x: "kernel_ecall D pf k num [a, b, c] = finish (syscall D pf num x (in_call num [a, b, c] t k))" "take 3 x = [a, b, c]" by (auto simp: numeral_eq_Suc)
  then have "x = a # b # c # drop 3 x" by (metis append_Cons append_Nil append_take_drop_id)
  with x(1) assms(3) show ?thesis by metis
qed

lemma ecall6:
  assumes "current k = Some t" and "mem_ok (k_mach k)"
    and "\<And>x. syscall D pf num (a # b # c # d # e # x) (in_call num [a, b, c, d, e, f] t k) = r"
  shows "kernel_ecall D pf k num [a, b, c, d, e, f] = finish r"
proof -
  from kernel_ecall_dispatch [OF assms(1,2), of "[a, b, c, d, e, f]" D pf num] obtain x where
    x: "kernel_ecall D pf k num [a, b, c, d, e, f] = finish (syscall D pf num x (in_call num [a, b, c, d, e, f] t k))"
      "take 6 x = [a, b, c, d, e]" by (auto simp: numeral_eq_Suc)
  then have "x = a # b # c # d # e # drop 6 x" by (metis append_Cons append_Nil append_take_drop_id)
  with x(1) assms(3) show ?thesis by metis
qed

lemma ucast_scast_i32 [simp]: "ucast (scast c :: usize) = (c :: i32)"
  by (rule bit_word_eqI) (simp add: bit_simps)

lemma ucast_ucast_u32 [simp]: "ucast (ucast c :: usize) = (c :: u32)"
  by (rule bit_word_eqI) (simp add: bit_simps)

text \<open>
  C34. The two sides of the system call interface agree. Every wrapper of the user library, run by
  the current process, enters the kernel's handler of the same name with the arguments the
  program gave (exit codes and flags keep their 32 bits), in the state where the registers of
  the process are saved and its program counter is behind the instruction; when the call
  returns, its result is stored in the register the wrapper reads.
\<close>

theorem wrappers_reach_handlers:
  fixes k :: "'d kernel" and D :: "'d block_dev" and pf :: platform
  assumes cur: "current k = Some t" and ok: "mem_ok (k_mach k)"
  defines "sc \<equiv> kernel_ecall D pf k" and "c \<equiv> \<lambda>num args. in_call num args t k"
  shows "u_sys_read sc fd (p, n) = finish (sys_read D fd p n (c 63 [fd, p, n]))
    \<and> u_sys_write sc fd (p, n) = finish (sys_write D fd p n (c 64 [fd, p, n]))
    \<and> u_sys_exit sc code = finish (sys_exit code (c 93 [scast code, 0, 0]))
    \<and> u_sys_yield sc = finish (sys_yield (c 124 [0, 0, 0]))
    \<and> u_sys_get_time sc p z = finish (sys_get_time pf p (c 169 [p, z, 0]))
    \<and> u_sys_set_priority sc prio = finish (sys_set_priority prio (c 140 [prio, 0, 0]))
    \<and> u_sys_mmap sc p n prot = finish (sys_mmap p n prot (c 222 [p, n, prot]))
    \<and> u_sys_munmap sc p n = finish (sys_munmap p n (c 215 [p, n, 0]))
    \<and> u_sys_getpid sc = finish (sys_getpid (c 172 [0, 0, 0]))
    \<and> u_sys_fork sc = finish (sys_fork pf (c 220 [0, 0, 0]))
    \<and> u_sys_exec sc (p, n) (q, j) = finish (sys_exec D pf p q (c 221 [p, q, 0]))
    \<and> u_sys_waitpid sc pid q = finish (sys_waitpid_non_blocking pid q (c 260 [pid, q, 0]))
    \<and> u_sys_spawn sc (p, n) = finish (sys_spawn D pf p (c 400 [p, 0, 0]))
    \<and> u_sys_pipe sc (p, n) = finish (sys_pipe p (c 59 [p, 0, 0]))
    \<and> u_sys_close sc fd = finish (sys_close fd (c 57 [fd, 0, 0]))
    \<and> u_sys_mail_read sc (p, n) = finish (sys_mail_read p n (c 401 [p, n, 0]))
    \<and> u_sys_mail_write sc pid (p, n) = finish (sys_mail_write pid p n (c 402 [pid, p, n]))
    \<and> u_sys_dup sc fd = finish (sys_dup fd (c 24 [fd, 0, 0]))
    \<and> u_sys_openat sc fd (p, n) flags mode = finish (sys_openat D p flags (c 56 [fd, p, ucast flags, ucast mode, 0, 0]))
    \<and> u_sys_linkat sc fd (p, n) fd' (q, j) z = finish (sys_linkat p q (c 37 [fd, p, fd', q, z, 0]))
    \<and> u_sys_unlinkat sc fd (p, n) z = finish (sys_unlinkat p (c 35 [fd, p, z]))
    \<and> u_sys_fstat sc fd q = finish (sys_fstat fd q (c 80 [fd, q, 0]))"
  unfolding sc_def c_def wrapper_defs syscall_numbers fst_conv snd_conv
  by (intro conjI) (rule ecall3 [OF cur ok] ecall6 [OF cur ok], simp add: syscall_def)+

lemma in_call_ok:
  assumes "mem_ok (k_mach k)"
  shows "mem_ok (k_mach (in_call num args t k))"
    and "k_tasks (in_call num args t k) = k_tasks k" and "current (in_call num args t k) = current k"
    and "trap_cx_at (k_mach (in_call num args t k)) (trap_cx_ppn (task_at k t))
      = (let cx = trap_cx_at (k_mach k) (trap_cx_ppn (task_at k t))
         in cx\<lparr>tc_x := (put_args 10 args (tc_x cx))[17 := num], tc_sepc := tc_sepc cx + 4\<rparr>)"
  using assms modify_trap_cx_ok by (simp_all add: in_call_def save_regs_def Let_def)

theorem wrappers_reach_handlers_witness:
  "\<exists>k. u_sys_getpid (kernel_ecall block_file example_platform example_kernel) = kret k
    \<and> tc_x (trap_cx_at (k_mach k) (PhysPageNum 2)) ! 10 = 0 \<and> tc_x (trap_cx_at (k_mach k) (PhysPageNum 2)) ! 17 = 172"
proof -
  let ?k = "in_call 172 [0, 0, 0] 0 example_kernel"
  have ok: "mem_ok (k_mach example_kernel)" and cur: "current example_kernel = Some 0" and pp: "trap_cx_ppn (task_at example_kernel 0) = PhysPageNum 2"
    by (simp_all add: example_kernel_def mem_ok_def zero_machine_def task_at_def example_tcb_def)
  have t: "task_at ?k 0 = example_tcb 0 RunningTask" and c: "current_task ?k = Inr 0"
    using in_call_ok(2,3) [OF ok] cur by (simp_all add: task_at_def example_kernel_def current_task_def)
  note cx = in_call_ok(4) [OF ok, of 172 "[0, 0, 0]" 0, unfolded pp Let_def]
  have "u_sys_getpid (kernel_ecall block_file example_platform example_kernel) = finish (sys_getpid ?k)"
    using wrappers_reach_handlers [OF cur ok] by blast
  also have "\<dots> = kret (set_a0 0 0 ?k)"
    using t c by (simp add: finish_def sys_getpid_def ret_def deliver_def example_tcb_def)
  finally show ?thesis
    using modify_trap_cx_ok(1) [OF in_call_ok(1) [OF ok]] t cx by (simp add: set_a0_def example_tcb_def)
qed

end
