(* ===== verification/User_Runtime.thy ===== *)
theory User_Runtime
  imports User_Lib
begin

unbundle bit_operations_syntax

text \<open>
  The console and the functions of the user library that do more than one system call
  (\<^verbatim>\<open>user/src/console.rs\<close>, \<^verbatim>\<open>user/src/lib.rs\<close>). What lies outside the program is a state that the
  instruction \<^verbatim>\<open>ecall\<close> changes and answers from; the memory of the program is part of it.
\<close>

section \<open>The console buffer\<close>

text \<open>
  The argument \<open>wr\<close> is \<^verbatim>\<open>write\<close> applied to the contents of a slice. \<^verbatim>\<open>print\<close> gets the pieces of text into
  which the formatting machinery splits its arguments; it panics when one of them cannot be written.
\<close>

type_synonym 's writer = "usize \<Rightarrow> u8 list \<Rightarrow> 's \<Rightarrow> isize \<times> 's"

definition STDIN :: usize where "STDIN = 0"
definition STDOUT :: usize where "STDOUT = 1"
definition CONSOLE_BUFFER_SIZE :: nat where "CONSOLE_BUFFER_SIZE = 256 * 10"

definition console_buffer_flush :: "'s writer \<Rightarrow> u8 list \<Rightarrow> 's \<Rightarrow> isize \<times> u8 list \<times> 's" where
  "console_buffer_flush wr buf s = (let (r, s') = wr STDOUT buf s in (r, [], s'))"

fun console_buffer_write_str :: "'s writer \<Rightarrow> u8 list \<Rightarrow> u8 list \<Rightarrow> 's \<Rightarrow> bool \<times> u8 list \<times> 's" where
  "console_buffer_write_str wr [] buf s = (True, buf, s)"
| "console_buffer_write_str wr (c # cs) buf s =
     (if c = 10 \<or> length (buf @ [c]) = CONSOLE_BUFFER_SIZE then
        (let (r, buf', s') = console_buffer_flush wr (buf @ [c]) s in
         if r = - 1 then (False, buf', s') else console_buffer_write_str wr cs buf' s')
      else console_buffer_write_str wr cs (buf @ [c]) s)"

fun console_write_fmt :: "'s writer \<Rightarrow> u8 list list \<Rightarrow> u8 list \<Rightarrow> 's \<Rightarrow> bool \<times> u8 list \<times> 's" where
  "console_write_fmt wr [] buf s = (True, buf, s)"
| "console_write_fmt wr (p # ps) buf s =
     (let (ok, buf', s') = console_buffer_write_str wr p buf s in
      if ok then console_write_fmt wr ps buf' s' else (False, buf', s'))"

definition console_print :: "'s writer \<Rightarrow> u8 list list \<Rightarrow> u8 list \<Rightarrow> 's \<Rightarrow> (u8 list \<times> 's) res" where
  "console_print wr args buf s =
     (let (ok, buf', s') = console_write_fmt wr args buf s in if ok then Inr (buf', s') else Inl UnwrapNone)"

definition console_flush :: "'s writer \<Rightarrow> u8 list \<Rightarrow> 's \<Rightarrow> u8 list \<times> 's" where
  "console_flush wr buf s = snd (console_buffer_flush wr buf s)"

section \<open>Functions of the library\<close>

text \<open>
  A program reaches its memory by addresses; \<open>ue_load\<close> and \<open>ue_store\<close> stand for the loads and stores of
  its instructions.
\<close>

record 's user_env =
  ue_ecall :: "('s \<Rightarrow> isize \<times> 's) ecall"
  ue_load :: "usize \<Rightarrow> nat \<Rightarrow> 's \<Rightarrow> u8 list"
  ue_store :: "usize \<Rightarrow> u8 list \<Rightarrow> 's \<Rightarrow> 's"

text \<open>The buffer of the console is at the address \<open>base\<close>.\<close>

definition user_write :: "'s user_env \<Rightarrow> usize \<Rightarrow> 's writer" where
  "user_write env base fd bs s = u_sys_write (ue_ecall env) fd (base, word_of_nat (length bs)) (ue_store env base bs s)"

definition user_getchar :: "'s user_env \<Rightarrow> usize \<Rightarrow> 's \<Rightarrow> u8 \<times> 's" where
  "user_getchar env c s =
     (let (r, s') = u_sys_read (ue_ecall env) STDIN (c, 1) (ue_store env c [0] s) in (ue_load env c 1 s' ! 0, s'))"

definition user_exit :: "'s user_env \<Rightarrow> usize \<Rightarrow> i32 \<Rightarrow> u8 list \<Rightarrow> 's \<Rightarrow> isize \<times> 's" where
  "user_exit env base code buf s =
     (let (buf', s') = console_flush (user_write env base) buf s in u_sys_exit (ue_ecall env) code s')"

definition user_close :: "'s user_env \<Rightarrow> usize \<Rightarrow> usize \<Rightarrow> u8 list \<Rightarrow> 's \<Rightarrow> isize \<times> u8 list \<times> 's" where
  "user_close env base fd buf s =
     (let (buf', s') = (if fd = STDOUT then console_flush (user_write env base) buf s else (buf, s));
          (r, s'') = u_sys_close (ue_ecall env) fd s'
      in (r, buf', s''))"

definition AT_FDCWD :: isize where "AT_FDCWD = - 100"

definition user_open :: "'r ecall \<Rightarrow> slice \<Rightarrow> u32 \<Rightarrow> 'r" where
  "user_open sc path flags = u_sys_openat sc AT_FDCWD path flags RDWR"

definition user_link :: "'r ecall \<Rightarrow> slice \<Rightarrow> slice \<Rightarrow> 'r" where
  "user_link sc old_path new_path = u_sys_linkat sc AT_FDCWD old_path AT_FDCWD new_path 0"

definition user_unlink :: "'r ecall \<Rightarrow> slice \<Rightarrow> 'r" where
  "user_unlink sc path = u_sys_unlinkat sc AT_FDCWD path 0"

text \<open>\<^verbatim>\<open>get_time\<close> keeps its \<^verbatim>\<open>TimeVal\<close> at the address \<open>tv\<close> of its stack frame.\<close>

definition time_ms :: "usize \<Rightarrow> usize \<Rightarrow> isize" where
  "time_ms sec usec = (sec AND 0xffff) * 1000 + usec div 1000"

definition user_get_time :: "'s user_env \<Rightarrow> usize \<Rightarrow> 's \<Rightarrow> isize \<times> 's" where
  "user_get_time env tv s =
     (let (r, s') = u_sys_get_time (ue_ecall env) tv 0 (ue_store env tv (replicate 16 0) s) in
      (if r = 0 then time_ms (le_dec (ue_load env tv 8 s')) (le_dec (ue_load env (tv + 8) 8 s')) else - 1, s'))"

definition user_yield :: "'s user_env \<Rightarrow> 's \<Rightarrow> isize \<times> 's" where
  "user_yield env s = u_sys_yield (ue_ecall env) s"

partial_function (option) sleep_loop :: "'s user_env \<Rightarrow> usize \<Rightarrow> isize \<Rightarrow> 's \<Rightarrow> 's option" where
  "sleep_loop env tv deadline s =
     (let (now, s') = user_get_time env tv s in
      if now <s deadline then sleep_loop env tv deadline (snd (user_yield env s')) else Some s')"

definition user_sleep :: "'s user_env \<Rightarrow> usize \<Rightarrow> usize \<Rightarrow> 's \<Rightarrow> 's option" where
  "user_sleep env tv period_ms s =
     (let (start, s') = user_get_time env tv s in sleep_loop env tv (start + period_ms) s')"

partial_function (option) waitpid_loop :: "'s user_env \<Rightarrow> isize \<Rightarrow> usize \<Rightarrow> 's \<Rightarrow> (isize \<times> 's) option" where
  "waitpid_loop env pid exit_code_ptr s =
     (let (n, s') = u_sys_waitpid (ue_ecall env) pid exit_code_ptr s in
      if n = - 2 then waitpid_loop env pid exit_code_ptr (snd (user_yield env s')) else Some (n, s'))"

definition user_wait :: "'s user_env \<Rightarrow> usize \<Rightarrow> 's \<Rightarrow> (isize \<times> 's) option" where
  "user_wait env exit_code_ptr s = waitpid_loop env (- 1) exit_code_ptr s"

definition user_waitpid :: "'s user_env \<Rightarrow> usize \<Rightarrow> usize \<Rightarrow> 's \<Rightarrow> (isize \<times> 's) option" where
  "user_waitpid env pid exit_code_ptr s = waitpid_loop env pid exit_code_ptr s"

text \<open>The start of a program: its arguments are strings whose addresses are in an array.\<close>

partial_function (option) arg_len :: "'s user_env \<Rightarrow> usize \<Rightarrow> nat \<Rightarrow> 's \<Rightarrow> nat option" where
  "arg_len env str_start i s =
     (if ue_load env (str_start + word_of_nat i) 1 s = [0] then Some i else arg_len env str_start (i + 1) s)"

fun start_args :: "'s user_env \<Rightarrow> usize \<Rightarrow> nat list \<Rightarrow> 's \<Rightarrow> u8 list list run" where
  "start_args env argv [] s = kret []"
| "start_args env argv (i # is) s =
     (let str_start = le_dec (ue_load env (argv + word_of_nat i * 8) 8 s) in
      case arg_len env str_start 0 s of
        None \<Rightarrow> None
      | Some len \<Rightarrow>
          (let str = ue_load env str_start len s in
           kbind (Some (if utf8_ok str then Inr str else Inl UnwrapNone)) (\<lambda>str.
           kbind (start_args env argv is s) (\<lambda>v. kret (str # v)))))"

definition user_start :: "'s user_env \<Rightarrow> usize \<Rightarrow> (usize \<Rightarrow> u8 list list \<Rightarrow> 's \<Rightarrow> (i32 \<times> u8 list \<times> 's) run) \<Rightarrow> usize \<Rightarrow> usize \<Rightarrow> 's \<Rightarrow>
    (isize \<times> 's) run" where
  "user_start env base main argc argv s =
     kbind (start_args env argv [0..<unat argc] s) (\<lambda>v.
     kbind (main argc v s) (\<lambda>(code, buf, s'). kret (user_exit env base code buf s')))"

section \<open>Waiting\<close>

text \<open>The states in which the loops call the kernel: each round is a call and a yield.\<close>

definition wait_round :: "'s user_env \<Rightarrow> isize \<Rightarrow> usize \<Rightarrow> 's \<Rightarrow> 's" where
  "wait_round env pid p s = snd (user_yield env (snd (u_sys_waitpid (ue_ecall env) pid p s)))"

definition sleep_round :: "'s user_env \<Rightarrow> usize \<Rightarrow> 's \<Rightarrow> 's" where
  "sleep_round env tv s = snd (user_yield env (snd (user_get_time env tv s)))"

lemma waitpid_loop_first:
  assumes "\<forall>i < n. fst (u_sys_waitpid (ue_ecall env) pid p ((wait_round env pid p ^^ i) s)) = - 2"
    and "fst (u_sys_waitpid (ue_ecall env) pid p ((wait_round env pid p ^^ n) s)) \<noteq> - 2"
  shows "waitpid_loop env pid p s = Some (u_sys_waitpid (ue_ecall env) pid p ((wait_round env pid p ^^ n) s))"
  using assms
proof (induction n arbitrary: s)
  case 0
  then show ?case by (subst waitpid_loop.simps) (simp add: case_prod_beta Let_def)
next
  case (Suc n)
  have "waitpid_loop env pid p (wait_round env pid p s) = Some (u_sys_waitpid (ue_ecall env) pid p ((wait_round env pid p ^^ Suc n) s))"
    unfolding funpow_Suc_right comp_def
    by (rule Suc.IH; use Suc.prems in \<open>force simp: funpow_swap1\<close>)
  moreover have "fst (u_sys_waitpid (ue_ecall env) pid p s) = - 2" using Suc.prems(1) by force
  ultimately show ?case by (subst waitpid_loop.simps) (simp add: case_prod_beta Let_def wait_round_def)
qed

lemma sleep_loop_first:
  assumes "\<forall>i < n. fst (user_get_time env tv ((sleep_round env tv ^^ i) s)) <s d"
    and "\<not> fst (user_get_time env tv ((sleep_round env tv ^^ n) s)) <s d"
  shows "sleep_loop env tv d s = Some (snd (user_get_time env tv ((sleep_round env tv ^^ n) s)))"
  using assms
proof (induction n arbitrary: s)
  case 0
  then show ?case by (subst sleep_loop.simps) (simp add: case_prod_beta Let_def)
next
  case (Suc n)
  have "sleep_loop env tv d (sleep_round env tv s) = Some (snd (user_get_time env tv ((sleep_round env tv ^^ Suc n) s)))"
    unfolding funpow_Suc_right comp_def
    by (rule Suc.IH; use Suc.prems in \<open>force simp: funpow_swap1\<close>)
  moreover have "fst (user_get_time env tv s) <s d" using Suc.prems(1) by force
  ultimately show ?case by (subst sleep_loop.simps) (simp add: case_prod_beta Let_def sleep_round_def)
qed

lemma sleep_loop_reading:
  assumes "sleep_loop env tv d s = Some s'"
  shows "\<exists>u. \<not> fst (user_get_time env tv u) <s d"
proof (rule sleep_loop.raw_induct [where P = "\<lambda>env tv d s s'. \<exists>u. \<not> fst (user_get_time env tv u) <s d", OF _ assms])
  fix f :: "'a user_env \<Rightarrow> usize \<Rightarrow> isize \<Rightarrow> 'a \<Rightarrow> 'a option" and env tv d s s'
  assume IH: "\<And>env tv d s s'. f env tv d s = Some s' \<Longrightarrow> \<exists>u. \<not> fst (user_get_time env tv u) <s d"
    and eq: "(let (now, s') = user_get_time env tv s in
      if now <s d then f env tv d (snd (user_yield env s')) else Some s') = Some s'"
  show "\<exists>u. \<not> fst (user_get_time env tv u) <s d"
    using eq IH by (cases "fst (user_get_time env tv s) <s d") (auto simp: case_prod_beta Let_def)
qed

lemma time_ms_value:
  assumes "unat usec < 1000000"
  shows "unat (time_ms sec usec) = unat sec mod 65536 * 1000 + unat usec div 1000"
proof -
  have "sec AND 0xffff = take_bit 16 sec" by (simp add: take_bit_eq_mask mask_eq_exp_minus_1)
  then have s: "unat (sec AND 0xffff) = unat sec mod 65536" by (simp add: take_bit_eq_mod unat_mod)
  have "unat sec mod 65536 < 65536" by simp
  then have "unat ((sec AND 0xffff) * 1000) = unat sec mod 65536 * 1000" by (subst unat_mult_lem [THEN iffD1]) (simp_all add: s)
  moreover have "unat (usec div 1000) = unat usec div 1000" by (simp add: unat_div)
  ultimately show ?thesis
    unfolding time_ms_def using \<open>unat sec mod 65536 < 65536\<close> assms by (subst unat_add_lem [THEN iffD1]) simp_all
qed

text \<open>The kernel answers with less than a second of microseconds.\<close>

definition time_ok :: "'s user_env \<Rightarrow> usize \<Rightarrow> bool" where
  "time_ok env tv \<longleftrightarrow> (\<forall>s. let (r, s') = u_sys_get_time (ue_ecall env) tv 0 s in r = 0 \<longrightarrow> unat (le_dec (ue_load env (tv + 8) 8 s') :: usize) < 1000000)"

lemma sint_of_small:
  assumes "unat (w :: isize) < n" and "n \<le> 2 ^ 63"
  shows "sint w < int n"
proof -
  have u: "uint w < int n" by (subst uint_nat) (rule of_nat_less_iff [THEN iffD2, OF assms(1)])
  moreover have "int n \<le> 2 ^ 63" using assms(2) by simp
  ultimately have "uint w < 2 ^ 63" by linarith
  moreover have "- (2 ^ 63) \<le> uint w" by (rule order_trans [OF _ uint_ge_0]) simp
  ultimately have "signed_take_bit 63 (uint w) = uint w" by (intro signed_take_bit_int_eq_self)
  then have "sint w = uint w" by (simp add: sint_uint)
  then show ?thesis using u by simp
qed

lemma user_get_time_bound:
  assumes "time_ok env tv"
  shows "sint (fst (user_get_time env tv s)) < 65536000"
proof -
  let ?p = "u_sys_get_time (ue_ecall env) tv 0 (ue_store env tv (replicate 16 0) s)"
  let ?sec = "le_dec (ue_load env tv 8 (snd ?p)) :: usize" and ?usec = "le_dec (ue_load env (tv + 8) 8 (snd ?p)) :: usize"
  show ?thesis
  proof (cases "fst ?p = 0")
    case True
    then have u: "unat ?usec < 1000000" using assms by (auto simp: time_ok_def case_prod_beta Let_def)
    have "unat ?sec mod 65536 < 65536" by simp
    then have lt: "unat (time_ms ?sec ?usec) < 65536000" using time_ms_value [OF u, of ?sec] u by linarith
    then have "sint (time_ms ?sec ?usec) < 65536000" using sint_of_small [of _ 65536000] by simp
    then show ?thesis using True by (simp add: user_get_time_def case_prod_beta)
  qed (simp add: user_get_time_def case_prod_beta)
qed

text \<open>
  C37. \<^verbatim>\<open>sleep\<close> returns after the first reading of the clock that is not before its deadline, in the state of
  that reading. Since \<^verbatim>\<open>get_time\<close> counts modulo 65536 seconds, its readings stay below 65536000 milliseconds:
  a sleep with a later deadline never returns.
\<close>

theorem sleep_until_deadline:
  fixes s :: 's and period_ms :: usize
  assumes st: "user_get_time env tv s = (start, s0)"
  defines "d \<equiv> start + period_ms" and "at \<equiv> \<lambda>n. (sleep_round env tv ^^ n) s0"
  shows "(\<forall>n. (\<forall>i < n. fst (user_get_time env tv (at i)) <s d) \<and> \<not> fst (user_get_time env tv (at n)) <s d \<longrightarrow>
      user_sleep env tv period_ms s = Some (snd (user_get_time env tv (at n))))
    \<and> (time_ok env tv \<and> 65536000 \<le> sint d \<longrightarrow> user_sleep env tv period_ms s = None)"
proof (intro conjI allI impI)
  fix n
  assume "(\<forall>i < n. fst (user_get_time env tv (at i)) <s d) \<and> \<not> fst (user_get_time env tv (at n)) <s d"
  then show "user_sleep env tv period_ms s = Some (snd (user_get_time env tv (at n)))"
    using sleep_loop_first [of n env tv s0 d] st by (simp add: user_sleep_def at_def d_def)
next
  assume a: "time_ok env tv \<and> 65536000 \<le> sint d"
  then have "fst (user_get_time env tv u) <s d" for u
    using user_get_time_bound [of env tv u] by (simp add: word_sless_alt)
  then have "sleep_loop env tv d s0 = None" using sleep_loop_reading [of env tv d s0] by fastforce
  then show "user_sleep env tv period_ms s = None" using st by (simp add: user_sleep_def d_def)
qed

text \<open>A world that is the number of seconds; each reading is a second later.\<close>

definition second_env :: "usize user_env" where
  "second_env = \<lparr>ue_ecall = \<lambda>num args s. (0, if num = SYSCALL_GETTIMEOFDAY then s + 1 else s),
     ue_load = \<lambda>a n s. le_enc n (if a = 16 then s else 0), ue_store = \<lambda>a bs s. s\<rparr>"

lemma second_env_time: "user_get_time second_env 16 s = (time_ms (s + 1) 0, s + 1)"
  by (simp add: user_get_time_def second_env_def u_sys_get_time_def le_dec_enc)

lemma second_env_round: "sleep_round second_env 16 s = s + 1"
  by (simp add: sleep_round_def second_env_time) (simp add: user_yield_def second_env_def u_sys_yield_def syscall_numbers)

theorem sleep_until_deadline_witness:
  "user_sleep second_env 16 1500 0 = Some 3 \<and> user_sleep second_env 16 1500 65534 = None"
proof
  have "\<forall>i < (1 :: nat). fst (user_get_time second_env 16 ((sleep_round second_env 16 ^^ i) 1)) <s time_ms 1 0 + 1500"
    by (simp add: second_env_time time_ms_def word_sless_alt)
  moreover have "\<not> fst (user_get_time second_env 16 ((sleep_round second_env 16 ^^ 1) 1)) <s time_ms 1 0 + 1500"
    by (simp add: second_env_time second_env_round time_ms_def word_sless_alt)
  ultimately show "user_sleep second_env 16 1500 0 = Some 3"
    using sleep_until_deadline [of second_env 16 0 "time_ms 1 0" 1 1500, THEN conjunct1, THEN spec [of _ 1]]
    by (simp add: second_env_time second_env_round)
  have "time_ok second_env 16" by (simp add: time_ok_def second_env_def u_sys_get_time_def le_dec_enc)
  then show "user_sleep second_env 16 1500 65534 = None"
    using sleep_until_deadline [of second_env 16 65534 "time_ms 65535 0" 65535 1500] by (simp add: second_env_time time_ms_def)
qed

end
