(* ===== verification/User_Access.thy ===== *)
theory User_Access
  imports Page_Table_Spec
begin

text \<open>
  How the kernel reaches user memory: what \<^verbatim>\<open>translated_byte_buffer\<close>, \<^verbatim>\<open>translated_str\<close> and
  the address checks of \<^verbatim>\<open>page_table.rs\<close> do.
\<close>

section \<open>Addresses of user bytes\<close>

text \<open>The byte at a virtual address of the process with the given token.\<close>

definition user_ptr :: "usize \<Rightarrow> machine \<Rightarrow> usize \<Rightarrow> uptr option" where
  "user_ptr token m va = map_option phys_ptr (pt_translate_va (VirtAddr va) (page_table_from_token token) m)"

lemma pte_ppn_bound: "unat (ppn_val (pte_ppn e)) < 2 ^ 44"
  by (simp only: pte_ppn_def phys_page_num.sel and_mask44 take_bit_eq_mod) (simp add: unat_mod)

lemma phys_ptr_at:
  assumes "unat (ppn_val n) < 2 ^ 44" and "unat off < 4096"
  shows "phys_ptr (PhysAddr (pa_val (pa_of_ppn n) + off)) = (n, unat off)"
proof -
  let ?p = "push_bit 12 (ppn_val n)"
  have p: "unat ?p = unat (ppn_val n) * 4096"
    using assms(1) by (simp add: push_bit_eq_mult unat_word_ariths)
  have s: "unat (?p + off) = unat (ppn_val n) * 4096 + unat off"
    using assms p by (simp add: unat_word_ariths)
  have "(?p + off) div 4096 = ppn_val n"
    using s assms(2) by (intro unsigned_word_eqI [where 'a = nat]) (simp add: unat_div)
  moreover have "unat ((?p + off) AND 4095) = unat off"
  proof -
    have "(?p + off) AND 4095 = (?p + off) AND (PAGE_SIZE - 1)" by (simp add: PAGE_SIZE_def)
    also have "unat \<dots> = unat off"
      using s assms(2) by (simp only: page_mask take_bit_eq_mod) (simp add: unat_mod)
    finally show ?thesis .
  qed
  ultimately show ?thesis
    by (simp add: phys_ptr_def pa_floor_def pa_page_offset_def pa_of_ppn_def PAGE_SIZE_def PAGE_SIZE_BITS_def)
qed

lemma user_ptr_eq:
  "user_ptr token m va = map_option (\<lambda>e. (pte_ppn e, unat (va_page_offset (VirtAddr va))))
     (pt_translate (va_floor (VirtAddr va)) (page_table_from_token token) m)"
  by (cases "find_pte (va_floor (VirtAddr va)) (page_table_from_token token) m")
    (simp_all add: user_ptr_def pt_translate_va_def pt_translate_def Let_def
      phys_ptr_at [OF pte_ppn_bound page_offset_less])

lemma va_floor_add:
  assumes "unat (va_page_offset (VirtAddr p)) + i < 4096"
  shows "va_floor (VirtAddr (p + word_of_nat i)) = va_floor (VirtAddr p)"
    and "unat (va_page_offset (VirtAddr (p + word_of_nat i))) = unat (va_page_offset (VirtAddr p)) + i"
    and "unat (p + word_of_nat i) = unat p + i"
proof -
  let ?o = "unat p mod 4096" and ?b = "unat p div 4096"
  have o: "?o + i < 4096" using assms by (simp add: unat_page_offset)
  have d: "unat p = ?b * 4096 + ?o" by simp
  have b: "?b < 4503599627370496" using unat64_less [of p] by simp
  have "unat p + i < 18446744073709551616" using d b o by linarith
  then show s: "unat (p + word_of_nat i) = unat p + i"
    using o by (simp add: unat_word_ariths unat_of_nat)
  have "unat p + i = ?b * 4096 + (?o + i)" using d by simp
  then have q: "(unat p + i) div 4096 = ?b" "(unat p + i) mod 4096 = ?o + i"
    using o by (metis div_mult_self3 div_less add.right_neutral zero_neq_numeral, metis mod_mult_self3 mod_less)
  have "unat (vpn_val (va_floor (VirtAddr (p + word_of_nat i)))) = unat (vpn_val (va_floor (VirtAddr p)))"
    by (simp add: unat_va_floor s q)
  then show "va_floor (VirtAddr (p + word_of_nat i)) = va_floor (VirtAddr p)"
    by (metis unsigned_word_eqI virt_page_num.expand)
  show "unat (va_page_offset (VirtAddr (p + word_of_nat i))) = unat (va_page_offset (VirtAddr p)) + i"
    by (simp add: unat_page_offset s q)
qed

lemma unat_next_page:
  assumes "unat (vpn_val n) + 1 < 2 ^ 52"
  shows "unat (va_val (va_of_vpn (vpn_step n))) = (unat (vpn_val n) + 1) * 4096"
proof -
  have "unat (vpn_val n + 1) = unat (vpn_val n) + 1"
    using assms by (simp add: unat_word_ariths)
  then show ?thesis
    using assms by (simp add: va_of_vpn_def vpn_step_def PAGE_SIZE_BITS_def push_bit_eq_mult unat_word_ariths)
qed

section \<open>Buffers\<close>

lemma byte_buffer_step:
  assumes "start < en" and "pt_translate (va_floor (VirtAddr start)) pt m = Some e"
  shows "byte_buffer_loop pt m start en v =
    (let end_va = min (va_of_vpn (vpn_step (va_floor (VirtAddr start)))) (VirtAddr en);
         a = unat (va_page_offset (VirtAddr start)); b = unat (va_page_offset end_va)
     in if a \<le> b then byte_buffer_loop pt m (va_val end_va) en (v @ [\<lparr>us_ppn = pte_ppn e, us_start = a, us_end = b\<rparr>])
        else Some (Inl IndexOutOfBounds))"
  using assms by (subst byte_buffer_loop.simps) (simp add: Let_def)

lemma byte_buffer_done: "\<not> start < en \<Longrightarrow> byte_buffer_loop pt m start en v = Some (Inr v)"
  by (subst byte_buffer_loop.simps) simp

lemma byte_buffer_in_page:
  assumes "pt_translate (va_floor (VirtAddr ptr)) (page_table_from_token token) m = Some e"
    and "0 < unat len" and "unat (va_page_offset (VirtAddr ptr)) + unat len < 4096"
    and "unat (vpn_val (va_floor (VirtAddr ptr))) + 1 < 2 ^ 52"
  shows "translated_byte_buffer token ptr len m = Some (Inr [\<lparr>us_ppn = pte_ppn e, us_start = unat (va_page_offset (VirtAddr ptr)),
    us_end = unat (va_page_offset (VirtAddr ptr)) + unat len\<rparr>])"
proof -
  let ?off = "unat (va_page_offset (VirtAddr ptr))"
  note add = va_floor_add [OF assms(3), simplified]
  have lt: "ptr < ptr + len" using add(3) assms(2) by (simp add: word_less_nat_alt)
  have "unat ptr = unat (vpn_val (va_floor (VirtAddr ptr))) * 4096 + ?off"
    by (simp add: unat_va_floor unat_page_offset)
  then have "unat (ptr + len) < unat (va_val (va_of_vpn (vpn_step (va_floor (VirtAddr ptr)))))"
    using add(3) assms(3) unat_next_page [OF assms(4)] by simp
  then have min: "min (va_of_vpn (vpn_step (va_floor (VirtAddr ptr)))) (VirtAddr (ptr + len)) = VirtAddr (ptr + len)"
    by (simp add: min_def less_eq_virt_addr_def word_le_nat_alt)
  then show ?thesis
    using byte_buffer_step [OF lt assms(1), of "[]"] add(2) by (simp add: translated_byte_buffer_def Let_def byte_buffer_done)
qed

text \<open>
  C9. A user buffer inside one page. When a buffer of one or more bytes lies in a page that is
  present in the table and does not contain the last byte of the page, \<^verbatim>\<open>translated_byte_buffer\<close>
  returns exactly one slice: it is in the frame of the page, starts at the offset of the buffer and
  is as long as the buffer; its pointers are the translations of the buffer's addresses in order,
  and it is safe to iterate over. Buffers with the last byte of the page are treated in the next property.
\<close>

theorem user_buffer_in_page:
  assumes "pt_translate (va_floor (VirtAddr ptr)) (page_table_from_token token) m = Some e"
    and "0 < unat len" and "unat (va_page_offset (VirtAddr ptr)) + unat len < 4096"
    and "unat (vpn_val (va_floor (VirtAddr ptr))) + 1 < 2 ^ 52"
  shows "\<exists>slice. translated_byte_buffer token ptr len m = Some (Inr [slice])
    \<and> us_ppn slice = pte_ppn e \<and> us_start slice = unat (va_page_offset (VirtAddr ptr)) \<and> us_end slice = us_start slice + unat len
    \<and> ub_ok [slice] \<and> map Some (ub_ptrs [slice]) = map (\<lambda>i. user_ptr token m (ptr + word_of_nat i)) [0..<unat len]"
proof -
  let ?off = "unat (va_page_offset (VirtAddr ptr))"
  let ?slice = "\<lparr>us_ppn = pte_ppn e, us_start = ?off, us_end = ?off + unat len\<rparr>"
  have "user_ptr token m (ptr + word_of_nat i) = Some (pte_ppn e, ?off + i)" if "i < unat len" for i
    using va_floor_add [of ptr i] that assms(1,3) by (simp add: user_ptr_eq)
  then have "map (\<lambda>i. user_ptr token m (ptr + word_of_nat i)) [0..<unat len]
      = map (\<lambda>i. Some (pte_ppn e, ?off + i)) [0..<unat len]"
    by simp
  also have "\<dots> = map Some (ub_ptrs [?slice])"
    by (rule nth_equalityI) (simp_all add: ub_ptrs_def us_ptrs_def)
  finally show ?thesis using byte_buffer_in_page [OF assms] assms(2,3) by (intro exI [of _ ?slice]) (simp add: ub_ok_def)
qed

text \<open>
  C10. A user buffer that reaches the end of its page. The loop takes the offset of the first
  byte after the page, which is zero, as the end of the slice: for a buffer that starts inside a
  page and contains the last byte of the page, the slice is out of range and the kernel panics.
\<close>

theorem user_buffer_page_end_panics:
  assumes "pt_translate (va_floor (VirtAddr ptr)) (page_table_from_token token) m = Some e"
    and "0 < unat (va_page_offset (VirtAddr ptr))"
    and "4096 \<le> unat (va_page_offset (VirtAddr ptr)) + unat len" and "unat ptr + unat len < 2 ^ 64"
  shows "translated_byte_buffer token ptr len m = Some (Inl IndexOutOfBounds)"
proof -
  let ?off = "unat (va_page_offset (VirtAddr ptr))" and ?n = "unat (vpn_val (va_floor (VirtAddr ptr)))"
  have s: "unat (ptr + len) = unat ptr + unat len" using assms(4) by (simp add: unat_word_ariths)
  have off: "?off < 4096" by (rule page_offset_less)
  have d: "unat ptr = ?n * 4096 + ?off" by (simp add: unat_va_floor unat_page_offset)
  have lt: "ptr < ptr + len" using s assms(3) off by (simp add: word_less_nat_alt)
  have "?n * 4096 + 4096 < 18446744073709551616" using d assms(3,4) by simp
  then have "?n + 1 < 2 ^ 52" by simp
  from unat_next_page [OF this] have "unat (va_val (va_of_vpn (vpn_step (va_floor (VirtAddr ptr))))) \<le> unat (ptr + len)"
    using s d assms(3) by simp
  then have "min (va_of_vpn (vpn_step (va_floor (VirtAddr ptr)))) (VirtAddr (ptr + len))
      = va_of_vpn (vpn_step (va_floor (VirtAddr ptr)))"
    by (simp add: min_def less_eq_virt_addr_def word_le_nat_alt)
  then show ?thesis
    using byte_buffer_step [OF lt assms(1), of "[]"] assms(2)
    by (simp add: translated_byte_buffer_def Let_def va_of_vpn_offset)
qed

section \<open>Strings\<close>

lemma translated_str_loop_ok:
  assumes "\<And>i. i < length bs \<Longrightarrow> bs ! i \<noteq> 0"
    and "\<And>i. i \<le> length bs \<Longrightarrow> map_option (ptr_read m) (user_ptr token m (ptr + word_of_nat i)) = Some ((bs @ [0]) ! i)"
  shows "translated_str_loop (page_table_from_token token) m ptr str = Some (Inr (str @ bs))"
  using assms
proof (induction bs arbitrary: ptr str)
  case Nil
  from Nil.prems(2) [of 0] show ?case
    by (subst translated_str_loop.simps) (auto simp: user_ptr_def)
next
  case (Cons b bs)
  have nz: "b \<noteq> 0" using Cons.prems(1) [of 0] by simp
  have rest: "map_option (ptr_read m) (user_ptr token m (ptr + 1 + word_of_nat i)) = Some ((bs @ [0]) ! i)"
    if "i \<le> length bs" for i
    using Cons.prems(2) [of "Suc i"] that by (simp add: add.assoc)
  have "translated_str_loop (page_table_from_token token) m (ptr + 1) (str @ [b]) = Some (Inr ((str @ [b]) @ bs))"
    using Cons.prems(1) [of "Suc i" for i] by (intro Cons.IH rest) auto
  with nz Cons.prems(2) [of 0] show ?case
    by (subst translated_str_loop.simps) (auto simp: user_ptr_def)
qed

text \<open>
  C11. A string of a process. When the bytes from an address on are present, and the first zero
  byte comes after the bytes \<open>bs\<close>, \<^verbatim>\<open>translated_str\<close> ends and returns \<open>bs\<close>, across page
  boundaries as well.
\<close>

theorem translated_str_reads:
  assumes "0 \<notin> set bs"
    and "\<And>i. i \<le> length bs \<Longrightarrow> map_option (ptr_read m) (user_ptr token m (ptr + word_of_nat i)) = Some ((bs @ [0]) ! i)"
  shows "translated_str token ptr m = Some (Inr bs)"
proof -
  have "bs ! i \<noteq> 0" if "i < length bs" for i using assms(1) that by (metis nth_mem)
  then have "translated_str_loop (page_table_from_token token) m ptr [] = Some (Inr ([] @ bs))"
    by (rule translated_str_loop_ok) (use assms(2) in auto)
  then show ?thesis by (simp add: translated_str_def)
qed

section \<open>A process with one page\<close>

text \<open>
  The table of \<^term>\<open>zero_machine\<close> with page 5 mapped to frame 100, and the byte \<open>65\<close> stored at
  address \<open>0x5010\<close>.
\<close>

lemma one_page_process:
  obtains pt m where "pt_translate (VirtPageNum 5) (page_table_from_token (pt_token pt)) m
      = Some (pte_new (PhysPageNum 100) (PTE_R OR PTE_V))"
    and "phys m (PhysPageNum 100) = (replicate 4096 0)[16 := 65]" and "mem_ok m" and "pt_inv 1 (pt, m)"
    and "pt_view (pt, m) (VirtPageNum 5) = Some (pte_new (PhysPageNum 100) (PTE_R OR PTE_V))" and "PhysPageNum 100 \<notin> set (pt_frames pt)"
proof -
  obtain pt0 m0 where "page_table_new zero_machine = Inr (pt0, m0)" and inv0: "pt_inv 1 (pt0, m0)"
    and view0: "pt_view (pt0, m0) = (\<lambda>_. None)" and free: "2 \<le> fa_free_count (frames m0)"
    and ph0: "\<forall>k. k \<noteq> pt_root pt0 \<longrightarrow> phys m0 k = replicate 4096 0"
    and end0: "fa_end (frames m0) = 9"
  proof -
    have "0 < fa_free_count (frames zero_machine)" by (simp add: zero_machine_ok)
    then show thesis
      by (rule page_table_new_ok [OF zero_machine_ok(1) _ zero_machine_ok(3,4)])
        (rule that, assumption+, use zero_machine_ok(2) in linarith,
          simp add: zero_machine_def, simp add: zero_machine_def fa_booted_def fa_init_def)
  qed
  from view0 have "pt_view (pt0, m0) (VirtPageNum 5) = None" by simp
  from pt_map_ok [OF inv0 this free, of "PhysPageNum 100" PTE_R] obtain pt m where
    ch: "pt_changes 1 (VirtPageNum 5) (Some (pte_new (PhysPageNum 100) (PTE_R OR PTE_V))) (pt0, m0) (pt, m)"
    by blast
  then have inv: "pt_inv 1 (pt, m)" and en: "fa_end (frames m) = 9" and sub: "set (pt_frames pt0) \<subseteq> set (pt_frames pt)"
    and v: "pt_view (pt, m) (VirtPageNum 5) = Some (pte_new (PhysPageNum 100) (PTE_R OR PTE_V))"
    and ph: "\<forall>k. k \<notin> set (pt_frames pt) \<longrightarrow> phys m k = phys m0 k"
    using end0 by (auto simp: pt_changes_def)
  have out: "PhysPageNum 100 \<notin> set (pt_frames pt)"
  proof
    assume "PhysPageNum 100 \<in> set (pt_frames pt)"
    then have "unat (ppn_val (PhysPageNum 100)) < unat (fa_end (frames m))"
      using inv by (intro fa_used_bound [of 1]) (auto simp: pt_inv_def)
    then show False by (simp add: en)
  qed
  have "pt_root pt0 \<in> set (pt_frames pt)"
    using inv0 pt_wf_node [OF _ leaf_path(3), of m0 "pt_root pt0"] sub by (auto simp: pt_inv_def)
  then have "phys m (PhysPageNum 100) = replicate 4096 0" using out ph ph0 by metis
  moreover let ?m = "ptr_write (PhysPageNum 100, 16) 65 m"
  from inv have "pt_inv 1 (pt, ?m)" "pt_view (pt, ?m) = pt_view (pt, m)"
    by (rule pt_frame_rule; use out inv in \<open>auto simp: ptr_write_def pt_inv_def mem_ok_def\<close>)+
  ultimately show thesis
    using that [of pt ?m] v out pt_view_translate(2) [of 1 pt ?m "VirtPageNum 5"] inv by (simp add: ptr_write_def pt_inv_def mem_ok_def)
qed

lemma page5: "va_floor (VirtAddr 0x5010) = VirtPageNum 5" "unat (va_page_offset (VirtAddr 0x5010)) = 16"
  by (simp_all add: va_floor_def va_page_offset_def PAGE_SIZE_def)

theorem user_buffer_in_page_witness:
  "\<exists>token m slice. translated_byte_buffer token 0x5010 8 m = Some (Inr [slice]) \<and> us_ppn slice = PhysPageNum 100
    \<and> us_start slice = 16 \<and> us_end slice = 24 \<and> ub_ok [slice]
    \<and> map Some (ub_ptrs [slice]) = map (\<lambda>i. user_ptr token m (0x5010 + word_of_nat i)) [0..<8]"
proof -
  obtain pt m where "pt_translate (VirtPageNum 5) (page_table_from_token (pt_token pt)) m
      = Some (pte_new (PhysPageNum 100) (PTE_R OR PTE_V))" by (rule one_page_process)
  then have "pt_translate (va_floor (VirtAddr 0x5010)) (page_table_from_token (pt_token pt)) m
      = Some (pte_new (PhysPageNum 100) (PTE_R OR PTE_V))" by (simp add: page5)
  from user_buffer_in_page [OF this, of 8] show ?thesis by (fastforce simp: page5 pte_ppn_new)
qed

theorem user_buffer_page_end_panics_witness:
  "\<exists>token m. translated_byte_buffer token 0x5010 0x1000 m = Some (Inl IndexOutOfBounds)"
proof -
  obtain pt m where "pt_translate (VirtPageNum 5) (page_table_from_token (pt_token pt)) m
      = Some (pte_new (PhysPageNum 100) (PTE_R OR PTE_V))" by (rule one_page_process)
  then have "pt_translate (va_floor (VirtAddr 0x5010)) (page_table_from_token (pt_token pt)) m
      = Some (pte_new (PhysPageNum 100) (PTE_R OR PTE_V))" by (simp add: page5)
  from user_buffer_page_end_panics [OF this, of "0x1000"] show ?thesis by (auto simp: page5)
qed

theorem translated_str_reads_witness:
  "\<exists>token m. translated_str token 0x5010 m = Some (Inr [65])"
proof -
  obtain pt m where t: "pt_translate (VirtPageNum 5) (page_table_from_token (pt_token pt)) m
      = Some (pte_new (PhysPageNum 100) (PTE_R OR PTE_V))"
    and ph: "phys m (PhysPageNum 100) = (replicate 4096 0)[16 := 65]" by (rule one_page_process)
  have "map_option (ptr_read m) (user_ptr (pt_token pt) m (0x5010 + word_of_nat i)) = Some (([65] @ [0]) ! i)"
    if "i \<le> length [65 :: u8]" for i
  proof -
    have "unat (va_page_offset (VirtAddr 0x5010)) + i < 4096" using that by (simp add: page5)
    from va_floor_add [OF this] show ?thesis
      using that t ph by (cases i) (auto simp: user_ptr_eq page5 pte_ppn_new ptr_read_def)
  qed
  from translated_str_reads [of "[65]", OF _ this] show ?thesis by auto
qed

end
