(* ===== verification/Phys_Objects.thy ===== *)
theory Phys_Objects
  imports Syscall_Process
begin

unbundle bit_operations_syntax

text \<open>
  What a system call stores through a translated pointer and what is found there later: the stores
  and loads of several bytes as lists of pointers.
\<close>

section \<open>Objects in physical memory\<close>

definition phys_ptrs :: "usize \<Rightarrow> nat \<Rightarrow> uptr list" where
  "phys_ptrs pa n = map (\<lambda>i. phys_ptr (PhysAddr (pa + word_of_nat i))) [0..<n]"

lemma length_phys_ptrs [simp]: "length (phys_ptrs pa n) = n"
  by (simp add: phys_ptrs_def)

lemma phys_ptrs_Suc: "phys_ptrs pa (Suc n) = phys_ptr (PhysAddr pa) # phys_ptrs (pa + 1) n"
  unfolding phys_ptrs_def by (simp add: upt_conv_Cons map_Suc_upt [symmetric] comp_def ac_simps del: upt_Suc)

lemma phys_store_ptrs: "phys_store pa bs m = ptrs_write (phys_ptrs pa (length bs)) bs m"
  by (induction pa bs m rule: phys_store.induct) (simp_all add: phys_ptrs_Suc)

lemma phys_load_ptrs: "phys_load pa n m = ptrs_read m (phys_ptrs pa n)"
  by (induction pa n m rule: phys_load.induct) (simp_all add: phys_ptrs_Suc ptrs_read_def, simp add: phys_ptrs_def)

lemma phys_ptr_inject: "phys_ptr (PhysAddr a) = phys_ptr (PhysAddr b) \<longleftrightarrow> a = b"
proof
  assume "phys_ptr (PhysAddr a) = phys_ptr (PhysAddr b)"
  then have "a div 4096 = b div 4096" "a AND 4095 = b AND 4095"
    by (simp_all add: phys_ptr_def pa_floor_def pa_page_offset_def PAGE_SIZE_def word_unat_eq_iff)
  moreover have "w AND 4095 = w mod 4096" for w :: usize
    using take_bit_eq_mask [of 12 w] by (simp add: mask_eq_exp_minus_1 take_bit_eq_mod)
  ultimately show "a = b" by (metis div_mult_mod_eq)
qed simp

lemma phys_ptr_off [simp]: "snd (phys_ptr pa) < 4096"
  using page_offset_less [of "VirtAddr (pa_val pa)"] by (simp add: phys_ptr_def pa_page_offset_def va_page_offset_def)

lemma phys_ptrs_off: "p \<in> set (phys_ptrs pa n) \<Longrightarrow> snd p < 4096"
  by (auto simp: phys_ptrs_def)

lemma phys_ptrs_distinct: "n \<le> 2 ^ 64 \<Longrightarrow> distinct (phys_ptrs pa n)"
  unfolding phys_ptrs_def distinct_map inj_on_def phys_ptr_inject add_left_cancel
  by (auto dest!: arg_cong [where f = unat] simp: unat_of_nat64)

lemma phys_load_store:
  assumes "mem_ok m" and "length bs \<le> 2 ^ 64"
  shows "phys_load pa (length bs) (phys_store pa bs m) = bs"
  using ptrs_read_write [OF assms(1), of "phys_ptrs pa (length bs)" bs] phys_ptrs_distinct [OF assms(2)] phys_ptrs_off
  by (simp add: phys_load_ptrs phys_store_ptrs)

lemma phys_load_store_other:
  assumes "mem_ok m" and "set (phys_ptrs q n) \<inter> set (phys_ptrs pa (length bs)) = {}"
  shows "phys_load q n (phys_store pa bs m) = phys_load q n m"
  using ptr_read_ptrs_write_other [OF assms(1), of "phys_ptrs pa (length bs)" _ bs] assms(2) phys_ptrs_off
  by (auto simp: phys_load_ptrs phys_store_ptrs ptrs_read_def)

lemma mem_ok_phys_store [simp]: "mem_ok m \<Longrightarrow> mem_ok (phys_store pa bs m)"
  by (simp add: phys_store_ptrs)

lemma phys_ptrs_append: "phys_ptrs pa (i + n) = phys_ptrs pa i @ phys_ptrs (pa + word_of_nat i) n"
  by (rule nth_equalityI) (auto simp: phys_ptrs_def nth_append ac_simps)

lemma phys_ptrs_disjoint:
  assumes "i + n \<le> 2 ^ 64"
  shows "set (phys_ptrs pa i) \<inter> set (phys_ptrs (pa + word_of_nat i) n) = {}"
  using phys_ptrs_distinct [OF assms, of pa] by (simp add: phys_ptrs_append)

end
