(* ===== verification/Clock_Spec.thy ===== *)
theory Clock_Spec
  imports User_Runtime User_Access Phys_Objects
begin

unbundle bit_operations_syntax

text \<open>
  The time a program gets: the values the kernel computes from its clock register
  (\<^verbatim>\<open>os/src/timer.rs\<close>), stored in the memory of the program, and the milliseconds
  that the user library makes of them.
\<close>

section \<open>The clock\<close>

lemma ticks_to_us_value: "unat t < 2 ^ 63 \<Longrightarrow> unat (ticks_to_us t) = unat t * 2 div 25"
  by (simp add: ticks_to_us_def unat_div unat_word_ariths)

lemma ms_of_us: "u div 1000 mod 65536000 = u div 1000000 mod 65536 * 1000 + u mod 1000000 div 1000" for u :: nat
proof -
  let ?q = "u div 1000000" and ?r = "u mod 1000000"
  have r: "?r div 1000 < 1000" by (simp add: less_mult_imp_div_less)
  have "u = (?q * 1000) * 1000 + ?r" by simp
  then have "u div 1000 = ?q * 1000 + ?r div 1000" by (metis add.commute div_mult_self3 zero_neq_numeral)
  also have "\<dots> = ?q div 65536 * 65536000 + (?q mod 65536 * 1000 + ?r div 1000)"
    using div_mult_mod_eq [of ?q 65536] by linarith
  finally have "u div 1000 mod 65536000 = (?q mod 65536 * 1000 + ?r div 1000) mod 65536000" by (metis add.commute mod_mult_self1)
  moreover have "?q mod 65536 < 65536" by simp
  then have "?q mod 65536 * 1000 + ?r div 1000 < 65536000" using r by linarith
  ultimately show ?thesis by simp
qed

lemma get_time_sys_ok:
  fixes pf :: platform
  assumes cur: "current k = Some t" and ok: "mem_ok (k_mach k)"
    and tr: "translated_virtual_ptr (get_user_token (task_at k t)) ts (k_mach k) = Inr pa" and nz: "pa \<noteq> 0"
  defines "us \<equiv> \<lambda>i. ticks_to_us (pf_clock pf (k_reads k + i))"
  obtains k' where "get_time_sys pf ts k = Inr (0, k')"
    and "le_dec (phys_load pa 8 (k_mach k')) = us 1 div 1000000"
    and "le_dec (phys_load (pa + 8) 8 (k_mach k')) = us 0 mod 1000000"
    and "\<forall>p. p \<notin> set (phys_ptrs pa 16) \<longrightarrow> ptr_read (k_mach k') p = ptr_read (k_mach k) p"
    and "k_reads k' = k_reads k + 2"
proof -
  let ?b1 = "le_enc 8 (us 0 mod 1000000)" and ?b2 = "le_enc 8 (us 1 div 1000000)"
  let ?m1 = "phys_store (pa + 8) ?b1 (k_mach k)"
  let ?m2 = "phys_store pa ?b2 ?m1"
  let ?k = "k\<lparr>k_reads := k_reads k + 2, k_mach := ?m2\<rparr>"
  have "get_time_sys pf ts k = Inr (0, ?k)"
    using cur tr nz by (simp add: get_time_sys_def current_user_token_def current_task_def get_time_us_def get_time_def us_def USEC_PER_SEC_def)
  moreover have "le_dec (phys_load pa 8 ?m2) = us 1 div 1000000"
    using phys_load_store [of ?m1 ?b2 pa] ok by (simp add: le_dec_enc)
  moreover have "phys_load (pa + 8) 8 ?m2 = phys_load (pa + 8) 8 ?m1"
    using phys_ptrs_disjoint [of 8 8 pa] ok by (intro phys_load_store_other) (auto simp: Int_commute)
  then have "le_dec (phys_load (pa + 8) 8 ?m2) = us 0 mod 1000000"
    using phys_load_store [of "k_mach k" ?b1 "pa + 8"] ok by (simp add: le_dec_enc)
  moreover have "ptr_read ?m2 p = ptr_read (k_mach k) p" if "p \<notin> set (phys_ptrs pa 16)" for p
  proof -
    have "p \<notin> set (phys_ptrs pa 8)" "p \<notin> set (phys_ptrs (pa + 8) 8)" using that phys_ptrs_append [of pa 8 8] by auto
    then show ?thesis
      using ptr_read_ptrs_write_other [of _ "phys_ptrs pa 8" p] ptr_read_ptrs_write_other [of _ "phys_ptrs (pa + 8) 8" p] ok phys_ptrs_off
      by (simp add: phys_store_ptrs)
  qed
  ultimately show thesis using that [of ?k] by simp
qed

text \<open>
  C35. How exact the time of a program is. \<^verbatim>\<open>sys_get_time\<close> reads the clock twice, first for the
  microseconds and then for the seconds. With readings that do not go back and stay below \<open>2 ^ 63\<close> it
  stores less than a million microseconds; the time is not before the first
  reading, less than a second after the second one, and exactly the first reading when both lie in the
  same second; only the 16 bytes of the \<^verbatim>\<open>TimeVal\<close> change. The library's \<^verbatim>\<open>get_time\<close> makes of it a number
  below 65536000 and, when both readings lie in the same second, the milliseconds modulo 65536 seconds.
\<close>

theorem get_time_bounds:
  fixes pf :: platform
  assumes cur: "current k = Some t" and ok: "mem_ok (k_mach k)"
    and tr: "translated_virtual_ptr (get_user_token (task_at k t)) ts (k_mach k) = Inr pa" and nz: "pa \<noteq> 0"
    and mono: "pf_clock pf (k_reads k) \<le> pf_clock pf (k_reads k + 1)" and top: "unat (pf_clock pf (k_reads k + 1)) < 2 ^ 63"
  defines "us0 \<equiv> unat (pf_clock pf (k_reads k)) * 2 div 25" and "us1 \<equiv> unat (pf_clock pf (k_reads k + 1)) * 2 div 25"
  shows "\<exists>k' sec usec. sys_get_time pf ts k = ret 0 k'
    \<and> le_dec (phys_load pa 8 (k_mach k')) = sec \<and> le_dec (phys_load (pa + 8) 8 (k_mach k')) = usec
    \<and> (\<forall>p. p \<notin> set (phys_ptrs pa 16) \<longrightarrow> ptr_read (k_mach k') p = ptr_read (k_mach k) p)
    \<and> unat usec < 1000000
    \<and> us0 \<le> unat sec * 1000000 + unat usec \<and> unat sec * 1000000 + unat usec < us1 + 1000000
    \<and> unat (time_ms sec usec) < 65536000
    \<and> (us0 div 1000000 = us1 div 1000000 \<longrightarrow>
        unat sec * 1000000 + unat usec = us0 \<and> unat (time_ms sec usec) = us0 div 1000 mod 65536000)"
proof -
  let ?us = "\<lambda>i. ticks_to_us (pf_clock pf (k_reads k + i))"
  obtain k' where k': "get_time_sys pf ts k = Inr (0, k')"
    "le_dec (phys_load pa 8 (k_mach k')) = ?us 1 div 1000000" "le_dec (phys_load (pa + 8) 8 (k_mach k')) = ?us 0 mod 1000000"
    "\<forall>p. p \<notin> set (phys_ptrs pa 16) \<longrightarrow> ptr_read (k_mach k') p = ptr_read (k_mach k) p"
    using get_time_sys_ok [OF cur ok tr nz] by metis
  let ?sec = "?us 1 div 1000000" and ?usec = "?us 0 mod 1000000"
  have le: "unat (pf_clock pf (k_reads k)) \<le> unat (pf_clock pf (k_reads k + 1))" using mono by (simp add: word_le_nat_alt)
  then have u: "us0 \<le> us1" by (simp add: us0_def us1_def div_le_mono)
  have v: "unat ?sec = us1 div 1000000" "unat ?usec = us0 mod 1000000"
    using ticks_to_us_value top le by (simp_all add: us0_def us1_def unat_div unat_mod)
  have lt: "unat ?usec < 1000000" unfolding v by simp
  have ms: "unat (time_ms ?sec ?usec) = us1 div 1000000 mod 65536 * 1000 + us0 mod 1000000 div 1000"
    using time_ms_value [OF lt, of ?sec] unfolding v .
  have lo: "us0 div 1000000 \<le> us1 div 1000000" using u by (rule div_le_mono)
  have e0: "us0 div 1000000 * 1000000 + us0 mod 1000000 = us0" "us1 div 1000000 * 1000000 \<le> us1" "us0 mod 1000000 < 1000000" by simp_all
  have lo_hi: "us0 \<le> unat ?sec * 1000000 + unat ?usec" "unat ?sec * 1000000 + unat ?usec < us1 + 1000000"
    unfolding v using lo e0 by linarith+
  have "us1 div 1000000 mod 65536 < 65536" by simp
  then have lt_ms: "unat (time_ms ?sec ?usec) < 65536000" unfolding ms using e0(3) by linarith
  have exact: "unat ?sec * 1000000 + unat ?usec = us0" "unat (time_ms ?sec ?usec) = us0 div 1000 mod 65536000"
    if "us0 div 1000000 = us1 div 1000000"
    using that e0(1) by (simp_all only: v ms ms_of_us)
  have "sys_get_time pf ts k = ret 0 k'" by (simp add: sys_get_time_def lift_sys_def k'(1))
  then show ?thesis
    by (intro exI [of _ k'] exI [of _ ?sec] exI [of _ ?usec] conjI impI) (assumption | rule k'(2-4) lt lo_hi lt_ms exact)+
qed

text \<open>A process that has page 5 mapped to frame 100 and asks for the time at address \<open>0x5010\<close>.\<close>

definition clock_kernel :: "page_table \<Rightarrow> machine \<Rightarrow> u8 list kernel" where
  "clock_kernel pt m = example_kernel\<lparr>k_mach := m,
     k_tasks := [(example_tcb 0 RunningTask)\<lparr>tcb_memory_set := \<lparr>ms_page_table = pt, ms_areas = []\<rparr>\<rparr>]\<rparr>"

theorem get_time_bounds_witness:
  "\<exists>pt m k'. sys_get_time example_platform 0x5010 (clock_kernel pt m) = ret 0 k'
    \<and> le_dec (phys_load 0x64010 8 (k_mach k')) = (0 :: usize) \<and> le_dec (phys_load 0x64018 8 (k_mach k')) = (0 :: usize)"
proof -
  obtain pt m where
    p: "pt_translate (VirtPageNum 5) (page_table_from_token (pt_token pt)) m = Some (pte_new (PhysPageNum 100) (PTE_R OR PTE_V))"
    and ok: "mem_ok m" by (rule one_page_process)
  let ?k = "clock_kernel pt m"
  have tok: "get_user_token (task_at ?k 0) = pt_token pt" and k: "current ?k = Some 0" "k_mach ?k = m" "k_reads ?k = 0"
    by (simp_all add: clock_kernel_def task_at_def get_user_token_def ms_token_def example_kernel_def)
  have "translated_virtual_ptr (pt_token pt) 0x5010 m = Inr 0x64010"
    using p by (auto simp: translated_virtual_ptr_def pt_translate_va_def pt_translate_def page5 pte_ppn_new pa_of_ppn_def
        va_page_offset_def PAGE_SIZE_def PAGE_SIZE_BITS_def Let_def split: option.splits)
  then have "translated_virtual_ptr (get_user_token (task_at ?k 0)) 0x5010 (k_mach ?k) = Inr 0x64010" by (simp add: tok k)
  from get_time_bounds [OF k(1) _ this, of example_platform] ok k show ?thesis
    by (fastforce simp: example_platform_def word_unat_eq_iff)
qed

end
