(* ===== verification/Argv_Spec.thy ===== *)
theory Argv_Spec
  imports Mmap_Spec Clock_Spec
begin

unbundle bit_operations_syntax

text \<open>
  The arguments of a program: \<^verbatim>\<open>exec\<close> writes them to the user stack of the new address space
  (\<^verbatim>\<open>os/src/task/task.rs\<close>), the start of the program reads them (\<^verbatim>\<open>user/src/lib.rs\<close>).
\<close>

section \<open>The user stack\<close>

text \<open>
  The addresses from \<open>lo\<close> to \<open>hi\<close> are in pages of the space; \<open>sptr\<close> is where such an address lies
  in physical memory.
\<close>

definition stack_ok :: "linker_symbols \<Rightarrow> usize \<Rightarrow> memory_set \<Rightarrow> nat \<Rightarrow> nat \<Rightarrow> machine \<Rightarrow> bool" where
  "stack_ok syms l ms lo hi m \<longleftrightarrow> space_inv syms l (ms, m) \<and> hi < 2 ^ 64
     \<and> (\<forall>a \<in> {lo..<hi}. va_floor (VirtAddr (word_of_nat a)) \<in> set (space_pages ms))"

definition sptr :: "memory_set \<Rightarrow> machine \<Rightarrow> nat \<Rightarrow> uptr" where
  "sptr ms m a = (pte_ppn (the (pt_view (ms_page_table ms, m) (va_floor (VirtAddr (word_of_nat a))))),
     unat (va_page_offset (VirtAddr (word_of_nat a))))"

lemma stack_ptr:
  assumes "stack_ok syms l ms lo hi m" and "a \<in> {lo..<hi}"
  shows "user_ptr (ms_token ms) m (word_of_nat a) = Some (sptr ms m a)"
    and "fst (sptr ms m a) \<notin> set (pt_frames (ms_page_table ms))" and "snd (sptr ms m a) < 4096"
    and "(va_floor (VirtAddr (word_of_nat a)), fst (sptr ms m a)) \<in> set (space_map ms)"
    and "pt_translate (va_floor (VirtAddr (word_of_nat a))) (page_table_from_token (ms_token ms)) m
      = Some (the (pt_view (ms_page_table ms, m) (va_floor (VirtAddr (word_of_nat a)))))"
proof -
  let ?v = "va_floor (VirtAddr (word_of_nat a))"
  have inv: "space_inv syms l (ms, m)" and v: "?v \<in> set (space_pages ms)" using assms by (auto simp: stack_ok_def)
  from space_page_frame [OF inv v] obtain q fl where
    q: "pt_view (ms_page_table ms, m) ?v = Some (pte_new q fl)" "pte_ppn (pte_new q fl) = q"
      "q \<notin> set (pt_frames (ms_page_table ms))" "(?v, q) \<in> set (space_map ms)" by blast
  have "pt_inv l (ms_page_table ms, m)" using inv by (simp add: space_inv_def)
  from pt_view_translate(2) [OF this q(1)] q
  show "pt_translate ?v (page_table_from_token (ms_token ms)) m = Some (the (pt_view (ms_page_table ms, m) ?v))"
    by (simp add: ms_token_def)
  then show "user_ptr (ms_token ms) m (word_of_nat a) = Some (sptr ms m a)"
    by (simp add: user_ptr_eq sptr_def)
  show "fst (sptr ms m a) \<notin> set (pt_frames (ms_page_table ms))" "(?v, fst (sptr ms m a)) \<in> set (space_map ms)"
    using q by (simp_all add: sptr_def)
  show "snd (sptr ms m a) < 4096" by (simp add: sptr_def page_offset_less)
qed

lemma stack_ptr_inj:
  assumes "stack_ok syms l ms lo hi m"
  shows "inj_on (sptr ms m) {lo..<hi}"
proof (rule inj_onI)
  fix a b assume ab: "a \<in> {lo..<hi}" "b \<in> {lo..<hi}" and e: "sptr ms m a = sptr ms m b"
  have inv: "space_inv syms l (ms, m)" and hi: "hi < 2 ^ 64" using assms by (simp_all add: stack_ok_def)
  have "va_floor (VirtAddr (word_of_nat a)) = va_floor (VirtAddr (word_of_nat b))"
    by (rule space_map_inj [OF inv]) (use stack_ptr(4) [OF assms] ab e in auto)
  then have "unat (word_of_nat a :: usize) div 4096 = unat (word_of_nat b :: usize) div 4096"
    by (metis unat_va_floor virt_addr.sel)
  moreover have "unat (word_of_nat a :: usize) mod 4096 = unat (word_of_nat b :: usize) mod 4096"
    using arg_cong [OF e, of snd] by (simp add: sptr_def unat_page_offset)
  moreover have "unat (word_of_nat a :: usize) = a" "unat (word_of_nat b :: usize) = b" using ab hi by (simp_all add: unat_of_nat64)
  ultimately show "a = b" by (metis div_mult_mod_eq)
qed

lemma ptrs_write_phys: "n \<notin> fst ` set ps \<Longrightarrow> phys (ptrs_write ps bs m) n = phys m n"
  by (induction ps bs m rule: ptrs_write.induct) (auto simp: ptr_write_def)

lemma stack_write:
  assumes "stack_ok syms l ms lo hi m" and "set as \<subseteq> {lo..<hi}"
  shows "stack_ok syms l ms lo hi (ptrs_write (map (sptr ms m) as) bs m)"
    and "sptr ms (ptrs_write (map (sptr ms m) as) bs m) = sptr ms m"
proof -
  let ?m = "ptrs_write (map (sptr ms m) as) bs m"
  have inv: "space_inv syms l (ms, m)" using assms by (simp add: stack_ok_def)
  then have h: "mem_ok m" "fa_inv l (frames m)" "unat (fa_end (frames m)) \<le> 2 ^ 44" by (auto simp: space_inv_def pt_inv_def)
  have same: "phys ?m f = phys m f" if "f \<in> set (pt_frames (ms_page_table ms))" for f
    using that stack_ptr(2) [OF assms(1)] assms(2) by (intro ptrs_write_phys) auto
  have r: "space_inv syms l (ms, ?m)" "pt_view (ms_page_table ms, ?m) = pt_view (ms_page_table ms, m)"
    by (rule space_frame_rule [OF inv same]; use h in simp)+
  show "stack_ok syms l ms lo hi ?m" using assms(1) r by (simp add: stack_ok_def)
  show "sptr ms ?m = sptr ms m" by (rule ext) (simp add: sptr_def r)
qed

lemma stack_read_write:
  assumes "stack_ok syms l ms lo hi m" and "set as \<subseteq> {lo..<hi}" and "length bs = length as" and "distinct as" and "a \<in> {lo..<hi}"
  shows "a \<notin> set as \<Longrightarrow> ptr_read (ptrs_write (map (sptr ms m) as) bs m) (sptr ms m a) = ptr_read m (sptr ms m a)"
    and "ptrs_read (ptrs_write (map (sptr ms m) as) bs m) (map (sptr ms m) as) = bs"
proof -
  have ok: "mem_ok m" using assms(1) by (auto simp: stack_ok_def space_inv_def pt_inv_def)
  have off: "\<forall>p \<in> set (map (sptr ms m) as). snd p < 4096" using stack_ptr(3) [OF assms(1)] assms(2) by auto
  note inj = stack_ptr_inj [OF assms(1)]
  show "ptr_read (ptrs_write (map (sptr ms m) as) bs m) (sptr ms m a) = ptr_read m (sptr ms m a)" if "a \<notin> set as"
    by (rule ptr_read_ptrs_write_other [OF ok off]) (use that inj_on_image_mem_iff [OF inj assms(5,2)] in simp)
  have "distinct (map (sptr ms m) as)" using assms(4) inj_on_subset [OF inj assms(2)] by (simp add: distinct_map)
  from ptrs_read_write [OF ok off this, of bs] assms(3) show "ptrs_read (ptrs_write (map (sptr ms m) as) bs m) (map (sptr ms m) as) = bs"
    by simp
qed

lemma stack_write_outside:
  assumes "stack_ok syms l ms lo hi m" and "set as \<subseteq> {lo..<hi}" and "p \<notin> sptr ms m ` {lo..<hi}"
  shows "ptr_read (ptrs_write (map (sptr ms m) as) bs m) p = ptr_read m p"
proof (rule ptr_read_ptrs_write_other)
  show "mem_ok m" using assms(1) by (auto simp: stack_ok_def space_inv_def pt_inv_def)
  show "\<forall>q \<in> set (map (sptr ms m) as). snd q < 4096" using stack_ptr(3) [OF assms(1)] assms(2) by auto
  show "p \<notin> set (map (sptr ms m) as)" using assms(2,3) by auto
qed

section \<open>Stores through translated addresses\<close>

lemma stack_refmut:
  assumes "stack_ok syms l ms lo hi m" and "a \<in> {lo..<hi}"
  obtains pa where "translated_refmut (ms_token ms) (word_of_nat a) m = Inr pa" and "phys_ptr pa = sptr ms m a"
  using stack_ptr(1) [OF assms] that by (auto simp: user_ptr_def translated_refmut_def)

lemma push_string_ok:
  assumes "stack_ok syms l ms lo hi m" and "lo \<le> a" and "a + length bs < hi"
  shows "push_string (ms_token ms) (word_of_nat a) bs m = Inr (ptrs_write (map (sptr ms m) [a..<a + length bs + 1]) (bs @ [0]) m)"
  using assms
proof (induction bs arbitrary: a m)
  case Nil
  then have "a \<in> {lo..<hi}" by simp
  from stack_refmut [OF Nil(1) this] obtain pa where
    "translated_refmut (ms_token ms) (word_of_nat a) m = Inr pa" "phys_ptr pa = sptr ms m a" .
  then show ?case by (cases pa) (simp add: user_store_def)
next
  case (Cons b bs)
  have a: "a \<in> {lo..<hi}" using Cons.prems by simp
  from stack_refmut [OF Cons.prems(1) a] obtain pa where
    pa: "translated_refmut (ms_token ms) (word_of_nat a) m = Inr pa" "phys_ptr pa = sptr ms m a" .
  let ?m = "ptrs_write (map (sptr ms m) [a]) [b] m"
  have st: "stack_ok syms l ms lo hi ?m" "sptr ms ?m = sptr ms m"
    by (rule stack_write [OF Cons.prems(1)], use a in simp)+
  have "push_string (ms_token ms) (word_of_nat (Suc a)) bs ?m = Inr (ptrs_write (map (sptr ms ?m) [Suc a..<Suc a + length bs + 1]) (bs @ [0]) ?m)"
    by (rule Cons.IH [OF st(1)]) (use Cons.prems in simp_all)
  then show ?case
    unfolding st(2) using pa by (cases pa) (simp add: user_store_def upt_conv_Cons ac_simps del: upt_Suc)
qed

lemma word_of_nat_diff: "k \<le> n \<Longrightarrow> word_of_nat n - word_of_nat k = (word_of_nat (n - k) :: usize)"
  by (simp add: of_nat_diff)

text \<open>Eight bytes at an aligned address are in one page.\<close>

lemma stack_slot:
  assumes "stack_ok syms l ms lo hi m" and "lo \<le> a" and "a + 8 \<le> hi" and "a mod 8 = 0"
  obtains pa where "translated_refmut (ms_token ms) (word_of_nat a) m = Inr pa" and "phys_ptrs (pa_val pa) 8 = map (sptr ms m) [a..<a + 8]"
proof -
  let ?p = "word_of_nat a :: usize" and ?e = "the (pt_view (ms_page_table ms, m) (va_floor (VirtAddr (word_of_nat a))))"
  have a: "a \<in> {lo..<hi}" and u: "unat ?p = a" using assms by (auto simp: stack_ok_def unat_of_nat64)
  have off: "unat (va_page_offset (VirtAddr ?p)) + i < 4096" if "i < 8" for i
  proof -
    have "a mod 4096 mod 8 = 0" using assms(4) by (simp add: mod_mod_cancel)
    then obtain q where q: "a mod 4096 = 8 * q" by (metis mod_0_imp_dvd dvdE)
    moreover have "a mod 4096 < 4096" by simp
    ultimately have "q \<le> 511" by linarith
    then have "a mod 4096 + i < 4096" using q that by linarith
    then show ?thesis using u by (simp add: unat_page_offset)
  qed
  have "pt_translate (va_floor (VirtAddr ?p)) (page_table_from_token (ms_token ms)) m = Some ?e"
    by (rule stack_ptr(5) [OF assms(1) a])
  then have tr: "translated_refmut (ms_token ms) ?p m = Inr (PhysAddr (pa_val (pa_of_ppn (pte_ppn ?e)) + va_page_offset (VirtAddr ?p)))"
    by (auto simp: translated_refmut_def pt_translate_va_def pt_translate_def Let_def split: option.splits)
  let ?pa = "PhysAddr (pa_val (pa_of_ppn (pte_ppn ?e)) + va_page_offset (VirtAddr ?p))"
  have "phys_ptr (PhysAddr (pa_val ?pa + word_of_nat i)) = sptr ms m (a + i)" if i: "i < 8" for i
  proof -
    have "unat (va_page_offset (VirtAddr ?p) + word_of_nat i) = unat (va_page_offset (VirtAddr ?p)) + i"
      using off [OF i] i by (simp add: unat_word_ariths unat_of_nat)
    with phys_ptr_at [OF pte_ppn_bound, of "va_page_offset (VirtAddr ?p) + word_of_nat i" ?e] off [OF i]
    show ?thesis using va_floor_add [OF off [OF i]] by (simp add: sptr_def ac_simps)
  qed
  then have "phys_ptrs (pa_val ?pa) 8 = map (\<lambda>i. sptr ms m (a + i)) [0..<8]" by (simp add: phys_ptrs_def)
  also have "\<dots> = map (sptr ms m) [a..<a + 8]" by (rule nth_equalityI) simp_all
  finally show thesis using that tr by blast
qed

section \<open>Pushing the arguments\<close>

definition total_len :: "u8 list list \<Rightarrow> nat" where
  "total_len args = sum_list (map (\<lambda>x. length (as_bytes x) + 1) args)"

text \<open>The arguments lie below \<open>sp\<close>, their addresses in the slots from \<open>slot\<close> on.\<close>

fun placed_args :: "machine \<Rightarrow> (nat \<Rightarrow> uptr) \<Rightarrow> nat \<Rightarrow> nat \<Rightarrow> u8 list list \<Rightarrow> bool" where
  "placed_args m f slot sp [] \<longleftrightarrow> True"
| "placed_args m f slot sp (x # xs) \<longleftrightarrow>
     (let sp' = sp - (length (as_bytes x) + 1) in
      ptrs_read m (map f [sp'..<sp]) = as_bytes x @ [0] \<and> ptrs_read m (map f [slot..<slot + 8]) = le_enc 8 (word_of_nat sp' :: usize)
      \<and> placed_args m f (slot + 8) sp' xs)"

lemma ptrs_read_cong:
  "(\<And>a. a \<in> set as \<Longrightarrow> ptr_read m' (f a) = ptr_read m (f a)) \<Longrightarrow> ptrs_read m' (map f as) = ptrs_read m (map f as)"
  by (simp add: ptrs_read_def)

lemma push_arg_ok:
  assumes st: "stack_ok syms l ms lo hi m" and f: "sptr ms m = f" and r: "phys_ptrs r 8 = map f [slot..<slot + 8]"
    and n: "n = length bs + 1" and lay: "lo + n \<le> sp" "sp \<le> slot" "slot + 8 \<le> hi"
  obtains m' where "push_string (ms_token ms) (word_of_nat (sp - n)) bs (phys_store r (le_enc 8 (word_of_nat (sp - n) :: usize)) m) = Inr m'"
    and "stack_ok syms l ms lo hi m'" and "sptr ms m' = f"
    and "ptrs_read m' (map f [sp - n..<sp]) = bs @ [0]" and "ptrs_read m' (map f [slot..<slot + 8]) = le_enc 8 (word_of_nat (sp - n) :: usize)"
    and "\<forall>a \<in> {lo..<hi}. a < sp - n \<or> sp \<le> a \<and> a < slot \<or> slot + 8 \<le> a \<longrightarrow> ptr_read m' (f a) = ptr_read m (f a)"
    and "\<forall>p. p \<notin> f ` {lo..<hi} \<longrightarrow> ptr_read m' p = ptr_read m p"
proof -
  let ?sl = "[slot..<slot + 8]" and ?st = "[sp - n..<sp]" and ?v = "le_enc 8 (word_of_nat (sp - n) :: usize)"
  let ?m1 = "ptrs_write (map f ?sl) ?v m"
  let ?m2 = "ptrs_write (map f ?st) (bs @ [0]) ?m1"
  have sub: "set ?sl \<subseteq> {lo..<hi}" "set ?st \<subseteq> {lo..<hi}" using lay by auto
  have s1: "stack_ok syms l ms lo hi ?m1" "sptr ms ?m1 = f" using stack_write [OF st sub(1)] f by auto
  have s2: "stack_ok syms l ms lo hi ?m2" "sptr ms ?m2 = f" using stack_write [OF s1(1) sub(2)] s1(2) by auto
  have len: "length (bs @ [0]) = length ?st" "length ?v = length ?sl" using n lay by simp_all
  have w1: "phys_store r ?v m = ?m1" by (simp add: phys_store_ptrs r)
  have "push_string (ms_token ms) (word_of_nat (sp - n)) bs ?m1 = Inr ?m2"
    using push_string_ok [OF s1(1), of "sp - n" bs] lay n s1(2) by simp
  moreover have "ptrs_read ?m2 (map f ?st) = bs @ [0]"
    using stack_read_write(2) [OF s1(1) sub(2) len(1), of lo] s1(2) lay by simp
  moreover have keep: "ptr_read ?m2 (f a) = ptr_read ?m1 (f a)" if "a \<in> {lo..<hi}" "a \<notin> set ?st" for a
    using stack_read_write(1) [OF s1(1) sub(2) len(1) _ that(1)] that(2) s1(2) by simp
  have "ptrs_read ?m2 (map f ?sl) = ptrs_read ?m1 (map f ?sl)" by (rule ptrs_read_cong, rule keep) (use lay in auto)
  then have "ptrs_read ?m2 (map f ?sl) = ?v" using stack_read_write(2) [OF st sub(1) len(2), of slot] f lay by simp
  moreover have "ptr_read ?m2 (f a) = ptr_read m (f a)" if "a \<in> {lo..<hi}" "a < sp - n \<or> sp \<le> a \<and> a < slot \<or> slot + 8 \<le> a" for a
  proof -
    have "a \<notin> set ?st" "a \<notin> set ?sl" using that(2) lay by auto
    then show ?thesis using keep [OF that(1)] stack_read_write(1) [OF st sub(1) len(2) _ that(1)] f by simp
  qed
  moreover have "ptr_read ?m2 p = ptr_read m p" if "p \<notin> f ` {lo..<hi}" for p
    using stack_write_outside [OF s1(1) sub(2)] stack_write_outside [OF st sub(1)] that s1(2) f by simp
  ultimately show thesis using that [of ?m2] s2 w1 by simp
qed

lemma push_args_ok:
  assumes "stack_ok syms l ms lo hi m" and "sptr ms m = f" and "length args \<le> length refs"
    and "\<forall>j < length args. phys_ptrs (refs ! j) 8 = map f [slot + 8 * j..<slot + 8 * j + 8]"
    and "lo + total_len args \<le> sp" and "sp \<le> slot" and "slot + 8 * length args \<le> hi"
  shows "\<exists>m'. push_args (ms_token ms) refs args (word_of_nat sp) m = Inr (word_of_nat (sp - total_len args), m')
    \<and> stack_ok syms l ms lo hi m' \<and> sptr ms m' = f \<and> placed_args m' f slot sp args
    \<and> (\<forall>a \<in> {lo..<hi}. a < sp - total_len args \<or> sp \<le> a \<and> a < slot \<or> slot + 8 * length args \<le> a \<longrightarrow> ptr_read m' (f a) = ptr_read m (f a))
    \<and> (\<forall>p. p \<notin> f ` {lo..<hi} \<longrightarrow> ptr_read m' p = ptr_read m p)"
  using assms
proof (induction args arbitrary: refs slot sp m)
  case Nil
  then show ?case by (intro exI [of _ m]) (simp add: total_len_def)
next
  case (Cons x xs)
  then obtain r rs where rs: "refs = r # rs" by (cases refs) auto
  let ?n = "length (as_bytes x) + 1"
  have tot: "total_len (x # xs) = ?n + total_len xs" by (simp add: total_len_def)
  have "phys_ptrs (refs ! 0) 8 = map f [slot + 8 * 0..<slot + 8 * 0 + 8]" using Cons.prems(4) by blast
  then have r: "phys_ptrs r 8 = map f [slot..<slot + 8]" by (simp add: rs)
  have lay: "lo + ?n \<le> sp" "slot + 8 \<le> hi" using Cons.prems(5,7) tot by simp_all
  from push_arg_ok [OF Cons.prems(1,2) r refl lay(1) Cons.prems(6) lay(2)] obtain m1 where
    m1: "push_string (ms_token ms) (word_of_nat (sp - ?n)) (as_bytes x) (phys_store r (le_enc 8 (word_of_nat (sp - ?n) :: usize)) m) = Inr m1"
      "stack_ok syms l ms lo hi m1" "sptr ms m1 = f" "ptrs_read m1 (map f [sp - ?n..<sp]) = as_bytes x @ [0]"
      "ptrs_read m1 (map f [slot..<slot + 8]) = le_enc 8 (word_of_nat (sp - ?n) :: usize)"
      "\<forall>a \<in> {lo..<hi}. a < sp - ?n \<or> sp \<le> a \<and> a < slot \<or> slot + 8 \<le> a \<longrightarrow> ptr_read m1 (f a) = ptr_read m (f a)"
      "\<forall>p. p \<notin> f ` {lo..<hi} \<longrightarrow> ptr_read m1 p = ptr_read m p" .
  have refs': "\<forall>j < length xs. phys_ptrs (rs ! j) 8 = map f [(slot + 8) + 8 * j..<(slot + 8) + 8 * j + 8]"
  proof (intro allI impI)
    fix j assume "j < length xs"
    then have "phys_ptrs (refs ! Suc j) 8 = map f [slot + 8 * Suc j..<slot + 8 * Suc j + 8]" using Cons.prems(4) by (metis Suc_less_eq length_Cons)
    then show "phys_ptrs (rs ! j) 8 = map f [(slot + 8) + 8 * j..<(slot + 8) + 8 * j + 8]" by (simp add: rs ac_simps)
  qed
  have IH: "\<exists>m'. push_args (ms_token ms) rs xs (word_of_nat (sp - ?n)) m1 = Inr (word_of_nat (sp - ?n - total_len xs), m')
    \<and> stack_ok syms l ms lo hi m' \<and> sptr ms m' = f \<and> placed_args m' f (slot + 8) (sp - ?n) xs
    \<and> (\<forall>a \<in> {lo..<hi}. a < sp - ?n - total_len xs \<or> sp - ?n \<le> a \<and> a < slot + 8 \<or> slot + 8 + 8 * length xs \<le> a \<longrightarrow> ptr_read m' (f a) = ptr_read m1 (f a))
    \<and> (\<forall>p. p \<notin> f ` {lo..<hi} \<longrightarrow> ptr_read m' p = ptr_read m1 p)"
    by (rule Cons.IH [OF m1(2,3) _ refs']) (use Cons.prems(3,5,6,7) rs tot in simp_all)
  then obtain m' where m': "push_args (ms_token ms) rs xs (word_of_nat (sp - ?n)) m1 = Inr (word_of_nat (sp - ?n - total_len xs), m')"
      "stack_ok syms l ms lo hi m'" "sptr ms m' = f" "placed_args m' f (slot + 8) (sp - ?n) xs"
      "\<forall>a \<in> {lo..<hi}. a < sp - ?n - total_len xs \<or> sp - ?n \<le> a \<and> a < slot + 8 \<or> slot + 8 + 8 * length xs \<le> a \<longrightarrow> ptr_read m' (f a) = ptr_read m1 (f a)"
      "\<forall>p. p \<notin> f ` {lo..<hi} \<longrightarrow> ptr_read m' p = ptr_read m1 p"
    by blast
  have w: "word_of_nat sp - word_of_nat ?n = (word_of_nat (sp - ?n) :: usize)" using lay by (intro word_of_nat_diff) simp
  have "push_args (ms_token ms) refs (x # xs) (word_of_nat sp) m = Inr (word_of_nat (sp - total_len (x # xs)), m')"
    unfolding rs push_args.simps Let_def w m1(1) rbind_Inr m'(1) tot by (simp add: diff_diff_left)
  moreover have "ptrs_read m' (map f [sp - ?n..<sp]) = ptrs_read m1 (map f [sp - ?n..<sp])"
    "ptrs_read m' (map f [slot..<slot + 8]) = ptrs_read m1 (map f [slot..<slot + 8])"
    by (rule ptrs_read_cong; use m'(5) lay Cons.prems(6) in auto)+
  then have "placed_args m' f slot sp (x # xs)" using m1(4,5) m'(4) by (simp add: Let_def)
  moreover have "ptr_read m' (f a) = ptr_read m (f a)"
    if "a \<in> {lo..<hi}" "a < sp - total_len (x # xs) \<or> sp \<le> a \<and> a < slot \<or> slot + 8 * length (x # xs) \<le> a" for a
    using m'(5) m1(6) that tot Cons.prems(6) by auto
  moreover have "\<forall>p. p \<notin> f ` {lo..<hi} \<longrightarrow> ptr_read m' p = ptr_read m p" using m'(6) m1(7) by simp
  ultimately show ?case using m'(2,3) by blast
qed

section \<open>Reading them\<close>

lemma latin1_bytes:
  assumes "\<not> c < (128 :: u8)"
  shows "let a = 0xC0 OR drop_bit 6 c; b = 0x80 OR (c AND 0x3F) in 0xC2 \<le> a \<and> a \<le> 0xDF \<and> \<not> a < 0x80 \<and> utf8_cont b"
proof -
  have "\<forall>n \<in> set [128..<256]. let c = word_of_nat n :: u8; a = 0xC0 OR drop_bit 6 c; b = 0x80 OR (c AND 0x3F)
    in 0xC2 \<le> a \<and> a \<le> 0xDF \<and> \<not> a < 0x80 \<and> utf8_cont b" by code_simp
  moreover have "unat c \<in> set [128..<256]"
    unfolding set_upt using unsigned_less [of c, where 'a = nat] assms by (simp add: word_less_nat_alt)
  ultimately have "let c = word_of_nat (unat c) :: u8; a = 0xC0 OR drop_bit 6 c; b = 0x80 OR (c AND 0x3F)
    in 0xC2 \<le> a \<and> a \<le> 0xDF \<and> \<not> a < 0x80 \<and> utf8_cont b" by (rule bspec)
  then show ?thesis by (simp add: Let_def)
qed

lemma as_bytes_Cons:
  "as_bytes (c # cs) = (if c < 128 then [c] else [0xC0 OR drop_bit 6 c, 0x80 OR (c AND 0x3F)]) @ as_bytes cs"
  by (simp add: as_bytes_def)

lemma as_bytes_utf8: "utf8_ok (as_bytes cs)"
proof (induction cs)
  case Nil
  then show ?case by (simp add: as_bytes_def)
next
  case (Cons c cs)
  then show ?case using latin1_bytes [of c] by (auto simp: as_bytes_Cons Let_def)
qed

lemma as_bytes_nonzero: "0 \<notin> set cs \<Longrightarrow> 0 \<notin> set (as_bytes cs)"
proof (induction cs)
  case Nil
  then show ?case by (simp add: as_bytes_def)
next
  case (Cons c cs)
  then show ?case using latin1_bytes [of c] by (auto simp: as_bytes_Cons Let_def utf8_cont_def)
qed

text \<open>Loads of the program go through its page table.\<close>

definition mem_env :: "usize \<Rightarrow> machine user_env" where
  "mem_env token = \<lparr>ue_ecall = \<lambda>num args m. (0, m),
     ue_load = \<lambda>a n m. map (\<lambda>i. ptr_read m (the (user_ptr token m (a + word_of_nat i)))) [0..<n],
     ue_store = \<lambda>a bs m. ptrs_write (map (\<lambda>i. the (user_ptr token m (a + word_of_nat i))) [0..<length bs]) bs m\<rparr>"

lemma stack_load:
  assumes "stack_ok syms l ms lo hi m" and "lo \<le> a" and "a + n \<le> hi"
  shows "ue_load (mem_env (ms_token ms)) (word_of_nat a) n m = ptrs_read m (map (sptr ms m) [a..<a + n])"
proof -
  have "user_ptr (ms_token ms) m (word_of_nat a + word_of_nat i) = Some (sptr ms m (a + i))" if "i < n" for i
    using stack_ptr(1) [OF assms(1), of "a + i"] assms(2,3) that by simp
  then show ?thesis by (intro nth_equalityI) (simp_all add: mem_env_def ptrs_read_def)
qed

lemma arg_len_ok:
  assumes "\<forall>j < n. ue_load env (s + word_of_nat j) 1 m \<noteq> [0]" and "ue_load env (s + word_of_nat n) 1 m = [0]" and "i \<le> n"
  shows "arg_len env s i m = Some n"
  using assms
proof (induction "n - i" arbitrary: i)
  case 0
  then show ?case by (subst arg_len.simps) simp
next
  case (Suc d)
  then have "arg_len env s (i + 1) m = Some n" by simp
  then show ?case using Suc by (subst arg_len.simps) simp
qed

lemma read_arg:
  assumes st: "stack_ok syms l ms lo hi m" and lay: "lo \<le> a" "a + length bs < hi"
    and r: "ptrs_read m (map (sptr ms m) [a..<a + length bs + 1]) = bs @ [0]" and nz: "0 \<notin> set bs"
  shows "arg_len (mem_env (ms_token ms)) (word_of_nat a) 0 m = Some (length bs)"
    and "ue_load (mem_env (ms_token ms)) (word_of_nat a) (length bs) m = bs"
proof -
  let ?env = "mem_env (ms_token ms)"
  have b: "ue_load ?env (word_of_nat a + word_of_nat j) 1 m = [(bs @ [0]) ! j]" if "j \<le> length bs" for j
  proof -
    have "ptr_read m (sptr ms m (a + j)) = (bs @ [0]) ! j"
      using arg_cong [OF r, of "\<lambda>xs. xs ! j"] that by (simp add: ptrs_read_def del: upt_Suc)
    then show ?thesis using stack_load [OF st, of "a + j" 1] lay that by (simp add: ptrs_read_def)
  qed
  have "\<forall>j < length bs. ue_load ?env (word_of_nat a + word_of_nat j) 1 m \<noteq> [0]"
    using b nz by (auto simp: nth_append) (metis nth_mem)
  moreover have "ue_load ?env (word_of_nat a + word_of_nat (length bs)) 1 m = [0]" using b [of "length bs"] by simp
  ultimately show "arg_len ?env (word_of_nat a) 0 m = Some (length bs)" by (intro arg_len_ok) simp_all
  have "ptrs_read m (map (sptr ms m) [a..<a + length bs]) = bs"
    using r by (simp add: ptrs_read_def)
  then show "ue_load ?env (word_of_nat a) (length bs) m = bs" using stack_load [OF st lay(1), of "length bs"] lay by simp
qed

lemma start_args_ok:
  assumes st: "stack_ok syms l ms lo hi m" and "placed_args m (sptr ms m) (base + 8 * i) sp args"
    and "lo + total_len args \<le> sp" and "sp \<le> base" and "base + 8 * (i + length args) \<le> hi" and "\<forall>x \<in> set args. 0 \<notin> set x"
  shows "start_args (mem_env (ms_token ms)) (word_of_nat base) [i..<i + length args] m = kret (map as_bytes args)"
  using assms(2-)
proof (induction args arbitrary: i sp)
  case (Cons x xs)
  let ?n = "length (as_bytes x) + 1" and ?env = "mem_env (ms_token ms)"
  have tot: "total_len (x # xs) = ?n + total_len xs" by (simp add: total_len_def)
  have p: "ptrs_read m (map (sptr ms m) [sp - ?n..<sp]) = as_bytes x @ [0]"
    "ptrs_read m (map (sptr ms m) [base + 8 * i..<base + 8 * i + 8]) = le_enc 8 (word_of_nat (sp - ?n) :: usize)"
    "placed_args m (sptr ms m) (base + 8 * Suc i) (sp - ?n) xs"
    using Cons.prems(1) by (simp_all add: Let_def ac_simps)
  have slot: "ue_load ?env (word_of_nat (base + 8 * i)) 8 m = le_enc 8 (word_of_nat (sp - ?n) :: usize)"
    using stack_load [OF st, of "base + 8 * i" 8] p(2) Cons.prems(2-4) by simp
  have e: "sp - ?n + length (as_bytes x) + 1 = sp" using Cons.prems(2) tot by simp
  have arg: "arg_len ?env (word_of_nat (sp - ?n)) 0 m = Some (length (as_bytes x))"
    "ue_load ?env (word_of_nat (sp - ?n)) (length (as_bytes x)) m = as_bytes x"
    by (rule read_arg [OF st, of "sp - ?n" "as_bytes x"]; use Cons.prems tot p(1) e as_bytes_nonzero in simp)+
  have "start_args ?env (word_of_nat base) [Suc i..<Suc i + length xs] m = kret (map as_bytes xs)"
    by (rule Cons.IH [OF p(3)]) (use Cons.prems tot in simp_all)
  then show ?case
    using slot arg by (simp add: upt_conv_Cons as_bytes_utf8 le_dec_enc Let_def ac_simps del: upt_Suc)
qed simp

section \<open>The round trip\<close>

lemma argv_refs_ok:
  assumes st: "stack_ok syms l ms lo hi m" and "lo \<le> base" and "base + 8 * (i + n) \<le> hi" and "base mod 8 = 0"
  shows "\<exists>refs. argv_refs (ms_token ms) (word_of_nat base) [i..<i + n] m = Inr refs \<and> length refs = n
    \<and> (\<forall>j < n. phys_ptrs (refs ! j) 8 = map (sptr ms m) [base + 8 * (i + j)..<base + 8 * (i + j) + 8])"
  using assms(3)
proof (induction n arbitrary: i)
  case (Suc n)
  have "lo \<le> base + 8 * i" "base + 8 * i + 8 \<le> hi" "(base + 8 * i) mod 8 = 0" using assms Suc.prems by simp_all
  from stack_slot [OF st this] obtain pa where
    pa: "translated_refmut (ms_token ms) (word_of_nat (base + 8 * i)) m = Inr pa"
      "phys_ptrs (pa_val pa) 8 = map (sptr ms m) [base + 8 * i..<base + 8 * i + 8]" .
  from Suc.IH [of "Suc i"] Suc.prems obtain refs where
    r: "argv_refs (ms_token ms) (word_of_nat base) [Suc i..<Suc i + n] m = Inr refs" "length refs = n"
      "\<forall>j < n. phys_ptrs (refs ! j) 8 = map (sptr ms m) [base + 8 * (Suc i + j)..<base + 8 * (Suc i + j) + 8]" by auto
  have "argv_refs (ms_token ms) (word_of_nat base) [i..<i + Suc n] m = Inr (pa_val pa # refs)"
    using pa(1) r(1) by (simp add: upt_conv_Cons ac_simps del: upt_Suc)
  moreover have "phys_ptrs ((pa_val pa # refs) ! j) 8 = map (sptr ms m) [base + 8 * (i + j)..<base + 8 * (i + j) + 8]" if "j < Suc n" for j
    using that pa(2) r(3) by (cases j) auto
  ultimately show ?case using r(2) by (intro exI [of _ "pa_val pa # refs"]) auto
qed simp

lemma align8: "unat (w - w mod 8) mod 8 = 0 \<and> unat (w - w mod 8) \<le> unat w" for w :: usize
proof -
  have "w mod 8 \<le> w" by (simp add: word_le_nat_alt unat_mod)
  then have "unat (w - w mod 8) = unat w - unat w mod 8" by (simp add: unat_sub unat_mod)
  then show ?thesis by (metis diff_le_self dvd_minus_mod mod_0_imp_dvd mod_eq_0_iff_dvd)
qed

text \<open>
  C25. The arguments of a program survive \<^verbatim>\<open>exec\<close>. When the stack of the new address space
  is mapped and has room, and no argument contains a zero character, pushing the arguments succeeds; it
  writes only to the stack, the array of their addresses ends with a null pointer, the stack
  pointer is aligned to 8 bytes below them, and the start code of the program, which
  reads its memory through its page table, finds exactly the bytes of the
  arguments in their order.
\<close>

theorem argv_round_trip:
  assumes st: "stack_ok syms l ms lo (unat sp) m" and al: "unat sp mod 8 = 0"
    and room: "lo + total_len args + 8 * (length args + 1) \<le> unat sp" and nz: "\<forall>x \<in> set args. 0 \<notin> set x"
  shows "\<exists>base sp' m'. push_argv (ms_token ms) sp args m = Inr (base, sp', m')
    \<and> stack_ok syms l ms lo (unat sp) m'
    \<and> (\<forall>p. p \<notin> sptr ms m ` {lo..<unat sp} \<longrightarrow> ptr_read m' p = ptr_read m p)
    \<and> unat sp' mod 8 = 0 \<and> sp' \<le> base
    \<and> start_args (mem_env (ms_token ms)) base [0..<length args] m' = kret (map as_bytes args)
    \<and> ue_load (mem_env (ms_token ms)) (base + word_of_nat (length args) * 8) 8 m' = le_enc 8 (0 :: usize)"
proof -
  let ?n = "length args" and ?f = "sptr ms m"
  define B where "B = unat sp - 8 * (?n + 1)"
  have B: "B + 8 * ?n + 8 = unat sp" "lo + total_len args \<le> B" using room by (simp_all add: B_def)
  have B8: "B mod 8 = 0" using al B(1) by presburger
  have base: "sp - word_of_nat ((?n + 1) * 8) = word_of_nat B"
    using word_of_nat_diff [of "8 * (?n + 1)" "unat sp"] room by (simp add: B_def mult.commute)
  have lo: "lo \<le> B" "B + 8 * (0 + (?n + 1)) \<le> unat sp" using B by simp_all
  from argv_refs_ok [OF st lo B8] obtain refs where
    r: "argv_refs (ms_token ms) (word_of_nat B) [0..<?n + 1] m = Inr refs" "length refs = ?n + 1"
      "\<forall>j < ?n + 1. phys_ptrs (refs ! j) 8 = map ?f [B + 8 * (0 + j)..<B + 8 * (0 + j) + 8]" by auto
  let ?slot = "[B + 8 * ?n..<B + 8 * ?n + 8]"
  define m2 where "m2 = ptrs_write (map ?f ?slot) (le_enc 8 (0 :: usize)) m"
  have e: "set ?slot \<subseteq> {lo..<unat sp}" "length (le_enc 8 (0 :: usize)) = length ?slot" using B by auto
  have st2: "stack_ok syms l ms lo (unat sp) m2" "sptr ms m2 = ?f" unfolding m2_def using stack_write [OF st e(1)] by auto
  have w: "phys_store (refs ! ?n) (le_enc 8 (0 :: usize)) m = m2" using r(3) by (simp add: phys_store_ptrs m2_def)
  have "\<exists>m'. push_args (ms_token ms) refs args (word_of_nat B) m2 = Inr (word_of_nat (B - total_len args), m')
    \<and> stack_ok syms l ms lo (unat sp) m' \<and> sptr ms m' = ?f \<and> placed_args m' ?f B B args
    \<and> (\<forall>a \<in> {lo..<unat sp}. a < B - total_len args \<or> B \<le> a \<and> a < B \<or> B + 8 * ?n \<le> a \<longrightarrow> ptr_read m' (?f a) = ptr_read m2 (?f a))
    \<and> (\<forall>p. p \<notin> ?f ` {lo..<unat sp} \<longrightarrow> ptr_read m' p = ptr_read m2 p)"
    by (rule push_args_ok [OF st2]) (use r B in auto)
  then obtain m' where m': "push_args (ms_token ms) refs args (word_of_nat B) m2 = Inr (word_of_nat (B - total_len args), m')"
    "stack_ok syms l ms lo (unat sp) m'" "sptr ms m' = ?f" "placed_args m' ?f B B args"
    "\<forall>a \<in> {lo..<unat sp}. B + 8 * ?n \<le> a \<longrightarrow> ptr_read m' (?f a) = ptr_read m2 (?f a)"
    "\<forall>p. p \<notin> ?f ` {lo..<unat sp} \<longrightarrow> ptr_read m' p = ptr_read m2 p" by blast
  let ?w = "word_of_nat (B - total_len args) :: usize"
  have "push_argv (ms_token ms) sp args m = Inr (word_of_nat B, ?w - ?w mod 8, m')"
    unfolding push_argv_def Let_def base using r(1) w m'(1) by simp
  moreover have "\<forall>p. p \<notin> ?f ` {lo..<unat sp} \<longrightarrow> ptr_read m' p = ptr_read m p"
    using m'(6) stack_write_outside [OF st e(1)] by (simp add: m2_def)
  moreover have "start_args (mem_env (ms_token ms)) (word_of_nat B) [0..<0 + ?n] m' = kret (map as_bytes args)"
    by (rule start_args_ok [OF m'(2), of B 0 B]) (use m'(3,4) B nz in simp_all)
  moreover have "ptrs_read m' (map ?f ?slot) = ptrs_read m2 (map ?f ?slot)" by (rule ptrs_read_cong) (use m'(5) e(1) in auto)
  then have "ptrs_read m' (map ?f ?slot) = le_enc 8 (0 :: usize)"
    using stack_read_write(2) [OF st e, of "B + 8 * ?n"] B by (simp add: m2_def)
  then have "ue_load (mem_env (ms_token ms)) (word_of_nat B + word_of_nat ?n * 8) 8 m' = le_enc 8 (0 :: usize)"
    using stack_load [OF m'(2), of "B + 8 * ?n" 8] B m'(3) by (simp add: mult.commute)
  moreover have u: "unat ?w = B - total_len args" "unat (word_of_nat B :: usize) = B"
    by (rule unat_of_nat64, use B(1) unat64_less [of sp] in linarith)+
  have "unat (?w - ?w mod 8) mod 8 = 0" "?w - ?w mod 8 \<le> word_of_nat B"
    using align8 [of ?w] u unfolding word_le_nat_alt by linarith+
  ultimately show ?thesis using m'(2) by (intro exI [of _ "word_of_nat B"] exI [of _ "?w - ?w mod 8"] exI [of _ m']) simp
qed

theorem argv_round_trip_witness:
  "\<exists>ms m base sp m'. push_argv (ms_token ms) 0x11000 [[101, 99], [233]] m = Inr (base, sp, m')
    \<and> start_args (mem_env (ms_token ms)) base [0..<length [[101, 99], [233 :: u8]]] m' = kret [[101, 99], [0xC3, 0xA9]]"
proof -
  obtain ms m where s: "space_inv example_syms 1 (ms, m)" "space_pages ms = [VirtPageNum 16]" by (rule example_forkable)
  have "va_floor (VirtAddr (word_of_nat a)) = VirtPageNum 16" if "a \<in> {0x10000..<0x11000}" for a
  proof -
    have "unat (word_of_nat a :: usize) = a" using that by (intro unat_of_nat64) simp
    moreover have "a div 4096 = 16" using that by auto
    ultimately show ?thesis by (simp add: va_floor_def PAGE_SIZE_def word_unat_eq_iff unat_div)
  qed
  then have st: "stack_ok example_syms 1 ms 0x10000 (unat (0x11000 :: usize)) m" using s by (simp add: stack_ok_def)
  have b: "as_bytes [101, 99] = [101, 99]" "as_bytes [233] = [0xC3, 0xA9]" by (simp_all add: as_bytes_def)
  have h: "unat (0x11000 :: usize) mod 8 = 0" "0x10000 + total_len [[101, 99], [233]] + 8 * (length [[101, 99], [233 :: u8]] + 1) \<le> unat (0x11000 :: usize)"
    "\<forall>x \<in> set [[101, 99], [233]]. 0 \<notin> set (x :: u8 list)" by (simp_all add: total_len_def b)
  have "map as_bytes [[101, 99], [233]] = [[101, 99], [0xC3, 0xA9]]" using b by simp
  with argv_round_trip [OF st h] show ?thesis by (elim exE conjE) (intro exI conjI, assumption, simp only:)
qed

end
