(* ===== verification/Exit_Spec.thy ===== *)
theory Exit_Spec
  imports Scheduler Memory_Set_Spec Phys_Objects
begin

text \<open>
  The end of a process, from \<^verbatim>\<open>exit\<close> to the \<^verbatim>\<open>waitpid\<close> of its parent
  (\<^verbatim>\<open>os/src/task/mod.rs\<close>, \<^verbatim>\<open>os/src/syscall/process.rs\<close>).
\<close>

section \<open>Handing over the children\<close>

lemma task_at_frame: "task_at (k\<lparr>k_mach := m\<rparr>) u = task_at k u" "task_at (k\<lparr>k_proc := p\<rparr>) u = task_at k u"
  by (simp_all add: task_at_def)

lemma adopt_frame: "\<exists>ts. adopt i cs k = k\<lparr>k_tasks := ts\<rparr> \<and> length ts = length (k_tasks k)"
proof (induction i cs k rule: adopt.induct)
  case (1 i k)
  then show ?case by (intro exI [of _ "k_tasks k"]) simp
next
  case (2 i c cs k)
  then show ?case by (auto simp: upd_task_def)
qed

lemma adopt_task:
  assumes "distinct cs" and "i \<notin> set cs" and "set cs \<subseteq> {..<length (k_tasks k)}" and "i < length (k_tasks k)"
  shows "task_at (adopt i cs k) u =
    (if u = i then (task_at k i)\<lparr>children := children (task_at k i) @ cs\<rparr>
     else if u \<in> set cs then (task_at k u)\<lparr>tcb_parent := Some i, strong_count := strong_count (task_at k u) + 1\<rparr> else task_at k u)"
  using assms
proof (induction cs arbitrary: k)
  case (Cons c cs)
  let ?k = "upd_task i (\<lambda>i. i\<lparr>children := children i @ [c]\<rparr>) (upd_task c (\<lambda>c. c\<lparr>tcb_parent := Some i, strong_count := strong_count c + 1\<rparr>) k)"
  have "task_at (adopt i cs ?k) u =
    (if u = i then (task_at ?k i)\<lparr>children := children (task_at ?k i) @ cs\<rparr>
     else if u \<in> set cs then (task_at ?k u)\<lparr>tcb_parent := Some i, strong_count := strong_count (task_at ?k u) + 1\<rparr> else task_at ?k u)"
    by (rule Cons.IH) (use Cons.prems in auto)
  then show ?case using Cons.prems by (auto simp: task_at_upd)
qed simp

lemma drop_shared:
  assumes "distinct cs" and "\<forall>c \<in> set cs. c < length (k_tasks k) \<and> 2 \<le> strong_count (task_at k c)"
  obtains k' where "drop_tasks cs k = Inr k'" and "k' = k\<lparr>k_tasks := k_tasks k'\<rparr>" and "length (k_tasks k') = length (k_tasks k)"
    and "\<forall>u. task_at k' u = (if u \<in> set cs then (task_at k u)\<lparr>strong_count := strong_count (task_at k u) - 1\<rparr> else task_at k u)"
  using assms
proof (induction cs arbitrary: k thesis)
  case Nil
  then show ?case by (simp add: drop_tasks.simps)
next
  case (Cons c cs)
  let ?k = "upd_task c (\<lambda>c. c\<lparr>strong_count := strong_count c - 1\<rparr>) k"
  obtain k' where IH: "drop_tasks cs ?k = Inr k'" "k' = ?k\<lparr>k_tasks := k_tasks k'\<rparr>" "length (k_tasks k') = length (k_tasks ?k)"
    "\<forall>u. task_at k' u = (if u \<in> set cs then (task_at ?k u)\<lparr>strong_count := strong_count (task_at ?k u) - 1\<rparr> else task_at ?k u)"
    by (rule Cons.IH [of ?k]) (use Cons.prems in \<open>auto simp: task_at_upd\<close>)
  have "drop_tasks (c # cs) k = Inr k'" using IH(1) Cons.prems by (auto simp: drop_tasks.simps task_at_upd Let_def)
  moreover have "k' = k\<lparr>k_tasks := k_tasks k'\<rparr>" using IH(2) by (simp add: upd_task_def)
  ultimately show ?case using Cons.prems IH(3,4) by (intro Cons.prems(1) [of k']) (auto simp: task_at_upd)
qed

text \<open>The references that the initial process gets make up for those that the exiting process drops.\<close>

lemma hand_over_children:
  assumes cs: "distinct cs" "set cs \<subseteq> {..<length (k_tasks k)} - {t, i}" "\<forall>c \<in> set cs. 0 < strong_count (task_at k c)"
    and ti: "t \<noteq> i" "t < length (k_tasks k)" "i < length (k_tasks k)"
  obtains k' where "drop_tasks cs (upd_task t (\<lambda>c. c\<lparr>children := []\<rparr>) (adopt i cs k)) = Inr k'"
    and "k' = k\<lparr>k_tasks := k_tasks k'\<rparr>" and "length (k_tasks k') = length (k_tasks k)"
    and "\<forall>u. task_at k' u = (if u = t then (task_at k t)\<lparr>children := []\<rparr>
       else if u = i then (task_at k u)\<lparr>children := children (task_at k u) @ cs\<rparr>
       else if u \<in> set cs then (task_at k u)\<lparr>tcb_parent := Some i\<rparr> else task_at k u)"
proof -
  let ?k1 = "adopt i cs k"
  let ?k2 = "upd_task t (\<lambda>c. c\<lparr>children := []\<rparr>) ?k1"
  have a: "task_at ?k1 u = (if u = i then (task_at k i)\<lparr>children := children (task_at k i) @ cs\<rparr>
     else if u \<in> set cs then (task_at k u)\<lparr>tcb_parent := Some i, strong_count := strong_count (task_at k u) + 1\<rparr> else task_at k u)" for u
    by (rule adopt_task) (use cs ti in auto)
  obtain ts where f: "?k1 = k\<lparr>k_tasks := ts\<rparr>" "length ts = length (k_tasks k)" using adopt_frame by blast
  have l: "length (k_tasks ?k1) = length (k_tasks k)" by (simp add: f)
  have k2: "task_at ?k2 u = (if u = t then (task_at ?k1 t)\<lparr>children := []\<rparr> else task_at ?k1 u)" for u
    using ti l by (simp add: task_at_upd)
  have "\<forall>c \<in> set cs. c < length (k_tasks ?k2) \<and> 2 \<le> strong_count (task_at ?k2 c)"
  proof
    fix c assume c: "c \<in> set cs"
    then have "c \<noteq> t" "c \<noteq> i" "c < length (k_tasks k)" "0 < strong_count (task_at k c)" using cs(2,3) by auto
    then show "c < length (k_tasks ?k2) \<and> 2 \<le> strong_count (task_at ?k2 c)" using c l by (simp add: k2 a)
  qed
  from drop_shared [OF cs(1) this] obtain k' where
    d: "drop_tasks cs ?k2 = Inr k'" "k' = ?k2\<lparr>k_tasks := k_tasks k'\<rparr>" "length (k_tasks k') = length (k_tasks ?k2)"
    "\<forall>u. task_at k' u = (if u \<in> set cs then (task_at ?k2 u)\<lparr>strong_count := strong_count (task_at ?k2 u) - 1\<rparr> else task_at ?k2 u)"
    by blast
  have "k' = k\<lparr>k_tasks := k_tasks k'\<rparr>" using d(2) f(1) by (simp add: upd_task_def)
  moreover have "length (k_tasks k') = length (k_tasks k)" using d(3) f by simp
  moreover have "task_at k' u = (if u = t then (task_at k t)\<lparr>children := []\<rparr>
       else if u = i then (task_at k u)\<lparr>children := children (task_at k u) @ cs\<rparr>
       else if u \<in> set cs then (task_at k u)\<lparr>tcb_parent := Some i\<rparr> else task_at k u)" for u
    using cs(2) ti(1) by (auto simp: d(4) k2 a)
  ultimately show thesis using that d(1) by blast
qed

section \<open>Leaving the processor\<close>

text \<open>
  A process that can exit: it runs, it is not the initial process, the processor and its parent
  hold references to it, and its children are other processes with references.
\<close>

definition can_exit :: "linker_symbols \<Rightarrow> usize \<Rightarrow> nat \<Rightarrow> 'd kernel \<Rightarrow> bool" where
  "can_exit syms l t k \<longleftrightarrow> current k = Some t \<and> t < length (k_tasks k) \<and> 2 \<le> strong_count (task_at k t)
     \<and> k_initproc k < length (k_tasks k) \<and> tcb_pid (task_at k (k_initproc k)) \<noteq> tcb_pid (task_at k t)
     \<and> distinct (children (task_at k t)) \<and> set (children (task_at k t)) \<subseteq> {..<length (k_tasks k)} - {t, k_initproc k}
     \<and> (\<forall>c \<in> set (children (task_at k t)). 0 < strong_count (task_at k c))
     \<and> space_inv syms l (tcb_memory_set (task_at k t), k_mach k)"

definition exited :: "i32 \<Rightarrow> tcb \<Rightarrow> tcb" where
  "exited code c = c\<lparr>task_status := Zombie, exit_code := code, children := [], strong_count := strong_count c - 1,
     tcb_memory_set := (tcb_memory_set c)\<lparr>ms_areas := []\<rparr>\<rparr>"

lemma exit_current_ok:
  assumes "can_exit syms l t k"
  obtains k' where "exit_current code k = Inr k'" and "k' = k\<lparr>k_tasks := k_tasks k', k_mach := k_mach k', k_proc := \<lparr>proc_current = None\<rparr>\<rparr>"
    and "length (k_tasks k') = length (k_tasks k)"
    and "\<forall>u. task_at k' u = (if u = t then exited code (task_at k t)
       else if u = k_initproc k then (task_at k u)\<lparr>children := children (task_at k u) @ children (task_at k t)\<rparr>
       else if u \<in> set (children (task_at k t)) then (task_at k u)\<lparr>tcb_parent := Some (k_initproc k)\<rparr> else task_at k u)"
    and "fa_used l (frames (k_mach k')) = fa_used l (frames (k_mach k)) - set (space_frames (tcb_memory_set (task_at k t)))"
    and "phys (k_mach k') = phys (k_mach k)"
proof -
  let ?i = "k_initproc k" and ?cs = "children (task_at k t)" and ?ms = "tcb_memory_set (task_at k t)"
  note h = assms [unfolded can_exit_def]
  let ?k2 = "upd_task t (\<lambda>c. c\<lparr>task_status := Zombie, exit_code := code\<rparr>) (k\<lparr>k_proc := \<lparr>proc_current = None\<rparr>\<rparr>)"
  have ti: "t \<noteq> ?i" and ne: "tcb_pid (task_at k t) \<noteq> tcb_pid (task_at k ?i)" and cur: "current k = Some t" using h by auto
  have k2: "task_at ?k2 u = (if u = t then (task_at k t)\<lparr>task_status := Zombie, exit_code := code\<rparr> else task_at k u)" for u
    using h by (simp add: task_at_upd task_at_frame)
  obtain k5 where d: "drop_tasks ?cs (upd_task t (\<lambda>c. c\<lparr>children := []\<rparr>) (adopt ?i ?cs ?k2)) = Inr k5"
    "k5 = ?k2\<lparr>k_tasks := k_tasks k5\<rparr>" "length (k_tasks k5) = length (k_tasks ?k2)"
    "\<forall>u. task_at k5 u = (if u = t then (task_at ?k2 t)\<lparr>children := []\<rparr>
       else if u = ?i then (task_at ?k2 u)\<lparr>children := children (task_at ?k2 u) @ ?cs\<rparr>
       else if u \<in> set ?cs then (task_at ?k2 u)\<lparr>tcb_parent := Some ?i\<rparr> else task_at ?k2 u)"
    by (rule hand_over_children [of ?cs ?k2 t ?i]) (use h ti in \<open>auto simp: k2\<close>)
  have m5: "k_mach k5 = k_mach k" by (subst d(2)) simp
  have t5: "task_at k5 t = (task_at k t)\<lparr>task_status := Zombie, exit_code := code, children := []\<rparr>" by (simp add: d(4) k2)
  have "space_inv syms l (tcb_memory_set (task_at k5 t), k_mach k5)" using h by (simp add: t5 m5)
  from recycle_ok [OF this] obtain m where
    r: "recycle_data_pages (tcb_memory_set (task_at k5 t), k_mach k5) = Inr (?ms\<lparr>ms_areas := []\<rparr>, m)"
      "fa_used l (frames m) = fa_used l (frames (k_mach k)) - set (space_frames ?ms)" "phys m = phys (k_mach k)"
    unfolding t5 m5 by auto
  let ?k6 = "upd_task t (\<lambda>c. c\<lparr>tcb_memory_set := ?ms\<lparr>ms_areas := []\<rparr>\<rparr>) (k5\<lparr>k_mach := m\<rparr>)"
  let ?k7 = "upd_task t (\<lambda>c. c\<lparr>strong_count := strong_count c - 1\<rparr>) ?k6"
  have l: "length (k_tasks k5) = length (k_tasks k)" "t < length (k_tasks ?k6)" using d(3) h by simp_all
  have t6: "task_at ?k6 u = (if u = t then (task_at k5 t)\<lparr>tcb_memory_set := ?ms\<lparr>ms_areas := []\<rparr>\<rparr> else task_at k5 u)" for u
    using l by (simp add: task_at_upd task_at_frame)
  have "drop_tasks [t] ?k6 = Inr ?k7" using l h by (auto simp: drop_tasks.simps task_at_upd t6 t5 Let_def)
  then have e: "exit_current code k = Inr ?k7"
    using cur ne ti d(1) r(1) unfolding exit_current_def take_current_task_def current_task_def
    by (simp add: k2 Let_def)
  have f: "?k7 = k\<lparr>k_tasks := k_tasks ?k7, k_mach := k_mach ?k7, k_proc := \<lparr>proc_current = None\<rparr>\<rparr>"
    unfolding upd_task_def by (subst (1 2) d(2)) (simp add: upd_task_def)
  have "\<forall>u. task_at ?k7 u = (if u = t then exited code (task_at k t)
       else if u = ?i then (task_at k u)\<lparr>children := children (task_at k u) @ ?cs\<rparr>
       else if u \<in> set ?cs then (task_at k u)\<lparr>tcb_parent := Some ?i\<rparr> else task_at k u)"
    using l by (simp add: task_at_upd t6 t5 exited_def) (simp add: d(4) k2)
  from that [OF e f _ this] show thesis by (simp add: l r(2,3))
qed

section \<open>Waiting\<close>

lemma find_zombie_first:
  assumes "children (task_at k p) = cs1 @ c # cs2" and "is_zombie (task_at k c)" and "pid_matches pid k c"
    and "\<forall>d \<in> set cs1. \<not> is_zombie (task_at k d)"
  shows "find_zombie pid p k = Some (length cs1)" and "find (pid_matches pid k) (children (task_at k p)) \<noteq> None"
proof -
  show "find_zombie pid p k = Some (length cs1)"
    using assms by (auto simp: find_zombie_def find_Some_iff Let_def nth_append)
  show "find (pid_matches pid k) (children (task_at k p)) \<noteq> None"
    using assms(1,3) by (auto simp: find_None_iff)
qed

text \<open>A parent and the first of its children that is a zombie.\<close>

definition can_reap :: "isize \<Rightarrow> nat \<Rightarrow> nat list \<Rightarrow> nat \<Rightarrow> nat list \<Rightarrow> 'd kernel \<Rightarrow> bool" where
  "can_reap pid p cs1 c cs2 k \<longleftrightarrow> current k = Some p \<and> p < length (k_tasks k) \<and> p \<noteq> c \<and> children (task_at k p) = cs1 @ c # cs2
     \<and> (\<forall>d \<in> set cs1. \<not> is_zombie (task_at k d)) \<and> (pid = - 1 \<or> pid = tcb_pid (task_at k c)) \<and> strong_count (task_at k c) \<in> {1, 2}"

lemma waitpid_reaps:
  assumes h: "can_reap pid p cs1 c cs2 k" and z: "is_zombie (task_at k c)"
  defines "tok \<equiv> get_user_token (task_at k p)" and "k' \<equiv> upd_task p (\<lambda>i. i\<lparr>children := cs1 @ cs2\<rparr>) k"
  shows "virtual_addr_writable tok ptr (k_mach k) \<Longrightarrow> translated_refmut tok ptr (k_mach k) = Inr pa \<Longrightarrow>
      sys_waitpid_non_blocking pid ptr k =
        kbind (Some (drop_tasks [c] (k'\<lparr>k_mach := phys_store (pa_val pa) (le_enc 4 (exit_code (task_at k c))) (k_mach k)\<rparr>)))
          (ret (tcb_pid (task_at k c)))"
    and "\<not> virtual_addr_writable tok ptr (k_mach k) \<Longrightarrow>
      sys_waitpid_non_blocking pid ptr k = kbind (Some (drop_tasks [c] k')) (ret (- 1))"
proof -
  have c: "current_task k = Inr p" and ch: "children (task_at k p) = cs1 @ c # cs2" and n: "strong_count (task_at k c) \<in> {1, 2}"
    using h by (auto simp: can_reap_def current_task_def)
  have "pid_matches pid k c" using h by (auto simp: can_reap_def pid_matches_def)
  then have f: "find_zombie pid p k = Some (length cs1)" "find (pid_matches pid k) (children (task_at k p)) \<noteq> None"
    using find_zombie_first [OF ch z] h by (auto simp: can_reap_def)
  have u: "upd_task p (\<lambda>i. i\<lparr>children := remove_nth (length cs1) (children i)\<rparr>) k = k'"
    using ch by (simp add: k'_def upd_task_def task_at_def remove_nth_def)
  have t: "task_at k' c = task_at k c" "get_user_token (task_at k' p) = tok" "k_mach k' = k_mach k"
    using h by (simp_all add: k'_def tok_def task_at_upd can_reap_def get_user_token_def)
  have w: "sys_waitpid_non_blocking pid ptr k = lift_sys (reap (\<lambda>n. n = 1 \<or> n = 2) p (length cs1) ptr k)"
    using c f by (auto simp: sys_waitpid_non_blocking_def)
  have l: "lift_sys (rbind (x :: 'd kernel res) (\<lambda>k2. Inr (v, k2))) = kbind (Some x) (ret v)" for x v
    by (cases x) (simp_all add: lift_sys_def)
  show "sys_waitpid_non_blocking pid ptr k =
        kbind (Some (drop_tasks [c] (k'\<lparr>k_mach := phys_store (pa_val pa) (le_enc 4 (exit_code (task_at k c))) (k_mach k)\<rparr>)))
          (ret (tcb_pid (task_at k c)))"
    if "virtual_addr_writable tok ptr (k_mach k)" "translated_refmut tok ptr (k_mach k) = Inr pa"
    using that n unfolding w reap_def ch nth_append_length Let_def u t by (simp add: user_store_def l)
  show "sys_waitpid_non_blocking pid ptr k = kbind (Some (drop_tasks [c] k')) (ret (- 1))"
    if "\<not> virtual_addr_writable tok ptr (k_mach k)"
    using that n unfolding w reap_def ch nth_append_length Let_def u t by (simp add: l)
qed

text \<open>
  C24. The exit code of a process reaches its parent. \<^verbatim>\<open>exit_current\<close> succeeds: the process
  becomes a zombie with the exit code and without children, its children become children of
  the initial process, exactly the frames of its areas are given back and memory is not
  written. In every later state in which the parent runs, the zombie is as it was left and no zombie stands
  before it, \<^verbatim>\<open>waitpid\<close> with its identifier or -1 takes it off the list of
  children, drops the reference and returns the identifier, with the exit code stored at the address given;
  if the address is not writable the result is -1 and the exit code is lost.
\<close>

theorem exit_code_reaches_parent:
  fixes k :: "'d kernel"
  assumes h: "can_exit syms l t k"
  shows "\<exists>k1. exit_current code k = Inr k1
    \<and> k1 = k\<lparr>k_tasks := k_tasks k1, k_mach := k_mach k1, k_proc := \<lparr>proc_current = None\<rparr>\<rparr> \<and> length (k_tasks k1) = length (k_tasks k)
    \<and> (\<forall>u. task_at k1 u = (if u = t then exited code (task_at k t)
         else if u = k_initproc k then (task_at k u)\<lparr>children := children (task_at k u) @ children (task_at k t)\<rparr>
         else if u \<in> set (children (task_at k t)) then (task_at k u)\<lparr>tcb_parent := Some (k_initproc k)\<rparr> else task_at k u))
    \<and> fa_used l (frames (k_mach k1)) = fa_used l (frames (k_mach k)) - set (space_frames (tcb_memory_set (task_at k t)))
    \<and> phys (k_mach k1) = phys (k_mach k)
    \<and> (\<forall>pid p cs1 cs2 ptr (k2 :: 'd kernel). can_reap pid p cs1 t cs2 k2 \<and> task_at k2 t = task_at k1 t \<longrightarrow>
         (let tok = get_user_token (task_at k2 p); k3 = upd_task p (\<lambda>i. i\<lparr>children := cs1 @ cs2\<rparr>) k2 in
          if virtual_addr_writable tok ptr (k_mach k2) then
            (\<forall>pa. mem_ok (k_mach k2) \<and> translated_refmut tok ptr (k_mach k2) = Inr pa \<longrightarrow>
              (\<exists>m. sys_waitpid_non_blocking pid ptr k2 = kbind (Some (drop_tasks [t] (k3\<lparr>k_mach := m\<rparr>))) (ret (tcb_pid (task_at k t)))
                \<and> le_dec (phys_load (pa_val pa) 4 m) = code))
          else sys_waitpid_non_blocking pid ptr k2 = kbind (Some (drop_tasks [t] k3)) (ret (- 1))))"
proof -
  from exit_current_ok [OF h, of code] obtain k1 where
    k1: "exit_current code k = Inr k1" "k1 = k\<lparr>k_tasks := k_tasks k1, k_mach := k_mach k1, k_proc := \<lparr>proc_current = None\<rparr>\<rparr>"
      "length (k_tasks k1) = length (k_tasks k)"
      "\<forall>u. task_at k1 u = (if u = t then exited code (task_at k t)
         else if u = k_initproc k then (task_at k u)\<lparr>children := children (task_at k u) @ children (task_at k t)\<rparr>
         else if u \<in> set (children (task_at k t)) then (task_at k u)\<lparr>tcb_parent := Some (k_initproc k)\<rparr> else task_at k u)"
      "fa_used l (frames (k_mach k1)) = fa_used l (frames (k_mach k)) - set (space_frames (tcb_memory_set (task_at k t)))"
      "phys (k_mach k1) = phys (k_mach k)" .
  have t1: "is_zombie (task_at k1 t)" "exit_code (task_at k1 t) = code" "tcb_pid (task_at k1 t) = tcb_pid (task_at k t)"
    by (simp_all add: k1(4) exited_def is_zombie_def)
  have "let tok = get_user_token (task_at k2 p); k3 = upd_task p (\<lambda>i. i\<lparr>children := cs1 @ cs2\<rparr>) k2 in
          if virtual_addr_writable tok ptr (k_mach k2) then
            (\<forall>pa. mem_ok (k_mach k2) \<and> translated_refmut tok ptr (k_mach k2) = Inr pa \<longrightarrow>
              (\<exists>m. sys_waitpid_non_blocking pid ptr k2 = kbind (Some (drop_tasks [t] (k3\<lparr>k_mach := m\<rparr>))) (ret (tcb_pid (task_at k t)))
                \<and> le_dec (phys_load (pa_val pa) 4 m) = code))
          else sys_waitpid_non_blocking pid ptr k2 = kbind (Some (drop_tasks [t] k3)) (ret (- 1))"
    if r: "can_reap pid p cs1 t cs2 k2" and e: "task_at k2 t = task_at k1 t" for pid p cs1 cs2 ptr and k2 :: "'d kernel"
  proof -
    have z: "is_zombie (task_at k2 t)" using t1(1) e by simp
    have "le_dec (phys_load (pa_val pa) 4 (phys_store (pa_val pa) (le_enc 4 code) (k_mach k2))) = code" if "mem_ok (k_mach k2)" for pa
      using phys_load_store [OF that, of "le_enc 4 code" "pa_val pa"] by (simp add: le_dec_enc)
    then show ?thesis using waitpid_reaps [OF r z] t1 e by (auto simp: Let_def)
  qed
  with k1 show ?thesis by (intro exI [of _ k1] conjI) blast+
qed

text \<open>The initial process 0, its child 1, which runs, and the child 2 of that one.\<close>

definition family_kernel :: "memory_set \<Rightarrow> machine \<Rightarrow> u8 list kernel" where
  "family_kernel ms m = example_kernel\<lparr>k_mach := m, k_proc := \<lparr>proc_current = Some 1\<rparr>, k_manager := \<lparr>ready_queue = [0, 2]\<rparr>,
     k_tasks := [(example_tcb 0 Ready)\<lparr>children := [1]\<rparr>,
       (example_tcb 1 RunningTask)\<lparr>strong_count := 2, tcb_memory_set := ms, tcb_parent := Some 0, children := [2]\<rparr>,
       (example_tcb 2 Ready)\<lparr>tcb_parent := Some 1\<rparr>]\<rparr>"

text \<open>Page 5 of the parent is writable, and the address \<open>0x5010\<close> is in it.\<close>

lemma parent_page:
  obtains pt m pa where "mem_ok m" and "virtual_addr_writable (pt_token pt) 0x5010 m" and "translated_refmut (pt_token pt) 0x5010 m = Inr pa"
proof -
  obtain pt0 m0 where inv0: "pt_inv 1 (pt0, m0)" and "pt_view (pt0, m0) = (\<lambda>_. None)" and free: "2 \<le> fa_free_count (frames m0)"
    by (rule zero_machine_table)
  then have "pt_view (pt0, m0) (VirtPageNum 5) = None" by simp
  from pt_map_ok [OF inv0 this free, of "PhysPageNum 7" "PTE_R OR PTE_W"] obtain pt m where
    "pt_changes 1 (VirtPageNum 5) (Some (pte_new (PhysPageNum 7) (PTE_R OR PTE_W OR PTE_V))) (pt0, m0) (pt, m)"
    by (auto simp: or.assoc)
  then have v: "pt_view (pt, m) (VirtPageNum 5) = Some (pte_new (PhysPageNum 7) (PTE_R OR PTE_W OR PTE_V))" and inv: "pt_inv 1 (pt, m)"
    by (auto simp: pt_changes_def)
  have f: "va_floor (VirtAddr 0x5010) = VirtPageNum 5" by (simp add: va_floor_def PAGE_SIZE_def)
  note tr = pt_view_translate [OF inv v] find_pte_token [OF pt_root_bound [OF inv], of "VirtPageNum 5" m]
  have "virtual_addr_writable (pt_token pt) 0x5010 m"
    using tr by (auto simp: virtual_addr_writable_def pt_translate_pte_def pt_translate_def f pte_is_valid_def pte_readable_def
        pte_writable_def pte_flags_new PTE_R_def PTE_W_def PTE_V_def config_defs)
  moreover obtain pa where "translated_refmut (pt_token pt) 0x5010 m = Inr pa"
    using tr by (auto simp: translated_refmut_def unwrapE_def pt_translate_va_def pt_translate_def f)
  ultimately show thesis using that inv by (auto simp: pt_inv_def)
qed

text \<open>The kernel after the exit, with the parent running in this address space.\<close>

definition parent_runs :: "page_table \<Rightarrow> machine \<Rightarrow> u8 list kernel \<Rightarrow> u8 list kernel" where
  "parent_runs pt m k = (upd_task 0 (\<lambda>c. c\<lparr>tcb_memory_set := \<lparr>ms_page_table = pt, ms_areas = []\<rparr>\<rparr>) k)
     \<lparr>k_proc := \<lparr>proc_current = Some 0\<rparr>, k_mach := m\<rparr>"

theorem exit_code_reaches_parent_witness:
  "\<exists>ms m k1. exit_current 7 (family_kernel ms m) = Inr k1 \<and> exit_code (task_at k1 1) = 7 \<and> children (task_at k1 0) = [1, 2]
    \<and> tcb_parent (task_at k1 2) = Some 0
    \<and> sys_waitpid_non_blocking (- 1) TRAP_CONTEXT (k1\<lparr>k_proc := \<lparr>proc_current = Some 0\<rparr>\<rparr>)
        = kbind (Some (drop_tasks [1] (upd_task 0 (\<lambda>i. i\<lparr>children := [2]\<rparr>) (k1\<lparr>k_proc := \<lparr>proc_current = Some 0\<rparr>\<rparr>)))) (ret (- 1))
    \<and> (\<exists>pt m2 pa m3. translated_refmut (pt_token pt) 0x5010 m2 = Inr pa
        \<and> sys_waitpid_non_blocking 1 0x5010 (parent_runs pt m2 k1)
            = kbind (Some (drop_tasks [1] ((upd_task 0 (\<lambda>i. i\<lparr>children := [2]\<rparr>) (parent_runs pt m2 k1))\<lparr>k_mach := m3\<rparr>))) (ret 1)
        \<and> le_dec (phys_load (pa_val pa) 4 m3) = (7 :: i32))"
proof -
  obtain ms m where s: "space_inv example_syms 1 (ms, m)" by (rule example_forkable)
  let ?k = "family_kernel ms m"
  have t: "task_at ?k 0 = (example_tcb 0 Ready)\<lparr>children := [1]\<rparr>" "task_at ?k 2 = (example_tcb 2 Ready)\<lparr>tcb_parent := Some 1\<rparr>"
    "task_at ?k 1 = (example_tcb 1 RunningTask)\<lparr>strong_count := 2, tcb_memory_set := ms, tcb_parent := Some 0, children := [2]\<rparr>"
    "length (k_tasks ?k) = 3" "k_initproc ?k = 0" "current ?k = Some 1" "k_mach ?k = m"
    by (simp_all add: task_at_def family_kernel_def example_kernel_def)
  have "can_exit example_syms 1 1 ?k" using s by (simp add: can_exit_def t example_tcb_def del: One_nat_def)
  from exit_code_reaches_parent [OF this, of 7] obtain k1 where
    k1: "exit_current 7 ?k = Inr k1" "length (k_tasks k1) = length (k_tasks ?k)"
    and u: "\<forall>u. task_at k1 u = (if u = 1 then exited 7 (task_at ?k 1)
         else if u = k_initproc ?k then (task_at ?k u)\<lparr>children := children (task_at ?k u) @ children (task_at ?k 1)\<rparr>
         else if u \<in> set (children (task_at ?k 1)) then (task_at ?k u)\<lparr>tcb_parent := Some (k_initproc ?k)\<rparr> else task_at ?k u)"
    and w: "\<forall>pid p cs1 cs2 ptr (k2 :: u8 list kernel). can_reap pid p cs1 1 cs2 k2 \<and> task_at k2 1 = task_at k1 1 \<longrightarrow>
         (let tok = get_user_token (task_at k2 p); k3 = upd_task p (\<lambda>i. i\<lparr>children := cs1 @ cs2\<rparr>) k2 in
          if virtual_addr_writable tok ptr (k_mach k2) then
            (\<forall>pa. mem_ok (k_mach k2) \<and> translated_refmut tok ptr (k_mach k2) = Inr pa \<longrightarrow>
              (\<exists>m. sys_waitpid_non_blocking pid ptr k2 = kbind (Some (drop_tasks [1] (k3\<lparr>k_mach := m\<rparr>))) (ret (tcb_pid (task_at ?k 1)))
                \<and> le_dec (phys_load (pa_val pa) 4 m) = (7 :: i32)))
          else sys_waitpid_non_blocking pid ptr k2 = kbind (Some (drop_tasks [1] k3)) (ret (- 1)))"
    by (elim exE conjE) (rule that)
  let ?k2 = "k1\<lparr>k_proc := \<lparr>proc_current = Some 0\<rparr>\<rparr>"
  have r: "can_reap (- 1) 0 [] 1 [2] ?k2"
    using k1(2) by (simp add: can_reap_def task_at_frame u t exited_def example_tcb_def del: One_nat_def)
  have "\<not> virtual_addr_writable tok TRAP_CONTEXT (k_mach ?k2)" for tok by (simp add: virtual_addr_writable_def)
  with r w [THEN spec [of _ "- 1"], THEN spec [of _ 0], THEN spec [of _ "[]"], THEN spec [of _ "[2]"], THEN spec [of _ TRAP_CONTEXT], THEN spec [of _ ?k2]]
  have "sys_waitpid_non_blocking (- 1) TRAP_CONTEXT ?k2 = kbind (Some (drop_tasks [1] (upd_task 0 (\<lambda>i. i\<lparr>children := [2]\<rparr>) ?k2))) (ret (- 1))"
    by (simp add: Let_def task_at_frame del: One_nat_def)
  moreover have "exit_code (task_at k1 1) = 7" "children (task_at k1 0) = [1, 2]" "tcb_parent (task_at k1 2) = Some 0"
    by (simp_all add: u t exited_def del: One_nat_def)
  moreover obtain pt m2 pa where pg: "mem_ok m2" "virtual_addr_writable (pt_token pt) 0x5010 m2" "translated_refmut (pt_token pt) 0x5010 m2 = Inr pa"
    by (rule parent_page)
  have p2: "task_at (parent_runs pt m2 k1) v = (if v = 0 then (task_at k1 0)\<lparr>tcb_memory_set := \<lparr>ms_page_table = pt, ms_areas = []\<rparr>\<rparr> else task_at k1 v)" for v
    using k1(2) by (simp add: parent_runs_def task_at_frame task_at_upd t)
  have ne: "k_tasks k1 \<noteq> []" using k1(2) t(4) by auto
  have r2: "can_reap 1 0 [] 1 [2] (parent_runs pt m2 k1)" "k_mach (parent_runs pt m2 k1) = m2" "task_at (parent_runs pt m2 k1) 1 = task_at k1 1"
      "get_user_token (task_at (parent_runs pt m2 k1) 0) = pt_token pt" "tcb_pid (task_at ?k 1) = 1"
    using k1(2) by (simp_all add: can_reap_def p2 u t exited_def example_tcb_def get_user_token_def ms_token_def del: One_nat_def)
      (simp_all add: parent_runs_def upd_task_def ne)
  from w [THEN spec [of _ 1], THEN spec [of _ 0], THEN spec [of _ "[]"], THEN spec [of _ "[2]"], THEN spec [of _ "0x5010"], THEN spec [of _ "parent_runs pt m2 k1"]]
  obtain m3 where "sys_waitpid_non_blocking 1 0x5010 (parent_runs pt m2 k1)
      = kbind (Some (drop_tasks [1] ((upd_task 0 (\<lambda>i. i\<lparr>children := [2]\<rparr>) (parent_runs pt m2 k1))\<lparr>k_mach := m3\<rparr>))) (ret 1)"
    "le_dec (phys_load (pa_val pa) 4 m3) = (7 :: i32)"
    using r2 pg by (auto simp: Let_def simp del: One_nat_def)
  with pg(3) have "\<exists>pt m2 pa m3. translated_refmut (pt_token pt) 0x5010 m2 = Inr pa
      \<and> sys_waitpid_non_blocking 1 0x5010 (parent_runs pt m2 k1)
          = kbind (Some (drop_tasks [1] ((upd_task 0 (\<lambda>i. i\<lparr>children := [2]\<rparr>) (parent_runs pt m2 k1))\<lparr>k_mach := m3\<rparr>))) (ret 1)
      \<and> le_dec (phys_load (pa_val pa) 4 m3) = (7 :: i32)" by blast
  ultimately show ?thesis using k1(1) by blast
qed

end
