(* ===== verification/User_Shell.thy ===== *)
theory User_Shell
  imports User_Runtime
begin

text \<open>
  The command line of the user shell (\<^verbatim>\<open>user/src/bin/ch7_usershell.rs\<close>): editing a line and splitting it
  into words, redirections and arguments. A line is the list of its characters, which
  are single bytes read from the keyboard.
\<close>

section \<open>Editing\<close>

definition LF :: u8 where "LF = 0x0a"
definition CR :: u8 where "CR = 0x0d"
definition DL :: u8 where "DL = 0x7f"
definition BS :: u8 where "BS = 0x08"

text \<open>What a key other than the end of the line prints, and the new line.\<close>

definition shell_key :: "u8 \<Rightarrow> u8 list \<Rightarrow> u8 list list \<times> u8 list" where
  "shell_key c line =
     (if c = BS \<or> c = DL then (if line \<noteq> [] then ([[BS], [32], [BS]], butlast line) else ([], line))
      else ([[c]], line @ [c]))"

section \<open>Words and redirections\<close>

text \<open>\<^verbatim>\<open>str::split\<close>: the parts between the separators, empty ones too.\<close>

fun split_on :: "u8 \<Rightarrow> u8 list \<Rightarrow> u8 list list" where
  "split_on s [] = [[]]"
| "split_on s (c # cs) =
     (if c = s then [] # split_on s cs
      else case split_on s cs of [] \<Rightarrow> [[c]] | w # ws \<Rightarrow> (c # w) # ws)"

definition shell_words :: "u8 list \<Rightarrow> u8 list list" where
  "shell_words line = map (\<lambda>arg. arg @ [0]) (split_on 32 line)"

text \<open>The file behind the first redirection sign, and the words without both.\<close>

definition shell_redirect :: "u8 \<Rightarrow> u8 list list \<Rightarrow> (u8 list \<times> u8 list list) res" where
  "shell_redirect sign args =
     (case find (\<lambda>idx. args ! idx = [sign, 0]) [0..<length args] of
        Some idx \<Rightarrow> rbind (indexE args (idx + 1)) (\<lambda>name. Inr (name, take idx args @ drop (idx + 2) args))
      | None \<Rightarrow> Inr ([], args))"

definition shell_parse :: "u8 list \<Rightarrow> (u8 list \<times> u8 list \<times> u8 list list) res" where
  "shell_parse line =
     rbind (shell_redirect 60 (shell_words line)) (\<lambda>(input, args1).
     rbind (shell_redirect 62 args1) (\<lambda>(output, args2).
     Inr (input, output, args2)))"

section \<open>Parsing what was typed\<close>

fun join_words :: "u8 list list \<Rightarrow> u8 list" where
  "join_words [] = []"
| "join_words [w] = w"
| "join_words (w # ws) = w @ 32 # join_words ws"

lemma split_on_word: "s \<notin> set w \<Longrightarrow> split_on s w = [w]"
  by (induction w) auto

lemma split_on_append: "s \<notin> set w \<Longrightarrow> split_on s (w @ s # cs) = w # split_on s cs"
  by (induction w) auto

lemma split_join: "ws \<noteq> [] \<Longrightarrow> \<forall>w \<in> set ws. 32 \<notin> set w \<Longrightarrow> split_on 32 (join_words ws) = ws"
  by (induction ws rule: join_words.induct) (auto simp: split_on_word split_on_append)

lemma redirect_none:
  assumes "[sign] \<notin> set ws"
  shows "shell_redirect sign (map (\<lambda>w. w @ [0]) ws) = Inr ([], map (\<lambda>w. w @ [0]) ws)"
proof -
  have "map (\<lambda>w. w @ [0]) ws ! i \<noteq> [sign, 0]" if "i < length ws" for i
  proof -
    have "ws ! i \<noteq> [sign]" using assms nth_mem [OF that] by metis
    then show ?thesis using that by (simp add: append_eq_Cons_conv)
  qed
  then have "find (\<lambda>idx. map (\<lambda>w. w @ [0]) ws ! idx = [sign, 0]) [0..<length (map (\<lambda>w. w @ [0]) ws)] = None"
    unfolding find_None_iff by auto
  then show ?thesis unfolding shell_redirect_def by simp
qed

lemma redirect_some:
  assumes "[sign] \<notin> set ws"
  shows "shell_redirect sign (map (\<lambda>w. w @ [0]) (ws @ [sign] # f # vs)) = Inr (f @ [0], map (\<lambda>w. w @ [0]) (ws @ vs))"
    and "shell_redirect sign (map (\<lambda>w. w @ [0]) (ws @ [[sign]])) = Inl IndexOutOfBounds"
proof -
  have before: "map (\<lambda>w. w @ [0]) (ws @ us) ! i \<noteq> [sign, 0]" if "i < length ws" for i us
  proof -
    have "ws ! i \<noteq> [sign]" using assms nth_mem [OF that] by metis
    then show ?thesis using that by (simp add: nth_append append_eq_Cons_conv)
  qed
  have found: "find (\<lambda>idx. map (\<lambda>w. w @ [0]) (ws @ [sign] # us) ! idx = [sign, 0]) [0..<length (map (\<lambda>w. w @ [0]) (ws @ [sign] # us))] = Some (length ws)" for us
    unfolding find_Some_iff using before by (intro exI [of _ "length ws"]) (auto simp: nth_append)
  show "shell_redirect sign (map (\<lambda>w. w @ [0]) (ws @ [sign] # f # vs)) = Inr (f @ [0], map (\<lambda>w. w @ [0]) (ws @ vs))"
    unfolding shell_redirect_def found by (simp add: indexE_def nth_append)
  show "shell_redirect sign (map (\<lambda>w. w @ [0]) (ws @ [[sign]])) = Inl IndexOutOfBounds"
    unfolding shell_redirect_def found by (simp add: indexE_def)
qed

text \<open>
  A command with an input and an output file is taken apart as it was put together, and a line that
  ends with a sign of redirection makes the shell panic.
\<close>

theorem shell_parse_command:
  assumes "ws \<noteq> []" and "\<forall>w \<in> set (ws @ [f, g]). 32 \<notin> set w \<and> w \<noteq> [60] \<and> w \<noteq> [62]"
  defines "zt \<equiv> map (\<lambda>w. w @ [0])"
  shows "shell_parse (join_words ws) = Inr ([], [], zt ws)"
    and "shell_parse (join_words (ws @ [[60], f])) = Inr (f @ [0], [], zt ws)"
    and "shell_parse (join_words (ws @ [[62], g])) = Inr ([], g @ [0], zt ws)"
    and "shell_parse (join_words (ws @ [[60], f, [62], g])) = Inr (f @ [0], g @ [0], zt ws)"
    and "shell_parse (join_words (ws @ [[60]])) = Inl IndexOutOfBounds"
    and "shell_parse (join_words (ws @ [[62]])) = Inl IndexOutOfBounds"
proof -
  have n: "[60] \<notin> set ws" "[62] \<notin> set ws" using assms(2) by auto
  have w: "shell_words (join_words (ws @ us)) = zt (ws @ us)" if "set us \<subseteq> {[60], [62], f, g}" for us
    unfolding shell_words_def zt_def using assms(1,2) that by (subst split_join) auto
  note r = redirect_none redirect_some
  have n2: "[60] \<notin> set (ws @ [[62], g])" "[60] \<notin> set (ws @ [[62]])" using n assms(2) by auto
  show "shell_parse (join_words ws) = Inr ([], [], zt ws)"
    using w [of "[]"] n by (simp add: shell_parse_def zt_def r)
  show "shell_parse (join_words (ws @ [[60], f])) = Inr (f @ [0], [], zt ws)"
    unfolding shell_parse_def w [of "[[60], f]", simplified] zt_def using redirect_some(1) [OF n(1), of f "[]"] redirect_none [OF n(2)] by simp
  show "shell_parse (join_words (ws @ [[62], g])) = Inr ([], g @ [0], zt ws)"
    unfolding shell_parse_def w [of "[[62], g]", simplified] zt_def using redirect_none [OF n2(1)] redirect_some(1) [OF n(2), of g "[]"] by simp
  show "shell_parse (join_words (ws @ [[60], f, [62], g])) = Inr (f @ [0], g @ [0], zt ws)"
    unfolding shell_parse_def w [of "[[60], f, [62], g]", simplified] zt_def
    using redirect_some(1) [OF n(1), of f "[[62], g]"] redirect_some(1) [OF n(2), of g "[]"] by simp
  show "shell_parse (join_words (ws @ [[60]])) = Inl IndexOutOfBounds"
    unfolding shell_parse_def w [of "[[60]]", simplified] zt_def using redirect_some(2) [OF n(1)] by simp
  show "shell_parse (join_words (ws @ [[62]])) = Inl IndexOutOfBounds"
    unfolding shell_parse_def w [of "[[62]]", simplified] zt_def using redirect_none [OF n2(2)] redirect_some(2) [OF n(2)] by simp
qed

end
