(* ===== verification/Ref_Counts.thy ===== *)
theory Ref_Counts
  imports Kernel_Refs
begin

text \<open>
  Reference counts of processes. A process is held by the ready queue, by the processor, by the
  constant \<^verbatim>\<open>INITPROC\<close> and by the list of children of every process that is not released. In every
  reachable state the number of strong references of a process is at least the number of its
  holders, so a process that something in the kernel still refers to is never released.
\<close>

section \<open>Holders\<close>

definition alive :: "'d kernel \<Rightarrow> nat \<Rightarrow> bool" where
  "alive k t \<longleftrightarrow> t < length (k_tasks k) \<and> 0 < strong_count (task_at k t)"

text \<open>The references from a control block to its children, as long as it is not released.\<close>

definition kids :: "nat \<times> nat list \<Rightarrow> nat \<Rightarrow> nat" where
  "kids c t = (if 0 < fst c then count_list (snd c) t else 0)"

definition held_by :: "nat list \<times> nat option \<times> nat \<times> (nat \<times> nat list) list \<Rightarrow> nat \<Rightarrow> nat" where
  "held_by r t = (case r of (queue, cur, initproc, blocks) \<Rightarrow>
     count_list queue t + of_bool (cur = Some t) + of_bool (initproc = t) + sum_list (map (\<lambda>c. kids c t) blocks))"

text \<open>What the counts depend on.\<close>

definition blocks :: "'d kernel \<Rightarrow> (nat \<times> nat list) list" where
  "blocks k = map (\<lambda>c. (strong_count c, children c)) (k_tasks k)"

definition roots :: "'d kernel \<Rightarrow> nat list \<times> nat option \<times> nat \<times> (nat \<times> nat list) list" where
  "roots k = (ready k, current k, k_initproc k, blocks k)"

definition holders :: "'d kernel \<Rightarrow> nat \<Rightarrow> nat" where
  "holders k t = held_by (roots k) t"

text \<open>The counts are right, with the references \<open>ts\<close> that a running operation has in its hands.\<close>

definition counted :: "nat list \<Rightarrow> 'd kernel \<Rightarrow> bool" where
  "counted ts k \<longleftrightarrow> (\<forall>t < length (k_tasks k). holders k t + count_list ts t \<le> strong_count (task_at k t))"

lemma holders_eq:
  "holders k t = count_list (ready k) t + of_bool (current k = Some t) + of_bool (k_initproc k = t)
     + (\<Sum>c\<leftarrow>k_tasks k. if 0 < strong_count c then count_list (children c) t else 0)"
  by (simp add: holders_def held_by_def roots_def blocks_def kids_def comp_def cong: if_cong)

lemma countedD: "counted ts k \<Longrightarrow> t < length (k_tasks k) \<Longrightarrow> holders k t + count_list ts t \<le> strong_count (task_at k t)"
  by (simp add: counted_def)

lemma counted_roots: "counted ts k \<longleftrightarrow> (\<forall>t < length (blocks k). held_by (roots k) t + count_list ts t \<le> fst (blocks k ! t))"
  by (auto simp: counted_def holders_def blocks_def task_at_def)

lemma counted_cong: "roots k' = roots k \<Longrightarrow> counted ts k' = counted ts k"
  by (simp add: counted_roots) (simp add: roots_def)

lemma counted_same: "counted ts k \<Longrightarrow> roots k' = roots k \<Longrightarrow> counted ts k'"
  using counted_cong by blast

section \<open>Changes that touch no reference\<close>

lemma roots_fields [simp]:
  "roots (k\<lparr>k_mach := m\<rparr>) = roots k" "roots (k\<lparr>k_pids := p\<rparr>) = roots k" "roots (k\<lparr>k_space := s\<rparr>) = roots k"
  "roots (k\<lparr>k_input := i\<rparr>) = roots k" "roots (k\<lparr>k_output := out\<rparr>) = roots k" "roots (k\<lparr>k_reads := r\<rparr>) = roots k"
  "roots (k\<lparr>k_timer := tm\<rparr>) = roots k" "roots (k\<lparr>k_pipes := h\<rparr>) = roots k" "roots (k\<lparr>k_fs := fs\<rparr>) = roots k"
  by (simp_all add: roots_def blocks_def)

lemma blocks_upd: "blocks (upd_task t f k) = (blocks k)[t := (strong_count (f (task_at k t)), children (f (task_at k t)))]"
  by (simp add: blocks_def upd_task_def task_at_def map_update)

lemma roots_upd:
  assumes "\<And>c. strong_count (f c) = strong_count c" and "\<And>c. children (f c) = children c"
  shows "roots (upd_task t f k) = roots k"
proof (cases "t < length (k_tasks k)")
  case True
  then have "(strong_count (task_at k t), children (task_at k t)) = blocks k ! t" by (simp add: blocks_def task_at_def)
  then show ?thesis using assms by (simp add: roots_def blocks_upd)
qed (simp add: roots_def blocks_def upd_task_def list_update_beyond)

lemma roots_upd_fields [simp]:
  "roots (upd_task t (tcb_memory_set_update g1) k) = roots k" "roots (upd_task t (fd_table_update g2) k) = roots k"
  "roots (upd_task t (tcb_mail_box_update g3) k) = roots k"
  "roots (upd_task t (\<lambda>c. c\<lparr>fd_table := g4 c\<rparr>) k) = roots k"
  "roots (upd_task t (\<lambda>c. c\<lparr>tcb_memory_set := ms, trap_cx_ppn := p\<rparr>) k) = roots k"
  "roots (upd_task t (\<lambda>c. snd (set_priority pr c)) k) = roots k"
  by (rule roots_upd; simp add: set_priority_def)+

lemma set_a0_roots [simp]: "roots (set_a0 t v k) = roots k"
  by (simp add: set_a0_def)

lemma set_next_trigger_roots [simp]: "roots (set_next_trigger pf k) = roots k"
  by (simp add: set_next_trigger_def get_time_def)

lemma release_task_roots: "release_task t k = Inr k' \<Longrightarrow> roots k' = roots k"
  by (auto simp: release_task_def elim!: rbind_InrE)

lemma print_slices_roots: "print_slices bs k = Inr k' \<Longrightarrow> roots k' = roots k"
  by (induction bs arbitrary: k) (auto simp: Let_def split: if_splits)

lemma install_fd_roots: "roots (snd (install_fd t f k)) = roots k"
proof -
  obtain fd c where c: "alloc_fd (task_at k t) = (fd, c)" by fastforce
  then have "strong_count c = strong_count (task_at k t)" "children c = children (task_at k t)"
    by (auto simp: alloc_fd_def Let_def split: option.splits)
  then show ?thesis using c
    by (cases "t < length (k_tasks k)")
      (simp_all add: install_fd_def roots_def blocks_def upd_task_def task_at_def map_update list_update_beyond
        list_update_same_conv)
qed

lemma task_exec_roots: "task_exec pf t d args k = Inr k' \<Longrightarrow> roots k' = roots k"
  by (auto simp: task_exec_def Let_def elim!: rbind_InrE)

lemma set_task_mail_roots: "set_task_mail pid buf k = Inr (v, k') \<Longrightarrow> roots k' = roots k"
  by (auto simp: set_task_mail_def split: option.splits elim!: rbind_InrE)

lemma fork_none_roots: "task_fork pf t k = Inr (None, k') \<Longrightarrow> roots k' = roots k"
  by (auto simp: task_fork_def Let_def split: option.splits prod.splits elim!: rbind_InrE)

lemma lifted_roots:
  "get_time_sys pf ts k = Inr (v, k') \<Longrightarrow> roots k' = roots k"
  "set_task_priority pr k = Inr (v, k') \<Longrightarrow> roots k' = roots k"
  "map_virtual_pages addr len port k = Inr (v, k') \<Longrightarrow> roots k' = roots k"
  "unmap_virtual_pages addr len k = Inr (v, k') \<Longrightarrow> roots k' = roots k"
  by (auto simp: get_time_sys_def get_time_us_def get_time_def set_task_priority_def map_virtual_pages_def
      unmap_virtual_pages_def Let_def split: if_splits elim!: rbind_InrE)

section \<open>Dropping references\<close>

text \<open>The holders after one control block changed.\<close>

lemma holders_upd:
  assumes "u < length (k_tasks k)"
  shows "holders (upd_task u f k) t + kids (blocks k ! u) t = holders k t + kids (blocks (upd_task u f k) ! u) t"
proof -
  let ?b = "blocks (upd_task u f k) ! u"
  have u: "u < length (blocks k)" using assms by (simp add: blocks_def)
  have b: "blocks (upd_task u f k) = (blocks k)[u := ?b]" using u by (simp add: blocks_upd)
  have "kids (blocks k ! u) t \<le> (\<Sum>c\<leftarrow>blocks k. kids c t)" using elem_le_sum_list [of u "map (\<lambda>c. kids c t) (blocks k)"] u by simp
  moreover have "(\<Sum>c\<leftarrow>(blocks k)[u := ?b]. kids c t) = (\<Sum>c\<leftarrow>blocks k. kids c t) + kids ?b t - kids (blocks k ! u) t"
    using u by (simp add: map_update sum_list_update)
  ultimately show ?thesis by (simp add: holders_def held_by_def roots_def) (simp add: b [symmetric])
qed

lemma kids_task: "u < length (k_tasks k) \<Longrightarrow>
    kids (blocks k ! u) t = (if 0 < strong_count (task_at k u) then count_list (children (task_at k u)) t else 0)"
  by (simp add: kids_def blocks_def task_at_def)

lemma drop_tasks_counted:
  "drop_tasks ts k = Inr k' \<Longrightarrow> counted (ts @ rest) k \<Longrightarrow> counted rest k'"
proof (induction ts k arbitrary: k' rule: drop_tasks.induct)
  case (2 t ts k)
  let ?k1 = "upd_task t (\<lambda>c. c\<lparr>strong_count := strong_count c - 1\<rparr>) k"
  show ?case
  proof (cases "t < length (k_tasks k) \<and> 0 < strong_count (task_at k t)")
    case True
    then have t: "t < length (k_tasks k)" "0 < strong_count (task_at k t)" by auto
    note h = holders_upd [OF t(1), of "\<lambda>c. c\<lparr>strong_count := strong_count c - 1\<rparr>"]
    have k1: "kids (blocks ?k1 ! t) u = (if 1 < strong_count (task_at k t) then count_list (children (task_at k t)) u else 0)" for u
      using t by (simp add: kids_task task_at_upd)
    show ?thesis
    proof (cases "strong_count (task_at ?k1 t) \<noteq> 0")
      case live: True
      have "counted (ts @ rest) ?k1"
        unfolding counted_def
      proof (intro allI impI)
        fix u assume u: "u < length (k_tasks ?k1)"
        have "holders ?k1 u = holders k u" using h [of u] k1 [of u] t live by (simp add: kids_task task_at_upd)
        then show "holders ?k1 u + count_list (ts @ rest) u \<le> strong_count (task_at ?k1 u)"
          using countedD [OF "2.prems"(2), of u] u t by (auto simp: task_at_upd)
      qed
      moreover have "drop_tasks ts ?k1 = Inr k'" using "2.prems"(1) True live by (simp add: drop_tasks.simps Let_def)
      ultimately show ?thesis by (rule 2(1) [OF True refl live, rotated])
    next
      case dead: False
      with "2.prems"(1) True obtain k2 where k2: "release_task t ?k1 = Inr k2" "drop_tasks (children (task_at k2 t) @ ts) k2 = Inr k'"
        by (auto simp: drop_tasks.simps Let_def elim!: rbind_InrE)
      have c: "children (task_at k2 t) = children (task_at k t)"
        using release_task_tasks [OF k2(1)] t by (simp add: task_at_def upd_task_def)
      have "counted ((children (task_at k t) @ ts) @ rest) ?k1"
        unfolding counted_def
      proof (intro allI impI)
        fix u assume u: "u < length (k_tasks ?k1)"
        have "holders ?k1 u + count_list (children (task_at k t)) u = holders k u"
          using h [of u] k1 [of u] t dead by (simp add: kids_task task_at_upd)
        then show "holders ?k1 u + count_list ((children (task_at k t) @ ts) @ rest) u \<le> strong_count (task_at ?k1 u)"
          using countedD [OF "2.prems"(2), of u] u t by (auto simp: task_at_upd)
      qed
      then have "counted ((children (task_at k2 t) @ ts) @ rest) k2"
        unfolding c using counted_cong [OF release_task_roots [OF k2(1)]] by blast
      then show ?thesis by (rule 2(2) [OF True refl dead k2(1,2)])
    qed
  next
    case False
    have "counted (ts @ rest) k"
      unfolding counted_def
    proof (intro allI impI)
      fix u assume "u < length (k_tasks k)"
      from countedD [OF "2.prems"(2) this] show "holders k u + count_list (ts @ rest) u \<le> strong_count (task_at k u)"
        by (simp split: if_splits)
    qed
    moreover have "drop_tasks ts k = Inr k'" using "2.prems"(1) False by (simp add: drop_tasks.simps)
    ultimately show ?thesis by (rule 2(3) [OF False, rotated])
  qed
qed (simp add: drop_tasks.simps)


text \<open>A process that somebody holds is not released.\<close>

lemma counted_alive:
  assumes "counted ts k" and "t < length (k_tasks k)" and "0 < holders k t + count_list ts t"
  shows "alive k t"
  using countedD [OF assms(1,2)] assms(2,3) by (auto simp: alive_def)

lemma child_held:
  assumes "alive k t" and "c \<in> set (children (task_at k t))"
  shows "0 < holders k c"
proof -
  have t: "t < length (blocks k)" using assms(1) by (simp add: alive_def blocks_def)
  have "kids (blocks k ! t) c \<le> (\<Sum>b\<leftarrow>blocks k. kids b c)"
    using elem_le_sum_list [of t "map (\<lambda>b. kids b c) (blocks k)"] t by simp
  moreover have "0 < kids (blocks k ! t) c" using assms count_list_0_iff [of "children (task_at k t)" c] by (simp add: alive_def kids_task del: count_list_0_iff)
  ultimately show ?thesis by (simp add: holders_def held_by_def roots_def)
qed

lemma current_held: "current_task k = Inr t \<Longrightarrow> 0 < holders k t"
  by (simp add: holders_eq current_task_def unwrapE_eq_Inr)

lemma counted_current: "counted ts k \<Longrightarrow> refs_ok k \<Longrightarrow> current_task k = Inr t \<Longrightarrow> alive k t"
  by (rule counted_alive) (auto simp: current_held refs_ok_current)

section \<open>Moving references\<close>

lemma adopt_counted:
  assumes "counted ts k" and "\<forall>c \<in> set cs. alive k c"
  shows "counted ts (adopt i cs k) \<and> (\<forall>t. t \<noteq> i \<longrightarrow> children (task_at (adopt i cs k) t) = children (task_at k t))
    \<and> (\<forall>t. alive k t \<longrightarrow> alive (adopt i cs k) t)"
  using assms
proof (induction cs arbitrary: k)
  case (Cons c cs)
  let ?k1 = "upd_task c (\<lambda>j. j\<lparr>tcb_parent := Some i, strong_count := strong_count j + 1\<rparr>) k"
  let ?k2 = "upd_task i (\<lambda>j. j\<lparr>children := children j @ [c]\<rparr>) ?k1"
  have c: "c < length (k_tasks k)" "0 < strong_count (task_at k c)" using Cons.prems(2) by (auto simp: alive_def)
  have 1: "holders ?k1 u = holders k u" for u
    using holders_upd [OF c(1), of "\<lambda>j. j\<lparr>tcb_parent := Some i, strong_count := strong_count j + 1\<rparr>" u] c
    by (simp add: kids_task task_at_upd)
  have 2: "holders ?k2 u \<le> holders ?k1 u + of_bool (u = c)" for u
  proof (cases "i < length (k_tasks k)")
    case True
    then show ?thesis using holders_upd [of i ?k1 "\<lambda>j. j\<lparr>children := children j @ [c]\<rparr>" u]
      by (auto simp: kids_task task_at_upd split: if_splits)
  next
    case False
    then show ?thesis by (simp add: upd_task_def list_update_beyond)
  qed
  have "counted ts ?k2"
    unfolding counted_def
  proof (intro allI impI)
    fix u assume "u < length (k_tasks ?k2)"
    then show "holders ?k2 u + count_list ts u \<le> strong_count (task_at ?k2 u)"
      using 1 [of u] 2 [of u] countedD [OF Cons.prems(1), of u] c by (auto simp: task_at_upd split: if_splits)
  qed
  moreover have a: "alive ?k2 t" if "alive k t" for t using that by (auto simp: alive_def task_at_upd)
  moreover have "children (task_at ?k2 t) = children (task_at k t)" if "t \<noteq> i" for t using that by (simp add: task_at_upd)
  ultimately show ?case using Cons.IH [of ?k2] Cons.prems(2) by auto
qed simp

lemma run_next_counted:
  assumes "run_next k = Inr k'" and "counted ts k" and "current k = None"
  shows "counted ts k'"
proof -
  from assms(1) obtain t q step where q: "ready k = t # q"
    and k': "k' = upd_task t (\<lambda>c. c\<lparr>task_status := RunningTask, task_stride := task_stride c + step\<rparr>)
      (k\<lparr>k_manager := (k_manager k)\<lparr>ready_queue := q\<rparr>, k_proc := \<lparr>proc_current = Some t\<rparr>\<rparr>)"
    by (auto simp: run_next_def tm_fetch_def split: list.splits elim!: rbind_InrE)
  let ?k = "k\<lparr>k_manager := (k_manager k)\<lparr>ready_queue := q\<rparr>, k_proc := \<lparr>proc_current = Some t\<rparr>\<rparr>"
  have "holders ?k u = holders k u" for u using q assms(3) by (simp add: holders_eq)
  then have "counted ts ?k" using assms(2) by (simp add: counted_def)
  moreover have "roots k' = roots ?k" unfolding k' by (rule roots_upd) simp_all
  ultimately show ?thesis using counted_cong by blast
qed

text \<open>The reference of the processor goes to whoever took the current process.\<close>

lemma take_current_counted:
  assumes "current_task k = Inr t" and "counted ts k"
  shows "counted (t # ts) (k\<lparr>k_proc := \<lparr>proc_current = None\<rparr>\<rparr>)"
proof -
  have "current k = Some t" using assms(1) by (simp add: current_task_def unwrapE_eq_Inr)
  then have "holders k u = holders (k\<lparr>k_proc := \<lparr>proc_current = None\<rparr>\<rparr>) u + of_bool (u = t)" for u by (auto simp: holders_eq)
  then show ?thesis using assms(2) by (auto simp: counted_def)
qed

lemma add_task_counted: "counted (t # ts) k \<Longrightarrow> counted ts (add_task t k)"
  by (auto simp: counted_def holders_eq add_task_def tm_add_def task_at_def)

lemma suspend_counted:
  assumes "suspend_current_and_run_next c k = Inr k'" and "counted [] k"
  shows "counted [] k'"
proof -
  let ?f = "\<lambda>x. x\<lparr>task_status := Ready, tcb_cont := c\<rparr>"
  from assms(1) obtain t where t: "current_task k = Inr t"
    and r: "run_next (add_task t (upd_task t ?f (k\<lparr>k_proc := \<lparr>proc_current = None\<rparr>\<rparr>))) = Inr k'"
    by (auto simp: suspend_current_and_run_next_def take_current_task_def elim!: rbind_InrE)
  have "roots (upd_task t ?f (k\<lparr>k_proc := \<lparr>proc_current = None\<rparr>\<rparr>)) = roots (k\<lparr>k_proc := \<lparr>proc_current = None\<rparr>\<rparr>)"
    by (rule roots_upd) simp_all
  then have "counted [t] (upd_task t ?f (k\<lparr>k_proc := \<lparr>proc_current = None\<rparr>\<rparr>))"
    using take_current_counted [OF t assms(2)] counted_cong by blast
  then have "counted [] (add_task t (upd_task t ?f (k\<lparr>k_proc := \<lparr>proc_current = None\<rparr>\<rparr>)))" by (rule add_task_counted)
  with r show ?thesis by (rule run_next_counted) (simp add: add_task_def)
qed

text \<open>References in a list of children go to whoever clears the list, or takes one out.\<close>

lemma children_counted:
  assumes "counted ts k" and "alive k t"
    and cs: "\<And>u. count_list (g (children (task_at k t))) u + count_list out u = count_list (children (task_at k t)) u"
  shows "counted (out @ ts) (upd_task t (\<lambda>c. c\<lparr>children := g (children c)\<rparr>) k)" (is "counted _ ?k")
  unfolding counted_def
proof (intro allI impI)
  fix u assume "u < length (k_tasks ?k)"
  moreover have "holders ?k u + count_list out u = holders k u"
    using holders_upd [of t k "\<lambda>c. c\<lparr>children := g (children c)\<rparr>" u] assms(2) cs [of u] by (simp add: alive_def kids_task task_at_upd)
  ultimately show "holders ?k u + count_list (out @ ts) u \<le> strong_count (task_at ?k u)"
    using countedD [OF assms(1), of u] by (auto simp: task_at_upd)
qed

lemma exit_current_counted:
  assumes "exit_current code k = Inr k'" and "counted [] k" and ok: "refs_ok k"
  shows "counted [] k' \<and> current k' = None"
  using assms(1)
proof (rule exit_currentE, goal_cases)
  case (1 t k2 k3 k5 ms m)
  let ?cs = "children (task_at k2 t)" and ?k4 = "upd_task t (\<lambda>c. c\<lparr>children := []\<rparr>) k3"
  let ?k6 = "upd_task t (\<lambda>c. c\<lparr>tcb_memory_set := ms\<rparr>) (k5\<lparr>k_mach := m\<rparr>)"
  have t: "t < length (k_tasks k)" by (rule refs_ok_current [OF ok 1(1)])
  have "roots k2 = roots (k\<lparr>k_proc := \<lparr>proc_current = None\<rparr>\<rparr>)" unfolding 1(2) by (rule roots_upd) simp_all
  then have c2: "counted [t] k2" using take_current_counted [OF 1(1) assms(2)] counted_cong by blast
  have a2: "alive k2 t" by (rule counted_alive [OF c2]) (use t in \<open>simp_all add: 1(2)\<close>)
  have "alive k2 c" if "c \<in> set ?cs" for c
  proof (rule counted_alive [OF c2])
    have "?cs = children (task_at k t)" by (simp add: 1(2) task_at_upd)
    then show "c < length (k_tasks k2)" using that refs_ok_task [OF ok t] by (auto simp: tcb_ok_def 1(2))
    show "0 < holders k2 c + count_list [t] c" using child_held [OF a2 that] by simp
  qed
  then have a: "counted [t] (adopt (k_initproc k2) ?cs k2) \<and> (\<forall>u. u \<noteq> k_initproc k2 \<longrightarrow> children (task_at (adopt (k_initproc k2) ?cs k2) u)
      = children (task_at k2 u)) \<and> (\<forall>u. alive k2 u \<longrightarrow> alive (adopt (k_initproc k2) ?cs k2) u)"
    by (intro adopt_counted [OF c2]) blast
  have "t \<noteq> k_initproc k2" if "tcb_pid (task_at k2 t) \<noteq> tcb_pid (task_at k2 (k_initproc k2))" using that by blast
  then have c3: "counted [t] k3" "alive k3 t" "children (task_at k3 t) = ?cs" using a c2 a2 by (auto simp: 1(3))
  have "counted (?cs @ [t]) ?k4" by (rule children_counted [OF c3(1,2), of "\<lambda>_. []"]) (simp add: c3(3))
  then have "counted [t] k5" by (rule drop_tasks_counted [OF 1(4)])
  then have c6: "counted ([t] @ []) ?k6" using counted_cong [of ?k6 k5] by simp
  have "quiet k2 k5" using quiet_trans [OF _ drop_tasks_quiet [OF 1(4)], of k2] adopt_quiet [of k2] by (simp add: 1(3))
  then have "current k' = None" using quietD [of k2 k5] quietD [OF drop_tasks_quiet [OF 1(6)]] by (simp add: 1(2))
  with drop_tasks_counted [OF 1(6) c6] show ?case by blast
qed

lemma exit_counted: "exit_current_and_run_next code k = Inr k' \<Longrightarrow> counted [] k \<Longrightarrow> refs_ok k \<Longrightarrow> counted [] k'"
  by (auto simp: exit_current_and_run_next_def elim!: rbind_InrE dest: exit_current_counted run_next_counted)


section \<open>New processes\<close>

lemma held_beyond: "refs_ok k \<Longrightarrow> length (k_tasks k) \<le> u \<Longrightarrow> holders k u = 0"
  by (force simp: holders_eq refs_ok_def tcb_ok_def intro!: sum_list_0 count_notin)

lemma task_fork_child:
  fixes k :: "'d kernel"
  assumes "task_fork pf t k = Inr (Some c, k')"
  obtains k2 :: "'d kernel" and child where "k_tasks k2 = k_tasks k" and "k_manager k2 = k_manager k" and "k_proc k2 = k_proc k"
    and "k_initproc k2 = k_initproc k" and "k_pipes k2 = k_pipes k" and "c = length (k_tasks k)"
    and "strong_count child = 2" and "children child = []" and "fd_table child = fd_table (task_at k t)"
    and "tcb_cont child = TrapReturn"
    and "roots k' = roots (upd_task t (\<lambda>p. p\<lparr>children := children p @ [c]\<rparr>) (k2\<lparr>k_tasks := k_tasks k2 @ [child]\<rparr>))"
    and "k_tasks k' = k_tasks (upd_task t (\<lambda>p. p\<lparr>children := children p @ [c]\<rparr>) (k2\<lparr>k_tasks := k_tasks k2 @ [child]\<rparr>))"
    and "k_pipes k' = snd (clone_fds (fd_table (task_at k t)) [] (k_pipes k))"
  using assms
proof (rule task_forkE, goal_cases)
  case (1 ms m1 ppn pid top cx k2)
  note e = 1(6)
  have k2: "k_tasks k2 = k_tasks k" "k_manager k2 = k_manager k" "k_proc k2 = k_proc k" "k_initproc k2 = k_initproc k"
    "k_pipes k2 = k_pipes k"
    using 1(4) by (auto simp: alloc_kernel_stack_def Let_def case_prod_beta elim!: rbind_InrE)
  have tk: "task_at k2 t = task_at k t" by (simp add: task_at_def k2)
  define child where "child = \<lparr>tcb_pid = pid, strong_count = 2, task_cx_ptr = cx, task_status = Ready, task_stride = 0,
    task_priority = task_priority (task_at k2 t), tcb_memory_set = ms, trap_cx_ppn = ppn, base_size = base_size (task_at k2 t),
    tcb_parent = Some t, children = [], exit_code = 0, fd_table = fst (clone_fds (fd_table (task_at k2 t)) [] (k_pipes k2)),
    tcb_mail_box = copy_mails (mb_packets (tcb_mail_box (task_at k2 t))) mail_box_new, tcb_cont = TrapReturn\<rparr>"
  have u: "roots (upd_task t f (k2\<lparr>k_pipes := h, k_tasks := ts\<rparr>)) = roots (upd_task t f (k2\<lparr>k_tasks := ts\<rparr>))" for f h ts
    by (simp add: roots_def blocks_def upd_task_def)
  show ?case
    by (rule 1(1) [OF k2 1(5) [unfolded k2]])
      (simp_all add: e [folded child_def] u, simp_all add: child_def clone_fds_ok tk k2 upd_task_def)
qed

text \<open>A new process has two references, one in the list of its parent's children and one to be put into the queue.\<close>

lemma task_fork_counted:
  assumes "task_fork pf t k = Inr (Some c, k')" and cn: "counted [] k" and ok: "refs_ok k" and t: "t < length (k_tasks k)"
  shows "counted [c] k'"
  using assms(1)
proof (rule task_fork_child, goal_cases)
  case (1 k2 child)
  let ?k3 = "k2\<lparr>k_tasks := k_tasks k2 @ [child]\<rparr>" and ?f = "\<lambda>p. p\<lparr>children := children p @ [c]\<rparr>"
  have h3: "holders ?k3 u = holders k u" for u using 1(8) by (simp add: holders_eq 1(1-4))
  have t3: "t < length (k_tasks ?k3)" using t by (simp add: 1(1))
  have kd: "kids (blocks (upd_task t ?f ?k3) ! t) u \<le> kids (blocks ?k3 ! t) u + of_bool (u = c)" for u
    using t3 by (simp add: kids_task task_at_upd)
  have h: "holders (upd_task t ?f ?k3) u \<le> holders k u + of_bool (u = c)" for u
    using holders_upd [OF t3, of ?f u] kd [of u] h3 [of u] by linarith
  have sc: "strong_count (task_at (upd_task t ?f ?k3) u) = (if u = c then 2 else strong_count (task_at k u))" if "u \<le> c" for u
    using that t 1(7) by (auto simp: task_at_upd 1(1,6)) (auto simp: task_at_def nth_append 1(1))
  have z: "holders k c = 0" by (rule held_beyond [OF ok]) (simp add: 1(6))
  have len: "length (k_tasks (upd_task t ?f ?k3)) = Suc c" by (simp add: 1(1,6))
  have "counted [c] (upd_task t ?f ?k3)"
    unfolding counted_def len
  proof (intro allI impI)
    fix u assume u: "u < Suc c"
    then show "holders (upd_task t ?f ?k3) u + count_list [c] u \<le> strong_count (task_at (upd_task t ?f ?k3) u)"
      using h [of u] sc [of u] z countedD [OF cn, of u] by (cases "u = c") (auto simp: 1(6))
  qed
  then show ?case using counted_cong [OF 1(11)] by blast
qed

lemma fork_any_counted:
  assumes "task_fork pf t k = Inr (c, k')" and "counted [] k" and "refs_ok k" and "t < length (k_tasks k)"
  shows "counted [] k'"
proof (cases c)
  case None
  show ?thesis by (rule counted_same [OF assms(2) fork_none_roots]) (use assms(1) None in simp)
next
  case (Some d)
  from task_fork_counted [OF assms(1) [unfolded Some] assms(2-)] show ?thesis by (auto simp: counted_def)
qed

section \<open>System calls\<close>

definition sys_counted :: "'d sysres \<Rightarrow> bool" where
  "sys_counted r \<longleftrightarrow> (case r of Return v k \<Rightarrow> counted [] k | Switched k \<Rightarrow> counted [] k)"

lemma ret_counted: "ret v k' = kret r \<Longrightarrow> counted [] k \<Longrightarrow> roots k' = roots k \<Longrightarrow> sys_counted r"
  by (auto simp: ret_def sys_counted_def intro: counted_same)

lemma suspend_in_counted: "suspend_in c k' = kret r \<Longrightarrow> counted [] k \<Longrightarrow> roots k' = roots k \<Longrightarrow> sys_counted r"
  using suspend_counted [of c k'] counted_same [of "[]" k k'] by (auto simp: suspend_in_def kbind_eq_ret sys_counted_def)

lemma lift_sys_counted: "lift_sys x = kret r \<Longrightarrow> (\<And>v k'. x = Inr (v, k') \<Longrightarrow> counted [] k') \<Longrightarrow> sys_counted r"
  by (auto simp: lift_sys_def kbind_eq_ret ret_def sys_counted_def)

lemma stdin_reading_counted: "stdin_reading buf k = kret r \<Longrightarrow> counted [] k \<Longrightarrow> sys_counted r"
  by (cases "k_input k")
    (auto simp: stdin_reading_def console_getchar_def Let_def kbind_eq_ret split: if_splits
      elim!: suspend_in_counted ret_counted)

lemma pipe_reading_counted:
  assumes "pipe_reading self it n k = kret r" and "counted [] k"
  shows "sys_counted r"
proof -
  let ?P = "\<lambda>k y. \<forall>r. y = Inr r \<longrightarrow> counted [] k \<longrightarrow> sys_counted r"
  have "?P k y" if "pipe_reading self it n k = Some y" for y
  proof (rule pipe_reading.raw_induct [where P = "\<lambda>self it n k y. ?P k y", OF _ that], goal_cases)
    case (1 pipe_reading self it n k y)
    show ?case
    proof (intro allI impI)
      fix r assume y: "y = Inr r" and cn: "counted [] k"
      from 1(2) [unfolded y] obtain out h m where
        o: "(case out of Returned n' \<Rightarrow> finish_pipe self n' (k\<lparr>k_pipes := h, k_mach := m\<rparr>)
          | Suspended it' n' \<Rightarrow> suspend_in (PipeReading self it' n') (k\<lparr>k_pipes := h, k_mach := m\<rparr>)
          | Again it' n' \<Rightarrow> pipe_reading self it' n' (k\<lparr>k_pipes := h, k_mach := m\<rparr>)) = kret r"
        by (auto simp: kbind_eq_ret)
      have "counted [] (k\<lparr>k_pipes := h, k_mach := m\<rparr>)" using cn counted_cong [of "k\<lparr>k_pipes := h, k_mach := m\<rparr>" k] by simp
      with o 1(1) cn show "sys_counted r" by (cases out) (auto simp: finish_pipe_def elim!: suspend_in_counted ret_counted)
    qed
  qed
  then show ?thesis using assms by blast
qed

lemma pipe_writing_counted:
  assumes "pipe_writing self it n k = kret r" and "counted [] k"
  shows "sys_counted r"
proof -
  let ?P = "\<lambda>k y. \<forall>r. y = Inr r \<longrightarrow> counted [] k \<longrightarrow> sys_counted r"
  have "?P k y" if "pipe_writing self it n k = Some y" for y
  proof (rule pipe_writing.raw_induct [where P = "\<lambda>self it n k y. ?P k y", OF _ that], goal_cases)
    case (1 pipe_writing self it n k y)
    show ?case
    proof (intro allI impI)
      fix r assume y: "y = Inr r" and cn: "counted [] k"
      from 1(2) [unfolded y] obtain out h where
        o: "(case out of Returned n' \<Rightarrow> finish_pipe self n' (k\<lparr>k_pipes := h\<rparr>)
          | Suspended it' n' \<Rightarrow> suspend_in (PipeWriting self it' n') (k\<lparr>k_pipes := h\<rparr>)
          | Again it' n' \<Rightarrow> pipe_writing self it' n' (k\<lparr>k_pipes := h\<rparr>)) = kret r"
        by (auto simp: kbind_eq_ret)
      have "counted [] (k\<lparr>k_pipes := h\<rparr>)" using cn counted_cong [of "k\<lparr>k_pipes := h\<rparr>" k] by simp
      with o 1(1) cn show "sys_counted r" by (cases out) (auto simp: finish_pipe_def elim!: suspend_in_counted ret_counted)
    qed
  qed
  then show ?thesis using assms by blast
qed


lemma file_read_counted: "file_read D f buf k = kret r \<Longrightarrow> counted [] k \<Longrightarrow> sys_counted r"
  by (cases f)
    (auto simp: file_read_def kbind_eq_ret stdin_read_def elim!: ret_counted stdin_reading_counted pipe_reading_counted
      intro: counted_same)

lemma file_write_counted: "file_write D f buf k = kret r \<Longrightarrow> counted [] k \<Longrightarrow> sys_counted r"
  by (cases f)
    (auto simp: file_write_def kbind_eq_ret stdout_write_def elim!: ret_counted pipe_writing_counted
      intro: counted_same print_slices_roots)

lemma sys_files_counted:
  "sys_write D fd buf len k = kret r \<Longrightarrow> counted [] k \<Longrightarrow> sys_counted r"
  "sys_read D fd buf len k = kret r \<Longrightarrow> counted [] k \<Longrightarrow> sys_counted r"
  "sys_close fd k = kret r \<Longrightarrow> counted [] k \<Longrightarrow> sys_counted r"
  "sys_dup fd k = kret r \<Longrightarrow> counted [] k \<Longrightarrow> sys_counted r"
  "sys_pipe p k = kret r \<Longrightarrow> counted [] k \<Longrightarrow> sys_counted r"
  "sys_openat D path fl k = kret r \<Longrightarrow> counted [] k \<Longrightarrow> sys_counted r"
  "sys_linkat old new k = kret r \<Longrightarrow> counted [] k \<Longrightarrow> sys_counted r"
  "sys_unlinkat path k = kret r \<Longrightarrow> counted [] k \<Longrightarrow> sys_counted r"
  "sys_fstat fd st k = kret r \<Longrightarrow> counted [] k \<Longrightarrow> sys_counted r"
  by (auto simp: sys_write_def sys_read_def sys_close_def sys_dup_def sys_pipe_def sys_openat_def sys_linkat_def sys_unlinkat_def
      sys_fstat_def Let_def kbind_eq_ret case_prod_beta install_fd_roots split: if_splits option.splits
    elim!: ret_counted file_write_counted file_read_counted)

lemma sys_mail_counted:
  "sys_mail_read buf len k = kret r \<Longrightarrow> counted [] k \<Longrightarrow> sys_counted r"
  "sys_mail_write pid buf len k = kret r \<Longrightarrow> counted [] k \<Longrightarrow> sys_counted r"
  by (auto simp: sys_mail_read_def sys_mail_write_def kbind_eq_ret split: if_splits elim!: ret_counted
    intro: set_task_mail_roots)

lemma lifted_counted:
  "sys_get_time pf ts k = kret r \<Longrightarrow> counted [] k \<Longrightarrow> sys_counted r"
  "sys_set_priority pr k = kret r \<Longrightarrow> counted [] k \<Longrightarrow> sys_counted r"
  "sys_mmap a l port k = kret r \<Longrightarrow> counted [] k \<Longrightarrow> sys_counted r"
  "sys_munmap a l k = kret r \<Longrightarrow> counted [] k \<Longrightarrow> sys_counted r"
  by (auto simp: sys_get_time_def sys_set_priority_def sys_mmap_def sys_munmap_def elim!: lift_sys_counted
    intro: counted_same lifted_roots)

lemma sys_simple_counted:
  "sys_yield k = kret r \<Longrightarrow> counted [] k \<Longrightarrow> sys_counted r"
  "sys_getpid k = kret r \<Longrightarrow> counted [] k \<Longrightarrow> sys_counted r"
  "sys_exec D pf path args k = kret r \<Longrightarrow> counted [] k \<Longrightarrow> sys_counted r"
  by (auto simp: sys_yield_def sys_getpid_def sys_exec_def kbind_eq_ret split: option.splits
    elim!: suspend_in_counted ret_counted dest!: task_exec_roots)

lemma sys_exit_counted: "sys_exit code k = kret r \<Longrightarrow> counted [] k \<Longrightarrow> refs_ok k \<Longrightarrow> sys_counted r"
  using exit_counted by (auto simp: sys_exit_def kbind_eq_ret sys_counted_def)

text \<open>Taking a zombie off the list of children and dropping the reference.\<close>

lemma count_remove_nth: "i < length xs \<Longrightarrow> count_list (remove_nth i xs) u + count_list [xs ! i] u = count_list xs u"
  by (subst (3) id_take_nth_drop [of i xs]) (auto simp: remove_nth_def)

lemma reap_counted:
  assumes "reap p t i ptr k = Inr (v, k')" and cn: "counted [] k" and a: "alive k t" and i: "i < length (children (task_at k t))"
  shows "counted [] k'"
proof -
  let ?c = "children (task_at k t) ! i" and ?k1 = "upd_task t (\<lambda>c. c\<lparr>children := remove_nth i (children c)\<rparr>) k"
  have 1: "counted ([?c] @ []) ?k1" by (rule children_counted [OF cn a]) (rule count_remove_nth [OF i])
  obtain m where "drop_tasks [?c] (?k1\<lparr>k_mach := m\<rparr>) = Inr k' \<or> drop_tasks [?c] ?k1 = Inr k'"
    using assms(1) by (auto simp: reap_def Let_def split: if_splits elim!: rbind_InrE)
  moreover have "counted ([?c] @ []) (?k1\<lparr>k_mach := m\<rparr>)" using 1 by (rule counted_same) simp
  ultimately show ?thesis using 1 drop_tasks_counted by blast
qed

lemma find_zombie_lt: "find_zombie pid t k = Some i \<Longrightarrow> i < length (children (task_at k t))"
  by (auto simp: find_zombie_def Let_def find_Some_iff)

lemma waitpid_counted:
  "sys_waitpid_non_blocking pid ptr k = kret r \<Longrightarrow> counted [] k \<Longrightarrow> refs_ok k \<Longrightarrow> sys_counted r"
  "waitpid_waiting pid ptr k = kret r \<Longrightarrow> counted [] k \<Longrightarrow> refs_ok k \<Longrightarrow> sys_counted r"
  by (auto simp: sys_waitpid_non_blocking_def waitpid_waiting_def kbind_eq_ret split: if_splits option.splits
    elim!: ret_counted lift_sys_counted suspend_in_counted dest: reap_counted [OF _ _ counted_current find_zombie_lt])

text \<open>One more reference to the current process, which nobody drops.\<close>

lemma more_counted:
  assumes cn: "counted [] k" and ok: "refs_ok k" and t: "current_task k = Inr t"
  shows "counted [] (upd_task t (\<lambda>c. c\<lparr>strong_count := strong_count c + 1\<rparr>) k)"
proof -
  have "holders (upd_task t (\<lambda>c. c\<lparr>strong_count := strong_count c + 1\<rparr>) k) u = holders k u" for u
    using holders_upd [OF refs_ok_current [OF ok t], of "\<lambda>c. c\<lparr>strong_count := strong_count c + 1\<rparr>" u] counted_current [OF cn ok t]
    by (simp add: alive_def kids_task task_at_upd)
  then show ?thesis using cn by (auto simp: counted_def task_at_upd le_SucI)
qed

lemma opened_refs:
  assumes ok: "refs_ok k" and "open_file D name m (k_fs k) = Inr (x, fs1)" and "read_all D f fs1 = kret (d, fs2)"
  shows "refs_ok (k\<lparr>k_fs := fs2\<rparr>)"
proof -
  have "fs_step (k_fs k) fs1" using open_file_step [OF assms(2)] ok by (simp add: refs_ok_def)
  then show ?thesis using refs_ok_fs_step [OF ok fs_step_trans] read_all_step [OF assms(3)] by blast
qed

lemma sys_fork_counted:
  assumes "sys_fork pf k = kret r" and cn: "counted [] k" and ok: "refs_ok k"
  shows "sys_counted r"
proof -
  from assms(1) obtain t where t: "current_task k = Inr t" by (auto simp: sys_fork_def kbind_eq_ret)
  note l = refs_ok_current [OF ok t]
  let ?k = "upd_task t (\<lambda>c. c\<lparr>strong_count := strong_count c + 1\<rparr>) k"
  have "counted [] ?k" by (rule more_counted [OF cn ok t])
  moreover have "refs_ok ?k" by (rule refs_ok_upd [OF ok]) simp
  ultimately have x: "counted [] k'" if "exit_current_and_run_next e ?k = Inr k'" for e k'
    using exit_counted that by blast
  have f: "counted [] (add_task c (set_a0 c 0 k1))" if "task_fork pf t k = Inr (Some c, k1)" for c k1
    using counted_same [OF task_fork_counted [OF that cn ok l], of "set_a0 c 0 k1"] by (simp add: add_task_counted)
  have n: "counted [] k1" if "task_fork pf t k = Inr (c, k1)" for c k1
    using that by (rule fork_any_counted [OF _ cn ok l])
  show ?thesis
    using assms(1) t
    by (auto simp: sys_fork_def kbind_eq_ret sys_counted_def ret_def split: if_splits option.splits intro: x [simplified] n intro!: f)
qed

lemma sys_spawn_counted:
  assumes "sys_spawn D pf path k = kret r" and cn: "counted [] k" and ok: "refs_ok k"
  shows "sys_counted r"
proof -
  have cn2: "counted [] (k\<lparr>k_fs := fs2\<rparr>)" for fs2 using cn by (rule counted_same) simp
  have forked: "counted [] (add_task c k2)"
    if "refs_ok (k\<lparr>k_fs := fs2\<rparr>)" "current_task k = Inr t" "task_fork pf t (k\<lparr>k_fs := fs2\<rparr>) = Inr (Some c, k1)"
      "task_exec pf c d [] (set_a0 c 0 k1) = Inr k2" for fs2 t c k1 d k2
    using counted_same [OF task_fork_counted [OF that(3) cn2 that(1)], of k2] refs_ok_current [OF ok that(2)] task_exec_roots [OF that(4)]
    by (simp add: add_task_counted)
  have none: "counted [] k1"
    if "refs_ok (k\<lparr>k_fs := fs2\<rparr>)" "current_task k = Inr t" "task_fork pf t (k\<lparr>k_fs := fs2\<rparr>) = Inr (c, k1)" for t fs2 c k1
    using fork_any_counted [OF that(3) cn2 that(1)] refs_ok_current [OF ok that(2)] by simp
  show ?thesis
    using assms(1) cn
    by (auto simp: sys_spawn_def kbind_eq_ret sys_counted_def ret_def split: option.splits intro: cn2)
      (blast intro: forked [OF opened_refs [OF ok]] none [OF opened_refs [OF ok]])+
qed

lemmas sys_calls_counted =
  sys_files_counted sys_mail_counted lifted_counted sys_simple_counted

lemmas sys_procs_counted =
  sys_exit_counted sys_fork_counted sys_spawn_counted waitpid_counted(1)

lemma syscall_counted: "syscall D pf n args k = kret r \<Longrightarrow> counted [] k \<Longrightarrow> refs_ok k \<Longrightarrow> sys_counted r"
  unfolding syscall_def by (simp split: if_splits) (erule (1) sys_calls_counted | erule (2) sys_procs_counted)+

lemma deliver_counted: "deliver r = Inr k' \<Longrightarrow> sys_counted r \<Longrightarrow> counted [] k'"
  by (cases r) (auto simp: deliver_def sys_counted_def elim!: rbind_InrE intro: counted_same)

lemma trap_handler_counted:
  assumes "trap_handler D pf cause k = kret k'" and cn: "counted [] k" and ok: "refs_ok k"
  shows "counted [] k'"
proof -
  have "counted [] (set_next_trigger pf k)" using cn by (rule counted_same) simp
  then have s: "counted [] k2" if "suspend_current_and_run_next TrapReturn (set_next_trigger pf k) = Inr k2" for k2
    using suspend_counted that by blast
  have c: "sys_counted r" if "syscall D pf n args (k\<lparr>k_mach := m\<rparr>) = kret r" for n args m r
    using syscall_counted [OF that counted_same [OF cn]] ok by simp
  show ?thesis
    using assms s by (cases cause) (auto simp: trap_handler_def Let_def kbind_eq_ret intro: exit_counted deliver_counted c)
qed

lemma run_current_counted:
  assumes "run_current k = kret k'" and cn: "counted [] k" and ok: "refs_ok k"
  shows "counted [] k'"
proof -
  from assms(1) obtain t where r: "resume_task (tcb_cont (task_at k t)) k = kret k'"
    by (auto simp: run_current_def kbind_eq_ret)
  have "sys_counted (Return 0 k)" using cn by (simp add: sys_counted_def)
  then show ?thesis
    using r cn ok
    by (cases "tcb_cont (task_at k t)")
      (auto simp: resume_task_def kbind_eq_ret
        intro: deliver_counted pipe_reading_counted pipe_writing_counted stdin_reading_counted waitpid_counted(2))
qed

lemma kernel_step_counted: "kernel_step D pf k k' \<Longrightarrow> counted [] k \<Longrightarrow> refs_ok k \<Longrightarrow> counted [] k'"
  by (induction rule: kernel_step.induct) (auto intro: trap_handler_counted run_current_counted counted_same)

lemma kernel_reaches_counted:
  "kernel_reaches D pf k0 k \<Longrightarrow> refs_ok k0 \<Longrightarrow> counted [] k0 \<Longrightarrow> refs_ok k \<and> counted [] k"
  by (induction rule: kernel_reaches.induct) (auto intro: kernel_step_refs kernel_step_counted)

end
