(* ===== verification/Pipe_Refs.thy ===== *)
theory Pipe_Refs
  imports Ref_Counts
begin

text \<open>
  Reference counts of pipe ends. A pipe end is held by the descriptor tables of the processes that
  are not released, and by the calls on it that are suspended in the kernel. The number of its
  strong references is at least the number of these holders, so a reader is told that the writing
  end is closed only when no process has it open. The kernel is either about to go on with a
  process it has switched to, whose call may hold a pipe end, or this process is in user mode.
\<close>

section \<open>Holders\<close>

definition cont_refs :: "kcont \<Rightarrow> nat list" where
  "cont_refs c = (case c of PipeReading p it n \<Rightarrow> [p] | PipeWriting p it n \<Rightarrow> [p] | _ \<Rightarrow> [])"

definition file_refs :: "os_file \<Rightarrow> nat list" where
  "file_refs f = (case f of FPipe i \<Rightarrow> [i] | _ \<Rightarrow> [])"

definition table_of :: "tcb \<Rightarrow> os_file option list" where
  "table_of c = (if 0 < strong_count c then fd_table c else [])"

definition tables :: "'d kernel \<Rightarrow> os_file option list list" where
  "tables k = map table_of (k_tasks k)"

definition conts :: "'d kernel \<Rightarrow> nat list list" where
  "conts k = map (\<lambda>c. cont_refs (tcb_cont c)) (k_tasks k)"

definition counts :: "'d kernel \<Rightarrow> nat list" where
  "counts k = map snd (ph_pipes (k_pipes k))"

text \<open>The processes suspended in the kernel, with the current one if it is about to be resumed.\<close>

definition suspended :: "bool \<Rightarrow> 'd kernel \<Rightarrow> nat list" where
  "suspended busy k = ready k @ (if busy then (case current k of Some t \<Rightarrow> [t] | None \<Rightarrow> []) else [])"

definition end_holders :: "bool \<Rightarrow> 'd kernel \<Rightarrow> nat \<Rightarrow> nat" where
  "end_holders busy k i = (\<Sum>fds\<leftarrow>tables k. count_list fds (Some (FPipe i)))
     + (\<Sum>t\<leftarrow>suspended busy k. count_list (conts k ! t) i)"

definition ends_counted :: "bool \<Rightarrow> nat list \<Rightarrow> 'd kernel \<Rightarrow> bool" where
  "ends_counted busy ps k \<longleftrightarrow> (\<forall>i < length (counts k). end_holders busy k i + count_list ps i \<le> counts k ! i)"

lemma ends_countedD: "ends_counted b ps k \<Longrightarrow> i < length (counts k) \<Longrightarrow> end_holders b k i + count_list ps i \<le> counts k ! i"
  by (simp add: ends_counted_def)

section \<open>Changes that touch no reference\<close>

definition ends :: "'d kernel \<Rightarrow> nat list \<times> nat option \<times> os_file option list list \<times> nat list list \<times> nat list" where
  "ends k = (ready k, current k, tables k, conts k, counts k)"

lemma ends_same: "ends_counted b ps k \<Longrightarrow> ends k' = ends k \<Longrightarrow> ends_counted b ps k'"
  by (cases b) (simp_all add: ends_counted_def end_holders_def suspended_def ends_def)

lemma ends_fields [simp]:
  "ends (k\<lparr>k_mach := m\<rparr>) = ends k" "ends (k\<lparr>k_pids := p\<rparr>) = ends k" "ends (k\<lparr>k_space := s\<rparr>) = ends k"
  "ends (k\<lparr>k_input := i\<rparr>) = ends k" "ends (k\<lparr>k_output := out\<rparr>) = ends k" "ends (k\<lparr>k_reads := r\<rparr>) = ends k"
  "ends (k\<lparr>k_timer := tm\<rparr>) = ends k" "ends (k\<lparr>k_fs := fs\<rparr>) = ends k"
  by (simp_all add: ends_def tables_def conts_def counts_def)

lemma ends_upd:
  assumes "\<And>c. table_of (f c) = table_of c" and "\<And>c. tcb_cont (f c) = tcb_cont c"
  shows "ends (upd_task t f k) = ends k"
proof (cases "t < length (k_tasks k)")
  case True
  then show ?thesis using assms
    by (auto simp: ends_def tables_def conts_def counts_def upd_task_def map_update list_update_same_conv)
qed (simp add: upd_task_def list_update_beyond)

lemma ends_upd_fields [simp]:
  "ends (upd_task t (tcb_memory_set_update g1) k) = ends k" "ends (upd_task t (children_update g2) k) = ends k"
  "ends (upd_task t (tcb_mail_box_update g3) k) = ends k"
  "ends (upd_task t (\<lambda>c. c\<lparr>children := g4 c\<rparr>) k) = ends k"
  "ends (upd_task t (\<lambda>c. c\<lparr>tcb_memory_set := ms, trap_cx_ppn := p\<rparr>) k) = ends k"
  "ends (upd_task t (\<lambda>c. snd (set_priority pr c)) k) = ends k"
  "ends (upd_task t (\<lambda>c. c\<lparr>task_status := s, task_stride := g5 c\<rparr>) k) = ends k"
  "ends (upd_task t (\<lambda>c. c\<lparr>task_status := s, exit_code := e\<rparr>) k) = ends k"
  by (rule ends_upd; simp add: set_priority_def table_of_def)+

lemma set_a0_ends [simp]: "ends (set_a0 t v k) = ends k"
  by (simp add: set_a0_def)

lemma set_next_trigger_ends [simp]: "ends (set_next_trigger pf k) = ends k"
  by (simp add: set_next_trigger_def get_time_def)

lemma print_slices_ends: "print_slices bs k = Inr k' \<Longrightarrow> ends k' = ends k"
  by (induction bs arbitrary: k) (auto simp: Let_def split: if_splits)

lemma task_exec_ends: "task_exec pf t d args k = Inr k' \<Longrightarrow> ends k' = ends k"
  by (auto simp: task_exec_def Let_def elim!: rbind_InrE)

lemma set_task_mail_ends: "set_task_mail pid buf k = Inr (v, k') \<Longrightarrow> ends k' = ends k"
  by (auto simp: set_task_mail_def split: option.splits elim!: rbind_InrE)

lemma fork_none_ends: "task_fork pf t k = Inr (None, k') \<Longrightarrow> ends k' = ends k"
  by (auto simp: task_fork_def Let_def split: option.splits prod.splits elim!: rbind_InrE)

lemma lifted_ends:
  "get_time_sys pf ts k = Inr (v, k') \<Longrightarrow> ends k' = ends k"
  "set_task_priority pr k = Inr (v, k') \<Longrightarrow> ends k' = ends k"
  "map_virtual_pages addr len port k = Inr (v, k') \<Longrightarrow> ends k' = ends k"
  "unmap_virtual_pages addr len k = Inr (v, k') \<Longrightarrow> ends k' = ends k"
  by (auto simp: get_time_sys_def get_time_us_def get_time_def set_task_priority_def map_virtual_pages_def
      unmap_virtual_pages_def Let_def split: if_splits elim!: rbind_InrE)

text \<open>A reference more or less to a process that is not released changes nothing here.\<close>

lemma count_ends:
  assumes "0 < strong_count (task_at k t)" and "0 < strong_count (f (task_at k t))"
    and "fd_table (f (task_at k t)) = fd_table (task_at k t)" and "tcb_cont (f (task_at k t)) = tcb_cont (task_at k t)"
  shows "ends (upd_task t f k) = ends k"
proof (cases "t < length (k_tasks k)")
  case True
  then show ?thesis using assms
    by (auto simp: ends_def tables_def conts_def counts_def upd_task_def map_update list_update_same_conv table_of_def task_at_def)
qed (simp add: upd_task_def list_update_beyond)

lemma adopt_ends: "\<forall>c \<in> set cs. alive k c \<Longrightarrow> ends (adopt i cs k) = ends k"
proof (induction cs arbitrary: k)
  case (Cons c cs)
  let ?k1 = "upd_task c (\<lambda>j. j\<lparr>tcb_parent := Some i, strong_count := strong_count j + 1\<rparr>) k"
  let ?k2 = "upd_task i (\<lambda>j. j\<lparr>children := children j @ [c]\<rparr>) ?k1"
  have "alive ?k2 t" if "alive k t" for t using that by (auto simp: alive_def task_at_upd)
  moreover have "ends ?k1 = ends k" by (rule count_ends) (use Cons.prems in \<open>auto simp: alive_def\<close>)
  ultimately show ?case using Cons by simp
qed simp

section \<open>Counts of pipe ends\<close>

lemma counts_pipes: "counts (k\<lparr>k_pipes := h\<rparr>) = map snd (ph_pipes h)"
  by (simp add: counts_def)

lemma end_holders_pipes [simp]: "end_holders b (k\<lparr>k_pipes := h\<rparr>) i = end_holders b k i"
  by (simp add: end_holders_def tables_def conts_def suspended_def)

lemma file_counts:
  "length (ph_pipes (clone_file f h)) = length (ph_pipes h)" "length (ph_pipes (drop_file f h)) = length (ph_pipes h)"
  "i < length (ph_pipes h) \<Longrightarrow> snd (ph_pipes (clone_file f h) ! i) = snd (ph_pipes h ! i) + count_list (file_refs f) i"
  "i < length (ph_pipes h) \<Longrightarrow> snd (ph_pipes (drop_file f h) ! i) = snd (ph_pipes h ! i) - count_list (file_refs f) i"
  by (cases f; simp add: clone_file_def drop_file_def file_refs_def pipe_arc_clone_def pipe_arc_drop_def nth_list_update)+

lemma fds_counts:
  "length (ph_pipes (drop_fds fds h)) = length (ph_pipes h)"
  "i < length (ph_pipes h) \<Longrightarrow> snd (ph_pipes (drop_fds fds h) ! i) = snd (ph_pipes h ! i) - count_list fds (Some (FPipe i))"
  "length (ph_pipes (snd (clone_fds fds new h))) = length (ph_pipes h)"
  "i < length (ph_pipes h) \<Longrightarrow> snd (ph_pipes (snd (clone_fds fds new h)) ! i) = snd (ph_pipes h ! i) + count_list fds (Some (FPipe i))"
proof -
  show "length (ph_pipes (drop_fds fds h)) = length (ph_pipes h)" by simp
  show "length (ph_pipes (snd (clone_fds fds new h))) = length (ph_pipes h)" by (simp add: clone_fds_ok)
  show "i < length (ph_pipes h) \<Longrightarrow> snd (ph_pipes (drop_fds fds h) ! i) = snd (ph_pipes h ! i) - count_list fds (Some (FPipe i))"
    by (induction fds h rule: drop_fds.induct) (auto simp: file_counts file_refs_def split: os_file.splits)
  show "i < length (ph_pipes h) \<Longrightarrow> snd (ph_pipes (snd (clone_fds fds new h)) ! i) = snd (ph_pipes h ! i) + count_list fds (Some (FPipe i))"
    by (induction fds new h rule: clone_fds.induct) (auto simp: file_counts file_refs_def split: os_file.splits)
qed

lemma clone_ends:
  assumes "ends_counted b ps k"
  shows "ends_counted b (file_refs f @ ps) (k\<lparr>k_pipes := clone_file f (k_pipes k)\<rparr>)"
  using ends_countedD [OF assms] by (auto simp: ends_counted_def counts_pipes file_counts counts_def)

lemma drop_ends:
  assumes "ends_counted b (file_refs f @ ps) k"
  shows "ends_counted b ps (k\<lparr>k_pipes := drop_file f (k_pipes k)\<rparr>)"
  using ends_countedD [OF assms] by (fastforce simp: ends_counted_def counts_pipes file_counts counts_def)

text \<open>Changing the table of one process.\<close>

lemma end_holders_upd:
  assumes "u < length (k_tasks k)" and "\<And>c. tcb_cont (f c) = tcb_cont c"
  shows "end_holders b (upd_task u f k) i + count_list (table_of (task_at k u)) (Some (FPipe i))
    = end_holders b k i + count_list (table_of (f (task_at k u))) (Some (FPipe i))"
proof -
  let ?n = "\<lambda>fds. count_list fds (Some (FPipe i))"
  have u: "u < length (tables k)" "tables k ! u = table_of (task_at k u)" using assms(1) by (simp_all add: tables_def task_at_def)
  have "tables (upd_task u f k) = (tables k)[u := table_of (f (task_at k u))]" by (simp add: tables_def upd_task_def task_at_def map_update)
  then have "(\<Sum>fds\<leftarrow>tables (upd_task u f k). ?n fds) = (\<Sum>fds\<leftarrow>tables k. ?n fds) + ?n (table_of (f (task_at k u))) - ?n (table_of (task_at k u))"
    using u by (simp add: map_update sum_list_update)
  moreover have "?n (table_of (task_at k u)) \<le> (\<Sum>fds\<leftarrow>tables k. ?n fds)"
    using elem_le_sum_list [of u "map ?n (tables k)"] u by simp
  moreover have "conts (upd_task u f k) = conts k"
    using assms by (simp add: conts_def upd_task_def map_update list_update_same_conv)
  moreover have "suspended b (upd_task u f k) = suspended b k" by (simp add: suspended_def)
  ultimately show ?thesis by (simp add: end_holders_def)
qed

lemma table_ends:
  assumes "ends_counted b (inn @ ps) k" and "alive k u" and "\<And>c. tcb_cont (f c) = tcb_cont c"
    and "\<And>i. count_list (table_of (f (task_at k u))) (Some (FPipe i)) + count_list out i
      = count_list (fd_table (task_at k u)) (Some (FPipe i)) + count_list inn i"
  shows "ends_counted b (out @ ps) (upd_task u f k)"
  unfolding ends_counted_def
proof (intro allI impI)
  fix i assume "i < length (counts (upd_task u f k))"
  then have i: "i < length (counts k)" "counts (upd_task u f k) = counts k" by (simp_all add: counts_def)
  have u: "u < length (k_tasks k)" "table_of (task_at k u) = fd_table (task_at k u)" using assms(2) by (simp_all add: alive_def table_of_def)
  show "end_holders b (upd_task u f k) i + count_list (out @ ps) i \<le> counts (upd_task u f k) ! i"
    using ends_countedD [OF assms(1) i(1)] end_holders_upd [where b = b and i = i and f = f and k = k and u = u, OF u(1) assms(3)] assms(4) [of i]
    unfolding i(2) u(2) by simp
qed


section \<open>Dropping processes\<close>

text \<open>A process that is released drops its descriptors.\<close>

lemma release_ends:
  assumes "ends_counted b ps k" and "alive k t" and "strong_count (task_at k t) = 1"
    and r: "release_task t (upd_task t (\<lambda>c. c\<lparr>strong_count := strong_count c - 1\<rparr>) k) = Inr k'"
  shows "ends_counted b ps k'"
proof -
  let ?k1 = "upd_task t (\<lambda>c. c\<lparr>strong_count := strong_count c - 1\<rparr>) k" and ?fds = "fd_table (task_at k t)"
  have t: "t < length (k_tasks k)" using assms(2) by (simp add: alive_def)
  have tb: "fd_table (task_at ?k1 t) = ?fds" "table_of (task_at k t) = ?fds" using t assms(3) by (simp_all add: task_at_upd table_of_def)
  from r obtain p s m where "k' = ?k1\<lparr>k_pids := p, k_space := s, k_mach := m, k_pipes := drop_fds ?fds (k_pipes ?k1)\<rparr>"
    unfolding release_task_def tb by (auto elim!: rbind_InrE)
  then have e: "ends k' = ends (?k1\<lparr>k_pipes := drop_fds ?fds (k_pipes k)\<rparr>)" by (simp add: ends_def tables_def conts_def counts_def)
  have "ends_counted b ps (?k1\<lparr>k_pipes := drop_fds ?fds (k_pipes k)\<rparr>)"
    unfolding ends_counted_def
  proof (intro allI impI)
    fix i assume "i < length (counts (?k1\<lparr>k_pipes := drop_fds ?fds (k_pipes k)\<rparr>))"
    then have i: "i < length (ph_pipes (k_pipes k))" by (simp add: counts_pipes fds_counts)
    have "end_holders b ?k1 i + count_list ?fds (Some (FPipe i)) = end_holders b k i"
      using end_holders_upd [OF t, of "\<lambda>c. c\<lparr>strong_count := strong_count c - 1\<rparr>" b i] tb(2) assms(3) by (simp add: table_of_def)
    then show "end_holders b (?k1\<lparr>k_pipes := drop_fds ?fds (k_pipes k)\<rparr>) i + count_list ps i \<le> counts (?k1\<lparr>k_pipes := drop_fds ?fds (k_pipes k)\<rparr>) ! i"
      using ends_countedD [OF assms(1), of i] i by (simp add: counts_pipes fds_counts counts_def)
  qed
  then show ?thesis using e by (rule ends_same)
qed

lemma drop_tasks_ends: "drop_tasks ts k = Inr k' \<Longrightarrow> ends_counted b ps k \<Longrightarrow> ends_counted b ps k'"
proof (induction ts k arbitrary: k' rule: drop_tasks.induct)
  case (2 t ts k)
  let ?k1 = "upd_task t (\<lambda>c. c\<lparr>strong_count := strong_count c - 1\<rparr>) k"
  show ?case
  proof (cases "t < length (k_tasks k) \<and> 0 < strong_count (task_at k t)")
    case True
    then have t: "alive k t" by (simp add: alive_def)
    show ?thesis
    proof (cases "strong_count (task_at ?k1 t) \<noteq> 0")
      case live: True
      have "ends ?k1 = ends k" by (rule count_ends) (use True live in \<open>simp_all add: task_at_upd\<close>)
      then have "ends_counted b ps ?k1" by (rule ends_same [OF "2.prems"(2)])
      moreover have "drop_tasks ts ?k1 = Inr k'" using "2.prems"(1) True live by (simp add: drop_tasks.simps Let_def)
      ultimately show ?thesis by (rule 2(1) [OF True refl live, rotated])
    next
      case dead: False
      with "2.prems"(1) True obtain k2 where k2: "release_task t ?k1 = Inr k2" "drop_tasks (children (task_at k2 t) @ ts) k2 = Inr k'"
        by (auto simp: drop_tasks.simps Let_def elim!: rbind_InrE)
      have "strong_count (task_at k t) = 1" using True dead by (simp add: task_at_upd)
      from release_ends [OF "2.prems"(2) t this k2(1)] show ?thesis by (rule 2(2) [OF True refl dead k2(1,2)])
    qed
  next
    case False
    have "drop_tasks ts k = Inr k'" using "2.prems"(1) False by (simp add: drop_tasks.simps)
    then show ?thesis by (rule 2(3) [OF False _ "2.prems"(2)])
  qed
qed (simp add: drop_tasks.simps)

section \<open>Switching processes\<close>

lemma run_next_ends:
  assumes "run_next k = Inr k'" and "ends_counted False ps k"
  shows "ends_counted True ps k'"
proof -
  from assms(1) obtain t q step where q: "ready k = t # q"
    and k': "k' = upd_task t (\<lambda>c. c\<lparr>task_status := RunningTask, task_stride := task_stride c + step\<rparr>)
      (k\<lparr>k_manager := (k_manager k)\<lparr>ready_queue := q\<rparr>, k_proc := \<lparr>proc_current = Some t\<rparr>\<rparr>)"
    by (auto simp: run_next_def tm_fetch_def split: list.splits elim!: rbind_InrE)
  let ?k = "k\<lparr>k_manager := (k_manager k)\<lparr>ready_queue := q\<rparr>, k_proc := \<lparr>proc_current = Some t\<rparr>\<rparr>"
  have "end_holders True ?k i = end_holders False k i" for i
    using q by (simp add: end_holders_def suspended_def tables_def conts_def)
  then have "ends_counted True ps ?k" using assms(2) by (simp add: ends_counted_def counts_def)
  then show ?thesis by (rule ends_same) (simp add: k')
qed

text \<open>The pipe end that a suspended call works on stays held, by what the process goes on with.\<close>

lemma suspend_ends:
  assumes "suspend_current_and_run_next c k = Inr k'" and "ends_counted False (cont_refs c @ ps) k" and p: "sched_inv k"
  shows "ends_counted True ps k'"
proof -
  let ?f = "\<lambda>x. x\<lparr>task_status := Ready, tcb_cont := c\<rparr>"
  from assms(1) obtain t where t: "current_task k = Inr t"
    and r: "run_next (add_task t (upd_task t ?f (k\<lparr>k_proc := \<lparr>proc_current = None\<rparr>\<rparr>))) = Inr k'"
    by (auto simp: suspend_current_and_run_next_def take_current_task_def elim!: rbind_InrE)
  let ?k = "add_task t (upd_task t ?f (k\<lparr>k_proc := \<lparr>proc_current = None\<rparr>\<rparr>))"
  have l: "t < length (k_tasks k)" by (rule current_lt [OF p t])
  have "current k = Some t" using t by (simp add: current_task_def unwrapE_eq_Inr)
  then have nr: "t \<notin> set (ready k)" using p l by (auto simp: sched_inv_def placed_def)
  have k: "tables ?k = tables k" "conts ?k = (conts k)[t := cont_refs c]" "ready ?k = ready k @ [t]" "counts ?k = counts k"
    using l by (simp_all add: tables_def conts_def counts_def add_task_def tm_add_def upd_task_def map_update list_update_same_conv table_of_def)
  have "(conts k)[t := cont_refs c] ! u = conts k ! u" if "u \<in> set (ready k)" for u
    using nr that by (metis nth_list_update_neq)
  then have "(\<Sum>u\<leftarrow>ready k. count_list ((conts k)[t := cont_refs c] ! u) i) = (\<Sum>u\<leftarrow>ready k. count_list (conts k ! u) i)" for i
    by (intro arg_cong [of _ _ sum_list] map_cong refl) simp
  moreover have "(conts k)[t := cont_refs c] ! t = cont_refs c" using l by (simp add: conts_def)
  ultimately have "end_holders False ?k i = end_holders False k i + count_list (cont_refs c) i" for i
    by (simp add: end_holders_def suspended_def k)
  then have "ends_counted False ps ?k" using assms(2) by (auto simp: ends_counted_def k)
  with r show ?thesis by (rule run_next_ends)
qed

lemma exit_current_ends:
  assumes "exit_current code k = Inr k'" and e: "ends_counted False ps k" and cn: "counted [] k" and ok: "refs_ok k"
  shows "ends_counted False ps k'"
  using assms(1)
proof (rule exit_currentE, goal_cases)
  case (1 t k2 k3 k5 ms m)
  have t: "t < length (k_tasks k)" by (rule refs_ok_current [OF ok 1(1)])
  have "ends_counted False ps (k\<lparr>k_proc := \<lparr>proc_current = None\<rparr>\<rparr>)"
    using e by (simp add: ends_counted_def end_holders_def suspended_def tables_def conts_def counts_def)
  then have e2: "ends_counted False ps k2" by (rule ends_same) (simp add: 1(2))
  have "alive k2 c" if "c \<in> set (children (task_at k2 t))" for c
  proof -
    have c: "c \<in> set (children (task_at k t))" using that t by (simp add: 1(2) task_at_upd)
    then have "c < length (k_tasks k)" using refs_ok_task [OF ok t] by (auto simp: tcb_ok_def)
    moreover have "0 < holders k c" by (rule child_held [OF counted_current [OF cn ok 1(1)] c])
    ultimately have "alive k c" using counted_alive [OF cn] by simp
    then show ?thesis by (auto simp: alive_def 1(2) task_at_upd)
  qed
  then have "ends k3 = ends k2" using adopt_ends [of "children (task_at k2 t)" k2] by (simp add: 1(3))
  then have "ends_counted False ps (upd_task t (\<lambda>c. c\<lparr>children := []\<rparr>) k3)" by (intro ends_same [OF e2]) simp
  then have "ends_counted False ps k5" by (rule drop_tasks_ends [OF 1(4)])
  then have "ends_counted False ps (upd_task t (\<lambda>c. c\<lparr>tcb_memory_set := ms\<rparr>) (k5\<lparr>k_mach := m\<rparr>))" by (rule ends_same) simp
  with 1(6) show ?case by (rule drop_tasks_ends)
qed

lemma exit_ends:
  "exit_current_and_run_next code k = Inr k' \<Longrightarrow> ends_counted False ps k \<Longrightarrow> counted [] k \<Longrightarrow> refs_ok k \<Longrightarrow> ends_counted True ps k'"
  by (auto simp: exit_current_and_run_next_def elim!: rbind_InrE dest: exit_current_ends run_next_ends)


section \<open>Calls on files\<close>

text \<open>After a call that returns, the process is in user mode; otherwise another one is to be resumed.\<close>

definition sys_ends :: "'d sysres \<Rightarrow> bool" where
  "sys_ends r \<longleftrightarrow> (case r of Return v k \<Rightarrow> ends_counted False [] k | Switched k \<Rightarrow> ends_counted True [] k)"

lemma ret_ends: "ret v k' = kret r \<Longrightarrow> ends_counted False [] k' \<Longrightarrow> sys_ends r"
  by (auto simp: ret_def sys_ends_def)

lemma ret_ends_same: "ret v k' = kret r \<Longrightarrow> ends_counted False [] k \<Longrightarrow> ends k' = ends k \<Longrightarrow> sys_ends r"
  by (rule ret_ends) (auto intro: ends_same)

lemma suspend_in_ends: "suspend_in c k = kret r \<Longrightarrow> ends_counted False (cont_refs c) k \<Longrightarrow> sched_inv k \<Longrightarrow> sys_ends r"
  using suspend_ends [of c k _ "[]"] by (auto simp: suspend_in_def kbind_eq_ret sys_ends_def)

lemma suspend_in_ends_same:
  assumes "suspend_in c k' = kret r" and "ends_counted False [] k" and "ends k' = ends k" and "cont_refs c = []" and "sched_inv k" and "quiet k k'"
  shows "sys_ends r"
  using suspend_in_ends [OF assms(1)] ends_same [OF assms(2,3)] assms(4) quiet_sched_inv [OF assms(6,5)] by simp

lemma lift_sys_ends: "lift_sys x = kret r \<Longrightarrow> (\<And>v k'. x = Inr (v, k') \<Longrightarrow> ends_counted False [] k') \<Longrightarrow> sys_ends r"
  by (auto simp: lift_sys_def kbind_eq_ret ret_def sys_ends_def)

lemma stdin_reading_ends: "stdin_reading buf k = kret r \<Longrightarrow> ends_counted False [] k \<Longrightarrow> sched_inv k \<Longrightarrow> sys_ends r"
  by (cases "k_input k")
    (auto simp: stdin_reading_def console_getchar_def Let_def kbind_eq_ret cont_refs_def split: if_splits
      elim!: suspend_in_ends_same ret_ends_same)

lemma rounds_counts:
  "pipe_read_round i it n h m = Inr (out, h', m') \<Longrightarrow> ph_pipes h' = ph_pipes h"
  "pipe_write_round i it n h m = Inr (out, h') \<Longrightarrow> ph_pipes h' = ph_pipes h"
  by (auto simp: pipe_read_round_def pipe_write_round_def Let_def split: if_splits elim!: rbind_InrE)

lemma rounds_ends: "ph_pipes h = ph_pipes (k_pipes k) \<Longrightarrow> ends (k\<lparr>k_pipes := h\<rparr>) = ends k"
  by (simp add: ends_def tables_def conts_def counts_def)

lemma finish_pipe_ends: "finish_pipe self n k = kret r \<Longrightarrow> ends_counted False [self] k \<Longrightarrow> sys_ends r"
  using drop_ends [of False "FPipe self" "[]" k] by (auto simp: finish_pipe_def drop_file_def file_refs_def elim!: ret_ends)

lemma pipe_reading_ends:
  assumes "pipe_reading self it n k = kret r" and "ends_counted False [self] k" and "sched_inv k"
  shows "sys_ends r"
proof -
  let ?P = "\<lambda>self k y. \<forall>r. y = Inr r \<longrightarrow> ends_counted False [self] k \<longrightarrow> sched_inv k \<longrightarrow> sys_ends r"
  have "?P self k y" if "pipe_reading self it n k = Some y" for y
  proof (rule pipe_reading.raw_induct [where P = "\<lambda>self it n k y. ?P self k y", OF _ that], goal_cases)
    case (1 pipe_reading self it n k y)
    show ?case
    proof (intro allI impI)
      fix r assume y: "y = Inr r" and e: "ends_counted False [self] k" and inv: "sched_inv k"
      from 1(2) [unfolded y] obtain out h m where
        rd: "pipe_read_round self it n (k_pipes k) (k_mach k) = Inr (out, h, m)" and
        o: "(case out of Returned n' \<Rightarrow> finish_pipe self n' (k\<lparr>k_pipes := h, k_mach := m\<rparr>)
          | Suspended it' n' \<Rightarrow> suspend_in (PipeReading self it' n') (k\<lparr>k_pipes := h, k_mach := m\<rparr>)
          | Again it' n' \<Rightarrow> pipe_reading self it' n' (k\<lparr>k_pipes := h, k_mach := m\<rparr>)) = kret r"
        by (auto simp: kbind_eq_ret)
      let ?k = "k\<lparr>k_pipes := h, k_mach := m\<rparr>"
      have "ends_counted False [self] ?k" by (rule ends_same [OF e]) (simp add: rounds_ends [OF rounds_counts(1) [OF rd]])
      moreover have "sched_inv ?k" by (rule quiet_sched_inv [OF _ inv]) simp
      ultimately show "sys_ends r"
        using o 1(1) by (cases out) (auto simp: cont_refs_def elim!: suspend_in_ends finish_pipe_ends)
    qed
  qed
  then show ?thesis using assms by blast
qed

lemma pipe_writing_ends:
  assumes "pipe_writing self it n k = kret r" and "ends_counted False [self] k" and "sched_inv k"
  shows "sys_ends r"
proof -
  let ?P = "\<lambda>self k y. \<forall>r. y = Inr r \<longrightarrow> ends_counted False [self] k \<longrightarrow> sched_inv k \<longrightarrow> sys_ends r"
  have "?P self k y" if "pipe_writing self it n k = Some y" for y
  proof (rule pipe_writing.raw_induct [where P = "\<lambda>self it n k y. ?P self k y", OF _ that], goal_cases)
    case (1 pipe_writing self it n k y)
    show ?case
    proof (intro allI impI)
      fix r assume y: "y = Inr r" and e: "ends_counted False [self] k" and inv: "sched_inv k"
      from 1(2) [unfolded y] obtain out h where
        rd: "pipe_write_round self it n (k_pipes k) (k_mach k) = Inr (out, h)" and
        o: "(case out of Returned n' \<Rightarrow> finish_pipe self n' (k\<lparr>k_pipes := h\<rparr>)
          | Suspended it' n' \<Rightarrow> suspend_in (PipeWriting self it' n') (k\<lparr>k_pipes := h\<rparr>)
          | Again it' n' \<Rightarrow> pipe_writing self it' n' (k\<lparr>k_pipes := h\<rparr>)) = kret r"
        by (auto simp: kbind_eq_ret)
      let ?k = "k\<lparr>k_pipes := h\<rparr>"
      have "ends_counted False [self] ?k" by (rule ends_same [OF e]) (simp add: rounds_ends [OF rounds_counts(2) [OF rd]])
      moreover have "sched_inv ?k" by (rule quiet_sched_inv [OF _ inv]) simp
      ultimately show "sys_ends r"
        using o 1(1) by (cases out) (auto simp: cont_refs_def elim!: suspend_in_ends finish_pipe_ends)
    qed
  qed
  then show ?thesis using assms by blast
qed

lemma pipes_sched [simp]: "sched_inv k \<Longrightarrow> sched_inv (k\<lparr>k_pipes := h\<rparr>)"
  by (rule quiet_sched_inv [of k]) simp_all

lemma clone_end: "ends_counted False [] k \<Longrightarrow> ends_counted False [p] (k\<lparr>k_pipes := pipe_arc_clone p (k_pipes k)\<rparr>)"
  using clone_ends [of False "[]" k "FPipe p"] by (simp add: clone_file_def file_refs_def)

lemma file_read_ends: "file_read D f buf k = kret r \<Longrightarrow> ends_counted False [] k \<Longrightarrow> sched_inv k \<Longrightarrow> sys_ends r"
  by (cases f)
    (auto simp: file_read_def kbind_eq_ret stdin_read_def elim!: ret_ends_same stdin_reading_ends pipe_reading_ends
      intro: clone_end)

lemma file_write_ends: "file_write D f buf k = kret r \<Longrightarrow> ends_counted False [] k \<Longrightarrow> sched_inv k \<Longrightarrow> sys_ends r"
  by (cases f)
    (auto simp: file_write_def kbind_eq_ret stdout_write_def elim!: ret_ends_same pipe_writing_ends
      intro: clone_end print_slices_ends)

lemma sys_rw_ends:
  "sys_write D fd buf len k = kret r \<Longrightarrow> ends_counted False [] k \<Longrightarrow> sched_inv k \<Longrightarrow> sys_ends r"
  "sys_read D fd buf len k = kret r \<Longrightarrow> ends_counted False [] k \<Longrightarrow> sched_inv k \<Longrightarrow> sys_ends r"
  by (auto simp: sys_write_def sys_read_def Let_def kbind_eq_ret split: if_splits option.splits
    elim!: ret_ends file_write_ends file_read_ends)

text \<open>Descriptors.\<close>

lemma count_list_update:
  "j < length xs \<Longrightarrow> count_list (xs[j := x]) y + of_bool (xs ! j = y) = count_list xs y + of_bool (x = y)"
proof (induction xs arbitrary: j)
  case (Cons z xs)
  then show ?case by (cases j) fastforce+
qed simp

lemma count_free [simp]: "count_list (replicate n None) (Some y) = 0"
  by (induction n) simp_all

lemma file_refs_count: "count_list (file_refs f) i = of_bool (f = FPipe i)"
  by (cases f) (auto simp: file_refs_def)

lemma install_ends:
  assumes "ends_counted b (file_refs f @ ps) k" and "alive k t"
  shows "ends_counted b ps (snd (install_fd t f k)) \<and> alive (snd (install_fd t f k)) t"
proof -
  have t: "t < length (k_tasks k)" using assms(2) by (simp add: alive_def)
  show ?thesis
  proof (rule install_fd_eq [OF t, of f], goal_cases)
    case (1 fd table)
    have "ends_counted b ([] @ ps) (upd_task t (\<lambda>c. c\<lparr>fd_table := table[fd := Some f]\<rparr>) k)"
    proof (rule table_ends [OF assms])
      fix i
      have "count_list (table[fd := Some f]) (Some (FPipe i)) = count_list table (Some (FPipe i)) + of_bool (f = FPipe i)"
        using count_list_update [OF 1(4), of "Some f" "Some (FPipe i)"] 1(5) by simp
      then show "count_list (table_of (task_at k t\<lparr>fd_table := table[fd := Some f]\<rparr>)) (Some (FPipe i)) + count_list [] i
          = count_list (fd_table (task_at k t)) (Some (FPipe i)) + count_list (file_refs f) i"
        using assms(2) by (simp add: table_of_def alive_def 1(2) file_refs_count)
    qed simp
    then show ?case using assms(2) by (simp add: 1(1) alive_def task_at_upd)
  qed
qed

lemma upd_pipes: "upd_task t f (k\<lparr>k_pipes := h\<rparr>) = (upd_task t f k)\<lparr>k_pipes := h\<rparr>"
  by (simp add: upd_task_def)

lemma sys_close_ends:
  assumes "sys_close fd k = kret r" and e: "ends_counted False [] k" and cn: "counted [] k" and ok: "refs_ok k"
  shows "sys_ends r"
proof -
  have "ends_counted False [] (upd_task t (\<lambda>c. c\<lparr>fd_table := (fd_table c)[unat fd := None]\<rparr>) (k\<lparr>k_pipes := drop_file f (k_pipes k)\<rparr>))"
    if "current_task k = Inr t" "unat fd < length (fd_table (task_at k t))" "fd_table (task_at k t) ! unat fd = Some f" for t f
  proof -
    let ?k = "upd_task t (\<lambda>c. c\<lparr>fd_table := (fd_table c)[unat fd := None]\<rparr>) k"
    have a: "alive k t" by (rule counted_current [OF cn ok that(1)])
    have "ends_counted False (file_refs f @ []) ?k"
    proof (rule table_ends [OF _ a, where inn = "[]"])
      fix i
      show "count_list (table_of (task_at k t\<lparr>fd_table := (fd_table (task_at k t))[unat fd := None]\<rparr>)) (Some (FPipe i)) + count_list (file_refs f) i
          = count_list (fd_table (task_at k t)) (Some (FPipe i)) + count_list [] i"
        using count_list_update [OF that(2), of None "Some (FPipe i)"] that(3) a by (simp add: table_of_def alive_def file_refs_count)
    qed (use e in simp_all)
    from drop_ends [OF this] show ?thesis by (simp add: upd_pipes)
  qed
  then show ?thesis
    using assms(1) e by (auto simp: sys_close_def Let_def kbind_eq_ret not_le split: if_splits option.splits elim!: ret_ends)
qed

lemma sys_dup_ends:
  assumes "sys_dup fd k = kret r" and e: "ends_counted False [] k" and cn: "counted [] k" and ok: "refs_ok k"
  shows "sys_ends r"
proof -
  have "ends_counted False [] (k1\<lparr>k_pipes := clone_file f (k_pipes k1)\<rparr>)" if "current_task k = Inr t" "k1 = snd (install_fd t f k)" for t f k1
  proof -
    have a: "alive k t" by (rule counted_current [OF cn ok that(1)])
    then have t: "t < length (k_tasks k)" by (simp add: alive_def)
    let ?k = "k\<lparr>k_pipes := clone_file f (k_pipes k)\<rparr>"
    have "install_fd t f ?k = (fst (install_fd t f k), (snd (install_fd t f k))\<lparr>k_pipes := clone_file f (k_pipes k)\<rparr>)"
      by (simp add: install_fd_def case_prod_beta upd_pipes)
    moreover have "k_pipes k1 = k_pipes k" using that(2) by (simp add: install_fd_def case_prod_beta)
    moreover have "alive ?k t" using a by (simp add: alive_def)
    ultimately show ?thesis using install_ends [of False f "[]" ?k t] clone_ends [OF e, of f] that(2) by simp
  qed
  then show ?thesis
    using assms(1) e by (auto simp: sys_dup_def Let_def kbind_eq_ret case_prod_beta split: if_splits option.splits elim!: ret_ends)
qed


text \<open>Nothing holds a pipe end that does not exist yet.\<close>

lemma ends_beyond:
  assumes "refs_ok k" and "length (ph_pipes (k_pipes k)) \<le> i"
  shows "end_holders False k i = 0"
proof -
  have c: "tcb_ok (length (k_tasks k)) (length (fs_files (k_fs k))) (length (ph_pipes (k_pipes k))) c" if "c \<in> set (k_tasks k)" for c
    using assms(1) that by (simp add: refs_ok_def)
  have "count_list (table_of c) (Some (FPipe i)) = 0" if "c \<in> set (k_tasks k)" for c
    using c [OF that] assms(2) by (force simp: table_of_def tcb_ok_def ref_ok_def intro!: count_notin)
  moreover have "count_list (conts k ! t) i = 0" if "t \<in> set (ready k)" for t
  proof -
    have t: "t < length (k_tasks k)" using assms(1) that by (auto simp: refs_ok_def)
    then have "cont_ok (length (ph_pipes (k_pipes k))) (tcb_cont (k_tasks k ! t))" using c [of "k_tasks k ! t"] by (simp add: tcb_ok_def)
    then show ?thesis using t assms(2) by (auto simp: conts_def cont_refs_def cont_ok_def split: kcont.splits)
  qed
  ultimately show ?thesis by (simp add: end_holders_def suspended_def tables_def)
qed

lemma sys_pipe_ends:
  assumes "sys_pipe pipe k = kret r" and e: "ends_counted False [] k" and cn: "counted [] k" and ok: "refs_ok k"
  shows "sys_ends r"
proof -
  from assms(1) obtain t token where t: "current_task k = Inr t" and token: "current_user_token k = Inr token"
    by (auto simp: sys_pipe_def kbind_eq_ret)
  obtain i j h where mk: "make_pipe (k_pipes k) = ((i, j), h)" by (cases "make_pipe (k_pipes k)") auto
  then have ij: "i = length (ph_pipes (k_pipes k))" "j = Suc i" "map snd (ph_pipes h) = counts k @ [1, 1]"
    by (auto simp: make_pipe_def Let_def counts_def)
  have a: "alive k t" by (rule counted_current [OF cn ok t])
  have "ends_counted False (file_refs (FPipe i) @ file_refs (FPipe j) @ []) (k\<lparr>k_pipes := h\<rparr>)"
    unfolding ends_counted_def
  proof (intro allI impI)
    fix n assume "n < length (counts (k\<lparr>k_pipes := h\<rparr>))"
    then have n: "n < i \<or> n = i \<or> n = j" using ij by (auto simp: counts_pipes counts_def)
    then show "end_holders False (k\<lparr>k_pipes := h\<rparr>) n + count_list (file_refs (FPipe i) @ file_refs (FPipe j) @ []) n \<le> counts (k\<lparr>k_pipes := h\<rparr>) ! n"
      using ends_countedD [OF e, of n] ends_beyond [OF ok, of n] ij by (auto simp: counts_pipes file_refs_count nth_append counts_def)
  qed
  moreover have "alive (k\<lparr>k_pipes := h\<rparr>) t" using a by (simp add: alive_def)
  ultimately have 1: "ends_counted False (file_refs (FPipe j) @ []) (snd (install_fd t (FPipe i) (k\<lparr>k_pipes := h\<rparr>)))"
    "alive (snd (install_fd t (FPipe i) (k\<lparr>k_pipes := h\<rparr>))) t"
    using install_ends by blast+
  from install_ends [OF this]
  have 2: "ends_counted False [] (snd (install_fd t (FPipe j) (snd (install_fd t (FPipe i) (k\<lparr>k_pipes := h\<rparr>)))))" by blast
  have "ends_counted False [] ((snd (install_fd t (FPipe j) (snd (install_fd t (FPipe i) (k\<lparr>k_pipes := h\<rparr>)))))\<lparr>k_mach := m\<rparr>)" for m
    by (rule ends_same [OF 2]) simp
  then show ?thesis
    using assms(1) t token mk e
    by (auto simp: sys_pipe_def Let_def kbind_eq_ret case_prod_beta split: if_splits elim!: ret_ends)
qed

lemma sys_openat_ends:
  assumes "sys_openat D path fl k = kret r" and e: "ends_counted False [] k" and cn: "counted [] k" and ok: "refs_ok k"
  shows "sys_ends r"
proof -
  have e2: "ends_counted False [] (k\<lparr>k_fs := fs\<rparr>)" for fs by (rule ends_same [OF e]) simp
  have i: "ends_counted False [] (snd (install_fd t (FInode f) (k\<lparr>k_fs := fs\<rparr>)))" if "current_task k = Inr t" for t f fs
  proof -
    have "ends_counted False (file_refs (FInode f) @ []) (k\<lparr>k_fs := fs\<rparr>)" using e2 by (simp add: file_refs_def)
    moreover have "alive (k\<lparr>k_fs := fs\<rparr>) t" using counted_current [OF cn ok that] by (simp add: alive_def)
    ultimately show ?thesis using install_ends by blast
  qed
  show ?thesis
    using assms(1) e e2 i
    by (auto simp: sys_openat_def Let_def kbind_eq_ret case_prod_beta split: if_splits option.splits elim!: ret_ends)
qed

section \<open>Other calls\<close>

lemma sys_simple_ends:
  "sys_linkat old new k = kret r \<Longrightarrow> ends_counted False [] k \<Longrightarrow> sys_ends r"
  "sys_unlinkat path k = kret r \<Longrightarrow> ends_counted False [] k \<Longrightarrow> sys_ends r"
  "sys_fstat fd st k = kret r \<Longrightarrow> ends_counted False [] k \<Longrightarrow> sys_ends r"
  "sys_mail_read buf len k = kret r \<Longrightarrow> ends_counted False [] k \<Longrightarrow> sys_ends r"
  "sys_mail_write pid buf len k = kret r \<Longrightarrow> ends_counted False [] k \<Longrightarrow> sys_ends r"
  "sys_getpid k = kret r \<Longrightarrow> ends_counted False [] k \<Longrightarrow> sys_ends r"
  by (auto simp: sys_linkat_def sys_unlinkat_def sys_fstat_def sys_mail_read_def sys_mail_write_def sys_getpid_def Let_def
      kbind_eq_ret case_prod_beta split: if_splits option.splits elim!: ret_ends_same intro: set_task_mail_ends)

lemma sys_exec_ends: "sys_exec D pf path args k = kret r \<Longrightarrow> ends_counted False [] k \<Longrightarrow> sys_ends r"
  by (auto simp: sys_exec_def kbind_eq_ret split: option.splits elim!: ret_ends_same dest!: task_exec_ends)

lemma lifted_sys_ends:
  "sys_get_time pf ts k = kret r \<Longrightarrow> ends_counted False [] k \<Longrightarrow> sys_ends r"
  "sys_set_priority pr k = kret r \<Longrightarrow> ends_counted False [] k \<Longrightarrow> sys_ends r"
  "sys_mmap a l port k = kret r \<Longrightarrow> ends_counted False [] k \<Longrightarrow> sys_ends r"
  "sys_munmap a l k = kret r \<Longrightarrow> ends_counted False [] k \<Longrightarrow> sys_ends r"
  by (auto simp: sys_get_time_def sys_set_priority_def sys_mmap_def sys_munmap_def elim!: lift_sys_ends
    intro: ends_same lifted_ends)

lemma sys_yield_ends: "sys_yield k = kret r \<Longrightarrow> ends_counted False [] k \<Longrightarrow> sched_inv k \<Longrightarrow> sys_ends r"
  by (auto simp: sys_yield_def cont_refs_def elim!: suspend_in_ends)

lemma sys_exit_ends: "sys_exit code k = kret r \<Longrightarrow> ends_counted False [] k \<Longrightarrow> counted [] k \<Longrightarrow> refs_ok k \<Longrightarrow> sys_ends r"
  using exit_ends by (auto simp: sys_exit_def kbind_eq_ret sys_ends_def)

lemma reap_ends:
  assumes "reap p t i ptr k = Inr (v, k')" and "ends_counted False [] k"
  shows "ends_counted False [] k'"
proof -
  let ?c = "children (task_at k t) ! i" and ?k1 = "upd_task t (\<lambda>c. c\<lparr>children := remove_nth i (children c)\<rparr>) k"
  obtain m where m: "drop_tasks [?c] (?k1\<lparr>k_mach := m\<rparr>) = Inr k' \<or> drop_tasks [?c] ?k1 = Inr k'"
    using assms(1) by (auto simp: reap_def Let_def split: if_splits elim!: rbind_InrE)
  have "ends_counted False [] (?k1\<lparr>k_mach := m\<rparr>)" "ends_counted False [] ?k1" by (rule ends_same [OF assms(2)]; simp)+
  then show ?thesis using m drop_tasks_ends by blast
qed

lemma waitpid_ends:
  "sys_waitpid_non_blocking pid ptr k = kret r \<Longrightarrow> ends_counted False [] k \<Longrightarrow> sys_ends r"
  "waitpid_waiting pid ptr k = kret r \<Longrightarrow> ends_counted False [] k \<Longrightarrow> sched_inv k \<Longrightarrow> sys_ends r"
  by (auto simp: sys_waitpid_non_blocking_def waitpid_waiting_def kbind_eq_ret cont_refs_def split: if_splits option.splits
    elim!: ret_ends lift_sys_ends suspend_in_ends dest: reap_ends)

text \<open>A new process shares the descriptors of its parent, which are cloned for it.\<close>

lemma task_fork_ends:
  assumes "task_fork pf t k = Inr (Some c, k')" and e: "ends_counted False [] k" and cn: "counted [] k" and ok: "refs_ok k"
    and t: "t < length (k_tasks k)"
  shows "ends_counted False [] k' \<and> c = length (k_tasks k) \<and> conts k' = conts k @ [[]] \<and> ready k' = ready k"
  using assms(1)
proof (rule task_fork_child, goal_cases)
  case (1 k2 child)
  let ?fds = "fd_table (task_at k t)"
  let ?f = "\<lambda>p. p\<lparr>children := children p @ [c]\<rparr>"
  have k': "tables k' = tables k @ [?fds]" "conts k' = conts k @ [[]]"
    using t 1(1,7,9,10,12) by (auto simp: tables_def conts_def upd_task_def map_update table_of_def cont_refs_def list_update_append nth_append list_update_same_conv)
  have rd: "ready k' = ready k" using 1(2,11) by (simp add: roots_def upd_task_def)
  have "conts k' ! u = conts k ! u" if "u \<in> set (ready k)" for u
  proof -
    have "u < length (conts k)" using ok that by (auto simp: refs_ok_def conts_def)
    then show ?thesis by (simp add: k' nth_append)
  qed
  then have "(\<Sum>u\<leftarrow>ready k. count_list (conts k' ! u) i) = (\<Sum>u\<leftarrow>ready k. count_list (conts k ! u) i)" for i
    by (intro arg_cong [of _ _ sum_list] map_cong refl) simp
  then have "end_holders False k' i = end_holders False k i + count_list ?fds (Some (FPipe i))" for i
    by (simp add: end_holders_def suspended_def rd k'(1))
  then have "ends_counted False [] k'"
    using e by (auto simp: ends_counted_def counts_def 1(13) fds_counts)
  then show ?case using k' rd 1(6) by simp
qed

text \<open>The process that was added to the queue has no call in progress.\<close>

lemma add_new_ends:
  assumes "ends_counted False [] k" and "conts k ! c = []"
  shows "ends_counted False [] (add_task c k)"
  using assms by (auto simp: ends_counted_def end_holders_def suspended_def tables_def conts_def counts_def add_task_def tm_add_def)

lemma ends_conts: "ends k' = ends k \<Longrightarrow> conts k' = conts k"
  by (simp add: ends_def)

lemma fork_any_ends:
  assumes "task_fork pf t k = Inr (c, k')" and "ends_counted False [] k" and "counted [] k" and "refs_ok k" and "t < length (k_tasks k)"
  shows "ends_counted False [] k'"
proof (cases c)
  case None
  show ?thesis by (rule ends_same [OF assms(2) fork_none_ends]) (use assms(1) None in simp)
next
  case (Some d)
  from task_fork_ends [OF assms(1) [unfolded Some] assms(2-)] show ?thesis by simp
qed

lemma forked_ends:
  assumes "task_fork pf t k = Inr (Some c, k1)" and "ends_counted False [] k" and "counted [] k" and "refs_ok k" and "t < length (k_tasks k)"
    and "ends k2 = ends k1"
  shows "ends_counted False [] (add_task c k2)"
proof -
  note f = task_fork_ends [OF assms(1-5)]
  have "c = length (conts k)" using f by (simp add: conts_def)
  then have "conts k2 ! c = []" using f ends_conts [OF assms(6)] by simp
  moreover have "ends_counted False [] k2" using f assms(6) by (blast intro: ends_same)
  ultimately show ?thesis by (intro add_new_ends)
qed

lemma sys_fork_ends:
  assumes "sys_fork pf k = kret r" and e: "ends_counted False [] k" and cn: "counted [] k" and ok: "refs_ok k"
  shows "sys_ends r"
proof -
  from assms(1) obtain t where t: "current_task k = Inr t" by (auto simp: sys_fork_def kbind_eq_ret)
  note l = refs_ok_current [OF ok t]
  let ?k = "upd_task t (\<lambda>c. c\<lparr>strong_count := strong_count c + 1\<rparr>) k"
  have "ends ?k = ends k" by (rule count_ends) (use counted_current [OF cn ok t] in \<open>simp_all add: alive_def\<close>)
  then have "ends_counted False [] ?k" by (rule ends_same [OF e])
  moreover have "counted [] ?k" by (rule more_counted [OF cn ok t])
  moreover have "refs_ok ?k" by (rule refs_ok_upd [OF ok]) simp
  ultimately have x: "ends_counted True [] k'" if "exit_current_and_run_next e ?k = Inr k'" for e k'
    using exit_ends that by blast
  have f: "ends_counted False [] (add_task c (set_a0 c 0 k1))" if "task_fork pf t k = Inr (Some c, k1)" for c k1
    by (rule forked_ends [OF that e cn ok l]) simp
  have n: "ends_counted False [] k1" if "task_fork pf t k = Inr (c, k1)" for c k1
    using that by (rule fork_any_ends [OF _ e cn ok l])
  show ?thesis
    using assms(1) t
    by (auto simp: sys_fork_def kbind_eq_ret sys_ends_def ret_def split: if_splits option.splits intro: x [simplified] n intro!: f)
qed

lemma sys_spawn_ends:
  assumes "sys_spawn D pf path k = kret r" and e: "ends_counted False [] k" and cn: "counted [] k" and ok: "refs_ok k"
  shows "sys_ends r"
proof -
  have e2: "ends_counted False [] (k\<lparr>k_fs := fs2\<rparr>)" for fs2 using e by (rule ends_same) simp
  have cn2: "counted [] (k\<lparr>k_fs := fs2\<rparr>)" for fs2 using cn by (rule counted_same) simp
  have forked: "ends_counted False [] (add_task c k2)"
    if "refs_ok (k\<lparr>k_fs := fs2\<rparr>)" "current_task k = Inr t" "task_fork pf t (k\<lparr>k_fs := fs2\<rparr>) = Inr (Some c, k1)"
      "task_exec pf c d [] (set_a0 c 0 k1) = Inr k2" for fs2 t c k1 d k2
    using forked_ends [OF that(3) e2 cn2 that(1)] refs_ok_current [OF ok that(2)] task_exec_ends [OF that(4)] by simp
  have none: "ends_counted False [] k1"
    if "refs_ok (k\<lparr>k_fs := fs2\<rparr>)" "current_task k = Inr t" "task_fork pf t (k\<lparr>k_fs := fs2\<rparr>) = Inr (c, k1)" for t fs2 c k1
    using fork_any_ends [OF that(3) e2 cn2 that(1)] refs_ok_current [OF ok that(2)] by simp
  show ?thesis
    using assms(1) e
    by (auto simp: sys_spawn_def kbind_eq_ret sys_ends_def ret_def split: option.splits intro: e2)
      (blast intro: forked [OF opened_refs [OF ok]] none [OF opened_refs [OF ok]])+
qed

lemmas sys_calls_ends1 = sys_simple_ends sys_exec_ends lifted_sys_ends waitpid_ends(1)
lemmas sys_calls_ends2 = sys_rw_ends sys_yield_ends
lemmas sys_calls_ends3 = sys_close_ends sys_dup_ends sys_pipe_ends sys_openat_ends sys_exit_ends sys_fork_ends sys_spawn_ends

lemma syscall_ends:
  "syscall D pf n args k = kret r \<Longrightarrow> ends_counted False [] k \<Longrightarrow> sched_inv k \<Longrightarrow> counted [] k \<Longrightarrow> refs_ok k \<Longrightarrow> sys_ends r"
  unfolding syscall_def
  by (simp split: if_splits) ((erule (1) sys_calls_ends1) | (erule (2) sys_calls_ends2) | (erule sys_calls_ends3; assumption))+


section \<open>Runs of the kernel\<close>

text \<open>
  Whether a trap, or going on with a process, ended with a switch to another process, which is then
  to be resumed, and not with the return to user mode.
\<close>

definition switched :: "'d sysres run \<Rightarrow> bool" where
  "switched r = (case r of Some (Inr (Switched k)) \<Rightarrow> True | _ \<Rightarrow> False)"

definition trap_switches :: "'d block_dev \<Rightarrow> platform \<Rightarrow> trap_cause \<Rightarrow> 'd kernel \<Rightarrow> bool" where
  "trap_switches D pf cause k \<longleftrightarrow>
     (if cause = UserEnvCall then
        (case current_task k of
           Inr t \<Rightarrow>
             (let ppn = trap_cx_ppn (task_at k t);
                  k1 = k\<lparr>k_mach := modify_trap_cx ppn (\<lambda>cx. cx\<lparr>tc_sepc := tc_sepc cx + 4\<rparr>) (k_mach k)\<rparr>;
                  x = tc_x (trap_cx_at (k_mach k1) ppn) in
              switched (syscall D pf (x ! 17) [x ! 10, x ! 11, x ! 12, x ! 13, x ! 14] k1))
         | Inl e \<Rightarrow> False)
      else True)"

definition resume_switches :: "'d kernel \<Rightarrow> bool" where
  "resume_switches k \<longleftrightarrow>
     (case current_task k of
        Inr t \<Rightarrow>
          (case tcb_cont (task_at k t) of
             TrapReturn \<Rightarrow> False
           | YieldReturn \<Rightarrow> False
           | PipeReading self it n \<Rightarrow> switched (pipe_reading self it n k)
           | PipeWriting self it n \<Rightarrow> switched (pipe_writing self it n k)
           | StdinReading buf \<Rightarrow> switched (stdin_reading buf k)
           | ChildWaiting pid ptr \<Rightarrow> switched (waitpid_waiting pid ptr k))
      | Inl e \<Rightarrow> False)"

text \<open>
  The runs of the kernel: a process in user mode changes memory and traps; a process that was just
  switched to is resumed before anything else happens. These are runs in the sense of
  \<^const>\<open>kernel_reaches\<close>.
\<close>

inductive kernel_runs :: "'d block_dev \<Rightarrow> platform \<Rightarrow> bool \<Rightarrow> 'd kernel \<Rightarrow> bool \<Rightarrow> 'd kernel \<Rightarrow> bool" for D pf b0 k0 where
  runs_start: "kernel_runs D pf b0 k0 b0 k0"
| runs_trap: "kernel_runs D pf b0 k0 False k \<Longrightarrow> trap_handler D pf cause k = kret k' \<Longrightarrow>
    kernel_runs D pf b0 k0 (trap_switches D pf cause k) k'"
| runs_resume: "kernel_runs D pf b0 k0 True k \<Longrightarrow> run_current k = kret k' \<Longrightarrow> kernel_runs D pf b0 k0 (resume_switches k) k'"
| runs_user: "kernel_runs D pf b0 k0 False k \<Longrightarrow> kernel_runs D pf b0 k0 False (k\<lparr>k_mach := m\<rparr>)"
| runs_console: "kernel_runs D pf b0 k0 b k \<Longrightarrow> kernel_runs D pf b0 k0 b (k\<lparr>k_input := k_input k @ [c]\<rparr>)"

lemma runs_reaches: "kernel_runs D pf b0 k0 b k \<Longrightarrow> kernel_reaches D pf k0 k"
  by (induction rule: kernel_runs.induct) (auto intro: kernel_reaches.intros kernel_step.intros)

lemma deliver_ends: "deliver r = Inr k' \<Longrightarrow> sys_ends r \<Longrightarrow> ends_counted (switched (kret r)) [] k'"
  by (cases r) (auto simp: deliver_def sys_ends_def switched_def elim!: rbind_InrE intro: ends_same)

lemma delivered_ends:
  assumes "kbind x (\<lambda>r. Some (deliver r)) = kret k'" and "\<And>r. x = kret r \<Longrightarrow> sys_ends r"
  shows "ends_counted (switched x) [] k'"
  using assms deliver_ends by (auto simp: kbind_eq_ret)

lemma trap_handler_ends:
  assumes "trap_handler D pf cause k = kret k'" and e: "ends_counted False [] k" and inv: "sched_inv k" and cn: "counted [] k" and ok: "refs_ok k"
  shows "ends_counted (trap_switches D pf cause k) [] k'"
proof (cases "cause = UserEnvCall")
  case True
  have s: "sys_ends r" if "syscall D pf n args (k\<lparr>k_mach := m\<rparr>) = kret r" for n args m r
    using syscall_ends [OF that ends_same [OF e] quiet_sched_inv [OF _ inv] counted_same [OF cn]] ok by simp
  from assms(1) True obtain t where t: "current_task k = Inr t" by (auto simp: trap_handler_def Let_def kbind_eq_ret)
  define m where "m = modify_trap_cx (trap_cx_ppn (task_at k t)) (\<lambda>cx. cx\<lparr>tc_sepc := tc_sepc cx + 4\<rparr>) (k_mach k)"
  define x where "x = tc_x (trap_cx_at m (trap_cx_ppn (task_at k t)))"
  from assms(1) True t obtain r where r: "syscall D pf (x ! 17) [x ! 10, x ! 11, x ! 12, x ! 13, x ! 14] (k\<lparr>k_mach := m\<rparr>) = kret r" "deliver r = Inr k'"
    by (auto simp: trap_handler_def Let_def kbind_eq_ret m_def x_def)
  have "trap_switches D pf cause k = switched (kret r)"
    using True t r(1) by (simp add: trap_switches_def Let_def m_def x_def)
  then show ?thesis using deliver_ends [OF r(2) s [OF r(1)]] by simp
next
  case False
  have "ends_counted False [] (set_next_trigger pf k)" by (rule ends_same [OF e]) simp
  then have s: "ends_counted True [] k2" if "suspend_current_and_run_next TrapReturn (set_next_trigger pf k) = Inr k2" for k2
    using suspend_ends [OF that, of "[]"] quiet_sched_inv [OF set_next_trigger_quiet inv] by (simp add: cont_refs_def)
  show ?thesis
    using assms(1) False s exit_ends [OF _ e cn ok] by (cases cause) (auto simp: trap_handler_def trap_switches_def)
qed

text \<open>The call of the process that is resumed takes over the pipe end it works on.\<close>

lemma resumed_ends:
  assumes "ends_counted True [] k" and "current_task k = Inr t" and "t < length (k_tasks k)"
  shows "ends_counted False (cont_refs (tcb_cont (task_at k t))) k"
proof -
  have "conts k ! t = cont_refs (tcb_cont (task_at k t))" using assms(3) by (simp add: conts_def task_at_def)
  moreover have "current k = Some t" using assms(2) by (simp add: current_task_def unwrapE_eq_Inr)
  ultimately show ?thesis using assms(1) by (simp add: ends_counted_def end_holders_def suspended_def add.assoc)
qed

lemma run_current_ends:
  assumes "run_current k = kret k'" and e: "ends_counted True [] k" and inv: "sched_inv k"
  shows "ends_counted (resume_switches k) [] k'"
proof -
  from assms(1) obtain t where t: "current_task k = Inr t" and r: "resume_task (tcb_cont (task_at k t)) k = kret k'"
    by (auto simp: run_current_def kbind_eq_ret)
  note e' = resumed_ends [OF e t current_lt [OF inv t]]
  show ?thesis
  proof (cases "tcb_cont (task_at k t)")
    case TrapReturn
    then show ?thesis using r t e' by (simp add: resume_task_def resume_switches_def cont_refs_def)
  next
    case YieldReturn
    then show ?thesis using r t e' deliver_ends [of "Return 0 k" k'] by (simp add: resume_task_def resume_switches_def cont_refs_def sys_ends_def switched_def)
  next
    case (PipeReading self it n)
    then have "ends_counted (switched (pipe_reading self it n k)) [] k'"
      using r e' pipe_reading_ends [OF _ _ inv] by (intro delivered_ends) (auto simp: resume_task_def cont_refs_def)
    then show ?thesis using t PipeReading by (simp add: resume_switches_def)
  next
    case (PipeWriting self it n)
    then have "ends_counted (switched (pipe_writing self it n k)) [] k'"
      using r e' pipe_writing_ends [OF _ _ inv] by (intro delivered_ends) (auto simp: resume_task_def cont_refs_def)
    then show ?thesis using t PipeWriting by (simp add: resume_switches_def)
  next
    case (StdinReading buf)
    then have "ends_counted (switched (stdin_reading buf k)) [] k'"
      using r e' stdin_reading_ends [OF _ _ inv] by (intro delivered_ends) (auto simp: resume_task_def cont_refs_def)
    then show ?thesis using t StdinReading by (simp add: resume_switches_def)
  next
    case (ChildWaiting pid ptr)
    then have "ends_counted (switched (waitpid_waiting pid ptr k)) [] k'"
      using r e' waitpid_ends(2) [OF _ _ inv] by (intro delivered_ends) (auto simp: resume_task_def cont_refs_def)
    then show ?thesis using t ChildWaiting by (simp add: resume_switches_def)
  qed
qed

section \<open>The property\<close>

definition kernel_ok :: "bool \<Rightarrow> 'd kernel \<Rightarrow> bool" where
  "kernel_ok busy k \<longleftrightarrow> refs_ok k \<and> sched_inv k \<and> counted [] k \<and> ends_counted busy [] k"

lemma kernel_runs_ok: "kernel_runs D pf b0 k0 b k \<Longrightarrow> kernel_ok b0 k0 \<Longrightarrow> kernel_ok b k"
proof (induction rule: kernel_runs.induct)
  case (runs_trap k cause k')
  then have "kernel_ok False k" by simp
  moreover have "kernel_step D pf k k'" by (rule step_trap [OF runs_trap.hyps(2)])
  ultimately show ?case
    using kernel_step_refs kernel_step_inv kernel_step_counted trap_handler_ends [OF runs_trap.hyps(2)] unfolding kernel_ok_def by blast
next
  case (runs_resume k k')
  then have "kernel_ok True k" by simp
  moreover have "kernel_step D pf k k'" by (rule step_resume [OF runs_resume.hyps(2)])
  ultimately show ?case
    using kernel_step_refs kernel_step_inv kernel_step_counted run_current_ends [OF runs_resume.hyps(2)] unfolding kernel_ok_def by blast
next
  case (runs_user k m)
  moreover have "kernel_step D pf k (k\<lparr>k_mach := m\<rparr>)" by (rule step_user)
  ultimately show ?case
    using kernel_step_refs kernel_step_inv kernel_step_counted ends_same [of False "[]" k "k\<lparr>k_mach := m\<rparr>"] unfolding kernel_ok_def by simp blast
next
  case (runs_console b k c)
  moreover have "kernel_step D pf k (k\<lparr>k_input := k_input k @ [c]\<rparr>)" by (rule step_console)
  ultimately show ?case
    using kernel_step_refs kernel_step_inv kernel_step_counted ends_same [of b "[]" k "k\<lparr>k_input := k_input k @ [c]\<rparr>"] unfolding kernel_ok_def by simp blast
qed simp


lemma kernel_ok_process:
  assumes "kernel_ok b k"
    and "t \<in> set (ready k) \<or> current k = Some t \<or> t = k_initproc k \<or> (\<exists>u. alive k u \<and> t \<in> set (children (task_at k u)))"
  shows "alive k t"
proof (rule counted_alive)
  show "counted [] k" using assms(1) by (simp add: kernel_ok_def)
  have ok: "refs_ok k" using assms(1) by (simp add: kernel_ok_def)
  have "t < length (k_tasks k)" if "alive k u" "t \<in> set (children (task_at k u))" for u
    using refs_ok_task [OF ok, of u] that by (auto simp: alive_def tcb_ok_def)
  then show "t < length (k_tasks k)" using assms(2) ok by (auto simp: refs_ok_def)
  have "0 < holders k t"
    using assms(2)
  proof (elim disjE exE conjE)
    assume "t \<in> set (ready k)"
    then have "count_list (ready k) t \<noteq> 0" by (simp add: count_list_0_iff)
    then show ?thesis by (simp add: holders_eq)
  next
    fix u assume "alive k u" and "t \<in> set (children (task_at k u))"
    then show ?thesis by (rule child_held)
  qed (simp_all add: holders_eq)
  then show "0 < holders k t + count_list [] t" by simp
qed

lemma kernel_ok_pipe_end:
  assumes ok: "kernel_ok b k"
    and held: "(\<exists>t. alive k t \<and> Some (FPipe i) \<in> set (fd_table (task_at k t)))
      \<or> (\<exists>t. t \<in> set (ready k) \<and> i \<in> set (cont_refs (tcb_cont (task_at k t))))"
  shows "i < length (ph_pipes (k_pipes k))" and "0 < snd (ph_pipes (k_pipes k) ! i)"
proof -
  have r: "refs_ok k" and e: "ends_counted b [] k" using ok by (auto simp: kernel_ok_def)
  have t: "tcb_ok (length (k_tasks k)) (length (fs_files (k_fs k))) (length (ph_pipes (k_pipes k))) (task_at k t)"
    if "alive k t \<or> t \<in> set (ready k)" for t
    using refs_ok_task [OF r, of t] that r by (auto simp: alive_def refs_ok_def)
  show i: "i < length (ph_pipes (k_pipes k))"
    using held
  proof (elim disjE exE conjE)
    fix u assume "alive k u" and f: "Some (FPipe i) \<in> set (fd_table (task_at k u))"
    then have "ref_ok (length (fs_files (k_fs k))) (length (ph_pipes (k_pipes k))) (FPipe i)" using t [of u] by (simp add: tcb_ok_def)
    then show ?thesis by (simp add: ref_ok_def)
  next
    fix u assume "u \<in> set (ready k)" and c: "i \<in> set (cont_refs (tcb_cont (task_at k u)))"
    then have "cont_ok (length (ph_pipes (k_pipes k))) (tcb_cont (task_at k u))" using t [of u] by (simp add: tcb_ok_def)
    with c show ?thesis by (auto simp: cont_ok_def cont_refs_def split: kcont.splits)
  qed
  have "0 < end_holders b k i"
    using held
  proof (elim disjE exE conjE)
    fix t assume a: "alive k t" and f: "Some (FPipe i) \<in> set (fd_table (task_at k t))"
    have l: "t < length (tables k)" "tables k ! t = fd_table (task_at k t)" using a by (simp_all add: alive_def tables_def table_of_def task_at_def)
    have "count_list (fd_table (task_at k t)) (Some (FPipe i)) \<le> (\<Sum>fds\<leftarrow>tables k. count_list fds (Some (FPipe i)))"
      using elem_le_sum_list [of t "map (\<lambda>fds. count_list fds (Some (FPipe i))) (tables k)"] l by simp
    moreover have "count_list (fd_table (task_at k t)) (Some (FPipe i)) \<noteq> 0" using f by (simp add: count_list_0_iff)
    ultimately show ?thesis by (simp add: end_holders_def)
  next
    fix t assume q: "t \<in> set (ready k)" and c: "i \<in> set (cont_refs (tcb_cont (task_at k t)))"
    have "conts k ! t = cont_refs (tcb_cont (task_at k t))" using q r by (auto simp: refs_ok_def conts_def task_at_def)
    then have "count_list (conts k ! t) i \<noteq> 0" using c by (simp add: count_list_0_iff)
    moreover have "count_list (conts k ! t) i \<le> (\<Sum>u\<leftarrow>ready k. count_list (conts k ! u) i)" using q by (intro member_le_sum_list) auto
    ultimately show ?thesis by (simp add: end_holders_def suspended_def)
  qed
  then show "0 < snd (ph_pipes (k_pipes k) ! i)" using ends_countedD [OF e, of i] i by (simp add: counts_def)
qed

text \<open>
  C33. No reference of the kernel dangles. In every state of every run of the kernel from a
  well-formed one, with traps of any cause, any system call and anything the processes do in user
  mode: the running process, the ready ones, the initial one and every child of a process that is
  not released are not released themselves, as each process has at least as many strong references
  as there are such places that refer to it; every pipe end in the table of a process that is not
  released, and every one that a suspended reading or writing call works on, still has a strong
  reference, so that a reader is told that all writing ends are closed only when no process has one
  open, and its ring buffer exists; and every open file in such a table has its inode. The state is
  well-formed again, with the indices of every ring buffer below its size and every mailbox
  within its bounds. References to parents are weak and do not count.
\<close>

theorem kernel_well_formed:
  assumes "kernel_runs D pf b0 k0 b k" and "kernel_ok b0 k0"
  shows "kernel_ok b k
    \<and> (\<forall>t < length (k_tasks k). holders k t \<le> strong_count (task_at k t))
    \<and> (\<forall>t. t \<in> set (ready k) \<or> current k = Some t \<or> t = k_initproc k \<or> (\<exists>u. alive k u \<and> t \<in> set (children (task_at k u)))
         \<longrightarrow> alive k t)
    \<and> (\<forall>i. (\<exists>t. alive k t \<and> Some (FPipe i) \<in> set (fd_table (task_at k t)))
           \<or> (\<exists>t. t \<in> set (ready k) \<and> i \<in> set (cont_refs (tcb_cont (task_at k t))))
         \<longrightarrow> i < length (ph_pipes (k_pipes k)) \<and> 0 < snd (ph_pipes (k_pipes k) ! i)
           \<and> p_buffer (fst (ph_pipes (k_pipes k) ! i)) < length (ph_rings (k_pipes k)))
    \<and> (\<forall>t i. alive k t \<and> Some (FInode i) \<in> set (fd_table (task_at k t))
         \<longrightarrow> i < length (fs_files (k_fs k)) \<and> oi_inode (fs_files (k_fs k) ! i) < length (fs_inodes (k_fs k)))"
proof -
  have ok: "kernel_ok b k" by (rule kernel_runs_ok [OF assms])
  have r: "refs_ok k" and cn: "counted [] k" using ok by (auto simp: kernel_ok_def)
  have ring: "p_buffer (fst (ph_pipes (k_pipes k) ! i)) < length (ph_rings (k_pipes k))" if "i < length (ph_pipes (k_pipes k))" for i
  proof -
    have "(fst (ph_pipes (k_pipes k) ! i), snd (ph_pipes (k_pipes k) ! i)) \<in> set (ph_pipes (k_pipes k))" using that by simp
    then show ?thesis using r by (fastforce simp: refs_ok_def pipes_ok_def)
  qed
  have inode: "i < length (fs_files (k_fs k)) \<and> oi_inode (fs_files (k_fs k) ! i) < length (fs_inodes (k_fs k))"
    if "alive k t" "Some (FInode i) \<in> set (fd_table (task_at k t))" for t i
    using refs_ok_task [OF r, of t] that r by (auto simp: alive_def tcb_ok_def ref_ok_def refs_ok_def fs_ok_def)
  have count: "holders k t \<le> strong_count (task_at k t)" if "t < length (k_tasks k)" for t
    using countedD [OF cn that] by simp
  have pipe_end: "i < length (ph_pipes (k_pipes k)) \<and> 0 < snd (ph_pipes (k_pipes k) ! i)
      \<and> p_buffer (fst (ph_pipes (k_pipes k) ! i)) < length (ph_rings (k_pipes k))"
    if "(\<exists>t. alive k t \<and> Some (FPipe i) \<in> set (fd_table (task_at k t)))
      \<or> (\<exists>t. t \<in> set (ready k) \<and> i \<in> set (cont_refs (tcb_cont (task_at k t))))" for i
    using kernel_ok_pipe_end [OF ok that] ring by blast
  show ?thesis
    by (intro conjI allI impI ok) (erule count, erule kernel_ok_process [OF ok], (drule pipe_end, simp)+, (elim conjE, drule (1) inode, simp)+)
qed

text \<open>
  Two processes and a pipe: the initial process runs and has the reading end; its child was
  suspended while writing to the other end.
\<close>

definition linked_kernel :: "u8 list kernel" where
  "linked_kernel = example_kernel\<lparr>
     k_tasks := [(example_tcb 0 RunningTask)\<lparr>strong_count := 2, children := [1], fd_table := [None, Some Stdout, Some (FPipe 0)]\<rparr>,
       (example_tcb 1 Ready)\<lparr>strong_count := 2, tcb_parent := Some 0, fd_table := [None, Some (FPipe 1)],
          tcb_cont := PipeWriting 1 (ub_into_iter []) 0\<rparr>],
     k_pipes := (snd (make_pipe \<lparr>ph_rings = [], ph_pipes = []\<rparr>))\<lparr>ph_pipes := [(read_end_with_buffer 0, 1), (write_end_with_buffer 0, 2)]\<rparr>\<rparr>"

lemma linked_kernel_ok: "kernel_ok False linked_kernel"
proof -
  have t: "task_at linked_kernel 0 = (example_tcb 0 RunningTask)\<lparr>strong_count := 2, children := [1], fd_table := [None, Some Stdout, Some (FPipe 0)]\<rparr>"
    "task_at linked_kernel 1 = (example_tcb 1 Ready)\<lparr>strong_count := 2, tcb_parent := Some 0, fd_table := [None, Some (FPipe 1)],
          tcb_cont := PipeWriting 1 (ub_into_iter []) 0\<rparr>"
    by (simp_all add: linked_kernel_def task_at_def)
  have "refs_ok linked_kernel"
    by (auto simp: refs_ok_def tcb_ok_def ref_ok_def cont_ok_def pipes_ok_def fs_ok_def linked_kernel_def example_kernel_def
      example_tcb_def small_os_fs_def make_pipe_def set_write_end_def pipe_ring_buffer_new_def rb_inv_def RING_BUFFER_SIZE_def
      read_end_with_buffer_def write_end_with_buffer_def less_Suc_eq)
  moreover have "sched_inv linked_kernel"
    by (auto simp: sched_inv_def placed_def linked_kernel_def example_kernel_def example_tcb_def task_at_def prio_ok_def TASK_INIT_PRIORITY_def
      less_Suc_eq nth_Cons')
  moreover have "counted [] linked_kernel"
    by (auto simp: counted_def holders_eq linked_kernel_def example_kernel_def example_tcb_def task_at_def less_Suc_eq)
  moreover have "ends_counted False [] linked_kernel"
    by (auto simp: ends_counted_def end_holders_def suspended_def tables_def conts_def counts_def table_of_def cont_refs_def linked_kernel_def
      example_kernel_def example_tcb_def less_Suc_eq)
  ultimately show ?thesis by (simp add: kernel_ok_def)
qed

theorem kernel_well_formed_witness:
  "\<exists>k. trap_handler block_file example_platform SupervisorTimer linked_kernel = kret k
    \<and> current k = Some 1 \<and> alive k 1 \<and> alive k 0 \<and> tcb_cont (task_at k 1) = PipeWriting 1 (ub_into_iter []) 0
    \<and> kernel_ok True k"
proof -
  obtain k where k: "trap_handler block_file example_platform SupervisorTimer linked_kernel = kret k"
    "current k = Some 1" "k_initproc k = 0" "tcb_cont (task_at k 1) = PipeWriting 1 (ub_into_iter []) 0"
    by (simp add: trap_handler_def set_next_trigger_def get_time_def suspend_current_and_run_next_def take_current_task_def
      current_task_def unwrapE_def linked_kernel_def example_kernel_def add_task_def tm_add_def run_next_def tm_fetch_def task_at_def upd_task_def
      example_tcb_def TASK_INIT_PRIORITY_def)
  have "trap_switches block_file example_platform SupervisorTimer linked_kernel" by (simp add: trap_switches_def)
  then have "kernel_runs block_file example_platform False linked_kernel True k"
    using runs_trap [OF runs_start k(1)] by simp
  from kernel_well_formed [OF this linked_kernel_ok] k show ?thesis by auto
qed

end
