(* ===== verification/Console_Spec.thy ===== *)
theory Console_Spec
  imports User_Runtime User_Access
begin

text \<open>
  What a program prints. The console of the user library buffers the text and writes it line by
  line; here its writes go to the handler of the kernel, whose answers depend on what the process
  has under descriptor 1: the standard output, nothing, or a file that cannot be written.
\<close>

section \<open>The console on any writer\<close>

text \<open>The buffer holds at most 2559 bytes and no newline. The text is ASCII, as the kernel prints only whole UTF-8 characters.\<close>

definition line_ok :: "u8 list \<Rightarrow> bool" where
  "line_ok buf \<longleftrightarrow> length buf < CONSOLE_BUFFER_SIZE \<and> 10 \<notin> set buf"

definition ascii :: "u8 list \<Rightarrow> bool" where
  "ascii bs \<longleftrightarrow> (\<forall>b \<in> set bs. b < 128)"

text \<open>
  A writer that succeeds in the states of \<open>P\<close>: it adds \<open>f bs\<close> to the output, which is all of the slice, or
  nothing when the output is closed.
\<close>

definition writes_to :: "'s writer \<Rightarrow> ('s \<Rightarrow> bool) \<Rightarrow> ('s \<Rightarrow> u8 list) \<Rightarrow> (u8 list \<Rightarrow> u8 list) \<Rightarrow> bool" where
  "writes_to wr P out f \<longleftrightarrow> (\<forall>bs s. P s \<longrightarrow> ascii bs \<longrightarrow> length bs \<le> CONSOLE_BUFFER_SIZE \<longrightarrow>
     fst (wr STDOUT bs s) \<noteq> - 1 \<and> P (snd (wr STDOUT bs s)) \<and> out (snd (wr STDOUT bs s)) = out s @ f bs)"

definition write_fails :: "'s writer \<Rightarrow> ('s \<Rightarrow> bool) \<Rightarrow> bool" where
  "write_fails wr P \<longleftrightarrow> (\<forall>bs s. P s \<longrightarrow> fst (wr STDOUT bs s) = - 1)"

lemma writes_toD:
  "writes_to wr P out f \<Longrightarrow> P s \<Longrightarrow> ascii bs \<Longrightarrow> length bs \<le> CONSOLE_BUFFER_SIZE \<Longrightarrow>
     fst (wr STDOUT bs s) \<noteq> - 1 \<and> P (snd (wr STDOUT bs s)) \<and> out (snd (wr STDOUT bs s)) = out s @ f bs"
  by (simp add: writes_to_def)

text \<open>Slices may be written one after the other or at once.\<close>

definition splits :: "(u8 list \<Rightarrow> u8 list) \<Rightarrow> bool" where
  "splits f \<longleftrightarrow> f [] = [] \<and> (\<forall>xs ys. f (xs @ ys) = f xs @ f ys)"

lemma splitsD: "splits f \<Longrightarrow> f (xs @ ys) = f xs @ f ys"
  by (simp add: splits_def)

lemma write_str_ok:
  assumes w: "writes_to wr P out f" and f: "splits f" and "line_ok buf" and "ascii (buf @ cs)" and "P s"
  shows "\<exists>buf' s'. console_buffer_write_str wr cs buf s = (True, buf', s') \<and> line_ok buf' \<and> ascii buf' \<and> P s' \<and> out s' @ f buf' = out s @ f (buf @ cs)"
  using assms(3-)
proof (induction cs arbitrary: buf s)
  case (Cons c cs)
  show ?case
  proof (cases "c = 10 \<or> length (buf @ [c]) = CONSOLE_BUFFER_SIZE")
    case True
    let ?s = "snd (wr STDOUT (buf @ [c]) s)"
    have a: "ascii (buf @ [c])" "ascii ([] @ cs)" using Cons.prems(2) by (simp_all add: ascii_def)
    have "length (buf @ [c]) \<le> CONSOLE_BUFFER_SIZE" using Cons.prems(1) by (simp add: line_ok_def)
    note wr = writes_toD [OF w Cons.prems(3) a(1) this]
    have "line_ok []" by (simp add: line_ok_def CONSOLE_BUFFER_SIZE_def)
    from Cons.IH [OF this a(2), of ?s] wr obtain buf' s' where
      "console_buffer_write_str wr cs [] ?s = (True, buf', s')" "line_ok buf'" "ascii buf'" "P s'" "out s' @ f buf' = out ?s @ f cs" by auto
    then show ?thesis using True wr splitsD [OF f, of "buf @ [c]" cs] by (auto simp: console_buffer_flush_def case_prod_beta Let_def)
  next
    case False
    with Cons.prems(1) have "line_ok (buf @ [c])" by (simp add: line_ok_def)
    from Cons.IH [OF this _ Cons.prems(3)] Cons.prems(2) False show ?thesis by auto
  qed
qed (auto simp: ascii_def)

lemma write_fmt_ok:
  assumes w: "writes_to wr P out f" and f: "splits f" and "line_ok buf" and "ascii (buf @ concat ps)" and "P s"
  shows "\<exists>buf' s'. console_write_fmt wr ps buf s = (True, buf', s') \<and> line_ok buf' \<and> ascii buf' \<and> P s' \<and> out s' @ f buf' = out s @ f (buf @ concat ps)"
  using assms(3-)
proof (induction ps arbitrary: buf s)
  case (Cons p ps)
  have "ascii (buf @ p)" "ascii (concat ps)" using Cons.prems(2) by (auto simp: ascii_def)
  from write_str_ok [OF w f Cons.prems(1) this(1) Cons.prems(3)] obtain buf1 s1 where
    1: "console_buffer_write_str wr p buf s = (True, buf1, s1)" "line_ok buf1" "ascii buf1" "P s1" "out s1 @ f buf1 = out s @ f (buf @ p)" by blast
  have "ascii (buf1 @ concat ps)" using 1(3) \<open>ascii (concat ps)\<close> by (auto simp: ascii_def)
  from Cons.IH [OF 1(2) this 1(4)] obtain buf2 s2 where
    2: "console_write_fmt wr ps buf1 s1 = (True, buf2, s2)" "line_ok buf2" "ascii buf2" "P s2" "out s2 @ f buf2 = out s1 @ f (buf1 @ concat ps)" by blast
  have "out s2 @ f buf2 = out s1 @ f buf1 @ f (concat ps)" by (simp only: 2(5) splitsD [OF f])
  also have "\<dots> = (out s @ f (buf @ p)) @ f (concat ps)" by (simp only: 1(5) flip: append_assoc)
  also have "\<dots> = out s @ f (buf @ concat (p # ps))" by (simp only: splitsD [OF f] concat.simps append_assoc)
  finally show ?case using 1 2 by simp
qed (auto simp: ascii_def)

lemma print_ok:
  assumes w: "writes_to wr P out f" and f: "splits f" and "line_ok buf" and "ascii (buf @ concat args)" and "P s"
  shows "\<exists>buf' s'. console_print wr args buf s = Inr (buf', s') \<and> line_ok buf' \<and> P s' \<and> out s' @ f buf' = out s @ f (buf @ concat args)
    \<and> fst (console_flush wr buf' s') = [] \<and> out (snd (console_flush wr buf' s')) = out s @ f (buf @ concat args)"
proof -
  from write_fmt_ok [OF assms] obtain buf' s' where
    p: "console_write_fmt wr args buf s = (True, buf', s')" "line_ok buf'" "ascii buf'" "P s'" "out s' @ f buf' = out s @ f (buf @ concat args)" by blast
  have "length buf' \<le> CONSOLE_BUFFER_SIZE" using p(2) by (simp add: line_ok_def)
  note wr = writes_toD [OF w p(4,3) this]
  show ?thesis
    using p wr by (intro exI [of _ buf'] exI [of _ s'])
      (simp add: console_print_def console_flush_def console_buffer_flush_def case_prod_beta)
qed

text \<open>A writer that fails.\<close>

lemma write_str_fails:
  assumes "write_fails wr P" and "P s" and "10 \<in> set cs"
  shows "\<not> fst (console_buffer_write_str wr cs buf s)"
  using assms(3)
proof (induction cs arbitrary: buf)
  case (Cons c cs)
  then show ?case using assms(1,2) by (auto simp: write_fails_def console_buffer_flush_def case_prod_beta Let_def)
qed simp

text \<open>Text without a newline either stays in the buffer or fails.\<close>

lemma write_str_kept:
  assumes "write_fails wr P" and "P s" and "fst (console_buffer_write_str wr cs buf s)"
  shows "snd (snd (console_buffer_write_str wr cs buf s)) = s"
  using assms(3)
proof (induction cs arbitrary: buf)
  case (Cons c cs)
  then show ?case using assms(1,2) by (auto simp: write_fails_def console_buffer_flush_def case_prod_beta Let_def split: if_splits)
qed simp

lemma print_fails:
  assumes "write_fails wr P" and "P s" and "10 \<in> set (concat ps)"
  shows "console_print wr ps buf s = Inl UnwrapNone"
proof -
  have "\<not> fst (console_write_fmt wr ps buf s)"
    using assms(3)
  proof (induction ps arbitrary: buf)
    case (Cons p ps)
    show ?case
    proof (cases "fst (console_buffer_write_str wr p buf s)")
      case True
      then have "10 \<notin> set p" using write_str_fails [OF assms(1,2)] by blast
      then show ?thesis using Cons write_str_kept [OF assms(1,2) True] True by (auto simp: case_prod_beta Let_def)
    qed (simp add: case_prod_beta Let_def)
  qed simp
  then show ?thesis by (simp add: console_print_def case_prod_beta Let_def)
qed


section \<open>The writes of the kernel\<close>

text \<open>
  A write of the console: the slice is in the memory of the process, at the address \<open>base\<close>, and the
  handler of the kernel is called. (The wrapper and the trap do nothing else.) The last case stands for calls
  that do not return; it does not occur below.
\<close>

definition user_put :: "nat \<Rightarrow> usize \<Rightarrow> u8 list \<Rightarrow> 'd kernel \<Rightarrow> 'd kernel" where
  "user_put t base bs k = k\<lparr>k_mach := ptrs_write
     (map (\<lambda>i. the (user_ptr (get_user_token (task_at k t)) (k_mach k) (base + word_of_nat i))) [0..<length bs]) bs (k_mach k)\<rparr>"

definition kernel_write :: "'d block_dev \<Rightarrow> nat \<Rightarrow> usize \<Rightarrow> 'd kernel writer" where
  "kernel_write D t base fd bs k =
     (case sys_write D fd base (word_of_nat (length bs)) (user_put t base bs k) of
        Some (Inr (Return r k')) \<Rightarrow> (r, k')
      | _ \<Rightarrow> (- 1, k))"

text \<open>
  The buffer of the console is in a page of the process that can be read and not executed, in a
  frame that is not one of the page table, and has room for 2560 bytes before the last byte of the page.
\<close>

definition console_page :: "nat \<Rightarrow> usize \<Rightarrow> 'd kernel \<Rightarrow> bool" where
  "console_page t base k \<longleftrightarrow>
     (let pt = ms_page_table (tcb_memory_set (task_at k t)); vpn = va_floor (VirtAddr base) in
      (\<exists>lo e. pt_inv lo (pt, k_mach k) \<and> pt_view (pt, k_mach k) vpn = Some e \<and> pte_ppn e \<notin> set (pt_frames pt)
        \<and> pte_readable e \<and> \<not> pte_executable e)
      \<and> unat (va_page_offset (VirtAddr base)) + CONSOLE_BUFFER_SIZE < 4096 \<and> unat (vpn_val vpn) + 1 < 2 ^ 52)"

text \<open>What the process has as descriptor 1.\<close>

definition stdout_is :: "nat \<Rightarrow> os_file option \<Rightarrow> 'd kernel \<Rightarrow> bool" where
  "stdout_is t f k \<longleftrightarrow> current k = Some t \<and> 1 < length (fd_table (task_at k t)) \<and> fd_table (task_at k t) ! 1 = f"

lemma user_put_fields [simp]:
  "current (user_put t base bs k) = current k" "task_at (user_put t base bs k) u = task_at k u"
  "k_output (user_put t base bs k) = k_output k" "file_writable (user_put t base bs k) f = file_writable k f"
  by (simp_all add: user_put_def) (simp add: file_writable_def split: os_file.splits)

lemma stdout_is_put [simp]: "stdout_is t f (user_put t base bs k) = stdout_is t f k"
  by (simp add: stdout_is_def)

lemma utf8_ascii: "ascii bs \<Longrightarrow> utf8_ok bs"
  by (induction bs) (simp_all add: ascii_def)

lemma ptrs_write_elsewhere: "\<forall>p \<in> set ps. fst p \<noteq> n \<Longrightarrow> phys (ptrs_write ps bs m) n = phys m n"
  by (induction ps bs m rule: ptrs_write.induct) (auto simp: ptr_write_def split: prod.splits)

lemma printable_in_page:
  assumes "pt_translate (va_floor (VirtAddr ptr)) (page_table_from_token token) m = Some e"
    and "pte_is_valid e" and "pte_readable e" and "\<not> pte_executable e"
    and "unat (va_page_offset (VirtAddr ptr)) + unat len < 4096"
  shows "\<exists>a b. virtual_addr_range_printable token ptr len m = Inr (True, a, b)"
proof -
  have "va_floor (VirtAddr (ptr + len)) = va_floor (VirtAddr ptr)" using va_floor_add(1) [OF assms(5)] by simp
  moreover have "find_pte (va_floor (VirtAddr ptr)) (page_table_from_token token) m \<noteq> None" using assms(1) by (auto simp: pt_translate_def)
  ultimately show ?thesis
    using assms(1-4) by (auto simp: virtual_addr_range_printable_def virtual_addr_printable_def pt_translate_pte_def pt_translate_va_def Let_def)
qed

text \<open>With the standard output the slice is printed and its length is returned.\<close>

lemma kernel_write_open:
  assumes s: "stdout_is t (Some Stdout) k" and c: "console_page t base k" and "ascii bs" and len: "length bs \<le> CONSOLE_BUFFER_SIZE"
  shows "\<exists>k'. kernel_write D t base STDOUT bs k = (word_of_nat (length bs), k') \<and> stdout_is t (Some Stdout) k' \<and> console_page t base k'
    \<and> k_output k' = k_output k @ bs"
proof -
  let ?pt = "ms_page_table (tcb_memory_set (task_at k t))" and ?vpn = "va_floor (VirtAddr base)" and ?off = "unat (va_page_offset (VirtAddr base))"
  let ?k = "user_put t base bs k" and ?len = "word_of_nat (length bs) :: usize"
  obtain lo e where inv: "pt_inv lo (?pt, k_mach k)" and v: "pt_view (?pt, k_mach k) ?vpn = Some e" and out: "pte_ppn e \<notin> set (pt_frames ?pt)"
    and r: "pte_readable e" "\<not> pte_executable e" and room: "?off + CONSOLE_BUFFER_SIZE < 4096" "unat (vpn_val ?vpn) + 1 < 2 ^ 52"
    using c by (auto simp: console_page_def Let_def)
  have tok: "get_user_token (task_at k t) = pt_token ?pt" by (simp add: get_user_token_def ms_token_def)
  have l: "unat ?len = length bs" using len by (simp add: unat_of_nat64 CONSOLE_BUFFER_SIZE_def)
  have fit: "?off + unat ?len < 4096" using room len l by simp
  have tr: "pt_translate ?vpn (page_table_from_token (pt_token ?pt)) (k_mach k) = Some e" by (rule pt_view_translate(2) [OF inv v])
  let ?ps = "map (\<lambda>i. (pte_ppn e, ?off + i)) [0..<length bs]"
  have "user_ptr (pt_token ?pt) (k_mach k) (base + word_of_nat i) = Some (pte_ppn e, ?off + i)" if "i < length bs" for i
    using va_floor_add [of base i] that tr fit l by (simp add: user_ptr_eq)
  then have "map (\<lambda>i. the (user_ptr (pt_token ?pt) (k_mach k) (base + word_of_nat i))) [0..<length bs] = ?ps" by (intro map_cong) auto
  then have mk: "k_mach ?k = ptrs_write ?ps bs (k_mach k)" by (simp only: user_put_def tok) simp
  have mem: "mem_ok (k_mach k)" using inv by (simp add: pt_inv_def)
  have same: "phys (k_mach ?k) n = phys (k_mach k) n" if "n \<in> set (pt_frames ?pt)" for n
    unfolding mk by (rule ptrs_write_elsewhere) (use that out in auto)
  have inv': "pt_inv lo (?pt, k_mach ?k)" and v': "pt_view (?pt, k_mach ?k) = pt_view (?pt, k_mach k)"
    by (rule pt_frame_rule [OF inv same]; use inv in \<open>simp add: mk pt_inv_def\<close>)+
  have tr': "pt_translate ?vpn (page_table_from_token (pt_token ?pt)) (k_mach ?k) = Some e" by (rule pt_view_translate(2) [OF inv']) (simp add: v' v)
  have "pte_is_valid e" using v by (auto simp: pt_view_def split: option.splits if_splits)
  from printable_in_page [OF tr' this r fit] obtain a b where pr: "virtual_addr_range_printable (pt_token ?pt) base ?len (k_mach ?k) = Inr (True, a, b)" by blast
  have w: "\<exists>buf. translated_byte_buffer (pt_token ?pt) base ?len (k_mach ?k) = Some (Inr buf) \<and> ub_len buf = length bs
      \<and> print_slices buf ?k = Inr (?k\<lparr>k_output := k_output k @ bs\<rparr>)"
  proof (cases "bs = []")
    case True
    then show ?thesis by (auto simp: translated_byte_buffer_def byte_buffer_done ub_len_def)
  next
    case False
    let ?slice = "\<lparr>us_ppn = pte_ppn e, us_start = ?off, us_end = ?off + length bs\<rparr>"
    have "0 < unat ?len" using False l by simp
    from byte_buffer_in_page [OF tr' this fit room(2)] have "translated_byte_buffer (pt_token ?pt) base ?len (k_mach ?k) = Some (Inr [?slice])" by (simp add: l)
    moreover have ps: "us_ptrs ?slice = ?ps" by (rule nth_equalityI) (simp_all add: us_ptrs_def)
    have "distinct ?ps" by (simp add: distinct_map inj_on_def)
    from ptrs_read_write [OF mem _ this, of bs] have "ptrs_read (k_mach ?k) ?ps = bs" using fit l by (simp add: mk)
    then have "print_slices [?slice] ?k = Inr (?k\<lparr>k_output := k_output k @ bs\<rparr>)" using utf8_ascii [OF assms(3)] by (simp add: ps)
    ultimately show ?thesis by (intro exI [of _ "[?slice]"]) (simp add: ub_len_def us_len_def)
  qed
  have cur: "current_task ?k = Inr t" "current_user_token ?k = Inr (pt_token ?pt)"
    using s by (simp_all add: stdout_is_def current_task_def current_user_token_def tok)
  have "unat STDOUT = 1" by (simp add: STDOUT_def)
  then have "sys_write D STDOUT base ?len ?k = kret (Return ?len (?k\<lparr>k_output := k_output k @ bs\<rparr>))"
    using s w cur pr by (auto simp: sys_write_def stdout_is_def file_write_def stdout_write_def file_writable_def ret_def)
  moreover have "console_page t base (?k\<lparr>k_output := k_output k @ bs\<rparr>)"
    using inv' v v' out r room by (auto simp: console_page_def Let_def task_at_def user_put_def)
  moreover have "stdout_is t (Some Stdout) (?k\<lparr>k_output := k_output k @ bs\<rparr>)" using s by (simp add: stdout_is_def task_at_def user_put_def)
  ultimately show ?thesis by (simp add: kernel_write_def)
qed

text \<open>With nothing the call returns 0 and prints nothing; with a file that cannot be written it returns -1.\<close>

lemma kernel_write_closed: "stdout_is t None k \<Longrightarrow> kernel_write D t base STDOUT bs k = (0, user_put t base bs k)"
  by (simp add: kernel_write_def sys_write_def stdout_is_def current_task_def current_user_token_def STDOUT_def ret_def)

lemma kernel_write_refused: "stdout_is t (Some f) k \<Longrightarrow> \<not> file_writable k f \<Longrightarrow> fst (kernel_write D t base STDOUT bs k) = - 1"
  by (simp add: kernel_write_def sys_write_def stdout_is_def current_task_def current_user_token_def STDOUT_def ret_def)

lemma size_not_error: "n \<le> CONSOLE_BUFFER_SIZE \<Longrightarrow> word_of_nat n \<noteq> (- 1 :: isize)"
  by (simp add: word_unat_eq_iff unat_of_nat64 CONSOLE_BUFFER_SIZE_def unsigned_minus_1_eq_mask mask_eq_exp_minus_1)

section \<open>The property\<close>

text \<open>
  C36. What printing does on the kernel. Let the buffer of the console hold less than a line, and let the
  text be ASCII. With the standard output as descriptor 1, and the buffer's memory in a page of the
  process, printing any pieces of text succeeds, never keeps a complete line or a full buffer, and after
  \<^verbatim>\<open>flush\<close> the kernel has printed exactly what writing every byte directly would print. With
  descriptor 1 closed, printing and flushing succeed as well and print nothing, since the kernel answers such writes
  with 0. With a file under descriptor 1 that cannot be written, which the kernel answers with -1, printing a newline
  panics.
\<close>

theorem console_equals_direct_output:
  assumes "line_ok buf" and "ascii (buf @ concat args)"
  shows "(stdout_is t (Some Stdout) k \<and> console_page t base k \<longrightarrow>
      (\<exists>buf' k'. console_print (kernel_write D t base) args buf k = Inr (buf', k') \<and> line_ok buf' \<and> k_output k' @ buf' = k_output k @ buf @ concat args
        \<and> fst (console_flush (kernel_write D t base) buf' k') = []
        \<and> k_output (snd (console_flush (kernel_write D t base) buf' k')) = k_output k @ buf @ concat args))
    \<and> (stdout_is t None k \<longrightarrow>
      (\<exists>buf' k'. console_print (kernel_write D t base) args buf k = Inr (buf', k') \<and> line_ok buf' \<and> k_output k' = k_output k
        \<and> fst (console_flush (kernel_write D t base) buf' k') = []
        \<and> k_output (snd (console_flush (kernel_write D t base) buf' k')) = k_output k))
    \<and> (stdout_is t (Some f) k \<and> \<not> file_writable k f \<and> 10 \<in> set (concat args) \<longrightarrow>
      console_print (kernel_write D t base) args buf k = Inl UnwrapNone)"
proof (intro conjI impI)
  let ?wr = "kernel_write D t base"
  assume P: "stdout_is t (Some Stdout) k \<and> console_page t base k"
  have "writes_to ?wr (\<lambda>k. stdout_is t (Some Stdout) k \<and> console_page t base k) k_output (\<lambda>bs. bs)"
    unfolding writes_to_def using kernel_write_open [of t _ base _ D] size_not_error by fastforce
  from print_ok [OF this _ assms P] show "\<exists>buf' k'. console_print ?wr args buf k = Inr (buf', k') \<and> line_ok buf'
      \<and> k_output k' @ buf' = k_output k @ buf @ concat args \<and> fst (console_flush ?wr buf' k') = []
      \<and> k_output (snd (console_flush ?wr buf' k')) = k_output k @ buf @ concat args" by (auto simp: splits_def)
next
  let ?wr = "kernel_write D t base"
  assume P: "stdout_is t None k"
  have "writes_to ?wr (stdout_is t None) k_output (\<lambda>bs. [])" by (simp add: writes_to_def kernel_write_closed)
  from print_ok [OF this _ assms P] show "\<exists>buf' k'. console_print ?wr args buf k = Inr (buf', k') \<and> line_ok buf' \<and> k_output k' = k_output k
      \<and> fst (console_flush ?wr buf' k') = [] \<and> k_output (snd (console_flush ?wr buf' k')) = k_output k" by (auto simp: splits_def)
next
  assume a: "stdout_is t (Some f) k \<and> \<not> file_writable k f \<and> 10 \<in> set (concat args)"
  have w: "write_fails (kernel_write D t base) (\<lambda>k. stdout_is t (Some f) k \<and> \<not> file_writable k f)"
    unfolding write_fails_def using kernel_write_refused by blast
  show "console_print (kernel_write D t base) args buf k = Inl UnwrapNone" by (rule print_fails [OF w]) (use a in simp_all)
qed

text \<open>A process that has its buffer at address \<open>0x5010\<close> of a page in frame 100.\<close>

definition console_kernel :: "page_table \<Rightarrow> machine \<Rightarrow> u8 list kernel" where
  "console_kernel pt m = example_kernel\<lparr>k_mach := m,
     k_tasks := [(example_tcb 0 RunningTask)\<lparr>tcb_memory_set := \<lparr>ms_page_table = pt, ms_areas = []\<rparr>\<rparr>]\<rparr>"

theorem console_equals_direct_output_witness:
  "\<exists>pt m buf k'. console_print (kernel_write block_file 0 0x5010) [[72, 105], [10, 62]] [] (console_kernel pt m) = Inr (buf, k')
    \<and> k_output k' @ buf = [72, 105, 10, 62]
    \<and> console_print (kernel_write block_file 0 0x5010) [[72, 105], [10, 62]] []
        ((console_kernel pt m)\<lparr>k_tasks := [(example_tcb 0 RunningTask)\<lparr>fd_table := [Some Stdin, Some Stdin]\<rparr>]\<rparr>) = Inl UnwrapNone"
proof -
  obtain pt m where p: "pt_inv 1 (pt, m)" "pt_view (pt, m) (VirtPageNum 5) = Some (pte_new (PhysPageNum 100) (PTE_R OR PTE_V))"
    "PhysPageNum 100 \<notin> set (pt_frames pt)" by (rule one_page_process)
  let ?k = "console_kernel pt m" and ?k2 = "(console_kernel pt m)\<lparr>k_tasks := [(example_tcb 0 RunningTask)\<lparr>fd_table := [Some Stdin, Some Stdin]\<rparr>]\<rparr>"
  have l: "line_ok []" "ascii ([] @ concat [[72, 105], [10, 62]])" by (simp_all add: line_ok_def CONSOLE_BUFFER_SIZE_def ascii_def)
  have e: "pte_ppn (pte_new (PhysPageNum 100) (PTE_R OR PTE_V)) = PhysPageNum 100" "pte_readable (pte_new (PhysPageNum 100) (PTE_R OR PTE_V))"
    "\<not> pte_executable (pte_new (PhysPageNum 100) (PTE_R OR PTE_V))"
    by (simp_all add: pte_ppn_new pte_readable_def pte_executable_def pte_flags_new PTE_R_def PTE_V_def PTE_X_def)
  have s: "stdout_is 0 (Some Stdout) ?k" "k_output ?k = []" by (simp_all add: stdout_is_def console_kernel_def example_kernel_def task_at_def example_tcb_def)
  have "console_page 0 0x5010 ?k"
    using p e by (auto simp: console_page_def console_kernel_def example_kernel_def task_at_def page5 CONSOLE_BUFFER_SIZE_def intro!: exI [of _ 1])
  with console_equals_direct_output [OF l, where t = 0 and k = ?k and base = "0x5010" and D = block_file and f = Stdin] s obtain buf k' where
    1: "console_print (kernel_write block_file 0 0x5010) [[72, 105], [10, 62]] [] ?k = Inr (buf, k')" "k_output k' @ buf = [72, 105, 10, 62]" by auto
  have "stdout_is 0 (Some Stdin) ?k2" "\<not> file_writable ?k2 Stdin"
    by (simp_all add: stdout_is_def console_kernel_def example_kernel_def task_at_def file_writable_def)
  with console_equals_direct_output [OF l, where t = 0 and k = ?k2 and base = "0x5010" and D = block_file and f = Stdin]
  have "console_print (kernel_write block_file 0 0x5010) [[72, 105], [10, 62]] [] ?k2 = Inl UnwrapNone" by simp
  with 1 show ?thesis by blast
qed

end
