(* ===== verification/Spec2Isabelle.thy ===== *)
theory Spec2Isabelle
  imports Pipe_Run Packer Virtio Argv_Spec Exit_Spec User_Shell Pipe_Refs Console_Spec
begin

text \<open>
  A model of the rCore kernel of this repository, of its file system library, of the
  program that packs the disk image and of the library of the user programs, with the theorems that make them correct.

  \<^bold>\<open>The program.\<close> A machine starts the kernel (\<^verbatim>\<open>os/src\<close>), which gives every process an address
  space, runs the processes in turn, and serves their system calls. Files are kept by a
  library (\<^verbatim>\<open>easy-fs/src\<close>) on a block device behind a cache of sixteen blocks. A host program (\<^verbatim>\<open>easy-fs-fuse/src\<close>) fills a disk
  image with the user programs, which reach the kernel through a library of their own (\<^verbatim>\<open>user/src\<close>).

  \<^bold>\<open>How code becomes definitions.\<close> A struct is a record, an enum a datatype, an integer of \<open>w\<close> bits a word of
  that width, whose arithmetic wraps as it does in the release build. What can panic returns
  an \<^typ>\<open>'a res\<close>, whose left values are the panics; nothing runs after a panic. A loop that
  need not end is a partial function or its rounds are steps; \<^term>\<open>None\<close> is not returning. No
  definition has fuel; \<open>fill_indirect2\<close> is given the number of its rounds, which is exactly that of the loop it
  models. Shared objects behind \<^verbatim>\<open>Arc\<close> are positions in lists with their numbers of strong references, and dropping the last one runs
  what the drop of the object runs; the object keeps its position, with no references left. Physical memory is a function from frames to
  their 4096 bytes; page tables, trap contexts and user buffers lie in it and are read back from it. The state of the kernel is the record
  \<open>kernel\<close>; a process that is not running keeps its place in the kernel as a continuation.

  \<^bold>\<open>Basics.\<close>
  \<^item> \<open>Prelude\<close>: words, panics, slices and the layout of words in bytes.
  \<^item> \<open>Id_Allocator\<close>, \<open>Fifo_Queue\<close>: the contracts, as locales, of the recycling allocators and of
    the queues. The frame allocator and the process identifiers interpret the first,
    the ring buffer, the mailbox and the ready queue the second.

  \<^bold>\<open>Memory\<close> (\<^verbatim>\<open>os/src/mm\<close>).
  \<^item> \<open>Address\<close>: \<^verbatim>\<open>address.rs\<close>, \<^verbatim>\<open>config.rs\<close>. \<open>Frame_Allocator\<close>: \<^verbatim>\<open>frame_allocator.rs\<close>; live frames are distinct, accounted
    for and handed out cleared.
  \<^item> \<open>User_Buffer\<close>, \<open>Page_Table\<close>: \<^verbatim>\<open>page_table.rs\<close>. \<open>Page_Table_Spec\<close>: the tree of nodes in memory implements a partial map
    (the locale \<open>page_map\<close>), so \<^verbatim>\<open>map\<close> and \<^verbatim>\<open>unmap\<close> change one page. \<open>User_Access\<close>: how the kernel reaches
    user memory, and the buffers on which it panics. \<open>Phys_Objects\<close>: stores of several bytes.
  \<^item> \<open>Memory_Set\<close>: \<^verbatim>\<open>memory_set.rs\<close>. \<open>Memory_Set_Spec\<close>: the invariant of an address space; adding
    areas, copying a space for \<^verbatim>\<open>fork\<close>, giving its frames back.

  \<^bold>\<open>Processes\<close> (\<^verbatim>\<open>os/src/task\<close>, \<^verbatim>\<open>os/src/trap\<close>, \<^verbatim>\<open>os/src/syscall\<close>).
  \<^item> \<open>Pid\<close>, \<open>Kernel_Stack\<close>: \<^verbatim>\<open>pid.rs\<close>; stacks are disjoint with guard pages. \<open>Trap_Context\<close>: the two saved contexts.
  \<^item> \<open>Task\<close>, \<open>Task_Ops\<close>: \<^verbatim>\<open>task.rs\<close>, \<^verbatim>\<open>manager.rs\<close>, \<^verbatim>\<open>processor.rs\<close>, \<^verbatim>\<open>mod.rs\<close>: control blocks, \<^verbatim>\<open>exec\<close>, \<^verbatim>\<open>fork\<close>,
    suspending, exiting and dropping.
  \<^item> \<open>Syscall_Fs\<close>, \<open>Syscall_Process\<close>: \<^verbatim>\<open>syscall/*.rs\<close>, \<^verbatim>\<open>timer.rs\<close>. \<open>Trap\<close>: the trap handler and the resumption of processes.
  \<^item> \<open>Scheduler\<close>: the steps of the kernel as an inductive relation; in every reachable state a process is in one place, and the queue is
    served in turn. \<open>Kernel_Refs\<close>: positions are those of objects that were made, ring buffers and mailboxes are within their bounds.
    \<open>Ref_Counts\<close>: the strong references of a process are at least the places that hold it, so nothing in the kernel refers to a process
    that is released. \<open>Pipe_Refs\<close>: the same for the ends of pipes, held by descriptor tables and by suspended calls.
  \<^item> \<open>Fork_Spec\<close>, \<open>Mmap_Spec\<close>, \<open>Exit_Spec\<close>, \<open>Fd_Spec\<close>, \<open>Clock_Spec\<close>, \<open>Argv_Spec\<close>: what the system calls do, from the arguments
    down to frames and bytes, error paths included.

  \<^bold>\<open>Communication\<close> (\<^verbatim>\<open>os/src/fs\<close>). \<open>Mail_Box\<close>: \<^verbatim>\<open>mail_box.rs\<close>. \<open>Pipe\<close>: \<^verbatim>\<open>pipe.rs\<close>. \<open>Pipe_Run\<close>: a reader and a writer whose rounds interleave;
  what is read is what was written, and neither waits for the other forever.

  \<^bold>\<open>Files\<close> (\<^verbatim>\<open>easy-fs/src\<close>, \<^verbatim>\<open>os/src/fs\<close>).
  \<^item> \<open>Block_Cache\<close>: \<^verbatim>\<open>block_dev.rs\<close> and \<^verbatim>\<open>block_cache.rs\<close>; the device is a parameter with
    the contract \<open>block_device\<close>, which the packer's device on a host file meets, as does \<open>Virtio\<close> (\<^verbatim>\<open>drivers/block/virtio_blk.rs\<close>) over a driver
    that meets it. \<open>Cache_Refine\<close>: the cache implements a plain array of blocks.
  \<^item> \<open>Bitmap\<close>, \<open>Layout\<close>, \<open>Efs\<close>, \<open>Vfs\<close>: \<^verbatim>\<open>bitmap.rs\<close>, \<^verbatim>\<open>layout.rs\<close>, \<^verbatim>\<open>efs.rs\<close>, \<^verbatim>\<open>vfs.rs\<close>.
  \<^item> \<open>Inode_Data\<close>, \<open>Inode_Grow\<close>, \<open>File_Alloc\<close>, \<open>File_Ops\<close>: an inode stands for the bytes of its file through direct, indirect
    and doubly indirect blocks; reading, writing and growing act on these bytes and on no other file.
  \<^item> \<open>Dir_Spec\<close>, \<open>Fs_Spec\<close>: a new file system refines a list of named files under any sequence of
    operations. \<open>Packer\<close>: \<^verbatim>\<open>easy-fs-fuse/src/main.rs\<close>; every program is in the image once the cached blocks are
    written back, which the packer leaves undone.
  \<^item> \<open>Os_Inode\<close>: \<^verbatim>\<open>fs/inode.rs\<close> and \<^verbatim>\<open>fs/stdio.rs\<close>; open files, hard links.

  \<^bold>\<open>User library\<close> (\<^verbatim>\<open>user/src\<close>). \<open>User_Lib\<close>: \<^verbatim>\<open>syscall.rs\<close>; each wrapper, run against the kernel's trap handler, is the
  handler of the same name. \<open>User_Runtime\<close>: \<^verbatim>\<open>console.rs\<close> and \<^verbatim>\<open>lib.rs\<close>; the output buffer, waiting loops, the start of a program.
  \<open>Console_Spec\<close>: what printing does when the writes of the console go to the kernel's handler.
  \<open>User_Shell\<close>: the command line of \<^verbatim>\<open>bin/ch7_usershell.rs\<close>.

  \<^bold>\<open>Bounds.\<close> Frame numbers are below \<open>2 ^ 44\<close>, as entries of 54 bits demand. Files are bounded by the places of an inode and by the free data
  blocks; theorems about the file system ask that the files fit. The invariants of the allocators bound identifiers by the ranges they were given.
  Offsets in files are naturals, as they stay below the size of a file, far from \<open>2 ^ 64\<close>. A string copied from a user is the list of its bytes; where the
  code encodes its characters again, the definitions of the callers do.
  Theorems that need free memory state how many frames.

  \<^bold>\<open>Parameters.\<close> The block device, the ELF parser (\<^verbatim>\<open>xmas_elf\<close>), the symbols of the linker script, addresses of code, the value of
  \<^verbatim>\<open>sstatus\<close>, the clock, console input, the virtio driver, and the contents of host directories are arguments of the definitions that use them.

  \<^bold>\<open>Not modelled.\<close> Assembly (\<^verbatim>\<open>trap.S\<close>, \<^verbatim>\<open>switch.S\<close>, \<^verbatim>\<open>entry.asm\<close>): saving and restoring registers and switching stacks
  is the assumption that a process continues with the registers in its trap context. Registers of the processor (\<^verbatim>\<open>satp\<close>, \<^verbatim>\<open>stvec\<close>, \<^verbatim>\<open>sie\<close>) and SBI calls: they have no state the
  code reads back. Logging and the kernel's console: formatting of text; the messages of the
  kernel itself, such as that of a failed \<^verbatim>\<open>fork\<close>, are not part of the output that \<open>k_output\<close> records, which is what programs write. The heaps of the kernel and of
  programs (\<^verbatim>\<open>buddy_system_allocator\<close>): third-party code; the models never run out of heap. The start of
  the kernel (\<^verbatim>\<open>main.rs\<close>, \<^verbatim>\<open>build.rs\<close>): an order of initialisations. The other programs in \<^verbatim>\<open>user/src/bin\<close> and \<^verbatim>\<open>ch8.rs\<close>: tests over the library.
  Kernel code runs with interrupts off on one processor, so its steps are atomic; the locks that this
  leaves are those a thread of control takes twice, which the block cache models as deadlock.
\<close>

end
